(* ===== verification/Prelude.thy ===== *)
theory Prelude
  imports Main "HOL-Library.Multiset" "HOL-Library.Word"
begin

text \<open>
  Shared material of the development: the collections of rewrite rules, the list facts that the
  array-based components use, and the in-place compaction loop
  \<^verbatim>\<open>for (i = j = 0; i < n; i++) if (keep(a[i])) a[j++] = a[i];\<close> that the C++ code repeats in
  \<^verbatim>\<open>vec::remove\<close>, \<^verbatim>\<open>OccLists::clean\<close>, \<^verbatim>\<open>Solver::removeSatisfied\<close>, \<^verbatim>\<open>Solver::addClause_\<close> and
  \<^verbatim>\<open>Solver::reduceDB\<close>.
\<close>

unbundle bit_operations_syntax

named_theorems frame_simps "fields that an operation leaves alone"
named_theorems inv_intros "operations that keep an invariant"

section \<open>Lists updated by index\<close>

lemma nth_list_update_if:
  "j < length xs \<Longrightarrow> xs[i := x] ! j = (if i = j then x else xs ! j)"
  by (simp add: nth_list_update)

lemma nth_list_update_any:
  "xs[i := x] ! j = (if i = j \<and> i < length xs then x else xs ! j)"
  by (cases "i < length xs") (auto simp: nth_list_update list_update_beyond)

definition swap_at :: "nat \<Rightarrow> nat \<Rightarrow> 'a list \<Rightarrow> 'a list" where
  "swap_at i j xs = xs[i := xs ! j, j := xs ! i]"

lemma length_swap_at [simp]: "length (swap_at i j xs) = length xs"
  by (simp add: swap_at_def)

lemma mset_swap_at [simp]:
  assumes "i < length xs" "j < length xs"
  shows "mset (swap_at i j xs) = mset xs"
  using assms by (simp add: swap_at_def mset_swap)

lemma set_swap_at [simp]:
  assumes "i < length xs" "j < length xs"
  shows "set (swap_at i j xs) = set xs"
  using mset_swap_at [OF assms] by (metis set_mset_mset)

lemma nth_swap_at:
  assumes "i < length xs" "j < length xs" "k < length xs"
  shows "swap_at i j xs ! k = (if k = j then xs ! i else if k = i then xs ! j else xs ! k)"
  using assms by (auto simp: swap_at_def nth_list_update_any)

lemma distinct_swap_at [simp]:
  assumes "i < length xs" "j < length xs"
  shows "distinct (swap_at i j xs) = distinct xs"
  using mset_swap_at [OF assms] by (metis mset_eq_imp_distinct_iff)

section \<open>The compaction loop\<close>

text \<open>
  The state of the loop is the array and the two indices; \<open>j \<le> i\<close> holds throughout, so the
  write to \<open>a[j]\<close> never destroys an element that is still to be read.
\<close>

function compact_loop :: "('a \<Rightarrow> bool) \<Rightarrow> 'a list \<Rightarrow> nat \<Rightarrow> nat \<Rightarrow> 'a list \<times> nat \<times> nat" where
  "compact_loop keep a i j =
     (if i < length a
      then if keep (a ! i)
           then compact_loop keep (a[j := a ! i]) (Suc i) (Suc j)
           else compact_loop keep a (Suc i) j
      else (a, i, j))"
  by pat_completeness auto
termination
  by (relation "measure (\<lambda>(keep, a, i, j). length a - i)") auto

declare compact_loop.simps [simp del]

text \<open>The whole idiom: run the loop, then \<^verbatim>\<open>shrink(i - j)\<close>.\<close>

definition compact_vec :: "('a \<Rightarrow> bool) \<Rightarrow> 'a list \<Rightarrow> 'a list" where
  "compact_vec keep a = (case compact_loop keep a 0 0 of (a', i, j) \<Rightarrow> take (length a' - (i - j)) a')"

lemma compact_loop_result:
  assumes "j \<le> i" "i \<le> length a"
  shows "\<exists>a' j'. compact_loop keep a i j = (a', length a, j') \<and> length a' = length a \<and>
           j' \<le> length a \<and> take j' a' = take j a @ filter keep (drop i a)"
  using assms
proof (induction keep a i j rule: compact_loop.induct)
  case (1 keep a i j)
  show ?case
  proof (cases "i < length a")
    case False
    with "1.prems" have "i = length a" by simp
    with "1.prems" show ?thesis by (simp add: compact_loop.simps [of keep a "length a" j])
  next
    case True
    note drop_i = Cons_nth_drop_Suc [OF True, symmetric]
    show ?thesis
    proof (cases "keep (a ! i)")
      case True
      have "take (Suc j) (a[j := a ! i]) = take j a @ [a ! i]"
        using "1.prems" \<open>i < length a\<close> by (simp add: take_Suc_conv_app_nth)
      moreover have "drop (Suc i) (a[j := a ! i]) = drop (Suc i) a"
        using "1.prems" by simp
      ultimately show ?thesis
        using "1.IH"(1) [OF \<open>i < length a\<close> True] "1.prems" \<open>i < length a\<close> True
        by (simp add: compact_loop.simps [of keep a i j] drop_i)
    next
      case False
      then show ?thesis
        using "1.IH"(2) [OF \<open>i < length a\<close> False] "1.prems" \<open>i < length a\<close>
        by (simp add: compact_loop.simps [of keep a i j] drop_i)
    qed
  qed
qed

lemma compact_vec_eq_filter [simp]: "compact_vec keep a = filter keep a"
  using compact_loop_result [of 0 0 a keep] by (auto simp: compact_vec_def)

section \<open>Lists\<close>

lemma last_index_split: "xs \<noteq> [] \<Longrightarrow> xs = butlast xs @ [last xs]"
  by simp

lemma take_Suc_snoc: "i < length xs \<Longrightarrow> take (Suc i) xs = take i xs @ [xs ! i]"
  by (rule take_Suc_conv_app_nth)

lemma in_set_take_nth: "x \<in> set (take n xs) \<longleftrightarrow> (\<exists>i < n. i < length xs \<and> xs ! i = x)"
  by (auto simp: in_set_conv_nth)

end
