(* ===== verification/MTL_Vec.thy ===== *)
theory MTL_Vec
  imports Prelude
begin

text \<open>
  The resizable array \<^verbatim>\<open>vec<T>\<close> of \<^verbatim>\<open>mtl/Vec.h\<close> and the generic algorithms of \<^verbatim>\<open>mtl/Alg.h\<close>.
  A vector is its live elements (\<open>vdata\<close>, so \<^verbatim>\<open>sz\<close> is the length of that list) and its capacity, a
  32-bit signed integer.  \<^verbatim>\<open>realloc\<close> is the C library's: whether a request succeeds is a parameter.
  Asserted preconditions are error values.
\<close>

type_synonym int32 = "32 word"

abbreviation INT_MAX :: int32 where "INT_MAX \<equiv> 0x7FFFFFFF"

datatype vec_error = OutOfMemoryException | AssertionViolated

record 'a vec =
  vdata :: "'a list"
  vcap :: int32

abbreviation sz :: "'a vec \<Rightarrow> nat" where "sz v \<equiv> length (vdata v)"

section \<open>Capacity\<close>

definition imax :: "int32 \<Rightarrow> int32 \<Rightarrow> int32" where
  "imax x y = (let mask = signed_drop_bit 31 (y - x) in (x AND mask) + (y AND NOT mask))"

definition nextCap :: "int32 \<Rightarrow> int32" where
  "nextCap c = c + ((signed_drop_bit 1 c + 2) AND NOT 1)"

definition vec_empty :: "'a vec" where
  "vec_empty = \<lparr>vdata = [], vcap = 0\<rparr>"

text \<open>\<open>realloc_ok c\<close> says whether \<^verbatim>\<open>realloc\<close> can serve a buffer of \<open>c\<close> elements.\<close>

definition vec_capacity :: "(int32 \<Rightarrow> bool) \<Rightarrow> int32 \<Rightarrow> 'a vec \<Rightarrow> vec_error + 'a vec" where
  "vec_capacity realloc_ok min_cap v =
     (if min_cap \<le>s vcap v then Inr v
      else let add = imax ((min_cap - vcap v + 1) AND NOT 1)
                          ((signed_drop_bit 1 (vcap v) + 2) AND NOT 1)
           in if INT_MAX - vcap v <s add then Inl OutOfMemoryException
              else if realloc_ok (vcap v + add) then Inr (v\<lparr>vcap := vcap v + add\<rparr>)
              else Inl OutOfMemoryException)"

definition vec_growTo :: "(int32 \<Rightarrow> bool) \<Rightarrow> nat \<Rightarrow> 'a \<Rightarrow> 'a vec \<Rightarrow> vec_error + 'a vec" where
  "vec_growTo realloc_ok newsz pad v =
     (if newsz \<le> sz v then Inr v
      else case vec_capacity realloc_ok (word_of_nat newsz) v of
             Inl e \<Rightarrow> Inl e
           | Inr v' \<Rightarrow> Inr (v'\<lparr>vdata := vdata v' @ replicate (newsz - sz v) pad\<rparr>))"

definition vec_push :: "(int32 \<Rightarrow> bool) \<Rightarrow> 'a \<Rightarrow> 'a vec \<Rightarrow> vec_error + 'a vec" where
  "vec_push realloc_ok elem v =
     (case (if word_of_nat (sz v) = vcap v
            then vec_capacity realloc_ok (word_of_nat (sz v) + 1) v else Inr v) of
        Inl e \<Rightarrow> Inl e
      | Inr v' \<Rightarrow> Inr (v'\<lparr>vdata := vdata v' @ [elem]\<rparr>))"

definition vec_push_unchecked :: "'a \<Rightarrow> 'a vec \<Rightarrow> vec_error + 'a vec" where
  "vec_push_unchecked elem v =
     (if word_of_nat (sz v) <s vcap v then Inr (v\<lparr>vdata := vdata v @ [elem]\<rparr>)
      else Inl AssertionViolated)"

fun shrink_steps :: "nat \<Rightarrow> 'a list \<Rightarrow> 'a list" where
  "shrink_steps 0 d = d"
| "shrink_steps (Suc n) d = shrink_steps n (butlast d)"

definition vec_shrink :: "nat \<Rightarrow> 'a vec \<Rightarrow> vec_error + 'a vec" where
  "vec_shrink nelems v =
     (if nelems \<le> sz v then Inr (v\<lparr>vdata := shrink_steps nelems (vdata v)\<rparr>)
      else Inl AssertionViolated)"

definition vec_shrink_raw :: "nat \<Rightarrow> 'a vec \<Rightarrow> vec_error + 'a vec" where
  "vec_shrink_raw nelems v =
     (if nelems \<le> sz v then Inr (v\<lparr>vdata := take (sz v - nelems) (vdata v)\<rparr>)
      else Inl AssertionViolated)"

definition vec_pop :: "'a vec \<Rightarrow> vec_error + 'a vec" where
  "vec_pop v = (if 0 < sz v then Inr (v\<lparr>vdata := butlast (vdata v)\<rparr>) else Inl AssertionViolated)"

definition vec_last :: "'a vec \<Rightarrow> 'a option" where
  "vec_last v = (if vdata v = [] then None else Some (vdata v ! (sz v - 1)))"

definition vec_clear :: "bool \<Rightarrow> 'a vec \<Rightarrow> 'a vec" where
  "vec_clear dealloc v = \<lparr>vdata = [], vcap = (if dealloc then 0 else vcap v)\<rparr>"

section \<open>Whole-vector operations\<close>

definition vec_moveTo :: "'a vec \<Rightarrow> 'a vec \<Rightarrow> 'a vec \<times> 'a vec" where
  "vec_moveTo src dst = (\<lparr>vdata = [], vcap = 0\<rparr>, \<lparr>vdata = vdata src, vcap = vcap src\<rparr>)"

definition vec_swap :: "'a vec \<Rightarrow> 'a vec \<Rightarrow> 'a vec \<times> 'a vec" where
  "vec_swap a b = (a\<lparr>vdata := vdata b, vcap := vcap b\<rparr>, b\<lparr>vdata := vdata a, vcap := vcap a\<rparr>)"

fun copy_loop :: "'a list \<Rightarrow> nat \<Rightarrow> nat \<Rightarrow> 'a list \<Rightarrow> 'a list" where
  "copy_loop src i 0 out = out"
| "copy_loop src i (Suc n) out = copy_loop src (Suc i) n (out[i := src ! i])"

text \<open>\<^verbatim>\<open>copyTo\<close> clears the target, grows it with default elements and assigns them one by one.\<close>

definition vec_copyTo :: "(int32 \<Rightarrow> bool) \<Rightarrow> 'a \<Rightarrow> 'a vec \<Rightarrow> 'a vec \<Rightarrow> vec_error + 'a vec" where
  "vec_copyTo realloc_ok dflt v copy =
     (case vec_growTo realloc_ok (sz v) dflt (vec_clear False copy) of
        Inl e \<Rightarrow> Inl e
      | Inr c \<Rightarrow> Inr (c\<lparr>vdata := copy_loop (vdata v) 0 (sz v) (vdata c)\<rparr>))"

fun contains_from :: "'a list \<Rightarrow> 'a \<Rightarrow> bool" where
  "contains_from [] e = False"
| "contains_from (x # xs) e = (if x = e then True else contains_from xs e)"

definition vec_contains :: "'a vec \<Rightarrow> 'a \<Rightarrow> bool" where
  "vec_contains v e = contains_from (vdata v) e"

fun count_from :: "'a list \<Rightarrow> 'a \<Rightarrow> nat \<Rightarrow> nat" where
  "count_from [] e c = c"
| "count_from (x # xs) e c = count_from xs e (if x = e then c + 1 else c)"

definition vec_count :: "'a vec \<Rightarrow> 'a \<Rightarrow> nat" where
  "vec_count v e = count_from (vdata v) e 0"

text \<open>\<^verbatim>\<open>vec::remove\<close>: the compaction loop, \<^verbatim>\<open>shrink(i - j)\<close>, and \<^verbatim>\<open>return j < i\<close>.\<close>

definition vec_remove_all :: "'a \<Rightarrow> 'a vec \<Rightarrow> (vec_error + 'a vec) \<times> bool" where
  "vec_remove_all e v =
     (case compact_loop (\<lambda>x. x \<noteq> e) (vdata v) 0 0 of
        (d, i, j) \<Rightarrow> (vec_shrink (i - j) (v\<lparr>vdata := d\<rparr>), j < i))"

section \<open>Alg.h\<close>

text \<open>\<^verbatim>\<open>find\<close> and the search loop of \<^verbatim>\<open>remove\<close>: the index where the scan stops.\<close>

fun scan_for :: "'a \<Rightarrow> 'a list \<Rightarrow> nat" where
  "scan_for t [] = 0"
| "scan_for t (x # xs) = (if x \<noteq> t then Suc (scan_for t xs) else 0)"

definition alg_find :: "'a list \<Rightarrow> 'a \<Rightarrow> bool" where
  "alg_find ts t = (scan_for t ts < length ts)"

function shift_down :: "'a list \<Rightarrow> nat \<Rightarrow> 'a list" where
  "shift_down ts j =
     (if j < length ts - 1 then shift_down (ts[j := ts ! (j + 1)]) (Suc j) else ts)"
  by pat_completeness auto
termination by (relation "measure (\<lambda>(ts, j). length ts - 1 - j)") auto

declare shift_down.simps [simp del]

text \<open>\<^verbatim>\<open>remove(ts, t)\<close>: find the first occurrence, shift the tail down by one, pop.\<close>

definition alg_remove :: "'a list \<Rightarrow> 'a \<Rightarrow> vec_error + 'a list" where
  "alg_remove ts t =
     (let j = scan_for t ts
      in if j < length ts then Inr (butlast (shift_down ts j)) else Inl AssertionViolated)"

definition alg_copy :: "'a list \<Rightarrow> 'a list \<Rightarrow> bool \<Rightarrow> 'a list" where
  "alg_copy src dst app = (if app then dst else []) @ src"

definition alg_append :: "'a list \<Rightarrow> 'a list \<Rightarrow> 'a list" where
  "alg_append src dst = alg_copy src dst True"

text \<open>\<^verbatim>\<open>while ((i != j) && (i != --j)) { swap(from[i], from[j]); ++i; }\<close>\<close>

function reverse_loop :: "'a list \<Rightarrow> nat \<Rightarrow> nat \<Rightarrow> 'a list" where
  "reverse_loop xs i j =
     (if i < j \<and> i \<noteq> j - 1 then reverse_loop (swap_at i (j - 1) xs) (Suc i) (j - 1) else xs)"
  by pat_completeness auto
termination by (relation "measure (\<lambda>(xs, i, j). j)") auto

declare reverse_loop.simps [simp del]

definition alg_reverse :: "'a list \<Rightarrow> 'a list" where
  "alg_reverse xs = reverse_loop xs 0 (length xs)"

section \<open>Capacity arithmetic does not wrap\<close>

lemma sint_int32_bounds: "- (2 ^ 31) \<le> sint (w :: int32)" "sint (w :: int32) < 2 ^ 31"
  using sint_greater_eq [of w] sint_lt [of w] by simp_all

lemma sint_eqI:
  fixes w :: int32
  assumes "w = word_of_int k" "- (2 ^ 31) \<le> k" "k < 2 ^ 31"
  shows "sint w = k"
  using assms by (simp add: sint_sbintrunc' signed_take_bit_int_eq_self)

lemma word_of_sint: "word_of_int (sint w) = (w :: int32)"
  by simp

lemma sint_plus:
  fixes a b :: int32
  assumes "- (2 ^ 31) \<le> sint a + sint b" "sint a + sint b < 2 ^ 31"
  shows "sint (a + b) = sint a + sint b"
  by (rule sint_eqI) (use assms in simp_all)

lemma sint_minus:
  fixes a b :: int32
  assumes "- (2 ^ 31) \<le> sint a - sint b" "sint a - sint b < 2 ^ 31"
  shows "sint (a - b) = sint a - sint b"
  by (rule sint_eqI) (use assms in simp_all)

lemma sign_mask:
  "signed_drop_bit 31 (w :: int32) = (if sint w < 0 then - 1 else 0)"
proof -
  have "sint (signed_drop_bit 31 w) = sint w div 2 ^ 31"
    by (simp add: sint_signed_drop_bit_eq drop_bit_eq_div)
  also have "\<dots> = (if sint w < 0 then - 1 else 0)"
    using sint_int32_bounds [of w] by auto
  finally show ?thesis
    by (metis word_of_sint of_int_0 of_int_minus of_int_1)
qed

lemma imax_max:
  assumes "0 \<le> sint x" "0 \<le> sint y"
  shows "imax x y = (if sint x \<le> sint y then y else x)"
proof -
  have "sint (y - x) = sint y - sint x"
    using assms sint_int32_bounds [of x] sint_int32_bounds [of y] by (intro sint_minus) auto
  then show ?thesis
    by (simp add: imax_def Let_def sign_mask)
qed

lemma sint_nonneg_uint: "0 \<le> sint (w :: int32) \<Longrightarrow> uint w = sint w"
  using sint_int32_bounds [of w]
  by (simp add: uint_sint take_bit_int_eq_self)

lemma and_not_one: "k AND NOT (1::int) = k - k mod 2"
proof -
  have "k AND NOT 1 = push_bit 1 (drop_bit 1 k)"
    by (rule bit_eqI) (simp add: bit_and_iff bit_not_iff bit_1_iff bit_push_bit_iff bit_drop_bit_eq
        Suc_le_eq del: push_bit_Suc drop_bit_Suc, auto)
  also have "\<dots> = k - k mod 2"
    by (simp add: push_bit_eq_mult drop_bit_eq_div minus_mod_eq_mult_div)
  finally show ?thesis .
qed

lemma clear_low_bit:
  fixes w :: int32
  assumes "0 \<le> sint w"
  shows "sint (w AND NOT 1) = sint w - sint w mod 2"
proof -
  have "w AND NOT 1 = word_of_int (sint w AND NOT 1)"
    by (metis word_of_sint of_int_and_eq of_int_not_eq of_int_1)
  then have "w AND NOT 1 = word_of_int (sint w - sint w mod 2)"
    by (simp only: and_not_one)
  then show ?thesis
    by (rule sint_eqI) (use assms sint_int32_bounds [of w] pos_mod_bound [of 2 "sint w"]
        pos_mod_sign [of 2 "sint w"] in linarith)+
qed


section \<open>The vector invariant\<close>

text \<open>
  Capacities start at 0 and grow by even amounts, so they stay even and below \<open>INT_MAX\<close>, which is odd:
  this is the argument of the comment at the end of the stack interface in \<^verbatim>\<open>Vec.h\<close>.
\<close>

definition vec_wf :: "'a vec \<Rightarrow> bool" where
  "vec_wf v \<longleftrightarrow> 0 \<le> sint (vcap v) \<and> even (sint (vcap v)) \<and> int (sz v) \<le> sint (vcap v)"

lemma half_plus_two:
  fixes c :: int32
  assumes "0 \<le> sint c"
  shows "sint ((signed_drop_bit 1 c + 2) AND NOT 1)
           = sint c div 2 + 2 - (sint c div 2 + 2) mod 2"
proof -
  have h: "sint (signed_drop_bit 1 c) = sint c div 2"
    by (simp add: sint_signed_drop_bit_eq drop_bit_eq_div)
  then have "sint (signed_drop_bit 1 c + 2) = sint c div 2 + 2"
    using assms sint_int32_bounds [of c] by (subst sint_plus) simp_all
  then show ?thesis
    using assms by (subst clear_low_bit) simp_all
qed

lemma vec_capacity_ok:
  assumes wf: "vec_wf v" and m: "sint m - sint (vcap v) < 2 ^ 31 - 1"
    and res: "vec_capacity ok m v = Inr v'"
  shows "vec_wf v' \<and> sint m \<le> sint (vcap v') \<and> vdata v' = vdata v"
proof (cases "m \<le>s vcap v")
  case True
  with wf res show ?thesis by (simp add: vec_capacity_def word_sle_eq)
next
  case False
  let ?c = "vcap v"
  let ?a = "(m - ?c + 1) AND NOT 1" and ?b = "(signed_drop_bit 1 ?c + 2) AND NOT 1"
  let ?add = "imax ?a ?b"
  have c: "0 \<le> sint ?c" "even (sint ?c)" and lt: "sint ?c < sint m"
    using wf False by (auto simp: vec_wf_def word_sle_eq)
  have mc: "sint (m - ?c) = sint m - sint ?c"
    using c lt sint_int32_bounds [of m] by (intro sint_minus) auto
  have mc1: "sint (m - ?c + 1) = sint m - sint ?c + 1"
    using m lt mc by (subst sint_plus) auto
  have a: "sint ?a = (sint m - sint ?c + 1) - (sint m - sint ?c + 1) mod 2"
    using lt mc1 by (subst clear_low_bit) simp_all
  have b: "sint ?b = sint ?c div 2 + 2 - (sint ?c div 2 + 2) mod 2"
    by (rule half_plus_two) (rule c)
  have ab: "0 \<le> sint ?a" "0 \<le> sint ?b" "even (sint ?a)" "even (sint ?b)"
    unfolding a b minus_mod_eq_mult_div using lt c by simp_all
  have add: "sint ?add = max (sint ?a) (sint ?b)"
    using imax_max [OF ab(1,2)] by auto
  have room: "\<not> INT_MAX - ?c <s ?add" and v': "v' = v\<lparr>vcap := ?c + ?add\<rparr>"
    using res False by (auto simp: vec_capacity_def Let_def split: if_splits)
  have "sint (INT_MAX - ?c) = (2 ^ 31 - 1) - sint ?c"
    using c sint_int32_bounds [of ?c] by (subst sint_minus) simp_all
  with room have "sint ?add \<le> (2 ^ 31 - 1) - sint ?c"
    by (simp add: word_sless_alt)
  then have sum: "sint (?c + ?add) = sint ?c + sint ?add"
    using c ab add by (intro sint_plus) auto
  have "even (sint ?add)" and "sint m - sint ?c \<le> sint ?add"
    unfolding add using ab a by (auto simp: max_def)
  with sum c ab add wf show ?thesis
    by (auto simp: v' vec_wf_def)
qed

lemma sint_word_of_nat:
  "int n < 2 ^ 31 \<Longrightarrow> sint (word_of_nat n :: int32) = int n"
  by (rule sint_eqI) auto

lemma vec_capacity_error: "vec_capacity ok m v = Inl e \<Longrightarrow> e = OutOfMemoryException"
  by (auto simp: vec_capacity_def Let_def split: if_splits)

text \<open>C31: \<^verbatim>\<open>push\<close> on a well-formed vector either runs out of memory or appends the element, and the
  capacity arithmetic on 32-bit integers (\<^verbatim>\<open>sz + 1\<close>, the growth step, \<^verbatim>\<open>cap += add\<close>) never wraps: the
  capacity stays even, non-negative and large enough.\<close>

theorem vec_push_no_overflow:
  assumes "vec_wf v"
  shows "case vec_push ok x v of
           Inl e \<Rightarrow> e = OutOfMemoryException
         | Inr v' \<Rightarrow> vec_wf v' \<and> vdata v' = vdata v @ [x]"
proof (cases "word_of_nat (sz v) = vcap v")
  case True
  let ?m = "word_of_nat (sz v) + 1 :: int32"
  have cap: "0 \<le> sint (vcap v)" "even (sint (vcap v))" using assms by (auto simp: vec_wf_def)
  have "odd (2 ^ 31 - 1 :: int)" by simp
  with cap have "sint (vcap v) \<noteq> 2 ^ 31 - 1" by metis
  then have lt: "sint (vcap v) < 2 ^ 31 - 1" using sint_int32_bounds [of "vcap v"] by linarith
  then have m: "sint ?m = sint (vcap v) + 1"
    using True cap by (subst sint_plus) simp_all
  have sz: "int (sz v) \<le> sint (vcap v)" using assms by (simp add: vec_wf_def)
  show ?thesis
  proof (cases "vec_capacity ok ?m v")
    case (Inl e)
    with True show ?thesis by (simp add: vec_push_def vec_capacity_error)
  next
    case (Inr v')
    from vec_capacity_ok [OF assms _ Inr] m sz
    have "vec_wf v'" "sint ?m \<le> sint (vcap v')" "vdata v' = vdata v" by auto
    with m sz True Inr show ?thesis by (auto simp: vec_push_def vec_wf_def)
  qed
next
  case False
  have "int (sz v) \<noteq> sint (vcap v)"
    using False assms by (metis of_int_of_nat_eq word_of_sint)
  with False assms show ?thesis by (auto simp: vec_push_def vec_wf_def)
qed

text \<open>A growing vector: the first push allocates, the second fills the capacity.\<close>

theorem vec_push_no_overflow_witness:
  "vec_wf (vec_empty :: nat vec) \<and>
   (case vec_push (\<lambda>_. True) 7 (vec_empty :: nat vec) of
      Inl e \<Rightarrow> e = OutOfMemoryException | Inr v' \<Rightarrow> vec_wf v' \<and> vdata v' = vdata vec_empty @ [7])"
proof -
  have "vec_wf (vec_empty :: nat vec)" by (simp add: vec_wf_def vec_empty_def)
  then show ?thesis by (intro conjI vec_push_no_overflow)
qed

section \<open>Refinement to lists\<close>

lemma shrink_steps_take: "n \<le> length d \<Longrightarrow> shrink_steps n d = take (length d - n) d"
proof (induction n arbitrary: d)
  case (Suc n)
  then have "n \<le> length (butlast d)" by simp
  from Suc.IH [OF this] Suc.prems show ?case
    by (simp add: butlast_conv_take)
qed simp

lemma contains_from_iff: "contains_from xs e \<longleftrightarrow> e \<in> set xs"
  by (induction xs) auto

lemma count_from_eq: "count_from xs e c = c + count_list xs e"
  by (induction xs arbitrary: c) auto

lemma copy_loop_nth:
  assumes "i + n \<le> length out" "i + n \<le> length src"
  shows "copy_loop src i n out = take i out @ take n (drop i src) @ drop (i + n) out"
  using assms
proof (induction n arbitrary: i out)
  case (Suc n)
  then have "take (Suc i) (out[i := src ! i]) = take i out @ [src ! i]"
    by (simp add: take_Suc_conv_app_nth)
  moreover have "take (Suc n) (drop i src) = src ! i # take n (drop (Suc i) src)"
    using Suc.prems by (simp add: Cons_nth_drop_Suc [symmetric])
  ultimately show ?case using Suc by simp
qed simp

lemma scan_for_split:
  "scan_for t ts < length ts \<Longrightarrow> ts = take (scan_for t ts) ts @ t # drop (Suc (scan_for t ts)) ts
     \<and> t \<notin> set (take (scan_for t ts) ts)"
  by (induction ts) (auto split: if_splits)

lemma scan_for_less: "scan_for t ts < length ts \<longleftrightarrow> t \<in> set ts"
  by (induction ts) auto

lemma shift_down_eq:
  assumes "j < length ts"
  shows "butlast (shift_down ts j) = take j ts @ drop (Suc j) ts"
  using assms
proof (induction ts j rule: shift_down.induct)
  case (1 ts j)
  show ?case
  proof (cases "j < length ts - 1")
    case True
    have "take (Suc j) (ts[j := ts ! (j + 1)]) = take j ts @ [ts ! Suc j]"
      using "1.prems" by (simp add: take_Suc_conv_app_nth)
    with "1.IH" [OF True] True "1.prems" show ?thesis
      by (simp add: shift_down.simps [of ts j] Cons_nth_drop_Suc)
  next
    case False
    with "1.prems" have "j = length ts - 1" by simp
    moreover have "shift_down ts j = ts"
      using False by (simp add: shift_down.simps [of ts j])
    ultimately show ?thesis
      using "1.prems" by (simp add: butlast_conv_take)
  qed
qed

lemma alg_remove_eq: "alg_remove ts t = (if t \<in> set ts then Inr (remove1 t ts) else Inl AssertionViolated)"
proof (cases "t \<in> set ts")
  case True
  then have lt: "scan_for t ts < length ts" by (simp add: scan_for_less)
  let ?j = "scan_for t ts"
  from scan_for_split [OF lt] have "remove1 t ts = take ?j ts @ drop (Suc ?j) ts"
    by (metis remove1.simps(2) remove1_append)
  with lt True show ?thesis by (simp add: alg_remove_def shift_down_eq Let_def)
qed (simp add: alg_remove_def Let_def scan_for_less)

lemma reverse_loop_eq:
  assumes "j \<le> length xs" "i \<le> j"
  shows "reverse_loop xs i j = take i xs @ rev (drop i (take j xs)) @ drop j xs"
  using assms
proof (induction xs i j rule: reverse_loop.induct)
  case (1 xs i j)
  show ?case
  proof (cases "i < j \<and> i \<noteq> j - 1")
    case True
    let ?ys = "swap_at i (j - 1) xs"
    have le: "j - 1 \<le> length ?ys" "Suc i \<le> j - 1" using "1.prems" True by auto
    have r: "reverse_loop xs i j = take (Suc i) ?ys @ rev (drop (Suc i) (take (j - 1) ?ys)) @ drop (j - 1) ?ys"
      using "1.IH" [OF True le] True by (simp add: reverse_loop.simps [of xs i j])
    have a: "take (Suc i) ?ys = take i xs @ [xs ! (j - 1)]"
      using "1.prems" True by (auto simp: swap_at_def take_Suc_conv_app_nth nth_list_update_any
          intro: take_update_cancel)
    have b: "drop (Suc i) (take (j - 1) ?ys) = drop (Suc i) (take (j - 1) xs)"
      by (simp add: swap_at_def take_update_swap list_update_beyond)
    have c: "drop (j - 1) ?ys = xs ! i # drop j xs"
      using "1.prems" True
      by (subst Cons_nth_drop_Suc [symmetric]) (auto simp: swap_at_def nth_list_update_any)
    have "drop i (take j xs) = xs ! i # drop (Suc i) (take (j - 1) xs) @ [xs ! (j - 1)]"
    proof -
      have "take j xs = take (j - 1) xs @ [xs ! (j - 1)]"
        by (metis le(2) "1.prems"(1) Suc_diff_1 Suc_le_lessD diff_Suc_less less_le_trans
            take_Suc_conv_app_nth True zero_less_iff_neq_zero not_less0)
      then show ?thesis
        using le(2) "1.prems" Cons_nth_drop_Suc [of i "take (j - 1) xs"] by simp
    qed
    with r a b c show ?thesis by simp
  next
    case False
    then have "i = j \<or> j = Suc i" using "1.prems" by auto
    then show ?thesis
    proof
      assume "j = Suc i"
      with "1.prems" show ?thesis
        by (simp add: reverse_loop.simps [of xs i "Suc i"] take_Suc_conv_app_nth
            id_take_nth_drop [symmetric])
    qed (simp add: reverse_loop.simps)
  qed
qed

text \<open>C32: the in-place and index-based vector algorithms compute the list functions they stand for:
  \<^verbatim>\<open>vec::remove\<close> filters out every copy and reports whether one was there, \<^verbatim>\<open>Alg.h\<close>'s \<^verbatim>\<open>remove\<close>
  deletes the first copy (and needs one), \<^verbatim>\<open>vec::contains\<close> and \<^verbatim>\<open>find\<close> test membership, \<^verbatim>\<open>vec::count\<close> counts
  the copies, \<^verbatim>\<open>reverse\<close> reverses, \<^verbatim>\<open>copyTo\<close> copies when memory suffices.\<close>

theorem vec_algorithms_refine_lists:
  "vec_remove_all e v = (Inr (v\<lparr>vdata := filter (\<lambda>x. x \<noteq> e) (vdata v)\<rparr>), e \<in> set (vdata v))
   \<and> alg_remove xs e = (if e \<in> set xs then Inr (remove1 e xs) else Inl AssertionViolated)
   \<and> (vec_contains v e \<longleftrightarrow> e \<in> set (vdata v))
   \<and> vec_count v e = count_list (vdata v) e
   \<and> alg_find xs e = (e \<in> set xs)
   \<and> alg_reverse xs = rev xs
   \<and> (case vec_copyTo ok d v w of Inl er \<Rightarrow> er = OutOfMemoryException | Inr w' \<Rightarrow> vdata w' = vdata v)"
proof -
  obtain a' j' where c: "compact_loop (\<lambda>x. x \<noteq> e) (vdata v) 0 0 = (a', sz v, j')"
    "length a' = sz v" "j' \<le> sz v" "take j' a' = filter (\<lambda>x. x \<noteq> e) (vdata v)"
    using compact_loop_result [of 0 0 "vdata v" "\<lambda>x. x \<noteq> e"] by auto
  have "length (filter (\<lambda>x. x \<noteq> e) (vdata v)) = j'"
    using c by (metis length_take min.absorb2)
  then have "j' < sz v \<longleftrightarrow> e \<in> set (vdata v)"
    using length_filter_less [of e "vdata v" "\<lambda>x. x \<noteq> e"] filter_True [of "vdata v" "\<lambda>x. x \<noteq> e"]
    by (metis (no_types, lifting) less_irrefl)
  then have 1: "vec_remove_all e v = (Inr (v\<lparr>vdata := filter (\<lambda>x. x \<noteq> e) (vdata v)\<rparr>), e \<in> set (vdata v))"
    using c by (simp add: vec_remove_all_def vec_shrink_def shrink_steps_take)
  have 2: "alg_find xs e = (e \<in> set xs)" by (simp add: alg_find_def scan_for_less)
  have 3: "alg_reverse xs = rev xs" by (simp add: alg_reverse_def reverse_loop_eq)
  have 4: "case vec_copyTo ok d v w of Inl er \<Rightarrow> er = OutOfMemoryException | Inr w' \<Rightarrow> vdata w' = vdata v"
    by (auto simp: vec_copyTo_def vec_growTo_def vec_clear_def copy_loop_nth vec_capacity_error
        vec_capacity_def Let_def split: sum.splits if_splits)
  have 5: "vec_contains v e \<longleftrightarrow> e \<in> set (vdata v)" "vec_count v e = count_list (vdata v) e"
    by (simp_all add: vec_contains_def contains_from_iff vec_count_def count_from_eq)
  show ?thesis using 1 2 3 4 5 by (simp only: alg_remove_eq simp_thms)
qed

end
