(* ===== verification/MTL_Sort.thy ===== *)
theory MTL_Sort
  imports Prelude
begin

text \<open>
  \<^verbatim>\<open>mtl/Sort.h\<close>: selection sort for at most 15 elements, otherwise a quicksort with Hoare's
  partition, over an arbitrary comparator object.  An array segment \<^verbatim>\<open>(array, size)\<close> is a list, so
  the two recursive calls \<^verbatim>\<open>sort(array, i)\<close> and \<^verbatim>\<open>sort(&array[i], size - i)\<close> work on a prefix and a
  suffix.  The two scans of the partition have no bound check of their own: a scan that would leave
  the array gives \<open>None\<close>, and so does a recursion that does not end.  The theorems show that neither
  happens for a strict weak order, which is the contract of the comparator.
\<close>

section \<open>The code\<close>

function best_loop :: "('a \<Rightarrow> 'a \<Rightarrow> bool) \<Rightarrow> 'a list \<Rightarrow> nat \<Rightarrow> nat \<Rightarrow> nat" where
  "best_loop lt array best_i j =
     (if j < length array
      then best_loop lt array (if lt (array ! j) (array ! best_i) then j else best_i) (Suc j)
      else best_i)"
  by pat_completeness auto
termination by (relation "measure (\<lambda>(lt, array, b, j). length array - j)") auto

function selection_loop :: "('a \<Rightarrow> 'a \<Rightarrow> bool) \<Rightarrow> 'a list \<Rightarrow> nat \<Rightarrow> 'a list" where
  "selection_loop lt array i =
     (if Suc i < length array
      then selection_loop lt (swap_at i (best_loop lt array i (Suc i)) array) (Suc i)
      else array)"
  by pat_completeness auto
termination by (relation "measure (\<lambda>(lt, array, i). length array - i)") auto

declare best_loop.simps [simp del] selection_loop.simps [simp del]

definition selectionSort :: "('a \<Rightarrow> 'a \<Rightarrow> bool) \<Rightarrow> 'a list \<Rightarrow> 'a list" where
  "selectionSort lt array = selection_loop lt array 0"

text \<open>\<^verbatim>\<open>do i++; while (lt(array[i], pivot));\<close> with \<open>i\<close> the first index that is read.\<close>

function scan_up :: "('a \<Rightarrow> 'a \<Rightarrow> bool) \<Rightarrow> 'a \<Rightarrow> 'a list \<Rightarrow> nat \<Rightarrow> nat option" where
  "scan_up lt pivot array i =
     (if i < length array
      then if lt (array ! i) pivot then scan_up lt pivot array (Suc i) else Some i
      else None)"
  by pat_completeness auto
termination by (relation "measure (\<lambda>(lt, p, array, i). length array - i)") auto

declare scan_up.simps [simp del]

text \<open>\<^verbatim>\<open>do j--; while (lt(pivot, array[j]));\<close> with \<open>j - 1\<close> the first index that is read.\<close>

fun scan_down :: "('a \<Rightarrow> 'a \<Rightarrow> bool) \<Rightarrow> 'a \<Rightarrow> 'a list \<Rightarrow> nat \<Rightarrow> nat option" where
  "scan_down lt pivot array 0 = None"
| "scan_down lt pivot array (Suc j) =
     (if lt pivot (array ! j) then scan_down lt pivot array j else Some j)"

lemma scan_down_less: "scan_down lt p array j = Some j' \<Longrightarrow> j' < j"
  by (induction j) (auto split: if_splits)

function partition_loop ::
  "('a \<Rightarrow> 'a \<Rightarrow> bool) \<Rightarrow> 'a \<Rightarrow> 'a list \<Rightarrow> nat \<Rightarrow> nat \<Rightarrow> ('a list \<times> nat) option" where
  "partition_loop lt pivot array i j =
     (case scan_up lt pivot array i of
        None \<Rightarrow> None
      | Some i' \<Rightarrow>
          (case scan_down lt pivot array j of
             None \<Rightarrow> None
           | Some j' \<Rightarrow>
               if j' \<le> i' then Some (array, i')
               else partition_loop lt pivot (swap_at i' j' array) (Suc i') j'))"
  by pat_completeness auto
termination
  by (relation "measure (\<lambda>(lt, p, array, i, j). j)") (auto dest: scan_down_less)

declare partition_loop.simps [simp del]

partial_function (option) sort_array :: "('a \<Rightarrow> 'a \<Rightarrow> bool) \<Rightarrow> 'a list \<Rightarrow> 'a list option" where
  "sort_array lt array =
     (if length array \<le> 15 then Some (selectionSort lt array)
      else Option.bind (partition_loop lt (array ! (length array div 2)) array 0 (length array))
        (\<lambda>(array', i).
           Option.bind (sort_array lt (take i array'))
             (\<lambda>lo. Option.bind (sort_array lt (drop i array')) (\<lambda>hi. Some (lo @ hi)))))"

section \<open>The comparator's contract\<close>

locale strict_weak_order =
  fixes lt :: "'a \<Rightarrow> 'a \<Rightarrow> bool"
  assumes asym: "lt x y \<Longrightarrow> \<not> lt y x"
    and neg_trans: "\<not> lt x y \<Longrightarrow> \<not> lt y z \<Longrightarrow> \<not> lt x z"
begin

lemma irrefl [simp]: "\<not> lt x x"
  using asym by blast

abbreviation ordered :: "'a list \<Rightarrow> bool" where
  "ordered \<equiv> sorted_wrt (\<lambda>x y. \<not> lt y x)"

lemma best_loop_spec:
  assumes "b < length a" "\<forall>k. b0 \<le> k \<and> k < j \<longrightarrow> \<not> lt (a ! k) (a ! b)" "b0 \<le> b" "b0 \<le> j"
  shows "best_loop lt a b j < length a \<and> b0 \<le> best_loop lt a b j \<and>
         (\<forall>k. b0 \<le> k \<and> k < length a \<longrightarrow> \<not> lt (a ! k) (a ! best_loop lt a b j))"
  using assms
proof (induction "length a - j" arbitrary: b j rule: less_induct)
  case (less j b)
  show ?case
  proof (cases "j < length a")
    case True
    let ?b = "if lt (a ! j) (a ! b) then j else b"
    have "\<not> lt (a ! k) (a ! ?b)" if k: "b0 \<le> k" "k < Suc j" for k
    proof (cases "k = j")
      case True
      then show ?thesis by simp
    next
      case False
      then have "\<not> lt (a ! k) (a ! b)" using k less.prems(2) by simp
      then show ?thesis using asym neg_trans by (metis (full_types))
    qed
    then have "\<forall>k. b0 \<le> k \<and> k < Suc j \<longrightarrow> \<not> lt (a ! k) (a ! ?b)" by blast
    from less.hyps [OF _ _ this] less.prems True show ?thesis
      by (simp add: best_loop.simps [of lt a b j])
  next
    case False
    with less.prems show ?thesis by (simp add: best_loop.simps [of lt a b j])
  qed
qed

lemma selection_loop_spec:
  assumes "ordered (take i a)" "\<forall>k l. k < i \<and> i \<le> l \<and> l < length a \<longrightarrow> \<not> lt (a ! l) (a ! k)"
  shows "ordered (selection_loop lt a i) \<and> mset (selection_loop lt a i) = mset a"
  using assms
proof (induction "length a - i" arbitrary: a i rule: less_induct)
  case (less a i)
  show ?case
  proof (cases "Suc i < length a")
    case True
    let ?b = "best_loop lt a i (Suc i)" and ?a = "swap_at i (best_loop lt a i (Suc i)) a"
    have here: "\<forall>k. i \<le> k \<and> k < Suc i \<longrightarrow> \<not> lt (a ! k) (a ! i)"
      by (metis irrefl le_antisym less_Suc_eq_le)
    have b: "?b < length a" "i \<le> ?b" "\<forall>k. i \<le> k \<and> k < length a \<longrightarrow> \<not> lt (a ! k) (a ! ?b)"
      using best_loop_spec [OF _ here] True by auto
    have nth: "k < length a \<Longrightarrow> ?a ! k = (if k = ?b then a ! i else if k = i then a ! ?b else a ! k)" for k
      using b True by (simp add: nth_swap_at)
    have le: "take i ?a = take i a"
      using b by (simp add: swap_at_def)
    have "take (Suc i) ?a = take i a @ [a ! ?b]"
      using True b by (simp add: take_Suc_conv_app_nth le nth)
    then have "ordered (take (Suc i) ?a)"
      using less.prems b True by (auto simp: sorted_wrt_append in_set_take_nth)
    moreover have "\<forall>k l. k < Suc i \<and> Suc i \<le> l \<and> l < length ?a \<longrightarrow> \<not> lt (?a ! l) (?a ! k)"
    proof (intro allI impI)
      fix k l assume kl: "k < Suc i \<and> Suc i \<le> l \<and> l < length ?a"
      obtain l' where l': "?a ! l = a ! l'" "i \<le> l'" "l' < length a"
        using kl True nth [of l] by (cases "l = ?b") auto
      show "\<not> lt (?a ! l) (?a ! k)"
      proof (cases "k = i")
        case True
        moreover have "?a ! i = a ! ?b" using b(1,2) nth [of i] by (cases "i = ?b") auto
        ultimately show ?thesis using b(3) l' by simp
      next
        case False
        then have "?a ! k = a ! k" using kl b(2) by (simp add: nth)
        with False kl l' less.prems(2) show ?thesis by simp
      qed
    qed
    moreover have "mset ?a = mset a" using b True by simp
    ultimately show ?thesis
      using less.hyps [of ?a "Suc i"] True by (simp add: selection_loop.simps [of lt a i])
  next
    case False
    have "ordered a"
    proof (cases "i < length a")
      case True
      with False have "a = take i a @ [a ! i]"
        by (metis Suc_eq_plus1 Suc_leI linorder_not_less nle_le take_Suc_conv_app_nth take_all)
      moreover have "ordered (take i a @ [a ! i])"
        using less.prems True by (auto simp: sorted_wrt_append in_set_take_nth)
      ultimately show ?thesis by simp
    qed (use less.prems in simp)
    with False show ?thesis by (simp add: selection_loop.simps [of lt a i])
  qed
qed

lemma selectionSort_spec: "ordered (selectionSort lt a) \<and> mset (selectionSort lt a) = mset a"
  unfolding selectionSort_def by (rule selection_loop_spec) auto

lemma scan_up_spec:
  assumes "i \<le> k" "k < length a" "\<not> lt (a ! k) p"
  shows "\<exists>i'. scan_up lt p a i = Some i' \<and> i \<le> i' \<and> i' \<le> k \<and> \<not> lt (a ! i') p \<and>
           (\<forall>m. i \<le> m \<and> m < i' \<longrightarrow> lt (a ! m) p)"
  using assms
proof (induction "length a - i" arbitrary: i rule: less_induct)
  case (less i)
  show ?case
  proof (cases "lt (a ! i) p")
    case True
    with less.prems have "Suc i \<le> k" by (metis le_neq_implies_less Suc_leI)
    moreover have "i < length a" using less.prems by simp
    ultimately obtain i' where i': "scan_up lt p a (Suc i) = Some i'" "Suc i \<le> i'" "i' \<le> k"
      "\<not> lt (a ! i') p" "\<forall>m. Suc i \<le> m \<and> m < i' \<longrightarrow> lt (a ! m) p"
      using less.hyps [of "Suc i"] less.prems diff_less_mono2 [OF lessI \<open>i < length a\<close>] by auto
    then have "\<forall>m. i \<le> m \<and> m < i' \<longrightarrow> lt (a ! m) p"
      using True by (metis Suc_leI le_neq_implies_less)
    with i' True \<open>i < length a\<close> show ?thesis by (auto simp: scan_up.simps [of lt p a i])
  next
    case False
    with less.prems show ?thesis by (auto simp: scan_up.simps [of lt p a i])
  qed
qed

lemma scan_down_spec:
  assumes "k < j" "\<not> lt p (a ! k)"
  shows "\<exists>j'. scan_down lt p a j = Some j' \<and> j' < j \<and> k \<le> j' \<and> \<not> lt p (a ! j') \<and>
           (\<forall>m. j' < m \<and> m < j \<longrightarrow> lt p (a ! m))"
  using assms
proof (induction j)
  case (Suc j)
  show ?case
  proof (cases "lt p (a ! j)")
    case True
    with Suc.prems have "k < j" by (metis less_SucE)
    with Suc.IH Suc.prems obtain j' where "scan_down lt p a j = Some j'" "j' < j" "k \<le> j'"
      "\<not> lt p (a ! j')" "\<forall>m. j' < m \<and> m < j \<longrightarrow> lt p (a ! m)" by blast
    with True show ?thesis by (auto simp: less_Suc_eq)
  qed (use Suc.prems in auto)
qed simp

text \<open>
  The invariant of the partition: everything below \<open>i\<close> is at most the pivot, everything from \<open>j\<close>
  on at least the pivot, and each scan has a sentinel in front of it.
\<close>

definition part_inv :: "'a \<Rightarrow> 'a list \<Rightarrow> nat \<Rightarrow> nat \<Rightarrow> bool" where
  "part_inv p a i j \<longleftrightarrow>
     j \<le> length a \<and>
     (\<forall>k < i. k < length a \<longrightarrow> \<not> lt p (a ! k)) \<and>
     (\<forall>k. j \<le> k \<and> k < length a \<longrightarrow> \<not> lt (a ! k) p) \<and>
     (\<exists>k. i \<le> k \<and> k < length a \<and> \<not> lt (a ! k) p) \<and>
     (\<exists>k < j. \<not> lt p (a ! k) \<and> (i = 0 \<longrightarrow> 0 < k))"

lemma partition_loop_spec:
  assumes "part_inv p a i j"
  shows "\<exists>a' m. partition_loop lt p a i j = Some (a', m) \<and> mset a' = mset a \<and> 0 < m \<and> m < length a \<and>
           (\<forall>k < m. \<not> lt p (a' ! k)) \<and> (\<forall>k. m \<le> k \<and> k < length a \<longrightarrow> \<not> lt (a' ! k) p)"
  using assms
proof (induction j arbitrary: a i rule: less_induct)
  case (less j a i)
  from less.prems obtain k1 k2 where len: "j \<le> length a"
    and lo: "\<forall>k < i. k < length a \<longrightarrow> \<not> lt p (a ! k)"
    and hi: "\<forall>k. j \<le> k \<and> k < length a \<longrightarrow> \<not> lt (a ! k) p"
    and k1: "i \<le> k1" "k1 < length a" "\<not> lt (a ! k1) p"
    and k2: "k2 < j" "\<not> lt p (a ! k2)" "i = 0 \<longrightarrow> 0 < k2"
    unfolding part_inv_def by blast
  from scan_up_spec [OF k1] obtain i' where i': "scan_up lt p a i = Some i'" "i \<le> i'" "i' \<le> k1"
    "\<not> lt (a ! i') p" "\<forall>m. i \<le> m \<and> m < i' \<longrightarrow> lt (a ! m) p" by blast
  from scan_down_spec [OF k2(1,2)] obtain j' where j': "scan_down lt p a j = Some j'" "j' < j"
    "k2 \<le> j'" "\<not> lt p (a ! j')" "\<forall>m. j' < m \<and> m < j \<longrightarrow> lt p (a ! m)" by blast
  have below: "\<forall>k < i'. \<not> lt p (a ! k)"
  proof (intro allI impI)
    fix k assume k: "k < i'"
    show "\<not> lt p (a ! k)"
    proof (cases "k < i")
      case True
      with lo k i'(3) k1(2) show ?thesis by simp
    next
      case False
      with k i'(5) have "lt (a ! k) p" by simp
      then show ?thesis by (rule asym)
    qed
  qed
  have above: "\<forall>k. j' < k \<and> k < length a \<longrightarrow> \<not> lt (a ! k) p"
  proof (intro allI impI)
    fix k assume k: "j' < k \<and> k < length a"
    show "\<not> lt (a ! k) p"
    proof (cases "j \<le> k")
      case True
      with hi k show ?thesis by simp
    next
      case False
      with k j'(5) have "lt p (a ! k)" by simp
      then show ?thesis by (rule asym)
    qed
  qed
  show ?case
  proof (cases "j' \<le> i'")
    case True
    have "0 < i'" using k2(3) j'(3) True i'(2) by (cases "i = 0") auto
    moreover have "\<forall>k. i' \<le> k \<and> k < length a \<longrightarrow> \<not> lt (a ! k) p"
    proof (intro allI impI)
      fix k assume k: "i' \<le> k \<and> k < length a"
      show "\<not> lt (a ! k) p"
      proof (cases "k = i'")
        case False
        with k True have "j' < k" by simp
        with above k show ?thesis by blast
      qed (use i'(4) in simp)
    qed
    moreover have "partition_loop lt p a i j = Some (a, i')"
      using i'(1) j'(1) True by (simp add: partition_loop.simps [of lt p a i j])
    moreover have "i' < length a" using i'(3) k1(2) by simp
    ultimately show ?thesis using below by blast
  next
    case False
    let ?a = "swap_at i' j' a"
    have ij: "i' < length a" "j' < length a" "i' < j'" using False j' len by auto
    have nth: "k < length a \<Longrightarrow> ?a ! k = (if k = j' then a ! i' else if k = i' then a ! j' else a ! k)" for k
      using ij by (simp add: nth_swap_at)
    have "part_inv p ?a (Suc i') j'"
      unfolding part_inv_def
    proof (intro conjI)
      show "\<forall>k < Suc i'. k < length ?a \<longrightarrow> \<not> lt p (?a ! k)"
        using below ij j'(4) by (auto simp: nth less_Suc_eq)
      show "\<forall>k. j' \<le> k \<and> k < length ?a \<longrightarrow> \<not> lt (?a ! k) p"
        using above ij i'(4) by (auto simp: nth)
      show "\<exists>k. Suc i' \<le> k \<and> k < length ?a \<and> \<not> lt (?a ! k) p"
        using ij i'(4) by (intro exI [of _ j']) (simp add: nth)
      show "\<exists>k < j'. \<not> lt p (?a ! k) \<and> (Suc i' = 0 \<longrightarrow> 0 < k)"
        using ij j'(4) by (intro exI [of _ i']) (simp add: nth)
    qed (use ij in simp)
    from less.IH [OF j'(2) this] ij i'(1) j'(1) False
    show ?thesis by (simp add: partition_loop.simps [of lt p a i j])
  qed
qed

lemma sort_array_spec: "\<exists>b. sort_array lt a = Some b \<and> mset b = mset a \<and> ordered b"
proof (induction "length a" arbitrary: a rule: less_induct)
  case less
  show ?case
  proof (cases "length a \<le> 15")
    case True
    then show ?thesis using selectionSort_spec by (simp add: sort_array.simps)
  next
    case False
    let ?n = "length a" let ?p = "a ! (?n div 2)"
    have n: "0 < ?n div 2" "?n div 2 < ?n" using False by auto
    have "part_inv ?p a 0 ?n"
      unfolding part_inv_def using n by (auto intro: exI [of _ "?n div 2"])
    from partition_loop_spec [OF this] obtain a' m where part:
      "partition_loop lt ?p a 0 ?n = Some (a', m)" "mset a' = mset a" "0 < m" "m < ?n"
      "\<forall>k < m. \<not> lt ?p (a' ! k)" "\<forall>k. m \<le> k \<and> k < ?n \<longrightarrow> \<not> lt (a' ! k) ?p"
      by blast
    have len: "length a' = ?n" using part(2) by (metis size_mset)
    obtain lo where lo: "sort_array lt (take m a') = Some lo" "mset lo = mset (take m a')" "ordered lo"
      using less [of "take m a'"] part(4) len by auto
    have "length (drop m a') < length a" using part(3,4) len by simp
    then obtain hi where hi: "sort_array lt (drop m a') = Some hi" "mset hi = mset (drop m a')" "ordered hi"
      using less [of "drop m a'"] by blast
    have "set lo = set (take m a')" "set hi = set (drop m a')"
      using lo(2) hi(2) by (metis set_mset_mset)+
    then have "\<forall>x \<in> set lo. \<not> lt ?p x" "\<forall>y \<in> set hi. \<not> lt y ?p"
      using part(5,6) len by (auto simp: in_set_conv_nth)
    then have "ordered (lo @ hi)"
      using lo(3) hi(3) neg_trans by (auto simp: sorted_wrt_append)
    moreover have "mset (lo @ hi) = mset a"
      using lo(2) hi(2) part(2) by (metis append_take_drop_id mset_append)
    ultimately show ?thesis
      using False part(1) lo(1) hi(1) by (subst sort_array.simps) simp
  qed
qed

end

section \<open>Comparators that agree on the array\<close>

text \<open>Only comparisons of elements of the array matter, so that the contract need only hold there.\<close>

definition agree :: "'a set \<Rightarrow> ('a \<Rightarrow> 'a \<Rightarrow> bool) \<Rightarrow> ('a \<Rightarrow> 'a \<Rightarrow> bool) \<Rightarrow> bool" where
  "agree S lt lt' \<longleftrightarrow> (\<forall>x \<in> S. \<forall>y \<in> S. lt x y = lt' x y)"

lemma agree_nth: "agree (set a) lt lt' \<Longrightarrow> i < length a \<Longrightarrow> j < length a \<Longrightarrow> lt (a ! i) (a ! j) = lt' (a ! i) (a ! j)"
  by (simp add: agree_def)

lemma best_loop_agree:
  assumes "agree (set a) lt lt'" and "b < length a"
  shows "best_loop lt a b j = best_loop lt' a b j \<and> best_loop lt' a b j < length a"
  using assms(2)
proof (induction "length a - j" arbitrary: b j rule: less_induct)
  case (less j b)
  show ?case
  proof (cases "j < length a")
    case True
    have "lt (a ! j) (a ! b) = lt' (a ! j) (a ! b)" by (rule agree_nth [OF assms(1) True less.prems])
    then show ?thesis using less.hyps [of "Suc j" "if lt' (a ! j) (a ! b) then j else b"] less.prems True
      by (simp add: best_loop.simps [of _ a b j])
  next
    case False
    then show ?thesis using less.prems by (simp add: best_loop.simps [of _ a b j])
  qed
qed

lemma selection_loop_agree:
  assumes "agree (set a) lt lt'"
  shows "selection_loop lt a i = selection_loop lt' a i"
  using assms
proof (induction "length a - i" arbitrary: a i rule: less_induct)
  case (less a i)
  show ?case
  proof (cases "Suc i < length a")
    case True
    let ?b = "best_loop lt' a i (Suc i)"
    have b: "best_loop lt a i (Suc i) = ?b" "?b < length a"
      using best_loop_agree [OF less.prems, of i "Suc i"] True by auto
    have "set (swap_at i ?b a) = set a" using b(2) True by (metis Suc_lessD mset_eq_setD mset_swap_at)
    then have "agree (set (swap_at i ?b a)) lt lt'" using less.prems by simp
    then show ?thesis using less.hyps [of "swap_at i ?b a" "Suc i"] True by (simp add: selection_loop.simps [of _ a i] b(1))
  qed (simp add: selection_loop.simps [of _ a i])
qed

lemma scan_agree:
  assumes "agree (set a) lt lt'" and "p \<in> set a"
  shows "scan_up lt p a i = scan_up lt' p a i" and "j \<le> length a \<Longrightarrow> scan_down lt p a j = scan_down lt' p a j"
proof -
  show "scan_up lt p a i = scan_up lt' p a i"
  proof (induction "length a - i" arbitrary: i rule: less_induct)
    case (less i)
    have "i < length a \<Longrightarrow> lt (a ! i) p = lt' (a ! i) p" using assms by (simp add: agree_def)
    then show ?case using less.hyps [of "Suc i"] by (simp add: scan_up.simps [of _ p a i])
  qed
  show "j \<le> length a \<Longrightarrow> scan_down lt p a j = scan_down lt' p a j"
    by (induction j) (use assms in \<open>simp_all add: agree_def\<close>)
qed

lemma partition_loop_agree:
  assumes "agree (set a) lt lt'" and "p \<in> set a" and "j \<le> length a"
  shows "partition_loop lt p a i j = partition_loop lt' p a i j"
  using assms
proof (induction j arbitrary: a i rule: less_induct)
  case (less j a i)
  note s = scan_agree [OF less.prems(1,2)]
  show ?case
  proof (cases "scan_up lt' p a i")
    case None
    then show ?thesis using s(1) by (simp add: partition_loop.simps [of _ p a i j])
  next
    case up: (Some i')
    show ?thesis
    proof (cases "scan_down lt' p a j")
      case None
      then show ?thesis using up s(1) s(2) [OF less.prems(3)] by (simp add: partition_loop.simps [of _ p a i j])
    next
      case down: (Some j')
      have j': "j' < j" by (rule scan_down_less [OF down])
      show ?thesis
      proof (cases "j' \<le> i'")
        case False
        then have "set (swap_at i' j' a) = set a" using j' less.prems(3) by (intro mset_eq_setD mset_swap_at) simp_all
        then show ?thesis
          using less.IH [OF j', of "swap_at i' j' a" "Suc i'"] less.prems j' up down False s(1) s(2) [OF less.prems(3)]
          by (simp add: partition_loop.simps [of _ p a i j])
      qed (use up down s(1) s(2) [OF less.prems(3)] in \<open>simp add: partition_loop.simps [of _ p a i j]\<close>)
    qed
  qed
qed

context strict_weak_order begin

lemma sort_array_agree:
  assumes "agree (set a) lt0 lt"
  shows "sort_array lt0 a = sort_array lt a"
  using assms
proof (induction "length a" arbitrary: a rule: less_induct)
  case less
  show ?case
  proof (cases "length a \<le> 15")
    case True
    then show ?thesis using selection_loop_agree [OF less.prems] by (simp add: sort_array.simps [of _ a] selectionSort_def)
  next
    case False
    let ?n = "length a" let ?p = "a ! (?n div 2)"
    have n: "0 < ?n div 2" "?n div 2 < ?n" using False by auto
    have "part_inv ?p a 0 ?n" unfolding part_inv_def using n by (auto intro: exI [of _ "?n div 2"])
    from partition_loop_spec [OF this] obtain a' m where part:
      "partition_loop lt ?p a 0 ?n = Some (a', m)" "mset a' = mset a" "0 < m" "m < ?n" by blast
    have p0: "partition_loop lt0 ?p a 0 ?n = Some (a', m)"
      using partition_loop_agree [OF less.prems nth_mem [OF n(2)], of ?n 0] part(1) by simp
    have st: "set a' = set a" and len: "length a' = ?n" using part(2) by (metis mset_eq_setD, metis size_mset)
    have "agree (set (take m a')) lt0 lt" "agree (set (drop m a')) lt0 lt"
      using less.prems set_take_subset [of m a'] set_drop_subset [of m a'] unfolding st [symmetric] by (auto simp: agree_def)
    moreover have "length (take m a') < ?n" "length (drop m a') < ?n" using part(3,4) len by simp_all
    ultimately have "sort_array lt0 (take m a') = sort_array lt (take m a')" "sort_array lt0 (drop m a') = sort_array lt (drop m a')"
      using less.hyps by blast+
    then show ?thesis using False part(1) p0 by (simp add: sort_array.simps [of _ a])
  qed
qed

end

text \<open>\<^verbatim>\<open>LessThan_default\<close>: the order of the element type, here on the integers.\<close>

definition LessThan_default :: "int \<Rightarrow> int \<Rightarrow> bool" where
  "LessThan_default x y = (x < y)"

interpretation int_less: strict_weak_order LessThan_default
  by unfold_locales (auto simp: LessThan_default_def)

text \<open>C21: \<^verbatim>\<open>sort\<close> terminates, never reads outside the array, and returns a sorted permutation of it,
  for every comparator that is a strict weak order.\<close>

theorem sort_array_correct:
  assumes "strict_weak_order lt"
  shows "\<exists>b. sort_array lt a = Some b \<and> mset b = mset a \<and> sorted_wrt (\<lambda>x y. \<not> lt y x) b"
  using assms by (rule strict_weak_order.sort_array_spec)

theorem sort_array_correct_witness:
  "\<exists>b. sort_array LessThan_default [3, 1, 2] = Some b \<and> mset b = mset [3, 1, 2] \<and>
       sorted_wrt (\<lambda>x y. \<not> LessThan_default y x) b"
  by (rule sort_array_correct) (rule int_less.strict_weak_order_axioms)

end
