(* ===== verification/MTL_Queue.thy ===== *)
theory MTL_Queue
  imports Prelude
begin

text \<open>
  The ring buffers of \<^verbatim>\<open>mtl/Queue.h\<close> (FIFO queue) and \<^verbatim>\<open>mtl/Deque.h\<close> (double-ended queue).  Both keep
  a buffer and two indices \<^verbatim>\<open>first\<close> and \<^verbatim>\<open>end\<close>, with \<^verbatim>\<open>buf[end]\<close> always unused; the buffer grows by a
  half when an insertion would fill it.  The two classes share their operations' code, so they share
  the definitions here.  \<open>dflt\<close> is the value that \<^verbatim>\<open>vec<T> tmp(n)\<close> fills the new buffer with.
  Sizes and indices are natural numbers, so everything below speaks of buffers with fewer than 715827883
  elements: from there on \<^verbatim>\<open>buf.size() * 3 + 1\<close> leaves the range of \<^verbatim>\<open>int\<close> and the next resizing is undefined.
\<close>

record 'a ring =
  buf :: "'a list"
  qfirst :: nat
  qend :: nat

section \<open>Operations\<close>

definition ring_new :: "'a \<Rightarrow> 'a ring" where
  "ring_new dflt = \<lparr>buf = [dflt], qfirst = 0, qend = 0\<rparr>"

definition ring_clear :: "'a \<Rightarrow> 'a ring \<Rightarrow> 'a ring" where
  "ring_clear dflt q = q\<lparr>buf := [dflt], qfirst := 0, qend := 0\<rparr>"

definition ring_size :: "'a ring \<Rightarrow> nat" where
  "ring_size q = (if qfirst q \<le> qend q then qend q - qfirst q
                  else qend q + length (buf q) - qfirst q)"

text \<open>Indexing and the peeks have assertions as guards: \<open>None\<close> where the assertion fails.\<close>

definition ring_nth :: "'a ring \<Rightarrow> nat \<Rightarrow> 'a option" where
  "ring_nth q index =
     (if index < ring_size q then Some (buf q ! ((qfirst q + index) mod length (buf q))) else None)"

definition ring_peek :: "'a ring \<Rightarrow> 'a option" where
  "ring_peek q = (if qfirst q \<noteq> qend q then Some (buf q ! qfirst q) else None)"

definition ring_peekBack :: "'a ring \<Rightarrow> 'a option" where
  "ring_peekBack q =
     (if qfirst q \<noteq> qend q
      then Some (if qend q = 0 then buf q ! (length (buf q) - 1) else buf q ! (qend q - 1))
      else None)"

definition ring_pop :: "'a ring \<Rightarrow> 'a ring option" where
  "ring_pop q =
     (if qfirst q \<noteq> qend q
      then let f = qfirst q + 1 in Some (q\<lparr>qfirst := (if f = length (buf q) then 0 else f)\<rparr>)
      else None)"

definition ring_popBack :: "'a ring \<Rightarrow> 'a ring option" where
  "ring_popBack q =
     (if qfirst q \<noteq> qend q
      then Some (q\<lparr>qend := (if qend q = 0 then length (buf q) - 1 else qend q - 1)\<rparr>)
      else None)"

text \<open>\<^verbatim>\<open>for (int j = lo; j < hi; j++) tmp[i++] = buf[j];\<close> with \<open>n = hi - lo\<close> iterations.\<close>

fun copy_range :: "'a list \<Rightarrow> nat \<Rightarrow> nat \<Rightarrow> 'a list \<times> nat \<Rightarrow> 'a list \<times> nat" where
  "copy_range src j 0 (tmp, i) = (tmp, i)"
| "copy_range src j (Suc n) (tmp, i) = copy_range src (Suc j) n (tmp[i := src ! j], Suc i)"

definition ring_insert :: "'a \<Rightarrow> 'a \<Rightarrow> 'a ring \<Rightarrow> 'a ring" where
  "ring_insert dflt elem q =
     (let b = (buf q)[qend q := elem];
          e = (if qend q + 1 = length b then 0 else qend q + 1)
      in if qfirst q = e
         then let tmp = replicate ((length b * 3 + 1) div 2) dflt;
                  (tmp, i) = copy_range b (qfirst q) (length b - qfirst q) (tmp, 0);
                  (tmp, i) = copy_range b 0 e (tmp, i)
              in q\<lparr>buf := tmp, qfirst := 0, qend := length b\<rparr>
         else q\<lparr>buf := b, qend := e\<rparr>)"

text \<open>\<^verbatim>\<open>for (int j = 0; j < sz; j++) tmp[i++] = buf[(j + old_first) % buf.size()];\<close>\<close>

fun copy_wrapped :: "'a list \<Rightarrow> nat \<Rightarrow> nat \<Rightarrow> nat \<Rightarrow> 'a list \<times> nat \<Rightarrow> 'a list \<times> nat" where
  "copy_wrapped src old_first j 0 (tmp, i) = (tmp, i)"
| "copy_wrapped src old_first j (Suc n) (tmp, i) =
     copy_wrapped src old_first (Suc j) n (tmp[i := src ! ((j + old_first) mod length src)], Suc i)"

definition ring_insertBack :: "'a \<Rightarrow> 'a \<Rightarrow> 'a ring \<Rightarrow> 'a ring" where
  "ring_insertBack dflt elem q =
     (let old_first = qfirst q;
          f = (if qfirst q = 0 then length (buf q) - 1 else qfirst q - 1)
      in if f = qend q
         then let sz = ring_size q;
                  tmp = replicate ((length (buf q) * 3 + 1) div 2) dflt;
                  (tmp, i) = copy_wrapped (buf q) old_first 0 sz (tmp, 1)
              in q\<lparr>buf := tmp[0 := elem], qfirst := 0, qend := i\<rparr>
         else q\<lparr>buf := (buf q)[f := elem], qfirst := f\<rparr>)"

text \<open>\<^verbatim>\<open>contains\<close> and \<^verbatim>\<open>count\<close> walk from \<^verbatim>\<open>first\<close> with a wrapping position.\<close>

fun ring_walk_contains :: "'a list \<Rightarrow> 'a \<Rightarrow> nat \<Rightarrow> nat \<Rightarrow> bool" where
  "ring_walk_contains b x pos 0 = False"
| "ring_walk_contains b x pos (Suc n) =
     (if b ! pos = x then True
      else ring_walk_contains b x (if pos + 1 = length b then 0 else pos + 1) n)"

definition ring_contains :: "'a ring \<Rightarrow> 'a \<Rightarrow> bool" where
  "ring_contains q x = ring_walk_contains (buf q) x (qfirst q) (ring_size q)"

fun ring_walk_count :: "'a list \<Rightarrow> 'a \<Rightarrow> nat \<Rightarrow> nat \<Rightarrow> nat \<Rightarrow> nat" where
  "ring_walk_count b x pos 0 c = c"
| "ring_walk_count b x pos (Suc n) c =
     ring_walk_count b x (if pos + 1 = length b then 0 else pos + 1) n
       (if b ! pos = x then c + 1 else c)"

definition ring_count :: "'a ring \<Rightarrow> 'a \<Rightarrow> nat" where
  "ring_count q x = ring_walk_count (buf q) x (qfirst q) (ring_size q) 0"

section \<open>Contents and invariant\<close>

definition ring_inv :: "'a ring \<Rightarrow> bool" where
  "ring_inv q \<longleftrightarrow> qfirst q < length (buf q) \<and> qend q < length (buf q)"

definition ring_list :: "'a ring \<Rightarrow> 'a list" where
  "ring_list q = map (\<lambda>k. buf q ! ((qfirst q + k) mod length (buf q))) [0..<ring_size q]"

text \<open>The interface of a double-ended queue, as its clients see it.\<close>

locale deque =
  fixes new :: "'q"
    and pop :: "'q \<Rightarrow> 'q option"
    and popBack :: "'q \<Rightarrow> 'q option"
    and peek :: "'q \<Rightarrow> 'a option"
    and peekBack :: "'q \<Rightarrow> 'a option"
    and insert :: "'a \<Rightarrow> 'q \<Rightarrow> 'q"
    and insertBack :: "'a \<Rightarrow> 'q \<Rightarrow> 'q"
    and inv :: "'q \<Rightarrow> bool"
    and list :: "'q \<Rightarrow> 'a list"
  assumes inv_new: "inv new" and list_new: "list new = []"
    and inv_insert: "inv q \<Longrightarrow> inv (insert x q)"
    and list_insert: "inv q \<Longrightarrow> list (insert x q) = list q @ [x]"
    and inv_insertBack: "inv q \<Longrightarrow> inv (insertBack x q)"
    and list_insertBack: "inv q \<Longrightarrow> list (insertBack x q) = x # list q"
    and pop_None: "inv q \<Longrightarrow> pop q = None \<longleftrightarrow> list q = []"
    and pop_Some: "inv q \<Longrightarrow> pop q = Some q' \<Longrightarrow> inv q' \<and> list q' = tl (list q)"
    and popBack_None: "inv q \<Longrightarrow> popBack q = None \<longleftrightarrow> list q = []"
    and popBack_Some: "inv q \<Longrightarrow> popBack q = Some q' \<Longrightarrow> inv q' \<and> list q' = butlast (list q)"
    and peek_eq: "inv q \<Longrightarrow> peek q = (if list q = [] then None else Some (hd (list q)))"
    and peekBack_eq: "inv q \<Longrightarrow> peekBack q = (if list q = [] then None else Some (last (list q)))"
begin

text \<open>Draining a queue returns its contents in order.\<close>

fun drain :: "nat \<Rightarrow> 'q \<Rightarrow> 'a list" where
  "drain 0 q = []"
| "drain (Suc n) q =
     (case (peek q, pop q) of (Some x, Some q') \<Rightarrow> x # drain n q' | _ \<Rightarrow> [])"

fun insert_all :: "'a list \<Rightarrow> 'q \<Rightarrow> 'q" where
  "insert_all [] q = q"
| "insert_all (x # xs) q = insert_all xs (insert x q)"

lemma list_insert_all: "inv q \<Longrightarrow> inv (insert_all xs q) \<and> list (insert_all xs q) = list q @ xs"
  by (induction xs arbitrary: q) (auto simp: inv_insert list_insert)

lemma drain_list: "inv q \<Longrightarrow> length (list q) \<le> n \<Longrightarrow> drain n q = list q"
proof (induction n arbitrary: q)
  case (Suc n)
  show ?case
  proof (cases "pop q")
    case None
    then show ?thesis using Suc.prems pop_None by (simp add: peek_eq)
  next
    case (Some q')
    then have ne: "list q \<noteq> []" using Suc.prems pop_None by (metis option.distinct(1))
    from pop_Some [OF Suc.prems(1) Some] have q': "inv q'" "list q' = tl (list q)" by auto
    have "length (list q') \<le> n" using q'(2) Suc.prems(2) by simp
    from Suc.IH [OF q'(1) this] show ?thesis
      using Some ne q'(2) Suc.prems(1) by (simp add: peek_eq)
  qed
qed simp

lemma fifo: "drain (length xs) (insert_all xs new) = xs"
  using list_insert_all [OF inv_new, of xs] drain_list [of "insert_all xs new" "length xs"]
  by (simp add: list_new)

end

section \<open>Index arithmetic\<close>

lemma mod_below_double: "a < 2 * n \<Longrightarrow> a mod n = (if a < n then a else a - n)" for a n :: nat
  by (simp add: mod_if)

lemma copy_range_eq:
  assumes "i + n \<le> length tmp" "j + n \<le> length src"
  shows "copy_range src j n (tmp, i) = (take i tmp @ take n (drop j src) @ drop (i + n) tmp, i + n)"
  using assms
proof (induction n arbitrary: i j tmp)
  case (Suc n)
  have "take (Suc i) (tmp[i := src ! j]) = take i tmp @ [src ! j]"
    using Suc.prems by (simp add: take_Suc_conv_app_nth)
  moreover have "take (Suc n) (drop j src) = src ! j # take n (drop (Suc j) src)"
    using Suc.prems by (simp add: Cons_nth_drop_Suc [symmetric])
  ultimately show ?case using Suc by simp
qed simp

lemma copy_wrapped_eq:
  assumes "i + n \<le> length tmp"
  shows "copy_wrapped src f j n (tmp, i) =
    (take i tmp @ map (\<lambda>k. src ! ((k + f) mod length src)) [j..<j + n] @ drop (i + n) tmp, i + n)"
  using assms
proof (induction n arbitrary: i j tmp)
  case (Suc n)
  have "take (Suc i) (tmp[i := src ! ((j + f) mod length src)])
          = take i tmp @ [src ! ((j + f) mod length src)]"
    using Suc.prems by (simp add: take_Suc_conv_app_nth)
  moreover have "[j..<j + Suc n] = j # [Suc j..<Suc j + n]"
    by (simp add: upt_conv_Cons)
  ultimately show ?case using Suc by (simp del: upt_Suc)
qed simp

lemma ring_size_less: "ring_inv q \<Longrightarrow> ring_size q < length (buf q)"
  by (auto simp: ring_inv_def ring_size_def)

lemma ring_index_end: "ring_inv q \<Longrightarrow> (qfirst q + ring_size q) mod length (buf q) = qend q"
  by (auto simp: ring_inv_def ring_size_def)

lemma ring_index_neq_end:
  "ring_inv q \<Longrightarrow> k < ring_size q \<Longrightarrow> (qfirst q + k) mod length (buf q) \<noteq> qend q"
  by (auto simp: ring_inv_def ring_size_def mod_below_double split: if_splits)

lemma ring_empty: "ring_inv q \<Longrightarrow> ring_size q = 0 \<longleftrightarrow> qfirst q = qend q"
  by (auto simp: ring_inv_def ring_size_def)

lemma ring_list_nth: "k < ring_size q \<Longrightarrow> ring_list q ! k = buf q ! ((qfirst q + k) mod length (buf q))"
  by (simp add: ring_list_def)

lemma length_ring_list [simp]: "length (ring_list q) = ring_size q"
  by (simp add: ring_list_def)

lemma ring_list_empty: "ring_inv q \<Longrightarrow> ring_list q = [] \<longleftrightarrow> qfirst q = qend q"
  by (metis length_0_conv length_ring_list ring_empty)

lemma rotate_eq_map:
  "xs \<noteq> [] \<Longrightarrow> rotate f xs = map (\<lambda>k. xs ! ((f + k) mod length xs)) [0..<length xs]"
  by (rule nth_equalityI) (simp_all add: nth_rotate)

section \<open>Each operation on the contents\<close>

lemma ring_insert_spec:
  assumes inv: "ring_inv q"
  shows "ring_inv (ring_insert d x q) \<and> ring_list (ring_insert d x q) = ring_list q @ [x]"
proof -
  let ?n = "length (buf q)" and ?b = "(buf q)[qend q := x]"
  let ?e = "if qend q + 1 = ?n then 0 else qend q + 1"
  have n: "qfirst q < ?n" "qend q < ?n" using inv by (auto simp: ring_inv_def)
  have app: "map (\<lambda>k. ?b ! ((qfirst q + k) mod ?n)) [0..<Suc (ring_size q)] = ring_list q @ [x]"
  proof -
    have "map (\<lambda>k. ?b ! ((qfirst q + k) mod ?n)) [0..<ring_size q] = ring_list q"
      unfolding ring_list_def by (rule map_cong) (auto simp: ring_index_neq_end [OF inv, THEN not_sym])
    then show ?thesis using n(2) by (simp add: ring_index_end [OF inv])
  qed
  show ?thesis
  proof (cases "qfirst q = ?e")
    case True
    let ?tmp = "replicate ((?n * 3 + 1) div 2) d"
    have sz: "Suc (ring_size q) = ?n"
      using True n by (auto simp: ring_size_def split: if_splits)
    have "?n \<le> length ?tmp" "?n < (?n * 3 + 1) div 2" using n by auto
    then have c: "copy_range ?b (qfirst q) (?n - qfirst q) (?tmp, 0)
        = (drop (qfirst q) ?b @ drop (?n - qfirst q) ?tmp, ?n - qfirst q)"
      using n by (subst copy_range_eq) simp_all
    have c2: "copy_range ?b 0 (qfirst q) (drop (qfirst q) ?b @ drop (?n - qfirst q) ?tmp, ?n - qfirst q)
        = (drop (qfirst q) ?b @ take (qfirst q) ?b @ drop ?n ?tmp, ?n)"
      using n \<open>?n \<le> length ?tmp\<close> by (subst copy_range_eq) simp_all
    have rot: "drop (qfirst q) ?b @ take (qfirst q) ?b = rotate (qfirst q) ?b"
      using n by (simp add: rotate_drop_take)
    define q' where "q' = q\<lparr>buf := rotate (qfirst q) ?b @ drop ?n ?tmp, qfirst := 0, qend := ?n\<rparr>"
    have q': "ring_insert d x q = q'"
      by (simp only: ring_insert_def Let_def length_list_update True [symmetric] refl if_True c c2
          split_conv q'_def) (simp only: rot append_assoc [symmetric])
    have inv': "ring_inv q'" and size': "ring_size q' = ?n"
      using n \<open>?n < (?n * 3 + 1) div 2\<close> by (simp_all add: ring_inv_def ring_size_def q'_def)
    have "ring_list q' = map (\<lambda>k. buf q' ! k) [0..<?n]"
      unfolding ring_list_def size' using inv' by (intro map_cong) (auto simp: q'_def ring_inv_def)
    also have "\<dots> = rotate (qfirst q) ?b"
      by (rule nth_equalityI) (simp_all add: q'_def nth_append)
    also have "\<dots> = ring_list q @ [x]"
      using app n by (subst rotate_eq_map) (auto simp: sz simp del: upt_Suc)
    finally show ?thesis using q' inv' by simp
  next
    case False
    define q' where "q' = q\<lparr>buf := ?b, qend := ?e\<rparr>"
    have q': "ring_insert d x q = q'" using False by (simp add: ring_insert_def q'_def)
    have inv': "ring_inv q'" using n by (auto simp: ring_inv_def q'_def)
    have "ring_size q' = Suc (ring_size q)"
      using False n by (auto simp: ring_size_def q'_def split: if_splits)
    with q' inv' app show ?thesis by (simp add: ring_list_def q'_def del: upt_Suc)
  qed
qed

lemma ring_insertBack_spec:
  assumes inv: "ring_inv q"
  shows "ring_inv (ring_insertBack d x q) \<and> ring_list (ring_insertBack d x q) = x # ring_list q"
proof -
  let ?n = "length (buf q)"
  let ?f = "if qfirst q = 0 then ?n - 1 else qfirst q - 1"
  have n: "qfirst q < ?n" "qend q < ?n" using inv by (auto simp: ring_inv_def)
  show ?thesis
  proof (cases "?f = qend q")
    case True
    let ?sz = "ring_size q" and ?tmp = "replicate ((?n * 3 + 1) div 2) d"
    have sz: "Suc ?sz = ?n" using True n by (auto simp: ring_size_def split: if_splits)
    have big: "?n < (?n * 3 + 1) div 2" using n by auto
    have m: "map (\<lambda>k. buf q ! ((k + qfirst q) mod ?n)) [0..<0 + ?sz] = ring_list q"
      by (simp add: ring_list_def add.commute)
    define q' where "q' = q\<lparr>buf := x # ring_list q @ drop ?n ?tmp, qfirst := 0, qend := ?n\<rparr>"
    have "take 1 ?tmp = [d]" using n by (cases "(?n * 3 + 1) div 2") auto
    then have "(take 1 ?tmp @ ring_list q @ drop (1 + ?sz) ?tmp)[0 := x] = x # ring_list q @ drop ?n ?tmp"
      using sz by simp
    moreover have "copy_wrapped (buf q) (qfirst q) 0 ?sz (?tmp, 1)
                     = (take 1 ?tmp @ ring_list q @ drop (1 + ?sz) ?tmp, 1 + ?sz)"
      using sz big by (subst copy_wrapped_eq) (simp_all add: m [simplified])
    ultimately have q': "ring_insertBack d x q = q'"
      using True sz by (simp add: ring_insertBack_def q'_def)
    have inv': "ring_inv q'" and size': "ring_size q' = ?n"
      using sz big by (simp_all add: ring_inv_def ring_size_def q'_def)
    have "ring_list q' = map (\<lambda>k. buf q' ! k) [0..<?n]"
      unfolding ring_list_def size' using inv' by (intro map_cong) (auto simp: q'_def ring_inv_def)
    also have "\<dots> = x # ring_list q"
      using sz by (intro nth_equalityI) (auto simp: q'_def nth_append nth_Cons split: nat.splits)
    finally show ?thesis using q' inv' by simp
  next
    case False
    define q' where "q' = q\<lparr>buf := (buf q)[?f := x], qfirst := ?f\<rparr>"
    have q': "ring_insertBack d x q = q'" using False by (simp add: ring_insertBack_def q'_def Let_def)
    have inv': "ring_inv q'" using n by (auto simp: ring_inv_def q'_def)
    have size': "ring_size q' = Suc (ring_size q)"
      using False n by (auto simp: ring_size_def q'_def split: if_splits)
    have step: "(?f + Suc k) mod ?n = (qfirst q + k) mod ?n" for k
    proof (cases "qfirst q = 0")
      case True
      then have "?f + Suc k = k + ?n" using n by simp
      then show ?thesis by (metis True add_0 mod_add_self2)
    qed simp
    have neq: "(qfirst q + k) mod ?n \<noteq> ?f" if "k < ring_size q" for k
      using that n False by (auto simp: ring_size_def mod_below_double split: if_splits)
    have "ring_list q' ! k = (x # ring_list q) ! k" if "k < Suc (ring_size q)" for k
    proof (cases k)
      case 0
      then show ?thesis using n by (simp add: ring_list_nth size', simp add: q'_def)
    next
      case (Suc j)
      then have "j < ring_size q" using that by simp
      then show ?thesis
        using Suc neq [of j] step [of j] by (simp add: ring_list_nth size', simp add: q'_def)
    qed
    then have "ring_list q' = x # ring_list q"
      by (intro nth_equalityI) (simp_all add: size')
    with q' inv' show ?thesis by simp
  qed
qed


lemma ring_pop_spec:
  assumes inv: "ring_inv q"
  shows "(ring_pop q = None \<longleftrightarrow> ring_list q = []) \<and>
         (\<forall>q'. ring_pop q = Some q' \<longrightarrow> ring_inv q' \<and> ring_list q' = tl (ring_list q))"
proof -
  let ?n = "length (buf q)" and ?f = "if qfirst q + 1 = length (buf q) then 0 else qfirst q + 1"
  have n: "qfirst q < ?n" "qend q < ?n" using inv by (auto simp: ring_inv_def)
  have None: "ring_pop q = None \<longleftrightarrow> ring_list q = []"
    by (simp add: ring_list_empty [OF inv] ring_pop_def Let_def)
  have "ring_inv q' \<and> ring_list q' = tl (ring_list q)" if pop: "ring_pop q = Some q'" for q'
  proof -
    have ne: "qfirst q \<noteq> qend q" and q': "q' = q\<lparr>qfirst := ?f\<rparr>"
      using pop by (auto simp: ring_pop_def Let_def split: if_splits)
    have size': "ring_size q = Suc (ring_size q')"
      using n ne by (auto simp: q' ring_size_def split: if_splits)
    have "(?f + k) mod ?n = (qfirst q + Suc k) mod ?n" for k
    proof (cases "qfirst q + 1 = ?n")
      case True
      then have "qfirst q + Suc k = k + ?n" by simp
      moreover have "?f = 0" using True by simp
      ultimately show ?thesis by (simp only: add_0 mod_add_self2)
    qed simp
    then have "ring_list q' = tl (ring_list q)"
      by (intro nth_equalityI) (simp_all add: size' nth_tl ring_list_nth, simp_all add: q')
    moreover have "ring_inv q'" using n by (auto simp: q' ring_inv_def)
    ultimately show ?thesis by simp
  qed
  with None show ?thesis by blast
qed

lemma ring_popBack_spec:
  assumes inv: "ring_inv q"
  shows "(ring_popBack q = None \<longleftrightarrow> ring_list q = []) \<and>
         (\<forall>q'. ring_popBack q = Some q' \<longrightarrow> ring_inv q' \<and> ring_list q' = butlast (ring_list q))"
proof -
  let ?n = "length (buf q)" and ?e = "if qend q = 0 then length (buf q) - 1 else qend q - 1"
  have n: "qfirst q < ?n" "qend q < ?n" using inv by (auto simp: ring_inv_def)
  have None: "ring_popBack q = None \<longleftrightarrow> ring_list q = []"
    by (simp add: ring_list_empty [OF inv] ring_popBack_def)
  have "ring_inv q' \<and> ring_list q' = butlast (ring_list q)" if pop: "ring_popBack q = Some q'" for q'
  proof -
    have ne: "qfirst q \<noteq> qend q" and q': "q' = q\<lparr>qend := ?e\<rparr>"
      using pop by (auto simp: ring_popBack_def split: if_splits)
    have size': "ring_size q = Suc (ring_size q')"
      using n ne by (auto simp: q' ring_size_def split: if_splits)
    have "ring_list q' = butlast (ring_list q)"
      by (intro nth_equalityI) (simp_all add: size' nth_butlast ring_list_nth, simp_all add: q')
    moreover have "ring_inv q'" using n by (auto simp: q' ring_inv_def)
    ultimately show ?thesis by simp
  qed
  with None show ?thesis by blast
qed

lemma ring_peek_spec:
  assumes inv: "ring_inv q"
  shows "ring_peek q = (if ring_list q = [] then None else Some (hd (ring_list q)))"
proof (cases "qfirst q = qend q")
  case False
  with inv have "0 < ring_size q" by (metis gr0I ring_empty)
  then have "hd (ring_list q) = buf q ! qfirst q"
    using inv by (subst hd_conv_nth) (auto simp: ring_list_nth ring_inv_def simp flip: length_greater_0_conv)
  with False inv show ?thesis by (simp add: ring_peek_def ring_list_empty)
qed (simp add: ring_peek_def ring_list_empty inv)

lemma ring_peekBack_spec:
  assumes inv: "ring_inv q"
  shows "ring_peekBack q = (if ring_list q = [] then None else Some (last (ring_list q)))"
proof (cases "qfirst q = qend q")
  case False
  with inv have pos: "0 < ring_size q" by (metis gr0I ring_empty)
  have n: "qfirst q < length (buf q)" "qend q < length (buf q)" using inv by (auto simp: ring_inv_def)
  have "last (ring_list q) = buf q ! ((qfirst q + (ring_size q - 1)) mod length (buf q))"
    using pos by (subst last_conv_nth) (auto simp: ring_list_nth simp flip: length_greater_0_conv)
  also have "(qfirst q + (ring_size q - 1)) mod length (buf q)
               = (if qend q = 0 then length (buf q) - 1 else qend q - 1)"
    using n False by (auto simp: ring_size_def mod_below_double split: if_splits)
  finally show ?thesis using False inv by (simp add: ring_peekBack_def ring_list_empty)
qed (simp add: ring_peekBack_def ring_list_empty inv)

text \<open>The code's ring buffer provides the interface, whatever the default element.\<close>

interpretation rq: deque "ring_new d" ring_pop ring_popBack ring_peek ring_peekBack
  "ring_insert d" "ring_insertBack d" ring_inv ring_list for d
proof unfold_locales
  fix q :: "'a ring" and q' x
  show "ring_inv (ring_new d)" by (simp add: ring_inv_def ring_new_def)
  show "ring_list (ring_new d) = []" by (simp add: ring_list_def ring_size_def ring_new_def)
  assume q: "ring_inv q"
  show "ring_inv (ring_insert d x q)" "ring_list (ring_insert d x q) = ring_list q @ [x]"
    using ring_insert_spec [OF q] by simp_all
  show "ring_inv (ring_insertBack d x q)" "ring_list (ring_insertBack d x q) = x # ring_list q"
    using ring_insertBack_spec [OF q] by simp_all
  show "ring_pop q = None \<longleftrightarrow> ring_list q = []" "ring_popBack q = None \<longleftrightarrow> ring_list q = []"
    using ring_pop_spec [OF q] ring_popBack_spec [OF q] by simp_all
  show "ring_pop q = Some q' \<Longrightarrow> ring_inv q' \<and> ring_list q' = tl (ring_list q)"
    "ring_popBack q = Some q' \<Longrightarrow> ring_inv q' \<and> ring_list q' = butlast (ring_list q)"
    using ring_pop_spec [OF q] ring_popBack_spec [OF q] by simp_all
  show "ring_peek q = (if ring_list q = [] then None else Some (hd (ring_list q)))"
    "ring_peekBack q = (if ring_list q = [] then None else Some (last (ring_list q)))"
    using q by (simp_all add: ring_peek_spec ring_peekBack_spec)
qed

lemma walk_step: "pos < n \<Longrightarrow> (if pos + 1 = n then 0 else pos + 1) = (pos + 1) mod n" for pos n :: nat
  by auto

lemma walk_unroll:
  assumes "pos < length b"
  shows "map (\<lambda>k. b ! ((pos + k) mod length b)) [0..<Suc n] =
         b ! pos # map (\<lambda>k. b ! (((if pos + 1 = length b then 0 else pos + 1) + k) mod length b)) [0..<n]"
  unfolding walk_step [OF assms] using assms
  by (simp add: upt_conv_Cons map_Suc_upt [symmetric] mod_simps comp_def del: upt_Suc)

lemma ring_walk_contains_eq:
  assumes "pos < length b"
  shows "ring_walk_contains b x pos n \<longleftrightarrow> x \<in> set (map (\<lambda>k. b ! ((pos + k) mod length b)) [0..<n])"
  using assms
proof (induction n arbitrary: pos)
  case (Suc n)
  have "(if pos + 1 = length b then 0 else pos + 1) < length b" using Suc.prems by auto
  from Suc.IH [OF this] show ?case unfolding walk_unroll [OF Suc.prems] by simp
qed simp

lemma ring_walk_count_eq:
  assumes "pos < length b"
  shows "ring_walk_count b x pos n c
           = c + count_list (map (\<lambda>k. b ! ((pos + k) mod length b)) [0..<n]) x"
  using assms
proof (induction n arbitrary: pos c)
  case (Suc n)
  have "(if pos + 1 = length b then 0 else pos + 1) < length b" using Suc.prems by auto
  from Suc.IH [OF this] show ?case unfolding walk_unroll [OF Suc.prems] by simp
qed simp

text \<open>C26: the ring buffers refine sequences.  Every operation keeps both indices inside the buffer, whatever
  resizing happens; insertion at either end adds there, removal at either end takes away there and fails only on
  the empty buffer; the two peeks, indexing, \<^verbatim>\<open>contains\<close> and \<^verbatim>\<open>count\<close> read the same sequence.  Sizes are natural
  numbers, which is the code for buffers of fewer than 715827883 elements.\<close>

theorem ring_refines_list:
  assumes "ring_inv q"
  shows "ring_inv (ring_insert d x q) \<and> ring_list (ring_insert d x q) = ring_list q @ [x]
       \<and> ring_inv (ring_insertBack d x q) \<and> ring_list (ring_insertBack d x q) = x # ring_list q
       \<and> (\<forall>q'. ring_pop q = Some q' \<or> ring_popBack q = Some q' \<longrightarrow> ring_inv q')
       \<and> map_option ring_list (ring_pop q) = (if ring_list q = [] then None else Some (tl (ring_list q)))
       \<and> map_option ring_list (ring_popBack q)
           = (if ring_list q = [] then None else Some (butlast (ring_list q)))
       \<and> ring_peek q = (if ring_list q = [] then None else Some (hd (ring_list q)))
       \<and> ring_peekBack q = (if ring_list q = [] then None else Some (last (ring_list q)))
       \<and> (\<forall>i. ring_nth q i = (if i < length (ring_list q) then Some (ring_list q ! i) else None))
       \<and> (ring_contains q x \<longleftrightarrow> x \<in> set (ring_list q))
       \<and> ring_count q x = count_list (ring_list q) x"
proof -
  have pop: "map_option ring_list (ring_pop q) = (if ring_list q = [] then None else Some (tl (ring_list q)))"
    using rq.pop_None [OF assms] rq.pop_Some [OF assms] by (cases "ring_pop q") auto
  have popBack: "map_option ring_list (ring_popBack q)
                   = (if ring_list q = [] then None else Some (butlast (ring_list q)))"
    using rq.popBack_None [OF assms] rq.popBack_Some [OF assms] by (cases "ring_popBack q") auto
  have pos: "qfirst q < length (buf q)" using assms by (simp add: ring_inv_def)
  have out: "ring_inv q'" if "ring_pop q = Some q' \<or> ring_popBack q = Some q'" for q'
    using that rq.pop_Some [OF assms] rq.popBack_Some [OF assms] by blast
  have reads: "(\<forall>i. ring_nth q i = (if i < length (ring_list q) then Some (ring_list q ! i) else None))
       \<and> (ring_contains q x \<longleftrightarrow> x \<in> set (ring_list q)) \<and> ring_count q x = count_list (ring_list q) x"
    by (simp add: ring_nth_def ring_list_nth ring_contains_def ring_count_def
        ring_walk_contains_eq [OF pos] ring_walk_count_eq [OF pos]
        ring_list_def [symmetric])
  show ?thesis
    by (intro conjI rq.inv_insert rq.list_insert rq.inv_insertBack rq.list_insertBack rq.peek_eq rq.peekBack_eq assms pop popBack)
      (use out reads in blast)+
qed

theorem ring_refines_list_witness:
  "ring_list (ring_insert 0 (5::int) (ring_new 0)) = ring_list (ring_new 0) @ [5] \<and>
   ring_inv (ring_new (0::int))"
  using ring_refines_list [of "ring_new (0::int)" 0 5] rq.inv_new [of "0::int"] by blast

text \<open>C27: a queue filled with any sequence of insertions and then drained returns exactly that sequence
  (first in, first out), across all resizings of the buffer, as long as the buffer has fewer than 715827883
  elements.\<close>

theorem queue_fifo: "rq.drain (length xs) (rq.insert_all d xs (ring_new d)) = xs"
  by (rule rq.fifo)

end
