(* ===== verification/MTL_Heap.thy ===== *)
theory MTL_Heap
  imports MTL_Sort
begin

text \<open>
  \<^verbatim>\<open>mtl/Heap.h\<close>: the binary min-heap of integers with decrease/increase key that orders the decision
  variables.  The comparator is a parameter; \<open>heap\<close> holds the elements and \<open>indices\<close> maps each element
  to its position, or to -1.  Sizes and positions are natural numbers; the parent of position 0,
  -1 in the code, is computed but never read.
\<close>

record heap =
  heap :: "nat list"
  indices :: "int list"

section \<open>Index traversal and percolation\<close>

definition left :: "nat \<Rightarrow> nat" where "left i = i * 2 + 1"
definition right :: "nat \<Rightarrow> nat" where "right i = (i + 1) * 2"
definition parent :: "nat \<Rightarrow> nat" where "parent i = (i - 1) div 2"

lemma parent_less: "0 < i \<Longrightarrow> parent i < i"
  by (auto simp: parent_def)

lemma parent_child [simp]: "parent (left i) = i" "parent (right i) = i"
  by (simp_all add: parent_def left_def right_def)

lemma parent_eq: "0 < j \<Longrightarrow> parent j = i \<longleftrightarrow> j = left i \<or> j = right i"
  by (auto simp: parent_def left_def right_def)

lemma child_greater: "i < left i" "i < right i"
  by (simp_all add: left_def right_def)

text \<open>
  The loop of \<^verbatim>\<open>percolateUp\<close>: parents greater than \<open>x\<close> move down into the hole at \<open>i\<close>; at the end \<open>x\<close>
  is written into the hole.
\<close>

function up_loop :: "(nat \<Rightarrow> nat \<Rightarrow> bool) \<Rightarrow> nat \<Rightarrow> nat list \<Rightarrow> int list \<Rightarrow> nat \<Rightarrow> heap" where
  "up_loop lt x hp ind i =
     (if i \<noteq> 0 \<and> lt x (hp ! parent i)
      then up_loop lt x (hp[i := hp ! parent i]) (ind[hp ! parent i := int i]) (parent i)
      else \<lparr>heap = hp[i := x], indices = ind[x := int i]\<rparr>)"
  by pat_completeness auto
termination by (relation "measure (\<lambda>(lt, x, hp, ind, i). i)") (auto simp: parent_less)

definition percolateUp :: "(nat \<Rightarrow> nat \<Rightarrow> bool) \<Rightarrow> nat \<Rightarrow> heap \<Rightarrow> heap" where
  "percolateUp lt i h = up_loop lt (heap h ! i) (heap h) (indices h) i"

definition pick_child :: "(nat \<Rightarrow> nat \<Rightarrow> bool) \<Rightarrow> nat list \<Rightarrow> nat \<Rightarrow> nat" where
  "pick_child lt hp i =
     (if right i < length hp \<and> lt (hp ! right i) (hp ! left i) then right i else left i)"

lemma pick_child_cases: "pick_child lt hp i = left i \<or> pick_child lt hp i = right i"
  by (simp add: pick_child_def)

lemma pick_child_greater: "i < pick_child lt hp i"
  using child_greater pick_child_cases by metis

lemma pick_child_less: "left i < length hp \<Longrightarrow> pick_child lt hp i < length hp"
  by (auto simp: pick_child_def)

function down_loop :: "(nat \<Rightarrow> nat \<Rightarrow> bool) \<Rightarrow> nat \<Rightarrow> nat list \<Rightarrow> int list \<Rightarrow> nat \<Rightarrow> heap" where
  "down_loop lt x hp ind i =
     (if left i < length hp
      then let child = pick_child lt hp i
           in if \<not> lt (hp ! child) x
              then \<lparr>heap = hp[i := x], indices = ind[x := int i]\<rparr>
              else down_loop lt x (hp[i := hp ! child]) (ind[hp ! child := int i]) child
      else \<lparr>heap = hp[i := x], indices = ind[x := int i]\<rparr>)"
  by pat_completeness auto
termination
proof (relation "measure (\<lambda>(lt, x, hp, ind, i). length hp - i)")
  fix lt :: "nat \<Rightarrow> nat \<Rightarrow> bool" and x and hp :: "nat list" and ind :: "int list" and i child
  assume "left i < length hp" "child = pick_child lt hp i"
  then show "((lt, x, hp[i := hp ! child], ind[hp ! child := int i], child), lt, x, hp, ind, i)
               \<in> measure (\<lambda>(lt, x, hp, ind, i). length hp - i)"
    using pick_child_greater [of i lt hp] child_greater(1) [of i] by simp
qed simp

declare up_loop.simps [simp del] down_loop.simps [simp del]

definition percolateDown :: "(nat \<Rightarrow> nat \<Rightarrow> bool) \<Rightarrow> nat \<Rightarrow> heap \<Rightarrow> heap" where
  "percolateDown lt i h = down_loop lt (heap h ! i) (heap h) (indices h) i"

section \<open>Operations\<close>

definition heap_empty :: heap where
  "heap_empty = \<lparr>heap = [], indices = []\<rparr>"

definition heap_size :: "heap \<Rightarrow> nat" where "heap_size h = length (heap h)"
definition is_empty :: "heap \<Rightarrow> bool" where "is_empty h = (length (heap h) = 0)"

definition inHeap :: "nat \<Rightarrow> heap \<Rightarrow> bool" where
  "inHeap n h = (n < length (indices h) \<and> 0 \<le> indices h ! n)"

text \<open>\<^verbatim>\<open>decrease\<close>, \<^verbatim>\<open>increase\<close> and \<^verbatim>\<open>insert\<close> assert their preconditions: \<open>None\<close> where they fail.\<close>

definition heap_decrease :: "(nat \<Rightarrow> nat \<Rightarrow> bool) \<Rightarrow> nat \<Rightarrow> heap \<Rightarrow> heap option" where
  "heap_decrease lt n h =
     (if inHeap n h then Some (percolateUp lt (nat (indices h ! n)) h) else None)"

definition heap_increase :: "(nat \<Rightarrow> nat \<Rightarrow> bool) \<Rightarrow> nat \<Rightarrow> heap \<Rightarrow> heap option" where
  "heap_increase lt n h =
     (if inHeap n h then Some (percolateDown lt (nat (indices h ! n)) h) else None)"

definition grow :: "nat \<Rightarrow> 'a \<Rightarrow> 'a list \<Rightarrow> 'a list" where
  "grow n pad xs = (if n \<le> length xs then xs else xs @ replicate (n - length xs) pad)"

definition heap_insert :: "(nat \<Rightarrow> nat \<Rightarrow> bool) \<Rightarrow> nat \<Rightarrow> heap \<Rightarrow> heap option" where
  "heap_insert lt n h =
     (let ind = grow (n + 1) (- 1) (indices h)
      in if 0 \<le> ind ! n then None
         else let ind = ind[n := int (length (heap h))];
                  hp = heap h @ [n]
              in Some (percolateUp lt (nat (ind ! n)) \<lparr>heap = hp, indices = ind\<rparr>))"

definition heap_update_elem :: "(nat \<Rightarrow> nat \<Rightarrow> bool) \<Rightarrow> nat \<Rightarrow> heap \<Rightarrow> heap option" where
  "heap_update_elem lt n h =
     (if \<not> inHeap n h then heap_insert lt n h
      else let h' = percolateUp lt (nat (indices h ! n)) h
           in Some (percolateDown lt (nat (indices h' ! n)) h'))"

definition peekMin :: "heap \<Rightarrow> nat option" where
  "peekMin h = (if heap h = [] then None else Some (heap h ! 0))"

definition removeMin :: "(nat \<Rightarrow> nat \<Rightarrow> bool) \<Rightarrow> heap \<Rightarrow> (nat \<times> heap) option" where
  "removeMin lt h =
     (if heap h = [] then None
      else let x = heap h ! 0;
               hp = (heap h)[0 := last (heap h)];
               ind = (indices h)[hp ! 0 := 0];
               ind = ind[x := - 1];
               h' = \<lparr>heap = butlast hp, indices = ind\<rparr>
           in Some (x, if 1 < length (heap h') then percolateDown lt 0 h' else h'))"

fun unindex :: "nat list \<Rightarrow> int list \<Rightarrow> int list" where
  "unindex [] ind = ind"
| "unindex (x # xs) ind = unindex xs (ind[x := - 1])"

fun reindex :: "nat list \<Rightarrow> nat \<Rightarrow> int list \<Rightarrow> int list" where
  "reindex [] i ind = ind"
| "reindex (x # xs) i ind = reindex xs (Suc i) (ind[x := int i])"

fun heapify :: "(nat \<Rightarrow> nat \<Rightarrow> bool) \<Rightarrow> nat \<Rightarrow> heap \<Rightarrow> heap" where
  "heapify lt 0 h = h"
| "heapify lt (Suc i) h = heapify lt i (percolateDown lt i h)"

text \<open>
  \<^verbatim>\<open>build\<close> overwrites \<^verbatim>\<open>indices[ns[i]]\<close> without growing the array: every element of \<open>ns\<close> must have been
  in the heap's index range before (\<open>None\<close> otherwise).
\<close>

definition heap_build :: "(nat \<Rightarrow> nat \<Rightarrow> bool) \<Rightarrow> nat list \<Rightarrow> heap \<Rightarrow> heap option" where
  "heap_build lt ns h =
     (if \<forall>n \<in> set ns. n < length (indices h)
      then let ind = reindex ns 0 (unindex (heap h) (indices h))
           in Some (heapify lt (length ns div 2) \<lparr>heap = ns, indices = ind\<rparr>)
      else None)"

definition heap_clear :: "heap \<Rightarrow> heap" where
  "heap_clear h = \<lparr>heap = [], indices = unindex (heap h) (indices h)\<rparr>"

section \<open>Invariants\<close>

definition idx_ok :: "nat list \<Rightarrow> int list \<Rightarrow> bool" where
  "idx_ok hp ind \<longleftrightarrow>
     (\<forall>i < length hp. hp ! i < length ind \<and> ind ! (hp ! i) = int i) \<and>
     (\<forall>n < length ind. 0 \<le> ind ! n \<longrightarrow> nat (ind ! n) < length hp \<and> hp ! nat (ind ! n) = n)"

definition heap_from :: "(nat \<Rightarrow> nat \<Rightarrow> bool) \<Rightarrow> nat \<Rightarrow> nat list \<Rightarrow> bool" where
  "heap_from lt lo hp \<longleftrightarrow> (\<forall>j < length hp. 0 < j \<and> lo \<le> parent j \<longrightarrow> \<not> lt (hp ! j) (hp ! parent j))"

definition heap_inv :: "(nat \<Rightarrow> nat \<Rightarrow> bool) \<Rightarrow> heap \<Rightarrow> bool" where
  "heap_inv lt h \<longleftrightarrow> idx_ok (heap h) (indices h) \<and> heap_from lt 0 (heap h)"

definition elems :: "heap \<Rightarrow> nat set" where "elems h = set (heap h)"

lemma idx_ok_distinct: "idx_ok hp ind \<Longrightarrow> distinct hp"
  by (auto simp: idx_ok_def distinct_conv_nth) (metis of_nat_eq_iff)

lemma idx_ok_bound: "idx_ok hp ind \<Longrightarrow> x \<in> set hp \<Longrightarrow> x < length ind"
  by (auto simp: idx_ok_def in_set_conv_nth)

lemma idx_ok_mem: "idx_ok hp ind \<Longrightarrow> n < length ind \<and> 0 \<le> ind ! n \<longleftrightarrow> n \<in> set hp"
  unfolding idx_ok_def in_set_conv_nth by (metis nat_int of_nat_0_le_iff)

lemma idx_ok_swap:
  assumes ok: "idx_ok hp ind" and i: "i < length hp" and p: "p < length hp" and ne: "i \<noteq> p"
  shows "idx_ok (swap_at i p hp) (ind[hp ! p := int i, hp ! i := int p])"
proof -
  have xi: "hp ! i < length ind" "hp ! p < length ind" "hp ! i \<noteq> hp ! p"
    using ok i p ne unfolding idx_ok_def by (simp_all, metis of_nat_eq_iff)
  have 1: "\<forall>k < length hp. hp ! k < length ind \<and> ind ! (hp ! k) = int k"
    and 2: "\<forall>n < length ind. 0 \<le> ind ! n \<longrightarrow> nat (ind ! n) < length hp \<and> hp ! nat (ind ! n) = n"
    using ok by (auto simp: idx_ok_def)
  have inj: "k < length hp \<Longrightarrow> l < length hp \<Longrightarrow> hp ! k = hp ! l \<longleftrightarrow> k = l" for k l
    using 1 by (metis of_nat_eq_iff)
  show ?thesis
    unfolding idx_ok_def using 1 2 xi i p ne
    by (auto simp: nth_swap_at nth_list_update_any inj)
qed


section \<open>Percolation restores the heap order\<close>

text \<open>
  The proofs look at the array with \<open>x\<close> already written into the hole \<open>i\<close>: then one iteration of either
  loop is a swap of two positions.  \<open>hole_up\<close> and \<open>hole_down\<close> say which edges of the tree may be wrong.
\<close>

locale heap_order = strict_weak_order lt for lt :: "nat \<Rightarrow> nat \<Rightarrow> bool"
begin

lemma trans: "lt x y \<Longrightarrow> lt y z \<Longrightarrow> lt x z"
  using asym neg_trans by blast

definition hole_up :: "nat list \<Rightarrow> nat \<Rightarrow> bool" where
  "hole_up v i \<longleftrightarrow>
     (\<forall>j < length v. 0 < j \<and> j \<noteq> i \<longrightarrow> \<not> lt (v ! j) (v ! parent j)) \<and>
     (\<forall>j < length v. 0 < j \<and> parent j = i \<and> 0 < i \<longrightarrow> \<not> lt (v ! j) (v ! parent i))"

definition hole_down :: "nat \<Rightarrow> nat list \<Rightarrow> nat \<Rightarrow> bool" where
  "hole_down lo v i \<longleftrightarrow>
     (\<forall>j < length v. 0 < j \<and> lo \<le> parent j \<and> parent j \<noteq> i \<longrightarrow> \<not> lt (v ! j) (v ! parent j)) \<and>
     (\<forall>j < length v. 0 < j \<and> parent j = i \<and> 0 < i \<and> lo \<le> parent i \<longrightarrow> \<not> lt (v ! j) (v ! parent i))"

lemma hole_up_step:
  assumes h: "hole_up v i" and i: "i < length v" "0 < i" and less: "lt (v ! i) (v ! parent i)"
  shows "hole_up (swap_at i (parent i) v) (parent i)"
proof -
  let ?p = "parent i" let ?v = "swap_at i ?p v"
  have p: "?p < i" using i by (simp add: parent_less)
  have nth: "k < length v \<Longrightarrow> ?v ! k = (if k = ?p then v ! i else if k = i then v ! ?p else v ! k)" for k
    using i p by (simp add: nth_swap_at)
  have A: "\<And>j. j < length v \<Longrightarrow> 0 < j \<Longrightarrow> j \<noteq> i \<Longrightarrow> \<not> lt (v ! j) (v ! parent j)"
    and B: "\<And>j. j < length v \<Longrightarrow> 0 < j \<Longrightarrow> parent j = i \<Longrightarrow> \<not> lt (v ! j) (v ! ?p)"
    using h i unfolding hole_up_def by blast+
  show ?thesis
    unfolding hole_up_def length_swap_at
  proof (intro conjI allI impI)
    fix j assume j: "j < length v" "0 < j \<and> j \<noteq> ?p"
    have pj: "parent j < j" using j by (simp add: parent_less)
    then have pl: "parent j < length v" using j(1) by simp
    consider "j = i" | "parent j = i" "j \<noteq> i" | "parent j = ?p" "j \<noteq> i"
      | "parent j \<noteq> i" "parent j \<noteq> ?p" "j \<noteq> i" by blast
    then show "\<not> lt (?v ! j) (?v ! parent j)"
    proof cases
      case 1
      then show ?thesis using nth [OF j(1)] nth [OF pl] less asym i p by auto
    next
      case 2
      then show ?thesis using nth [OF j(1)] nth [OF pl] B [of j] j p by auto
    next
      case 3
      then have "\<not> lt (v ! j) (v ! ?p)" using A [of j] j by metis
      then have "\<not> lt (v ! j) (v ! i)" using less trans by blast
      with 3 show ?thesis using nth [OF j(1)] nth [OF pl] j by auto
    next
      case 4
      then show ?thesis using nth [OF j(1)] nth [OF pl] A [of j] j by auto
    qed
  next
    fix j assume j: "j < length v" "0 < j \<and> parent j = ?p \<and> 0 < ?p"
    have pp: "parent ?p < ?p" using j by (simp add: parent_less)
    then have "?v ! parent ?p = v ! parent ?p" using nth [of "parent ?p"] p i by auto
    moreover have "\<not> lt (v ! ?p) (v ! parent ?p)" using A [of ?p] p i j by auto
    moreover have "\<not> lt (v ! j) (v ! ?p)" if "j \<noteq> i" using A [of j] j that by metis
    moreover have "j \<noteq> ?p" using j parent_less [of j] by auto
    ultimately show "\<not> lt (?v ! j) (?v ! parent ?p)"
      using nth [OF j(1)] neg_trans by (auto split: if_splits)
  qed
qed

lemma hole_up_stop:
  assumes "hole_up v i" "i = 0 \<or> \<not> lt (v ! i) (v ! parent i)"
  shows "heap_from lt 0 v"
  using assms unfolding hole_up_def heap_from_def by (metis less_nat_zero_code)

lemma hole_down_step:
  assumes h: "hole_down lo v i" and lo: "lo \<le> i"
    and c: "c < length v" "parent c = i" "0 < c" and less: "lt (v ! c) (v ! i)"
    and small: "\<forall>j < length v. 0 < j \<and> parent j = i \<longrightarrow> \<not> lt (v ! j) (v ! c)"
  shows "hole_down lo (swap_at i c v) c"
proof -
  let ?v = "swap_at i c v"
  have i: "i < c" using c parent_less by blast
  have nth: "k < length v \<Longrightarrow> ?v ! k = (if k = c then v ! i else if k = i then v ! c else v ! k)" for k
    using i c by (simp add: nth_swap_at)
  have A: "\<And>j. j < length v \<Longrightarrow> 0 < j \<Longrightarrow> lo \<le> parent j \<Longrightarrow> parent j \<noteq> i \<Longrightarrow> \<not> lt (v ! j) (v ! parent j)"
    and B: "\<And>j. j < length v \<Longrightarrow> 0 < j \<Longrightarrow> parent j = i \<Longrightarrow> 0 < i \<Longrightarrow> lo \<le> parent i \<Longrightarrow> \<not> lt (v ! j) (v ! parent i)"
    using h unfolding hole_down_def by blast+
  show ?thesis
    unfolding hole_down_def length_swap_at
  proof (intro conjI allI impI)
    fix j assume j: "j < length v" "0 < j \<and> lo \<le> parent j \<and> parent j \<noteq> c"
    have pl: "parent j < length v" using j parent_less [of j] by simp
    have nj: "parent j < j" using j by (simp add: parent_less)
    consider "j = c" | "parent j = i" "j \<noteq> c" | "j = i" | "j \<noteq> i" "parent j \<noteq> i" "j \<noteq> c" by blast
    then show "\<not> lt (?v ! j) (?v ! parent j)"
    proof cases
      case 1
      then show ?thesis using nth [OF j(1)] nth [OF pl] c less asym i by auto
    next
      case 2
      then show ?thesis using nth [OF j(1)] nth [OF pl] small j i nj by auto
    next
      case 3
      then show ?thesis using nth [OF j(1)] nth [OF pl] B [OF c(1,3,2)] j i nj by auto
    next
      case 4
      then show ?thesis using nth [OF j(1)] nth [OF pl] A [of j] j i by auto
    qed
  next
    fix j assume j: "j < length v" "0 < j \<and> parent j = c \<and> 0 < c \<and> lo \<le> parent c"
    have "j \<noteq> c" "j \<noteq> i" using j parent_less [of j] i by auto
    then show "\<not> lt (?v ! j) (?v ! parent c)"
      using A [of j] j nth [OF j(1)] nth [of i] i c lo by auto
  qed
qed

lemma hole_down_stop:
  assumes "hole_down lo v i" "\<forall>j < length v. 0 < j \<and> parent j = i \<longrightarrow> \<not> lt (v ! j) (v ! i)"
  shows "heap_from lt lo v"
  using assms unfolding hole_down_def heap_from_def by metis

text \<open>The structure, indices and elements, does not depend on the order; the order is restored by either loop.\<close>

lemma up_loop_struct:
  assumes "i < length hp" "x < length ind" "idx_ok (hp[i := x]) (ind[x := int i])"
  shows "idx_ok (heap (up_loop lt x hp ind i)) (indices (up_loop lt x hp ind i))
       \<and> mset (heap (up_loop lt x hp ind i)) = mset (hp[i := x])
       \<and> length (indices (up_loop lt x hp ind i)) = length ind"
  using assms
proof (induction i arbitrary: hp ind rule: less_induct)
  case (less i hp ind)
  let ?p = "parent i" and ?v = "hp[i := x]"
  show ?case
  proof (cases "i \<noteq> 0 \<and> lt x (hp ! ?p)")
    case True
    then have p: "?p < i" by (simp add: parent_less)
    let ?hp = "hp[i := hp ! ?p]" and ?ind = "ind[hp ! ?p := int i]"
    have vp: "?v ! ?p = hp ! ?p" and vi: "?v ! i = x" using p less.prems(1) by auto
    have swap: "?hp[?p := x] = swap_at i ?p ?v"
      using p less.prems(1) by (auto simp: swap_at_def)
    have neq: "hp ! ?p \<noteq> x"
      using True irrefl by metis
    have "ind[x := int i, hp ! ?p := int i, x := int ?p] = ?ind[x := int ?p]"
      using neq by (metis list_update_overwrite list_update_swap)
    with idx_ok_swap [OF less.prems(3), of i ?p] p less.prems(1) vp vi
    have "idx_ok (?hp[?p := x]) (?ind[x := int ?p])" unfolding swap by simp
    moreover have "mset (?hp[?p := x]) = mset ?v"
      unfolding swap using p less.prems(1) by simp
    ultimately show ?thesis
      using less.IH [of ?p ?hp ?ind] p less.prems True
      by (simp add: up_loop.simps [of lt x hp ind i])
  next
    case False
    then have "up_loop lt x hp ind i = \<lparr>heap = ?v, indices = ind[x := int i]\<rparr>"
      by (subst up_loop.simps) (simp only: if_False)
    then show ?thesis using less.prems by simp
  qed
qed

lemma up_loop_order:
  assumes "i < length hp" "hole_up (hp[i := x]) i"
  shows "heap_from lt 0 (heap (up_loop lt x hp ind i))"
  using assms
proof (induction i arbitrary: hp ind rule: less_induct)
  case (less i hp ind)
  let ?p = "parent i" and ?v = "hp[i := x]"
  show ?case
  proof (cases "i \<noteq> 0 \<and> lt x (hp ! ?p)")
    case True
    then have p: "?p < i" by (simp add: parent_less)
    let ?hp = "hp[i := hp ! ?p]"
    have vp: "?v ! ?p = hp ! ?p" and vi: "?v ! i = x" using p less.prems(1) by auto
    have swap: "?hp[?p := x] = swap_at i ?p ?v"
      using p less.prems(1) by (auto simp: swap_at_def)
    have "hole_up (?hp[?p := x]) ?p"
      unfolding swap using True less.prems vp vi by (intro hole_up_step) auto
    then show ?thesis
      using less.IH [of ?p ?hp] p less.prems(1) True
      by (simp add: up_loop.simps [of lt x hp ind i])
  next
    case False
    have "?v ! ?p = hp ! ?p" if "i \<noteq> 0" using that parent_less [of i] by simp
    then have "heap_from lt 0 ?v"
      using False less.prems by (intro hole_up_stop [of _ i]) auto
    moreover have "up_loop lt x hp ind i = \<lparr>heap = ?v, indices = ind[x := int i]\<rparr>"
      using False by (subst up_loop.simps) (simp only: if_False)
    ultimately show ?thesis by simp
  qed
qed

lemma pick_child_small:
  assumes "0 < j" "parent j = i" "j < length hp"
  shows "\<not> lt (hp ! j) (hp ! pick_child lt hp i)"
proof -
  have "j = left i \<or> j = right i" using assms by (simp add: parent_eq)
  then show ?thesis using assms(3) asym [of "hp ! right i" "hp ! left i"] by (auto simp: pick_child_def)
qed

lemma down_loop_struct:
  assumes "i < length hp" "x < length ind" "idx_ok (hp[i := x]) (ind[x := int i])"
  shows "idx_ok (heap (down_loop lt x hp ind i)) (indices (down_loop lt x hp ind i))
       \<and> mset (heap (down_loop lt x hp ind i)) = mset (hp[i := x])
       \<and> length (indices (down_loop lt x hp ind i)) = length ind"
  using assms
proof (induction "length hp - i" arbitrary: hp ind i rule: less_induct)
  case (less hp i ind)
  let ?v = "hp[i := x]" and ?c = "pick_child lt hp i"
  show ?case
  proof (cases "left i < length hp \<and> lt (hp ! ?c) x")
    case True
    then have c: "i < ?c" "?c < length hp" using pick_child_greater pick_child_less by auto
    let ?hp = "hp[i := hp ! ?c]" and ?ind = "ind[hp ! ?c := int i]"
    have vc: "?v ! ?c = hp ! ?c" and vi: "?v ! i = x" using c less.prems(1) by auto
    have swap: "?hp[?c := x] = swap_at i ?c ?v"
      using c less.prems(1) by (auto simp: swap_at_def)
    have neq: "hp ! ?c \<noteq> x" using True irrefl by metis
    have "ind[x := int i, hp ! ?c := int i, x := int ?c] = ?ind[x := int ?c]"
      using neq by (metis list_update_overwrite list_update_swap)
    with idx_ok_swap [OF less.prems(3), of i ?c] c less.prems(1) vc vi
    have "idx_ok (?hp[?c := x]) (?ind[x := int ?c])" unfolding swap by simp
    moreover have "mset (?hp[?c := x]) = mset ?v"
      unfolding swap using c less.prems(1) by simp
    moreover have "down_loop lt x hp ind i = down_loop lt x ?hp ?ind ?c"
      using True by (subst down_loop.simps) (simp add: Let_def)
    moreover have "length ?hp - ?c < length hp - i" "?c < length ?hp" "x < length ?ind"
      using c less.prems(1,2) by auto
    ultimately show ?thesis
      using less.hyps [of ?hp ?c ?ind] by (simp only: length_list_update)
  next
    case False
    then have "down_loop lt x hp ind i = \<lparr>heap = ?v, indices = ind[x := int i]\<rparr>"
      by (auto simp: down_loop.simps [of lt x hp ind i] Let_def)
    then show ?thesis using less.prems by simp
  qed
qed

lemma down_loop_order:
  assumes "i < length hp" "lo \<le> i" "hole_down lo (hp[i := x]) i"
  shows "heap_from lt lo (heap (down_loop lt x hp ind i))"
  using assms
proof (induction "length hp - i" arbitrary: hp ind i rule: less_induct)
  case (less hp i ind)
  let ?v = "hp[i := x]" and ?c = "pick_child lt hp i"
  have vj: "?v ! j = hp ! j" if "j \<noteq> i" for j using that by simp
  have kids: "j = left i \<or> j = right i" if "0 < j" "parent j = i" for j
    using that by (simp add: parent_eq)
  show ?case
  proof (cases "left i < length hp \<and> lt (hp ! ?c) x")
    case True
    then have c: "i < ?c" "?c < length hp" "parent ?c = i"
      using pick_child_greater pick_child_less pick_child_cases [of lt hp i] by auto
    let ?hp = "hp[i := hp ! ?c]" and ?ind = "ind[hp ! ?c := int i]"
    have vc: "?v ! ?c = hp ! ?c" and vi: "?v ! i = x" using c less.prems(1) by auto
    have swap: "?hp[?c := x] = swap_at i ?c ?v"
      using c less.prems(1) by (auto simp: swap_at_def)
    have "hole_down lo (?hp[?c := x]) ?c"
      unfolding swap
    proof (rule hole_down_step [OF less.prems(3,2)])
      show "\<forall>j < length ?v. 0 < j \<and> parent j = i \<longrightarrow> \<not> lt (?v ! j) (?v ! ?c)"
      proof (intro allI impI)
        fix j assume j: "j < length ?v" "0 < j \<and> parent j = i"
        with parent_less [of j] have ne: "j \<noteq> i" by auto
        show "\<not> lt (?v ! j) (?v ! ?c)"
          unfolding vj [OF ne] vc by (rule pick_child_small) (use j in simp_all)
      qed
    qed (use True c vc vi less.prems in auto)
    moreover have "down_loop lt x hp ind i = down_loop lt x ?hp ?ind ?c"
      using True by (subst down_loop.simps) (simp add: Let_def)
    moreover have "length ?hp - ?c < length hp - i" "?c < length ?hp" "lo \<le> ?c"
      using c less.prems(1,2) by auto
    ultimately show ?thesis
      using less.hyps [of ?hp ?c ?ind] by (simp only: length_list_update)
  next
    case False
    have "\<forall>j < length ?v. 0 < j \<and> parent j = i \<longrightarrow> \<not> lt (?v ! j) (?v ! i)"
    proof (intro allI impI)
      fix j assume j: "j < length ?v" "0 < j \<and> parent j = i"
      with parent_less [of j] have "i < j" by auto
      have "left i < length hp" using kids [of j] j by (auto simp: left_def right_def)
      with False have nc: "\<not> lt (hp ! ?c) x" by simp
      have "\<not> lt (hp ! j) (hp ! ?c)"
        using pick_child_small [of j i hp] j by simp
      with nc have "\<not> lt (hp ! j) x" using neg_trans by blast
      with \<open>i < j\<close> less.prems(1) show "\<not> lt (?v ! j) (?v ! i)" by simp
    qed
    then have "heap_from lt lo ?v" by (rule hole_down_stop [OF less.prems(3)])
    moreover have "down_loop lt x hp ind i = \<lparr>heap = ?v, indices = ind[x := int i]\<rparr>"
      using False by (auto simp: down_loop.simps [of lt x hp ind i] Let_def)
    ultimately show ?thesis by simp
  qed
qed

text \<open>The two percolations started at a position whose element is in place.\<close>

lemma percolate_start:
  assumes "idx_ok (heap h) (indices h)" "i < length (heap h)"
  shows "(heap h)[i := heap h ! i] = heap h" "(indices h)[heap h ! i := int i] = indices h"
    "heap h ! i < length (indices h)"
  using assms unfolding idx_ok_def by (simp_all, metis list_update_id)

lemma percolate_struct:
  assumes "idx_ok (heap h) (indices h)" "i < length (heap h)"
  shows "idx_ok (heap (percolateUp lt i h)) (indices (percolateUp lt i h))"
    and "mset (heap (percolateUp lt i h)) = mset (heap h)"
    and "length (indices (percolateUp lt i h)) = length (indices h)"
    and "idx_ok (heap (percolateDown lt i h)) (indices (percolateDown lt i h))"
    and "mset (heap (percolateDown lt i h)) = mset (heap h)"
    and "length (indices (percolateDown lt i h)) = length (indices h)"
  using up_loop_struct [of i "heap h" "heap h ! i" "indices h"] down_loop_struct [of i "heap h" "heap h ! i" "indices h"]
    percolate_start [OF assms] assms
  by (simp_all add: percolateUp_def percolateDown_def)

lemma percolateUp_spec:
  assumes "idx_ok (heap h) (indices h)" "i < length (heap h)" "hole_up (heap h) i"
  shows "heap_inv lt (percolateUp lt i h) \<and> mset (heap (percolateUp lt i h)) = mset (heap h)
       \<and> length (indices (percolateUp lt i h)) = length (indices h)"
  using up_loop_order [of i "heap h" "heap h ! i" "indices h"] percolate_start [OF assms(1,2)] percolate_struct [OF assms(1,2)]
    assms by (simp add: percolateUp_def heap_inv_def)

lemma percolateDown_spec:
  assumes "idx_ok (heap h) (indices h)" "i < length (heap h)" "hole_down lo (heap h) i" "lo \<le> i"
  shows "idx_ok (heap (percolateDown lt i h)) (indices (percolateDown lt i h))
       \<and> heap_from lt lo (heap (percolateDown lt i h))
       \<and> mset (heap (percolateDown lt i h)) = mset (heap h)
       \<and> length (indices (percolateDown lt i h)) = length (indices h)"
  using down_loop_order [of i "heap h" lo "heap h ! i" "indices h"] percolate_start [OF assms(1,2)]
    percolate_struct [OF assms(1,2)] assms
  by (simp add: percolateDown_def)

lemma heap_root_min:
  assumes "heap_from lt 0 hp" "i < length hp"
  shows "\<not> lt (hp ! i) (hp ! 0)"
  using assms(2)
proof (induction i rule: less_induct)
  case (less i)
  show ?case
  proof (cases "i = 0")
    case False
    then have "parent i < i" by (simp add: parent_less)
    with less have "\<not> lt (hp ! parent i) (hp ! 0)" by simp
    moreover have "\<not> lt (hp ! i) (hp ! parent i)"
      using assms(1) less.prems False by (simp add: heap_from_def)
    ultimately show ?thesis using neg_trans by blast
  qed simp
qed

section \<open>The operations keep the invariant\<close>

lemma inHeap_iff: "heap_inv lt h \<Longrightarrow> inHeap n h \<longleftrightarrow> n \<in> elems h"
  unfolding inHeap_def heap_inv_def elems_def using idx_ok_mem by blast

lemma pos_of:
  assumes "idx_ok (heap h) (indices h)" "inHeap n h"
  shows "nat (indices h ! n) < length (heap h)" "heap h ! nat (indices h ! n) = n"
  using assms by (auto simp: idx_ok_def inHeap_def)

lemma length_grow [simp]: "length (grow n pad xs) = max n (length xs)"
  by (auto simp: grow_def max_def)

lemma nth_grow: "k < max n (length xs) \<Longrightarrow> grow n pad xs ! k = (if k < length xs then xs ! k else pad)"
  by (auto simp: grow_def nth_append max_def)

lemma idx_ok_grow: "idx_ok hp ind \<Longrightarrow> idx_ok hp (grow n (- 1) ind)"
  unfolding idx_ok_def
  by (auto simp: nth_grow less_max_iff_disj split: if_splits)

lemma idx_ok_snoc:
  assumes ok: "idx_ok hp ind" and n: "n < length ind" "n \<notin> set hp"
  shows "idx_ok (hp @ [n]) (ind[n := int (length hp)])"
proof -
  have ne: "i < length hp \<Longrightarrow> hp ! i \<noteq> n" for i using n(2) nth_mem by blast
  show ?thesis
    using ok n ne unfolding idx_ok_def
    by (auto simp: nth_append nth_list_update_any less_Suc_eq)
qed

lemma insert_spec:
  assumes inv: "heap_inv lt h" and n: "n \<notin> elems h"
  shows "\<exists>h'. heap_insert lt n h = Some h' \<and> heap_inv lt h' \<and> elems h' = insert n (elems h)"
proof -
  let ?ind = "grow (n + 1) (- 1) (indices h)" and ?hp = "heap h @ [n]" and ?i = "length (heap h)"
  let ?h = "\<lparr>heap = ?hp, indices = ?ind[n := int ?i]\<rparr>"
  have ok: "idx_ok (heap h) ?ind" using inv by (simp add: heap_inv_def idx_ok_grow)
  have len: "n < length ?ind" by simp
  then have neg: "\<not> 0 \<le> ?ind ! n" using idx_ok_mem [OF ok, of n] n by (simp add: elems_def)
  have ok': "idx_ok (heap ?h) (indices ?h)"
    using idx_ok_snoc [OF ok len] n by (simp add: elems_def)
  have "hole_up (heap ?h) ?i"
    unfolding hole_up_def
  proof (intro conjI allI impI)
    fix j assume j: "j < length (heap ?h)" "0 < j \<and> j \<noteq> ?i"
    then have "j < ?i" "parent j < ?i" using parent_less [of j] by auto
    then show "\<not> lt (heap ?h ! j) (heap ?h ! parent j)"
      using inv j by (simp add: heap_inv_def heap_from_def nth_append)
  next
    fix j assume j: "j < length (heap ?h)" "0 < j \<and> parent j = ?i \<and> 0 < ?i"
    then show "\<not> lt (heap ?h ! j) (heap ?h ! parent ?i)" using parent_less [of j] by auto
  qed
  note up = percolateUp_spec [OF ok' _ this]
  then have "heap_inv lt (percolateUp lt ?i ?h)" "mset (heap (percolateUp lt ?i ?h)) = mset ?hp"
    by simp_all
  moreover from this(2) have "elems (percolateUp lt ?i ?h) = insert n (elems h)"
    unfolding elems_def by (metis set_mset_mset mset.simps(2) mset_append union_commute
        union_mset_add_mset_right set_mset_add_mset_insert add_0 list.set(1) mset.simps(1) set_append
        list.simps(15) Un_insert_right sup_bot_right)
  moreover have "heap_insert lt n h = Some (percolateUp lt ?i ?h)"
    using neg len by (simp add: heap_insert_def Let_def)
  ultimately show ?thesis by blast
qed

lemma idx_ok_removeMin:
  assumes ok: "idx_ok hp ind" and ne: "hp \<noteq> []"
  shows "idx_ok (butlast (hp[0 := last hp])) (ind[last hp := 0, hp ! 0 := - 1])"
proof -
  let ?l = "last hp" and ?n = "length hp"
  have l: "?l = hp ! (?n - 1)" using ne by (simp add: last_conv_nth)
  have 1: "\<forall>i < ?n. hp ! i < length ind \<and> ind ! (hp ! i) = int i"
    and 2: "\<forall>n < length ind. 0 \<le> ind ! n \<longrightarrow> nat (ind ! n) < ?n \<and> hp ! nat (ind ! n) = n"
    using ok by (auto simp: idx_ok_def)
  have inj: "k < ?n \<Longrightarrow> m < ?n \<Longrightarrow> hp ! k = hp ! m \<longleftrightarrow> k = m" for k m
    using 1 by (metis of_nat_eq_iff)
  have pos: "0 < ?n" using ne by simp
  have nth: "i < ?n - 1 \<Longrightarrow> butlast (hp[0 := ?l]) ! i = (if i = 0 then ?l else hp ! i)" for i
    using pos by (simp add: nth_butlast nth_list_update_any)
  have fst: "hp ! i < length ind \<and> ind[?l := 0, hp ! 0 := - 1] ! (hp ! i) = int i"
    if "0 < i" "i < ?n - 1" for i
  proof -
    have i: "i < ?n" using that by simp
    have "hp ! i \<noteq> hp ! 0" "hp ! i \<noteq> ?l"
      using that i pos inj [of i 0] inj [of i "?n - 1"] l by auto
    then show ?thesis using 1 i by simp
  qed
  have fst0: "?l < length ind \<and> ind[?l := 0, hp ! 0 := - 1] ! ?l = 0" if "1 < ?n"
  proof -
    have i: "?n - 1 < ?n" "?n - 1 \<noteq> 0" using that by auto
    then have "hp ! (?n - 1) \<noteq> hp ! 0" using inj [OF i(1) pos] by simp
    then have "?l \<noteq> hp ! 0" by (simp add: l)
    moreover have "?l < length ind" unfolding l using 1 i(1) by blast
    ultimately show ?thesis by (simp del: last_in_set)
  qed
  show ?thesis
    unfolding idx_ok_def
  proof (intro conjI allI impI)
    fix i assume i: "i < length (butlast (hp[0 := ?l]))"
    then show "butlast (hp[0 := ?l]) ! i < length (ind[?l := 0, hp ! 0 := - 1])"
      and "ind[?l := 0, hp ! 0 := - 1] ! (butlast (hp[0 := ?l]) ! i) = int i"
      using nth [of i] fst [of i] fst0 by (cases "i = 0", simp_all)+
  next
    fix n assume n: "n < length (ind[?l := 0, hp ! 0 := - 1])" "0 \<le> ind[?l := 0, hp ! 0 := - 1] ! n"
    then have nh: "n \<noteq> hp ! 0" by (auto simp: nth_list_update_any)
    have "nat (ind[?l := 0, hp ! 0 := - 1] ! n) < ?n - 1 \<and>
        butlast (hp[0 := ?l]) ! nat (ind[?l := 0, hp ! 0 := - 1] ! n) = n"
    proof (cases "n = ?l")
      case True
      with nh l pos have "1 < ?n" by (cases "?n = 1") auto
      with True fst0 nth [of 0] show ?thesis by simp
    next
      case False
      then have v: "ind[?l := 0, hp ! 0 := - 1] ! n = ind ! n" using nh by simp
      with n 2 have m: "nat (ind ! n) < ?n" "hp ! nat (ind ! n) = n" by auto
      then have "nat (ind ! n) \<noteq> 0" "nat (ind ! n) \<noteq> ?n - 1" using nh False l by metis+
      with m v nth [of "nat (ind ! n)"] show ?thesis by simp
    qed
    then show "nat (ind[?l := 0, hp ! 0 := - 1] ! n) < length (butlast (hp[0 := ?l]))"
      and "butlast (hp[0 := ?l]) ! nat (ind[?l := 0, hp ! 0 := - 1] ! n) = n" by simp_all
  qed
qed

lemma removeMin_spec:
  assumes inv: "heap_inv lt h" and ne: "heap h \<noteq> []"
  shows "\<exists>x h'. removeMin lt h = Some (x, h') \<and> heap_inv lt h' \<and> x \<in> elems h \<and>
           (\<forall>y \<in> elems h. \<not> lt y x) \<and> elems h' = elems h - {x}"
proof -
  let ?x = "heap h ! 0" and ?hp = "butlast ((heap h)[0 := last (heap h)])"
  let ?ind = "(indices h)[last (heap h) := 0, ?x := - 1]" let ?h = "\<lparr>heap = ?hp, indices = ?ind\<rparr>"
  let ?h' = "if 1 < length ?hp then percolateDown lt 0 ?h else ?h"
  have ok: "idx_ok (heap h) (indices h)" and order: "heap_from lt 0 (heap h)"
    using inv by (auto simp: heap_inv_def)
  have len: "0 < length (heap h)" using ne by simp
  have min: "\<forall>y \<in> elems h. \<not> lt y ?x"
    using heap_root_min [OF order] by (auto simp: elems_def in_set_conv_nth)
  have ok': "idx_ok ?hp ?ind" by (rule idx_ok_removeMin [OF ok ne])
  have ms: "mset ?hp = mset (heap h) - {#?x#}"
  proof (cases "heap h")
    case (Cons y ys)
    then show ?thesis
      by (cases ys rule: rev_cases) (auto simp: butlast_append)
  qed (use ne in simp)
  have down: "hole_down 0 ?hp 0"
    unfolding hole_down_def
  proof (intro conjI allI impI)
    fix j assume j: "j < length ?hp" "0 < j \<and> 0 \<le> parent j \<and> parent j \<noteq> 0"
    then have "parent j < length ?hp" using parent_less [of j] by auto
    then show "\<not> lt (?hp ! j) (?hp ! parent j)"
      using order j by (auto simp: heap_from_def nth_butlast nth_list_update_any)
  qed simp
  have res: "heap_inv lt ?h' \<and> mset (heap ?h') = mset ?hp"
  proof (cases "1 < length ?hp")
    case True
    then have "0 < length (heap ?h)" by simp
    from percolateDown_spec [OF _ this, of 0] ok' down True show ?thesis
      by (simp add: heap_inv_def)
  next
    case False
    then have "heap_from lt 0 ?hp" by (auto simp: heap_from_def)
    with False ok' show ?thesis by (simp add: heap_inv_def)
  qed
  have "distinct (heap h)" by (rule idx_ok_distinct [OF ok])
  then have "set_mset (mset (heap h) - {#?x#}) = set (heap h) - {?x}"
    by (metis mset_remove1 set_mset_mset set_remove1_eq)
  then have el: "elems ?h' = elems h - {?x}"
    using res ms unfolding elems_def by (metis set_mset_mset)
  have "removeMin lt h = Some (?x, ?h')"
    using len ne by (simp add: removeMin_def Let_def)
  with res min el len show ?thesis
    by (intro exI [of _ ?x] exI [of _ ?h']) (simp add: elems_def)
qed

text \<open>A changed key: \<open>lt0\<close> is the order for which the heap was built.\<close>

lemma decrease_spec:
  assumes lt0: "heap_order lt0" and inv: "heap_inv lt0 h" and n: "n \<in> elems h"
    and same: "\<And>x y. x \<noteq> n \<Longrightarrow> y \<noteq> n \<Longrightarrow> lt x y = lt0 x y"
    and dec: "\<And>y. lt y n \<Longrightarrow> lt0 y n"
  shows "\<exists>h'. heap_decrease lt n h = Some h' \<and> heap_inv lt h' \<and> elems h' = elems h"
proof -
  let ?v = "heap h" and ?i = "nat (indices h ! n)"
  have ok: "idx_ok ?v (indices h)" and order: "heap_from lt0 0 ?v" using inv by (auto simp: heap_inv_def)
  have inh: "inHeap n h" using heap_order.inHeap_iff [OF lt0 inv] n by simp
  note pos = pos_of [OF ok inh]
  have key: "j < length ?v \<Longrightarrow> ?v ! j = n \<longleftrightarrow> j = ?i" for j
    using pos idx_ok_distinct [OF ok] by (auto simp: nth_eq_iff_index_eq)
  have nt: "\<And>x y z. \<not> lt0 x y \<Longrightarrow> \<not> lt0 y z \<Longrightarrow> \<not> lt0 x z"
    using lt0 unfolding heap_order_def strict_weak_order_def by blast
  have "hole_up ?v ?i"
    unfolding hole_up_def
  proof (intro conjI allI impI)
    fix j assume j: "j < length ?v" "0 < j \<and> j \<noteq> ?i"
    then have "\<not> lt0 (?v ! j) (?v ! parent j)" using order by (simp add: heap_from_def)
    moreover have "?v ! j \<noteq> n" using key j by blast
    ultimately show "\<not> lt (?v ! j) (?v ! parent j)"
      using same dec by (cases "?v ! parent j = n") auto
  next
    fix j assume j: "j < length ?v" "0 < j \<and> parent j = ?i \<and> 0 < ?i"
    then have "parent ?i < ?i" "?i < j" using parent_less [of j] parent_less [of ?i] by auto
    then have "?v ! j \<noteq> n" "?v ! parent ?i \<noteq> n" using key [of j] key [of "parent ?i"] j by auto
    moreover have "\<not> lt0 (?v ! j) (?v ! ?i)" "\<not> lt0 (?v ! ?i) (?v ! parent ?i)"
      using order j pos(1) unfolding heap_from_def by auto
    ultimately show "\<not> lt (?v ! j) (?v ! parent ?i)" using same nt by metis
  qed
  from percolateUp_spec [OF ok pos(1) this] inh show ?thesis
    unfolding heap_decrease_def elems_def by (metis set_mset_mset)
qed

lemma increase_spec:
  assumes lt0: "heap_order lt0" and inv: "heap_inv lt0 h" and n: "n \<in> elems h"
    and same: "\<And>x y. x \<noteq> n \<Longrightarrow> y \<noteq> n \<Longrightarrow> lt x y = lt0 x y"
    and inc: "\<And>y. lt n y \<Longrightarrow> lt0 n y"
  shows "\<exists>h'. heap_increase lt n h = Some h' \<and> heap_inv lt h' \<and> elems h' = elems h"
proof -
  let ?v = "heap h" and ?i = "nat (indices h ! n)"
  have ok: "idx_ok ?v (indices h)" and order: "heap_from lt0 0 ?v" using inv by (auto simp: heap_inv_def)
  have inh: "inHeap n h" using heap_order.inHeap_iff [OF lt0 inv] n by simp
  note pos = pos_of [OF ok inh]
  have key: "j < length ?v \<Longrightarrow> ?v ! j = n \<longleftrightarrow> j = ?i" for j
    using pos idx_ok_distinct [OF ok] by (auto simp: nth_eq_iff_index_eq)
  have nt: "\<And>x y z. \<not> lt0 x y \<Longrightarrow> \<not> lt0 y z \<Longrightarrow> \<not> lt0 x z"
    using lt0 unfolding heap_order_def strict_weak_order_def by blast
  have "hole_down 0 ?v ?i"
    unfolding hole_down_def
  proof (intro conjI allI impI)
    fix j assume j: "j < length ?v" "0 < j \<and> 0 \<le> parent j \<and> parent j \<noteq> ?i"
    then have "\<not> lt0 (?v ! j) (?v ! parent j)" using order by (simp add: heap_from_def)
    moreover have "parent j < length ?v" using j parent_less [of j] by auto
    then have "?v ! parent j \<noteq> n" using key j by blast
    ultimately show "\<not> lt (?v ! j) (?v ! parent j)"
      using same inc by (cases "?v ! j = n") auto
  next
    fix j assume j: "j < length ?v" "0 < j \<and> parent j = ?i \<and> 0 < ?i \<and> 0 \<le> parent ?i"
    then have "parent ?i < ?i" "?i < j" using parent_less [of j] parent_less [of ?i] by auto
    then have "?v ! j \<noteq> n" "?v ! parent ?i \<noteq> n" using key [of j] key [of "parent ?i"] j by auto
    moreover have "\<not> lt0 (?v ! j) (?v ! ?i)" "\<not> lt0 (?v ! ?i) (?v ! parent ?i)"
      using order j pos(1) unfolding heap_from_def by auto
    ultimately show "\<not> lt (?v ! j) (?v ! parent ?i)" using same nt by metis
  qed
  from percolateDown_spec [OF ok pos(1) this] inh show ?thesis
    unfolding heap_increase_def heap_inv_def elems_def by (metis set_mset_mset le0)
qed

lemma hole_down_of_heap: "heap_from lt 0 v \<Longrightarrow> i < length v \<Longrightarrow> hole_down 0 v i"
  unfolding hole_down_def heap_from_def using neg_trans by blast

lemma percolateUp_id:
  assumes "idx_ok (heap h) (indices h)" "i < length (heap h)"
    "i = 0 \<or> \<not> lt (heap h ! i) (heap h ! parent i)"
  shows "percolateUp lt i h = h"
  unfolding percolateUp_def
  by (subst up_loop.simps) (use assms(3) percolate_start [OF assms(1,2)] in auto)

lemma update_spec:
  assumes lt0: "heap_order lt0" and inv: "heap_inv lt0 h" and n: "n \<in> elems h"
    and same: "\<And>x y. x \<noteq> n \<Longrightarrow> y \<noteq> n \<Longrightarrow> lt x y = lt0 x y"
  shows "\<exists>h'. heap_update_elem lt n h = Some h' \<and> heap_inv lt h' \<and> elems h' = elems h"
proof -
  let ?v = "heap h" and ?i = "nat (indices h ! n)"
  let ?h = "percolateUp lt ?i h" let ?h' = "percolateDown lt (nat (indices ?h ! n)) ?h"
  have ok: "idx_ok ?v (indices h)" and order: "heap_from lt0 0 ?v" using inv by (auto simp: heap_inv_def)
  have inh: "inHeap n h" using heap_order.inHeap_iff [OF lt0 inv] n by simp
  note pos = pos_of [OF ok inh]
  have key: "j < length ?v \<Longrightarrow> ?v ! j = n \<longleftrightarrow> j = ?i" for j
    using pos idx_ok_distinct [OF ok] by (auto simp: nth_eq_iff_index_eq)
  have nt: "\<And>x y z. \<not> lt0 x y \<Longrightarrow> \<not> lt0 y z \<Longrightarrow> \<not> lt0 x z"
    using lt0 unfolding heap_order_def strict_weak_order_def by blast
  have others: "\<not> lt (?v ! j) (?v ! parent j)"
    if "j < length ?v" "0 < j" "j \<noteq> ?i" "parent j \<noteq> ?i" for j
  proof -
    have "?v ! j \<noteq> n" "?v ! parent j \<noteq> n"
      using that key [of j] key [of "parent j"] parent_less [of j] by auto
    with that order same show ?thesis by (simp add: heap_from_def)
  qed
  have B: "\<not> lt (?v ! j) (?v ! parent ?i)" if j: "j < length ?v" "0 < j" "parent j = ?i" "0 < ?i" for j
  proof -
    have "parent ?i < ?i" "?i < j" using j parent_less [of j] parent_less [of ?i] by auto
    then have "?v ! j \<noteq> n" "?v ! parent ?i \<noteq> n" using key [of j] key [of "parent ?i"] j by auto
    moreover have "\<not> lt0 (?v ! j) (?v ! ?i)" "\<not> lt0 (?v ! ?i) (?v ! parent ?i)"
      using order j pos(1) unfolding heap_from_def by auto
    ultimately show ?thesis using same nt by metis
  qed
  have "idx_ok (heap ?h) (indices ?h) \<and> mset (heap ?h) = mset ?v \<and> (\<forall>k < length ?v. heap ?h ! k = n \<longrightarrow> hole_down 0 (heap ?h) k)"
  proof (cases "?i \<noteq> 0 \<and> lt n (?v ! parent ?i)")
    case True
    have "\<not> lt (?v ! j) (?v ! parent j)" if j: "j < length ?v" "0 < j" "j \<noteq> ?i" for j
    proof (cases "parent j = ?i")
      case parent: True
      with B [of j] j True have "\<not> lt (?v ! j) (?v ! parent ?i)" by simp
      with True trans have "\<not> lt (?v ! j) n" by blast
      with parent pos show ?thesis by simp
    qed (use others j in blast)
    then have "hole_up ?v ?i" unfolding hole_up_def using B by blast
    from percolateUp_spec [OF ok pos(1) this] show ?thesis
      using hole_down_of_heap size_mset unfolding heap_inv_def by metis
  next
    case False
    with pos have id: "?h = h" by (intro percolateUp_id [OF ok pos(1)]) auto
    have "hole_down 0 ?v ?i"
      unfolding hole_down_def
    proof (intro conjI allI impI)
      fix j assume j: "j < length ?v" "0 < j \<and> 0 \<le> parent j \<and> parent j \<noteq> ?i"
      show "\<not> lt (?v ! j) (?v ! parent j)"
        using others [of j] j False pos(2) by (cases "j = ?i") auto
    qed (use B in blast)
    with id ok key show ?thesis by auto
  qed
  then have h: "idx_ok (heap ?h) (indices ?h)" "mset (heap ?h) = mset ?v"
    "\<And>k. k < length ?v \<Longrightarrow> heap ?h ! k = n \<Longrightarrow> hole_down 0 (heap ?h) k" by auto
  have el: "elems ?h = elems h" using h(2) unfolding elems_def by (metis set_mset_mset)
  then have "inHeap n ?h" using n idx_ok_mem [OF h(1)] by (simp add: inHeap_def elems_def)
  note pos' = pos_of [OF h(1) this]
  have "hole_down 0 (heap ?h) (nat (indices ?h ! n))"
    using h(3) pos' h(2) by (metis size_mset)
  from percolateDown_spec [OF h(1) pos'(1) this] have "heap_inv lt ?h'" "mset (heap ?h') = mset (heap ?h)"
    by (auto simp: heap_inv_def)
  moreover from this(2) el have "elems ?h' = elems h" unfolding elems_def by (metis set_mset_mset)
  ultimately show ?thesis using inh by (simp add: heap_update_elem_def Let_def)
qed

section \<open>The elements, whatever the keys\<close>

text \<open>While keys change, the heap may be out of order; its indices and elements still are as expected.\<close>

lemma insert_struct:
  assumes ok: "idx_ok (heap h) (indices h)" and n: "n \<notin> elems h"
  shows "\<exists>h'. heap_insert lt n h = Some h' \<and> idx_ok (heap h') (indices h') \<and> elems h' = insert n (elems h) \<and>
    length (indices h) \<le> length (indices h')"
proof -
  let ?ind = "grow (n + 1) (- 1) (indices h)" and ?hp = "heap h @ [n]" and ?i = "length (heap h)"
  let ?h = "\<lparr>heap = ?hp, indices = ?ind[n := int ?i]\<rparr>"
  have ok1: "idx_ok (heap h) ?ind" by (rule idx_ok_grow [OF ok])
  have len: "n < length ?ind" by simp
  then have neg: "\<not> 0 \<le> ?ind ! n" using idx_ok_mem [OF ok1, of n] n by (simp add: elems_def)
  have ok': "idx_ok (heap ?h) (indices ?h)" using idx_ok_snoc [OF ok1 len] n by (simp add: elems_def)
  have i: "?i < length (heap ?h)" by simp
  note up = percolate_struct [OF ok' i]
  have "set (heap (percolateUp lt ?i ?h)) = set (heap h @ [n])" using mset_eq_setD [OF up(2)] by simp
  moreover have "heap_insert lt n h = Some (percolateUp lt ?i ?h)"
    using neg len by (simp add: heap_insert_def Let_def)
  ultimately show ?thesis using up(1,3) by (auto simp: elems_def)
qed

lemma removeMin_struct:
  assumes ok: "idx_ok (heap h) (indices h)" and ne: "heap h \<noteq> []"
  shows "\<exists>x h'. removeMin lt h = Some (x, h') \<and> idx_ok (heap h') (indices h') \<and> x \<in> elems h \<and> elems h' = elems h - {x} \<and>
    length (indices h') = length (indices h) \<and> length (heap h') < length (heap h)"
proof -
  let ?x = "heap h ! 0" and ?hp = "butlast ((heap h)[0 := last (heap h)])"
  let ?ind = "(indices h)[last (heap h) := 0, ?x := - 1]" let ?h = "\<lparr>heap = ?hp, indices = ?ind\<rparr>"
  let ?h' = "if 1 < length ?hp then percolateDown lt 0 ?h else ?h"
  have ok': "idx_ok (heap ?h) (indices ?h)" using idx_ok_removeMin [OF ok ne] by simp
  have ms: "mset ?hp = mset (heap h) - {#?x#}"
  proof (cases "heap h")
    case (Cons y ys)
    then show ?thesis
      by (cases ys rule: rev_cases) (auto simp: butlast_append)
  qed (use ne in simp)
  have res: "idx_ok (heap ?h') (indices ?h') \<and> mset (heap ?h') = mset ?hp \<and> length (indices ?h') = length (indices h)"
  proof (cases "1 < length ?hp")
    case True
    then have "0 < length (heap ?h)" by simp
    from percolate_struct [OF ok' this] True show ?thesis by simp
  next
    case False
    then show ?thesis using ok' by simp
  qed
  have "set_mset (mset (heap h) - {#?x#}) = set (heap h) - {?x}"
    using idx_ok_distinct [OF ok] by (metis mset_remove1 set_mset_mset set_remove1_eq)
  then have el: "elems ?h' = elems h - {?x}"
    using res ms unfolding elems_def by (metis set_mset_mset)
  have "length (heap ?h') = length ?hp" using res by (metis size_mset)
  then have len: "length (heap ?h') < length (heap h)" using ne by simp
  have "removeMin lt h = Some (?x, ?h')"
    using ne by (cases "heap h") (simp_all add: removeMin_def Let_def)
  with res el ne len show ?thesis
    by (intro exI [of _ ?x] exI [of _ ?h']) (simp add: elems_def)
qed

lemma inHeap_elems: "idx_ok (heap h) (indices h) \<Longrightarrow> inHeap n h \<longleftrightarrow> n \<in> elems h"
  by (simp add: inHeap_def elems_def idx_ok_mem)

lemma decrease_struct:
  assumes ok: "idx_ok (heap h) (indices h)" and n: "n \<in> elems h"
  shows "\<exists>h'. heap_decrease lt n h = Some h' \<and> idx_ok (heap h') (indices h') \<and> elems h' = elems h \<and>
    length (indices h') = length (indices h)"
proof -
  have inh: "inHeap n h" using inHeap_elems [OF ok] n by simp
  note up = percolate_struct [OF ok pos_of(1) [OF ok inh]]
  show ?thesis using up(1,3) mset_eq_setD [OF up(2)] inh by (simp add: heap_decrease_def elems_def)
qed

section \<open>Building a heap\<close>

lemma length_unindex [simp]: "length (unindex xs ind) = length ind"
  by (induction xs arbitrary: ind) auto

lemma nth_unindex: "n < length ind \<Longrightarrow> unindex xs ind ! n = (if n \<in> set xs then - 1 else ind ! n)"
  by (induction xs arbitrary: ind) (auto simp: nth_list_update_any)

lemma length_reindex [simp]: "length (reindex xs k ind) = length ind"
  by (induction xs arbitrary: k ind) auto

lemma nth_reindex_other: "n \<notin> set xs \<Longrightarrow> reindex xs k ind ! n = ind ! n"
  by (induction xs arbitrary: k ind) auto

lemma nth_reindex:
  "distinct xs \<Longrightarrow> i < length xs \<Longrightarrow> xs ! i < length ind \<Longrightarrow> reindex xs k ind ! (xs ! i) = int (k + i)"
  by (induction xs arbitrary: k ind i) (auto simp: nth_Cons nth_reindex_other split: nat.splits)

lemma idx_ok_build:
  assumes ok: "idx_ok hp ind" and ns: "distinct ns" "\<forall>n \<in> set ns. n < length ind"
  shows "idx_ok ns (reindex ns 0 (unindex hp ind))"
proof -
  have neg: "unindex hp ind ! n < 0" if "n < length ind" for n
    using that idx_ok_mem [OF ok, of n] by (auto simp: nth_unindex)
  have at: "reindex ns 0 (unindex hp ind) ! (ns ! i) = int i" if "i < length ns" for i
    using nth_reindex [of ns i "unindex hp ind" 0] ns that by simp
  have "nat (reindex ns 0 (unindex hp ind) ! n) < length ns \<and> ns ! nat (reindex ns 0 (unindex hp ind) ! n) = n"
    if n: "n < length ind" "0 \<le> reindex ns 0 (unindex hp ind) ! n" for n
  proof -
    have "n \<in> set ns" using neg [OF n(1)] n(2) nth_reindex_other [of n ns] by force
    then obtain i where "i < length ns" "ns ! i = n" by (auto simp: in_set_conv_nth)
    with at show ?thesis by fastforce
  qed
  then show ?thesis unfolding idx_ok_def using at ns(2) by simp
qed

lemma heapify_spec:
  assumes "idx_ok (heap h) (indices h)" "heap_from lt i (heap h)" "i \<le> length (heap h)"
  shows "heap_inv lt (heapify lt i h) \<and> mset (heap (heapify lt i h)) = mset (heap h)"
  using assms
proof (induction i arbitrary: h)
  case (Suc i)
  let ?h = "percolateDown lt i h"
  have "hole_down i (heap h) i"
    unfolding hole_down_def
  proof (intro conjI allI impI)
    fix j assume "j < length (heap h)" "0 < j \<and> i \<le> parent j \<and> parent j \<noteq> i"
    then show "\<not> lt (heap h ! j) (heap h ! parent j)" using Suc.prems(2) by (simp add: heap_from_def)
  next
    fix j assume "j < length (heap h)" "0 < j \<and> parent j = i \<and> 0 < i \<and> i \<le> parent i"
    then show "\<not> lt (heap h ! j) (heap h ! parent i)" using parent_less [of i] by simp
  qed
  then have h: "idx_ok (heap ?h) (indices ?h)" "heap_from lt i (heap ?h)" "mset (heap ?h) = mset (heap h)"
    using percolateDown_spec [of h i i] Suc.prems by auto
  then have "i \<le> length (heap ?h)" using Suc.prems(3) by (metis Suc_leD size_mset)
  from Suc.IH [OF h(1,2) this] h(3) show ?case by simp
qed (simp add: heap_inv_def)

lemma length_down_loop: "length (indices (down_loop lt x hp ind i)) = length ind"
proof (induction lt x hp ind i rule: down_loop.induct)
  case (1 lt x hp ind i)
  then show ?case by (subst down_loop.simps) (auto simp: Let_def simp del: down_loop.simps)
qed

lemma length_heapify: "length (indices (heapify lt i h)) = length (indices h)"
  by (induction i arbitrary: h) (simp_all add: percolateDown_def length_down_loop del: down_loop.simps)

lemma length_build: "heap_build lt ns h = Some h' \<Longrightarrow> length (indices h') = length (indices h)"
  by (auto simp: heap_build_def Let_def length_heapify split: if_splits)

lemma build_spec:
  assumes ok: "idx_ok (heap h) (indices h)" and ns: "distinct ns" "\<forall>n \<in> set ns. n < length (indices h)"
  shows "\<exists>h'. heap_build lt ns h = Some h' \<and> heap_inv lt h' \<and> elems h' = set ns"
proof -
  let ?h = "\<lparr>heap = ns, indices = reindex ns 0 (unindex (heap h) (indices h))\<rparr>"
  have "heap_from lt (length ns div 2) ns"
    unfolding heap_from_def
  proof (intro allI impI)
    fix j assume "j < length ns" "0 < j \<and> length ns div 2 \<le> parent j"
    then show "\<not> lt (ns ! j) (ns ! parent j)" by (auto simp: parent_def)
  qed
  with idx_ok_build [OF ok ns] heapify_spec [of ?h "length ns div 2"]
  have "heap_inv lt (heapify lt (length ns div 2) ?h)" "mset (heap (heapify lt (length ns div 2) ?h)) = mset ns"
    by simp_all
  then show ?thesis
    using ns(2) unfolding heap_build_def elems_def by (simp add: Let_def) (metis set_mset_mset)
qed

end


section \<open>The priority-queue interface\<close>

text \<open>What the solver relies on: insertion, and removal of an element that no other one precedes.\<close>

locale prio_queue =
  fixes ins :: "nat \<Rightarrow> 'q \<Rightarrow> 'q option"
    and delmin :: "'q \<Rightarrow> (nat \<times> 'q) option"
    and inv :: "'q \<Rightarrow> bool"
    and set_of :: "'q \<Rightarrow> nat set"
    and less :: "nat \<Rightarrow> nat \<Rightarrow> bool"
  assumes fin: "finite (set_of q)"
    and ins_ok: "inv q \<Longrightarrow> n \<notin> set_of q \<Longrightarrow>
      \<exists>q'. ins n q = Some q' \<and> inv q' \<and> set_of q' = insert n (set_of q)"
    and delmin_None: "delmin q = None \<longleftrightarrow> set_of q = {}"
    and delmin_Some: "inv q \<Longrightarrow> delmin q = Some (x, q') \<Longrightarrow>
      inv q' \<and> x \<in> set_of q \<and> (\<forall>y \<in> set_of q. \<not> less y x) \<and> set_of q' = set_of q - {x}"
begin

fun drain :: "nat \<Rightarrow> 'q \<Rightarrow> nat list" where
  "drain 0 q = []"
| "drain (Suc k) q = (case delmin q of None \<Rightarrow> [] | Some (x, q') \<Rightarrow> x # drain k q')"

lemma drain_spec:
  "inv q \<Longrightarrow> card (set_of q) \<le> k \<Longrightarrow>
     set (drain k q) = set_of q \<and> distinct (drain k q) \<and> sorted_wrt (\<lambda>x y. \<not> less y x) (drain k q)"
proof (induction k arbitrary: q)
  case 0
  then show ?case using fin by simp
next
  case (Suc k)
  show ?case
  proof (cases "delmin q")
    case None
    then show ?thesis using delmin_None [of q] by simp
  next
    case (Some r)
    then obtain x q' where r: "delmin q = Some (x, q')" by (cases r) auto
    from delmin_Some [OF Suc.prems(1) r] have q': "inv q'" "x \<in> set_of q" "\<forall>y \<in> set_of q. \<not> less y x"
      "set_of q' = set_of q - {x}" by auto
    then have "card (set_of q') \<le> k" using Suc.prems(2) fin [of q] by (simp add: card_Diff_singleton)
    from Suc.IH [OF q'(1) this] q' r show ?thesis by auto
  qed
qed

end

sublocale heap_order \<subseteq> pq: prio_queue "heap_insert lt" "removeMin lt" "heap_inv lt" elems lt
proof unfold_locales
  show "finite (elems q)" for q by (simp add: elems_def)
  show "removeMin lt q = None \<longleftrightarrow> elems q = {}" for q
    by (simp add: removeMin_def elems_def Let_def)
  show "heap_inv lt q \<Longrightarrow> n \<notin> elems q \<Longrightarrow>
      \<exists>q'. heap_insert lt n q = Some q' \<and> heap_inv lt q' \<and> elems q' = insert n (elems q)" for q n
    by (rule insert_spec)
  fix q x q' assume q: "heap_inv lt q" "removeMin lt q = Some (x, q')"
  then have "heap q \<noteq> []" by (auto simp: removeMin_def)
  from removeMin_spec [OF q(1) this] q(2)
  show "heap_inv lt q' \<and> x \<in> elems q \<and> (\<forall>y \<in> elems q. \<not> lt y x) \<and> elems q' = elems q - {x}"
    by auto
qed

context heap_order begin

lemma heap_is_prio_queue: "prio_queue (heap_insert lt) (removeMin lt) (heap_inv lt) elems lt"
  by (rule pq.prio_queue_axioms)

end

definition nat_less :: "nat \<Rightarrow> nat \<Rightarrow> bool" where "nat_less x y = (x < y)"

interpretation nat_heap: heap_order nat_less
  by unfold_locales (auto simp: nat_less_def)

lemma heap_inv_empty: "heap_inv lt heap_empty"
  by (simp add: heap_inv_def idx_ok_def heap_from_def heap_empty_def)

text \<open>C20: the heap is a priority queue for every strict weak order: inserting a new element keeps the heap
  and index invariants and adds exactly that element; \<^verbatim>\<open>removeMin\<close> fails only on the empty heap, and
  otherwise removes an element that no other element precedes.\<close>

theorem heap_is_priority_queue:
  assumes "heap_order lt" and "heap_inv lt h"
  shows "(n \<notin> elems h \<longrightarrow>
            (\<exists>h'. heap_insert lt n h = Some h' \<and> heap_inv lt h' \<and> elems h' = insert n (elems h)))
       \<and> (case removeMin lt h of
            None \<Rightarrow> elems h = {}
          | Some (x, h') \<Rightarrow> heap_inv lt h' \<and> x \<in> elems h \<and> (\<forall>y \<in> elems h. \<not> lt y x)
              \<and> elems h' = elems h - {x})"
proof (cases "heap h = []")
  case True
  then show ?thesis
    using heap_order.insert_spec [OF assms] by (auto simp: removeMin_def elems_def)
next
  case False
  from heap_order.removeMin_spec [OF assms False] heap_order.insert_spec [OF assms]
  show ?thesis by auto
qed

theorem heap_is_priority_queue_witness:
  "heap_order nat_less \<and> heap_inv nat_less heap_empty \<and>
   (\<exists>h'. heap_insert nat_less 3 heap_empty = Some h' \<and> heap_inv nat_less h' \<and> elems h' = {3})"
  using heap_is_priority_queue [OF nat_heap.heap_order_axioms heap_inv_empty, of 3]
    nat_heap.heap_order_axioms heap_inv_empty
  by (simp add: elems_def heap_empty_def)

text \<open>C24: after the key of one element changed, \<^verbatim>\<open>decrease\<close> (key got smaller), \<^verbatim>\<open>increase\<close> (key got
  larger) and \<^verbatim>\<open>update\<close> (either) restore the heap for the new order, keeping the elements.\<close>

theorem heap_key_change:
  assumes "heap_order lt0" and "heap_order lt" and "heap_inv lt0 h" and "n \<in> elems h"
    and same: "\<forall>x y. x \<noteq> n \<and> y \<noteq> n \<longrightarrow> lt x y = lt0 x y"
  shows "(\<exists>h'. heap_update_elem lt n h = Some h' \<and> heap_inv lt h' \<and> elems h' = elems h)
       \<and> ((\<forall>y. lt y n \<longrightarrow> lt0 y n) \<longrightarrow>
            (\<exists>h'. heap_decrease lt n h = Some h' \<and> heap_inv lt h' \<and> elems h' = elems h))
       \<and> ((\<forall>y. lt n y \<longrightarrow> lt0 n y) \<longrightarrow>
            (\<exists>h'. heap_increase lt n h = Some h' \<and> heap_inv lt h' \<and> elems h' = elems h))"
  using heap_order.update_spec [OF assms(2,1,3,4)] heap_order.decrease_spec [OF assms(2,1,3,4)]
    heap_order.increase_spec [OF assms(2,1,3,4)] same
  by blast

text \<open>Element 2 gets the smallest key: it moves to the root.\<close>

definition key_less :: "(nat \<Rightarrow> nat) \<Rightarrow> nat \<Rightarrow> nat \<Rightarrow> bool" where
  "key_less key x y = (key x < key y)"

lemma key_heap: "heap_order (key_less key)"
  by unfold_locales (auto simp: key_less_def)

lemma key_heap_example:
  "heap_inv (key_less id) \<lparr>heap = [1, 2], indices = [- 1, 0, 1]\<rparr>"
proof -
  have "idx_ok [1, 2] [- 1, 0, 1]"
    by (auto simp: idx_ok_def less_Suc_eq numeral_2_eq_2)
  moreover have "heap_from (key_less id) 0 [1, 2]"
    unfolding heap_from_def key_less_def parent_def by (simp add: less_Suc_eq)
  ultimately show ?thesis by (simp add: heap_inv_def)
qed

theorem heap_key_change_witness:
  "\<exists>h'. heap_decrease (key_less (\<lambda>n. if n = 2 then 0 else n)) 2 \<lparr>heap = [1, 2], indices = [- 1, 0, 1]\<rparr>
        = Some h' \<and> heap_inv (key_less (\<lambda>n. if n = 2 then 0 else n)) h' \<and> elems h' = {1, 2}"
proof -
  let ?h = "\<lparr>heap = [1, 2], indices = [- 1, 0, 1]\<rparr>"
  let ?old = "key_less id" and ?lt = "key_less (\<lambda>n. if n = 2 then 0 else n)"

  have inv: "heap_inv ?old ?h" by (rule key_heap_example)
  have mem: "2 \<in> elems ?h" by (simp add: elems_def)
  have same: "\<forall>x y. x \<noteq> 2 \<and> y \<noteq> 2 \<longrightarrow> ?lt x y = ?old x y" by (simp add: key_less_def)
  have key: "\<forall>y. ?lt y 2 \<longrightarrow> ?old y 2" by (simp add: key_less_def)
  from heap_key_change [OF key_heap key_heap inv mem same, THEN conjunct2, THEN conjunct1, rule_format, OF key [rule_format]]
  have "\<exists>h'. heap_decrease ?lt 2 ?h = Some h' \<and> heap_inv ?lt h' \<and> elems h' = elems ?h" .
  then show ?thesis by (simp add: elems_def)
qed

text \<open>C25: \<^verbatim>\<open>build\<close> makes a heap of any list of distinct elements in its index range, and removing the
  minimum repeatedly returns all of them in order.\<close>

theorem heap_build_drain_sorted:
  assumes "heap_order lt" and "heap_inv lt h" and "distinct ns" and "\<forall>n \<in> set ns. n < length (indices h)"
  shows "\<exists>h'. heap_build lt ns h = Some h' \<and> heap_inv lt h' \<and>
           set (prio_queue.drain (removeMin lt) (length ns) h') = set ns \<and>
           sorted_wrt (\<lambda>x y. \<not> lt y x) (prio_queue.drain (removeMin lt) (length ns) h')"
proof -
  have "idx_ok (heap h) (indices h)" using assms(2) by (simp add: heap_inv_def)
  from heap_order.build_spec [OF assms(1) this assms(3,4)] obtain h' where
    h': "heap_build lt ns h = Some h'" "heap_inv lt h'" "elems h' = set ns" by blast
  have "prio_queue (heap_insert lt) (removeMin lt) (heap_inv lt) elems lt"
    by (rule heap_order.heap_is_prio_queue [OF assms(1)])
  from prio_queue.drain_spec [OF this h'(2), of "length ns"] h' show ?thesis
    by (simp add: card_length)
qed

theorem heap_build_drain_sorted_witness:
  "\<exists>h'. heap_build nat_less [2, 0, 1] \<lparr>heap = [], indices = [- 1, - 1, - 1]\<rparr> = Some h' \<and>
     heap_inv nat_less h' \<and> set (prio_queue.drain (removeMin nat_less) (length [2, 0, 1::nat]) h') = set [2, 0, 1] \<and>
     sorted_wrt (\<lambda>x y. \<not> nat_less y x) (prio_queue.drain (removeMin nat_less) (length [2, 0, 1::nat]) h')"
  by (rule heap_build_drain_sorted [OF nat_heap.heap_order_axioms])
    (auto simp: heap_inv_def idx_ok_def heap_from_def less_Suc_eq nth_Cons split: nat.splits)

end
