(* ===== verification/MTL_Alloc.thy ===== *)
theory MTL_Alloc
  imports MTL_Vec "HOL-Library.Word"
begin

text \<open>
  \<^verbatim>\<open>mtl/Alloc.h\<close>: the region allocator that hands out 32-bit references into one growing block.  Sizes,
  capacities and references are 32-bit words, so that every wrap-around of the code is one here.  The
  contents of the block are modelled by the clients; \<open>None\<close> stands for a loop that does not end and
  \<open>Inl OutOfMemoryException\<close> for the exception.  The exception has two sources, the overflow of the capacity and
  \<^verbatim>\<open>xrealloc\<close>: \<open>rmem\<close> tells for every capacity whether \<^verbatim>\<open>realloc\<close> provides it.
\<close>

type_synonym ref = "32 word"

definition Ref_Undef :: ref where "Ref_Undef = - 1"

record region =
  rsz :: "32 word"
  rcap :: "32 word"
  rwasted :: "32 word"
  rmem :: "32 word \<Rightarrow> bool"

text \<open>\<open>delta\<close>: five eighths of the capacity plus two, made even.\<close>

definition cap_delta :: "32 word \<Rightarrow> 32 word" where
  "cap_delta c = (drop_bit 1 c + drop_bit 3 c + 2) AND NOT 1"

text \<open>The loop of \<^verbatim>\<open>capacity\<close>; \<open>prev\<close> is the capacity before the loop.\<close>

partial_function (option) capacity_loop :: "32 word \<Rightarrow> 32 word \<Rightarrow> 32 word \<Rightarrow> (vec_error + 32 word) option" where
  "capacity_loop prev min_cap c =
     (if c < min_cap then
        let c' = c + cap_delta c
        in if c' \<le> prev then Some (Inl OutOfMemoryException) else capacity_loop prev min_cap c'
      else Some (Inr c))"

declare capacity_loop.simps [code]

definition region_capacity :: "32 word \<Rightarrow> region \<Rightarrow> (vec_error + region) option" where
  "region_capacity min_cap r =
     (if min_cap \<le> rcap r then Some (Inr r)
      else case capacity_loop (rcap r) min_cap (rcap r) of
             None \<Rightarrow> None
           | Some (Inl e) \<Rightarrow> Some (Inl e)
           | Some (Inr c) \<Rightarrow> if rmem r c then Some (Inr (r\<lparr>rcap := c\<rparr>)) else Some (Inl OutOfMemoryException))"

definition region_new :: "32 word \<Rightarrow> (32 word \<Rightarrow> bool) \<Rightarrow> (vec_error + region) option" where
  "region_new start_cap m = region_capacity start_cap \<lparr>rsz = 0, rcap = 0, rwasted = 0, rmem = m\<rparr>"

definition region_alloc :: "32 word \<Rightarrow> region \<Rightarrow> (vec_error + ref \<times> region) option" where
  "region_alloc n r =
     (case region_capacity (rsz r + n) r of
        None \<Rightarrow> None
      | Some (Inl e) \<Rightarrow> Some (Inl e)
      | Some (Inr r') \<Rightarrow>
          if rsz r + n < rsz r then Some (Inl OutOfMemoryException)
          else Some (Inr (rsz r, r'\<lparr>rsz := rsz r + n\<rparr>)))"

definition region_free :: "32 word \<Rightarrow> region \<Rightarrow> region" where
  "region_free n r = r\<lparr>rwasted := rwasted r + n\<rparr>"

text \<open>\<^verbatim>\<open>moveTo\<close> hands the block to the target and leaves this region empty.\<close>

definition region_moveTo :: "region \<Rightarrow> region \<Rightarrow> region \<times> region" where
  "region_moveTo r to = (\<lparr>rsz = 0, rcap = 0, rwasted = 0, rmem = rmem r\<rparr>, r)"

text \<open>The clients' results are about runs in which \<^verbatim>\<open>realloc\<close> provides what is asked for.\<close>

definition region_wf :: "region \<Rightarrow> bool" where
  "region_wf r \<longleftrightarrow> rsz r \<le> rcap r \<and> (\<forall>c. rmem r c)"

section \<open>Growth without wrap-around\<close>

lemma unat_and_not_one: "unat (x AND NOT 1 :: 32 word) = 2 * (unat x div 2)"
proof -
  have "x AND NOT 1 = push_bit 1 (drop_bit 1 x)"
    by (rule bit_word_eqI, unfold bit_simps) (auto simp: bit_1_iff)
  moreover have "unat (push_bit 1 (drop_bit 1 x)) = 2 * (unat x div 2)"
  proof -
    have "unat x div 2 < 2 ^ 31" using unsigned_less [of x, where 'a = nat] by simp
    moreover have "push_bit 1 (drop_bit 1 x) = x div 2 * 2" by (simp add: push_bit_eq_mult drop_bit_eq_div)
    ultimately show ?thesis by (simp only: unat_word_ariths unat_div) simp
  qed
  ultimately show ?thesis by simp
qed

lemma unat_cap_delta:
  "unat (cap_delta c) = 2 * ((unat c div 2 + unat c div 8 + 2) div 2)"
proof -
  have c: "unat c < 2 ^ 32" using unsigned_less [of c, where 'a = nat] by simp
  have "unat (drop_bit 1 c + drop_bit 3 c + 2) = (unat c div 2 + unat c div 8 + 2) mod 2 ^ 32"
    by (simp add: unat_word_ariths unat_drop_bit_eq drop_bit_eq_div mod_simps)
  then have "unat (drop_bit 1 c + drop_bit 3 c + 2) = unat c div 2 + unat c div 8 + 2" using c by simp
  then show ?thesis unfolding cap_delta_def unat_and_not_one by simp
qed

lemma cap_delta_step:
  assumes "unat (c :: 32 word) \<le> 2643056796"
  shows "unat (c + cap_delta c) = unat c + unat (cap_delta c)" "2 \<le> unat (cap_delta c)" "even (unat (cap_delta c))"
proof -
  show "2 \<le> unat (cap_delta c)" "even (unat (cap_delta c))" unfolding unat_cap_delta by simp_all
  have "unat (cap_delta c) \<le> unat c div 2 + unat c div 8 + 2" unfolding unat_cap_delta by simp
  then have "unat c + unat (cap_delta c) < 2 ^ 32" using assms by simp
  then show "unat (c + cap_delta c) = unat c + unat (cap_delta c)"
    by (simp add: unat_word_ariths)
qed

lemma capacity_loop_ok:
  assumes "unat prev \<le> unat c" and "unat min_cap \<le> 2643056797" and "even (unat c)"
  shows "\<exists>c'. capacity_loop prev min_cap c = Some (Inr c') \<and> min_cap \<le> c' \<and> c \<le> c' \<and> even (unat c')"
  using assms(1,3)
proof (induction "unat min_cap - unat c" arbitrary: c rule: less_induct)
  case (less c)
  show ?case
  proof (cases "c < min_cap")
    case True
    then have lt: "unat c < unat min_cap" by (simp add: word_less_nat_alt)
    then have small: "unat c \<le> 2643056796" using assms(2) by simp
    note step = cap_delta_step [OF small]
    have ev: "even (unat (c + cap_delta c))"
      unfolding step(1) using less.prems(2) step(3) by simp
    have gt: "unat prev < unat (c + cap_delta c)" using step less.prems(1) by simp
    then have "\<not> c + cap_delta c \<le> prev" by (simp add: word_le_nat_alt)
    moreover have "unat min_cap - unat (c + cap_delta c) < unat min_cap - unat c"
      using step lt by linarith
    from less.hyps [OF this _ ev] gt obtain c' where
      "capacity_loop prev min_cap (c + cap_delta c) = Some (Inr c')" "min_cap \<le> c'"
      "c + cap_delta c \<le> c'" "even (unat c')" by auto
    moreover have "c \<le> c + cap_delta c" using step by (simp add: word_le_nat_alt)
    ultimately show ?thesis using True by (subst capacity_loop.simps) (auto simp: Let_def)
  next
    case False
    then show ?thesis using less.prems by (subst capacity_loop.simps) auto
  qed
qed

lemma region_alloc_cases:
  assumes "rsz r \<le> rcap r" and "even (unat (rcap r))" and "0 < n" and "unat (rsz r) + unat n \<le> 2643056797"
  shows "(\<exists>r'. region_alloc n r = Some (Inr (rsz r, r')) \<and> unat (rsz r') = unat (rsz r) + unat n \<and>
           rsz r' \<le> rcap r' \<and> even (unat (rcap r')) \<and> rcap r \<le> rcap r' \<and> rwasted r' = rwasted r \<and> rmem r' = rmem r) \<or>
         (region_alloc n r = Some (Inl OutOfMemoryException) \<and> rcap r < rsz r + n \<and> (\<exists>c \<ge> rsz r + n. \<not> rmem r c))"
proof -
  have sum: "unat (rsz r + n) = unat (rsz r) + unat n" using assms(4) by (simp add: unat_word_ariths)
  then have nlt: "\<not> rsz r + n < rsz r" by (simp add: word_less_nat_alt)
  show ?thesis
  proof (cases "rsz r + n \<le> rcap r")
    case True
    then show ?thesis using assms(2) nlt sum by (simp add: region_capacity_def region_alloc_def)
  next
    case False
    have "unat (rsz r + n) \<le> 2643056797" using assms(4) sum by simp
    from capacity_loop_ok [OF order.refl this assms(2)] obtain c' where
      c': "capacity_loop (rcap r) (rsz r + n) (rcap r) = Some (Inr c')" "rsz r + n \<le> c'" "rcap r \<le> c'" "even (unat c')"
      by auto
    show ?thesis
    proof (cases "rmem r c'")
      case True
      then show ?thesis using c' False nlt sum by (simp add: region_capacity_def region_alloc_def)
    next
      case no: False
      then have "region_alloc n r = Some (Inl OutOfMemoryException)"
        using c' False by (simp add: region_capacity_def region_alloc_def)
      then show ?thesis using False no c'(2) by (auto simp: not_le)
    qed
  qed
qed

lemma region_alloc_ok_aux:
  assumes "region_wf r" and "even (unat (rcap r))" and "0 < n" and "unat (rsz r) + unat n \<le> 2643056797"
  shows "\<exists>r'. region_alloc n r = Some (Inr (rsz r, r')) \<and> unat (rsz r') = unat (rsz r) + unat n \<and>
           region_wf r' \<and> even (unat (rcap r')) \<and> rcap r \<le> rcap r' \<and> rwasted r' = rwasted r"
  using region_alloc_cases [OF _ assms(2-4)] assms(1) by (auto simp: region_wf_def)

text \<open>C28: below 8/13 of the 32-bit range the region allocator neither wraps around nor loops: \<^verbatim>\<open>alloc\<close> returns the old
  size as the reference, advances the size by exactly the request and keeps the used part inside an even capacity
  that never shrinks; the only other outcome is \<^verbatim>\<open>OutOfMemoryException\<close>, and only when the request does not fit the
  capacity and \<^verbatim>\<open>realloc\<close> fails for a capacity that would hold it.\<close>

theorem region_alloc_ok:
  assumes "rsz r \<le> rcap r" and "even (unat (rcap r))" and "0 < n" and "unat (rsz r) + unat n \<le> 2643056797"
  shows "(\<exists>r'. region_alloc n r = Some (Inr (rsz r, r')) \<and> unat (rsz r') = unat (rsz r) + unat n \<and>
           rsz r' \<le> rcap r' \<and> even (unat (rcap r')) \<and> rcap r \<le> rcap r' \<and> rwasted r' = rwasted r \<and> rmem r' = rmem r) \<or>
         (region_alloc n r = Some (Inl OutOfMemoryException) \<and> rcap r < rsz r + n \<and> (\<exists>c \<ge> rsz r + n. \<not> rmem r c))"
  by (rule region_alloc_cases [OF assms])

theorem region_alloc_ok_witness:
  "(\<exists>r'. region_alloc 5 \<lparr>rsz = 2, rcap = 6, rwasted = 1, rmem = (\<lambda>c. c < 10)\<rparr> = Some (Inr (2, r')) \<and> unat (rsz r') = 7) \<or>
   region_alloc 5 \<lparr>rsz = 2, rcap = 6, rwasted = 1, rmem = (\<lambda>c. c < 10)\<rparr> = Some (Inl OutOfMemoryException)"
  using region_alloc_ok [of "\<lparr>rsz = 2, rcap = 6, rwasted = 1, rmem = (\<lambda>c. c < 10)\<rparr>" 5] by auto

text \<open>In that example the new capacity is 10, which \<^verbatim>\<open>realloc\<close> does not provide.\<close>

lemma region_alloc_out_of_memory:
  "region_alloc 5 \<lparr>rsz = 2, rcap = 6, rwasted = 1, rmem = (\<lambda>c. c < 10)\<rparr> = Some (Inl OutOfMemoryException)"
  by (simp add: region_alloc_def region_capacity_def capacity_loop.simps cap_delta_def)

text \<open>Close to the end of the range the capacity computation wraps; from the largest reachable capacity the
  comparison with the previous capacity catches it.\<close>

lemma capacity_overflow_caught:
  "region_capacity 4280241451 \<lparr>rsz = 4280241450, rcap = 4280241450, rwasted = 0, rmem = m\<rparr> = Some (Inl OutOfMemoryException)"
  by (simp add: region_capacity_def capacity_loop.simps cap_delta_def)

text \<open>But a region that starts empty compares with 0 only: the wrapped, smaller capacity is kept and the loop
  goes on from it.\<close>

lemma capacity_overflow_missed:
  "capacity_loop 0 4294967295 4280241450 = capacity_loop 0 4294967295 2660425062"
proof -
  have wrap: "(6955392358 :: 32 word) = 2660425062" by transfer simp
  show ?thesis
    by (subst capacity_loop.simps, simp add: cap_delta_def) (simp only: wrap)
qed

end
