(* ===== verification/MTL_Rnd.thy ===== *)
theory MTL_Rnd
  imports Prelude Complex_Main
begin

text \<open>
  \<^verbatim>\<open>mtl/Rnd.h\<close>: the linear congruential generator whose seed is a \<^verbatim>\<open>double\<close> that always holds an
  integer, and the shuffle.  The seed is a natural number; \<open>drand_exact\<close> below shows that its
  products stay under 2^53, where doubles are exact.
\<close>

definition rnd_mod :: nat where "rnd_mod = 2147483647"

definition drand_seed :: "nat \<Rightarrow> nat" where
  "drand_seed seed = (let s = seed * 1389796; q = s div 2147483647 in s - q * 2147483647)"

definition drand :: "nat \<Rightarrow> real \<times> nat" where
  "drand seed = (let s = drand_seed seed in (real s / 2147483647, s))"

definition irand :: "nat \<Rightarrow> nat \<Rightarrow> nat \<times> nat" where
  "irand seed n = (let s = drand_seed seed in (s * n div 2147483647, s))"

function shuffle_loop :: "nat \<Rightarrow> 'a list \<Rightarrow> nat \<Rightarrow> nat \<times> 'a list" where
  "shuffle_loop seed xs i =
     (if i < length xs
      then case irand seed (length xs - i) of
             (r, seed') \<Rightarrow> shuffle_loop seed' (swap_at i (i + r) xs) (Suc i)
      else (seed, xs))"
  by pat_completeness auto
termination by (relation "measure (\<lambda>(seed, xs, i). length xs - i)") auto

declare shuffle_loop.simps [simp del]

definition randomShuffle :: "nat \<Rightarrow> 'a list \<Rightarrow> nat \<times> 'a list" where
  "randomShuffle seed xs = shuffle_loop seed xs 0"

definition seed_ok :: "nat \<Rightarrow> bool" where "seed_ok s \<longleftrightarrow> 0 < s \<and> s < 2147483647"

lemma drand_seed_mod: "drand_seed s = s * 1389796 mod 2147483647"
  by (simp add: drand_seed_def Let_def minus_div_mult_eq_mod)

lemma multiplier_coprime: "coprime (2147483647 :: nat) 1389796"
proof (rule coprimeI)
  fix c :: nat assume "c dvd 2147483647" "c dvd 1389796"
  then have "c dvd 483821825 * 1389796" "c dvd 313117 * 2147483647" by (simp_all only: dvd_mult)
  then have "c dvd 483821825 * 1389796 - 313117 * 2147483647" by (rule dvd_diff_nat)
  then show "c dvd 1" by simp
qed

lemma drand_seed_ok:
  assumes "seed_ok s"
  shows "seed_ok (drand_seed s)"
proof -
  have "s * 1389796 mod 2147483647 \<noteq> 0"
  proof
    assume "s * 1389796 mod 2147483647 = 0"
    then have "2147483647 dvd s * 1389796" by (simp add: mod_0_imp_dvd)
    then have "2147483647 dvd s"
      using multiplier_coprime by (simp only: coprime_dvd_mult_left_iff)
    then have "2147483647 \<le> s" using assms by (intro dvd_imp_le) (simp_all add: seed_ok_def)
    then show False using assms by (simp add: seed_ok_def)
  qed
  then show ?thesis by (simp add: seed_ok_def drand_seed_mod)
qed

lemma irand_less: "0 < n \<Longrightarrow> fst (irand s n) < n"
proof -
  assume n: "0 < n"
  have "drand_seed s * n < 2147483647 * n"
    using n by (simp add: drand_seed_mod)
  then show ?thesis by (simp add: irand_def Let_def less_mult_imp_div_less mult.commute)
qed

lemma shuffle_loop_mset: "mset (snd (shuffle_loop seed xs i)) = mset xs"
proof (induction seed xs i rule: shuffle_loop.induct)
  case (1 seed xs i)
  show ?case
  proof (cases "i < length xs")
    case True
    obtain r seed' where r: "irand seed (length xs - i) = (r, seed')" by fastforce
    with irand_less [of "length xs - i" seed] True have "i + r < length xs" by auto
    then show ?thesis
      using "1.IH" [OF True r [symmetric]] True r by (simp add: shuffle_loop.simps [of seed xs i])
  qed (simp add: shuffle_loop.simps)
qed

text \<open>C30: from a seed strictly between 0 and 2^31-1 the generator never leaves that range, so the seed never
  sticks at 0 and every product is below 2^53, where a double is exact; \<^verbatim>\<open>drand\<close> is in the open unit
  interval, \<^verbatim>\<open>irand\<close> is a valid index, and \<^verbatim>\<open>randomShuffle\<close> permutes its vector.\<close>

theorem rnd_generator_ok:
  assumes "seed_ok s"
  shows "seed_ok (snd (drand s)) \<and> s * 1389796 < 2 ^ 53 \<and> 0 < fst (drand s) \<and> fst (drand s) < 1 \<and>
         (0 < n \<longrightarrow> fst (irand s n) < n) \<and> seed_ok (snd (irand s n)) \<and>
         mset (snd (randomShuffle s xs)) = mset xs"
proof -
  have ok: "seed_ok (drand_seed s)" by (rule drand_seed_ok [OF assms])
  show ?thesis
    using ok assms irand_less [of n s]
    by (auto simp: drand_def irand_def Let_def randomShuffle_def shuffle_loop_mset) (auto simp: seed_ok_def)
qed

theorem rnd_generator_ok_witness:
  "seed_ok (snd (drand 91648253)) \<and> mset (snd (randomShuffle 91648253 [1 :: nat, 2, 3])) = {#1, 2, 3#}"
  using rnd_generator_ok [of 91648253 1 "[1 :: nat, 2, 3]"] by (simp add: seed_ok_def)

end
