(* ===== verification/SolverTypes.thy ===== *)
theory SolverTypes
  imports MTL_Alloc MTL_Sort "HOL-Library.Word"
begin

text \<open>
  \<^verbatim>\<open>core/SolverTypes.h\<close>: literals, lifted booleans, clauses, the clause allocator and the occurrence
  lists.  A variable is an \<open>int\<close> and a literal carries the code's \<^verbatim>\<open>x = 2 * var + sign\<close>; vectors indexed by a
  variable or a literal are read at \<open>vix\<close> and \<open>lix\<close>.  A lifted boolean is its byte.
\<close>

section \<open>Variables and literals\<close>

type_synonym Var = int

definition var_Undef :: Var where "var_Undef = - 1"

datatype Lit = Lit (lx: int)

definition mkLit :: "Var \<Rightarrow> bool \<Rightarrow> Lit" where
  "mkLit v s = Lit (v + v + of_bool s)"

definition neg :: "Lit \<Rightarrow> Lit" where
  "neg p = Lit (lx p XOR 1)"

definition lit_xor :: "Lit \<Rightarrow> bool \<Rightarrow> Lit" where
  "lit_xor p b = Lit (lx p XOR of_bool b)"

definition sign :: "Lit \<Rightarrow> bool" where
  "sign p \<longleftrightarrow> lx p AND 1 \<noteq> 0"

definition var :: "Lit \<Rightarrow> Var" where
  "var p = drop_bit 1 (lx p)"

definition toInt :: "Lit \<Rightarrow> int" where "toInt p = lx p"
definition toLit :: "int \<Rightarrow> Lit" where "toLit i = Lit i"

definition dimacs :: "Lit \<Rightarrow> int" where
  "dimacs l = (if sign l then - (var l + 1) else var l + 1)"

definition lit_Undef :: Lit where "lit_Undef = Lit (- 2)"
definition lit_Error :: Lit where "lit_Error = Lit (- 1)"

definition lit_less :: "Lit \<Rightarrow> Lit \<Rightarrow> bool" where
  "lit_less p q \<longleftrightarrow> lx p < lx q"

instantiation Lit :: linorder
begin

definition less_Lit :: "Lit \<Rightarrow> Lit \<Rightarrow> bool" where "less_Lit = lit_less"
definition less_eq_Lit :: "Lit \<Rightarrow> Lit \<Rightarrow> bool" where "less_eq_Lit p q \<longleftrightarrow> lx p \<le> lx q"

instance
  by standard (auto simp: less_Lit_def less_eq_Lit_def lit_less_def lx_def split: Lit.splits)

end

definition vix :: "Var \<Rightarrow> nat" where "vix v = nat v"
definition lix :: "Lit \<Rightarrow> nat" where "lix p = nat (toInt p)"

text \<open>A literal over the variables \<open>0 ..< n\<close>.\<close>

definition lit_ok :: "nat \<Rightarrow> Lit \<Rightarrow> bool" where
  "lit_ok n p \<longleftrightarrow> 0 \<le> lx p \<and> lx p < 2 * int n"

lemma xor_one_int: "(x :: int) XOR 1 = (if even x then x + 1 else x - 1)"
  by (simp add: xor_one_eq)

lemma var_alt: "var p = lx p div 2"
  by (simp add: var_def drop_bit_eq_div)

lemma sign_alt: "sign p = odd (lx p)"
  by (simp add: sign_def and_one_eq odd_iff_mod_2_eq_one)

lemma var_mkLit [simp]: "var (mkLit v s) = v"
  by (simp add: var_alt mkLit_def)

lemma sign_mkLit [simp]: "sign (mkLit v s) = s"
  by (simp add: sign_alt mkLit_def)

lemma mkLit_var_sign [simp]: "mkLit (var p) (sign p) = p"
  by (cases p) (auto simp: mkLit_def var_alt sign_alt)

lemma lit_eqI:
  assumes "var p = var q" and "sign p = sign q"
  shows "p = q"
proof -
  have "mkLit (var p) (sign p) = mkLit (var q) (sign q)" by (simp only: assms)
  then show ?thesis by (simp only: mkLit_var_sign)
qed

lemma lit_eq_iff: "p = q \<longleftrightarrow> var p = var q \<and> sign p = sign q"
  using lit_eqI by blast

lemma lx_neg: "lx (neg p) = (if even (lx p) then lx p + 1 else lx p - 1)"
  by (simp add: neg_def xor_one_int)

lemma var_neg [simp]: "var (neg p) = var p"
  by (simp add: var_alt lx_neg) presburger

lemma sign_neg [simp]: "sign (neg p) = (\<not> sign p)"
  by (simp add: sign_alt lx_neg)

lemma neg_neg [simp]: "neg (neg p) = p"
  by (rule lit_eqI) simp_all

lemma neg_inject [simp]: "neg p = neg q \<longleftrightarrow> p = q"
  using neg_neg by metis

lemma neg_neq [simp]: "neg p \<noteq> p" "p \<noteq> neg p"
  using sign_neg by metis+

lemma neg_eq_iff: "neg p = q \<longleftrightarrow> p = neg q"
  using neg_neg by metis

lemma var_eq_cases: "var p = var q \<longleftrightarrow> p = q \<or> p = neg q"
  by (cases "sign p = sign q") (auto simp: lit_eq_iff)

lemma var_lit_Undef [simp]: "var lit_Undef = - 1" "sign lit_Undef = False"
  by (simp_all add: var_alt sign_alt lit_Undef_def)

lemma lit_xor_alt: "lit_xor p b = (if b then neg p else p)"
  by (simp add: lit_xor_def neg_def)

lemma lit_ok_neg [simp]: "lit_ok n (neg p) = lit_ok n p"
  by (simp add: lit_ok_def lx_neg) presburger

lemma lit_ok_alt: "lit_ok n p \<longleftrightarrow> 0 \<le> var p \<and> var p < int n"
  by (simp add: lit_ok_def var_alt) presburger

lemma lit_ok_vix: "lit_ok n p \<Longrightarrow> vix (var p) < n"
  by (simp add: lit_ok_alt vix_def nat_less_iff)

lemma vix_inject: "lit_ok n p \<Longrightarrow> lit_ok n q \<Longrightarrow> vix (var p) = vix (var q) \<longleftrightarrow> var p = var q"
  by (simp add: lit_ok_alt vix_def eq_nat_nat_iff)

lemma lix_inject: "lit_ok n p \<Longrightarrow> lit_ok n q \<Longrightarrow> lix p = lix q \<longleftrightarrow> p = q"
  by (cases p, cases q) (simp add: lit_ok_def lix_def toInt_def eq_nat_nat_iff)

lemma lit_ok_lix: "lit_ok n p \<Longrightarrow> lix p < 2 * n"
  by (simp add: lit_ok_def lix_def toInt_def nat_less_iff)

lemma lit_ok_not_Undef: "lit_ok n p \<Longrightarrow> p \<noteq> lit_Undef"
  by (auto simp: lit_ok_def lit_Undef_def)

interpretation lit_order: strict_weak_order lit_less
  by unfold_locales (auto simp: lit_less_def)

text \<open>C29: the literal encoding: the variable and sign of \<^verbatim>\<open>mkLit\<close> are read back, \<^verbatim>\<open>~\<close> flips the sign only
  and is an involution, \<^verbatim>\<open>toLit\<close> inverts \<^verbatim>\<open>toInt\<close>, a literal and its negation are neighbours in the order,
  and a variable below 2^30 gives an \<open>x\<close> in the 32-bit range.\<close>

theorem lit_encoding:
  "var (mkLit v s) = v \<and> sign (mkLit v s) = s \<and> mkLit (var p) (sign p) = p \<and>
   neg (neg p) = p \<and> var (neg p) = var p \<and> sign (neg p) = (\<not> sign p) \<and> toLit (toInt p) = p \<and>
   lit_xor p b = mkLit (var p) (sign p \<noteq> b) \<and>
   {p, neg p} = {q. var q = var p} \<and> \<bar>toInt (neg p) - toInt p\<bar> = 1 \<and>
   (0 \<le> v \<and> v < 2 ^ 30 \<longrightarrow> 0 \<le> toInt (mkLit v s) \<and> toInt (mkLit v s) < 2 ^ 31)"
proof (intro conjI impI)
  show "lit_xor p b = mkLit (var p) (sign p \<noteq> b)"
    by (rule lit_eqI) (auto simp: lit_xor_alt)
  show "{p, neg p} = {q. var q = var p}" by (auto simp: var_eq_cases)
  show "\<bar>toInt (neg p) - toInt p\<bar> = 1" by (simp add: toInt_def lx_neg)
  show "toLit (toInt p) = p" by (simp add: toInt_def toLit_def)
  show "toInt (mkLit v s) < 2 ^ 31" if "0 \<le> v \<and> v < 2 ^ 30"
    using that by (cases s) (auto simp: toInt_def mkLit_def)
qed (simp_all, auto simp: toInt_def mkLit_def)

theorem lit_encoding_witness:
  "0 \<le> toInt (mkLit 5 True) \<and> toInt (mkLit 5 True) < 2 ^ 31"
  using lit_encoding [of 5 True "mkLit 5 True" False] by simp

section \<open>Lifted booleans\<close>

datatype lbool = LB (lval: "8 word")

definition l_True :: lbool where "l_True = LB 0"
definition l_False :: lbool where "l_False = LB 1"
definition l_Undef :: lbool where "l_Undef = LB 2"

definition lbool_of_bool :: "bool \<Rightarrow> lbool" where
  "lbool_of_bool x = LB (of_bool (\<not> x))"

definition lb_eq :: "lbool \<Rightarrow> lbool \<Rightarrow> bool" where
  "lb_eq a b \<longleftrightarrow>
     (lval b AND 2) AND (lval a AND 2) \<noteq> 0 \<or> (lval b AND 2 = 0 \<and> lval a = lval b)"

definition lb_xor :: "lbool \<Rightarrow> bool \<Rightarrow> lbool" where
  "lb_xor a b = LB (lval a XOR of_bool b)"

text \<open>The two connectives look their result up in a constant: two bits per pair of operands.\<close>

definition lb_sel :: "lbool \<Rightarrow> lbool \<Rightarrow> 8 word" where
  "lb_sel a b = push_bit 1 (lval a) OR push_bit 3 (lval b)"

definition lb_and :: "lbool \<Rightarrow> lbool \<Rightarrow> lbool" where
  "lb_and a b = LB (ucast (drop_bit (unat (lb_sel a b)) (0xF7F755F4 :: 32 word)) AND 3)"

definition lb_or :: "lbool \<Rightarrow> lbool \<Rightarrow> lbool" where
  "lb_or a b = LB (ucast (drop_bit (unat (lb_sel a b)) (0xFCFCF400 :: 32 word)) AND 3)"

definition lb_toInt :: "lbool \<Rightarrow> int" where "lb_toInt l = uint (lval l)"
definition toLbool :: "int \<Rightarrow> lbool" where "toLbool v = LB (word_of_int v)"

lemma lb_eq_True [simp]: "lb_eq a l_True \<longleftrightarrow> a = l_True"
  by (cases a) (simp add: lb_eq_def l_True_def)

lemma lb_eq_False [simp]: "lb_eq a l_False \<longleftrightarrow> a = l_False"
  by (cases a) (simp add: lb_eq_def l_False_def)

lemma lb_eq_Undef: "lb_eq a l_Undef \<longleftrightarrow> lval a AND 2 \<noteq> 0"
  by (cases a) (simp add: lb_eq_def l_Undef_def and.commute [of 2])

lemma xor_move: "x XOR a = y \<longleftrightarrow> x = y XOR (a :: 'a :: len word)"
proof -
  have undo: "(z XOR a) XOR a = z" for z :: "'a word" by (simp add: xor.assoc)
  show ?thesis
  proof
    assume "x XOR a = y"
    then have "y XOR a = (x XOR a) XOR a" by simp
    then show "x = y XOR a" by (simp add: undo)
  next
    assume "x = y XOR a"
    then show "x XOR a = y" by (simp add: undo)
  qed
qed

lemma lb_xor_True: "lb_xor a s = l_True \<longleftrightarrow> a = lbool_of_bool (\<not> s)"
  by (cases a) (simp add: lb_xor_def l_True_def lbool_of_bool_def xor_move)

lemma lb_xor_False: "lb_xor a s = l_False \<longleftrightarrow> a = lbool_of_bool s"
  by (cases a; cases s) (simp_all add: lb_xor_def l_False_def lbool_of_bool_def xor_move)

lemma lb_xor_Undef: "lb_eq (lb_xor a s) l_Undef = lb_eq a l_Undef"
  by (cases a) (auto simp: lb_xor_def lb_eq_Undef bit.conj_xor_distrib2 of_bool_def)

lemma lbool_of_bool_neq [simp]:
  "lbool_of_bool True \<noteq> l_False" "lbool_of_bool False \<noteq> l_True" "l_True \<noteq> l_False" "l_False \<noteq> l_True"
  "lbool_of_bool x \<noteq> l_Undef" "l_Undef \<noteq> lbool_of_bool x" "lbool_of_bool x = lbool_of_bool y \<longleftrightarrow> x = y"
  by (auto simp: lbool_of_bool_def l_True_def l_False_def l_Undef_def of_bool_def split: if_splits)

lemma lbool_of_bool_not_Undef [simp]: "\<not> lb_eq (lbool_of_bool x) l_Undef"
  by (simp add: lb_eq_Undef lbool_of_bool_def)

lemma lb_eq_Undef_Undef [simp]: "lb_eq l_Undef l_Undef"
  by (simp add: lb_eq_Undef) (simp add: l_Undef_def)

text \<open>What the byte means: \<open>None\<close> is undefined.\<close>

definition lb_val :: "lbool \<Rightarrow> bool option" where
  "lb_val a = (if lb_eq a l_Undef then None else Some (a = l_True))"

definition kleene_and :: "bool option \<Rightarrow> bool option \<Rightarrow> bool option" where
  "kleene_and x y = (if x = Some False \<or> y = Some False then Some False
                     else if x = Some True \<and> y = Some True then Some True else None)"

definition kleene_not :: "bool option \<Rightarrow> bool option" where
  "kleene_not x = map_option Not x"

definition kleene_or :: "bool option \<Rightarrow> bool option \<Rightarrow> bool option" where
  "kleene_or x y = kleene_not (kleene_and (kleene_not x) (kleene_not y))"

lemma lb_cases:
  assumes "lval a < 4"
  obtains "a = LB 0" | "a = LB 1" | "a = LB 2" | "a = LB 3"
proof (cases a)
  case (LB v)
  with assms have "unat v < 4" by (simp add: word_less_nat_alt)
  then have "unat v = 0 \<or> unat v = 1 \<or> unat v = 2 \<or> unat v = 3" by auto
  then have "v = 0 \<or> v = 1 \<or> v = 2 \<or> v = 3" by (simp add: word_unat_eq_iff)
  with LB that show ?thesis by auto
qed

text \<open>C23: on the four byte values that occur, the table-driven \<^verbatim>\<open>&&\<close> and \<^verbatim>\<open>||\<close> are Kleene's three-valued
  connectives, \<^verbatim>\<open>==\<close> identifies the two undefined bytes and nothing else, \<^verbatim>\<open>^ true\<close> is negation, and all
  results are again one of the four values.\<close>

theorem lbool_is_kleene:
  assumes "lval a < 4" and "lval b < 4"
  shows "lb_val (lb_and a b) = kleene_and (lb_val a) (lb_val b)
       \<and> lb_val (lb_or a b) = kleene_or (lb_val a) (lb_val b)
       \<and> lb_val (lb_xor a s) = (if s then kleene_not (lb_val a) else lb_val a)
       \<and> lb_eq a b = (lb_val a = lb_val b)
       \<and> lval (lb_and a b) < 4 \<and> lval (lb_or a b) < 4 \<and> lval (lb_xor a s) < 4"
  by (rule lb_cases [OF assms(1)]; rule lb_cases [OF assms(2)]; cases s)
    (simp_all add: lb_and_def lb_or_def lb_xor_def lb_sel_def lb_val_def lb_eq_def l_Undef_def l_True_def
      kleene_and_def kleene_or_def kleene_not_def)

theorem lbool_is_kleene_witness:
  "lb_val (lb_and l_True l_Undef) = None \<and> lb_val (lb_or l_True l_Undef) = Some True"
proof -
  have t: "lval l_True < 4" "lval l_Undef < 4" by (simp_all add: l_True_def l_Undef_def)
  have v: "lb_val l_True = Some True" "lb_val l_Undef = None"
    by (simp_all add: lb_val_def) (simp add: lb_eq_Undef l_True_def)
  from lbool_is_kleene [OF t, of True] show ?thesis
    by (simp only: v) (simp add: kleene_and_def kleene_or_def kleene_not_def)
qed

end
