(* ===== verification/Clauses.thy ===== *)
theory Clauses
  imports SolverTypes Complex_Main
begin

text \<open>
  The clause classes of \<^verbatim>\<open>core/SolverTypes.h\<close>: \<^verbatim>\<open>Clause\<close> with its header and trailing data,
  \<^verbatim>\<open>ClauseAllocator\<close> with marker references and relocation, and \<^verbatim>\<open>OccLists\<close> with lazy deletion.  A
  clause reference is the code's 32-bit word; the region's contents are a map from references to
  clauses.  The activity, a \<^verbatim>\<open>float\<close> in the code, is a real number: rounding is not modelled.
\<close>

section \<open>Clause\<close>

type_synonym CRef = ref

abbreviation CRef_Undef :: CRef where "CRef_Undef \<equiv> Ref_Undef"

record clause =
  cmark :: "2 word"
  learnt :: bool
  has_extra :: bool
  reloced :: bool
  derived :: bool
  lits :: "Lit list"
  act :: real
  abst :: "32 word"

fun abs_loop :: "Lit list \<Rightarrow> 32 word \<Rightarrow> 32 word" where
  "abs_loop [] a = a"
| "abs_loop (p # ps) a = abs_loop ps (a OR push_bit (nat (var p AND 31)) 1)"

definition calcAbstraction :: "clause \<Rightarrow> clause" where
  "calcAbstraction c = c\<lparr>abst := abs_loop (lits c) 0\<rparr>"

text \<open>The constructor; the size field has 26 bits.  \<open>a0\<close> and \<open>b0\<close> are the contents of the extra cell
  before it is written.\<close>

definition clause_new :: "real \<Rightarrow> 32 word \<Rightarrow> Lit list \<Rightarrow> bool \<Rightarrow> bool \<Rightarrow> clause" where
  "clause_new a0 b0 ps use_extra lrnt =
     (let c = \<lparr>cmark = 0, learnt = lrnt, has_extra = use_extra, reloced = False, derived = False,
               lits = take (length ps mod 2 ^ 26) ps, act = a0, abst = b0\<rparr>
      in if use_extra then (if lrnt then c\<lparr>act := 0\<rparr> else calcAbstraction c) else c)"

definition clause_size :: "clause \<Rightarrow> nat" where "clause_size c = length (lits c)"

text \<open>\<^verbatim>\<open>grow\<close> exposes \<open>junk\<close>, what the next cells hold; the code requires that they were allocated.\<close>

definition clause_grow :: "Lit list \<Rightarrow> clause \<Rightarrow> clause" where
  "clause_grow junk c = c\<lparr>lits := lits c @ junk\<rparr>"

definition clause_shrink :: "nat \<Rightarrow> clause \<Rightarrow> clause" where
  "clause_shrink i c = c\<lparr>lits := take (length (lits c) - i) (lits c)\<rparr>"

definition clause_pop :: "clause \<Rightarrow> clause" where "clause_pop c = clause_shrink 1 c"

definition clause_last :: "clause \<Rightarrow> Lit" where "clause_last c = lits c ! (length (lits c) - 1)"

definition set_mark :: "nat \<Rightarrow> clause \<Rightarrow> clause" where "set_mark m c = c\<lparr>cmark := word_of_nat m\<rparr>"

definition setDerived :: "bool \<Rightarrow> clause \<Rightarrow> clause" where "setDerived t c = c\<lparr>derived := t\<rparr>"

text \<open>A relocated clause keeps its new reference in the first data cell.\<close>

definition relocate :: "CRef \<Rightarrow> clause \<Rightarrow> clause" where
  "relocate cr c = c\<lparr>reloced := True, lits := (lits c)[0 := Lit (sint cr)]\<rparr>"

definition relocation :: "clause \<Rightarrow> CRef" where
  "relocation c = word_of_int (lx (lits c ! 0))"

lemma relocation_relocate: "lits c \<noteq> [] \<Longrightarrow> relocation (relocate cr c) = cr"
  by (simp add: relocation_def relocate_def)

section \<open>Subsumption and strengthening\<close>

fun find_in :: "Lit \<Rightarrow> Lit list \<Rightarrow> Lit \<Rightarrow> Lit option" where
  "find_in ci [] ret = None"
| "find_in ci (dj # ds) ret =
     (if ci = dj then Some ret
      else if ret = lit_Undef \<and> ci = neg dj then Some ci
      else find_in ci ds ret)"

fun subsume_loop :: "Lit list \<Rightarrow> Lit list \<Rightarrow> Lit \<Rightarrow> Lit" where
  "subsume_loop [] d ret = ret"
| "subsume_loop (ci # cs) d ret =
     (case find_in ci d ret of None \<Rightarrow> lit_Error | Some ret' \<Rightarrow> subsume_loop cs d ret')"

definition clause_subsumes :: "clause \<Rightarrow> clause \<Rightarrow> Lit" where
  "clause_subsumes c other =
     (if clause_size other < clause_size c \<or> abst c AND NOT (abst other) \<noteq> 0 then lit_Error
      else subsume_loop (lits c) (lits other) lit_Undef)"

definition strengthen :: "Lit \<Rightarrow> clause \<Rightarrow> vec_error + clause" where
  "strengthen p c =
     (case alg_remove (lits c) p of
        Inl e \<Rightarrow> Inl e
      | Inr ls \<Rightarrow> Inr (calcAbstraction (c\<lparr>lits := ls\<rparr>)))"

definition abst_ok :: "clause \<Rightarrow> bool" where "abst_ok c \<longleftrightarrow> abst c = abs_loop (lits c) 0"

definition tautology :: "Lit list \<Rightarrow> bool" where "tautology c \<longleftrightarrow> (\<exists>p \<in> set c. neg p \<in> set c)"

definition proper :: "Lit \<Rightarrow> bool" where "proper p \<longleftrightarrow> p \<noteq> lit_Undef \<and> p \<noteq> lit_Error"

lemma bit_abs_loop:
  "bit (abs_loop ps a) n \<longleftrightarrow> bit a n \<or> (n < 32 \<and> (\<exists>p \<in> set ps. n = nat (var p AND 31)))"
proof (induction ps arbitrary: a)
  case (Cons p ps)
  have "bit (push_bit m (1 :: 32 word)) n \<longleftrightarrow> n < 32 \<and> n = m" for m
    by (auto simp: bit_simps bit_1_iff)
  then show ?case by (auto simp: Cons.IH bit_or_iff)
qed simp

lemma abst_subset:
  assumes "var ` set c \<subseteq> var ` set d"
  shows "abs_loop c 0 AND NOT (abs_loop d 0) = 0"
proof (rule bit_word_eqI)
  fix n assume "n < LENGTH(32)"
  have "\<exists>q \<in> set d. n = nat (var q AND 31)" if "p \<in> set c" "n = nat (var p AND 31)" for p
  proof -
    have "var p \<in> var ` set d" using assms that(1) by blast
    then obtain q where "q \<in> set d" "var p = var q" by blast
    then show ?thesis using that(2) by auto
  qed
  then show "bit (abs_loop c 0 AND NOT (abs_loop d 0)) n = bit 0 n"
    by (auto simp: bit_and_iff bit_not_iff bit_abs_loop)
qed

lemma find_in_sound:
  "find_in ci d ret = Some r \<Longrightarrow>
     (r = ret \<and> ci \<in> set d) \<or> (ret = lit_Undef \<and> r = ci \<and> neg ci \<in> set d)"
  by (induction ci d ret rule: find_in.induct) (auto split: if_splits)

lemma find_in_complete:
  assumes "\<not> tautology d"
  shows "find_in ci d ret =
    (if ci \<in> set d then Some ret
     else if ret = lit_Undef \<and> neg ci \<in> set d then Some ci else None)"
  using assms
proof (induction d)
  case (Cons dj ds)
  have "\<not> tautology ds" using Cons.prems by (auto simp: tautology_def)
  note IH = Cons.IH [OF this]
  have "ci \<notin> set ds" if "ci = neg dj" using Cons.prems that by (auto simp: tautology_def)
  then show ?case unfolding find_in.simps IH by (auto simp: neg_eq_iff)
qed simp

lemma subsume_loop_sound:
  assumes "subsume_loop cs d ret = r" and "r \<noteq> lit_Error" and "\<forall>p \<in> set cs. proper p"
  shows "if ret = lit_Undef
         then (r = lit_Undef \<and> set cs \<subseteq> set d) \<or>
              (proper r \<and> r \<in> set cs \<and> neg r \<in> set d \<and> set cs - {r} \<subseteq> set d)
         else r = ret \<and> set cs \<subseteq> set d"
  using assms
proof (induction cs d ret rule: subsume_loop.induct)
  case (2 ci cs d ret)
  then obtain ret' where f: "find_in ci d ret = Some ret'" by (auto split: option.splits)
  have ci: "proper ci" using "2.prems"(3) by simp
  from "2.IH" [OF f] "2.prems" f
  have IH: "if ret' = lit_Undef
        then (r = lit_Undef \<and> set cs \<subseteq> set d) \<or>
             (proper r \<and> r \<in> set cs \<and> neg r \<in> set d \<and> set cs - {r} \<subseteq> set d)
        else r = ret' \<and> set cs \<subseteq> set d" by simp
  from find_in_sound [OF f] IH ci show ?case
    by (elim disjE) (auto simp: proper_def split: if_splits)
qed simp

lemma subsume_loop_complete:
  assumes "\<not> tautology d" and "distinct cs" and "\<forall>p \<in> set cs. proper p"
  shows "set cs \<subseteq> set d \<Longrightarrow> subsume_loop cs d ret = ret"
    and "x \<in> set cs \<Longrightarrow> neg x \<in> set d \<Longrightarrow> set cs - {x} \<subseteq> set d \<Longrightarrow> subsume_loop cs d lit_Undef = x"
proof -
  show sub: "set cs \<subseteq> set d \<Longrightarrow> subsume_loop cs d ret = ret" for cs ret
    by (induction cs) (auto simp: find_in_complete [OF assms(1)])
  show "x \<in> set cs \<Longrightarrow> neg x \<in> set d \<Longrightarrow> set cs - {x} \<subseteq> set d \<Longrightarrow> subsume_loop cs d lit_Undef = x"
    using assms(2,3)
  proof (induction cs)
    case (Cons c cs)
    show ?case
    proof (cases "c = x")
      case True
      have "x \<notin> set d" using assms(1) Cons.prems(2) by (auto simp: tautology_def)
      moreover have "set cs \<subseteq> set d" using Cons.prems True by auto
      ultimately show ?thesis using True Cons.prems(2) sub by (simp add: find_in_complete [OF assms(1)])
    next
      case False
      then show ?thesis using Cons by (simp add: find_in_complete [OF assms(1)] subset_iff)
    qed
  qed simp
qed

lemma card_flip:
  assumes "x \<in> set c" and "\<not> tautology c" and "distinct c" and "neg x \<in> set d" and "set c - {x} \<subseteq> set d"
  shows "length c \<le> length d"
proof -
  have "neg x \<notin> set c - {x}" using assms(1,2) by (auto simp: tautology_def)
  then have "card (insert (neg x) (set c - {x})) = Suc (card (set c) - 1)"
    using assms(1) by (simp add: card_Diff_singleton)
  also have "card (set c) = length c" using assms(3) by (rule distinct_card)
  also have "Suc (length c - 1) = length c" using assms(1) by (cases c) auto
  finally have "length c = card (insert (neg x) (set c - {x}))" by simp
  also have "\<dots> \<le> card (set d)" using assms(4,5) by (intro card_mono) auto
  also have "\<dots> \<le> length d" by (rule card_length)
  finally show ?thesis .
qed

text \<open>C18: \<^verbatim>\<open>subsumes\<close> decides subsumption and self-subsuming resolution: on proper clauses with up-to-date
  abstractions it returns \<^verbatim>\<open>lit_Undef\<close> exactly when every literal of \<open>c\<close> is in \<open>other\<close>, a literal \<open>p\<close>
  exactly when \<open>p\<close> is the only literal of \<open>c\<close> that is not in \<open>other\<close> and its negation is there, and
  \<^verbatim>\<open>lit_Error\<close> otherwise.  So what may be deleted from \<open>other\<close> is the negation of the result.\<close>

theorem clause_subsumes_correct:
  assumes "abst_ok c" and "abst_ok d" and "distinct (lits c)" and "\<not> tautology (lits c)" and "\<not> tautology (lits d)"
    and "\<forall>p \<in> set (lits c). proper p"
  shows "(clause_subsumes c d = lit_Undef \<longleftrightarrow> set (lits c) \<subseteq> set (lits d))
       \<and> (\<forall>p. proper p \<longrightarrow> (clause_subsumes c d = p \<longleftrightarrow>
             p \<in> set (lits c) \<and> neg p \<in> set (lits d) \<and> set (lits c) - {p} \<subseteq> set (lits d)))"
proof (intro conjI allI impI)
  note complete = subsume_loop_complete [OF assms(5,3,6)]
  note abst = assms(1,2)[unfolded abst_ok_def]
  have sound: "(r = lit_Undef \<and> set (lits c) \<subseteq> set (lits d)) \<or>
      (proper r \<and> r \<in> set (lits c) \<and> neg r \<in> set (lits d) \<and> set (lits c) - {r} \<subseteq> set (lits d))"
    if "clause_subsumes c d = r" "r \<noteq> lit_Error" for r
    using that subsume_loop_sound [of "lits c" "lits d" lit_Undef r] assms(6)
    by (simp add: clause_subsumes_def split: if_splits)
  have UE: "lit_Undef \<noteq> lit_Error" by (simp add: lit_Undef_def lit_Error_def)
  show "clause_subsumes c d = lit_Undef \<longleftrightarrow> set (lits c) \<subseteq> set (lits d)"
  proof
    assume sub: "set (lits c) \<subseteq> set (lits d)"
    have "card (set (lits c)) \<le> length (lits d)"
      using card_mono [OF _ sub] card_length [of "lits d"] by (meson List.finite_set le_trans)
    then have "length (lits c) \<le> length (lits d)" using assms(3) by (simp add: distinct_card)
    moreover have "abst c AND NOT (abst d) = 0"
      unfolding abst using sub by (intro abst_subset image_mono)
    ultimately show "clause_subsumes c d = lit_Undef"
      using complete(1) [OF sub] by (simp add: clause_subsumes_def clause_size_def)
  qed (use sound [of lit_Undef] UE in \<open>auto simp: proper_def\<close>)
  fix p assume p: "proper p"
  show "clause_subsumes c d = p \<longleftrightarrow>
      p \<in> set (lits c) \<and> neg p \<in> set (lits d) \<and> set (lits c) - {p} \<subseteq> set (lits d)"
  proof
    assume r: "p \<in> set (lits c) \<and> neg p \<in> set (lits d) \<and> set (lits c) - {p} \<subseteq> set (lits d)"
    have "length (lits c) \<le> length (lits d)"
      using card_flip r assms(3,4) by blast
    moreover have "var ` set (lits c) \<subseteq> var ` set (lits d)"
    proof
      fix v assume "v \<in> var ` set (lits c)"
      then obtain q where q: "q \<in> set (lits c)" "v = var q" by blast
      show "v \<in> var ` set (lits d)"
      proof (cases "q = p")
        case True
        then have "v = var (neg p)" using q by simp
        then show ?thesis using r by blast
      qed (use q r in auto)
    qed
    then have "abst c AND NOT (abst d) = 0" unfolding abst by (rule abst_subset)
    ultimately show "clause_subsumes c d = p"
      using complete(2) [of p] r by (simp add: clause_subsumes_def clause_size_def)
  qed (use sound [of p] p in \<open>auto simp: proper_def\<close>)
qed

definition test_clause :: "int list \<Rightarrow> clause" where
  "test_clause xs = calcAbstraction (clause_new 0 0 (map Lit xs) True False)"

theorem clause_subsumes_correct_witness:
  "clause_subsumes (test_clause [2, 4]) (test_clause [4, 6, 3]) = Lit 2"
proof -
  have ok: "abst_ok (test_clause xs)" for xs by (simp add: abst_ok_def test_clause_def calcAbstraction_def)
  have l: "lits (test_clause [2, 4]) = [Lit 2, Lit 4]" "lits (test_clause [4, 6, 3]) = [Lit 4, Lit 6, Lit 3]"
    by (simp_all add: test_clause_def calcAbstraction_def clause_new_def Let_def)
  have "distinct (lits (test_clause [2, 4]))" "\<not> tautology (lits (test_clause [2, 4]))"
    "\<not> tautology (lits (test_clause [4, 6, 3]))" "\<forall>p \<in> set (lits (test_clause [2, 4])). proper p"
    unfolding l by (simp_all add: tautology_def neg_def xor_one_int proper_def lit_Undef_def lit_Error_def)
  from clause_subsumes_correct [OF ok ok this] show ?thesis
    unfolding l by (simp add: proper_def lit_Undef_def lit_Error_def neg_def xor_one_int)
qed

section \<open>ClauseAllocator\<close>

record allocator =
  region_of :: region
  extra_clause_field :: bool
  marker_refs :: CRef
  mem :: "CRef \<Rightarrow> clause option"

definition clauseWord32Size :: "nat \<Rightarrow> bool \<Rightarrow> nat" where
  "clauseWord32Size n extra = (4 + 4 * (n + of_bool extra)) div 4"

definition makeMarkerReference :: "allocator \<Rightarrow> CRef \<times> allocator" where
  "makeMarkerReference ca = (marker_refs ca - 1, ca\<lparr>marker_refs := marker_refs ca - 1\<rparr>)"

definition isClause :: "allocator \<Rightarrow> CRef \<Rightarrow> bool" where
  "isClause ca cr \<longleftrightarrow> cr < marker_refs ca"

definition ca_new :: "32 word \<Rightarrow> (32 word \<Rightarrow> bool) \<Rightarrow> (vec_error + allocator) option" where
  "ca_new start_cap m =
     (case region_new start_cap m of
        None \<Rightarrow> None
      | Some (Inl e) \<Rightarrow> Some (Inl e)
      | Some (Inr r) \<Rightarrow>
          Some (Inr \<lparr>region_of = r, extra_clause_field = False, marker_refs = CRef_Undef, mem = \<lambda>_. None\<rparr>))"

text \<open>The target keeps its own \<open>marker_refs\<close>.\<close>

definition ca_moveTo :: "allocator \<Rightarrow> allocator \<Rightarrow> allocator" where
  "ca_moveTo from to =
     to\<lparr>extra_clause_field := extra_clause_field from,
        region_of := snd (region_moveTo (region_of from) (region_of to)), mem := mem from\<rparr>"

definition ca_alloc :: "Lit list \<Rightarrow> bool \<Rightarrow> allocator \<Rightarrow> (vec_error + CRef \<times> allocator) option" where
  "ca_alloc ps lrnt ca =
     (let use_extra = (lrnt \<or> extra_clause_field ca)
      in case region_alloc (word_of_nat (clauseWord32Size (length ps) use_extra)) (region_of ca) of
           None \<Rightarrow> None
         | Some (Inl e) \<Rightarrow> Some (Inl e)
         | Some (Inr (cid, r)) \<Rightarrow>
             Some (Inr (cid, ca\<lparr>region_of := r, mem := (mem ca)(cid \<mapsto> clause_new 0 0 ps use_extra lrnt)\<rparr>)))"

text \<open>Freeing only counts the wasted cells: the clause stays readable until the next collection.\<close>

definition ca_free :: "CRef \<Rightarrow> allocator \<Rightarrow> allocator" where
  "ca_free cid ca =
     (if marker_refs ca \<le> cid then ca
      else case mem ca cid of
             None \<Rightarrow> ca
           | Some c \<Rightarrow> ca\<lparr>region_of :=
               region_free (word_of_nat (clauseWord32Size (clause_size c) (has_extra c))) (region_of ca)\<rparr>)"

definition ca_modify :: "CRef \<Rightarrow> (clause \<Rightarrow> clause) \<Rightarrow> allocator \<Rightarrow> allocator" where
  "ca_modify cr f ca = ca\<lparr>mem := (mem ca)(cr := map_option f (mem ca cr))\<rparr>"

definition ca_get :: "allocator \<Rightarrow> CRef \<Rightarrow> clause" where
  "ca_get ca cr = the (mem ca cr)"

text \<open>\<^verbatim>\<open>reloc\<close>: the new reference, the source with its clause marked, and the target with the copy.\<close>

definition copy_extra :: "clause \<Rightarrow> clause \<Rightarrow> clause" where
  "copy_extra c d =
     (let d = d\<lparr>derived := derived c, cmark := cmark c\<rparr>
      in if learnt d then d\<lparr>act := act c\<rparr>
         else if has_extra d then calcAbstraction d else d)"

definition ca_reloc ::
  "CRef \<Rightarrow> allocator \<Rightarrow> allocator \<Rightarrow> (vec_error + CRef \<times> allocator \<times> allocator) option" where
  "ca_reloc cr ca to =
     (if marker_refs ca \<le> cr then Some (Inr (cr, ca, to))
      else let c = ca_get ca cr
      in if reloced c then Some (Inr (relocation c, ca, to))
      else case ca_alloc (lits c) (learnt c) to of
             None \<Rightarrow> None
           | Some (Inl e) \<Rightarrow> Some (Inl e)
           | Some (Inr (cr', to')) \<Rightarrow>
               Some (Inr (cr', ca_modify cr (relocate cr') ca, ca_modify cr' (copy_extra c) to')))"

definition allocator_wf :: "allocator \<Rightarrow> bool" where
  "allocator_wf ca \<longleftrightarrow> region_wf (region_of ca) \<and> even (unat (rcap (region_of ca))) \<and>
     (\<forall>cr c. mem ca cr = Some c \<longrightarrow>
        unat cr + clauseWord32Size (clause_size c) (has_extra c) \<le> unat (rsz (region_of ca)))"

lemma clauseWord32Size_eq: "clauseWord32Size n e = 1 + n + of_bool e"
  by (simp add: clauseWord32Size_def)

lemma clause_new_simps [simp]:
  "learnt (clause_new a b ps e l) = l" "has_extra (clause_new a b ps e l) = e"
  "cmark (clause_new a b ps e l) = 0" "reloced (clause_new a b ps e l) = False"
  "derived (clause_new a b ps e l) = False"
  "lits (clause_new a b ps e l) = take (length ps mod 2 ^ 26) ps"
  by (simp_all add: clause_new_def calcAbstraction_def Let_def)

lemma ca_alloc_ok:
  assumes wf: "allocator_wf ca" and len: "length ps < 2 ^ 26"
    and room: "unat (rsz (region_of ca)) + length ps + 2 \<le> 2643056797"
  shows "\<exists>ca'. ca_alloc ps l ca = Some (Inr (rsz (region_of ca), ca')) \<and> allocator_wf ca' \<and>
           mem ca (rsz (region_of ca)) = None \<and>
           mem ca' = (mem ca)(rsz (region_of ca) \<mapsto> clause_new 0 0 ps (l \<or> extra_clause_field ca) l) \<and>
           marker_refs ca' = marker_refs ca \<and> extra_clause_field ca' = extra_clause_field ca \<and>
           unat (rsz (region_of ca')) \<le> unat (rsz (region_of ca)) + length ps + 2 \<and>
           unat (rsz (region_of ca')) = unat (rsz (region_of ca)) + clauseWord32Size (length ps) (l \<or> extra_clause_field ca) \<and>
           rwasted (region_of ca') = rwasted (region_of ca)"
proof -
  let ?e = "l \<or> extra_clause_field ca"
  let ?n = "word_of_nat (clauseWord32Size (length ps) ?e) :: 32 word" and ?r = "region_of ca"
  have sz: "clauseWord32Size (length ps) ?e \<le> length ps + 2" "0 < clauseWord32Size (length ps) ?e"
    by (simp_all add: clauseWord32Size_eq)
  then have small: "clauseWord32Size (length ps) ?e < 2 ^ 32" using len by simp
  then have n: "unat ?n = clauseWord32Size (length ps) ?e"
    by (simp add: unsigned_of_nat take_bit_nat_eq_self)
  have "0 < ?n" using n sz(2) by (simp add: word_less_nat_alt)
  with region_alloc_ok_aux [of ?r ?n] wf n sz room obtain r' where
    r': "region_alloc ?n ?r = Some (Inr (rsz ?r, r'))" "unat (rsz r') = unat (rsz ?r) + unat ?n"
    "region_wf r'" "even (unat (rcap r'))" "rwasted r' = rwasted ?r" by (auto simp: allocator_wf_def)
  have bound: "unat cr + clauseWord32Size (clause_size c) (has_extra c) \<le> unat (rsz ?r)"
    if "mem ca cr = Some c" for cr c using wf that by (auto simp: allocator_wf_def)
  have free: "mem ca (rsz ?r) = None"
    using bound [of "rsz ?r"] by (cases "mem ca (rsz ?r)") (auto simp: clauseWord32Size_eq)
  have len': "length ps mod 67108864 = length ps" using len by simp
  show ?thesis
    using r' free n sz bound len' unfolding ca_alloc_def Let_def
    by (auto simp: allocator_wf_def clause_size_def dest!: bound intro: le_trans)
qed

lemma ca_reloc_ok:
  assumes "allocator_wf to" and "isClause ca cr" and "mem ca cr = Some c" and "\<not> reloced c" and "lits c \<noteq> []"
    and "length (lits c) < 2 ^ 26" and "unat (rsz (region_of to)) + length (lits c) + 2 \<le> 2643056797"
  shows "\<exists>cr' ca' to' c'. ca_reloc cr ca to = Some (Inr (cr', ca', to')) \<and>
           cr' = rsz (region_of to) \<and> ca' = ca_modify cr (relocate cr') ca \<and> marker_refs to' = marker_refs to \<and>
           extra_clause_field to' = extra_clause_field to \<and> rwasted (region_of to') = rwasted (region_of to) \<and>
           unat (rsz (region_of to')) = unat (rsz (region_of to)) + clauseWord32Size (length (lits c)) (has_extra c') \<and>
           has_extra c' = (learnt c \<or> extra_clause_field to) \<and> \<not> reloced c' \<and>
           mem to cr' = None \<and> mem to' = (mem to)(cr' \<mapsto> c') \<and> allocator_wf to' \<and>
           lits c' = lits c \<and> learnt c' = learnt c \<and> cmark c' = cmark c \<and> derived c' = derived c \<and>
           (learnt c \<longrightarrow> act c' = act c) \<and> (\<not> learnt c \<and> has_extra c' \<longrightarrow> abst_ok c') \<and>
           ca_reloc cr ca' to' = Some (Inr (cr', ca', to'))"
proof -
  from ca_alloc_ok [OF assms(1,6,7), of "learnt c"] obtain to1 where
    a: "ca_alloc (lits c) (learnt c) to = Some (Inr (rsz (region_of to), to1))" "allocator_wf to1"
    "mem to (rsz (region_of to)) = None"
    "mem to1 = (mem to)(rsz (region_of to) \<mapsto>
        clause_new 0 0 (lits c) (learnt c \<or> extra_clause_field to) (learnt c))" "marker_refs to1 = marker_refs to" "extra_clause_field to1 = extra_clause_field to"
    "unat (rsz (region_of to1)) = unat (rsz (region_of to)) +
       clauseWord32Size (length (lits c)) (learnt c \<or> extra_clause_field to)"
    "rwasted (region_of to1) = rwasted (region_of to)" by blast
  let ?cr = "rsz (region_of to)" and ?n = "clause_new 0 0 (lits c) (learnt c \<or> extra_clause_field to) (learnt c)"
  let ?to = "ca_modify ?cr (copy_extra c) to1" and ?ca = "ca_modify cr (relocate ?cr) ca"
  have len: "length (lits c) mod 67108864 = length (lits c)" using assms(6) by simp
  have not_marker: "\<not> marker_refs ca \<le> cr" using assms(2) by (simp add: isClause_def)
  have 1: "ca_reloc cr ca to = Some (Inr (?cr, ?ca, ?to))"
    using assms(3,4) a(1) not_marker by (simp add: ca_reloc_def ca_get_def Let_def)
  have 2: "ca_reloc cr ?ca ?to = Some (Inr (?cr, ?ca, ?to))"
    using assms(3,5) not_marker relocation_relocate [of c ?cr]
    by (simp add: ca_reloc_def ca_get_def ca_modify_def Let_def) (simp add: relocate_def)
  have c': "lits (copy_extra c ?n) = lits c" "learnt (copy_extra c ?n) = learnt c"
    "cmark (copy_extra c ?n) = cmark c" "derived (copy_extra c ?n) = derived c"
    "learnt c \<Longrightarrow> act (copy_extra c ?n) = act c" "has_extra (copy_extra c ?n) = has_extra ?n"
    "\<not> learnt c \<and> has_extra (copy_extra c ?n) \<Longrightarrow> abst_ok (copy_extra c ?n)"
    by (auto simp: copy_extra_def Let_def calcAbstraction_def len abst_ok_def)
  have 3: "mem ?to = (mem to)(?cr \<mapsto> copy_extra c ?n)"
    by (simp add: ca_modify_def a(4))
  have "allocator_wf ?to"
    using a(2) c' len unfolding allocator_wf_def 3
    by (auto simp: ca_modify_def a(4) clause_size_def split: if_splits)
  moreover have "marker_refs ?to = marker_refs to" "extra_clause_field ?to = extra_clause_field to"
    "rwasted (region_of ?to) = rwasted (region_of to)"
    "unat (rsz (region_of ?to)) = unat (rsz (region_of to)) + clauseWord32Size (length (lits c)) (has_extra (copy_extra c ?n))"
    "has_extra (copy_extra c ?n) = (learnt c \<or> extra_clause_field to)" "\<not> reloced (copy_extra c ?n)"
    using a(5-8) c'(6) by (simp_all add: ca_modify_def) (auto simp: copy_extra_def Let_def calcAbstraction_def)
  ultimately show ?thesis using 1 2 3 c' a(3) by blast
qed

text \<open>C19: relocation moves a clause into fresh cells of the target with its literals, flags, mark and activity, leaves every
  clause that was there alone, and leaves a forwarding reference, so that relocating the same clause
  again gives the same new reference and copies nothing.\<close>

theorem ca_reloc_correct:
  assumes "allocator_wf to" and "isClause ca cr" and "mem ca cr = Some c" and "\<not> reloced c" and "lits c \<noteq> []"
    and "length (lits c) < 2 ^ 26" and "unat (rsz (region_of to)) + length (lits c) + 2 \<le> 2643056797"
  shows "\<exists>cr' ca' to' c'. ca_reloc cr ca to = Some (Inr (cr', ca', to')) \<and>
           mem to cr' = None \<and> mem to' = (mem to)(cr' \<mapsto> c') \<and> allocator_wf to' \<and>
           lits c' = lits c \<and> learnt c' = learnt c \<and> cmark c' = cmark c \<and> derived c' = derived c \<and>
           (learnt c \<longrightarrow> act c' = act c) \<and> (\<not> learnt c \<and> has_extra c' \<longrightarrow> abst_ok c') \<and>
           ca_reloc cr ca' to' = Some (Inr (cr', ca', to'))"
  using ca_reloc_ok [OF assms] by blast

theorem ca_reloc_correct_witness:
  "\<exists>cr' ca' to' c'. ca_reloc 8
      \<lparr>region_of = \<lparr>rsz = 12, rcap = 12, rwasted = 0, rmem = \<lambda>_. True\<rparr>, extra_clause_field = False, marker_refs = CRef_Undef,
       mem = [8 \<mapsto> clause_new 0 0 [Lit 2, Lit 5] True True]\<rparr>
      \<lparr>region_of = \<lparr>rsz = 0, rcap = 2, rwasted = 0, rmem = \<lambda>_. True\<rparr>, extra_clause_field = False, marker_refs = CRef_Undef,
       mem = \<lambda>_. None\<rparr> = Some (Inr (cr', ca', to')) \<and> mem to' = [cr' \<mapsto> c'] \<and> lits c' = [Lit 2, Lit 5]"
proof -
  let ?to = "\<lparr>region_of = \<lparr>rsz = 0, rcap = 2, rwasted = 0, rmem = \<lambda>_. True\<rparr>, extra_clause_field = False, marker_refs = CRef_Undef,
       mem = \<lambda>_. None :: clause option\<rparr>"
  let ?ca = "\<lparr>region_of = \<lparr>rsz = 12, rcap = 12, rwasted = 0, rmem = \<lambda>_. True\<rparr>, extra_clause_field = False, marker_refs = CRef_Undef,
       mem = [8 \<mapsto> clause_new 0 0 [Lit 2, Lit 5] True True]\<rparr>"
  have "allocator_wf ?to" by (simp add: allocator_wf_def region_wf_def)
  moreover have "isClause ?ca 8" by (simp add: isClause_def Ref_Undef_def)
  ultimately show ?thesis
    using ca_reloc_correct [of ?to ?ca 8 "clause_new 0 0 [Lit 2, Lit 5] True True"] by auto
qed

section \<open>OccLists\<close>

text \<open>
  Lists indexed by \<open>toInt idx\<close> with lazy deletion: \<open>deleted\<close> is the \<^verbatim>\<open>Deleted\<close> functor, \<open>dirty\<close> flags the
  lists that may hold deleted entries and \<open>dirties\<close> the indices to clean.
\<close>

record 'w occlists =
  occs :: "'w list list"
  dirty :: "bool list"
  dirties :: "nat list"

definition occ_init :: "nat \<Rightarrow> 'w occlists \<Rightarrow> 'w occlists" where
  "occ_init i o1 =
     (let os = occs o1 @ replicate (i + 1 - length (occs o1)) [];
          ds = dirty o1 @ replicate (i + 1 - length (dirty o1)) False
      in o1\<lparr>occs := os[i := []], dirty := ds\<rparr>)"

definition occ_clean :: "('w \<Rightarrow> bool) \<Rightarrow> nat \<Rightarrow> 'w occlists \<Rightarrow> 'w occlists" where
  "occ_clean deleted i o1 =
     o1\<lparr>occs := (occs o1)[i := compact_vec (\<lambda>w. \<not> deleted w) (occs o1 ! i)], dirty := (dirty o1)[i := False]\<rparr>"

fun clean_dirties :: "('w \<Rightarrow> bool) \<Rightarrow> nat list \<Rightarrow> 'w occlists \<Rightarrow> 'w occlists" where
  "clean_dirties deleted [] o1 = o1"
| "clean_dirties deleted (i # is) o1 =
     clean_dirties deleted is (if dirty o1 ! i then occ_clean deleted i o1 else o1)"

definition occ_cleanAll :: "('w \<Rightarrow> bool) \<Rightarrow> 'w occlists \<Rightarrow> 'w occlists" where
  "occ_cleanAll deleted o1 = (clean_dirties deleted (dirties o1) o1)\<lparr>dirties := []\<rparr>"

definition occ_lookup :: "('w \<Rightarrow> bool) \<Rightarrow> nat \<Rightarrow> 'w occlists \<Rightarrow> 'w list \<times> 'w occlists" where
  "occ_lookup deleted i o1 =
     (let o2 = (if dirty o1 ! i then occ_clean deleted i o1 else o1) in (occs o2 ! i, o2))"

definition smudge :: "nat \<Rightarrow> 'w occlists \<Rightarrow> 'w occlists" where
  "smudge i o1 =
     (if \<not> dirty o1 ! i then o1\<lparr>dirty := (dirty o1)[i := True], dirties := dirties o1 @ [i]\<rparr> else o1)"

definition occ_clear :: "'w occlists \<Rightarrow> 'w occlists" where
  "occ_clear o1 = o1\<lparr>occs := [], dirty := [], dirties := []\<rparr>"

definition occ_push :: "nat \<Rightarrow> 'w \<Rightarrow> 'w occlists \<Rightarrow> 'w occlists" where
  "occ_push i w o1 = o1\<lparr>occs := (occs o1)[i := occs o1 ! i @ [w]]\<rparr>"

definition occ_wf :: "'w occlists \<Rightarrow> bool" where
  "occ_wf o1 \<longleftrightarrow> length (dirty o1) = length (occs o1) \<and> (\<forall>i \<in> set (dirties o1). i < length (occs o1)) \<and>
     (\<forall>i < length (dirty o1). dirty o1 ! i \<longrightarrow> i \<in> set (dirties o1))"

text \<open>Only dirty lists hold deleted entries.\<close>

definition lazy_ok :: "('w \<Rightarrow> bool) \<Rightarrow> 'w occlists \<Rightarrow> bool" where
  "lazy_ok deleted o1 \<longleftrightarrow>
     (\<forall>i < length (occs o1). \<not> dirty o1 ! i \<longrightarrow> (\<forall>w \<in> set (occs o1 ! i). \<not> deleted w))"

lemma clean_dirties_spec:
  assumes "length (dirty o1) = length (occs o1)" and "\<forall>i \<in> set is. i < length (occs o1)"
  shows "length (occs (clean_dirties d is o1)) = length (occs o1) \<and>
         length (dirty (clean_dirties d is o1)) = length (occs o1) \<and>
         (\<forall>i < length (occs o1).
            occs (clean_dirties d is o1) ! i =
              (if i \<in> set is \<and> dirty o1 ! i then filter (\<lambda>w. \<not> d w) (occs o1 ! i) else occs o1 ! i) \<and>
            dirty (clean_dirties d is o1) ! i = (dirty o1 ! i \<and> i \<notin> set is))"
  using assms
proof (induction d "is" o1 rule: clean_dirties.induct)
  case (2 d i "is" o1)
  show ?case
  proof (cases "dirty o1 ! i")
    case True
    with 2 show ?thesis
      by (auto simp: occ_clean_def nth_list_update)
  next
    case False
    with 2 show ?thesis by auto
  qed
qed simp

text \<open>C22: lazy deletion is transparent: \<^verbatim>\<open>cleanAll\<close> leaves exactly the entries that are not deleted, in
  order, in every list, \<^verbatim>\<open>lookup\<close> returns exactly those of its list, and nothing is dirty after \<^verbatim>\<open>cleanAll\<close>.\<close>

theorem occlists_lazy_deletion:
  assumes "occ_wf o1" and "lazy_ok deleted o1"
  shows "(\<forall>i < length (occs o1).
            occs (occ_cleanAll deleted o1) ! i = filter (\<lambda>w. \<not> deleted w) (occs o1 ! i) \<and>
            \<not> dirty (occ_cleanAll deleted o1) ! i \<and>
            fst (occ_lookup deleted i o1) = filter (\<lambda>w. \<not> deleted w) (occs o1 ! i) \<and>
            lazy_ok deleted (snd (occ_lookup deleted i o1)))
       \<and> occ_wf (occ_cleanAll deleted o1) \<and> lazy_ok deleted (occ_cleanAll deleted o1)"
proof -
  have clean: "filter (\<lambda>w. \<not> deleted w) (occs o1 ! i) = occs o1 ! i"
    if "i < length (occs o1)" "\<not> dirty o1 ! i" for i
    using assms(2) that by (auto simp: lazy_ok_def filter_id_conv)
  note spec = clean_dirties_spec [of o1 "dirties o1" deleted]
  have all: "occs (occ_cleanAll deleted o1) ! i = filter (\<lambda>w. \<not> deleted w) (occs o1 ! i) \<and>
      \<not> dirty (occ_cleanAll deleted o1) ! i" if "i < length (occs o1)" for i
    using spec assms(1) clean that by (auto simp: occ_wf_def occ_cleanAll_def)
  have len: "length (occs (occ_cleanAll deleted o1)) = length (occs o1)"
    "length (dirty (occ_cleanAll deleted o1)) = length (occs o1)"
    using spec assms(1) by (auto simp: occ_wf_def occ_cleanAll_def)
  have look: "fst (occ_lookup deleted i o1) = filter (\<lambda>w. \<not> deleted w) (occs o1 ! i) \<and>
      lazy_ok deleted (snd (occ_lookup deleted i o1))" if "i < length (occs o1)" for i
    using assms clean that
    by (auto simp: occ_lookup_def occ_clean_def Let_def lazy_ok_def occ_wf_def nth_list_update)
  show ?thesis
    using all look len by (auto simp: occ_wf_def lazy_ok_def) (simp add: occ_cleanAll_def)
qed

theorem occlists_lazy_deletion_witness:
  "occs (occ_cleanAll (\<lambda>w. w = 3) \<lparr>occs = [[1, 3], [2 :: nat]], dirty = [True, False], dirties = [0]\<rparr>) ! 0 = [1]"
proof -
  let ?o = "\<lparr>occs = [[1, 3], [2 :: nat]], dirty = [True, False], dirties = [0]\<rparr>"
  have "occ_wf ?o" "lazy_ok (\<lambda>w. w = 3) ?o"
    by (auto simp: occ_wf_def lazy_ok_def less_Suc_eq nth_Cons split: nat.splits)
  from occlists_lazy_deletion [OF this] show ?thesis by auto
qed

end
