(* ===== verification/Solver_State.thy ===== *)
theory Solver_State
  imports Clauses MTL_Heap MTL_Rnd
begin

text \<open>
  \<^verbatim>\<open>core/Solver.h\<close>: the state of the CDCL(T) solver, its accessors, its options and its interface to the
  theory solvers.  Field and function names are those of the code.  Levels and trail positions are
  natural numbers; activities, \<^verbatim>\<open>double\<close> in the code, are reals.  The theory solvers are code behind
  virtual methods: their joint state is the type parameter \<open>'h\<close> and their methods are the record
  \<open>'h theory_ops\<close>, a parameter of every operation that calls them.  A solver that is itself attached
  to a super solver is not modelled: the pointer \<^verbatim>\<open>S\<close> is null.  \<open>None\<close> as the result of an operation
  means that it does not return: it throws, reads outside a vector, or loops.
\<close>

section \<open>Types\<close>

record watcher =
  cref :: CRef
  blocker :: Lit

record var_data =
  vreason :: CRef
  vlevel :: nat

text \<open>\<^verbatim>\<open>TheoryData\<close>: \<^verbatim>\<open>isTheoryVar\<close> is a union member that overlaps \<open>td_theory\<close>.\<close>

record theory_data =
  td_theory :: nat
  td_theory_var :: Var

record options =
  phase_saving :: nat
  ccmin_mode :: nat
  var_decay :: real
  clause_decay :: real
  theory_decay :: real
  random_var_freq :: real
  rnd_pol :: bool
  rnd_init_act :: bool
  remove_satisfied :: bool
  garbage_frac :: real
  learntsize_inc :: real
  learntsize_adjust_inc :: real
  opt_lazy_backtrack :: bool
  opt_early_theory_prop :: bool
  opt_vsids_both :: bool
  opt_use_var_decay_for_theory_vsids :: bool
  opt_theory_vsids_balance :: real
  opt_init_rnd_phase :: bool
  opt_permanent_theory_conflicts :: bool
  opt_temporary_theory_conflicts :: nat

record statistics =
  decisions :: nat
  rnd_decisions :: nat
  propagations :: nat
  conflicts :: nat
  dec_vars :: int
  clauses_literals :: int
  learnts_literals :: int
  max_literals :: nat
  tot_literals :: nat
  stats_removed_clauses :: nat

record budget =
  conflict_budget :: int
  propagation_budget :: int
  asynch_interrupt :: bool

record 'h theories =
  tstate :: 'h
  n_theories :: nat
  decidable_theories :: "nat list"
  theory_queue :: "nat list"
  in_theory_queue :: "bool list"
  theory_order_heap :: heap
  theory_decision_trail :: "(nat \<times> nat) list"
  theory_inc :: real
  markers :: "CRef list"
  marker_theory :: "int list"

record 'h solver =
  opts :: options
  stats :: statistics
  limits :: budget
  ths :: "'h theories"
  ok :: bool
  clauses :: "CRef list"
  learnts :: "CRef list"
  cla_inc :: real
  activity :: "real list"
  var_inc :: real
  watches :: "watcher occlists"
  assigns :: "lbool list"
  polarity :: "bool list"
  decision :: "bool list"
  priority :: "int list"
  theory_vars :: "theory_data list"
  trail :: "Lit list"
  trail_lim :: "nat list"
  vardata :: "var_data list"
  qhead :: nat
  simpDB_assigns :: int
  simpDB_props :: int
  assumptions :: "Lit list"
  order_heap :: heap
  ca :: allocator
  released_vars :: "Var list"
  free_vars :: "Var list"
  seen :: "bool list"
  to_analyze :: "Lit list"
  clauses_to_add :: "Lit list list"
  max_learnts :: real
  learntsize_adjust_confl :: real
  learntsize_adjust_cnt :: int
  random_seed :: nat
  initialPropagate :: bool
  theoryConflict :: int
  min_decision_var :: Var
  max_decision_var :: Var
  tmp_clause :: CRef
  tmp_clause_sz :: nat
  initial_level :: nat
  track_min_level :: nat
  const_true :: Lit

text \<open>The methods of \<^verbatim>\<open>core/Theory.h\<close> that the solver calls, indexed by theory.  A theory that is told of a
  literal may enqueue others before it returns (\<^verbatim>\<open>AMOTheory::enqueueTheory\<close> does in its eager mode); propagating
  and building a reason call back into the solver too.  These methods take and return its state.\<close>

record 'h theory_ops =
  th_backtrackUntil :: "nat \<Rightarrow> nat \<Rightarrow> 'h \<Rightarrow> 'h"
  th_undecide :: "nat \<Rightarrow> Lit \<Rightarrow> 'h \<Rightarrow> 'h"
  th_enqueue :: "nat \<Rightarrow> Lit \<Rightarrow> 'h solver \<Rightarrow> 'h solver"
  th_lazy :: "nat \<Rightarrow> bool"
  th_supportsDecisions :: "nat \<Rightarrow> bool"
  th_priority :: "'h \<Rightarrow> nat \<Rightarrow> int"
  th_activity :: "'h \<Rightarrow> nat \<Rightarrow> real"
  th_set_activity :: "nat \<Rightarrow> real \<Rightarrow> 'h \<Rightarrow> 'h"
  th_propagate :: "nat \<Rightarrow> 'h solver \<Rightarrow> (bool \<times> Lit list \<times> 'h solver) option"
  th_buildReason :: "nat \<Rightarrow> Lit \<Rightarrow> CRef \<Rightarrow> 'h solver \<Rightarrow> (Lit list \<times> 'h solver) option"

section \<open>Reading the state\<close>

definition reason :: "'h solver \<Rightarrow> Var \<Rightarrow> CRef" where
  "reason s x = vreason (vardata s ! vix x)"

definition level :: "'h solver \<Rightarrow> Var \<Rightarrow> nat" where
  "level s x = vlevel (vardata s ! vix x)"

definition decisionLevel :: "'h solver \<Rightarrow> nat" where
  "decisionLevel s = length (trail_lim s)"

definition abstractLevel :: "'h solver \<Rightarrow> Var \<Rightarrow> 32 word" where
  "abstractLevel s x = push_bit (level s x mod 32) 1"

definition value_var :: "'h solver \<Rightarrow> Var \<Rightarrow> lbool" where
  "value_var s x = assigns s ! vix x"

definition lvalue :: "'h solver \<Rightarrow> Lit \<Rightarrow> lbool" where
  "lvalue s p = lb_xor (assigns s ! vix (var p)) (sign p)"

definition isT :: "'h solver \<Rightarrow> Lit \<Rightarrow> bool" where "isT s p = lb_eq (lvalue s p) l_True"
definition isF :: "'h solver \<Rightarrow> Lit \<Rightarrow> bool" where "isF s p = lb_eq (lvalue s p) l_False"
definition isU :: "'h solver \<Rightarrow> Lit \<Rightarrow> bool" where "isU s p = lb_eq (lvalue s p) l_Undef"

definition nVars :: "'h solver \<Rightarrow> nat" where "nVars s = length (vardata s)"
definition nAssigns :: "'h solver \<Rightarrow> nat" where "nAssigns s = length (trail s)"
definition nClauses :: "'h solver \<Rightarrow> nat" where "nClauses s = length (clauses s)"
definition nLearnts :: "'h solver \<Rightarrow> nat" where "nLearnts s = length (learnts s)"

definition nUnassignedVars :: "'h solver \<Rightarrow> int" where
  "nUnassignedVars s = int (nVars s) - int (length (free_vars s)) - int (length (trail s))"

definition nFreeVars :: "'h solver \<Rightarrow> int" where
  "nFreeVars s =
     dec_vars (stats s) - (if length (trail_lim s) = 0 then int (length (trail s)) else int (trail_lim s ! 0))"

definition hasNextDecision :: "'h solver \<Rightarrow> bool" where
  "hasNextDecision s \<longleftrightarrow> heap (order_heap s) \<noteq> []"

definition getDecisionPriority :: "'h solver \<Rightarrow> Var \<Rightarrow> int" where
  "getDecisionPriority s v = priority s ! vix v"

definition isConstant :: "'h solver \<Rightarrow> Var \<Rightarrow> bool" where
  "isConstant s v \<longleftrightarrow> \<not> lb_eq (value_var s v) l_Undef \<and> level s v = 0"

definition hasTheory :: "'h solver \<Rightarrow> Var \<Rightarrow> bool" where
  "hasTheory s v \<longleftrightarrow> td_theory (theory_vars s ! vix v) \<noteq> 0"

definition getTheoryID :: "'h solver \<Rightarrow> Var \<Rightarrow> nat" where
  "getTheoryID s v = td_theory (theory_vars s ! vix v) - 1"

definition getTheoryVar :: "'h solver \<Rightarrow> Var \<Rightarrow> Var" where
  "getTheoryVar s v = td_theory_var (theory_vars s ! vix v)"

definition getTheoryLit :: "'h solver \<Rightarrow> Lit \<Rightarrow> Lit" where
  "getTheoryLit s l = mkLit (getTheoryVar s (var l)) (sign l)"

definition isTheoryCause :: "'h solver \<Rightarrow> CRef \<Rightarrow> bool" where
  "isTheoryCause s cr \<longleftrightarrow> cr \<noteq> CRef_Undef \<and> \<not> isClause (ca s) cr"

definition getTheory :: "'h solver \<Rightarrow> CRef \<Rightarrow> int" where
  "getTheory s cr = marker_theory (ths s) ! unat (CRef_Undef - cr - 1)"

definition clause_at :: "'h solver \<Rightarrow> CRef \<Rightarrow> clause" where
  "clause_at s cr = ca_get (ca s) cr"

definition satisfied :: "'h solver \<Rightarrow> clause \<Rightarrow> bool" where
  "satisfied s c \<longleftrightarrow> (\<exists>l \<in> set (lits c). isT s l)"

text \<open>A clause is locked when it is the reason of its first literal.\<close>

definition locked :: "'h solver \<Rightarrow> CRef \<Rightarrow> bool" where
  "locked s cr =
     (let c0 = lits (clause_at s cr) ! 0; r = reason s (var c0)
      in isClause (ca s) r \<and> isT s c0 \<and> r = cr)"

section \<open>Comparators\<close>

text \<open>\<^verbatim>\<open>VarOrderLt\<close>, \<^verbatim>\<open>TheoryOrderLt\<close> and \<^verbatim>\<open>reduceDB_lt\<close>.\<close>

definition varOrderLt :: "real list \<Rightarrow> int list \<Rightarrow> nat \<Rightarrow> nat \<Rightarrow> bool" where
  "varOrderLt acts pris x y =
     (if pris ! x = pris ! y then acts ! y < acts ! x else pris ! y < pris ! x)"

definition theoryOrderLt :: "'h theory_ops \<Rightarrow> 'h \<Rightarrow> nat \<Rightarrow> nat \<Rightarrow> bool" where
  "theoryOrderLt T h x y =
     (if th_priority T h x = th_priority T h y then th_activity T h y < th_activity T h x
      else th_priority T h y < th_priority T h x)"

definition reduceDB_lt :: "'h solver \<Rightarrow> CRef \<Rightarrow> CRef \<Rightarrow> bool" where
  "reduceDB_lt s x y \<longleftrightarrow>
     2 < clause_size (clause_at s x) \<and>
     (clause_size (clause_at s y) = 2 \<or> act (clause_at s x) < act (clause_at s y))"

lemma varOrderLt_order: "heap_order (varOrderLt acts pris)"
  by unfold_locales (auto simp: varOrderLt_def split: if_splits)

lemma theoryOrderLt_order: "heap_order (theoryOrderLt T h)"
  by unfold_locales (auto simp: theoryOrderLt_def split: if_splits)

interpretation var_heap: heap_order "varOrderLt acts pris" for acts pris
  by (rule varOrderLt_order)

interpretation theory_heap: heap_order "theoryOrderLt T h" for T h
  by (rule theoryOrderLt_order)

section \<open>Budgets, heuristics and variable modes\<close>

definition setConfBudget :: "int \<Rightarrow> 'h solver \<Rightarrow> 'h solver" where
  "setConfBudget x s = s\<lparr>limits := limits s\<lparr>conflict_budget :=
     (if x < 0 then - 1 else int (conflicts (stats s)) + x)\<rparr>\<rparr>"

definition setPropBudget :: "int \<Rightarrow> 'h solver \<Rightarrow> 'h solver" where
  "setPropBudget x s = s\<lparr>limits := limits s\<lparr>propagation_budget :=
     (if x < 0 then - 1 else int (propagations (stats s)) + x)\<rparr>\<rparr>"

definition getConflictBudget :: "'h solver \<Rightarrow> int" where
  "getConflictBudget s =
     (if - 1 < conflict_budget (limits s) then conflict_budget (limits s) - int (conflicts (stats s)) else - 1)"

definition getPropagationBudget :: "'h solver \<Rightarrow> int" where
  "getPropagationBudget s =
     (if - 1 < propagation_budget (limits s)
      then propagation_budget (limits s) - int (propagations (stats s)) else - 1)"

definition budgetOff :: "'h solver \<Rightarrow> 'h solver" where
  "budgetOff s = s\<lparr>limits := limits s\<lparr>conflict_budget := - 1, propagation_budget := - 1\<rparr>\<rparr>"

definition interrupt :: "'h solver \<Rightarrow> 'h solver" where
  "interrupt s = s\<lparr>limits := limits s\<lparr>asynch_interrupt := True\<rparr>\<rparr>"

definition clearInterrupt :: "'h solver \<Rightarrow> 'h solver" where
  "clearInterrupt s = s\<lparr>limits := limits s\<lparr>asynch_interrupt := False\<rparr>\<rparr>"

definition withinBudget :: "'h solver \<Rightarrow> bool" where
  "withinBudget s \<longleftrightarrow>
     \<not> asynch_interrupt (limits s) \<and>
     (conflict_budget (limits s) < 0 \<or> int (conflicts (stats s)) < conflict_budget (limits s)) \<and>
     (propagation_budget (limits s) < 0 \<or> int (propagations (stats s)) < propagation_budget (limits s))"

definition heap_insert_var :: "Var \<Rightarrow> 'h solver \<Rightarrow> 'h solver" where
  "heap_insert_var x s =
     (case heap_insert (varOrderLt (activity s) (priority s)) (vix x) (order_heap s) of
        None \<Rightarrow> s
      | Some h \<Rightarrow> s\<lparr>order_heap := h\<rparr>)"

definition heap_decrease_var :: "Var \<Rightarrow> 'h solver \<Rightarrow> 'h solver" where
  "heap_decrease_var x s =
     (case heap_decrease (varOrderLt (activity s) (priority s)) (vix x) (order_heap s) of
        None \<Rightarrow> s
      | Some h \<Rightarrow> s\<lparr>order_heap := h\<rparr>)"

definition insertVarOrder :: "Var \<Rightarrow> 'h solver \<Rightarrow> 'h solver" where
  "insertVarOrder x s =
     (if \<not> inHeap (vix x) (order_heap s) \<and> decision s ! vix x then heap_insert_var x s else s)"

definition setDecisionVar :: "Var \<Rightarrow> bool \<Rightarrow> 'h solver \<Rightarrow> 'h solver" where
  "setDecisionVar v b s =
     (let d = decision s ! vix v;
          n = (if b \<and> \<not> d then dec_vars (stats s) + 1
               else if \<not> b \<and> d then dec_vars (stats s) - 1 else dec_vars (stats s))
      in insertVarOrder v (s\<lparr>stats := stats s\<lparr>dec_vars := n\<rparr>, decision := (decision s)[vix v := b]\<rparr>))"

definition setDecisionPriority :: "Var \<Rightarrow> int \<Rightarrow> 'h solver \<Rightarrow> 'h solver" where
  "setDecisionPriority v p s =
     (let s' = s\<lparr>priority := (priority s)[vix v := p]\<rparr>
      in if decision s' ! vix v
         then if inHeap (vix v) (order_heap s') then heap_decrease_var v s' else heap_insert_var v s'
         else s')"

definition setPolarity :: "Var \<Rightarrow> bool \<Rightarrow> 'h solver \<Rightarrow> 'h solver" where
  "setPolarity v b s = s\<lparr>polarity := (polarity s)[vix v := b]\<rparr>"

definition getPolarity :: "'h solver \<Rightarrow> Var \<Rightarrow> bool" where "getPolarity s v = polarity s ! vix v"
definition isDecisionVar :: "'h solver \<Rightarrow> Var \<Rightarrow> bool" where "isDecisionVar s v = decision s ! vix v"

definition resetInitialPropagation :: "'h solver \<Rightarrow> 'h solver" where
  "resetInitialPropagation s = (if \<not> initialPropagate s then s\<lparr>initialPropagate := True\<rparr> else s)"

definition newDecisionLevel :: "'h solver \<Rightarrow> 'h solver" where
  "newDecisionLevel s = s\<lparr>trail_lim := trail_lim s @ [length (trail s)]\<rparr>"

definition varDecayActivity :: "'h solver \<Rightarrow> 'h solver" where
  "varDecayActivity s = s\<lparr>var_inc := var_inc s * (1 / var_decay (opts s))\<rparr>"

definition claDecayActivity :: "'h solver \<Rightarrow> 'h solver" where
  "claDecayActivity s = s\<lparr>cla_inc := cla_inc s * (1 / clause_decay (opts s))\<rparr>"

fun scale_theories :: "'h theory_ops \<Rightarrow> nat list \<Rightarrow> 'h \<Rightarrow> 'h" where
  "scale_theories T [] h = h"
| "scale_theories T (t # ts) h = scale_theories T ts (th_set_activity T t (th_activity T h t / 10 ^ 100) h)"

definition scale_vars :: "'h solver \<Rightarrow> 'h solver" where
  "scale_vars s = s\<lparr>activity := map (\<lambda>a. a / 10 ^ 100) (activity s), var_inc := var_inc s / 10 ^ 100\<rparr>"

definition scale_ths :: "'h theory_ops \<Rightarrow> 'h solver \<Rightarrow> 'h solver" where
  "scale_ths T s = s\<lparr>ths := (ths s)\<lparr>tstate := scale_theories T (decidable_theories (ths s)) (tstate (ths s)),
     theory_inc := theory_inc (ths s) / 10 ^ 100\<rparr>\<rparr>"

definition varBumpActivity :: "'h theory_ops \<Rightarrow> Var \<Rightarrow> real \<Rightarrow> 'h solver \<Rightarrow> 'h solver" where
  "varBumpActivity T v inc s =
     (let s1 = s\<lparr>activity := (activity s)[vix v := activity s ! vix v + inc]\<rparr>;
          s2 = (if 10 ^ 100 < activity s1 ! vix v
                then let s' = scale_vars s1 in if opt_vsids_both (opts s') then scale_ths T s' else s'
                else s1)
      in if inHeap (vix v) (order_heap s2) then heap_decrease_var v s2 else s2)"

fun scale_clauses :: "CRef list \<Rightarrow> allocator \<Rightarrow> allocator" where
  "scale_clauses [] a = a"
| "scale_clauses (cr # crs) a = scale_clauses crs (ca_modify cr (\<lambda>c. c\<lparr>act := act c / 10 ^ 20\<rparr>) a)"

definition claBumpActivity :: "CRef \<Rightarrow> 'h solver \<Rightarrow> 'h solver" where
  "claBumpActivity cr s =
     (if \<not> learnt (clause_at s cr) then s
      else let s1 = s\<lparr>ca := ca_modify cr (\<lambda>c. c\<lparr>act := act c + cla_inc s\<rparr>) (ca s)\<rparr>
      in if 10 ^ 20 < act (clause_at s1 cr)
         then s1\<lparr>ca := scale_clauses (learnts s1) (ca s1), cla_inc := cla_inc s1 / 10 ^ 20\<rparr>
         else s1)"

definition theoryBumpActivity_by :: "'h theory_ops \<Rightarrow> nat \<Rightarrow> real \<Rightarrow> 'h solver \<Rightarrow> 'h solver" where
  "theoryBumpActivity_by T t inc s =
     (let h = tstate (ths s);
          s1 = s\<lparr>ths := (ths s)\<lparr>tstate := th_set_activity T t (th_activity T h t + inc) h\<rparr>\<rparr>;
          s2 = (if 10 ^ 100 < th_activity T (tstate (ths s1)) t
                then let s' = scale_ths T s1 in if opt_vsids_both (opts s') then scale_vars s' else s'
                else s1)
      in if inHeap t (theory_order_heap (ths s2))
         then case heap_decrease (theoryOrderLt T (tstate (ths s2))) t (theory_order_heap (ths s2)) of
                None \<Rightarrow> s2
              | Some hp \<Rightarrow> s2\<lparr>ths := (ths s2)\<lparr>theory_order_heap := hp\<rparr>\<rparr>
         else s2)"

definition theoryBumpActivity :: "'h theory_ops \<Rightarrow> nat \<Rightarrow> 'h solver \<Rightarrow> 'h solver" where
  "theoryBumpActivity T t s =
     (if opt_vsids_both (opts s)
      then theoryBumpActivity_by T t (var_inc s * opt_theory_vsids_balance (opts s)) s
      else theoryBumpActivity_by T t (theory_inc (ths s)) s)"

definition theoryDecayActivity :: "'h solver \<Rightarrow> 'h solver" where
  "theoryDecayActivity s =
     (if opt_vsids_both (opts s) \<and> opt_use_var_decay_for_theory_vsids (opts s) then varDecayActivity s
      else s\<lparr>ths := (ths s)\<lparr>theory_inc := theory_inc (ths s) * (1 / theory_decay (opts s))\<rparr>\<rparr>)"

end
