(* ===== verification/Solver_Ops.thy ===== *)
theory Solver_Ops
  imports Solver_State "HOL-Library.Monad_Syntax"
begin

text \<open>
  The operations of \<^verbatim>\<open>core/Solver.cc\<close> that change the assignment, the variables and the clause
  database: \<^verbatim>\<open>uncheckedEnqueue\<close>, \<^verbatim>\<open>enqueueLazy\<close>, \<^verbatim>\<open>cancelUntil\<close>, \<^verbatim>\<open>newVar\<close>, \<^verbatim>\<open>attachClause\<close>,
  \<^verbatim>\<open>removeClause\<close> and the bookkeeping of the theories.
\<close>

section \<open>Theories\<close>

definition needsPropagation :: "nat \<Rightarrow> 'h solver \<Rightarrow> 'h solver" where
  "needsPropagation t s =
     (if \<not> in_theory_queue (ths s) ! t
      then s\<lparr>ths := (ths s)\<lparr>in_theory_queue := (in_theory_queue (ths s))[t := True],
                             theory_queue := theory_queue (ths s) @ [t]\<rparr>\<rparr>
      else s)"

definition enqueueTheory :: "'h theory_ops \<Rightarrow> nat \<Rightarrow> Lit \<Rightarrow> 'h solver \<Rightarrow> 'h solver" where
  "enqueueTheory T t p s = th_enqueue T t (getTheoryLit s p) s"

text \<open>The step that ends every enqueue: a theory literal is passed to its theory.\<close>

definition notify_theory :: "'h theory_ops \<Rightarrow> Lit \<Rightarrow> 'h solver \<Rightarrow> 'h solver" where
  "notify_theory T p s =
     (if hasTheory s (var p)
      then let t = getTheoryID s (var p) in enqueueTheory T t p (needsPropagation t s)
      else s)"

definition newReasonMarker :: "nat \<Rightarrow> 'h solver \<Rightarrow> CRef \<times> 'h solver" where
  "newReasonMarker t s =
     (case makeMarkerReference (ca s) of (cr, ca') \<Rightarrow>
        let n = unat (CRef_Undef - cr - 1);
            mt = marker_theory (ths s) @ replicate (n + 1 - length (marker_theory (ths s))) (- 1)
        in (cr, s\<lparr>ca := ca', ths := (ths s)\<lparr>markers := markers (ths s) @ [cr],
                  marker_theory := (if t < n_theories (ths s) then mt[n := int t] else mt)\<rparr>\<rparr>))"

text \<open>\<^verbatim>\<open>setTheoryVar\<close>; \<open>None\<close> is the abort for a variable that has a theory already.\<close>

definition setTheoryVar :: "Var \<Rightarrow> nat \<Rightarrow> Var \<Rightarrow> 'h solver \<Rightarrow> 'h solver option" where
  "setTheoryVar v t tv s =
     (if v = var (const_true s) then Some s
      else if hasTheory s v then None
      else Some (s\<lparr>theory_vars := (theory_vars s)[vix v := \<lparr>td_theory = t + 1, td_theory_var = tv\<rparr>],
                   initialPropagate := True\<rparr>))"

section \<open>Enqueuing\<close>

definition uncheckedEnqueue :: "'h theory_ops \<Rightarrow> Lit \<Rightarrow> CRef \<Rightarrow> 'h solver \<Rightarrow> 'h solver" where
  "uncheckedEnqueue T p from s =
     notify_theory T p
       (s\<lparr>assigns := (assigns s)[vix (var p) := lbool_of_bool (\<not> sign p)],
          vardata := (vardata s)[vix (var p) := \<lparr>vreason = from, vlevel = decisionLevel s\<rparr>],
          trail := trail s @ [p]\<rparr>)"

definition enqueue :: "'h theory_ops \<Rightarrow> Lit \<Rightarrow> CRef \<Rightarrow> 'h solver \<Rightarrow> bool \<times> 'h solver" where
  "enqueue T p from s =
     (if \<not> isU s p then (\<not> isF s p, s) else (True, uncheckedEnqueue T p from s))"

definition enqueueLazy :: "'h theory_ops \<Rightarrow> Lit \<Rightarrow> nat \<Rightarrow> CRef \<Rightarrow> 'h solver \<Rightarrow> 'h solver" where
  "enqueueLazy T p lev from s =
     (if isT s p \<and> lev < level s (var p)
      then s\<lparr>vardata := (vardata s)[vix (var p) := \<lparr>vreason = from, vlevel = lev\<rparr>]\<rparr>
      else if isU s p \<and> lev < decisionLevel s
      then notify_theory T p
        (s\<lparr>assigns := (assigns s)[vix (var p) := lbool_of_bool (\<not> sign p)],
           vardata := (vardata s)[vix (var p) := \<lparr>vreason = from, vlevel = lev\<rparr>],
           trail := trail s @ [p]\<rparr>)
      else if isU s p then uncheckedEnqueue T p from s
      else s)"

text \<open>\<^verbatim>\<open>instantiateLazyDecision\<close>; \<open>None\<close> is the exit when the level's decision is not the placeholder.\<close>

definition instantiateLazyDecision ::
  "'h theory_ops \<Rightarrow> Lit \<Rightarrow> Lit \<Rightarrow> nat \<Rightarrow> CRef \<Rightarrow> 'h solver \<Rightarrow> 'h solver option" where
  "instantiateLazyDecision T theoryDecision p atLevel r s =
     (let s1 = s\<lparr>assigns := (assigns s)[vix (var p) := lbool_of_bool (\<not> sign p)],
                 vardata := (vardata s)[vix (var p) := \<lparr>vreason = r, vlevel = atLevel\<rparr>]\<rparr>;
          trail_pos = trail_lim s1 ! (atLevel - 1);
          curDec = trail s1 ! trail_pos
      in if curDec = p then Some s1
         else if curDec \<noteq> theoryDecision then None
         else Some (notify_theory T p (s1\<lparr>trail := (trail s1)[trail_pos := p]\<rparr>)))"

section \<open>Backtracking\<close>

fun backtrack_theories :: "'h theory_ops \<Rightarrow> bool \<Rightarrow> nat \<Rightarrow> nat \<Rightarrow> nat \<Rightarrow> 'h \<Rightarrow> 'h" where
  "backtrack_theories T lazily lev i 0 h = h"
| "backtrack_theories T lazily lev i (Suc k) h =
     backtrack_theories T lazily lev (Suc i) k
       (if lazily \<and> th_lazy T i then h else th_backtrackUntil T i lev h)"

definition undecide :: "'h theory_ops \<Rightarrow> Lit \<Rightarrow> 'h solver \<Rightarrow> 'h solver" where
  "undecide T p s =
     (if hasTheory s (var p)
      then s\<lparr>ths := (ths s)\<lparr>tstate :=
             th_undecide T (getTheoryID s (var p)) (getTheoryLit s p) (tstate (ths s))\<rparr>\<rparr>
      else s)"

text \<open>The body of the loop for a literal above the target level; \<open>c\<close> is its trail position.\<close>

definition unassign :: "'h theory_ops \<Rightarrow> nat \<Rightarrow> Lit \<Rightarrow> 'h solver \<Rightarrow> 'h solver" where
  "unassign T c p s =
     (let x = var p;
          s1 = undecide T p s;
          s2 = s1\<lparr>assigns := (assigns s1)[vix x := l_Undef]\<rparr>;
          s3 = (if 1 < phase_saving (opts s2) \<or> (phase_saving (opts s2) = 1 \<and> last (trail_lim s2) < c)
                then s2\<lparr>polarity := (polarity s2)[vix x := sign p]\<rparr> else s2)
      in insertVarOrder x s3)"

text \<open>\<open>k\<close> positions above \<open>base\<close> are left; \<open>re\<close> is \<^verbatim>\<open>to_reenqueue\<close>.\<close>

fun cancel_loop ::
  "'h theory_ops \<Rightarrow> nat \<Rightarrow> nat \<Rightarrow> nat \<Rightarrow> Lit list \<Rightarrow> 'h solver \<Rightarrow> Lit list \<times> 'h solver" where
  "cancel_loop T lev base 0 re s = (re, s)"
| "cancel_loop T lev base (Suc k) re s =
     (let p = trail s ! (base + k)
      in if level s (var p) \<le> lev then cancel_loop T lev base k (re @ [p]) s
         else cancel_loop T lev base k re (unassign T (base + k) p s))"

fun clear_in_queue :: "nat list \<Rightarrow> bool list \<Rightarrow> bool list" where
  "clear_in_queue [] q = q"
| "clear_in_queue (i # is) q = clear_in_queue is (q[i := False])"

text \<open>The literals that stay are popped from the back of \<^verbatim>\<open>to_reenqueue\<close>: \<open>ps\<close> is that vector reversed.\<close>

fun reenqueue_loop :: "'h theory_ops \<Rightarrow> Lit list \<Rightarrow> 'h solver \<Rightarrow> 'h solver" where
  "reenqueue_loop T [] s = s"
| "reenqueue_loop T (p # ps) s = reenqueue_loop T ps (notify_theory T p (s\<lparr>trail := trail s @ [p]\<rparr>))"

fun restore_deciders :: "'h theory_ops \<Rightarrow> nat \<Rightarrow> (nat \<times> nat) list \<Rightarrow> 'h theories \<Rightarrow> 'h theories" where
  "restore_deciders T lev [] t = t\<lparr>theory_decision_trail := []\<rparr>"
| "restore_deciders T lev ((i, l) # ds) t =
     (if lev \<le> l
      then restore_deciders T lev ds
             (case heap_insert (theoryOrderLt T (tstate t)) i (theory_order_heap t) of
                None \<Rightarrow> t
              | Some h \<Rightarrow> t\<lparr>theory_order_heap := h\<rparr>)
      else t\<lparr>theory_decision_trail := rev ((i, l) # ds)\<rparr>)"

definition cancelUntil :: "'h theory_ops \<Rightarrow> nat \<Rightarrow> 'h solver \<Rightarrow> 'h solver" where
  "cancelUntil T lev s =
     (if lev < decisionLevel s then
        let s1 = s\<lparr>ths := (ths s)\<lparr>tstate := backtrack_theories T (opt_lazy_backtrack (opts s)) lev 0
                     (n_theories (ths s)) (tstate (ths s))\<rparr>\<rparr>;
            base = trail_lim s1 ! lev;
            (re, s2) = cancel_loop T lev base (length (trail s1) - base) [] s1;
            s3 = s2\<lparr>qhead := base, trail := take base (trail s2), trail_lim := take lev (trail_lim s2)\<rparr>;
            s4 = (if decisionLevel s3 < track_min_level s3
                  then s3\<lparr>track_min_level := decisionLevel s3\<rparr> else s3);
            s5 = s4\<lparr>ths := (ths s4)\<lparr>in_theory_queue := clear_in_queue (theory_queue (ths s4)) (in_theory_queue (ths s4)),
                                    theory_queue := []\<rparr>\<rparr>;
            s6 = reenqueue_loop T (rev re) s5
        in s6\<lparr>ths := restore_deciders T (decisionLevel s6) (rev (theory_decision_trail (ths s6))) (ths s6)\<rparr>
      else s)"

section \<open>Variables\<close>

definition push_var :: "'h solver \<Rightarrow> 'h solver" where
  "push_var s =
     s\<lparr>assigns := assigns s @ [l_Undef], vardata := vardata s @ [\<lparr>vreason = 0, vlevel = 0\<rparr>],
       priority := priority s @ [0], theory_vars := theory_vars s @ [\<lparr>td_theory = 0, td_theory_var = 0\<rparr>],
       activity := activity s @ [0], seen := seen s @ [False], polarity := polarity s @ [False],
       decision := decision s @ [False]\<rparr>"

definition init_watches :: "Var \<Rightarrow> watcher occlists \<Rightarrow> watcher occlists" where
  "init_watches v w = occ_init (lix (mkLit v True)) (occ_init (lix (mkLit v False)) w)"

definition pick_var :: "'h solver \<Rightarrow> Var \<times> 'h solver" where
  "pick_var s =
     (if free_vars s \<noteq> [] then (last (free_vars s), s\<lparr>free_vars := butlast (free_vars s)\<rparr>)
      else (int (nVars s), push_var s))"

definition outside_decisions :: "'h solver \<Rightarrow> Var \<Rightarrow> bool" where
  "outside_decisions s v \<longleftrightarrow> (0 < max_decision_var s \<and> max_decision_var s < v) \<or> v < min_decision_var s"

definition initial_activity :: "'h solver \<Rightarrow> real \<times> nat" where
  "initial_activity s =
     (if rnd_init_act (opts s) then case drand (random_seed s) of (d, r) \<Rightarrow> (d / 100000, r)
      else (0, random_seed s))"

definition initial_polarity :: "'h solver \<Rightarrow> bool \<Rightarrow> nat \<Rightarrow> bool \<times> nat" where
  "initial_polarity s sgn1 seed =
     (if opt_init_rnd_phase (opts s) then case irand seed 1 of (i, r) \<Rightarrow> (i \<noteq> 0, r) else (sgn1, seed))"

definition reset_var :: "Var \<Rightarrow> real \<Rightarrow> bool \<Rightarrow> nat \<Rightarrow> 'h solver \<Rightarrow> 'h solver" where
  "reset_var v a pol seed s =
     s\<lparr>watches := init_watches v (watches s),
       assigns := (assigns s)[vix v := l_Undef],
       vardata := (vardata s)[vix v := \<lparr>vreason = CRef_Undef, vlevel = 0\<rparr>],
       priority := (priority s)[vix v := (if outside_decisions s v then 1 else 0)],
       theory_vars := (theory_vars s)[vix v := \<lparr>td_theory = 0, td_theory_var = 0\<rparr>],
       activity := (activity s)[vix v := a], seen := (seen s)[vix v := False],
       polarity := (polarity s)[vix v := pol], random_seed := seed\<rparr>"

definition newVar :: "bool \<Rightarrow> bool \<Rightarrow> 'h solver \<Rightarrow> Var \<times> 'h solver" where
  "newVar sgn1 dvar s =
     (let (v, s1) = pick_var s;
          (a, seed1) = initial_activity s1;
          (pol, seed2) = initial_polarity s1 sgn1 seed1
      in (v, setDecisionVar v (dvar \<and> \<not> outside_decisions s1 v) (reset_var v a pol seed2 s1)))"

section \<open>Clauses\<close>

text \<open>Allocation: out of memory, and a capacity loop that does not end, are \<open>None\<close>.\<close>

definition alloc_clause :: "Lit list \<Rightarrow> bool \<Rightarrow> 'h solver \<Rightarrow> (CRef \<times> 'h solver) option" where
  "alloc_clause ps lrnt s =
     (case ca_alloc ps lrnt (ca s) of
        Some (Inr (cr, ca')) \<Rightarrow> Some (cr, s\<lparr>ca := ca'\<rparr>)
      | _ \<Rightarrow> None)"

definition add_literals :: "clause \<Rightarrow> int \<Rightarrow> 'h solver \<Rightarrow> 'h solver" where
  "add_literals c d s =
     (if learnt c then s\<lparr>stats := (stats s)\<lparr>learnts_literals := learnts_literals (stats s) + d\<rparr>\<rparr>
      else s\<lparr>stats := (stats s)\<lparr>clauses_literals := clauses_literals (stats s) + d\<rparr>\<rparr>)"

definition attachClause :: "CRef \<Rightarrow> 'h solver \<Rightarrow> 'h solver" where
  "attachClause cr s =
     (let c = clause_at s cr; c0 = lits c ! 0; c1 = lits c ! 1
      in add_literals c (int (clause_size c))
           (s\<lparr>watches := occ_push (lix (neg c1)) \<lparr>cref = cr, blocker = c0\<rparr>
                (occ_push (lix (neg c0)) \<lparr>cref = cr, blocker = c1\<rparr> (watches s))\<rparr>))"

text \<open>Strict detaching removes the first watcher with that reference; watchers compare by reference only.
  \<open>None\<close> is the failed assertion when there is none.\<close>

fun remove_watcher :: "CRef \<Rightarrow> watcher list \<Rightarrow> watcher list option" where
  "remove_watcher cr [] = None"
| "remove_watcher cr (w # ws) =
     (if cref w = cr then Some ws else map_option ((#) w) (remove_watcher cr ws))"

definition strict_detach :: "CRef \<Rightarrow> Lit \<Rightarrow> watcher occlists \<Rightarrow> watcher occlists option" where
  "strict_detach cr p w =
     map_option (\<lambda>ws. w\<lparr>occs := (occs w)[lix p := ws]\<rparr>) (remove_watcher cr (occs w ! lix p))"

definition detachClause :: "CRef \<Rightarrow> bool \<Rightarrow> 'h solver \<Rightarrow> 'h solver option" where
  "detachClause cr strict s =
     (let c = clause_at s cr; n0 = neg (lits c ! 0); n1 = neg (lits c ! 1)
      in map_option (\<lambda>w. add_literals c (- int (clause_size c)) (s\<lparr>watches := w\<rparr>))
           (if strict then Option.bind (strict_detach cr n0 (watches s)) (strict_detach cr n1)
            else Some (smudge (lix n1) (smudge (lix n0) (watches s)))))"

definition removeClause :: "CRef \<Rightarrow> 'h solver \<Rightarrow> 'h solver" where
  "removeClause cr s =
     (let s1 = the (detachClause cr False s);
          x = var (lits (clause_at s1 cr) ! 0);
          s2 = (if locked s1 cr
                then s1\<lparr>vardata := (vardata s1)[vix x := (vardata s1 ! vix x)\<lparr>vreason := CRef_Undef\<rparr>]\<rparr>
                else s1)
      in s2\<lparr>ca := ca_free cr (ca_modify cr (set_mark 1) (ca s2))\<rparr>)"

definition watcher_deleted :: "allocator \<Rightarrow> watcher \<Rightarrow> bool" where
  "watcher_deleted a w \<longleftrightarrow> cmark (ca_get a (cref w)) = 1"

definition watches_cleanAll :: "'h solver \<Rightarrow> 'h solver" where
  "watches_cleanAll s = s\<lparr>watches := occ_cleanAll (watcher_deleted (ca s)) (watches s)\<rparr>"

fun remove_satisfied_loop :: "CRef list \<Rightarrow> 'h solver \<Rightarrow> CRef list \<times> 'h solver" where
  "remove_satisfied_loop [] s = ([], s)"
| "remove_satisfied_loop (cr # crs) s =
     (if satisfied s (clause_at s cr) then remove_satisfied_loop crs (removeClause cr s)
      else case remove_satisfied_loop crs s of (kept, s') \<Rightarrow> (cr # kept, s'))"

definition rebuildOrderHeap :: "'h solver \<Rightarrow> 'h solver option" where
  "rebuildOrderHeap s =
     map_option (\<lambda>h. s\<lparr>order_heap := h\<rparr>)
       (heap_build (varOrderLt (activity s) (priority s))
          (filter (\<lambda>v. decision s ! v \<and> lb_eq (value_var s (int v)) l_Undef) [0 ..< nVars s]) (order_heap s))"

end
