(* ===== verification/Solver_Propagate.thy ===== *)
theory Solver_Propagate
  imports Solver_Ops
begin

text \<open>
  Propagation in \<^verbatim>\<open>core/Solver.cc\<close>: the two-watched-literal loop of \<^verbatim>\<open>propagate\<close>, the rounds of the theory
  solvers, and the ways clauses enter the solver: \<^verbatim>\<open>addConflictClause\<close>, \<^verbatim>\<open>addDelayedClauses\<close>,
  \<^verbatim>\<open>attachReasonClause\<close>, \<^verbatim>\<open>addClauseSafely\<close> and \<^verbatim>\<open>addClause_\<close>.
\<close>

section \<open>Normalising a clause\<close>

text \<open>The loop shared by the ways of adding a clause, over the sorted literals: \<open>None\<close> when a literal is
  already true or the clause is a tautology, otherwise the clause without its false and repeated
  literals.  \<open>p\<close> is the last literal kept.\<close>

fun norm_loop :: "(Lit \<Rightarrow> bool) \<Rightarrow> (Lit \<Rightarrow> bool) \<Rightarrow> Lit \<Rightarrow> Lit list \<Rightarrow> Lit list option" where
  "norm_loop tt ff p [] = Some []"
| "norm_loop tt ff p (q # qs) =
     (if tt q \<or> q = neg p then None
      else if \<not> ff q \<and> q \<noteq> p then map_option ((#) q) (norm_loop tt ff q qs)
      else norm_loop tt ff p qs)"

definition root_true :: "'h solver \<Rightarrow> Lit \<Rightarrow> bool" where
  "root_true s l \<longleftrightarrow> isT s l \<and> level s (var l) = 0"

definition root_false :: "'h solver \<Rightarrow> Lit \<Rightarrow> bool" where
  "root_false s l \<longleftrightarrow> isF s l \<and> level s (var l) = 0"

text \<open>What the scan over a clause collects.\<close>

record scan =
  nfalse :: nat
  max_lev :: nat
  some_true :: bool
  notFalsePos1 :: "nat option"
  notFalsePos2 :: "nat option"

definition scan_step :: "'h solver \<Rightarrow> nat \<Rightarrow> Lit \<Rightarrow> scan \<Rightarrow> scan" where
  "scan_step s j l r =
     (let r1 = (if isF s l then r\<lparr>nfalse := nfalse r + 1\<rparr>
                else let r' = (if isT s l then r\<lparr>some_true := True\<rparr> else r)
                     in if notFalsePos1 r' = None then r'\<lparr>notFalsePos1 := Some j\<rparr>
                        else if notFalsePos2 r' = None then r'\<lparr>notFalsePos2 := Some j\<rparr> else r')
      in if \<not> isU s l \<and> max_lev r1 < level s (var l) then r1\<lparr>max_lev := level s (var l)\<rparr> else r1)"

fun scan_loop :: "'h solver \<Rightarrow> nat \<Rightarrow> Lit list \<Rightarrow> scan \<Rightarrow> scan" where
  "scan_loop s j [] r = r"
| "scan_loop s j (l # ls) r = scan_loop s (Suc j) ls (scan_step s j l r)"

definition scan_clause :: "'h solver \<Rightarrow> Lit list \<Rightarrow> scan" where
  "scan_clause s ps =
     scan_loop s 0 ps \<lparr>nfalse = 0, max_lev = 0, some_true = False, notFalsePos1 = None, notFalsePos2 = None\<rparr>"

text \<open>Literals that are not false are moved to the two watched positions.\<close>

definition pick_watches :: "nat option \<Rightarrow> nat option \<Rightarrow> Lit list \<Rightarrow> Lit list" where
  "pick_watches p1 p2 ps =
     (case p1 of
        None \<Rightarrow> ps
      | Some i \<Rightarrow>
          case p2 of
            None \<Rightarrow> swap_at 0 i ps
          | Some j \<Rightarrow> if i = 1 then swap_at 0 j ps else swap_at 1 j (swap_at 0 i ps))"

section \<open>Adding clauses during search\<close>

definition adjust_learnts :: "'h solver \<Rightarrow> 'h solver" where
  "adjust_learnts s =
     (let n = learntsize_adjust_cnt s - 1
      in if n \<le> 0
         then let a = learntsize_adjust_confl s * learntsize_adjust_inc (opts s)
              in s\<lparr>learntsize_adjust_confl := a, learntsize_adjust_cnt := \<lfloor>a\<rfloor>,
                   max_learnts := max_learnts s * learntsize_inc (opts s)\<rparr>
         else s\<lparr>learntsize_adjust_cnt := n\<rparr>)"

text \<open>The temporary clause is reused: grow to its allocated size, overwrite, shrink.\<close>

definition refill :: "Lit list \<Rightarrow> nat \<Rightarrow> clause \<Rightarrow> clause" where
  "refill ps n c =
     (let g = clause_grow (replicate (n - clause_size c) lit_Undef) c;
          w = g\<lparr>lits := ps @ drop (length ps) (lits g)\<rparr>
      in clause_shrink (clause_size w - length ps) w)"

definition store_temporary :: "Lit list \<Rightarrow> 'h solver \<Rightarrow> (CRef \<times> 'h solver) option" where
  "store_temporary ps s =
     (if tmp_clause s = CRef_Undef \<or> tmp_clause_sz s < length ps
      then let s1 = (if tmp_clause s = CRef_Undef then s
                     else s\<lparr>ca := ca_free (tmp_clause s) (ca_modify (tmp_clause s) (set_mark 1) (ca s))\<rparr>)
           in map_option (\<lambda>(cr, s2). (cr, s2\<lparr>tmp_clause := cr, tmp_clause_sz := length ps\<rparr>)) (alloc_clause ps False s1)
      else Some (tmp_clause s, s\<lparr>ca := ca_modify (tmp_clause s) (refill ps (tmp_clause_sz s)) (ca s)\<rparr>))"

definition store_conflict :: "Lit list \<Rightarrow> bool \<Rightarrow> 'h solver \<Rightarrow> (CRef \<times> 'h solver) option" where
  "store_conflict ps permanent s =
     (let keep = (permanent \<or> opt_permanent_theory_conflicts (opts s))
      in map_option (\<lambda>(cr, s1).
           let s2 = s1\<lparr>ca := ca_modify cr (setDerived True) (ca s1)\<rparr>;
               s3 = (if keep then s2\<lparr>clauses := clauses s2 @ [cr]\<rparr>
                     else adjust_learnts (s2\<lparr>learnts := learnts s2 @ [cr]\<rparr>))
           in (cr, attachClause cr s3)) (alloc_clause ps (\<not> keep) s))"

text \<open>The result is the code's return value, \<^verbatim>\<open>confl_out\<close> and the state; \<open>confl_in\<close> is \<^verbatim>\<open>confl_out\<close> at the
  call, which the early return leaves alone.\<close>

definition addConflictClause ::
  "'h theory_ops \<Rightarrow> bool \<Rightarrow> CRef \<Rightarrow> Lit list \<Rightarrow> 'h solver \<Rightarrow> (bool \<times> CRef \<times> 'h solver) option" where
  "addConflictClause T permanent confl_in ps0 s =
     do {
       sorted \<leftarrow> sort_array lit_less ps0;
       case norm_loop (root_true s) (root_false s) lit_Undef sorted of
         None \<Rightarrow> Some (True, confl_in, s)
       | Some ps \<Rightarrow>
           if length ps = 0 then Some (False, CRef_Undef, cancelUntil T 0 (s\<lparr>ok := False\<rparr>))
           else if length ps = 1
           then let (b, s1) = enqueue T (ps ! 0) CRef_Undef (cancelUntil T 0 s)
                in if b then Some (True, CRef_Undef, s1) else Some (False, CRef_Undef, s1\<lparr>ok := False\<rparr>)
           else
             let r = scan_clause s ps; conflicting = (notFalsePos1 r = None);
                 ps1 = pick_watches (notFalsePos1 r) (notFalsePos2 r) ps
             in do {
               (cr, s1) \<leftarrow> (if \<not> permanent \<and> opt_temporary_theory_conflicts (opts s) < length ps1
                             then store_temporary ps1 s else store_conflict ps1 permanent s);
               let s2 = (if \<not> some_true r \<and> nfalse r = length ps1 - 1
                         then let s' = cancelUntil T (max_lev r) s1
                              in if isU s' (ps1 ! 0) then uncheckedEnqueue T (ps1 ! 0) cr s' else s'
                         else s1);
               Some (\<not> conflicting, if conflicting then cr else CRef_Undef, s2)
             }
     }"

text \<open>The delayed clauses are taken from the back of \<^verbatim>\<open>clauses_to_add\<close>; \<open>n\<close> is how many there are.\<close>

fun delayed_loop :: "'h theory_ops \<Rightarrow> nat \<Rightarrow> CRef \<Rightarrow> 'h solver \<Rightarrow> (bool \<times> CRef \<times> 'h solver) option" where
  "delayed_loop T 0 confl s = Some (True, confl, s)"
| "delayed_loop T (Suc n) confl s =
     (if clauses_to_add s \<noteq> [] \<and> ok s
      then do {
        (b, confl', s1) \<leftarrow> addConflictClause T True confl (last (clauses_to_add s)) s;
        let s2 = s1\<lparr>clauses_to_add := butlast (clauses_to_add s1)\<rparr>;
        if b then delayed_loop T n confl' s2 else Some (False, confl', s2)
      }
      else Some (True, confl, s))"

definition addDelayedClauses :: "'h theory_ops \<Rightarrow> 'h solver \<Rightarrow> (bool \<times> CRef \<times> 'h solver) option" where
  "addDelayedClauses T s = delayed_loop T (length (clauses_to_add s)) CRef_Undef s"

text \<open>\<^verbatim>\<open>attachReasonClause\<close>: when every literal is false, as is usual for a reason, the first one is treated
  as the literal that is not.\<close>

definition attachReasonClause :: "'h theory_ops \<Rightarrow> Lit list \<Rightarrow> 'h solver \<Rightarrow> (CRef \<times> 'h solver) option" where
  "attachReasonClause T ps0 s =
     (case norm_loop (root_true s) (root_false s) lit_Undef ps0 of
        None \<Rightarrow> Some (CRef_Undef, s)
      | Some ps \<Rightarrow>
          if length ps = 0 then Some (CRef_Undef, s\<lparr>ok := False\<rparr>)
          else if length ps = 1 then Some (CRef_Undef, enqueueLazy T (ps ! 0) 0 CRef_Undef s)
          else let r = scan_clause s ps;
                   p1 = (case notFalsePos1 r of None \<Rightarrow> Some 0 | Some i \<Rightarrow> Some i);
                   ps1 = pick_watches p1 (notFalsePos2 r) ps
               in map_option (\<lambda>(cr, s1).
                    let s2 = s1\<lparr>ca := ca_modify cr (setDerived True) (ca s1), clauses := clauses s1 @ [cr]\<rparr>
                    in (cr, enqueueLazy T (ps1 ! 0) (max_lev r) cr (attachClause cr s2))) (alloc_clause ps1 False s))"

section \<open>Unit propagation\<close>

function find_watch :: "'h solver \<Rightarrow> Lit list \<Rightarrow> nat \<Rightarrow> nat option" where
  "find_watch s c k =
     (if k < length c then if \<not> isF s (c ! k) then Some k else find_watch s c (Suc k) else None)"
  by pat_completeness auto
termination by (relation "measure (\<lambda>(s, c, k). length c - k)") auto

declare find_watch.simps [simp del]

definition set_lits :: "CRef \<Rightarrow> Lit list \<Rightarrow> 'h solver \<Rightarrow> 'h solver" where
  "set_lits cr ls s = s\<lparr>ca := ca_modify cr (\<lambda>c. c\<lparr>lits := ls\<rparr>) (ca s)\<rparr>"

text \<open>\<^verbatim>\<open>if (c[0] == false_lit) c[0] = c[1], c[1] = false_lit;\<close>\<close>

definition order_watches :: "CRef \<Rightarrow> Lit \<Rightarrow> 'h solver \<Rightarrow> 'h solver" where
  "order_watches cr false_lit s =
     (let c = lits (clause_at s cr)
      in if c ! 0 = false_lit then set_lits cr (c[0 := c ! 1, 1 := false_lit]) s else s)"

definition move_watch :: "CRef \<Rightarrow> nat \<Rightarrow> Lit \<Rightarrow> watcher \<Rightarrow> 'h solver \<Rightarrow> 'h solver" where
  "move_watch cr k false_lit w s =
     (let c = lits (clause_at s cr); c' = c[1 := c ! k, k := false_lit];
          s1 = set_lits cr c' s
      in s1\<lparr>watches := occ_push (lix (neg (c' ! 1))) w (watches s1)\<rparr>)"

text \<open>The loop over the watchers of \<open>p\<close>: \<open>kept\<close> is the part below \<^verbatim>\<open>j\<close>, the list argument the part from
  \<^verbatim>\<open>i\<close> on.  The result is the new list, the conflicting clause or \<^verbatim>\<open>CRef_Undef\<close>, and the state.\<close>

fun watch_loop ::
  "'h theory_ops \<Rightarrow> Lit \<Rightarrow> watcher list \<Rightarrow> watcher list \<Rightarrow> 'h solver \<Rightarrow> watcher list \<times> CRef \<times> 'h solver" where
  "watch_loop T p [] kept s = (kept, CRef_Undef, s)"
| "watch_loop T p (w # ws) kept s =
     (if isT s (blocker w) then watch_loop T p ws (kept @ [w]) s
      else
        let cr = cref w;
            s1 = order_watches cr (neg p) s;
            c = lits (clause_at s1 cr);
            first = c ! 0;
            w' = \<lparr>cref = cr, blocker = first\<rparr>
        in if first \<noteq> blocker w \<and> isT s1 first then watch_loop T p ws (kept @ [w']) s1
           else case find_watch s1 c 2 of
             Some k \<Rightarrow> watch_loop T p ws kept (move_watch cr k (neg p) w' s1)
           | None \<Rightarrow>
               if isF s1 first then (kept @ w' # ws, cr, s1\<lparr>qhead := length (trail s1)\<rparr>)
               else watch_loop T p ws (kept @ [w']) (uncheckedEnqueue T first cr s1))"

definition set_watch_list :: "Lit \<Rightarrow> watcher list \<Rightarrow> 'h solver \<Rightarrow> 'h solver" where
  "set_watch_list p ws s = s\<lparr>watches := (watches s)\<lparr>occs := (occs (watches s))[lix p := ws]\<rparr>\<rparr>"

definition propagate_lit :: "'h theory_ops \<Rightarrow> 'h solver \<Rightarrow> CRef \<times> 'h solver" where
  "propagate_lit T s =
     (let p = trail s ! qhead s;
          (kept, confl, s1) = watch_loop T p (occs (watches s) ! lix p) [] (s\<lparr>qhead := qhead s + 1\<rparr>)
      in (confl, set_watch_list p kept s1))"

section \<open>Theory propagation and the whole procedure\<close>

text \<open>A round over the theory queue; \<open>Some cr\<close> when \<^verbatim>\<open>propagate\<close> returns \<open>cr\<close> from inside it.  \<open>early\<close> is
  the round before a literal, the other one waits until the literals are propagated.\<close>

partial_function (option) theory_round ::
  "'h theory_ops \<Rightarrow> bool \<Rightarrow> 'h solver \<Rightarrow> (CRef option \<times> 'h solver) option" where
  "theory_round T early s =
     (if theory_queue (ths s) \<noteq> [] \<and>
         (early \<or> opt_early_theory_prop (opts s) \<or> qhead s = length (trail s))
      then let t = last (theory_queue (ths s));
               s1 = s\<lparr>ths := (ths s)\<lparr>theory_queue := butlast (theory_queue (ths s)),
                                      in_theory_queue := (in_theory_queue (ths s))[t := False]\<rparr>\<rparr>
           in do {
             r \<leftarrow> th_propagate T t s1;
             if fst r then theory_round T early (snd (snd r))
             else do {
               a \<leftarrow> addConflictClause T False CRef_Undef (fst (snd r)) (snd (snd r));
               if fst a then theory_round T early (snd (snd a))
               else let s2 = snd (snd a); s3 = s2\<lparr>qhead := length (trail s2)\<rparr>
                    in Some (Some (fst (snd a)), if early then s3 else s3\<lparr>theoryConflict := int t\<rparr>)
             }
           }
      else Some (None, s))"

text \<open>The inner loop: whether \<^verbatim>\<open>propagate\<close> returned from it, the conflict, the number of literals, the state.\<close>

partial_function (option) bcp ::
  "'h theory_ops \<Rightarrow> bool \<Rightarrow> CRef \<Rightarrow> nat \<Rightarrow> 'h solver \<Rightarrow> (bool \<times> CRef \<times> nat \<times> 'h solver) option" where
  "bcp T pt confl n s =
     (if qhead s < length (trail s)
      then do {
        r \<leftarrow> (if opt_early_theory_prop (opts s) \<and> pt \<and> confl = CRef_Undef then theory_round T True s
               else Some (None, s));
        case fst r of
          Some cr \<Rightarrow> Some (True, cr, n, snd r)
        | None \<Rightarrow>
            if qhead (snd r) < length (trail (snd r))
            then let x = propagate_lit T (snd r)
                 in bcp T pt (if fst x = CRef_Undef then confl else fst x) (n + 1) (snd x)
            else None
      }
      else Some (False, confl, n, s))"

fun notify_loop :: "'h theory_ops \<Rightarrow> Lit list \<Rightarrow> 'h solver \<Rightarrow> 'h solver" where
  "notify_loop T [] s = s"
| "notify_loop T (p # ps) s =
     notify_loop T ps (if hasTheory s (var p) then enqueueTheory T (getTheoryID s (var p)) p s else s)"

fun need_all :: "nat list \<Rightarrow> 'h solver \<Rightarrow> 'h solver" where
  "need_all [] s = s"
| "need_all (t # ts) s = need_all ts (needsPropagation t s)"

definition initial_theories :: "'h theory_ops \<Rightarrow> 'h solver \<Rightarrow> 'h solver" where
  "initial_theories T s =
     (if initialPropagate s \<and> decisionLevel s = 0
      then (need_all [0 ..< n_theories (ths s)] (notify_loop T (take (qhead s) (trail s)) s))\<lparr>initialPropagate := False\<rparr>
      else s)"

definition count_props :: "nat \<Rightarrow> 'h solver \<Rightarrow> 'h solver" where
  "count_props n s =
     s\<lparr>stats := (stats s)\<lparr>propagations := propagations (stats s) + n\<rparr>, simpDB_props := simpDB_props s - int n\<rparr>"

partial_function (option) propagate_loop ::
  "'h theory_ops \<Rightarrow> bool \<Rightarrow> nat \<Rightarrow> 'h solver \<Rightarrow> (CRef \<times> 'h solver) option" where
  "propagate_loop T pt n s =
     do {
       b \<leftarrow> bcp T pt CRef_Undef n s;
       if fst b then Some (fst (snd b), snd (snd (snd b)))
       else
         let confl = fst (snd b); n1 = fst (snd (snd b));
             s1 = (if pt then initial_theories T (snd (snd (snd b))) else snd (snd (snd b)))
         in do {
           r \<leftarrow> (if pt \<and> confl = CRef_Undef then theory_round T False s1 else Some (None, s1));
           case fst r of
             Some cr \<Rightarrow> Some (cr, snd r)
           | None \<Rightarrow>
               if qhead (snd r) < length (trail (snd r)) then propagate_loop T pt n1 (snd r)
               else Some (confl, count_props n1 (snd r))
         }
     }"

definition propagate :: "'h theory_ops \<Rightarrow> bool \<Rightarrow> 'h solver \<Rightarrow> (CRef \<times> 'h solver) option" where
  "propagate T pt s =
     (if qhead s = length (trail s) \<and> (\<not> initialPropagate s \<or> 0 < decisionLevel s) \<and>
         (\<not> pt \<or> theory_queue (ths s) = [])
      then Some (CRef_Undef, s)
      else let s1 = watches_cleanAll (s\<lparr>theoryConflict := - 1\<rparr>);
               s2 = (if decisionLevel s1 = 0 \<and> \<not> pt then s1\<lparr>initialPropagate := True\<rparr> else s1)
           in propagate_loop T pt 0 s2)"

section \<open>Adding clauses at the root\<close>

definition addClause_ok :: "'h theory_ops \<Rightarrow> bool \<Rightarrow> Lit list \<Rightarrow> 'h solver \<Rightarrow> (bool \<times> 'h solver) option" where
  "addClause_ok T is_derived ps0 s =
     (if \<not> ok s then Some (False, s)
      else let s1 = resetInitialPropagation s
      in do {
        sorted \<leftarrow> sort_array lit_less ps0;
        case norm_loop (isT s1) (isF s1) lit_Undef sorted of
          None \<Rightarrow> Some (True, s1)
        | Some ps \<Rightarrow>
            if length ps = 0 then Some (False, s1\<lparr>ok := False\<rparr>)
            else if length ps = 1
            then do {
              (confl, s2) \<leftarrow> propagate T False (uncheckedEnqueue T (ps ! 0) CRef_Undef s1);
              Some (confl = CRef_Undef, s2\<lparr>ok := (confl = CRef_Undef)\<rparr>)
            }
            else do {
              (cr, s2) \<leftarrow> alloc_clause ps False s1;
              let s3 = s2\<lparr>ca := ca_modify cr (setDerived is_derived) (ca s2), clauses := clauses s2 @ [cr]\<rparr>;
              Some (True, attachClause cr s3)
            }
      })"

definition addClause :: "'h theory_ops \<Rightarrow> Lit list \<Rightarrow> 'h solver \<Rightarrow> (bool \<times> 'h solver) option" where
  "addClause T ps s = addClause_ok T False ps (cancelUntil T 0 s)"

definition addEmptyClause :: "'h theory_ops \<Rightarrow> 'h solver \<Rightarrow> (bool \<times> 'h solver) option" where
  "addEmptyClause T s = addClause T [] s"

definition releaseVar :: "'h theory_ops \<Rightarrow> Lit \<Rightarrow> 'h solver \<Rightarrow> (bool \<times> 'h solver) option" where
  "releaseVar T l s =
     addClause T [l] (if isU s l \<and> \<not> hasTheory s (var l) then s\<lparr>released_vars := released_vars s @ [var l]\<rparr> else s)"

definition solver_True :: "'h theory_ops \<Rightarrow> 'h solver \<Rightarrow> (Lit \<times> 'h solver) option" where
  "solver_True T s =
     (if const_true s = lit_Undef
      then let (v, s1) = newVar False False s; l = mkLit v False; s2 = s1\<lparr>const_true := l\<rparr>
           in map_option (\<lambda>r. (l, snd r)) (addClause T [l] s2)
      else Some (const_true s, s))"

text \<open>\<^verbatim>\<open>addClauseSafely\<close>: above the root a clause that is unit under the assignment is attached and
  propagated now, any other waits in \<^verbatim>\<open>clauses_to_add\<close>.\<close>

definition addClauseSafely :: "'h theory_ops \<Rightarrow> Lit list \<Rightarrow> 'h solver \<Rightarrow> 'h solver option" where
  "addClauseSafely T ps0 s =
     (if decisionLevel s = 0 then map_option snd (addClause_ok T True ps0 s)
      else do {
        sorted \<leftarrow> sort_array lit_less ps0;
        case norm_loop (root_true s) (root_false s) lit_Undef sorted of
          None \<Rightarrow> Some s
        | Some ps \<Rightarrow>
            let false_count = length (filter (isF s) ps)
            in if int false_count = int (length ps) - 1
               then if length ps = 0 then Some (s\<lparr>ok := False\<rparr>)
                    else if length ps = 1 then Some (enqueueLazy T (ps ! 0) 0 CRef_Undef s)
                    else let r = scan_clause s ps;
                             ps1 = pick_watches (notFalsePos1 r) (notFalsePos2 r) ps
                         in map_option (\<lambda>(cr, s1).
                              let s2 = s1\<lparr>ca := ca_modify cr (setDerived True) (ca s1), clauses := clauses s1 @ [cr]\<rparr>
                              in enqueueLazy T (ps1 ! 0) (max_lev r) cr (attachClause cr s2)) (alloc_clause ps1 False s)
               else Some (s\<lparr>clauses_to_add := clauses_to_add s @ [ps]\<rparr>)
      })"

end
