(* ===== verification/Watches.thy ===== *)
theory Watches
  imports Solver_State
begin

text \<open>
  The invariant of the two-watched-literal scheme, over the attached clauses \<open>A\<close>, their literals \<open>L\<close> and
  the watcher lists \<open>W\<close> as functions: the watcher lists hold exactly one watcher for each of the first
  two literals of every attached clause, and every blocker is a literal of its clause.
\<close>

definition clauses_ok :: "nat \<Rightarrow> CRef set \<Rightarrow> (CRef \<Rightarrow> Lit list) \<Rightarrow> bool" where
  "clauses_ok n A L \<longleftrightarrow>
     (\<forall>cr \<in> A. 2 \<le> length (L cr) \<and> distinct (L cr) \<and> (\<forall>l \<in> set (L cr). lit_ok n l))"

definition watched :: "Lit list \<Rightarrow> Lit \<Rightarrow> bool" where
  "watched c q \<longleftrightarrow> q = neg (c ! 0) \<or> q = neg (c ! 1)"

lemma watched_mem: "2 \<le> length c \<Longrightarrow> watched c p \<Longrightarrow> neg p \<in> set c"
  by (cases c; cases "tl c") (auto simp: watched_def)

definition winv :: "nat \<Rightarrow> CRef set \<Rightarrow> (CRef \<Rightarrow> Lit list) \<Rightarrow> (Lit \<Rightarrow> watcher list) \<Rightarrow> bool" where
  "winv n A L W \<longleftrightarrow>
     clauses_ok n A L \<and>
     (\<forall>q. lit_ok n q \<longrightarrow>
        distinct (map cref (W q)) \<and>
        (\<forall>w \<in> set (W q). cref w \<in> A \<and> blocker w \<in> set (L (cref w)) \<and> watched (L (cref w)) q) \<and>
        (\<forall>cr \<in> A. watched (L cr) q \<longrightarrow> cr \<in> cref ` set (W q)))"

lemma winvD:
  assumes "winv n A L W"
  shows "clauses_ok n A L"
    and "lit_ok n q \<Longrightarrow> distinct (map cref (W q))"
    and "lit_ok n q \<Longrightarrow> w \<in> set (W q) \<Longrightarrow> cref w \<in> A \<and> blocker w \<in> set (L (cref w)) \<and> watched (L (cref w)) q"
    and "lit_ok n q \<Longrightarrow> cr \<in> A \<Longrightarrow> watched (L cr) q \<Longrightarrow> cr \<in> cref ` set (W q)"
  using assms by (auto simp: winv_def)

lemma winv_cong:
  assumes "\<And>q. lit_ok n q \<Longrightarrow> W q = W' q" and "\<And>cr. cr \<in> A \<Longrightarrow> L cr = L' cr"
  shows "winv n A L W = winv n A L' W'"
proof -
  have "winv n A L' W'" if "winv n A L W" "\<And>q. lit_ok n q \<Longrightarrow> W q = W' q" "\<And>cr. cr \<in> A \<Longrightarrow> L cr = L' cr"
    for L L' W W'
    using that unfolding winv_def clauses_ok_def by (smt (verit))
  then show ?thesis using assms by metis
qed

text \<open>A clause may swap its two watches, and a watcher may get another blocker.\<close>

definition swap01 :: "Lit list \<Rightarrow> Lit list" where
  "swap01 c = c[0 := c ! 1, 1 := c ! 0]"

lemma swap01_props:
  assumes "2 \<le> length c"
  shows "swap01 c ! 0 = c ! 1" "swap01 c ! 1 = c ! 0" "mset (swap01 c) = mset c"
    "length (swap01 c) = length c" "watched (swap01 c) q = watched c q"
proof -
  obtain a b cs where c: "c = a # b # cs" using assms by (cases c; cases "tl c") auto
  show "swap01 c ! 0 = c ! 1" "swap01 c ! 1 = c ! 0" "mset (swap01 c) = mset c" "length (swap01 c) = length c"
    "watched (swap01 c) q = watched c q"
    by (auto simp: c swap01_def watched_def)
qed

lemma clauses_ok_upd:
  assumes "clauses_ok n A L" and "cr \<in> A \<Longrightarrow> mset c = mset (L cr)"
  shows "clauses_ok n A (L(cr := c))"
  using assms mset_eq_length [of c "L cr"] mset_eq_setD [of c "L cr"] mset_eq_imp_distinct_iff [of c "L cr"]
  by (auto simp: clauses_ok_def)

lemma winv_relit:
  assumes "winv n A L W" and "mset c = mset (L cr)" and "\<And>q. watched c q = watched (L cr) q"
  shows "winv n A (L(cr := c)) W"
proof -
  have "clauses_ok n A (L(cr := c))" using clauses_ok_upd winvD(1) assms(1,2) by blast
  moreover have "set c = set (L cr)" using assms(2) by (rule mset_eq_setD)
  ultimately show ?thesis using assms unfolding winv_def by (auto simp: fun_upd_apply)
qed

lemma winv_reblock:
  assumes "winv n A L (W(p := ks @ w # ws))" and "cref w' = cref w" and "blocker w' \<in> set (L (cref w))"
  shows "winv n A L (W(p := ks @ w' # ws))"
proof -
  have "cref ` set (ks @ w' # ws) = cref ` set (ks @ w # ws)" using assms(2) by simp
  moreover have "map cref (ks @ w' # ws) = map cref (ks @ w # ws)" using assms(2) by simp
  ultimately show ?thesis
    using assms unfolding winv_def fun_upd_apply
    by (smt (verit, best) Un_iff list.set_intros set_append set_ConsD)
qed

text \<open>The watch moves from position 1, where \<open>neg p\<close> is, to position \<open>k\<close>.\<close>

definition move_lits :: "Lit list \<Rightarrow> nat \<Rightarrow> Lit list" where
  "move_lits c k = c[1 := c ! k, k := c ! 1]"

lemma move_lits_props:
  assumes "2 \<le> k" "k < length c"
  shows "mset (move_lits c k) = mset c" "move_lits c k ! 0 = c ! 0" "move_lits c k ! 1 = c ! k"
    "length (move_lits c k) = length c"
proof -
  have "move_lits c k = swap_at 1 k c" using assms by (simp add: move_lits_def swap_at_def)
  then show "mset (move_lits c k) = mset c" using assms by simp
  show "move_lits c k ! 0 = c ! 0" "move_lits c k ! 1 = c ! k" "length (move_lits c k) = length c"
    using assms by (simp_all add: move_lits_def)
qed

lemma distinct_nth_neq: "distinct c \<Longrightarrow> i < length c \<Longrightarrow> j < length c \<Longrightarrow> i \<noteq> j \<Longrightarrow> c ! i \<noteq> c ! j"
  by (simp add: nth_eq_iff_index_eq)

lemma winv_move:
  assumes inv: "winv n A L (W(p := ks @ w # ws))" and p: "lit_ok n p" and c: "c = L (cref w)"
    and first: "c ! 1 = neg p" and k: "2 \<le> k" "k < length c" and cr': "cref w' = cref w" and b: "blocker w' \<in> set c"
  shows "winv n A (L(cref w := move_lits c k)) (W(p := ks @ ws, neg (c ! k) := W (neg (c ! k)) @ [w']))"
proof -
  let ?cr = "cref w" and ?q = "neg (c ! k)" and ?c = "move_lits c k"
  let ?W = "W(p := ks @ w # ws)" and ?L = "L(cref w := move_lits c k)"
  let ?W' = "W(p := ks @ ws, neg (c ! k) := W (neg (c ! k)) @ [w'])"
  have crA: "?cr \<in> A" using winvD(3) [OF inv p, of w] by simp
  have ok: "2 \<le> length c" "distinct c" "\<forall>l \<in> set c. lit_ok n l"
    using winvD(1) [OF inv] crA c by (auto simp: clauses_ok_def)
  note mv = move_lits_props [OF k]
  have ne: "c ! 0 \<noteq> c ! 1" "c ! 0 \<noteq> c ! k" "c ! 1 \<noteq> c ! k"
    by (rule distinct_nth_neq [OF ok(2)]; use ok(1) k in linarith)+
  have qok: "lit_ok n ?q" using ok(3) k by simp
  have qp: "?q \<noteq> p" using ne(3) first by (metis neg_neg)
  have fresh: "?cr \<notin> cref ` set (W ?q)"
  proof
    assume "?cr \<in> cref ` set (W ?q)"
    then obtain u where u: "u \<in> set (W ?q)" "cref u = ?cr" by auto
    then have "watched c ?q" using winvD(3) [OF inv qok, of u] qp c by simp
    then show False using ne by (auto simp: watched_def)
  qed
  have cl: "clauses_ok n A ?L" using clauses_ok_upd [OF winvD(1) [OF inv]] mv(1) c by simp
  have setc: "set ?c = set c" using mv(1) by (rule mset_eq_setD)
  have wd: "watched ?c r \<longleftrightarrow> r = neg (c ! 0) \<or> r = ?q" for r using mv by (simp add: watched_def)
  have wd0: "watched c r \<longleftrightarrow> r = neg (c ! 0) \<or> r = p" for r using first by (simp add: watched_def)
  have dist_p: "distinct (map cref (ks @ w # ws))" using winvD(2) [OF inv p] by simp
  show ?thesis
    unfolding winv_def
  proof (intro conjI allI impI ballI)
    show "clauses_ok n A ?L" by (rule cl)
    fix r assume r: "lit_ok n r"
    show "distinct (map cref (?W' r))"
      using winvD(2) [OF inv r] winvD(2) [OF inv qok] fresh qp dist_p cr' by auto
    show "cref u \<in> A" "blocker u \<in> set (?L (cref u))" "watched (?L (cref u)) r" if u: "u \<in> set (?W' r)" for u
    proof -
      have "cref u \<in> A \<and> blocker u \<in> set (?L (cref u)) \<and> watched (?L (cref u)) r"
      proof (cases "r = ?q \<and> u = w'")
        case True
        then show ?thesis using crA cr' b setc wd by simp
      next
        case False
        then have old: "u \<in> set (?W r)" using u qp by (auto split: if_splits)
        note m = winvD(3) [OF inv r old]
        show ?thesis
        proof (cases "cref u = ?cr")
          case True
          have "r \<noteq> ?q"
          proof
            assume "r = ?q"
            then have "u \<in> set (W ?q)" using False u by simp
            then have "cref u \<in> cref ` set (W ?q)" by (rule imageI)
            then show False using True fresh by simp
          qed
          moreover have "r \<noteq> p"
          proof
            assume "r = p"
            then have "u \<in> set (ks @ ws)" using u qp by simp
            then have "cref u \<in> cref ` set (ks @ ws)" by (rule imageI)
            then show False using dist_p True by (simp add: image_Un)
          qed
          ultimately show ?thesis using m True setc c wd wd0 by auto
        qed (use m in simp)
      qed
      then show "cref u \<in> A" "blocker u \<in> set (?L (cref u))" "watched (?L (cref u)) r" by auto
    qed
    show "cr \<in> cref ` set (?W' r)" if cr: "cr \<in> A" "watched (?L cr) r" for cr
    proof (cases "cr = ?cr")
      case True
      then have "r = neg (c ! 0) \<or> r = ?q" using cr wd by simp
      then show ?thesis
      proof
        assume "r = ?q" then show ?thesis using True cr' by simp
      next
        assume r0: "r = neg (c ! 0)"
        then have "r \<noteq> p" "r \<noteq> ?q" using ne first by (auto simp: neg_eq_iff)
        then show ?thesis using winvD(4) [OF inv r crA] wd0 c r0 True by simp
      qed
    next
      case False
      then have "cr \<in> cref ` set (?W r)" using winvD(4) [OF inv r cr(1)] cr(2) by simp
      then show ?thesis using False qp by (auto split: if_splits)
    qed
  qed
qed

lemma winv_watched_hd:
  assumes "winv n A L (W(p := ks @ w # ws))" and "lit_ok n p"
  shows "cref w \<in> A" "blocker w \<in> set (L (cref w))" "watched (L (cref w)) p"
    "2 \<le> length (L (cref w))" "distinct (L (cref w))" "\<forall>l \<in> set (L (cref w)). lit_ok n l"
  using winvD(1) [OF assms(1)] winvD(3) [OF assms(1,2), of w] by (auto simp: clauses_ok_def)

end
