(* ===== verification/BCP.thy ===== *)
theory BCP
  imports Solver_Propagate Watches
begin

text \<open>
  Correctness of unit propagation: the trail, watcher and reason invariants, their preservation by every
  step of the watcher loop, and completeness and soundness of \<^verbatim>\<open>propagate\<close> without theories.
\<close>

section \<open>Values and the trail\<close>

definition clits :: "'h solver \<Rightarrow> CRef \<Rightarrow> Lit list" where
  "clits s cr = lits (clause_at s cr)"

definition wlist :: "'h solver \<Rightarrow> Lit \<Rightarrow> watcher list" where
  "wlist s q = occs (watches s) ! lix q"

definition sat_clause :: "'h solver \<Rightarrow> CRef \<Rightarrow> bool" where
  "sat_clause s cr \<longleftrightarrow> (\<exists>l \<in> set (clits s cr). isT s l)"

text \<open>The assignment and the trail agree.\<close>

definition trail_ok :: "'h solver \<Rightarrow> bool" where
  "trail_ok s \<longleftrightarrow>
     length (assigns s) = nVars s \<and> distinct (map var (trail s)) \<and> (\<forall>p \<in> set (trail s). lit_ok (nVars s) p) \<and>
     (\<forall>p. lit_ok (nVars s) p \<longrightarrow>
        (isT s p \<longleftrightarrow> p \<in> set (trail s)) \<and> (isU s p \<longleftrightarrow> var p \<notin> var ` set (trail s)))"

lemma isT_alt: "isT s p \<longleftrightarrow> assigns s ! vix (var p) = lbool_of_bool (\<not> sign p)"
  by (simp add: isT_def lvalue_def lb_xor_True)

lemma isF_alt: "isF s p \<longleftrightarrow> assigns s ! vix (var p) = lbool_of_bool (sign p)"
  by (simp add: isF_def lvalue_def lb_xor_False)

lemma isU_alt: "isU s p \<longleftrightarrow> lb_eq (assigns s ! vix (var p)) l_Undef"
  by (simp add: isU_def lvalue_def lb_xor_Undef)

lemma isT_neg [simp]: "isT s (neg p) = isF s p"
  by (simp add: isT_alt isF_alt)

lemma isF_neg [simp]: "isF s (neg p) = isT s p"
  by (simp add: isT_alt isF_alt)

lemma isU_neg [simp]: "isU s (neg p) = isU s p"
  by (simp add: isU_alt)

lemma not_T_and_F: "isT s p \<Longrightarrow> \<not> isF s p"
  by (auto simp: isT_alt isF_alt)

lemma isU_not: "isU s p \<Longrightarrow> \<not> isT s p \<and> \<not> isF s p"
  by (auto simp: isT_alt isF_alt isU_alt)

lemma trail_okD:
  assumes "trail_ok s"
  shows "lit_ok (nVars s) p \<Longrightarrow> isT s p \<longleftrightarrow> p \<in> set (trail s)"
    and "lit_ok (nVars s) p \<Longrightarrow> isF s p \<longleftrightarrow> neg p \<in> set (trail s)"
    and "lit_ok (nVars s) p \<Longrightarrow> isU s p \<longleftrightarrow> \<not> isT s p \<and> \<not> isF s p"
    and "p \<in> set (trail s) \<Longrightarrow> lit_ok (nVars s) p"
proof -
  show T: "lit_ok (nVars s) p \<Longrightarrow> isT s p \<longleftrightarrow> p \<in> set (trail s)" for p
    using assms by (simp add: trail_ok_def)
  show F: "lit_ok (nVars s) p \<Longrightarrow> isF s p \<longleftrightarrow> neg p \<in> set (trail s)" for p
    using T [of "neg p"] by simp
  show "lit_ok (nVars s) p \<Longrightarrow> isU s p \<longleftrightarrow> \<not> isT s p \<and> \<not> isF s p"
  proof -
    assume p: "lit_ok (nVars s) p"
    have "isU s p \<longleftrightarrow> var p \<notin> var ` set (trail s)" using assms p by (simp add: trail_ok_def)
    also have "\<dots> \<longleftrightarrow> p \<notin> set (trail s) \<and> neg p \<notin> set (trail s)"
      by (auto simp: var_eq_cases image_iff)
    finally show ?thesis using T [OF p] F [OF p] by simp
  qed
  show "p \<in> set (trail s) \<Longrightarrow> lit_ok (nVars s) p" using assms by (simp add: trail_ok_def)
qed

section \<open>What the steps leave alone\<close>

text \<open>
  A theory that is told of a literal may call back into the solver.  The results on propagation and backtracking
  hold when no callback enqueues: either no variable belongs to a theory, or the theories only record what they are
  told.
\<close>

definition records_only :: "'h theory_ops \<Rightarrow> bool" where
  "records_only T \<longleftrightarrow> (\<forall>t p s. \<exists>h. th_enqueue T t p s = s\<lparr>ths := (ths s)\<lparr>tstate := h\<rparr>\<rparr>)"

definition calm :: "'h theory_ops \<Rightarrow> 'h solver \<Rightarrow> bool" where
  "calm T s \<longleftrightarrow> records_only T \<or> (length (theory_vars s) = nVars s \<and> (\<forall>td \<in> set (theory_vars s). td_theory td = 0))"

lemma calm_cong: "theory_vars s' = theory_vars s \<Longrightarrow> nVars s' = nVars s \<Longrightarrow> calm T s' = calm T s"
  by (simp add: calm_def)

lemma calm_notify:
  assumes c: "calm T s" and p: "lit_ok (nVars s) p"
  shows "\<exists>t. notify_theory T p s = s\<lparr>ths := t\<rparr>"
proof (cases "hasTheory s (var p)")
  case False
  then have "notify_theory T p s = s\<lparr>ths := ths s\<rparr>" by (simp add: notify_theory_def)
  then show ?thesis by blast
next
  case True
  let ?t = "getTheoryID s (var p)"
  have "records_only T" using c True lit_ok_vix [OF p] by (auto simp: calm_def hasTheory_def)
  then obtain h where h: "th_enqueue T ?t (getTheoryLit (needsPropagation ?t s) p) (needsPropagation ?t s) =
      (needsPropagation ?t s)\<lparr>ths := (ths (needsPropagation ?t s))\<lparr>tstate := h\<rparr>\<rparr>" unfolding records_only_def by blast
  have n: "needsPropagation ?t s = s\<lparr>ths := ths (needsPropagation ?t s)\<rparr>" by (simp add: needsPropagation_def)
  have "notify_theory T p s = (needsPropagation ?t s)\<lparr>ths := (ths (needsPropagation ?t s))\<lparr>tstate := h\<rparr>\<rparr>"
    using True h by (simp add: notify_theory_def enqueueTheory_def Let_def)
  also have "\<dots> = s\<lparr>ths := (ths (needsPropagation ?t s))\<lparr>tstate := h\<rparr>\<rparr>" by (subst n) simp
  finally show ?thesis by blast
qed

lemma state_eqs:
  "assigns s' = assigns s \<Longrightarrow> isT s' = isT s" "assigns s' = assigns s \<Longrightarrow> isF s' = isF s"
  "assigns s' = assigns s \<Longrightarrow> isU s' = isU s"
  "vardata s' = vardata s \<Longrightarrow> nVars s' = nVars s" "vardata s' = vardata s \<Longrightarrow> reason s' = reason s"
  "vardata s' = vardata s \<Longrightarrow> level s' = level s"
  "ca s' = ca s \<Longrightarrow> clits s' = clits s" "watches s' = watches s \<Longrightarrow> wlist s' = wlist s"
  by (auto simp: fun_eq_iff isT_alt isF_alt isU_alt nVars_def reason_def level_def clits_def clause_at_def wlist_def)

text \<open>What a step does to the literals that are assigned already: their levels and reasons stay, new literals
  belong to the current level and have a clause as reason, and no clause comes to watch a true literal.\<close>

text \<open>The fields that propagation does not read or write.\<close>

definition frame_rest :: "'h solver \<Rightarrow> _" where
  "frame_rest s = (free_vars s, released_vars s, assumptions s, tmp_clause s, theory_vars s, polarity s, limits s, const_true s,
     clauses_to_add s, var_inc s, cla_inc s, random_seed s, max_learnts s, initial_level s)"

lemma frame_rest_update [simp]:
  "frame_rest (s\<lparr>trail := x1\<rparr>) = frame_rest s" "frame_rest (s\<lparr>trail_lim := x2\<rparr>) = frame_rest s" "frame_rest (s\<lparr>vardata := x3\<rparr>) = frame_rest s"
  "frame_rest (s\<lparr>assigns := x4\<rparr>) = frame_rest s" "frame_rest (s\<lparr>watches := x5\<rparr>) = frame_rest s" "frame_rest (s\<lparr>ca := x6\<rparr>) = frame_rest s"
  "frame_rest (s\<lparr>qhead := x7\<rparr>) = frame_rest s" "frame_rest (s\<lparr>stats := x8\<rparr>) = frame_rest s" "frame_rest (s\<lparr>ths := x9\<rparr>) = frame_rest s"
  "frame_rest (s\<lparr>ok := x10\<rparr>) = frame_rest s" "frame_rest (s\<lparr>theoryConflict := x11\<rparr>) = frame_rest s" "frame_rest (s\<lparr>initialPropagate := x12\<rparr>) = frame_rest s"
  "frame_rest (s\<lparr>simpDB_props := x13\<rparr>) = frame_rest s" "frame_rest (s\<lparr>clauses := x14\<rparr>) = frame_rest s" "frame_rest (s\<lparr>learnts := x15\<rparr>) = frame_rest s"
  "frame_rest (s\<lparr>seen := x16\<rparr>) = frame_rest s" "frame_rest (s\<lparr>order_heap := x17\<rparr>) = frame_rest s" "frame_rest (s\<lparr>activity := x18\<rparr>) = frame_rest s"
  "frame_rest (s\<lparr>track_min_level := x19\<rparr>) = frame_rest s" "frame_rest (s\<lparr>to_analyze := x20\<rparr>) = frame_rest s"
  by (simp_all add: frame_rest_def)

text \<open>The effect of enqueuing a literal.\<close>

lemma calm_enqueue:
  assumes c: "calm T s" and q: "lit_ok (nVars s) q"
  shows "\<exists>t. uncheckedEnqueue T q cr s = s\<lparr>assigns := (assigns s)[vix (var q) := lbool_of_bool (\<not> sign q)],
    vardata := (vardata s)[vix (var q) := \<lparr>vreason = cr, vlevel = decisionLevel s\<rparr>], trail := trail s @ [q], ths := t\<rparr>"
proof -
  let ?s = "s\<lparr>assigns := (assigns s)[vix (var q) := lbool_of_bool (\<not> sign q)],
    vardata := (vardata s)[vix (var q) := \<lparr>vreason = cr, vlevel = decisionLevel s\<rparr>], trail := trail s @ [q]\<rparr>"
  have "calm T ?s" "lit_ok (nVars ?s) q" using c q calm_cong [of ?s s T] by (simp_all add: nVars_def)
  from calm_notify [OF this] show ?thesis by (auto simp: uncheckedEnqueue_def)
qed

lemma frame_restD:
  assumes "frame_rest s' = frame_rest s"
  shows "free_vars s' = free_vars s" "released_vars s' = released_vars s" "assumptions s' = assumptions s"
    "tmp_clause s' = tmp_clause s" "theory_vars s' = theory_vars s" "polarity s' = polarity s" "limits s' = limits s"
    "const_true s' = const_true s" "clauses_to_add s' = clauses_to_add s" "var_inc s' = var_inc s" "cla_inc s' = cla_inc s"
    "random_seed s' = random_seed s" "max_learnts s' = max_learnts s" "initial_level s' = initial_level s"
  using assms by (simp_all add: frame_rest_def)

abbreviation relit :: "clause \<Rightarrow> clause \<Rightarrow> bool" where
  "relit \<equiv> (\<lambda>c d. cmark d = cmark c \<and> learnt d = learnt c \<and> has_extra d = has_extra c \<and> reloced d = reloced c \<and>
     mset (lits d) = mset (lits c))"

text \<open>A solver that no theory is attached to.\<close>

definition plain :: "'h solver \<Rightarrow> bool" where
  "plain s \<longleftrightarrow> n_theories (ths s) = 0 \<and> theory_queue (ths s) = [] \<and> length (theory_vars s) = nVars s \<and>
     (\<forall>td \<in> set (theory_vars s). td_theory td = 0)"

lemma plain_calm: "plain s \<Longrightarrow> calm T s"
  by (simp add: plain_def calm_def)

lemma plain_cong:
  assumes "frame_rest s' = frame_rest s" and "nVars s' = nVars s" and "ths s' = ths s"
  shows "plain s' = plain s"
  using assms frame_restD(5) [OF assms(1)] by (simp add: plain_def)

lemma plain_hasTheory: "plain s \<Longrightarrow> lit_ok (nVars s) p \<Longrightarrow> \<not> hasTheory s (var p)"
  using lit_ok_vix [of "nVars s" p] by (simp add: plain_def hasTheory_def)

lemma plain_upd [simp]:
  "plain (s\<lparr>qhead := k\<rparr>) = plain s" "plain (s\<lparr>theoryConflict := c\<rparr>) = plain s" "plain (s\<lparr>initialPropagate := b\<rparr>) = plain s"
  "plain (s\<lparr>watches := w\<rparr>) = plain s" "plain (s\<lparr>stats := x\<rparr>) = plain s" "plain (s\<lparr>simpDB_props := y\<rparr>) = plain s"
  by (simp_all add: plain_def nVars_def)

lemma plain_notify: "plain s \<Longrightarrow> lit_ok (nVars s) p \<Longrightarrow> notify_theory T p s = s"
  by (simp add: notify_theory_def plain_hasTheory)

definition bcp_hist :: "'h solver \<Rightarrow> 'h solver \<Rightarrow> bool" where
  "bcp_hist s s' \<longleftrightarrow>
     (\<forall>p \<in> set (trail s). reason s' (var p) = reason s (var p) \<and> level s' (var p) = level s (var p)) \<and>
     (\<forall>p \<in> set (trail s') - set (trail s). level s' (var p) = decisionLevel s \<and> isClause (ca s) (reason s' (var p))) \<and>
     (\<forall>cr q. mem (ca s) cr \<noteq> None \<longrightarrow> q \<in> set (trail s) \<longrightarrow> watched (clits s' cr) q \<longrightarrow> watched (clits s cr) q)"

definition bcp_frame :: "'h solver \<Rightarrow> 'h solver \<Rightarrow> bool" where
  "bcp_frame s s' \<longleftrightarrow>
     opts s' = opts s \<and> trail_lim s' = trail_lim s \<and> nVars s' = nVars s \<and> clauses s' = clauses s \<and>
     learnts s' = learnts s \<and> ok s' = ok s \<and> decision s' = decision s \<and> order_heap s' = order_heap s \<and>
     activity s' = activity s \<and> priority s' = priority s \<and> seen s' = seen s \<and> frame_rest s' = frame_rest s \<and>
     stats s' = stats s \<and> (plain s \<longrightarrow> ths s' = ths s) \<and> dirty (watches s') = dirty (watches s) \<and> dirties (watches s') = dirties (watches s) \<and>
     marker_refs (ca s') = marker_refs (ca s) \<and> region_of (ca s') = region_of (ca s) \<and>
     extra_clause_field (ca s') = extra_clause_field (ca s) \<and>
     (\<forall>cr. rel_option relit
        (mem (ca s) cr) (mem (ca s') cr)) \<and>
     (\<exists>ys. trail s' = trail s @ ys) \<and> bcp_hist s s'"

lemma bcp_frame_refl: "bcp_frame s s"
  by (auto simp: bcp_frame_def bcp_hist_def option.rel_refl)

lemma bcp_hist_trans:
  assumes 1: "bcp_hist s s'" and 2: "bcp_hist s' s''" and tr: "\<exists>ys. trail s' = trail s @ ys"
    and m: "\<And>cr. mem (ca s) cr \<noteq> None \<Longrightarrow> mem (ca s') cr \<noteq> None"
    and e: "trail_lim s' = trail_lim s" "marker_refs (ca s') = marker_refs (ca s)"
  shows "bcp_hist s s''"
proof -
  have sub: "set (trail s) \<subseteq> set (trail s')" using tr by auto
  have "level s'' (var p) = decisionLevel s \<and> isClause (ca s) (reason s'' (var p))"
    if "p \<in> set (trail s'') - set (trail s)" for p
    using that 1 2 e by (cases "p \<in> set (trail s')") (auto simp: bcp_hist_def decisionLevel_def isClause_def)
  then show ?thesis using 1 2 sub m by (auto simp: bcp_hist_def subset_iff)
qed

lemma bcp_frame_mem: "bcp_frame s s' \<Longrightarrow> mem (ca s) cr \<noteq> None \<Longrightarrow> mem (ca s') cr \<noteq> None"
proof -
  assume f: "bcp_frame s s'" and m: "mem (ca s) cr \<noteq> None"
  from f have "rel_option relit
      (mem (ca s) cr) (mem (ca s') cr)" by (simp add: bcp_frame_def)
  with m show ?thesis by (cases "mem (ca s') cr") auto
qed

lemma bcp_frame_trans: "bcp_frame s s' \<Longrightarrow> bcp_frame s' s'' \<Longrightarrow> bcp_frame s s''"
proof -
  assume 1: "bcp_frame s s'" and 2: "bcp_frame s' s''"
  have "rel_option relit
      (mem (ca s) cr) (mem (ca s'') cr)" for cr
  proof -
    have "rel_option relit
        (mem (ca s) cr) (mem (ca s') cr)"
      "rel_option relit
        (mem (ca s') cr) (mem (ca s'') cr)" using 1 2 by (auto simp: bcp_frame_def)
    then show ?thesis
      by (cases "mem (ca s) cr"; cases "mem (ca s') cr"; cases "mem (ca s'') cr") auto
  qed
  moreover have "bcp_hist s s''"
    by (rule bcp_hist_trans [of s s']) (use 1 2 bcp_frame_mem [OF 1] in \<open>auto simp: bcp_frame_def\<close>)
  moreover have "plain s \<longrightarrow> ths s'' = ths s" using 1 2 plain_cong [of s' s] by (auto simp: bcp_frame_def)
  ultimately show ?thesis using 1 2 by (auto simp: bcp_frame_def)
qed

lemma bcp_frame_wf: "bcp_frame s s' \<Longrightarrow> allocator_wf (ca s) \<Longrightarrow> allocator_wf (ca s')"
proof -
  assume f: "bcp_frame s s'" and wf: "allocator_wf (ca s)"
  have "unat cr + clauseWord32Size (clause_size d) (has_extra d) \<le> unat (rsz (region_of (ca s)))"
    if d: "mem (ca s') cr = Some d" for cr d
  proof -
    from f have "rel_option (\<lambda>c d. has_extra d = has_extra c \<and> mset (lits d) = mset (lits c))
        (mem (ca s) cr) (mem (ca s') cr)" by (auto simp: bcp_frame_def elim!: option.rel_mono_strong)
    with d obtain c where c: "mem (ca s) cr = Some c" "has_extra d = has_extra c" "mset (lits d) = mset (lits c)"
      by (cases "mem (ca s) cr") auto
    then show ?thesis using wf mset_eq_length [OF c(3)] by (auto simp: allocator_wf_def clause_size_def)
  qed
  then show ?thesis using f wf by (auto simp: bcp_frame_def allocator_wf_def)
qed

lemma bcp_frame_mset: "bcp_frame s s' \<Longrightarrow> mem (ca s) cr \<noteq> None \<Longrightarrow> mset (clits s' cr) = mset (clits s cr)"
proof -
  assume f: "bcp_frame s s'" and "mem (ca s) cr \<noteq> None"
  then obtain c where c: "mem (ca s) cr = Some c" by auto
  from f have "rel_option relit
      (mem (ca s) cr) (mem (ca s') cr)" by (simp add: bcp_frame_def)
  with c show ?thesis by (cases "mem (ca s') cr") (auto simp: clits_def clause_at_def ca_get_def)
qed

lemma calm_frame: "bcp_frame s s' \<Longrightarrow> calm T s \<Longrightarrow> calm T s'"
  using calm_cong [of s' s T] frame_restD(5) [of s' s] by (simp add: bcp_frame_def)

section \<open>The invariant\<close>

text \<open>The reason of a propagated literal has that literal first and its other literals false before it.\<close>

definition reasons_ok :: "CRef set \<Rightarrow> 'h solver \<Rightarrow> bool" where
  "reasons_ok A s \<longleftrightarrow>
     (\<forall>k < length (trail s). reason s (var (trail s ! k)) \<in> A \<longrightarrow>
        clits s (reason s (var (trail s ! k))) ! 0 = trail s ! k \<and>
        (\<forall>l \<in> set (clits s (reason s (var (trail s ! k)))).
           l \<noteq> trail s ! k \<longrightarrow> neg l \<in> set (take k (trail s))))"

definition reasons_live :: "CRef set \<Rightarrow> 'h solver \<Rightarrow> bool" where
  "reasons_live A s \<longleftrightarrow>
     (\<forall>p \<in> set (trail s). isClause (ca s) (reason s (var p)) \<longrightarrow> reason s (var p) \<in> A)"

definition bcp_inv :: "CRef set \<Rightarrow> 'h solver \<Rightarrow> (Lit \<Rightarrow> watcher list) \<Rightarrow> bool" where
  "bcp_inv A s W \<longleftrightarrow>
     trail_ok s \<and> winv (nVars s) A (clits s) W \<and> reasons_ok A s \<and> reasons_live A s \<and>
     (\<forall>cr \<in> A. mem (ca s) cr \<noteq> None \<and> isClause (ca s) cr) \<and> length (occs (watches s)) = 2 * nVars s"

lemma not_isClause_Undef [simp]: "\<not> isClause a CRef_Undef"
  by (simp add: isClause_def not_less Ref_Undef_def)

text \<open>The literals in \<open>P\<close> are processed: a clause one of whose watches was falsified by them is satisfied.\<close>

definition processed :: "CRef set \<Rightarrow> 'h solver \<Rightarrow> Lit set \<Rightarrow> bool" where
  "processed A s P \<longleftrightarrow> (\<forall>cr \<in> A. \<forall>q \<in> P. watched (clits s cr) q \<longrightarrow> sat_clause s cr)"

lemma clits_set_lits:
  "mem (ca s) cr \<noteq> None \<Longrightarrow> clits (set_lits cr ls s) = (clits s)(cr := ls)"
  by (auto simp: fun_eq_iff clits_def clause_at_def set_lits_def ca_modify_def ca_get_def)

lemma set_lits_frame [simp]:
  "assigns (set_lits cr ls s) = assigns s" "vardata (set_lits cr ls s) = vardata s"
  "trail (set_lits cr ls s) = trail s" "trail_lim (set_lits cr ls s) = trail_lim s"
  "qhead (set_lits cr ls s) = qhead s" "watches (set_lits cr ls s) = watches s"
  by (simp_all add: set_lits_def)

lemma set_lits_eqs [simp]:
  "isT (set_lits cr ls s) = isT s" "isF (set_lits cr ls s) = isF s" "isU (set_lits cr ls s) = isU s"
  "nVars (set_lits cr ls s) = nVars s" "reason (set_lits cr ls s) = reason s" "level (set_lits cr ls s) = level s"
  "wlist (set_lits cr ls s) = wlist s"
  by (rule state_eqs, simp)+

lemma watches_eqs [simp]:
  "isT (s\<lparr>watches := w\<rparr>) = isT s" "isF (s\<lparr>watches := w\<rparr>) = isF s" "isU (s\<lparr>watches := w\<rparr>) = isU s"
  "nVars (s\<lparr>watches := w\<rparr>) = nVars s" "reason (s\<lparr>watches := w\<rparr>) = reason s"
  "level (s\<lparr>watches := w\<rparr>) = level s" "clits (s\<lparr>watches := w\<rparr>) = clits s"
  by (rule state_eqs, simp)+

lemma qhead_eqs [simp]:
  "isT (s\<lparr>qhead := w\<rparr>) = isT s" "isF (s\<lparr>qhead := w\<rparr>) = isF s" "isU (s\<lparr>qhead := w\<rparr>) = isU s"
  "nVars (s\<lparr>qhead := w\<rparr>) = nVars s" "reason (s\<lparr>qhead := w\<rparr>) = reason s"
  "level (s\<lparr>qhead := w\<rparr>) = level s" "clits (s\<lparr>qhead := w\<rparr>) = clits s" "wlist (s\<lparr>qhead := w\<rparr>) = wlist s"
  by (rule state_eqs, simp)+

lemma bcp_hist_eqs [simp]:
  "bcp_hist (s\<lparr>qhead := k\<rparr>) s' = bcp_hist s s'" "bcp_hist s (s'\<lparr>qhead := k\<rparr>) = bcp_hist s s'"
  "bcp_hist s (s'\<lparr>watches := v\<rparr>) = bcp_hist s s'"
  by (simp_all add: bcp_hist_def decisionLevel_def)

lemma isClause_set_lits [simp]: "isClause (ca (set_lits cr ls s)) r = isClause (ca s) r"
  by (simp add: isClause_def set_lits_def ca_modify_def)

lemma set_lits_bcp_frame:
  assumes "mem (ca s) cr \<noteq> None" and "mset ls = mset (clits s cr)"
    and "\<forall>q \<in> set (trail s). watched ls q \<longrightarrow> watched (clits s cr) q"
  shows "bcp_frame s (set_lits cr ls s)"
proof -
  have "rel_option relit
     (mem (ca s) r) (mem (ca (set_lits cr ls s)) r)" for r
    using assms by (cases "mem (ca s) r") (auto simp: set_lits_def ca_modify_def clits_def clause_at_def ca_get_def)
  moreover have "bcp_hist s (set_lits cr ls s)"
    using assms by (auto simp: bcp_hist_def clits_set_lits [OF assms(1)])
  ultimately show ?thesis by (simp add: bcp_frame_def set_lits_def ca_modify_def nVars_def)
qed

text \<open>Reordering the literals of a clause, keeping the first one where it is a reason.\<close>

lemma reasons_ok_relit:
  assumes "reasons_ok A s" and "mem (ca s) cr \<noteq> None" and "mset ls = mset (clits s cr)"
    and "ls ! 0 = clits s cr ! 0 \<or> \<not> isT s (clits s cr ! 0)" and "trail_ok s"
  shows "reasons_ok A (set_lits cr ls s)"
proof -
  have eqs: "reason (set_lits cr ls s) = reason s" "clits (set_lits cr ls s) = (clits s)(cr := ls)"
    using clits_set_lits [OF assms(2)] by auto
  have set_eq: "set ls = set (clits s cr)" using assms(3) by (rule mset_eq_setD)
  show ?thesis
    unfolding reasons_ok_def eqs set_lits_frame
  proof (intro allI impI)
    fix k assume k: "k < length (trail s)" "reason s (var (trail s ! k)) \<in> A"
    let ?r = "reason s (var (trail s ! k))"
    have old: "clits s ?r ! 0 = trail s ! k" "\<forall>l \<in> set (clits s ?r). l \<noteq> trail s ! k \<longrightarrow> neg l \<in> set (take k (trail s))"
      using assms(1) k by (auto simp: reasons_ok_def)
    have "isT s (trail s ! k)"
      using trail_okD(1) [OF assms(5) trail_okD(4) [OF assms(5)], of "trail s ! k"] k(1) by simp
    then have "?r = cr \<Longrightarrow> ls ! 0 = trail s ! k" using assms(4) old(1) by auto
    then show "((clits s)(cr := ls)) ?r ! 0 = trail s ! k \<and>
        (\<forall>l \<in> set (((clits s)(cr := ls)) ?r). l \<noteq> trail s ! k \<longrightarrow> neg l \<in> set (take k (trail s)))"
      using old set_eq by auto
  qed
qed

section \<open>The steps of the watcher loop\<close>

lemma sat_clause_relit:
  assumes "mem (ca s) cr \<noteq> None" and "mset ls = mset (clits s cr)"
  shows "sat_clause (set_lits cr ls s) r = sat_clause s r"
  using clits_set_lits [OF assms(1)] mset_eq_setD [OF assms(2)]
  by (simp add: sat_clause_def)

lemma processed_relit:
  assumes "processed A s P" and "mem (ca s) cr \<noteq> None" and "mset ls = mset (clits s cr)"
    and "\<And>q. q \<in> P \<Longrightarrow> watched ls q \<Longrightarrow> watched (clits s cr) q \<or> sat_clause s cr"
  shows "processed A (set_lits cr ls s) P"
proof -
  have "sat_clause (set_lits cr ls s) r"
    if "r \<in> A" "q \<in> P" "watched (clits (set_lits cr ls s) r) q" for r q
    using that assms(1,4) unfolding sat_clause_relit [OF assms(2,3)] clits_set_lits [OF assms(2)]
    by (auto simp: processed_def split: if_splits)
  then show ?thesis by (simp add: processed_def)
qed

lemma bcp_inv_relit:
  assumes "bcp_inv A s W" and "cr \<in> A" and "mset ls = mset (clits s cr)"
    and "ls ! 0 = clits s cr ! 0 \<or> \<not> isT s (clits s cr ! 0)"
    and "winv (nVars s) A ((clits s)(cr := ls)) W'"
  shows "bcp_inv A (set_lits cr ls s) W'"
proof -
  have m: "mem (ca s) cr \<noteq> None" using assms(1,2) by (simp add: bcp_inv_def)
  have "trail_ok (set_lits cr ls s)"
    using assms(1) by (simp add: bcp_inv_def trail_ok_def)
  moreover have "reasons_ok A (set_lits cr ls s)"
    using reasons_ok_relit [OF _ m assms(3,4)] assms(1) by (simp add: bcp_inv_def)
  moreover have "\<forall>r \<in> A. mem (ca (set_lits cr ls s)) r \<noteq> None"
    using assms(1) m by (auto simp: bcp_inv_def set_lits_def ca_modify_def)
  moreover have "reasons_live A (set_lits cr ls s)"
    using assms(1) m by (auto simp: bcp_inv_def reasons_live_def set_lits_def ca_modify_def isClause_def reason_def)
  ultimately show ?thesis
    using assms(1,5) by (simp add: bcp_inv_def clits_set_lits [OF m])
qed

lemma order_watches_step:
  assumes inv: "bcp_inv A s ((wlist s)(p := ks @ w # ws))" and p: "p \<in> set (trail s)" and proc: "processed A s P"
  defines "s1 \<equiv> order_watches (cref w) (neg p) s"
  shows "bcp_inv A s1 ((wlist s1)(p := ks @ w # ws))" and "clits s1 (cref w) ! 1 = neg p"
    and "mset (clits s1 (cref w)) = mset (clits s (cref w))" and "processed A s1 P" and "bcp_frame s s1"
    and "assigns s1 = assigns s" and "trail s1 = trail s" and "qhead s1 = qhead s" and "watches s1 = watches s"
    and "\<And>r q. watched (clits s1 r) q = watched (clits s r) q" and "\<And>r. sat_clause s1 r = sat_clause s r"
proof -
  let ?cr = "cref w" let ?c = "clits s ?cr"
  have tok: "trail_ok s" and wi: "winv (nVars s) A (clits s) ((wlist s)(p := ks @ w # ws))"
    using inv by (auto simp: bcp_inv_def)
  have pok: "lit_ok (nVars s) p" using trail_okD(4) [OF tok p] .
  note hd = winv_watched_hd [OF wi pok]
  have m: "mem (ca s) ?cr \<noteq> None" using inv hd(1) by (simp add: bcp_inv_def)
  note sw = swap01_props [OF hd(4)]
  have F: "isF s (neg p)" using trail_okD(1) [OF tok pok] p by simp
  have eq: "s1 = (if ?c ! 0 = neg p then set_lits ?cr (swap01 ?c) s else s)"
    by (simp add: s1_def order_watches_def clits_def swap01_def Let_def)
  have same: "bcp_inv A s1 ((wlist s1)(p := ks @ w # ws)) \<and> clits s1 ?cr ! 1 = neg p \<and>
      mset (clits s1 ?cr) = mset ?c \<and> processed A s1 P \<and> bcp_frame s s1 \<and> assigns s1 = assigns s \<and>
      trail s1 = trail s \<and> qhead s1 = qhead s \<and> watches s1 = watches s \<and>
      (\<forall>r q. watched (clits s1 r) q = watched (clits s r) q) \<and> (\<forall>r. sat_clause s1 r = sat_clause s r)"
  proof (cases "?c ! 0 = neg p")
    case True
    have s1: "s1 = set_lits ?cr (swap01 ?c) s" using True eq by simp
    have w1: "wlist s1 = wlist s" by (simp add: s1)
    have "winv (nVars s) A ((clits s)(?cr := swap01 ?c)) ((wlist s)(p := ks @ w # ws))"
      by (rule winv_relit [OF wi sw(3) sw(5)])
    then have "bcp_inv A s1 ((wlist s1)(p := ks @ w # ws))"
      unfolding w1 unfolding s1 using F True by (intro bcp_inv_relit [OF inv hd(1) sw(3)]) (auto dest: not_T_and_F)
    moreover have "processed A s1 P" unfolding s1 by (rule processed_relit [OF proc m sw(3)]) (simp add: sw(5))
    ultimately show ?thesis
      using True sw set_lits_bcp_frame [OF m sw(3)] sw(5) sat_clause_relit [OF m sw(3)]
      unfolding s1 by (auto simp: clits_set_lits [OF m])
  next
    case False
    then have "?c ! 1 = neg p" using hd(3) by (auto simp: watched_def)
    then show ?thesis using False eq inv proc bcp_frame_refl by simp
  qed
  show "bcp_inv A s1 ((wlist s1)(p := ks @ w # ws))" "clits s1 (cref w) ! 1 = neg p"
    "mset (clits s1 (cref w)) = mset (clits s (cref w))" "processed A s1 P" "bcp_frame s s1"
    "assigns s1 = assigns s" "trail s1 = trail s" "qhead s1 = qhead s" "watches s1 = watches s"
    "\<And>r q. watched (clits s1 r) q = watched (clits s r) q" "\<And>r. sat_clause s1 r = sat_clause s r"
    using same by auto
qed

lemma wlist_push:
  assumes "length (occs (watches s)) = 2 * n" and "lit_ok n q" and "lit_ok n r"
  shows "occs (occ_push (lix q) w (watches s)) ! lix r = ((wlist s)(q := wlist s q @ [w])) r"
  using assms lit_ok_lix [of n q] lix_inject [of n q r] by (auto simp: occ_push_def wlist_def nth_list_update)

lemma move_watch_step:
  assumes inv: "bcp_inv A s ((wlist s)(p := ks @ w # ws))" and p: "p \<in> set (trail s)"
    and proc: "processed A s P" "P \<subseteq> set (trail s)"
    and first: "clits s (cref w) ! 1 = neg p" and k: "2 \<le> k" "k < length (clits s (cref w))"
    and nF: "\<not> isF s (clits s (cref w) ! k)" and b: "cref w' = cref w" "blocker w' \<in> set (clits s (cref w))"
  defines "s1 \<equiv> move_watch (cref w) k (neg p) w' s"
  shows "bcp_inv A s1 ((wlist s1)(p := ks @ ws))" and "processed A s1 P" and "bcp_frame s s1"
    and "trail s1 = trail s" and "qhead s1 = qhead s" and "assigns s1 = assigns s"
    and "\<And>r. r \<noteq> cref w \<Longrightarrow> clits s1 r = clits s r" and "\<not> watched (clits s1 (cref w)) p"
    and "\<And>r. sat_clause s1 r = sat_clause s r"
proof -
  let ?cr = "cref w" let ?c = "clits s ?cr" let ?q = "neg (?c ! k)"
  let ?ls = "move_lits ?c k" let ?s = "set_lits ?cr ?ls s"
  have tok: "trail_ok s" and wi: "winv (nVars s) A (clits s) ((wlist s)(p := ks @ w # ws))"
    and len: "length (occs (watches s)) = 2 * nVars s"
    using inv by (auto simp: bcp_inv_def)
  have pok: "lit_ok (nVars s) p" using trail_okD(4) [OF tok p] .
  note hd = winv_watched_hd [OF wi pok]
  have m: "mem (ca s) ?cr \<noteq> None" using inv hd(1) by (simp add: bcp_inv_def)
  note mv = move_lits_props [OF k]
  have qok: "lit_ok (nVars s) ?q" using hd(6) k by simp
  have ne: "?c ! 0 \<noteq> ?c ! 1" "?c ! 1 \<noteq> ?c ! k"
    by (rule distinct_nth_neq [OF hd(5)]; use hd(4) k in linarith)+
  have ls: "?c[1 := ?c ! k, k := neg p] = ?ls" using first by (simp add: move_lits_def)
  have s1: "s1 = ?s\<lparr>watches := occ_push (lix ?q) w' (watches s)\<rparr>"
    using mv(3) ls by (simp add: s1_def move_watch_def Let_def clits_def [symmetric])
  have qp: "?q \<noteq> p" using ne(2) first by (metis neg_neg)
  have w1: "((wlist s1)(p := ks @ ws)) r = ((wlist s)(p := ks @ ws, ?q := wlist s ?q @ [w'])) r"
    if "lit_ok (nVars s) r" for r
    using wlist_push [OF len qok that, of w'] qp unfolding s1 by (auto simp: wlist_def)
  have "winv (nVars s) A ((clits s)(?cr := ?ls)) ((wlist s)(p := ks @ ws, ?q := wlist s ?q @ [w']))"
    by (rule winv_move [OF wi pok refl first k b])
  then have "winv (nVars s) A ((clits s)(?cr := ?ls)) ((wlist s1)(p := ks @ ws))"
    using w1 winv_cong [of "nVars s" "(wlist s1)(p := ks @ ws)"] by blast
  from bcp_inv_relit [OF inv hd(1) mv(1) _ this] mv(2)
  have bi: "bcp_inv A ?s ((wlist s1)(p := ks @ ws))" by simp
  have c1: "clits s1 = (clits s)(?cr := ?ls)"
    using clits_set_lits [OF m] by (simp add: s1)
  have v: "isT s1 = isT s" "nVars s1 = nVars s" "reason s1 = reason s" "isU s1 = isU s"
    by (simp_all add: s1)
  have v': "isT ?s = isT s" "nVars ?s = nVars s" "reason ?s = reason s" "isU ?s = isU s" "clits ?s = clits s1"
    by (simp_all add: c1 clits_set_lits [OF m])
  show "bcp_inv A s1 ((wlist s1)(p := ks @ ws))"
    using bi unfolding bcp_inv_def trail_ok_def reasons_ok_def reasons_live_def v v'
    by (simp add: s1 occ_push_def)
  have p1: "processed A ?s P"
  proof (rule processed_relit [OF proc(1) m mv(1)])
    fix q assume "q \<in> P" "watched ?ls q"
    then have "q = neg (?c ! 0) \<or> q = ?q" using mv by (simp add: watched_def)
    then show "watched ?c q \<or> sat_clause s ?cr"
    proof
      assume "q = ?q"
      then have "?q \<in> set (trail s)" using \<open>q \<in> P\<close> proc(2) by blast
      then have "isF s (?c ! k)" using trail_okD(1) [OF tok qok] by simp
      then show ?thesis using nF by simp
    qed (simp add: watched_def)
  qed
  have sat1: "sat_clause s1 r = sat_clause ?s r" for r by (simp add: sat_clause_def v v')
  show "processed A s1 P" using p1 by (simp add: processed_def sat1 v')
  have "watched ?ls q \<longrightarrow> watched ?c q" if "q \<in> set (trail s)" for q
    using trail_okD(1) [OF tok qok] nF that mv by (auto simp: watched_def)
  then have "bcp_frame s ?s" by (intro set_lits_bcp_frame [OF m mv(1)]) blast
  moreover have "bcp_hist s s1 = bcp_hist s ?s" by (simp add: s1)
  ultimately show "bcp_frame s s1" using v(2) v'(2) by (simp add: bcp_frame_def s1 occ_push_def)
  show "trail s1 = trail s" "qhead s1 = qhead s" "assigns s1 = assigns s" by (simp_all add: s1)
  show "\<And>r. r \<noteq> ?cr \<Longrightarrow> clits s1 r = clits s r" by (simp add: c1)
  show "\<not> watched (clits s1 ?cr) p"
    using ne first qp mv by (auto simp: c1 watched_def)
  show "\<And>r. sat_clause s1 r = sat_clause s r"
    by (simp add: sat1 sat_clause_relit [OF m mv(1)])
qed

lemma enqueue_step:
  fixes T :: "'h theory_ops" and s :: "'h solver"
  assumes inv: "bcp_inv A s W" and q: "lit_ok (nVars s) q" and U: "isU s q"
    and r: "cr \<in> A \<Longrightarrow> clits s cr ! 0 = q \<and> (\<forall>l \<in> set (clits s cr). l \<noteq> q \<longrightarrow> isF s l)"
    and live: "isClause (ca s) cr \<Longrightarrow> cr \<in> A" and calm: "calm T s"
  defines "s1 \<equiv> uncheckedEnqueue T q cr s"
  shows "bcp_inv A s1 W" and "trail s1 = trail s @ [q]" and "qhead s1 = qhead s" and "watches s1 = watches s"
    and "clits s1 = clits s" and "\<And>l. lit_ok (nVars s) l \<Longrightarrow> isT s1 l \<longleftrightarrow> isT s l \<or> l = q"
    and "isClause (ca s) cr \<Longrightarrow> bcp_frame s s1" and "nVars s1 = nVars s"
    and "\<And>p. p \<in> set (trail s1) \<Longrightarrow> reason s1 (var p) = (if p = q then cr else reason s (var p))"
    and "\<And>p. p \<in> set (trail s1) \<Longrightarrow> level s1 (var p) = (if p = q then decisionLevel s else level s (var p))"
proof -
  let ?v = "vix (var q)"
  have tok: "trail_ok s" using inv by (simp add: bcp_inv_def)
  obtain t where s1: "s1 = s\<lparr>assigns := (assigns s)[?v := lbool_of_bool (\<not> sign q)],
      vardata := (vardata s)[?v := \<lparr>vreason = cr, vlevel = decisionLevel s\<rparr>], trail := trail s @ [q], ths := t\<rparr>"
    using calm_enqueue [OF calm q, of cr] by (auto simp: s1_def)
  have vlt: "?v < nVars s" by (rule lit_ok_vix [OF q])
  have len: "length (assigns s) = nVars s" using tok by (simp add: trail_ok_def)
  have as: "assigns s1 = (assigns s)[?v := lbool_of_bool (\<not> sign q)]"
    and vd: "vardata s1 = (vardata s)[?v := \<lparr>vreason = cr, vlevel = decisionLevel s\<rparr>]"
    by (simp_all add: s1)
  show tr: "trail s1 = trail s @ [q]" "qhead s1 = qhead s" "watches s1 = watches s"
    by (simp_all add: s1)
  show n: "nVars s1 = nVars s" by (simp add: nVars_def vd)
  show cl: "clits s1 = clits s" by (rule state_eqs(7)) (simp add: s1)
  have old: "assigns s1 ! vix (var l) = assigns s ! vix (var l)" if "lit_ok (nVars s) l" "var l \<noteq> var q" for l
    using vix_inject [OF that(1) q] that(2) by (simp add: as)
  have new: "assigns s1 ! vix (var l) = lbool_of_bool (\<not> sign q)" if "var l = var q" for l
    using vlt len that by (simp add: as)
  have nT: "\<not> isT s q" "\<not> isF s q" using isU_not [OF U] by auto
  show T: "isT s1 l \<longleftrightarrow> isT s l \<or> l = q" if l: "lit_ok (nVars s) l" for l
  proof (cases "var l = var q")
    case True
    then have "l = q \<or> l = neg q" by (simp add: var_eq_cases)
    then show ?thesis using nT new [OF True] by (auto simp: isT_alt [of s1])
  next
    case False
    then have "l \<noteq> q" by auto
    then show ?thesis using old [OF l False] by (simp add: isT_alt)
  qed
  have Ui: "isU s1 l \<longleftrightarrow> isU s l \<and> var l \<noteq> var q" if l: "lit_ok (nVars s) l" for l
    using old [OF l] new [of l] by (cases "var l = var q") (auto simp: isU_alt)
  have fresh: "var q \<notin> var ` set (trail s)" using tok q U by (simp add: trail_ok_def)
  have tok1: "trail_ok s1"
    using tok T Ui n q fresh len unfolding trail_ok_def tr by (auto simp: as)
  have rs: "reason s1 x = (if x = var q then cr else reason s x)" if "0 \<le> x" "x < int (nVars s)" for x
    using that vlt q by (auto simp: reason_def vd nVars_def vix_def lit_ok_alt nth_list_update eq_nat_nat_iff)
  have lv: "level s1 x = (if x = var q then decisionLevel s else level s x)" if "0 \<le> x" "x < int (nVars s)" for x
    using that vlt q by (auto simp: level_def vd nVars_def vix_def lit_ok_alt nth_list_update eq_nat_nat_iff)
  have "reasons_ok A s1"
    unfolding reasons_ok_def tr cl
  proof (intro allI impI)
    fix k assume k: "k < length (trail s @ [q])" "reason s1 (var ((trail s @ [q]) ! k)) \<in> A"
    show "clits s (reason s1 (var ((trail s @ [q]) ! k))) ! 0 = (trail s @ [q]) ! k \<and>
        (\<forall>l \<in> set (clits s (reason s1 (var ((trail s @ [q]) ! k)))).
          l \<noteq> (trail s @ [q]) ! k \<longrightarrow> neg l \<in> set (take k (trail s @ [q])))"
    proof (cases "k = length (trail s)")
      case True
      then have e: "(trail s @ [q]) ! k = q" "take k (trail s @ [q]) = trail s" by simp_all
      have c: "reason s1 (var q) = cr" using rs [of "var q"] q by (simp add: lit_ok_alt)
      have crA: "cr \<in> A" using k(2) e c by simp
      have "winv (nVars s) A (clits s) W" using inv by (simp add: bcp_inv_def)
      then have "\<forall>l \<in> set (clits s cr). lit_ok (nVars s) l"
        using crA by (auto simp: winv_def clauses_ok_def)
      then show ?thesis using r [OF crA] trail_okD(2) [OF tok] unfolding e c by auto
    next
      case False
      then have kl: "k < length (trail s)" using k(1) by simp
      then have e: "(trail s @ [q]) ! k = trail s ! k" "take k (trail s @ [q]) = take k (trail s)"
        by (simp_all add: nth_append)
      have "var (trail s ! k) \<noteq> var q" using fresh kl by (metis image_eqI nth_mem)
      moreover have "lit_ok (nVars s) (trail s ! k)" using trail_okD(4) [OF tok] kl by simp
      ultimately have c: "reason s1 (var (trail s ! k)) = reason s (var (trail s ! k))"
        using rs [of "var (trail s ! k)"] by (simp add: lit_ok_alt)
      show ?thesis using inv kl k(2) unfolding e c by (auto simp: bcp_inv_def reasons_ok_def)
    qed
  qed
  moreover have rs1: "reason s1 (var p) = (if p = q then cr else reason s (var p)) \<and>
      level s1 (var p) = (if p = q then decisionLevel s else level s (var p))" if "p \<in> set (trail s1)" for p
  proof -
    have "lit_ok (nVars s) p" using trail_okD(4) [OF tok, of p] that q by (auto simp: tr)
    moreover have "var p \<noteq> var q" if "p \<noteq> q"
    proof -
      have "p \<in> set (trail s)" using \<open>p \<in> set (trail s1)\<close> that by (simp add: tr)
      then have "var p \<in> var ` set (trail s)" by (rule imageI)
      then show ?thesis using fresh by metis
    qed
    ultimately show ?thesis using rs [of "var p"] lv [of "var p"] by (auto simp: lit_ok_alt)
  qed
  then have "reasons_live A s1"
    using inv live by (auto simp: bcp_inv_def reasons_live_def tr) (auto simp: s1)
  ultimately show "bcp_inv A s1 W"
    using inv tok1 n cl tr(3) by (simp add: bcp_inv_def s1)
  show "reason s1 (var p) = (if p = q then cr else reason s (var p))"
    "level s1 (var p) = (if p = q then decisionLevel s else level s (var p))" if "p \<in> set (trail s1)" for p
    using rs1 [OF that] by simp_all
  have q_ths: "ths s1 = ths s" if "plain s"
  proof -
    let ?s = "s\<lparr>assigns := (assigns s)[?v := lbool_of_bool (\<not> sign q)], vardata := (vardata s)[?v := \<lparr>vreason = cr, vlevel = decisionLevel s\<rparr>],
      trail := trail s @ [q]\<rparr>"
    have "plain ?s" "lit_ok (nVars ?s) q" using that q by (simp_all add: plain_def nVars_def)
    then show ?thesis by (simp add: s1_def uncheckedEnqueue_def plain_notify)
  qed
  have "q \<notin> set (trail s)" using fresh by blast
  then have "isClause (ca s) cr \<Longrightarrow> bcp_hist s s1"
    using rs1 by (auto simp: bcp_hist_def tr cl)
  then show "isClause (ca s) cr \<Longrightarrow> bcp_frame s s1"
    using n q_ths unfolding bcp_frame_def s1 by (simp add: option.rel_refl)
qed

lemma find_watch_Some:
  "find_watch s c k = Some j \<Longrightarrow> k \<le> j \<and> j < length c \<and> \<not> isF s (c ! j)"
proof (induction s c k rule: find_watch.induct)
  case (1 s c k)
  then show ?case
    by (auto simp: find_watch.simps [of s c k] split: if_splits)
qed

lemma find_watch_None:
  "find_watch s c k = None \<Longrightarrow> k \<le> j \<Longrightarrow> j < length c \<Longrightarrow> isF s (c ! j)"
proof (induction s c k rule: find_watch.induct)
  case (1 s c k)
  then have k: "isF s (c ! k)" "find_watch s c (Suc k) = None"
    by (auto simp: find_watch.simps [of s c k] split: if_splits)
  show ?case
  proof (cases "j = k")
    case False
    then show ?thesis using 1 k by simp
  qed (use k in simp)
qed

section \<open>The watcher loop and the queue\<close>

text \<open>What the loop over the watchers of \<open>p\<close> achieves from the watchers \<open>ws\<close> still to do.\<close>

definition loop_pre :: "CRef set \<Rightarrow> Lit \<Rightarrow> Lit set \<Rightarrow> watcher list \<Rightarrow> watcher list \<Rightarrow> 'h solver \<Rightarrow> bool" where
  "loop_pre A p P ws kept s \<longleftrightarrow>
     bcp_inv A s ((wlist s)(p := kept @ ws)) \<and> p \<in> set (trail s) \<and> P \<subseteq> set (trail s) \<and> processed A s P \<and>
     (\<forall>cr \<in> A. watched (clits s cr) p \<longrightarrow> sat_clause s cr \<or> cr \<in> cref ` set ws)"

definition lit_model :: "(Lit \<Rightarrow> bool) \<Rightarrow> bool" where
  "lit_model M \<longleftrightarrow> (\<forall>p. M (neg p) = (\<not> M p))"

definition entails :: "CRef set \<Rightarrow> 'h solver \<Rightarrow> Lit list \<Rightarrow> Lit list \<Rightarrow> bool" where
  "entails A s \<tau> \<tau>' \<longleftrightarrow>
     (\<forall>M. lit_model M \<and> (\<forall>cr \<in> A. \<exists>l \<in> set (clits s cr). M l) \<and> (\<forall>p \<in> set \<tau>. M p) \<longrightarrow> (\<forall>p \<in> set \<tau>'. M p))"

lemma entails_refl: "entails A s \<tau> \<tau>"
  by (simp add: entails_def)

lemma entails_trans: "entails A s \<tau> \<tau>1 \<Longrightarrow> entails A s \<tau>1 \<tau>2 \<Longrightarrow> entails A s \<tau> \<tau>2"
  unfolding entails_def by blast

lemma entails_frame:
  assumes "bcp_frame s s1" and "\<forall>cr \<in> A. mem (ca s) cr \<noteq> None"
  shows "entails A s1 = entails A s"
proof -
  have "set (clits s1 cr) = set (clits s cr)" if "cr \<in> A" for cr
    using bcp_frame_mset [OF assms(1)] assms(2) that by (metis mset_eq_setD)
  then show ?thesis by (auto simp: entails_def fun_eq_iff)
qed

definition loop_post :: "CRef set \<Rightarrow> Lit \<Rightarrow> Lit set \<Rightarrow> 'h solver \<Rightarrow> watcher list \<times> CRef \<times> 'h solver \<Rightarrow> bool" where
  "loop_post A p P s r \<longleftrightarrow>
     (case r of (kept, confl, s') \<Rightarrow>
        bcp_inv A s' ((wlist s')(p := kept)) \<and> bcp_frame s s' \<and> entails A s (trail s) (trail s') \<and>
        (confl = CRef_Undef \<longrightarrow> processed A s' (insert p P) \<and> qhead s' = qhead s) \<and>
        (confl \<noteq> CRef_Undef \<longrightarrow>
           confl \<in> A \<and> (\<forall>l \<in> set (clits s' confl). isF s' l) \<and> qhead s' = length (trail s')))"

lemma loop_post_trans:
  assumes "bcp_frame s s1" and "qhead s1 = qhead s" and "\<forall>cr \<in> A. mem (ca s) cr \<noteq> None"
    and "entails A s (trail s) (trail s1)" and "loop_post A p P s1 r"
  shows "loop_post A p P s r"
  using assms bcp_frame_trans [OF assms(1)] entails_frame [OF assms(1,3)] entails_trans [OF assms(4)]
  by (auto simp: loop_post_def split: prod.splits)

text \<open>A watcher whose clause is satisfied is kept.\<close>

lemma loop_pre_keep:
  assumes "loop_pre A p P (w # ws) kept s" and "cref w' = cref w" and "blocker w' \<in> set (clits s (cref w))"
    and "sat_clause s (cref w)"
  shows "loop_pre A p P ws (kept @ [w']) s"
proof -
  have "winv (nVars s) A (clits s) ((wlist s)(p := kept @ w' # ws))"
    using assms(1) winv_reblock [of "nVars s" A "clits s" "wlist s" p kept w ws w'] assms(2,3) by (simp add: loop_pre_def bcp_inv_def)
  then show ?thesis
    using assms(1,4) by (auto simp: loop_pre_def bcp_inv_def)
qed

lemma sat_clause_mono:
  assumes "\<And>l. l \<in> set (clits s cr) \<Longrightarrow> isT s l \<Longrightarrow> isT s1 l" and "clits s1 = clits s" and "sat_clause s cr"
  shows "sat_clause s1 cr"
  using assms by (auto simp: sat_clause_def)

lemma loop_pre_enqueue:
  fixes T :: "'h theory_ops" and s :: "'h solver"
  assumes pre: "loop_pre A p P (w # ws) kept s" and "cref w' = cref w" and "blocker w' = q"
    and c: "clits s (cref w) ! 0 = q" and U: "isU s q" and F: "\<forall>l \<in> set (clits s (cref w)). l \<noteq> q \<longrightarrow> isF s l"
    and calm: "calm T s"
  defines "s1 \<equiv> uncheckedEnqueue T q (cref w) s"
  shows "loop_pre A p P ws (kept @ [w']) s1" and "bcp_frame s s1" and "qhead s1 = qhead s"
    and "entails A s (trail s) (trail s1)"
proof -
  have inv: "bcp_inv A s ((wlist s)(p := kept @ w # ws))" and p: "p \<in> set (trail s)"
    using pre by (auto simp: loop_pre_def)
  have tok: "trail_ok s" and wi: "winv (nVars s) A (clits s) ((wlist s)(p := kept @ w # ws))"
    using inv by (auto simp: bcp_inv_def)
  note hd = winv_watched_hd [OF wi trail_okD(4) [OF tok p]]
  have qc: "q \<in> set (clits s (cref w))" using c hd(4) by (metis nth_mem length_greater_0_conv less_le_trans pos2)
  then have q: "lit_ok (nVars s) q" using hd(6) by simp
  note st = enqueue_step [OF inv q U, where cr = "cref w" and T = T]
  have r: "clits s (cref w) ! 0 = q \<and> (\<forall>l \<in> set (clits s (cref w)). l \<noteq> q \<longrightarrow> isF s l)" using c F by simp
  have isC: "isClause (ca s) (cref w)" using inv hd(1) by (simp add: bcp_inv_def)
  note st = st [OF r hd(1) calm, folded s1_def]
  have w1: "wlist s1 = wlist s" by (rule state_eqs(8)) (rule st(4))
  have cl: "\<forall>l \<in> set (clits s cr). lit_ok (nVars s) l" if "cr \<in> A" for cr
    using winvD(1) [OF wi] that by (auto simp: clauses_ok_def)
  have mono: "sat_clause s1 cr" if "cr \<in> A" "sat_clause s cr" for cr
    using sat_clause_mono [OF _ st(5) that(2)] st(6) cl [OF that(1)] by blast
  have new: "sat_clause s1 (cref w)" using qc st(6) [OF q] st(5) by (auto simp: sat_clause_def)
  have "loop_pre A p P (w # ws) kept s1"
    using pre st(1,2,5) mono by (auto simp: loop_pre_def w1 processed_def)
  then show "loop_pre A p P ws (kept @ [w']) s1"
    using assms(2,3) qc new st(5) by (intro loop_pre_keep [of A p P w]) auto
  show "bcp_frame s s1" "qhead s1 = qhead s" using st isC by blast+
  have "M q" if M: "lit_model M" "\<exists>l \<in> set (clits s (cref w)). M l" "\<forall>p \<in> set (trail s). M p" for M
  proof -
    obtain l where l: "l \<in> set (clits s (cref w))" "M l" using M(2) by blast
    show ?thesis
    proof (cases "l = q")
      case False
      then have "isF s l" using F l(1) by blast
      then have "neg l \<in> set (trail s)" using trail_okD(2) [OF tok] hd(6) l(1) by blast
      then have "M (neg l)" using M(3) by blast
      then show ?thesis using M(1) l(2) by (simp add: lit_model_def)
    qed (use l in simp)
  qed
  then show "entails A s (trail s) (trail s1)"
    using hd(1) unfolding entails_def st(2) set_append ball_Un by simp blast
qed

declare watch_loop.simps [simp del]

lemma watch_loop_spec:
  "loop_pre A p P ws kept s \<Longrightarrow> calm T s \<Longrightarrow> loop_post A p P s (watch_loop T p ws kept s)"
proof (induction T p ws kept s rule: watch_loop.induct)
  case (1 T p kept s)
  then show ?case
    by (auto simp: watch_loop.simps loop_pre_def loop_post_def processed_def bcp_frame_refl entails_refl)
next
  case (2 T p w ws kept s)
  have inv: "bcp_inv A s ((wlist s)(p := kept @ w # ws))" and p: "p \<in> set (trail s)"
    and P: "P \<subseteq> set (trail s)" and proc: "processed A s P"
    using "2.prems" by (auto simp: loop_pre_def)
  have wi: "winv (nVars s) A (clits s) ((wlist s)(p := kept @ w # ws))" and tok: "trail_ok s"
    and undef: "CRef_Undef \<notin> A" using inv not_isClause_Undef by (auto simp: bcp_inv_def)
  note hd = winv_watched_hd [OF wi trail_okD(4) [OF tok p]]
  have mm: "\<forall>cr \<in> A. mem (ca s) cr \<noteq> None" using inv by (simp add: bcp_inv_def)
  show ?case
  proof (cases "isT s (blocker w)")
    case True
    then have "sat_clause s (cref w)" using hd(2) by (auto simp: sat_clause_def)
    then have "loop_pre A p P ws (kept @ [w]) s" using loop_pre_keep [OF "2.prems"(1)] hd(2) by blast
    then show ?thesis using "2.IH"(1) True "2.prems"(2) by (simp add: watch_loop.simps(2))
  next
    case nT: False
    let ?s1 = "order_watches (cref w) (neg p) s" let ?c = "clits ?s1 (cref w)" let ?first = "?c ! 0"
    let ?w = "\<lparr>cref = cref w, blocker = ?first\<rparr>"
    note ow = order_watches_step [OF inv p proc]
    have ent: "entails A s (trail s) (trail ?s1)" using ow(7) entails_refl by simp
    have calm1: "calm T ?s1" by (rule calm_frame [OF ow(5) "2.prems"(2)])
    have pre1: "loop_pre A p P (w # ws) kept ?s1"
      using "2.prems"(1) ow(1,4,7,10,11) by (simp add: loop_pre_def)
    have tok1: "trail_ok ?s1" using ow(1) by (simp add: bcp_inv_def)
    have len: "2 \<le> length ?c" using hd(4) mset_eq_length [OF ow(3)] by simp
    have fc: "?first \<in> set ?c" by (rule nth_mem) (use len in linarith)
    have sets: "set ?c = set (clits s (cref w))" using ow(3) by (rule mset_eq_setD)
    have n1: "nVars ?s1 = nVars s" using ow(5) by (simp add: bcp_frame_def)
    have fok: "lit_ok (nVars ?s1) ?first" using fc sets hd(6) n1 by auto
    have vals: "isT ?s1 = isT s" using ow(6) by (rule state_eqs(1))
    have wl: "watch_loop T p (w # ws) kept s =
        (if ?first \<noteq> blocker w \<and> isT ?s1 ?first then watch_loop T p ws (kept @ [?w]) ?s1
         else case find_watch ?s1 ?c 2 of
           Some k \<Rightarrow> watch_loop T p ws kept (move_watch (cref w) k (neg p) ?w ?s1)
         | None \<Rightarrow>
             if isF ?s1 ?first then (kept @ ?w # ws, cref w, ?s1\<lparr>qhead := length (trail ?s1)\<rparr>)
             else watch_loop T p ws (kept @ [?w]) (uncheckedEnqueue T ?first (cref w) ?s1))"
      unfolding clits_def by (simp only: watch_loop.simps Let_def nT if_False)
    note IH = "2.IH"(2-4) [OF nT refl refl refl refl refl, folded clits_def]
    show ?thesis
    proof (cases "?first \<noteq> blocker w \<and> isT ?s1 ?first")
      case True
      then have "sat_clause ?s1 (cref w)" using fc by (auto simp: sat_clause_def)
      then have "loop_pre A p P ws (kept @ [?w]) ?s1" using loop_pre_keep [OF pre1] fc by simp
      then show ?thesis
        using IH(1) [OF True _ calm1] wl loop_post_trans [OF ow(5,8) mm ent] by (simp only: True if_True simp_thms)
    next
      case False
      have notT: "\<not> isT ?s1 ?first" using False nT vals by auto
      show ?thesis
      proof (cases "find_watch ?s1 ?c 2")
        case (Some k)
        note fw = find_watch_Some [OF Some]
        let ?s2 = "move_watch (cref w) k (neg p) ?w ?s1"
        have P1: "P \<subseteq> set (trail ?s1)" "p \<in> set (trail ?s1)" using P p ow(7) by auto
        note mw = move_watch_step [OF ow(1) P1(2) ow(4) P1(1) ow(2), of k ?w]
        note mw = mw [OF conjunct1 [OF fw] conjunct1 [OF conjunct2 [OF fw]] conjunct2 [OF conjunct2 [OF fw]]]
        have b: "cref ?w = cref w" "blocker ?w \<in> set ?c" using fc by simp_all
        note mw = mw [OF b]
        have "loop_pre A p P ws kept ?s2"
          unfolding loop_pre_def
        proof (intro conjI ballI impI)
          fix cr assume cr: "cr \<in> A" "watched (clits ?s2 cr) p"
          then have "cr \<noteq> cref w" using mw(8) by auto
          then show "sat_clause ?s2 cr \<or> cr \<in> cref ` set ws"
            using pre1 cr mw(7,9) by (auto simp: loop_pre_def)
        qed (use mw P1 in auto)
        note post = IH(3) [OF False Some this calm_frame [OF mw(3) calm1]]
        have "watch_loop T p (w # ws) kept s = watch_loop T p ws kept ?s2"
          unfolding wl by (simp only: False Some if_False option.case)
        then show ?thesis
          using loop_post_trans [OF bcp_frame_trans [OF ow(5) mw(3)] _ mm _ post] mw(4,5) ow(7,8)
            entails_refl [of A s "trail s"] by simp
      next
        case None
        note fw = find_watch_None [OF None]
        have c1: "?c ! 1 = neg p" by (rule ow(2))
        have pF: "isF ?s1 (neg p)" using trail_okD(1) [OF tok trail_okD(4) [OF tok p]] p vals by simp
        have rest: "isF ?s1 l" if l: "l \<in> set ?c" "l \<noteq> ?first" for l
        proof -
          obtain j where j: "j < length ?c" "?c ! j = l" using l(1) by (auto simp: in_set_conv_nth)
          then have "j \<noteq> 0" using l(2) by (cases j) auto
          then show ?thesis
          proof (cases "j = 1")
            case False
            then show ?thesis using fw [of j] j \<open>j \<noteq> 0\<close> by simp
          qed (use j c1 pF in simp)
        qed
        show ?thesis
        proof (cases "isF ?s1 ?first")
          case True
          let ?s2 = "?s1\<lparr>qhead := length (trail ?s1)\<rparr>"
          have "winv (nVars ?s1) A (clits ?s1) ((wlist ?s1)(p := kept @ ?w # ws))"
            using ow(1) fc winv_reblock [of "nVars ?s1" A "clits ?s1" "wlist ?s1" p kept w ws ?w]
            by (simp add: bcp_inv_def)
          then have "bcp_inv A ?s2 ((wlist ?s2)(p := kept @ ?w # ws))"
            using ow(1) by (simp add: bcp_inv_def trail_ok_def reasons_ok_def reasons_live_def)
          moreover have "bcp_frame s ?s2" using ow(5) by (simp add: bcp_frame_def)
          moreover have "\<forall>l \<in> set ?c. isF ?s2 l" using rest True by auto
          ultimately have "loop_post A p P s (kept @ ?w # ws, cref w, ?s2)"
            using hd(1) undef ent by (auto simp: loop_post_def)
          moreover have "watch_loop T p (w # ws) kept s = (kept @ ?w # ws, cref w, ?s2)"
            unfolding wl by (simp only: False None True if_False if_True option.case)
          ultimately show ?thesis by simp
        next
          case nF: False
          have U: "isU ?s1 ?first" using trail_okD(3) [OF tok1 fok] notT nF by simp
          have F: "\<forall>l \<in> set ?c. l \<noteq> ?first \<longrightarrow> isF ?s1 l" using rest by blast
          have b: "cref ?w = cref w" "blocker ?w = ?first" by simp_all
          note le = loop_pre_enqueue [OF pre1 b refl U F calm1]
          note post = IH(2) [OF False None nF le(1) calm_frame [OF le(2) calm1]]
          have "watch_loop T p (w # ws) kept s =
              watch_loop T p ws (kept @ [?w]) (uncheckedEnqueue T ?first (cref w) ?s1)"
            unfolding wl by (simp only: False None nF if_False option.case)
          then show ?thesis
            using loop_post_trans [OF bcp_frame_trans [OF ow(5) le(2)] _ mm _ post] le(3,4) ow(7,8)
              entails_frame [OF ow(5) mm] by simp
        qed
      qed
    qed
  qed
qed

section \<open>The propagation queue\<close>

definition bcp_state :: "CRef set \<Rightarrow> 'h solver \<Rightarrow> bool" where
  "bcp_state A s \<longleftrightarrow> bcp_inv A s (wlist s) \<and> qhead s \<le> length (trail s)"

definition queue_done :: "CRef set \<Rightarrow> 'h solver \<Rightarrow> bool" where
  "queue_done A s \<longleftrightarrow> processed A s (set (take (qhead s) (trail s)))"

lemma wlist_set_watch_list:
  assumes "length (occs (watches s)) = 2 * n" and "lit_ok n p" and "lit_ok n q"
  shows "wlist (set_watch_list p ws s) q = ((wlist s)(p := ws)) q"
  using assms lit_ok_lix [of n p] lix_inject [of n p q]
  by (auto simp: wlist_def set_watch_list_def nth_list_update)

lemma set_watch_list_eqs [simp]:
  "isT (set_watch_list p ws s) = isT s" "isF (set_watch_list p ws s) = isF s" "isU (set_watch_list p ws s) = isU s"
  "nVars (set_watch_list p ws s) = nVars s" "reason (set_watch_list p ws s) = reason s"
  "clits (set_watch_list p ws s) = clits s" "trail (set_watch_list p ws s) = trail s"
  "qhead (set_watch_list p ws s) = qhead s" "ca (set_watch_list p ws s) = ca s"
  "assigns (set_watch_list p ws s) = assigns s"
  "length (occs (watches (set_watch_list p ws s))) = length (occs (watches s))"
  by (simp_all add: set_watch_list_def)

lemma set_watch_list_frame: "bcp_frame s (set_watch_list p ws s)"
  by (auto simp: bcp_frame_def bcp_hist_def set_watch_list_def nVars_def reason_def level_def clits_def clause_at_def option.rel_refl)

lemma propagate_lit_spec:
  assumes st: "bcp_state A s" and dn: "queue_done A s" and q: "qhead s < length (trail s)"
    and r: "propagate_lit T s = (confl, s')" and calm: "calm T s"
  shows "bcp_state A s'" and "bcp_frame s s'" and "entails A s (trail s) (trail s')"
    and "confl = CRef_Undef \<Longrightarrow> queue_done A s' \<and> qhead s' = Suc (qhead s)"
    and "confl \<noteq> CRef_Undef \<Longrightarrow>
      confl \<in> A \<and> (\<forall>l \<in> set (clits s' confl). isF s' l) \<and> qhead s' = length (trail s')"
proof -
  let ?p = "trail s ! qhead s" let ?s = "s\<lparr>qhead := qhead s + 1\<rparr>" let ?P = "set (take (qhead s) (trail s))"
  have inv: "bcp_inv A s (wlist s)" using st by (simp add: bcp_state_def)
  have tok: "trail_ok s" using inv by (simp add: bcp_inv_def)
  have p: "?p \<in> set (trail s)" using q by simp
  have pok: "lit_ok (nVars s) ?p" by (rule trail_okD(4) [OF tok p])
  have w: "(wlist ?s)(?p := [] @ wlist s ?p) = wlist s" by (auto simp: fun_eq_iff)
  have all: "sat_clause ?s cr \<or> cr \<in> cref ` set (wlist s ?p)"
    if "cr \<in> A" "watched (clits s cr) ?p" for cr
    using winvD(4) [of "nVars s" A "clits s" "wlist s" ?p cr] inv pok that by (simp add: bcp_inv_def)
  have pre: "loop_pre A ?p ?P (wlist s ?p) [] ?s"
    using inv p dn all set_take_subset [of "qhead s" "trail s"] unfolding loop_pre_def w
    by (simp add: bcp_inv_def trail_ok_def reasons_ok_def reasons_live_def queue_done_def processed_def sat_clause_def)
  obtain kept c1 s1 where wl: "watch_loop T ?p (wlist s ?p) [] ?s = (kept, c1, s1)" by (cases "watch_loop T ?p (wlist s ?p) [] ?s")
  have eq: "confl = c1" "s' = set_watch_list ?p kept s1"
    using r wl by (auto simp: propagate_lit_def Let_def wlist_def)
  have "calm T ?s" using calm calm_cong [of ?s s T] by (simp add: nVars_def)
  from watch_loop_spec [OF pre this]
  have post: "bcp_inv A s1 ((wlist s1)(?p := kept))" "bcp_frame ?s s1" "entails A ?s (trail ?s) (trail s1)"
    "c1 = CRef_Undef \<longrightarrow> processed A s1 (insert ?p ?P) \<and> qhead s1 = qhead ?s"
    "c1 \<noteq> CRef_Undef \<longrightarrow> c1 \<in> A \<and> (\<forall>l \<in> set (clits s1 c1). isF s1 l) \<and> qhead s1 = length (trail s1)"
    unfolding wl by (auto simp: loop_post_def)
  have fr: "bcp_frame s s1" using post(2) by (simp add: bcp_frame_def)
  then have n1: "nVars s1 = nVars s" by (simp add: bcp_frame_def)
  obtain ys where ys: "trail s1 = trail s @ ys" using fr by (auto simp: bcp_frame_def)
  have "winv (nVars s1) A (clits s1) ((wlist s1)(?p := kept))" "length (occs (watches s1)) = 2 * nVars s1"
    using post(1) by (auto simp: bcp_inv_def)
  then have "winv (nVars s1) A (clits s1) (wlist s')"
    using wlist_set_watch_list [of s1 "nVars s1" ?p _ kept] pok n1 eq(2)
      winv_cong [of "nVars s1" "(wlist s1)(?p := kept)" "wlist s'" A "clits s1" "clits s1"] by simp
  then have "bcp_inv A s' (wlist s')"
    using post(1) by (simp add: eq(2) bcp_inv_def trail_ok_def reasons_ok_def reasons_live_def)
  moreover have "qhead s' \<le> length (trail s')"
    using post(4,5) q ys by (cases "c1 = CRef_Undef") (auto simp: eq(2))
  ultimately show "bcp_state A s'" by (simp add: bcp_state_def)
  show "bcp_frame s s'" using bcp_frame_trans [OF fr set_watch_list_frame] by (simp add: eq(2))
  show "entails A s (trail s) (trail s')" using post(3) by (simp add: eq(2) entails_def)
  have tk: "insert ?p ?P = set (take (Suc (qhead s)) (trail s @ ys))"
    using q by (simp add: take_Suc_conv_app_nth)
  show "confl = CRef_Undef \<Longrightarrow> queue_done A s' \<and> qhead s' = Suc (qhead s)"
    using post(4) tk unfolding eq by (simp add: queue_done_def processed_def sat_clause_def ys)
  show "confl \<noteq> CRef_Undef \<Longrightarrow>
      confl \<in> A \<and> (\<forall>l \<in> set (clits s' confl). isF s' l) \<and> qhead s' = length (trail s')"
    using post(5) unfolding eq by simp
qed

lemma trail_length: "trail_ok s \<Longrightarrow> length (trail s) \<le> nVars s"
proof -
  assume tok: "trail_ok s"
  have "var ` set (trail s) \<subseteq> {0 ..< int (nVars s)}"
    using trail_okD(4) [OF tok] by (auto simp: lit_ok_alt)
  then have "card (var ` set (trail s)) \<le> nVars s"
    using card_mono [of "{0 ..< int (nVars s)}" "var ` set (trail s)"] by simp
  moreover have "card (var ` set (trail s)) = length (trail s)"
    using tok distinct_card [of "map var (trail s)"] by (simp add: trail_ok_def)
  ultimately show ?thesis by simp
qed

lemma bcp_spec:
  assumes "bcp_state A s" and "queue_done A s" and "pt \<longrightarrow> plain s" and "calm T s"
  shows "\<exists>confl n' s'. bcp T pt CRef_Undef n s = Some (False, confl, n', s') \<and>
     bcp_state A s' \<and> bcp_frame s s' \<and> entails A s (trail s) (trail s') \<and> qhead s' = length (trail s') \<and>
     (confl = CRef_Undef \<longrightarrow> queue_done A s') \<and>
     (confl \<noteq> CRef_Undef \<longrightarrow> confl \<in> A \<and> (\<forall>l \<in> set (clits s' confl). isF s' l))"
  using assms
proof (induction "nVars s - qhead s" arbitrary: s n rule: less_induct)
  case (less s n)
  show ?case
  proof (cases "qhead s < length (trail s)")
    case False
    then show ?thesis
      using less.prems bcp_frame_refl entails_refl
      by (subst bcp.simps) (auto simp: bcp_state_def)
  next
    case True
    obtain confl s1 where pl: "propagate_lit T s = (confl, s1)" by (cases "propagate_lit T s")
    note sp = propagate_lit_spec [OF less.prems(1,2) True pl less.prems(4)]
    have early: "pt \<Longrightarrow> theory_round T True s = Some (None, s)"
      using less.prems(3) by (subst theory_round.simps) (simp add: plain_def)
    have pl1: "pt \<longrightarrow> plain s1"
      using less.prems(3) sp(2) plain_cong [of s1 s] by (auto simp: bcp_frame_def)
    have mm: "\<forall>cr \<in> A. mem (ca s) cr \<noteq> None" using less.prems(1) by (simp add: bcp_state_def bcp_inv_def)
    show ?thesis
    proof (cases "confl = CRef_Undef")
      case confl: True
      have "length (trail s) \<le> nVars s"
        using trail_length less.prems(1) by (auto simp: bcp_state_def bcp_inv_def)
      moreover have "nVars s1 = nVars s" using sp(2) by (simp add: bcp_frame_def)
      ultimately have "nVars s1 - qhead s1 < nVars s - qhead s" using sp(4) [OF confl] True by simp
      from less.hyps [OF this sp(1) conjunct1 [OF sp(4) [OF confl]] pl1 calm_frame [OF sp(2) less.prems(4)], of "n + 1"]
      obtain confl' n' s' where r: "bcp T pt CRef_Undef (n + 1) s1 = Some (False, confl', n', s')"
        "bcp_state A s'" "bcp_frame s1 s'" "entails A s1 (trail s1) (trail s')" "qhead s' = length (trail s')"
        "confl' = CRef_Undef \<longrightarrow> queue_done A s'"
        "confl' \<noteq> CRef_Undef \<longrightarrow> confl' \<in> A \<and> (\<forall>l \<in> set (clits s' confl'). isF s' l)" by blast
      have "bcp T pt CRef_Undef n s = Some (False, confl', n', s')"
        using True pl r(1) confl early by (subst bcp.simps) auto
      moreover have "entails A s (trail s) (trail s')"
        using entails_trans [OF sp(3)] r(4) entails_frame [OF sp(2) mm] by simp
      ultimately show ?thesis using r(2,5-7) bcp_frame_trans [OF sp(2) r(3)] by blast
    next
      case confl: False
      have "bcp T pt confl (n + 1) s1 = Some (False, confl, n + 1, s1)"
        using sp(5) [OF confl] by (subst bcp.simps) simp
      then have "bcp T pt CRef_Undef n s = Some (False, confl, n + 1, s1)"
        using True pl confl early by (subst bcp.simps) auto
      then show ?thesis using sp confl by blast
    qed
  qed
qed

section \<open>Unit propagation is sound and complete\<close>

text \<open>The invariant between calls: the watcher lists satisfy it once the lazily deleted entries are cleaned
  away, and every entry refers to a clause that can still be read.\<close>

definition solver_inv :: "CRef set \<Rightarrow> 'h solver \<Rightarrow> bool" where
  "solver_inv A s \<longleftrightarrow>
     bcp_inv A s (wlist (watches_cleanAll s)) \<and> qhead s \<le> length (trail s) \<and> occ_wf (watches s) \<and>
     (\<forall>q. lit_ok (nVars s) q \<longrightarrow> (\<forall>w \<in> set (wlist s q). mem (ca s) (cref w) \<noteq> None))"

lemma length_clean_dirties: "length (occs (clean_dirties d is w)) = length (occs w)"
  by (induction d "is" w rule: clean_dirties.induct) (auto simp: occ_clean_def)

lemma wlist_cleanAll:
  assumes "occ_wf (watches s)" and "lix q < length (occs (watches s))"
  shows "wlist (watches_cleanAll s) q =
    (if dirty (watches s) ! lix q then filter (\<lambda>w. \<not> watcher_deleted (ca s) w) (wlist s q) else wlist s q)"
  using clean_dirties_spec [of "watches s" "dirties (watches s)" "watcher_deleted (ca s)"] assms
  by (auto simp: occ_wf_def wlist_def watches_cleanAll_def occ_cleanAll_def)

lemma occ_wf_cleanAll:
  assumes "occ_wf (watches s)"
  shows "length (dirty (watches (watches_cleanAll s))) = length (occs (watches s))"
    and "i < length (occs (watches s)) \<Longrightarrow> \<not> dirty (watches (watches_cleanAll s)) ! i"
    and "dirties (watches (watches_cleanAll s)) = []"
  using clean_dirties_spec [of "watches s" "dirties (watches s)" "watcher_deleted (ca s)"] assms
  by (auto simp: occ_wf_def watches_cleanAll_def occ_cleanAll_def)

lemma solver_inv_clean:
  assumes "bcp_state A s" and "dirties (watches s) = []" and "length (dirty (watches s)) = length (occs (watches s))"
    and "\<And>i. i < length (occs (watches s)) \<Longrightarrow> \<not> dirty (watches s) ! i"
  shows "solver_inv A s"
proof -
  have "watches_cleanAll s = s" using assms(2) by (simp add: watches_cleanAll_def occ_cleanAll_def)
  moreover have "mem (ca s) (cref w) \<noteq> None" if "lit_ok (nVars s) q" "w \<in> set (wlist s q)" for q w
    using assms(1) winvD(3) [of "nVars s" A "clits s" "wlist s" q w] that by (auto simp: bcp_state_def bcp_inv_def)
  ultimately show ?thesis using assms by (simp add: solver_inv_def bcp_state_def occ_wf_def)
qed

text \<open>A clause is settled when it is satisfied or has two literals that are not false.\<close>

definition settled :: "'h solver \<Rightarrow> CRef \<Rightarrow> bool" where
  "settled s cr \<longleftrightarrow> sat_clause s cr \<or>
     (\<exists>l \<in> set (clits s cr). \<exists>l' \<in> set (clits s cr). l \<noteq> l' \<and> isU s l \<and> isU s l')"

lemma settled_all:
  assumes "trail_ok s" and "clauses_ok (nVars s) A (clits s)" and "processed A s (set (trail s))" and "cr \<in> A"
  shows "settled s cr"
proof -
  let ?c = "clits s cr"
  have c: "2 \<le> length ?c" "distinct ?c" "\<forall>l \<in> set ?c. lit_ok (nVars s) l"
    using assms(2,4) by (auto simp: clauses_ok_def)
  have m: "?c ! 0 \<in> set ?c" "?c ! 1 \<in> set ?c" by (rule nth_mem; use c(1) in linarith)+
  have ne: "?c ! 0 \<noteq> ?c ! 1" by (rule distinct_nth_neq [OF c(2)]; use c(1) in linarith)
  show ?thesis
  proof (cases "sat_clause s cr")
    case False
    have "isU s (?c ! i)" if "i = 0 \<or> i = 1" for i
    proof -
      have ok: "lit_ok (nVars s) (?c ! i)" and mi: "?c ! i \<in> set ?c" using that m c(3) by auto
      have "watched ?c (neg (?c ! i))" using that by (auto simp: watched_def)
      then have "neg (?c ! i) \<notin> set (trail s)" using assms(3,4) False by (auto simp: processed_def)
      then have "\<not> isF s (?c ! i)" using trail_okD(2) [OF assms(1) ok] by simp
      moreover have "\<not> isT s (?c ! i)" using False mi by (auto simp: sat_clause_def)
      ultimately show ?thesis using trail_okD(3) [OF assms(1) ok] by simp
    qed
    then show ?thesis using m ne unfolding settled_def by blast
  qed (simp add: settled_def)
qed

lemma bcp_state_trail: "bcp_state A s \<Longrightarrow> p \<in> set (trail s) \<Longrightarrow> lit_ok (nVars s) p"
  by (auto simp: bcp_state_def bcp_inv_def dest: trail_okD(4))

lemma initial_theories_plain:
  assumes "plain s" and "\<And>p. p \<in> set (trail s) \<Longrightarrow> lit_ok (nVars s) p"
  shows "initial_theories T s = s \<or> initial_theories T s = s\<lparr>initialPropagate := False\<rparr>"
proof -
  have "notify_loop T ps s = s" if "set ps \<subseteq> set (trail s)" for ps
    using that by (induction ps) (auto simp: plain_hasTheory [OF assms(1) assms(2)])
  then have "notify_loop T (take (qhead s) (trail s)) s = s" by (simp add: set_take_subset)
  then show ?thesis using assms(1) by (simp add: initial_theories_def plain_def)
qed

lemma propagate_gen:
  fixes T :: "'h theory_ops"
  assumes "solver_inv A s" and "queue_done A s" and "pt \<longrightarrow> plain s" and "calm T s"
  shows "\<exists>confl s'. propagate T pt s = Some (confl, s') \<and> solver_inv A s' \<and> qhead s' = length (trail s') \<and>
     (\<exists>ys. trail s' = trail s @ ys) \<and> trail_lim s' = trail_lim s \<and>
     clauses s' = clauses s \<and> learnts s' = learnts s \<and> nVars s' = nVars s \<and> ok s' = ok s \<and>
     marker_refs (ca s') = marker_refs (ca s) \<and> region_of (ca s') = region_of (ca s) \<and>
     (allocator_wf (ca s) \<longrightarrow> allocator_wf (ca s')) \<and> bcp_hist s s' \<and>
     seen s' = seen s \<and> opts s' = opts s \<and> decision s' = decision s \<and> order_heap s' = order_heap s \<and>
     activity s' = activity s \<and> priority s' = priority s \<and> frame_rest s' = frame_rest s \<and> entails A s (trail s) (trail s') \<and>
     (\<forall>cr \<in> A. mset (clits s' cr) = mset (clits s cr)) \<and>
     extra_clause_field (ca s') = extra_clause_field (ca s) \<and> (\<forall>cr. rel_option relit (mem (ca s) cr) (mem (ca s') cr)) \<and>
     statistics.conflicts (stats s') = statistics.conflicts (stats s) \<and> (plain s \<longrightarrow> ths s' = ths s) \<and>
     (confl = CRef_Undef \<longrightarrow> queue_done A s' \<and> (\<forall>cr \<in> A. settled s' cr)) \<and>
     (confl \<noteq> CRef_Undef \<longrightarrow> confl \<in> A \<and> (\<forall>l \<in> set (clits s' confl). isF s' l))"
proof (cases "qhead s = length (trail s) \<and> (\<not> initialPropagate s \<or> 0 < decisionLevel s)")
  case True
  then have "propagate T pt s = Some (CRef_Undef, s)" using assms(3) by (auto simp: propagate_def plain_def)
  moreover have "\<forall>cr \<in> A. settled s cr"
    using settled_all [of s A] assms True
    by (auto simp: solver_inv_def bcp_inv_def queue_done_def dest: winvD(1))
  ultimately show ?thesis using assms True entails_refl bcp_frame_refl [of s]
    by (intro exI [of _ CRef_Undef] exI [of _ s]) (simp add: bcp_frame_def option.rel_refl)
next
  case False
  let ?s = "watches_cleanAll (s\<lparr>theoryConflict := - 1\<rparr>)"
  define s2 where "s2 = (if decisionLevel ?s = 0 \<and> \<not> pt then ?s\<lparr>initialPropagate := True\<rparr> else ?s)"
  note ow = occ_wf_cleanAll [of s]
  have wf: "occ_wf (watches s)" using assms(1) by (simp add: solver_inv_def)
  have eqs: "trail s2 = trail s" "clits s2 = clits s" "nVars s2 = nVars s" "isT s2 = isT s"
    "trail_lim s2 = trail_lim s" "qhead s2 = qhead s" "isU s2 = isU s" "reason s2 = reason s" "assigns s2 = assigns s"
    "ca s2 = ca s" "watches s2 = watches (watches_cleanAll s)" "dirties (watches s2) = []"
    "wlist s2 = wlist (watches_cleanAll s)"
    by (auto simp: s2_def watches_cleanAll_def clits_def clause_at_def nVars_def isT_def isU_def lvalue_def
        reason_def wlist_def occ_cleanAll_def fun_eq_iff)
  have eqs2: "clauses s2 = clauses s" "learnts s2 = learnts s" "ok s2 = ok s" "level s2 = level s"
    "seen s2 = seen s" "opts s2 = opts s" "decision s2 = decision s" "order_heap s2 = order_heap s"
    "activity s2 = activity s" "priority s2 = priority s" "frame_rest s2 = frame_rest s"
    by (auto simp: s2_def watches_cleanAll_def level_def fun_eq_iff)
  have pl2: "pt \<longrightarrow> plain s2" using assms(3) by (simp add: s2_def watches_cleanAll_def)
  have eqs4: "stats s2 = stats s" "ths s2 = ths s" "plain s2 = plain s"
    by (simp_all add: s2_def watches_cleanAll_def)
  have st: "bcp_state A s2"
    using assms(1) unfolding bcp_state_def solver_inv_def bcp_inv_def trail_ok_def reasons_ok_def reasons_live_def eqs
    by (simp add: watches_cleanAll_def occ_cleanAll_def length_clean_dirties)
  have dn: "queue_done A s2" using assms(2) by (simp add: queue_done_def processed_def sat_clause_def eqs)
  have "calm T s2" using assms(4) calm_cong [of s2 s T] frame_restD(5) [OF eqs2(11)] eqs(3) by simp
  from bcp_spec [OF st dn pl2 this, of 0] obtain confl n' s' where r:
    "bcp T pt CRef_Undef 0 s2 = Some (False, confl, n', s')" "bcp_state A s'" "bcp_frame s2 s'"
    "entails A s2 (trail s2) (trail s')" "qhead s' = length (trail s')"
    "confl = CRef_Undef \<longrightarrow> queue_done A s'"
    "confl \<noteq> CRef_Undef \<longrightarrow> confl \<in> A \<and> (\<forall>l \<in> set (clits s' confl). isF s' l)" by blast
  define s3 where "s3 = (if pt then initial_theories T s' else s')"
  define fin where "fin = count_props n' s3"
  have pl': "pt \<longrightarrow> plain s'" using r(3) pl2 plain_cong [of s' s2] by (auto simp: bcp_frame_def)
  have s3: "s3 = s' \<or> s3 = s'\<lparr>initialPropagate := False\<rparr>"
    using bcp_state_trail [OF r(2)] pl' by (auto simp: s3_def initial_theories_plain)
  have late: "pt \<Longrightarrow> theory_round T False s3 = Some (None, s3)"
    using s3 pl' by (subst theory_round.simps) (auto simp: plain_def)
  have p: "propagate T pt s = Some (confl, fin)"
  proof -
    have "propagate T pt s = propagate_loop T pt 0 s2"
      using False assms(3) unfolding propagate_def Let_def s2_def plain_def by (cases pt) (auto simp only: if_False simp_thms not_False_eq_True)
    also have "\<dots> = Some (confl, fin)"
      using r(1,5) late s3 by (subst propagate_loop.simps) (auto simp add: Let_def fin_def s3_def)
    finally show ?thesis .
  qed
  have bfr: "stats s' = stats s2" "plain s2 \<longrightarrow> ths s' = ths s2" using r(3) by (simp_all add: bcp_frame_def)
  have reqs4: "statistics.conflicts (stats fin) = statistics.conflicts (stats s')" "ths fin = ths s'"
    using s3 by (auto simp: fin_def count_props_def)
  have reqs0: "clauses fin = clauses s'" "learnts fin = learnts s'" "ok fin = ok s'" "level fin = level s'"
    "seen fin = seen s'" "opts fin = opts s'" "decision fin = decision s'" "order_heap fin = order_heap s'"
    "activity fin = activity s'" "priority fin = priority s'" "frame_rest fin = frame_rest s'"
    using s3 by (auto simp: fin_def count_props_def level_def fun_eq_iff)
  have reqs: "trail fin = trail s'" "clits fin = clits s'" "nVars fin = nVars s'" "isT fin = isT s'" "isF fin = isF s'"
    "qhead fin = qhead s'" "isU fin = isU s'" "reason fin = reason s'" "assigns fin = assigns s'" "trail_lim fin = trail_lim s'"
    "ca fin = ca s'" "watches fin = watches s'" "wlist fin = wlist s'"
    using s3 by (auto simp: fin_def count_props_def clits_def clause_at_def nVars_def isT_def isU_def isF_def lvalue_def reason_def
        wlist_def fun_eq_iff)
  have "bcp_state A fin"
    using r(2) unfolding bcp_state_def bcp_inv_def trail_ok_def reasons_ok_def reasons_live_def reqs .
  moreover have "length (occs (watches fin)) = length (occs (watches s))"
    using r(2,3) st by (simp add: bcp_state_def bcp_inv_def bcp_frame_def reqs eqs length_clean_dirties
        watches_cleanAll_def occ_cleanAll_def)
  moreover have "dirties (watches fin) = []" "dirty (watches fin) = dirty (watches (watches_cleanAll s))"
    using r(3) eqs(12) by (simp_all add: bcp_frame_def reqs eqs(11))
  ultimately have inv: "solver_inv A fin" using ow(1,2) [OF wf] by (intro solver_inv_clean) auto
  have dr: "confl = CRef_Undef \<Longrightarrow> queue_done A fin"
    using r(6) unfolding queue_done_def processed_def sat_clause_def reqs by simp
  have "settled fin cr" if "confl = CRef_Undef" "cr \<in> A" for cr
    using settled_all [of fin A cr] inv dr [OF that(1)] r(5) that(2)
    by (auto simp: solver_inv_def bcp_inv_def queue_done_def reqs dest: winvD(1))
  moreover have "\<exists>ys. trail fin = trail s @ ys" "trail_lim fin = trail_lim s"
    using r(3) by (auto simp: bcp_frame_def reqs eqs)
  moreover have "entails A s (trail s) (trail fin)" using r(4) by (simp add: entails_def eqs reqs)
  moreover have "\<forall>cr \<in> A. mset (clits fin cr) = mset (clits s cr)"
    using bcp_frame_mset [OF r(3)] st by (auto simp: eqs reqs bcp_state_def bcp_inv_def)
  moreover have "clauses fin = clauses s" "learnts fin = learnts s" "nVars fin = nVars s" "ok fin = ok s"
    "marker_refs (ca fin) = marker_refs (ca s)" "region_of (ca fin) = region_of (ca s)"
    using r(3) eqs2 by (simp_all add: bcp_frame_def reqs reqs0 eqs)
  moreover have "bcp_hist s fin"
    using r(3) by (simp add: bcp_frame_def bcp_hist_def decisionLevel_def eqs eqs2(4) reqs reqs0(4))
  moreover have "seen fin = seen s" "opts fin = opts s" "decision fin = decision s" "order_heap fin = order_heap s"
    "activity fin = activity s" "priority fin = priority s" "frame_rest fin = frame_rest s"
    using r(3) by (simp_all add: bcp_frame_def eqs2 reqs0)
  moreover have "allocator_wf (ca s) \<longrightarrow> allocator_wf (ca fin)"
    using bcp_frame_wf [OF r(3)] by (simp add: reqs eqs)
  moreover have "extra_clause_field (ca fin) = extra_clause_field (ca s)" "\<forall>cr. rel_option relit (mem (ca s) cr) (mem (ca fin) cr)"
    using r(3) by (simp_all add: bcp_frame_def reqs eqs)
  moreover have "statistics.conflicts (stats fin) = statistics.conflicts (stats s)" "plain s \<longrightarrow> ths fin = ths s"
    using bfr eqs4 reqs4 by simp_all
  ultimately show ?thesis using p inv r(5,7) dr by (intro exI [of _ confl] exI [of _ fin]) (simp add: reqs)
qed

lemma propagate_spec:
  fixes T :: "'h theory_ops"
  assumes "solver_inv A s" and "queue_done A s" and "calm T s"
  shows "\<exists>confl s'. propagate T False s = Some (confl, s') \<and> solver_inv A s' \<and> qhead s' = length (trail s') \<and>
     (\<exists>ys. trail s' = trail s @ ys) \<and> trail_lim s' = trail_lim s \<and>
     clauses s' = clauses s \<and> learnts s' = learnts s \<and> nVars s' = nVars s \<and> ok s' = ok s \<and>
     marker_refs (ca s') = marker_refs (ca s) \<and> region_of (ca s') = region_of (ca s) \<and>
     (allocator_wf (ca s) \<longrightarrow> allocator_wf (ca s')) \<and> bcp_hist s s' \<and>
     seen s' = seen s \<and> opts s' = opts s \<and> decision s' = decision s \<and> order_heap s' = order_heap s \<and>
     activity s' = activity s \<and> priority s' = priority s \<and> frame_rest s' = frame_rest s \<and> entails A s (trail s) (trail s') \<and>
     (\<forall>cr \<in> A. mset (clits s' cr) = mset (clits s cr)) \<and>
     (confl = CRef_Undef \<longrightarrow> queue_done A s' \<and> (\<forall>cr \<in> A. settled s' cr)) \<and>
     (confl \<noteq> CRef_Undef \<longrightarrow> confl \<in> A \<and> (\<forall>l \<in> set (clits s' confl). isF s' l))"
proof -
  from propagate_gen [OF assms(1,2) _ assms(3), of False] show ?thesis
    by simp (elim exE conjE, intro exI conjI, assumption+)
qed

text \<open>C7: unit propagation over the two-watched-literal lists always returns; it only extends the trail, with
  literals that follow from the attached clauses and the old trail; without a conflict it leaves no attached
  clause unit or false, and a conflict is an attached clause all of whose literals are false.  The queue
  is empty and the watcher, trail and reason invariants hold again, and every clause keeps its literals.  This holds
  when no theory enqueues literals of its own while it is told of one (\<open>calm\<close>); the callbacks are arbitrary if no
  variable belongs to a theory.\<close>

theorem propagate_sound_complete:
  fixes T :: "'h theory_ops"
  assumes "solver_inv A s" and "queue_done A s" and "calm T s"
  shows "\<exists>confl s'. propagate T False s = Some (confl, s') \<and> solver_inv A s' \<and> qhead s' = length (trail s') \<and>
     (\<exists>ys. trail s' = trail s @ ys) \<and> trail_lim s' = trail_lim s \<and> entails A s (trail s) (trail s') \<and>
     (\<forall>cr \<in> A. mset (clits s' cr) = mset (clits s cr)) \<and>
     (confl = CRef_Undef \<longrightarrow> queue_done A s' \<and> (\<forall>cr \<in> A. settled s' cr)) \<and>
     (confl \<noteq> CRef_Undef \<longrightarrow> confl \<in> A \<and> (\<forall>l \<in> set (clits s' confl). isF s' l))"
  using propagate_spec [OF assms] by blast

end
