(* ===== verification/Solver_Build.thy ===== *)
theory Solver_Build
  imports BCP
begin

text \<open>
  Building a problem: the constructor, \<^verbatim>\<open>newVar\<close>, \<^verbatim>\<open>attachClause\<close> and \<^verbatim>\<open>addClause_\<close> establish and keep the
  invariant of unit propagation, and adding a clause changes the set of models by exactly that clause.
\<close>

section \<open>The constructor\<close>

definition solver_new :: "options \<Rightarrow> region \<Rightarrow> nat \<Rightarrow> 'h \<Rightarrow> 'h solver" where
  "solver_new o1 r seed h =
     \<lparr>opts = o1,
      stats = \<lparr>decisions = 0, rnd_decisions = 0, propagations = 0, conflicts = 0, dec_vars = 0, clauses_literals = 0,
               learnts_literals = 0, max_literals = 0, tot_literals = 0, stats_removed_clauses = 0\<rparr>,
      limits = \<lparr>conflict_budget = - 1, propagation_budget = - 1, asynch_interrupt = False\<rparr>,
      ths = \<lparr>tstate = h, n_theories = 0, decidable_theories = [], theory_queue = [], in_theory_queue = [],
             theory_order_heap = heap_empty, theory_decision_trail = [], theory_inc = 1, markers = [], marker_theory = []\<rparr>,
      ok = True, clauses = [], learnts = [], cla_inc = 1, activity = [], var_inc = 1,
      watches = \<lparr>occs = [], dirty = [], dirties = []\<rparr>,
      assigns = [], polarity = [], decision = [], priority = [], theory_vars = [],
      trail = [], trail_lim = [], vardata = [], qhead = 0, simpDB_assigns = - 1, simpDB_props = 0,
      assumptions = [], order_heap = heap_empty,
      ca = \<lparr>region_of = r, extra_clause_field = False, marker_refs = CRef_Undef, mem = \<lambda>_. None\<rparr>,
      released_vars = [], free_vars = [], seen = [], to_analyze = [], clauses_to_add = [],
      max_learnts = 1, learntsize_adjust_confl = 0, learntsize_adjust_cnt = 0, random_seed = seed,
      initialPropagate = True, theoryConflict = - 1, min_decision_var = 0, max_decision_var = - 1,
      tmp_clause = CRef_Undef, tmp_clause_sz = 0, initial_level = 0, track_min_level = 0, const_true = lit_Undef\<rparr>"

text \<open>The invariant reads six fields.\<close>

lemma solver_inv_cong:
  assumes "trail s' = trail s" and "assigns s' = assigns s" and "vardata s' = vardata s" and "ca s' = ca s"
    and "watches s' = watches s" and "qhead s' = qhead s"
  shows "solver_inv A s' = solver_inv A s" and "queue_done A s' = queue_done A s"
proof -
  have e: "isT s' = isT s" "isU s' = isU s" "nVars s' = nVars s" "reason s' = reason s" "clits s' = clits s"
    "wlist s' = wlist s"
    using assms state_eqs by blast+
  have w: "wlist (watches_cleanAll s') = wlist (watches_cleanAll s)"
    by (simp add: fun_eq_iff wlist_def watches_cleanAll_def assms)
  show "solver_inv A s' = solver_inv A s" "queue_done A s' = queue_done A s"
    by (simp_all add: solver_inv_def bcp_inv_def trail_ok_def reasons_ok_def reasons_live_def queue_done_def processed_def
        sat_clause_def assms e w)
qed

lemma solver_inv_new: "solver_inv {} (solver_new o1 r seed h)" "queue_done {} (solver_new o1 r seed h)"
proof -
  let ?s = "solver_new o1 r seed h"
  have "nVars ?s = 0" "trail ?s = []" "assigns ?s = []"
    by (simp_all add: solver_new_def nVars_def)
  moreover have "\<not> lit_ok 0 p" for p by (simp add: lit_ok_def)
  ultimately show "solver_inv {} ?s"
    by (simp add: solver_inv_def bcp_inv_def trail_ok_def reasons_ok_def reasons_live_def winv_def clauses_ok_def)
      (simp add: solver_new_def occ_wf_def)
  show "queue_done {} ?s" by (simp add: queue_done_def processed_def)
qed

section \<open>New variables\<close>

lemma init_watches_spec:
  assumes "length (occs w) = 2 * n" and "length (dirty w) = 2 * n"
  shows "init_watches (int n) w = w\<lparr>occs := occs w @ [[], []], dirty := dirty w @ [False, False]\<rparr>"
proof -
  have "lix (mkLit (int n) False) = 2 * n" "lix (mkLit (int n) True) = Suc (2 * n)"
    by (simp_all add: lix_def toInt_def mkLit_def nat_add_distrib)
  then show ?thesis using assms
    by (simp add: init_watches_def occ_init_def Let_def list_update_append)
qed

lemma lit_ok_Suc: "lit_ok (Suc n) p \<longleftrightarrow> lit_ok n p \<or> var p = int n"
  by (auto simp: lit_ok_alt)

lemma newVar_step:
  assumes inv: "solver_inv A s" and dn: "queue_done A s"
    and eqs: "trail s' = trail s" "qhead s' = qhead s" "ca s' = ca s" "assigns s' = assigns s @ [l_Undef]"
      "vardata s' = vardata s @ [d]" "watches s' = init_watches (int (nVars s)) (watches s)"
  shows "solver_inv A s'" and "queue_done A s'" and "nVars s' = Suc (nVars s)"
proof -
  let ?n = "nVars s"
  have bi: "bcp_inv A s (wlist (watches_cleanAll s))" and wf: "occ_wf (watches s)"
    and q: "qhead s \<le> length (trail s)" using inv by (auto simp: solver_inv_def)
  have tok: "trail_ok s" and wi: "winv ?n A (clits s) (wlist (watches_cleanAll s))" and ro: "reasons_ok A s"
    and len: "length (occs (watches s)) = 2 * ?n" using bi by (auto simp: bcp_inv_def)
  have lend: "length (dirty (watches s)) = 2 * ?n" using wf len by (simp add: occ_wf_def)
  have la: "length (assigns s) = ?n" using tok by (simp add: trail_ok_def)
  show n: "nVars s' = Suc ?n" by (simp add: nVars_def eqs)
  have cl: "clits s' = clits s" using eqs(3) by (rule state_eqs(7))
  have w: "watches s' = (watches s)\<lparr>occs := occs (watches s) @ [[], []], dirty := dirty (watches s) @ [False, False]\<rparr>"
    unfolding eqs(6) by (rule init_watches_spec [OF len lend])
  have val: "assigns s' ! vix (var p) = (if lit_ok ?n p then assigns s ! vix (var p) else l_Undef)"
    if "lit_ok (Suc ?n) p" for p
    using that lit_ok_vix [of ?n p] la by (auto simp: eqs nth_append lit_ok_Suc vix_def lit_ok_alt)
  have new: "var p \<notin> var ` set (trail s)" if "var p = int ?n" for p
    using trail_okD(4) [OF tok] that by (fastforce simp: lit_ok_alt)
  have "trail_ok s'"
    unfolding trail_ok_def n eqs
  proof (intro conjI allI impI ballI)
    fix p assume p: "lit_ok (Suc ?n) p"
    show "isT s' p \<longleftrightarrow> p \<in> set (trail s)"
    proof (cases "lit_ok ?n p")
      case True
      then show ?thesis using val [OF p] trail_okD(1) [OF tok True] by (simp add: isT_alt)
    next
      case False
      then show ?thesis using val [OF p] trail_okD(4) [OF tok, of p] by (auto simp: isT_alt)
    qed
    show "isU s' p \<longleftrightarrow> var p \<notin> var ` set (trail s)"
    proof (cases "lit_ok ?n p")
      case True
      then show ?thesis using val [OF p] tok by (simp add: isU_alt trail_ok_def)
    next
      case False
      then show ?thesis using val [OF p] new [of p] p by (auto simp: isU_alt lit_ok_Suc)
    qed
  qed (use tok la in \<open>auto simp: trail_ok_def lit_ok_Suc\<close>)
  have rs: "reason s' (var p) = reason s (var p)" if "p \<in> set (trail s)" for p
    using lit_ok_vix [OF trail_okD(4) [OF tok that]] by (simp add: reason_def eqs nth_append nVars_def)
  have "reasons_ok A s'"
    using ro by (simp add: reasons_ok_def eqs cl rs)
  moreover have "reasons_live A s'"
    using bi by (simp add: bcp_inv_def reasons_live_def eqs rs)
  ultimately have rr: "reasons_ok A s' \<and> reasons_live A s'" by simp
  have wl: "wlist s' p = (if lit_ok ?n p then wlist s p else [])" if "lit_ok (Suc ?n) p" for p
  proof (cases "lit_ok ?n p")
    case True
    then show ?thesis using lit_ok_lix [OF True] len by (simp add: wlist_def w nth_append)
  next
    case False
    then have "lix p - 2 * ?n = 0 \<or> lix p - 2 * ?n = 1" "2 * ?n \<le> lix p"
      using that by (auto simp: lit_ok_Suc lix_def toInt_def lit_ok_def var_alt)
    then show ?thesis using False len by (auto simp: wlist_def w nth_append)
  qed
  have wf': "occ_wf (watches s')" using wf len lend by (auto simp: occ_wf_def w nth_append less_Suc_eq)
  have wc: "wlist (watches_cleanAll s') p = (if lit_ok ?n p then wlist (watches_cleanAll s) p else [])"
    if p: "lit_ok (Suc ?n) p" for p
  proof -
    have "lix p < length (occs (watches s'))" using lit_ok_lix [OF p] len by (simp add: w)
    note c = wlist_cleanAll [OF wf' this]
    show ?thesis
    proof (cases "lit_ok ?n p")
      case True
      then show ?thesis
        using c wl [OF p] lit_ok_lix [OF True] len lend wlist_cleanAll [OF wf, of p] by (simp add: w nth_append eqs)
    qed (use c wl [OF p] in simp)
  qed
  have ok: "\<forall>l \<in> set (clits s cr). lit_ok ?n l" if "cr \<in> A" for cr
    using winvD(1) [OF wi] that by (auto simp: clauses_ok_def)
  have nw: "\<not> watched (clits s cr) p" if "cr \<in> A" "var p = int ?n" for cr p
  proof
    assume "watched (clits s cr) p"
    moreover have "2 \<le> length (clits s cr)" using winvD(1) [OF wi] that by (auto simp: clauses_ok_def)
    ultimately have "neg p \<in> set (clits s cr)" by (rule watched_mem [rotated])
    then show False using ok [OF that(1)] that(2) by (fastforce simp: lit_ok_alt)
  qed
  have "winv (Suc ?n) A (clits s) (wlist (watches_cleanAll s'))"
    using wi nw unfolding winv_def
    by (auto simp: wc lit_ok_Suc clauses_ok_def)
  then show "solver_inv A s'"
    using \<open>trail_ok s'\<close> rr bi wf' q n inv
    by (auto simp: solver_inv_def bcp_inv_def eqs(1-3) cl w wl split: if_splits)
  have "sat_clause s' cr" if c: "cr \<in> A" "sat_clause s cr" for cr
  proof -
    obtain l where l: "l \<in> set (clits s cr)" "isT s l" using c(2) by (auto simp: sat_clause_def)
    then have "lit_ok ?n l" using ok [OF c(1)] by blast
    then have "isT s' l" using l(2) val [of l] by (simp add: isT_alt lit_ok_Suc)
    then show ?thesis using l(1) cl by (auto simp: sat_clause_def)
  qed
  then show "queue_done A s'"
    using dn by (auto simp: queue_done_def processed_def eqs cl)
qed

text \<open>\<^verbatim>\<open>newVar\<close> without a released variable to reuse.\<close>

lemma insertVarOrder_frame [simp]:
  "trail (insertVarOrder x s) = trail s" "qhead (insertVarOrder x s) = qhead s"
  "ca (insertVarOrder x s) = ca s" "assigns (insertVarOrder x s) = assigns s"
  "vardata (insertVarOrder x s) = vardata s" "watches (insertVarOrder x s) = watches s"
  "clauses (insertVarOrder x s) = clauses s" "learnts (insertVarOrder x s) = learnts s"
  "ok (insertVarOrder x s) = ok s" "trail_lim (insertVarOrder x s) = trail_lim s"
  "free_vars (insertVarOrder x s) = free_vars s" "ths (insertVarOrder x s) = ths s"
  "opts (insertVarOrder x s) = opts s" "activity (insertVarOrder x s) = activity s"
  "priority (insertVarOrder x s) = priority s" "theory_vars (insertVarOrder x s) = theory_vars s"
  "seen (insertVarOrder x s) = seen s" "decision (insertVarOrder x s) = decision s"
  "polarity (insertVarOrder x s) = polarity s"
  by (auto simp: insertVarOrder_def heap_insert_var_def split: option.splits)

lemma setDecisionVar_frame [simp]:
  "trail (setDecisionVar x b s) = trail s" "qhead (setDecisionVar x b s) = qhead s"
  "ca (setDecisionVar x b s) = ca s" "assigns (setDecisionVar x b s) = assigns s"
  "vardata (setDecisionVar x b s) = vardata s" "watches (setDecisionVar x b s) = watches s"
  "clauses (setDecisionVar x b s) = clauses s" "learnts (setDecisionVar x b s) = learnts s"
  "ok (setDecisionVar x b s) = ok s" "trail_lim (setDecisionVar x b s) = trail_lim s"
  "free_vars (setDecisionVar x b s) = free_vars s" "ths (setDecisionVar x b s) = ths s"
  "opts (setDecisionVar x b s) = opts s" "activity (setDecisionVar x b s) = activity s"
  "priority (setDecisionVar x b s) = priority s" "theory_vars (setDecisionVar x b s) = theory_vars s"
  "seen (setDecisionVar x b s) = seen s" "polarity (setDecisionVar x b s) = polarity s"
  by (auto simp: setDecisionVar_def Let_def)

lemma newVar_spec:
  assumes inv: "solver_inv A s" and dn: "queue_done A s" and fr: "free_vars s = []"
    and r: "newVar sg dv s = (v, s')"
  shows "v = int (nVars s)" and "solver_inv A s'" and "queue_done A s'" and "nVars s' = Suc (nVars s)"
    and "trail s' = trail s" and "clauses s' = clauses s" and "learnts s' = learnts s" and "ok s' = ok s"
    and "trail_lim s' = trail_lim s" and "free_vars s' = []" and "ca s' = ca s"
proof -
  have v: "v = int (nVars s)"
    using r fr by (simp add: newVar_def pick_var_def Let_def split: prod.splits)
  have la: "length (assigns s) = nVars s"
    using inv by (simp add: solver_inv_def bcp_inv_def trail_ok_def)
  have f: "trail s' = trail s \<and> qhead s' = qhead s \<and> ca s' = ca s \<and> assigns s' = assigns s @ [l_Undef] \<and>
      vardata s' = vardata s @ [\<lparr>vreason = CRef_Undef, vlevel = 0\<rparr>] \<and>
      watches s' = init_watches (int (nVars s)) (watches s) \<and> clauses s' = clauses s \<and> learnts s' = learnts s \<and>
      ok s' = ok s \<and> trail_lim s' = trail_lim s \<and> free_vars s' = []"
  proof -
    obtain a sd1 where a: "initial_activity (push_var s) = (a, sd1)" by (cases "initial_activity (push_var s)")
    obtain pol sd2 where p: "initial_polarity (push_var s) sg sd1 = (pol, sd2)"
      by (cases "initial_polarity (push_var s) sg sd1")
    have "s' = setDecisionVar v (dv \<and> \<not> outside_decisions (push_var s) v) (reset_var v a pol sd2 (push_var s))"
      using r fr a p by (auto simp: newVar_def pick_var_def)
    then show ?thesis using la fr v by (simp add: reset_var_def push_var_def vix_def nVars_def list_update_append)
  qed
  show "v = int (nVars s)" by (rule v)
  show "solver_inv A s'" "queue_done A s'" "nVars s' = Suc (nVars s)"
    using newVar_step [OF inv dn] f by blast+
  show "trail s' = trail s" "clauses s' = clauses s" "learnts s' = learnts s" "ok s' = ok s"
    "trail_lim s' = trail_lim s" "free_vars s' = []" "ca s' = ca s" using f by auto
qed

section \<open>Attaching a clause\<close>

lemma winv_attach:
  assumes wi: "winv n A L W" and cr: "cr \<notin> A" and c: "2 \<le> length (L cr)" "distinct (L cr)" "\<forall>l \<in> set (L cr). lit_ok n l"
    and W': "\<And>q. lit_ok n q \<Longrightarrow> W' q = (if watched (L cr) q then W q @ [w q] else W q)"
    and w: "\<And>q. watched (L cr) q \<Longrightarrow> cref (w q) = cr \<and> blocker (w q) \<in> set (L cr)"
  shows "winv n (insert cr A) L W'"
proof -
  have fresh: "cr \<notin> cref ` set (W q)" if "lit_ok n q" for q
    using winvD(3) [OF wi that] cr by auto
  show ?thesis
    unfolding winv_def
  proof (intro conjI allI impI ballI)
    show "clauses_ok n (insert cr A) L" using winvD(1) [OF wi] c by (auto simp: clauses_ok_def)
    fix q assume q: "lit_ok n q"
    show "distinct (map cref (W' q))" using winvD(2) [OF wi q] fresh [OF q] w [of q] by (auto simp: W' [OF q])
    show "cref u \<in> insert cr A" "blocker u \<in> set (L (cref u))" "watched (L (cref u)) q" if "u \<in> set (W' q)" for u
      using that winvD(3) [OF wi q, of u] w [of q] by (auto simp: W' [OF q] split: if_splits)
    show "r \<in> cref ` set (W' q)" if "r \<in> insert cr A" "watched (L r) q" for r
      using that winvD(4) [OF wi q, of r] w [of q] by (auto simp: W' [OF q])
  qed
qed

lemma first_two: "2 \<le> length c \<Longrightarrow> c ! 0 \<in> set c \<and> c ! 1 \<in> set c \<and> (distinct c \<longrightarrow> c ! 0 \<noteq> c ! 1)"
  by (cases c; cases "tl c") auto

lemma attach_inv:
  assumes inv: "solver_inv A s" and cr: "cr \<notin> A" "isClause (ca s) cr"
    and m: "mem (ca s) cr = Some d" "cmark d \<noteq> 1"
    and c: "2 \<le> length (lits d)" "distinct (lits d)" "\<forall>l \<in> set (lits d). lit_ok (nVars s) l"
    and fresh: "\<forall>q. lit_ok (nVars s) q \<longrightarrow> (\<forall>w \<in> set (wlist s q). cref w \<noteq> cr)"
    and norsn: "\<forall>p \<in> set (trail s). reason s (var p) \<noteq> cr"
  defines "s' \<equiv> attachClause cr s"
  shows "solver_inv (insert cr A) s'" and "trail s' = trail s" and "clits s' = clits s" and "clauses s' = clauses s" and "learnts s' = learnts s"
    and "nVars s' = nVars s" and "trail_lim s' = trail_lim s" and "ok s' = ok s" and "ca s' = ca s"
    and "assigns s' = assigns s" and "vardata s' = vardata s" and "qhead s' = qhead s"
proof -
  let ?n = "nVars s" let ?c = "clits s cr" let ?W = "wlist (watches_cleanAll s)"
  let ?w = "\<lambda>q. \<lparr>cref = cr, blocker = (if q = neg (?c ! 0) then ?c ! 1 else ?c ! 0)\<rparr>"
  have cd: "?c = lits d" by (simp add: clits_def clause_at_def ca_get_def m)
  have bi: "bcp_inv A s ?W" and wf: "occ_wf (watches s)" and len: "length (occs (watches s)) = 2 * ?n"
    and tok: "trail_ok s" and wi: "winv ?n A (clits s) ?W"
    using inv by (auto simp: solver_inv_def bcp_inv_def)
  have mem01: "?c ! 0 \<in> set ?c" "?c ! 1 \<in> set ?c" and ne: "?c ! 0 \<noteq> ?c ! 1"
    using first_two [of ?c] c(1,2) cd by auto
  have ok01: "lit_ok ?n (neg (?c ! 0))" "lit_ok ?n (neg (?c ! 1))" using mem01 c(3) cd by auto
  have w': "watches s' = occ_push (lix (neg (?c ! 1))) \<lparr>cref = cr, blocker = ?c ! 0\<rparr>
      (occ_push (lix (neg (?c ! 0))) \<lparr>cref = cr, blocker = ?c ! 1\<rparr> (watches s))"
    by (simp add: s'_def attachClause_def add_literals_def Let_def clits_def)
  show eqs: "trail s' = trail s" "clits s' = clits s" "clauses s' = clauses s" "learnts s' = learnts s"
    "nVars s' = nVars s" "trail_lim s' = trail_lim s" "ok s' = ok s" "ca s' = ca s"
    by (auto simp: s'_def attachClause_def add_literals_def Let_def nVars_def clits_def clause_at_def fun_eq_iff)
  have eqs2: "assigns s' = assigns s" "vardata s' = vardata s" "qhead s' = qhead s"
    by (auto simp: s'_def attachClause_def add_literals_def Let_def)
  have wl: "wlist s' q = (if watched ?c q then wlist s q @ [?w q] else wlist s q)" if q: "lit_ok ?n q" for q
  proof -
    have l: "lix q < 2 * ?n" "lix (neg (?c ! 0)) < 2 * ?n" "lix (neg (?c ! 1)) < 2 * ?n"
      using lit_ok_lix q ok01 by auto
    have i: "lix (neg (?c ! 0)) = lix q \<longleftrightarrow> q = neg (?c ! 0)" "lix (neg (?c ! 1)) = lix q \<longleftrightarrow> q = neg (?c ! 1)"
      using lix_inject [OF ok01(1) q] lix_inject [OF ok01(2) q] by auto
    have i2: "lix (neg (?c ! 1)) \<noteq> lix (neg (?c ! 0))" using lix_inject [OF ok01(2,1)] ne by simp
    show ?thesis
      using l i i2 ne len unfolding wlist_def w' occ_push_def watched_def
      by (auto simp: nth_list_update)
  qed
  have wf': "occ_wf (watches s')" using wf by (simp add: occ_wf_def w' occ_push_def)
  have dirty: "dirty (watches s') = dirty (watches s)" by (simp add: w' occ_push_def)
  have wc: "wlist (watches_cleanAll s') q = (if watched ?c q then ?W q @ [?w q] else ?W q)" if q: "lit_ok ?n q" for q
  proof -
    have b: "lix q < length (occs (watches s))" "lix q < length (occs (watches s'))"
      using lit_ok_lix [OF q] len by (simp_all add: w' occ_push_def)
    have nd: "\<not> watcher_deleted (ca s) (?w q)" using m by (simp add: watcher_deleted_def ca_get_def)
    show ?thesis
      using wlist_cleanAll [OF wf b(1)] wlist_cleanAll [OF wf' b(2)] wl [OF q] nd by (simp add: dirty eqs(8))
  qed
  have "winv ?n (insert cr A) (clits s) (wlist (watches_cleanAll s'))"
    using c cd mem01 wc by (intro winv_attach [OF wi cr(1), where w = ?w]) auto
  moreover have "reasons_ok (insert cr A) s"
    using bi norsn by (auto simp: bcp_inv_def reasons_ok_def)
  moreover have e: "isT s' = isT s" "isU s' = isU s" "reason s' = reason s" "isF s' = isF s"
    using eqs2 state_eqs by blast+
  ultimately show "solver_inv (insert cr A) s'"
    using bi inv wf' m cr(2) wl
    by (auto simp: solver_inv_def bcp_inv_def trail_ok_def reasons_ok_def reasons_live_def eqs eqs2 split: if_splits)
      (simp_all add: w' occ_push_def)
  show "assigns s' = assigns s" "vardata s' = vardata s" "qhead s' = qhead s" by (rule eqs2)+
qed

text \<open>No clause literal is false: nothing has to be propagated.\<close>

lemma attach_step:
  assumes inv: "solver_inv A s" and dn: "queue_done A s" and cr: "cr \<notin> A" "isClause (ca s) cr"
    and m: "mem (ca s) cr = Some d" "cmark d \<noteq> 1"
    and c: "2 \<le> length (lits d)" "distinct (lits d)" "\<forall>l \<in> set (lits d). lit_ok (nVars s) l \<and> \<not> isF s l"
    and fresh: "\<forall>q. lit_ok (nVars s) q \<longrightarrow> (\<forall>w \<in> set (wlist s q). cref w \<noteq> cr)"
    and norsn: "\<forall>p \<in> set (trail s). reason s (var p) \<noteq> cr"
  defines "s' \<equiv> attachClause cr s"
  shows "solver_inv (insert cr A) s'" and "queue_done (insert cr A) s'"
    and "trail s' = trail s" and "clits s' = clits s" and "clauses s' = clauses s" and "learnts s' = learnts s"
    and "nVars s' = nVars s" and "trail_lim s' = trail_lim s" and "ok s' = ok s" and "ca s' = ca s"
proof -
  have ok: "\<forall>l \<in> set (lits d). lit_ok (nVars s) l" using c(3) by blast
  note at = attach_inv [OF inv cr m c(1,2) ok fresh norsn, folded s'_def]
  show "solver_inv (insert cr A) s'" "trail s' = trail s" "clits s' = clits s" "clauses s' = clauses s"
    "learnts s' = learnts s" "nVars s' = nVars s" "trail_lim s' = trail_lim s" "ok s' = ok s" "ca s' = ca s"
    by (rule at)+
  have e: "isT s' = isT s" using at(10) state_eqs by blast
  let ?c = "clits s cr"
  have cd: "?c = lits d" by (simp add: clits_def clause_at_def ca_get_def m)
  have tok: "trail_ok s" using inv by (simp add: solver_inv_def bcp_inv_def)
  have mem01: "?c ! 0 \<in> set ?c" "?c ! 1 \<in> set ?c" using first_two [of ?c] c(1,2) cd by auto
  have "neg l \<notin> set (trail s)" if "l \<in> set ?c" for l
    using c(3) cd that trail_okD(2) [OF tok, of l] by auto
  then have "\<not> watched ?c q" if "q \<in> set (take (qhead s) (trail s))" for q
    using that mem01 set_take_subset [of "qhead s" "trail s"] by (auto simp: watched_def)
  then show "queue_done (insert cr A) s'"
    using dn by (auto simp: queue_done_def processed_def sat_clause_def at(2,3,12) e)
qed

end
