(* ===== verification/Solver_AddClause.thy ===== *)
theory Solver_AddClause
  imports Solver_Build
begin

text \<open>
  \<^verbatim>\<open>addClause_\<close> at the root level: normalisation, unit clauses, allocation and attachment.  Adding a clause
  keeps the invariants of the solver and intersects its set of models with the models of the clause.
\<close>

section \<open>Normalisation\<close>

lemma norm_loop_None:
  "norm_loop tt ff p qs = None \<Longrightarrow> \<exists>q \<in> set qs. tt q \<or> neg q \<in> set qs \<or> q = neg p"
proof (induction qs arbitrary: p)
  case (Cons q qs)
  show ?case
  proof (cases "tt q \<or> q = neg p")
    case False
    let ?p = "if \<not> ff q \<and> q \<noteq> p then q else p"
    have "norm_loop tt ff ?p qs = None" using Cons.prems False by (auto split: if_splits)
    from Cons.IH [OF this] show ?thesis using False by (auto split: if_splits)
  qed auto
qed simp

lemma norm_loop_Some:
  assumes "norm_loop tt ff p qs = Some rs" and "sorted (map lx qs)" and "\<forall>q \<in> set qs. lx p \<le> lx q"
  shows "set rs = {q \<in> set qs. \<not> ff q \<and> q \<noteq> p} \<and> distinct rs \<and> (\<forall>q \<in> set rs. \<not> tt q) \<and> length rs \<le> length qs"
  using assms
proof (induction qs arbitrary: p rs)
  case (Cons q qs)
  have n: "\<not> tt q" "q \<noteq> neg p" using Cons.prems(1) by (auto split: if_splits)
  have s: "sorted (map lx qs)" "\<forall>r \<in> set qs. lx q \<le> lx r" "\<forall>r \<in> set qs. lx p \<le> lx r" "lx p \<le> lx q"
    using Cons.prems(2,3) by auto
  show ?case
  proof (cases "\<not> ff q \<and> q \<noteq> p")
    case True
    then obtain rs' where r: "norm_loop tt ff q qs = Some rs'" "rs = q # rs'" using Cons.prems(1) n by auto
    have "lx p \<noteq> lx q" using True by (auto simp: lx_def split: Lit.splits)
    then have "p \<notin> set qs" using s(2,4) by force
    then show ?thesis using Cons.IH [OF r(1) s(1,2)] True n r(2) by auto
  next
    case False
    then have "norm_loop tt ff p qs = Some rs" using Cons.prems(1) n by (auto split: if_splits)
    from Cons.IH [OF this s(1,3)] show ?thesis using False by auto
  qed
qed simp

lemma neg_lit_Undef: "lx (neg lit_Undef) < 0"
  by (simp add: neg_def lit_xor_def lit_Undef_def)

section \<open>Changing the allocator\<close>

text \<open>The invariant survives any change of the allocator that keeps the clauses it has.\<close>

lemma solver_inv_ca:
  assumes inv: "solver_inv A s" and ext: "\<forall>cr. mem (ca s) cr \<noteq> None \<longrightarrow> mem (ca s') cr = mem (ca s) cr"
    and mr: "marker_refs (ca s') = marker_refs (ca s)"
    and eqs: "trail s' = trail s" "assigns s' = assigns s" "vardata s' = vardata s" "watches s' = watches s"
      "qhead s' = qhead s"
  shows "solver_inv A s'" and "queue_done A s \<Longrightarrow> queue_done A s'"
proof -
  have e: "isT s' = isT s" "isU s' = isU s" "isF s' = isF s" "nVars s' = nVars s" "reason s' = reason s" "wlist s' = wlist s"
    using eqs state_eqs by blast+
  have bi: "bcp_inv A s (wlist (watches_cleanAll s))" and wf: "occ_wf (watches s)" and len: "length (occs (watches s)) = 2 * nVars s"
    and live: "\<forall>q. lit_ok (nVars s) q \<longrightarrow> (\<forall>w \<in> set (wlist s q). mem (ca s) (cref w) \<noteq> None)"
    using inv by (auto simp: solver_inv_def bcp_inv_def)
  have cl: "clits s' cr = clits s cr" if "cr \<in> A" for cr
    using bi that ext by (simp add: bcp_inv_def clits_def clause_at_def ca_get_def)
  have wc: "wlist (watches_cleanAll s') q = wlist (watches_cleanAll s) q" if q: "lit_ok (nVars s) q" for q
  proof -
    have b: "lix q < length (occs (watches s))" using lit_ok_lix [OF q] len by simp
    then have b': "lix q < length (occs (watches s'))" by (simp add: eqs)
    have wf': "occ_wf (watches s')" using wf by (simp add: eqs)
    have "watcher_deleted (ca s') w = watcher_deleted (ca s) w" if "w \<in> set (wlist s q)" for w
      using live q that ext by (auto simp: watcher_deleted_def ca_get_def)
    then have "filter (\<lambda>w. \<not> watcher_deleted (ca s') w) (wlist s q) = filter (\<lambda>w. \<not> watcher_deleted (ca s) w) (wlist s q)"
      by (intro filter_cong) auto
    then show ?thesis
      unfolding wlist_cleanAll [OF wf b] wlist_cleanAll [OF wf' b'] by (simp add: eqs e(6))
  qed
  have "winv (nVars s) A (clits s') (wlist (watches_cleanAll s'))"
    using bi winv_cong [OF wc cl, where A = A] by (simp add: bcp_inv_def)
  moreover have "trail_ok s'" using bi by (simp add: bcp_inv_def trail_ok_def e eqs)
  moreover have "reasons_ok A s'" using bi cl by (simp add: bcp_inv_def reasons_ok_def e eqs)
  moreover have "reasons_live A s'"
    using bi ext mr by (simp add: bcp_inv_def reasons_live_def e eqs isClause_def)
  moreover have "\<forall>cr \<in> A. mem (ca s') cr \<noteq> None" using bi ext by (simp add: bcp_inv_def)
  ultimately show "solver_inv A s'"
    using inv ext mr by (simp add: solver_inv_def bcp_inv_def e eqs isClause_def)
  show "queue_done A s'" if "queue_done A s"
    using that cl by (simp add: queue_done_def processed_def sat_clause_def e eqs)
qed

section \<open>The root level\<close>

definition db :: "'h solver \<Rightarrow> CRef set" where
  "db s = set (clauses s) \<union> set (learnts s)"

definition root_ok :: "'h solver \<Rightarrow> bool" where
  "root_ok s \<longleftrightarrow> solver_inv (db s) s \<and> queue_done (db s) s \<and> trail_lim s = [] \<and> allocator_wf (ca s)"

text \<open>The assignments that satisfy the clauses and the literals fixed at the root.\<close>

definition models :: "'h solver \<Rightarrow> (Lit \<Rightarrow> bool) set" where
  "models s = {M. lit_model M \<and> (\<forall>cr \<in> db s. \<exists>l \<in> set (clits s cr). M l) \<and> (\<forall>p \<in> set (trail s). M p)}"

definition clause_models :: "Lit list \<Rightarrow> (Lit \<Rightarrow> bool) set" where
  "clause_models ps = {M. \<exists>l \<in> set ps. M l}"

lemma solver_inv_enqueue_reason:
  fixes T :: "'h theory_ops" and s :: "'h solver"
  assumes inv: "solver_inv A s" and dn: "queue_done (A - {cr}) s" and q: "lit_ok (nVars s) q" and U: "isU s q"
    and rs: "cr \<in> A \<Longrightarrow> clits s cr ! 0 = q \<and> (\<forall>l \<in> set (clits s cr). l \<noteq> q \<longrightarrow> isF s l)"
    and live: "isClause (ca s) cr \<Longrightarrow> cr \<in> A" and calm: "calm T s"
  defines "s1 \<equiv> uncheckedEnqueue T q cr s"
  shows "solver_inv A s1" and "queue_done A s1"
proof -
  have bi: "bcp_inv A s (wlist (watches_cleanAll s))" and ql: "qhead s \<le> length (trail s)"
    using inv by (auto simp: solver_inv_def)
  note e = enqueue_step [OF bi q U rs live calm, folded s1_def]
  have r: "bcp_inv A s1 (wlist (watches_cleanAll s))" using e(1) by blast
  have f: "trail s1 = trail s @ [q]" "qhead s1 = qhead s" "watches s1 = watches s" "clits s1 = clits s"
    "nVars s1 = nVars s" "\<And>l. lit_ok (nVars s) l \<Longrightarrow> isT s1 l \<longleftrightarrow> isT s l \<or> l = q"
    using e(2-6,8) by blast+
  have ca: "ca s1 = ca s" using calm_enqueue [OF calm q, of cr] by (auto simp: s1_def)
  have w: "wlist (watches_cleanAll s1) = wlist (watches_cleanAll s)" "wlist s1 = wlist s"
    by (simp_all add: fun_eq_iff wlist_def watches_cleanAll_def f ca)
  show "solver_inv A s1"
    using r inv ql by (simp add: solver_inv_def w f ca)
  have cl: "2 \<le> length (clits s r) \<and> (\<forall>l \<in> set (clits s r). lit_ok (nVars s) l)" if "r \<in> A" for r
    using bi that winvD(1) [of "nVars s" A "clits s" "wlist (watches_cleanAll s)"] by (auto simp: bcp_inv_def clauses_ok_def)
  have "sat_clause s1 r" if "sat_clause s r" "r \<in> A" for r using that(1) f cl [OF that(2)] by (auto simp: sat_clause_def)
  moreover have "sat_clause s1 cr" if "cr \<in> A"
    using rs [OF that] first_two [of "clits s cr"] cl [OF that] f(6) [OF q] by (auto simp: sat_clause_def f(4))
  ultimately show "queue_done A s1" using dn ql by (simp add: queue_done_def processed_def f) blast
qed

lemma solver_inv_enqueue:
  fixes T :: "'h theory_ops" and s :: "'h solver"
  assumes inv: "solver_inv A s" and dn: "queue_done A s" and q: "lit_ok (nVars s) q" and U: "isU s q"
    and cr: "cr \<notin> A" and live: "\<not> isClause (ca s) cr" and calm: "calm T s"
  defines "s1 \<equiv> uncheckedEnqueue T q cr s"
  shows "solver_inv A s1" and "queue_done A s1"
proof -
  have d: "queue_done (A - {cr}) s" using dn by (simp add: queue_done_def processed_def)
  show "solver_inv A s1" "queue_done A s1"
    unfolding s1_def using cr live calm by (auto intro!: solver_inv_enqueue_reason [OF inv d q U])
qed

lemma root_okD:
  assumes "root_ok s"
  shows "solver_inv (db s) s" and "queue_done (db s) s" and "trail_lim s = []" and "allocator_wf (ca s)"
    and "trail_ok s" and "reasons_live (db s) s"
    and "lit_ok (nVars s) q \<Longrightarrow> w \<in> set (wlist s q) \<Longrightarrow> mem (ca s) (cref w) \<noteq> None"
    and "cr \<in> db s \<Longrightarrow> mem (ca s) cr \<noteq> None"
  using assms by (auto simp: root_ok_def solver_inv_def bcp_inv_def)

lemma root_ok_cong:
  assumes "trail s' = trail s" and "assigns s' = assigns s" and "vardata s' = vardata s" and "ca s' = ca s"
    and "watches s' = watches s" and "qhead s' = qhead s" and "clauses s' = clauses s" and "learnts s' = learnts s"
    and "trail_lim s' = trail_lim s"
  shows "root_ok s' = root_ok s" and "models s' = models s"
proof -
  have "clits s' = clits s" using assms state_eqs by blast
  then show "root_ok s' = root_ok s" "models s' = models s"
    using solver_inv_cong [OF assms(1-6)] by (simp_all add: root_ok_def models_def db_def assms)
qed

lemma models_false:
  assumes "trail_ok s" and "\<forall>l \<in> set ps. lit_ok (nVars s) l \<and> isF s l"
  shows "models s \<inter> clause_models ps = {}"
proof -
  have "neg l \<in> set (trail s)" if "l \<in> set ps" for l using trail_okD(2) assms that by blast
  then show ?thesis by (force simp: models_def clause_models_def lit_model_def)
qed

text \<open>The clause and its normal form have the same models under the root literals.\<close>

lemma norm_models:
  assumes "trail_ok s" and "\<forall>l \<in> set ps. lit_ok (nVars s) l" and "set rs = {q \<in> set ps. \<not> isF s q}"
  shows "models s \<inter> clause_models ps = models s \<inter> clause_models rs"
proof -
  have "M l \<Longrightarrow> \<not> isF s l" if "M \<in> models s" "l \<in> set ps" for M l
    using that trail_okD(2) [OF assms(1), of l] assms(2) by (auto simp: models_def lit_model_def)
  then show ?thesis using assms(3) by (auto simp: clause_models_def)
qed

lemma norm_true:
  assumes "trail_ok s" and "\<forall>l \<in> set ps. lit_ok (nVars s) l" and "\<exists>q \<in> set ps. isT s q \<or> neg q \<in> set ps"
  shows "models s \<subseteq> clause_models ps"
proof
  fix M assume M: "M \<in> models s"
  from assms(3) obtain q where q: "q \<in> set ps" "isT s q \<or> neg q \<in> set ps" by blast
  have "isT s q \<Longrightarrow> M q" using M q(1) trail_okD(1) [OF assms(1), of q] assms(2) by (auto simp: models_def)
  moreover have "M q \<or> M (neg q)" using M by (auto simp: models_def lit_model_def)
  ultimately show "M \<in> clause_models ps" using q by (auto simp: clause_models_def)
qed

section \<open>Unit clauses\<close>

lemma add_unit:
  fixes T :: "'h theory_ops" and s :: "'h solver"
  assumes r: "root_ok s" and q: "lit_ok (nVars s) q" and U: "isU s q" and calm: "calm T s"
  shows "\<exists>confl s'. propagate T False (uncheckedEnqueue T q CRef_Undef s) = Some (confl, s') \<and> nVars s' = nVars s \<and>
     ok s' = ok s \<and> frame_rest s' = frame_rest s \<and> trail_lim s' = trail_lim s \<and> marker_refs (ca s') = marker_refs (ca s) \<and>
     region_of (ca s') = region_of (ca s) \<and>
     (if confl = CRef_Undef then root_ok s' \<and> models s' = models s \<inter> clause_models [q]
      else models s \<inter> clause_models [q] = {})"
proof -
  let ?A = "db s" and ?s1 = "uncheckedEnqueue T q CRef_Undef s"
  note rd = root_okD [OF r]
  have undef: "\<not> isClause (ca s) CRef_Undef" by simp
  have nA: "CRef_Undef \<notin> ?A" using rd(1) not_isClause_Undef by (auto simp: solver_inv_def bcp_inv_def)
  have s1: "solver_inv ?A ?s1" "queue_done ?A ?s1"
    using solver_inv_enqueue [OF rd(1,2) q U nA undef calm] by auto
  have f: "trail ?s1 = trail s @ [q]" "ca ?s1 = ca s" "clauses ?s1 = clauses s" "learnts ?s1 = learnts s"
    "trail_lim ?s1 = trail_lim s" "ok ?s1 = ok s" "nVars ?s1 = nVars s" "frame_rest ?s1 = frame_rest s"
    using calm_enqueue [OF calm q, of CRef_Undef] by (auto simp: nVars_def)
  have calm1: "calm T ?s1" using calm calm_cong [OF frame_restD(5) [OF f(8)] f(7)] by simp
  have cl1: "clits ?s1 = clits s" using f(2) by (rule state_eqs(7))
  from propagate_spec [OF s1 calm1] obtain confl s' where p:
    "propagate T False ?s1 = Some (confl, s')" "solver_inv ?A s'" "\<exists>ys. trail s' = trail ?s1 @ ys"
    "trail_lim s' = trail_lim s" "clauses s' = clauses s" "learnts s' = learnts s" "nVars s' = nVars s" "ok s' = ok s"
    "allocator_wf (ca s) \<longrightarrow> allocator_wf (ca s')" "entails ?A ?s1 (trail s @ [q]) (trail s')"
    "\<forall>cr \<in> ?A. mset (clits s' cr) = mset (clits s cr)" "confl = CRef_Undef \<longrightarrow> queue_done ?A s'"
    "confl \<noteq> CRef_Undef \<longrightarrow> confl \<in> ?A \<and> (\<forall>l \<in> set (clits s' confl). isF s' l)"
    "frame_rest s' = frame_rest s" "marker_refs (ca s') = marker_refs (ca s)" "region_of (ca s') = region_of (ca s)"
    unfolding f cl1 by blast
  have db': "db s' = ?A" by (simp add: db_def p(5,6))
  have sets: "set (clits s' cr) = set (clits s cr)" if "cr \<in> ?A" for cr using p(11) that mset_eq_setD by blast
  have up: "\<forall>l \<in> set (trail s'). M l" if "M \<in> models s" "M q" for M
    using p(10) that by (auto simp: entails_def models_def cl1)
  have "root_ok s' \<and> models s' = models s \<inter> clause_models [q]" if "confl = CRef_Undef"
  proof
    show "root_ok s'" using p rd that by (simp add: root_ok_def db')
    have "set (trail s) \<subseteq> set (trail s')" "q \<in> set (trail s')" using p(3) f(1) by auto
    then show "models s' = models s \<inter> clause_models [q]"
      using up sets by (auto simp: models_def clause_models_def db')
  qed
  moreover have "models s \<inter> clause_models [q] = {}" if c: "confl \<noteq> CRef_Undef"
  proof -
    have tok: "trail_ok s'" and ok: "\<forall>l \<in> set (clits s' confl). lit_ok (nVars s') l"
      using p(2) p(13) c winvD(1) [of "nVars s'" ?A "clits s'" "wlist (watches_cleanAll s')"]
      by (auto simp: solver_inv_def bcp_inv_def clauses_ok_def)
    have no: "neg l \<in> set (trail s')" if "l \<in> set (clits s' confl)" for l
      using trail_okD(2) [OF tok, of l] p(13) c ok that by blast
    have False if M: "M \<in> models s" "M q" for M
    proof -
      obtain l where "l \<in> set (clits s confl)" "M l" using M(1) p(13) c by (auto simp: models_def)
      then show False using up [OF M] no sets p(13) c M(1) by (auto simp: models_def lit_model_def)
    qed
    then show ?thesis by (auto simp: clause_models_def)
  qed
  ultimately show ?thesis using p by (intro exI [of _ confl] exI [of _ s']) simp
qed


section \<open>Longer clauses\<close>

lemma alloc_derived_spec:
  assumes wf: "allocator_wf (ca s)" and len: "length ps < 2 ^ 26"
    and room: "unat (rsz (region_of (ca s))) + length ps + 2 \<le> 2643056797"
  defines "cr \<equiv> rsz (region_of (ca s))"
  shows "\<exists>ca' d. alloc_clause ps l s = Some (cr, s\<lparr>ca := ca'\<rparr>) \<and> mem (ca s) cr = None \<and>
    mem (ca_modify cr (setDerived der) ca') = (mem (ca s))(cr \<mapsto> d) \<and> lits d = ps \<and> learnt d = l \<and> cmark d = 0 \<and>
    allocator_wf (ca_modify cr (setDerived der) ca') \<and>
    marker_refs (ca_modify cr (setDerived der) ca') = marker_refs (ca s) \<and>
    unat (rsz (region_of (ca_modify cr (setDerived der) ca'))) \<le> unat cr + length ps + 2"
proof -
  from ca_alloc_ok [OF wf len room, of l] obtain ca' where a:
    "ca_alloc ps l (ca s) = Some (Inr (cr, ca'))" "allocator_wf ca'" "mem (ca s) cr = None"
    "mem ca' = (mem (ca s))(cr \<mapsto> clause_new 0 0 ps (l \<or> extra_clause_field (ca s)) l)"
    "marker_refs ca' = marker_refs (ca s)" "unat (rsz (region_of ca')) \<le> unat cr + length ps + 2"
    by (auto simp: cr_def)
  let ?d = "setDerived der (clause_new 0 0 ps (l \<or> extra_clause_field (ca s)) l)"
  have len': "length ps mod 67108864 = length ps" using len by simp
  have m: "mem (ca_modify cr (setDerived der) ca') = (mem (ca s))(cr \<mapsto> ?d)" by (simp add: ca_modify_def a(4))
  have "allocator_wf (ca_modify cr (setDerived der) ca')"
    using a(2) unfolding allocator_wf_def m
    by (auto simp: a(4) ca_modify_def setDerived_def clause_size_def split: if_splits)
  then show ?thesis
    using a m len' by (intro exI [of _ ca'] exI [of _ ?d])
      (simp add: alloc_clause_def setDerived_def ca_modify_def)
qed

lemma add_long:
  assumes r: "root_ok s" and ps: "2 \<le> length ps" "distinct ps" "\<forall>l \<in> set ps. lit_ok (nVars s) l \<and> \<not> isF s l"
    and len: "length ps < 2 ^ 26" and room: "unat (rsz (region_of (ca s))) + length ps + 2 \<le> 2643056797"
    and mr: "rsz (region_of (ca s)) < marker_refs (ca s)"
  shows "\<exists>cr s1 s'. alloc_clause ps False s = Some (cr, s1) \<and>
     s' = attachClause cr (s1\<lparr>ca := ca_modify cr (setDerived der) (ca s1), clauses := clauses s1 @ [cr]\<rparr>) \<and>
     root_ok s' \<and> models s' = models s \<inter> clause_models ps \<and> nVars s' = nVars s \<and> ok s' = ok s \<and>
     trail s' = trail s \<and> seen s' = seen s \<and> opts s' = opts s \<and> frame_rest s' = frame_rest s \<and> trail_lim s' = trail_lim s \<and>
     cr \<notin> db s \<and> db s' = insert cr (db s) \<and>
     clits s' cr = ps \<and> (\<forall>r \<in> db s. clits s' r = clits s r) \<and> marker_refs (ca s') = marker_refs (ca s) \<and>
     unat (rsz (region_of (ca s'))) \<le> unat (rsz (region_of (ca s))) + length ps + 2"
proof -
  define cr where "cr = rsz (region_of (ca s))"
  note rd = root_okD [OF r]
  from alloc_derived_spec [OF rd(4) len room, of False der, folded cr_def] obtain ca' d where a:
    "alloc_clause ps False s = Some (cr, s\<lparr>ca := ca'\<rparr>)" "mem (ca s) cr = None"
    "mem (ca_modify cr (setDerived der) ca') = (mem (ca s))(cr \<mapsto> d)" "lits d = ps" "cmark d = 0"
    "allocator_wf (ca_modify cr (setDerived der) ca')"
    "marker_refs (ca_modify cr (setDerived der) ca') = marker_refs (ca s)"
    "unat (rsz (region_of (ca_modify cr (setDerived der) ca'))) \<le> unat cr + length ps + 2" by blast
  let ?ca = "ca_modify cr (setDerived der) ca'"
  define s1 where "s1 = s\<lparr>ca := ca'\<rparr>"
  define s2 where "s2 = s1\<lparr>ca := ?ca, clauses := clauses s1 @ [cr]\<rparr>"
  have s2: "s2 = s\<lparr>ca := ?ca, clauses := clauses s @ [cr]\<rparr>"
    by (simp add: s2_def s1_def)
  have f: "trail s2 = trail s" "assigns s2 = assigns s" "vardata s2 = vardata s" "watches s2 = watches s" "qhead s2 = qhead s"
    "ca s2 = ?ca" "clauses s2 = clauses s @ [cr]" "learnts s2 = learnts s" "trail_lim s2 = trail_lim s" "ok s2 = ok s"
    by (simp_all add: s2)
  have e: "isF s2 = isF s" "nVars s2 = nVars s" "reason s2 = reason s" "wlist s2 = wlist s"
    using f state_eqs by blast+
  have old: "\<forall>r. mem (ca s) r \<noteq> None \<longrightarrow> mem (ca s2) r = mem (ca s) r" using a(2,3) by (auto simp: f)
  have mr2: "marker_refs (ca s2) = marker_refs (ca s)" by (simp add: f a(7))
  note inv2 = solver_inv_ca [OF rd(1) old mr2 f(1-5)]
  have crdb: "cr \<notin> db s" using rd(8) a(2) by blast
  have cru: "isClause (ca s) cr" "isClause (ca s2) cr" using mr by (simp_all add: cr_def isClause_def mr2)
  have m2: "mem (ca s2) cr = Some d" by (simp add: f a(3))
  have fresh: "\<forall>q. lit_ok (nVars s2) q \<longrightarrow> (\<forall>w \<in> set (wlist s2 q). cref w \<noteq> cr)"
    using rd(7) a(2) by (metis e(2,4))
  have nr: "\<forall>p \<in> set (trail s2). reason s2 (var p) \<noteq> cr"
    using rd(6) crdb cru by (auto simp: reasons_live_def e f)
  have lits: "2 \<le> length (lits d)" "distinct (lits d)" "\<forall>l \<in> set (lits d). lit_ok (nVars s2) l \<and> \<not> isF s2 l"
    using ps by (simp_all add: a(4) e)
  have nd: "cmark d \<noteq> 1" by (simp add: a(5))
  note at = attach_step [OF inv2(1) inv2(2) [OF rd(2)] crdb cru(2) m2 nd lits fresh nr]
  let ?s' = "attachClause cr s2"
  have db': "db ?s' = insert cr (db s)" using at(5,6) by (auto simp: db_def f)
  have "root_ok ?s'"
    using at(1,2,8,10) rd a(6) by (simp add: root_ok_def db' f)
  moreover have cl: "clits s2 cr = ps" by (simp add: clits_def clause_at_def ca_get_def m2 a(4))
  moreover have clo: "clits s2 r = clits s r" if "r \<in> db s" for r
    using old rd(8) [OF that] by (simp add: clits_def clause_at_def ca_get_def)
  moreover have "models ?s' = models s \<inter> clause_models ps"
    using at(3,4) cl clo by (auto simp: models_def clause_models_def db' f)
  moreover have "nVars ?s' = nVars s" "ok ?s' = ok s" using at(7,9) by (simp_all add: e f)
  moreover have "s2 = s1\<lparr>ca := ca_modify cr (setDerived der) (ca s1), clauses := clauses s1 @ [cr]\<rparr>"
    by (simp add: s2_def s1_def)
  moreover have "trail ?s' = trail s" "seen ?s' = seen s" "opts ?s' = opts s" "frame_rest ?s' = frame_rest s" "trail_lim ?s' = trail_lim s"
    using at(3) by (simp_all add: f) (simp_all add: s2 attachClause_def add_literals_def Let_def)
  moreover have "marker_refs (ca ?s') = marker_refs (ca s)"
    "unat (rsz (region_of (ca ?s'))) \<le> unat (rsz (region_of (ca s))) + length ps + 2"
    using a(7,8) unfolding cr_def [symmetric] at(10) f by simp_all
  moreover have "clits ?s' cr = ps" "\<forall>r \<in> db s. clits ?s' r = clits s r" using cl clo at(4) by simp_all
  ultimately show ?thesis using a(1) crdb db' unfolding s1_def by blast
qed

section \<open>The whole operation\<close>

lemma addClause_spec:
  fixes T :: "'h theory_ops" and s :: "'h solver"
  assumes r: "root_ok s" and o: "ok s" and ps: "\<forall>l \<in> set ps. lit_ok (nVars s) l"
    and len: "length ps < 2 ^ 26" and room: "unat (rsz (region_of (ca s))) + length ps + 2 \<le> 2643056797"
    and mr: "rsz (region_of (ca s)) < marker_refs (ca s)" and calm: "calm T s"
  shows "\<exists>b s'. addClause_ok T der ps s = Some (b, s') \<and> ok s' = b \<and> nVars s' = nVars s \<and>
     frame_rest s' = frame_rest s \<and> trail_lim s' = trail_lim s \<and> marker_refs (ca s') = marker_refs (ca s) \<and>
     unat (rsz (region_of (ca s'))) \<le> unat (rsz (region_of (ca s))) + length ps + 2 \<and>
     (if b then root_ok s' \<and> models s' = models s \<inter> clause_models ps else models s \<inter> clause_models ps = {})"
proof -
  define s1 where "s1 = resetInitialPropagation s"
  have f: "trail s1 = trail s" "assigns s1 = assigns s" "vardata s1 = vardata s" "ca s1 = ca s" "watches s1 = watches s"
    "qhead s1 = qhead s" "clauses s1 = clauses s" "learnts s1 = learnts s" "trail_lim s1 = trail_lim s" "ok s1 = ok s"
    "frame_rest s1 = frame_rest s" by (simp_all add: s1_def resetInitialPropagation_def)
  have e: "isT s1 = isT s" "isF s1 = isF s" "isU s1 = isU s" "nVars s1 = nVars s" using f state_eqs by blast+
  note rc = root_ok_cong [OF f(1-9)]
  have r1: "root_ok s1" using rc(1) r by simp
  have calm1: "calm T s1" using calm calm_cong [OF frame_restD(5) [OF f(11)] e(4)] by simp
  have tok: "trail_ok s1" by (rule root_okD(5) [OF r1])
  from lit_order.sort_array_spec [of ps] obtain qs where qs: "sort_array lit_less ps = Some qs" "mset qs = mset ps"
    "sorted (map lx qs)" by (auto simp: lit_less_def sorted_wrt_map not_less)
  have set: "set qs = set ps" and lq: "length qs = length ps" using qs(2) mset_eq_setD mset_eq_length by blast+
  have okq: "\<forall>l \<in> set qs. lit_ok (nVars s1) l" using ps set e by simp
  have pos: "0 \<le> lx q" "q \<noteq> lit_Undef" "q \<noteq> neg lit_Undef" if "q \<in> set qs" for q
    using okq that neg_lit_Undef by (auto simp: lit_ok_def lit_Undef_def)
  show ?thesis
  proof (cases "norm_loop (isT s1) (isF s1) lit_Undef qs")
    case None
    from norm_loop_None [OF None] have "models s1 \<subseteq> clause_models ps"
      using norm_true [OF tok, of ps] okq pos set by auto
    then show ?thesis using r1 rc o qs(1) None e f(4,9,11)
      by (intro exI [of _ True] exI [of _ s1]) (auto simp: addClause_ok_def s1_def [symmetric] f(10))
  next
    case (Some rs)
    have "\<forall>q \<in> set qs. lx lit_Undef \<le> lx q" using pos(1) by (fastforce simp: lit_Undef_def)
    note n = norm_loop_Some [OF Some qs(3) this]
    have rs: "set rs = {q \<in> set ps. \<not> isF s1 q}" "distinct rs" "\<forall>q \<in> set rs. \<not> isT s1 q" "length rs \<le> length ps"
      using n pos(2) set lq by auto
    have okps: "\<forall>l \<in> set ps. lit_ok (nVars s1) l" using okq set by simp
    have mods: "models s1 \<inter> clause_models ps = models s1 \<inter> clause_models rs" by (rule norm_models [OF tok okps rs(1)])
    consider "rs = []" | q where "rs = [q]" | "2 \<le> length rs" by (cases rs; cases "tl rs") auto
    then show ?thesis
    proof cases
      case 1
      then show ?thesis using mods rc(2) o qs(1) Some e f(4,9,11)
        by (intro exI [of _ False] exI [of _ "s1\<lparr>ok := False\<rparr>"])
          (auto simp: addClause_ok_def s1_def [symmetric] clause_models_def nVars_def)
    next
      case (2 q)
      then have q: "lit_ok (nVars s1) q" "isU s1 q" using rs(1,3) okps trail_okD(3) [OF tok, of q] by auto
      from add_unit [OF r1 q calm1] obtain confl s' where p:
        "propagate T False (uncheckedEnqueue T q CRef_Undef s1) = Some (confl, s')" "nVars s' = nVars s" "ok s' = ok s1"
        "if confl = CRef_Undef then root_ok s' \<and> models s' = models s1 \<inter> clause_models [q]
         else models s1 \<inter> clause_models [q] = {}" "frame_rest s' = frame_rest s1" "trail_lim s' = trail_lim s1"
        "marker_refs (ca s') = marker_refs (ca s1)" "region_of (ca s') = region_of (ca s1)" by (auto simp: e)
      let ?s' = "s'\<lparr>ok := (confl = CRef_Undef)\<rparr>"
      have c: "root_ok ?s' = root_ok s'" "models ?s' = models s'" by (simp_all add: root_ok_cong [of ?s' s'])
      show ?thesis using p c mods rc(2) o qs(1) Some 2 f(4,9,11)
        by (intro exI [of _ "confl = CRef_Undef"] exI [of _ ?s'])
          (auto simp: addClause_ok_def s1_def [symmetric] nVars_def)
    next
      case 3
      have rl: "\<forall>l \<in> set rs. lit_ok (nVars s1) l \<and> \<not> isF s1 l" using rs(1) okps by auto
      have "length rs < 2 ^ 26" "unat (rsz (region_of (ca s1))) + length rs + 2 \<le> 2643056797"
        "rsz (region_of (ca s1)) < marker_refs (ca s1)" using rs(4) len room mr by (simp_all add: f)
      from add_long [OF r1 3 rs(2) rl this, of der] obtain cr s2 s' where a: "alloc_clause rs False s1 = Some (cr, s2)"
        "s' = attachClause cr (s2\<lparr>ca := ca_modify cr (setDerived der) (ca s2), clauses := clauses s2 @ [cr]\<rparr>)"
        "root_ok s'" "models s' = models s1 \<inter> clause_models rs" "nVars s' = nVars s1" "ok s' = ok s1" "frame_rest s' = frame_rest s1"
        "trail_lim s' = trail_lim s1" "marker_refs (ca s') = marker_refs (ca s1)"
        "unat (rsz (region_of (ca s'))) \<le> unat (rsz (region_of (ca s1))) + length rs + 2" by metis
      have "length rs \<noteq> 0" "length rs \<noteq> 1" using 3 by auto
      then show ?thesis using a mods rc(2) o qs(1) Some e f(4,9,10,11) rs(4)
        by (intro exI [of _ True] exI [of _ s']) (simp add: addClause_ok_def s1_def [symmetric])
    qed
  qed
qed

text \<open>C9: on a solver at the root level, adding a clause always returns; the invariants of the solver hold
  again and the models are those of before that satisfy the clause, unless the call returns false, and then
  no model of the problem satisfies the clause.  No theory may enqueue literals of its own while it is told of
  one (\<open>calm\<close>); without theory variables the callbacks are arbitrary.\<close>

theorem addClause_correct:
  fixes T :: "'h theory_ops" and s :: "'h solver"
  assumes "root_ok s" and "ok s" and "\<forall>l \<in> set ps. lit_ok (nVars s) l" and "length ps < 2 ^ 26"
    and "unat (rsz (region_of (ca s))) + length ps + 2 \<le> 2643056797"
    and "rsz (region_of (ca s)) < marker_refs (ca s)" and "calm T s"
  shows "\<exists>b s'. addClause_ok T der ps s = Some (b, s') \<and> ok s' = b \<and> nVars s' = nVars s \<and>
     (if b then root_ok s' \<and> models s' = models s \<inter> clause_models ps else models s \<inter> clause_models ps = {})"
  using addClause_spec [OF assms] by blast


section \<open>A concrete problem\<close>

text \<open>Two variables and the clauses \<open>x0 \<or> x1\<close> and \<open>x0 \<or> \<not> x1\<close>, without theories.\<close>

definition demo_options :: options where
  "demo_options =
     \<lparr>phase_saving = 2, ccmin_mode = 2, var_decay = 95 / 100, clause_decay = 999 / 1000, theory_decay = 1,
      random_var_freq = 0, rnd_pol = False, rnd_init_act = False, remove_satisfied = True, garbage_frac = 1 / 5,
      learntsize_inc = 11 / 10, learntsize_adjust_inc = 3 / 2, opt_lazy_backtrack = False, opt_early_theory_prop = False,
      opt_vsids_both = False, opt_use_var_decay_for_theory_vsids = False, opt_theory_vsids_balance = 1,
      opt_init_rnd_phase = False, opt_permanent_theory_conflicts = True, opt_temporary_theory_conflicts = 0\<rparr>"

definition no_theories :: "unit theory_ops" where
  "no_theories =
     \<lparr>th_backtrackUntil = (\<lambda>_ _ h. h), th_undecide = (\<lambda>_ _ h. h), th_enqueue = (\<lambda>_ _ s. s), th_lazy = (\<lambda>_. False),
      th_supportsDecisions = (\<lambda>_. False), th_priority = (\<lambda>_ _. 0), th_activity = (\<lambda>_ _. 0),
      th_set_activity = (\<lambda>_ _ h. h), th_propagate = (\<lambda>_ s. Some (True, [], s)),
      th_buildReason = (\<lambda>_ p _ s. Some ([p], s))\<rparr>"

lemma no_theories_calm [simp]: "calm no_theories s"
proof -
  have "th_enqueue no_theories t p s = s\<lparr>ths := (ths s)\<lparr>tstate := tstate (ths s)\<rparr>\<rparr>" for t p s by (simp add: no_theories_def)
  then show ?thesis unfolding calm_def records_only_def by blast
qed

text \<open>The region of a new solver when memory does not run out.\<close>

definition demo_region :: region where
  "demo_region = \<lparr>rsz = 0, rcap = 1114192, rwasted = 0, rmem = \<lambda>_. True\<rparr>"

lemma demo_region_fields [simp]:
  "rsz demo_region = 0" "rcap demo_region = 1114192" "rwasted demo_region = 0" "rmem demo_region c"
  by (simp_all add: demo_region_def)

lemma demo_region_new: "region_new 1048576 (\<lambda>_. True) = Some (Inr demo_region)"
  by (simp add: region_new_def region_capacity_def demo_region_def capacity_loop.simps cap_delta_def)

definition empty_solver :: "unit solver" where
  "empty_solver = solver_new demo_options demo_region 91648253 ()"

definition two_vars :: "unit solver" where
  "two_vars = snd (newVar True True (snd (newVar True True empty_solver)))"

definition store_clause :: "Lit list \<Rightarrow> 'h solver \<Rightarrow> 'h solver" where
  "store_clause ps s =
     (case alloc_clause ps False s of
        None \<Rightarrow> s
      | Some (cr, s1) \<Rightarrow>
          attachClause cr (s1\<lparr>ca := ca_modify cr (setDerived False) (ca s1), clauses := clauses s1 @ [cr]\<rparr>))"

definition demo :: "unit solver" where
  "demo = store_clause [mkLit 0 False, mkLit 1 True] (store_clause [mkLit 0 False, mkLit 1 False] two_vars)"

lemma two_vars_ok:
  "root_ok two_vars" "ok two_vars" "nVars two_vars = 2" "trail two_vars = []" "clauses two_vars = []"
  "learnts two_vars = []" "region_of (ca two_vars) = demo_region"
  "marker_refs (ca two_vars) = CRef_Undef" "seen two_vars = [False, False]" "opts two_vars = demo_options"
proof -
  have e: "free_vars empty_solver = []" "nVars empty_solver = 0" "solver_inv {} empty_solver" "queue_done {} empty_solver"
    using solver_inv_new by (auto simp: empty_solver_def solver_new_def nVars_def)
  obtain v1 s1 where 1: "newVar True True empty_solver = (v1, s1)" by fastforce
  note a = newVar_spec [OF e(3,4,1) 1]
  obtain v2 s2 where 2: "newVar True True s1 = (v2, s2)" by fastforce
  note b = newVar_spec [OF a(2,3,10) 2]
  have t: "two_vars = s2" by (simp add: two_vars_def 1 2)
  show "ok two_vars" "nVars two_vars = 2" "trail two_vars = []" "clauses two_vars = []"
    "learnts two_vars = []" "region_of (ca two_vars) = demo_region"
    "marker_refs (ca two_vars) = CRef_Undef"
    by (simp_all add: t a b e(2)) (simp_all add: empty_solver_def solver_new_def)
  have sn: "seen s' = (seen s @ [False])[vix v := False]" "opts s' = opts s"
    if "newVar True True s = (v, s')" "free_vars s = []" for s s' :: "unit solver" and v
    using that by (auto simp: newVar_def pick_var_def reset_var_def push_var_def Let_def split: prod.splits)
  show "seen two_vars = [False, False]" "opts two_vars = demo_options"
    using sn [OF 1 e(1)] sn [OF 2 a(10)] a(1,4) b(1) e(2)
    by (simp_all add: t vix_def) (simp_all add: empty_solver_def solver_new_def)
  have "allocator_wf (ca two_vars)" "trail_lim two_vars = []"
    by (simp_all add: t a b) (simp_all add: empty_solver_def solver_new_def allocator_wf_def region_wf_def)
  then show "root_ok two_vars"
    using a b by (simp add: root_ok_def t db_def) (simp add: empty_solver_def solver_new_def)
qed

lemma two_vars_model: "(\<lambda>l. \<not> sign l) \<in> models two_vars"
  by (simp add: models_def db_def two_vars_ok lit_model_def)

lemma two_vars_lits: "\<forall>l \<in> set [mkLit 0 False, mkLit 1 False]. lit_ok (nVars two_vars) l"
  by (simp add: two_vars_ok lit_ok_def mkLit_def)

lemma two_vars_room:
  "length [mkLit 0 False, mkLit 1 False] < 2 ^ 26"
  "unat (rsz (region_of (ca two_vars))) + length [mkLit 0 False, mkLit 1 False] + 2 \<le> 2643056797"
  "rsz (region_of (ca two_vars)) < marker_refs (ca two_vars)"
  by (simp_all add: two_vars_ok Ref_Undef_def word_gt_0)

lemma store_clause_ok:
  assumes "root_ok s" and "2 \<le> length ps" "distinct ps" "\<forall>l \<in> set ps. lit_ok (nVars s) l \<and> \<not> isF s l"
    and "length ps < 2 ^ 26" and "unat (rsz (region_of (ca s))) + length ps + 2 \<le> 2643056797"
    and "marker_refs (ca s) = CRef_Undef"
  shows "\<exists>cr. root_ok (store_clause ps s) \<and> nVars (store_clause ps s) = nVars s \<and> ok (store_clause ps s) = ok s \<and>
     trail (store_clause ps s) = trail s \<and> seen (store_clause ps s) = seen s \<and> opts (store_clause ps s) = opts s \<and>
     cr \<notin> db s \<and> db (store_clause ps s) = insert cr (db s) \<and> clits (store_clause ps s) cr = ps \<and>
     (\<forall>r \<in> db s. clits (store_clause ps s) r = clits s r) \<and> marker_refs (ca (store_clause ps s)) = marker_refs (ca s) \<and>
     unat (rsz (region_of (ca (store_clause ps s)))) \<le> unat (rsz (region_of (ca s))) + length ps + 2"
proof -
  have "rsz (region_of (ca s)) < marker_refs (ca s)"
    using assms(6) unfolding assms(7) Ref_Undef_def by (simp add: word_less_nat_alt unsigned_minus_1_eq_mask mask_eq_exp_minus_1)
  from add_long [OF assms(1-6) this, of False] show ?thesis
    unfolding store_clause_def by auto
qed

lemma demo_ok:
  "root_ok demo" "ok demo" "nVars demo = 2" "trail demo = []" "seen demo = [False, False]" "opts demo = demo_options"
  "\<exists>c1 c2. db demo = {c1, c2} \<and> clits demo c1 = [mkLit 0 False, mkLit 1 False] \<and> clits demo c2 = [mkLit 0 False, mkLit 1 True]"
proof -
  let ?s = "store_clause [mkLit 0 False, mkLit 1 False] two_vars"
  have nF: "\<not> isF s l" if "root_ok s" "trail s = []" "lit_ok (nVars s) l" for s :: "unit solver" and l
    using trail_okD(2) [OF root_okD(5) [OF that(1)] that(3)] that(2) by simp
  have l: "lit_ok 2 (mkLit 0 False)" "lit_ok 2 (mkLit 1 False)" "lit_ok 2 (mkLit 1 True)" "mkLit 0 False \<noteq> mkLit 1 b" for b
    by (simp_all add: lit_ok_def mkLit_def)
  have "\<exists>cr. root_ok ?s \<and> nVars ?s = 2 \<and> ok ?s \<and> trail ?s = [] \<and> seen ?s = [False, False] \<and> opts ?s = demo_options \<and>
      db ?s = {cr} \<and> clits ?s cr = [mkLit 0 False, mkLit 1 False] \<and> marker_refs (ca ?s) = CRef_Undef \<and>
      unat (rsz (region_of (ca ?s))) \<le> 4"
    using store_clause_ok [OF two_vars_ok(1), of "[mkLit 0 False, mkLit 1 False]"] nF [OF two_vars_ok(1)] l
    by (auto simp: two_vars_ok db_def)
  then obtain c1 where 1: "root_ok ?s" "nVars ?s = 2" "ok ?s" "trail ?s = []" "seen ?s = [False, False]" "opts ?s = demo_options"
    "db ?s = {c1}" "clits ?s c1 = [mkLit 0 False, mkLit 1 False]" "marker_refs (ca ?s) = CRef_Undef"
    "unat (rsz (region_of (ca ?s))) \<le> 4" by blast
  have "\<exists>cr. root_ok demo \<and> nVars demo = 2 \<and> ok demo \<and> trail demo = [] \<and> seen demo = [False, False] \<and> opts demo = demo_options \<and>
      db demo = {cr, c1} \<and> clits demo cr = [mkLit 0 False, mkLit 1 True] \<and> clits demo c1 = [mkLit 0 False, mkLit 1 False]"
    using store_clause_ok [OF 1(1), of "[mkLit 0 False, mkLit 1 True]"] nF [OF 1(1)] l 1
    unfolding demo_def by auto
  then show "root_ok demo" "ok demo" "nVars demo = 2" "trail demo = []" "seen demo = [False, False]" "opts demo = demo_options"
    "\<exists>c1 c2. db demo = {c1, c2} \<and> clits demo c1 = [mkLit 0 False, mkLit 1 False] \<and> clits demo c2 = [mkLit 0 False, mkLit 1 True]"
    by blast+
qed

theorem addClause_correct_witness:
  "\<exists>s'. addClause_ok no_theories False [mkLit 0 False, mkLit 1 False] two_vars = Some (True, s') \<and> root_ok s' \<and>
     models s' = models two_vars \<inter> clause_models [mkLit 0 False, mkLit 1 False]"
proof -
  let ?ps = "[mkLit 0 False, mkLit 1 False]"
  from addClause_correct [OF two_vars_ok(1,2) two_vars_lits two_vars_room no_theories_calm, of False] obtain b s' where a:
    "addClause_ok no_theories False ?ps two_vars = Some (b, s')"
    "if b then root_ok s' \<and> models s' = models two_vars \<inter> clause_models ?ps else models two_vars \<inter> clause_models ?ps = {}"
    by blast
  have "(\<lambda>l. \<not> sign l) \<in> models two_vars \<inter> clause_models ?ps" using two_vars_model by (simp add: clause_models_def)
  then have b using a(2) by (metis empty_iff)
  then show ?thesis using a by (intro exI [of _ s']) simp
qed

theorem propagate_sound_complete_witness:
  "\<exists>confl s'. propagate no_theories False demo = Some (confl, s') \<and> solver_inv (db demo) s' \<and>
     qhead s' = length (trail s') \<and> (confl = CRef_Undef \<longrightarrow> (\<forall>cr \<in> db demo. settled s' cr))"
  using propagate_sound_complete [OF root_okD(1,2) [OF demo_ok(1)] no_theories_calm] by blast

end
