(* ===== verification/Solver_Analyze.thy ===== *)
theory Solver_Analyze
  imports Solver_Propagate
begin

text \<open>
  Conflict analysis in \<^verbatim>\<open>core/Solver.cc\<close>: the resolution loop of \<^verbatim>\<open>analyze\<close> up to the first unique implication
  point, the two ways of minimising the learnt clause, the choice of the level to jump to, and
  \<^verbatim>\<open>analyzeFinal\<close>, which expresses a conflict in terms of the decisions.  \<^verbatim>\<open>pathC\<close> and \<^verbatim>\<open>index\<close> are
  integers as in the code; \<^verbatim>\<open>index\<close> may become one less than the first position of the level.
\<close>

section \<open>Marks\<close>

definition set_seen :: "Var \<Rightarrow> bool \<Rightarrow> 'h solver \<Rightarrow> 'h solver" where
  "set_seen v b s = s\<lparr>seen := (seen s)[vix v := b]\<rparr>"

definition is_seen :: "'h solver \<Rightarrow> Var \<Rightarrow> bool" where
  "is_seen s v = seen s ! vix v"

fun unmark :: "Lit list \<Rightarrow> bool list \<Rightarrow> bool list" where
  "unmark [] sn = sn"
| "unmark (q # qs) sn = unmark qs (sn[vix (var q) := False])"

section \<open>Reasons of theory propagations\<close>

text \<open>\<^verbatim>\<open>constructReason\<close>: the theory builds the clause, which is attached and becomes the reason of \<open>p\<close>.\<close>

definition constructReason :: "'h theory_ops \<Rightarrow> Lit \<Rightarrow> 'h solver \<Rightarrow> (CRef \<times> 'h solver) option" where
  "constructReason T p s =
     do {
       let cr = reason s (var p);
       let n = length (trail s);
       (ps, s1) \<leftarrow> th_buildReason T (nat (getTheory s cr)) (getTheoryLit s p) cr s;
       (r, s2) \<leftarrow> attachReasonClause T ps s1;
       let s3 = s2\<lparr>vardata := (vardata s2)[vix (var p) := \<lparr>vreason = r, vlevel = level s2 (var p)\<rparr>]\<rparr>;
       Some (r, s3\<lparr>to_analyze := to_analyze s3 @ drop n (trail s3)\<rparr>)
     }"

section \<open>The resolution loop\<close>

text \<open>The literals of a clause: those of the current level are counted, the others go to the learnt clause.\<close>

fun mark_lits :: "'h theory_ops \<Rightarrow> Lit list \<Rightarrow> Lit list \<times> int \<times> 'h solver \<Rightarrow> Lit list \<times> int \<times> 'h solver" where
  "mark_lits T [] st = st"
| "mark_lits T (q # qs) (out, pc, s) =
     mark_lits T qs
       (if \<not> is_seen s (var q) \<and> 0 < level s (var q)
        then let s1 = set_seen (var q) True (varBumpActivity T (var q) (var_inc s) s)
             in if decisionLevel s1 \<le> level s1 (var q) then (out, pc + 1, s1) else (out @ [q], pc, s1)
        else (out, pc, s))"

text \<open>Going down the trail to a marked literal of the current level; the result is \<^verbatim>\<open>index\<close> after the loop.\<close>

function next_marked :: "'h solver \<Rightarrow> int \<Rightarrow> int \<Rightarrow> int" where
  "next_marked s stop index =
     (if stop \<le> index
      then let x = var (trail s ! nat index)
           in if \<not> is_seen s x \<or> level s x < decisionLevel s then next_marked s stop (index - 1) else index - 1
      else index)"
  by pat_completeness auto
termination by (relation "measure (\<lambda>(s, stop, index). nat (index - stop + 1))") auto

declare next_marked.simps [simp del]

record ana =
  an_p :: Lit
  an_confl :: CRef
  an_index :: int
  an_pathC :: int
  an_out :: "Lit list"
  an_missed :: bool

text \<open>\<^verbatim>\<open>while (searching)\<close>: the next literal and its reason, which a theory may have to build; a literal that
  turns out to belong to a lower level is moved to the learnt clause.\<close>

partial_function (option) select_next ::
  "'h theory_ops \<Rightarrow> int \<Rightarrow> ana \<Rightarrow> 'h solver \<Rightarrow> (ana \<times> 'h solver) option" where
  "select_next T stop a s =
     (let i = next_marked s stop (an_index a);
          p = trail s ! nat (i + 1);
          was = level s (var p)
      in do {
        r \<leftarrow> (if isTheoryCause s (reason s (var p)) then constructReason T p s else Some (reason s (var p), s));
        let s1 = snd r;
        let a1 = a\<lparr>an_p := p, an_confl := fst r, an_index := i\<rparr>;
        if level s1 (var p) < decisionLevel s1
        then let a2 = (if was = decisionLevel s1
                       then a1\<lparr>an_out := (if 0 < level s1 (var p) then an_out a1 @ [neg p] else an_out a1),
                               an_pathC := an_pathC a1 - 1, an_missed := True\<rparr>
                       else a1);
                 s2 = set_seen (var p) False s1
             in if 0 < an_pathC a2 then select_next T stop a2 s2 else Some (a2, s2)
        else Some (a1, s1)
      })"

text \<open>The literals of the clause that is resolved, or \<^verbatim>\<open>~p\<close> when there is no clause.\<close>

definition resolve_step :: "'h theory_ops \<Rightarrow> ana \<Rightarrow> 'h solver \<Rightarrow> ana \<times> 'h solver" where
  "resolve_step T a s =
     (if an_confl a \<noteq> CRef_Undef
      then let s1 = (if learnt (clause_at s (an_confl a)) then claBumpActivity (an_confl a) s else s);
               c = lits (clause_at s1 (an_confl a));
               (out, pc, s2) = mark_lits T (if an_p a = lit_Undef then c else drop 1 c) (an_out a, an_pathC a, s1)
           in (a\<lparr>an_out := out, an_pathC := pc\<rparr>, s2)
      else (a\<lparr>an_out := an_out a @ [neg (an_p a)]\<rparr>, s))"

partial_function (option) uip_loop ::
  "'h theory_ops \<Rightarrow> int \<Rightarrow> ana \<Rightarrow> 'h solver \<Rightarrow> (ana \<times> 'h solver) option" where
  "uip_loop T stop a s =
     (let r = resolve_step T a s
      in do {
        n \<leftarrow> select_next T stop (fst r) (snd r);
        let a1 = fst n;
        let s1 = set_seen (var (an_p a1)) False (snd n);
        let a2 = a1\<lparr>an_pathC := an_pathC a1 - 1\<rparr>;
        if 0 < an_pathC a2 then uip_loop T stop a2 s1 else Some (a2, s1)
      })"

fun max_level :: "'h solver \<Rightarrow> Lit list \<Rightarrow> nat \<Rightarrow> nat" where
  "max_level s [] m = m"
| "max_level s (q # qs) m = max_level s qs (if m < level s (var q) then level s (var q) else m)"

text \<open>The part of \<^verbatim>\<open>analyze\<close> before the minimisation.  When the level of a literal changed the loop starts again.\<close>

partial_function (option) analyze_uip ::
  "'h theory_ops \<Rightarrow> CRef \<Rightarrow> 'h solver \<Rightarrow> (Lit list \<times> 'h solver) option" where
  "analyze_uip T confl s =
     (let s1 = cancelUntil T (max_level s (lits (clause_at s confl)) 0) s;
          s2 = s1\<lparr>to_analyze := []\<rparr>;
          a = \<lparr>an_p = lit_Undef, an_confl = confl, an_index = int (length (trail s2)) - 1, an_pathC = 0,
               an_out = [lit_Undef], an_missed = False\<rparr>
      in do {
        r \<leftarrow> uip_loop T (int (last (trail_lim s2))) a s2;
        let out = (an_out (fst r))[0 := neg (an_p (fst r))];
        if an_missed (fst r) then analyze_uip T confl ((snd r)\<lparr>seen := unmark out (seen (snd r))\<rparr>)
        else Some (out, snd r)
      })"

section \<open>Minimisation\<close>

text \<open>\<^verbatim>\<open>litRedundant\<close>.  The state is \<^verbatim>\<open>analyze_stack\<close>, whose top is its last element, \<^verbatim>\<open>analyze_toclear\<close> and \<^verbatim>\<open>seen\<close>.\<close>

fun redundant_scan ::
  "'h solver \<Rightarrow> 32 word \<Rightarrow> Lit list \<Rightarrow> Lit list \<times> Lit list \<times> bool list \<Rightarrow> bool \<times> Lit list \<times> Lit list \<times> bool list" where
  "redundant_scan s ab [] (st, tc, sn) = (True, st, tc, sn)"
| "redundant_scan s ab (p # ps) (st, tc, sn) =
     (if \<not> sn ! vix (var p) \<and> 0 < level s (var p)
      then if reason s (var p) \<noteq> CRef_Undef \<and> and (abstractLevel s (var p)) ab \<noteq> 0
           then redundant_scan s ab ps (st @ [p], tc @ [p], sn[vix (var p) := True])
           else (False, st, tc, sn)
      else redundant_scan s ab ps (st, tc, sn))"

partial_function (option) redundant_loop ::
  "'h solver \<Rightarrow> 32 word \<Rightarrow> nat \<Rightarrow> Lit list \<Rightarrow> Lit list \<Rightarrow> bool list \<Rightarrow> (bool \<times> Lit list \<times> bool list) option" where
  "redundant_loop s ab n st tc sn =
     (if st = [] then Some (True, tc, sn)
      else if \<not> isClause (ca s) (reason s (var (last st)))
      then Some (False, take n tc, unmark (drop n tc) sn)
      else let r = redundant_scan s ab (drop 1 (lits (clause_at s (reason s (var (last st)))))) (butlast st, tc, sn)
           in if fst r then redundant_loop s ab n (fst (snd r)) (fst (snd (snd r))) (snd (snd (snd r)))
              else Some (False, take n (fst (snd (snd r))), unmark (drop n (fst (snd (snd r)))) (snd (snd (snd r)))))"

definition litRedundant ::
  "'h solver \<Rightarrow> Lit \<Rightarrow> 32 word \<Rightarrow> Lit list \<Rightarrow> bool list \<Rightarrow> (bool \<times> Lit list \<times> bool list) option" where
  "litRedundant s p ab tc sn = redundant_loop s ab (length tc) [p] tc sn"

text \<open>\<^verbatim>\<open>ccmin_mode == 2\<close>: the literals of the clause after the first.\<close>

fun minimize_deep ::
  "'h solver \<Rightarrow> 32 word \<Rightarrow> Lit list \<Rightarrow> Lit list \<Rightarrow> bool list \<Rightarrow> (Lit list \<times> Lit list \<times> bool list) option" where
  "minimize_deep s ab [] tc sn = Some ([], tc, sn)"
| "minimize_deep s ab (q # qs) tc sn =
     do {
       r \<leftarrow> (if \<not> isClause (ca s) (reason s (var q)) then Some (False, tc, sn) else litRedundant s q ab tc sn);
       m \<leftarrow> minimize_deep s ab qs (fst (snd r)) (snd (snd r));
       Some (if fst r then m else (q # fst m, snd m))
     }"

text \<open>\<^verbatim>\<open>ccmin_mode == 1\<close>: a literal goes when its reason has only marked and root literals.\<close>

definition basic_keep :: "'h solver \<Rightarrow> Lit \<Rightarrow> bool" where
  "basic_keep s q \<longleftrightarrow>
     reason s (var q) = CRef_Undef \<or>
     (\<exists>l \<in> set (drop 1 (lits (clause_at s (reason s (var q))))). \<not> is_seen s (var l) \<and> 0 < level s (var l))"

fun abstract_levels :: "'h solver \<Rightarrow> Lit list \<Rightarrow> 32 word \<Rightarrow> 32 word" where
  "abstract_levels s [] w = w"
| "abstract_levels s (q # qs) w = abstract_levels s qs (or w (abstractLevel s (var q)))"

text \<open>The minimised clause and the literals whose marks have to be cleared.\<close>

definition minimize :: "'h solver \<Rightarrow> Lit list \<Rightarrow> (Lit list \<times> Lit list \<times> bool list) option" where
  "minimize s out =
     (if ccmin_mode (opts s) = 2
      then map_option (\<lambda>r. (hd out # fst r, snd r)) (minimize_deep s (abstract_levels s (tl out) 0) (tl out) out (seen s))
      else if ccmin_mode (opts s) = 1 then Some (hd out # filter (basic_keep s) (tl out), out, seen s)
      else Some (out, out, seen s))"

section \<open>The level to jump to\<close>

fun max_index :: "'h solver \<Rightarrow> Lit list \<Rightarrow> Lit list \<Rightarrow> nat \<Rightarrow> nat \<Rightarrow> nat" where
  "max_index s out [] i m = m"
| "max_index s out (q # qs) i m =
     max_index s out qs (Suc i) (if level s (var (out ! m)) < level s (var q) then i else m)"

text \<open>A literal of the next-highest level is swapped to index 1.\<close>

definition jump_level :: "'h solver \<Rightarrow> Lit list \<Rightarrow> Lit list \<times> nat" where
  "jump_level s out =
     (if length out = 1 then (out, 0)
      else let m = max_index s out (drop 2 out) 2 1; p = out ! m
           in (out[m := out ! 1, 1 := p], level s (var p)))"

definition count_lits :: "nat \<Rightarrow> nat \<Rightarrow> 'h solver \<Rightarrow> 'h solver" where
  "count_lits m t s = s\<lparr>stats := (stats s)\<lparr>max_literals := max_literals (stats s) + m,
                                        tot_literals := tot_literals (stats s) + t\<rparr>\<rparr>"

text \<open>The learnt clause, the level to jump to and the state.\<close>

definition analyze :: "'h theory_ops \<Rightarrow> CRef \<Rightarrow> 'h solver \<Rightarrow> (Lit list \<times> nat \<times> 'h solver) option" where
  "analyze T confl s =
     do {
       u \<leftarrow> analyze_uip T confl s;
       m \<leftarrow> minimize (snd u) (fst u);
       let s1 = count_lits (length (fst u)) (length (fst m)) (snd u);
       let j = jump_level s1 (fst m);
       Some (fst j, snd j, s1\<lparr>seen := unmark (fst (snd m)) (snd (snd m))\<rparr>)
     }"

section \<open>Conflicts in terms of the decisions\<close>

definition mark_above :: "'h solver \<Rightarrow> Lit \<Rightarrow> 'h solver" where
  "mark_above s q = (if 0 < level s (var q) then set_seen (var q) True s else s)"

text \<open>The trail from the end down to \<open>base\<close>; \<open>k\<close> positions are left, and \<open>d\<close> literals at the front of a reason
  are skipped.\<close>

fun final_loop ::
  "'h theory_ops \<Rightarrow> nat \<Rightarrow> nat \<Rightarrow> nat \<Rightarrow> Lit list \<Rightarrow> 'h solver \<Rightarrow> (Lit list \<times> 'h solver) option" where
  "final_loop T d base 0 out s = Some (out, s)"
| "final_loop T d base (Suc k) out s =
     (let l = trail s ! (base + k); x = var l
      in if is_seen s x
         then if reason s x = CRef_Undef then final_loop T d base k (out @ [neg l]) (set_seen x False s)
              else do {
                r \<leftarrow> (if isTheoryCause s (reason s x) then constructReason T l s else Some (reason s x, s));
                if fst r = CRef_Undef then None
                else let s1 = foldl mark_above (snd r) (drop d (lits (clause_at (snd r) (fst r))))
                     in final_loop T d base k out (set_seen x False s1)
              }
         else final_loop T d base k out s)"

definition analyzeFinal :: "'h theory_ops \<Rightarrow> Lit \<Rightarrow> 'h solver \<Rightarrow> (Lit list \<times> 'h solver) option" where
  "analyzeFinal T p s =
     (if decisionLevel s = 0 then Some ([p], s)
      else let base = trail_lim s ! 0
           in map_option (\<lambda>r. (fst r, set_seen (var p) False (snd r)))
                (final_loop T 1 base (length (trail s) - base) [p] (set_seen (var p) True s)))"

definition analyzeFinal_clause :: "'h theory_ops \<Rightarrow> CRef \<Rightarrow> Lit \<Rightarrow> 'h solver \<Rightarrow> (Lit list \<times> 'h solver) option" where
  "analyzeFinal_clause T confl skip_lit s =
     (if decisionLevel s = 0 then Some ([], s)
      else let base = trail_lim s ! 0;
               s1 = foldl mark_above s (filter (\<lambda>l. var l \<noteq> var skip_lit) (lits (clause_at s confl)))
           in final_loop T 0 base (length (trail s1) - base) [] s1)"

end
