(* ===== verification/Solver_Backtrack.thy ===== *)
theory Solver_Backtrack
  imports Solver_AddClause
begin

text \<open>
  Backtracking: \<^verbatim>\<open>cancelUntil\<close> keeps exactly the literals of the levels that remain, lazily enqueued ones
  included, and restores the invariants of the trail, the watchers and the reasons; the propagation queue
  starts at the first position of the level that was removed.
\<close>

section \<open>Levels\<close>

definition levels_ok :: "CRef set \<Rightarrow> 'h solver \<Rightarrow> bool" where
  "levels_ok A s \<longleftrightarrow>
     sorted (trail_lim s) \<and> (\<forall>b \<in> set (trail_lim s). b \<le> length (trail s)) \<and>
     (\<forall>p \<in> set (trail s). level s (var p) \<le> decisionLevel s) \<and>
     (\<forall>j < decisionLevel s. \<forall>p \<in> set (take (trail_lim s ! j) (trail s)). level s (var p) \<le> j) \<and>
     (\<forall>p \<in> set (trail s). reason s (var p) \<in> A \<longrightarrow>
        (\<forall>l \<in> set (clits s (reason s (var p))). level s (var l) \<le> level s (var p))) \<and>
     (\<forall>k < length (trail s). 0 < level s (var (trail s ! k)) \<and> reason s (var (trail s ! k)) = CRef_Undef \<longrightarrow>
        k = trail_lim s ! (level s (var (trail s ! k)) - 1))"

text \<open>Below every decision, a clause with a falsified watch has a true literal.\<close>

definition prefix_done :: "CRef set \<Rightarrow> 'h solver \<Rightarrow> bool" where
  "prefix_done A s \<longleftrightarrow>
     (\<forall>j < decisionLevel s. \<forall>cr \<in> A. \<forall>q \<in> set (take (trail_lim s ! j) (trail s)). watched (clits s cr) q \<longrightarrow>
        (\<exists>l \<in> set (clits s cr). l \<in> set (take (trail_lim s ! j) (trail s))))"

section \<open>The loop over the trail\<close>

text \<open>What backtracking leaves alone.\<close>

definition cancel_frame :: "'h solver \<Rightarrow> 'h solver \<Rightarrow> bool" where
  "cancel_frame s s' \<longleftrightarrow>
     vardata s' = vardata s \<and> watches s' = watches s \<and> ca s' = ca s \<and> clauses s' = clauses s \<and>
     learnts s' = learnts s \<and> ok s' = ok s \<and> decision s' = decision s \<and> opts s' = opts s \<and>
     activity s' = activity s \<and> priority s' = priority s \<and> seen s' = seen s \<and> theory_vars s' = theory_vars s \<and>
     stats s' = stats s \<and>
     length (assigns s') = length (assigns s)"

lemma insertVarOrder_stats: "stats (insertVarOrder x s) = stats s"
  by (simp add: insertVarOrder_def heap_insert_var_def Let_def split: option.split)

lemma unassign_frame:
  "cancel_frame s (unassign T c p s)" "trail (unassign T c p s) = trail s"
  "trail_lim (unassign T c p s) = trail_lim s" "qhead (unassign T c p s) = qhead s"
  "assigns (unassign T c p s) = (assigns s)[vix (var p) := l_Undef]"
  by (auto simp: cancel_frame_def unassign_def undecide_def Let_def insertVarOrder_stats)

lemma cancel_frame_trans: "cancel_frame s s' \<Longrightarrow> cancel_frame s' s'' \<Longrightarrow> cancel_frame s s''"
  by (simp add: cancel_frame_def)

lemma cancel_frame_refl: "cancel_frame s s" by (simp add: cancel_frame_def)

lemma take_Suc_drop: "base + k < length xs \<Longrightarrow> take (Suc k) (drop base xs) = take k (drop base xs) @ [xs ! (base + k)]"
  by (simp add: take_Suc_conv_app_nth)

lemma cancel_loop_spec:
  assumes "base + k \<le> length (trail s)"
  shows "fst (cancel_loop T lev base k re s) =
           re @ filter (\<lambda>p. level s (var p) \<le> lev) (rev (take k (drop base (trail s)))) \<and>
         cancel_frame s (snd (cancel_loop T lev base k re s)) \<and>
         trail (snd (cancel_loop T lev base k re s)) = trail s \<and>
         trail_lim (snd (cancel_loop T lev base k re s)) = trail_lim s \<and>
         qhead (snd (cancel_loop T lev base k re s)) = qhead s \<and>
         (\<forall>i < length (assigns s). assigns (snd (cancel_loop T lev base k re s)) ! i =
            (if \<exists>p \<in> set (take k (drop base (trail s))). lev < level s (var p) \<and> vix (var p) = i then l_Undef
             else assigns s ! i))"
  using assms
proof (induction k arbitrary: re s)
  case 0
  then show ?case by (simp add: cancel_frame_refl)
next
  case (Suc k)
  let ?p = "trail s ! (base + k)"
  have t: "take (Suc k) (drop base (trail s)) = take k (drop base (trail s)) @ [?p]"
    using Suc.prems by (intro take_Suc_drop) simp
  show ?case
  proof (cases "level s (var ?p) \<le> lev")
    case True
    then show ?thesis using Suc.IH [where s = s and re = "re @ [?p]"] Suc.prems unfolding t by simp
  next
    case False
    let ?s = "unassign T (base + k) ?p s"
    note u = unassign_frame [where s = s and T = T and c = "base + k" and p = ?p]
    have lv: "level ?s = level s" using u(1) by (intro state_eqs(6)) (simp add: cancel_frame_def)
    have "base + k \<le> length (trail ?s)" using Suc.prems by (simp add: u)
    note ih = Suc.IH [OF this, where re = re]
    have eq: "cancel_loop T lev base (Suc k) re s = cancel_loop T lev base k re ?s" using False by (simp add: Let_def)
    have "\<forall>i < length (assigns s). assigns (snd (cancel_loop T lev base k re ?s)) ! i =
        (if \<exists>p \<in> set (take (Suc k) (drop base (trail s))). lev < level s (var p) \<and> vix (var p) = i then l_Undef
         else assigns s ! i)"
      using ih False unfolding t lv u(2,5) by (auto simp: nth_list_update)
    then show ?thesis
      using ih False cancel_frame_trans [OF u(1)] unfolding eq t lv u(2-4) by simp
  qed
qed

lemma reenqueue_loop_spec:
  "calm T s \<Longrightarrow> \<forall>p \<in> set ps. lit_ok (nVars s) p \<Longrightarrow>
   cancel_frame s (reenqueue_loop T ps s) \<and> trail (reenqueue_loop T ps s) = trail s @ ps \<and>
   trail_lim (reenqueue_loop T ps s) = trail_lim s \<and> qhead (reenqueue_loop T ps s) = qhead s \<and>
   assigns (reenqueue_loop T ps s) = assigns s"
proof (induction ps arbitrary: s)
  case Nil
  then show ?case by (simp add: cancel_frame_refl)
next
  case (Cons p ps)
  let ?s = "s\<lparr>trail := trail s @ [p]\<rparr>"
  have "calm T ?s" "lit_ok (nVars ?s) p" using Cons.prems calm_cong [of ?s s T] by (simp_all add: nVars_def)
  from calm_notify [OF this] obtain t where n: "notify_theory T p ?s = s\<lparr>trail := trail s @ [p], ths := t\<rparr>" by auto
  let ?s1 = "s\<lparr>trail := trail s @ [p], ths := t\<rparr>"
  have c: "calm T ?s1" "\<forall>p \<in> set ps. lit_ok (nVars ?s1) p" using Cons.prems calm_cong [of ?s1 s T] by (simp_all add: nVars_def)
  have "cancel_frame s ?s1" by (simp add: cancel_frame_def)
  from cancel_frame_trans [OF this conjunct1 [OF Cons.IH [OF c]]] show ?case using Cons.IH [OF c] n by simp
qed

text \<open>The effect of \<^verbatim>\<open>cancelUntil\<close> on the fields of the state.\<close>

lemma cancelUntil_fields:
  fixes T :: "'h theory_ops" and s :: "'h solver"
  assumes lev: "lev < decisionLevel s" and b: "trail_lim s ! lev \<le> length (trail s)"
    and lits: "\<forall>p \<in> set (trail s). lit_ok (nVars s) p" and calm: "calm T s"
  defines "base \<equiv> trail_lim s ! lev" and "s' \<equiv> cancelUntil T lev s"
  shows "cancel_frame s s'"
    and "trail s' = take base (trail s) @ filter (\<lambda>p. level s (var p) \<le> lev) (drop base (trail s))"
    and "trail_lim s' = take lev (trail_lim s)" and "qhead s' = base"
    and "\<forall>i < length (assigns s). assigns s' ! i =
            (if \<exists>p \<in> set (drop base (trail s)). lev < level s (var p) \<and> vix (var p) = i then l_Undef else assigns s ! i)"
proof -
  define s1 where "s1 = s\<lparr>ths := (ths s)\<lparr>tstate := backtrack_theories T (opt_lazy_backtrack (opts s)) lev 0
                     (n_theories (ths s)) (tstate (ths s))\<rparr>\<rparr>"
  define b0 where "b0 = trail_lim s1 ! lev"
  have b0: "b0 = base" by (simp add: b0_def s1_def base_def)
  obtain re s2 where c0: "cancel_loop T lev b0 (length (trail s1) - b0) [] s1 = (re, s2)" by fastforce
  define s3 where "s3 = s2\<lparr>qhead := b0, trail := take b0 (trail s2), trail_lim := take lev (trail_lim s2)\<rparr>"
  define s4 where "s4 = (if decisionLevel s3 < track_min_level s3 then s3\<lparr>track_min_level := decisionLevel s3\<rparr> else s3)"
  define s5 where "s5 = s4\<lparr>ths := (ths s4)\<lparr>in_theory_queue := clear_in_queue (theory_queue (ths s4)) (in_theory_queue (ths s4)),
                                    theory_queue := []\<rparr>\<rparr>"
  define s6 where "s6 = reenqueue_loop T (rev re) s5"
  have s': "s' = s6\<lparr>ths := restore_deciders T (decisionLevel s6) (rev (theory_decision_trail (ths s6))) (ths s6)\<rparr>"
    unfolding s'_def cancelUntil_def if_P [OF lev] Let_def c0 [unfolded b0_def s1_def] prod.case s6_def s5_def s4_def s3_def b0_def s1_def
    by (rule refl)
  note c = c0 [unfolded b0]
  have e1: "trail s1 = trail s" "level s1 = level s" "assigns s1 = assigns s" "trail_lim s1 = trail_lim s"
    "cancel_frame s s1"
    by (simp_all add: s1_def level_def fun_eq_iff cancel_frame_def)
  have all: "take (length (trail s) - base) (drop base (trail s)) = drop base (trail s)" by simp
  have "base + (length (trail s1) - base) \<le> length (trail s1)" using b by (simp add: base_def e1)
  note cl = cancel_loop_spec [OF this, where T = T and lev = lev and re = "[]", unfolded e1 c [unfolded e1] all fst_conv snd_conv]
  have c2:
    "re = filter (\<lambda>p. level s (var p) \<le> lev) (rev (drop base (trail s)))" "cancel_frame s1 s2" "trail s2 = trail s"
    "trail_lim s2 = trail_lim s"
    "\<forall>i < length (assigns s). assigns s2 ! i =
       (if \<exists>p \<in> set (drop base (trail s)). lev < level s (var p) \<and> vix (var p) = i then l_Undef else assigns s ! i)"
    using cl by simp_all
  have e5: "trail s5 = take base (trail s)" "trail_lim s5 = take lev (trail_lim s)" "qhead s5 = base" "assigns s5 = assigns s2"
    "cancel_frame s2 s5"
    by (simp_all add: s5_def s4_def s3_def c2 b0 cancel_frame_def)
  have rre: "rev re = filter (\<lambda>p. level s (var p) \<le> lev) (drop base (trail s))"
    by (simp add: c2(1) rev_filter)
  have f5: "cancel_frame s s5" using c2(2) e1(5) e5(5) cancel_frame_trans by blast
  then have n5: "theory_vars s5 = theory_vars s" "nVars s5 = nVars s" by (simp_all add: cancel_frame_def nVars_def)
  have "\<forall>p \<in> set (rev re). lit_ok (nVars s5) p" using lits by (auto simp: n5 rre dest: in_set_dropD)
  note r = reenqueue_loop_spec [OF calm [folded calm_cong [OF n5]] this, folded s6_def]
  show "trail s' = take base (trail s) @ filter (\<lambda>p. level s (var p) \<le> lev) (drop base (trail s))"
    "trail_lim s' = take lev (trail_lim s)" "qhead s' = base"
    "\<forall>i < length (assigns s). assigns s' ! i =
            (if \<exists>p \<in> set (drop base (trail s)). lev < level s (var p) \<and> vix (var p) = i then l_Undef else assigns s ! i)"
    using r c2(5) by (simp_all add: s' e5 rre)
  have "cancel_frame s6 s'" by (simp add: s' cancel_frame_def)
  then show "cancel_frame s s'" using r f5 cancel_frame_trans by blast
qed


section \<open>The invariants\<close>

lemma levels_okD:
  assumes "levels_ok A s"
  shows "j < decisionLevel s \<Longrightarrow> trail_lim s ! j \<le> length (trail s)"
    and "i \<le> j \<Longrightarrow> j < decisionLevel s \<Longrightarrow> trail_lim s ! i \<le> trail_lim s ! j"
    and "p \<in> set (trail s) \<Longrightarrow> level s (var p) \<le> decisionLevel s"
    and "j < decisionLevel s \<Longrightarrow> p \<in> set (take (trail_lim s ! j) (trail s)) \<Longrightarrow> level s (var p) \<le> j"
    and "p \<in> set (trail s) \<Longrightarrow> reason s (var p) \<in> A \<Longrightarrow> l \<in> set (clits s (reason s (var p))) \<Longrightarrow>
      level s (var l) \<le> level s (var p)"
    and "k < length (trail s) \<Longrightarrow> 0 < level s (var (trail s ! k)) \<Longrightarrow> reason s (var (trail s ! k)) = CRef_Undef \<Longrightarrow>
      k = trail_lim s ! (level s (var (trail s ! k)) - 1)"
  using assms by (auto simp: levels_ok_def decisionLevel_def sorted_iff_nth_mono)

lemma distinct_vix:
  assumes "trail_ok s" and "p \<in> set (trail s)" and "lit_ok (nVars s) q"
  shows "vix (var p) = vix (var q) \<longleftrightarrow> var p = var q"
  using vix_inject [OF trail_okD(4) [OF assms(1,2)] assms(3)] .

text \<open>Filtering keeps reasons before their literals.\<close>

lemma filter_before:
  assumes "k < length (filter P xs)"
  shows "\<exists>i < length xs. filter P xs ! k = xs ! i \<and> P (xs ! i) \<and> set (take k (filter P xs)) = {x \<in> set (take i xs). P x}"
  using assms
proof (induction xs rule: rev_induct)
  case (snoc x xs)
  show ?case
  proof (cases "k < length (filter P xs)")
    case True
    from snoc.IH [OF True] obtain i where i: "i < length xs" "filter P xs ! k = xs ! i" "P (xs ! i)"
      "set (take k (filter P xs)) = {x \<in> set (take i xs). P x}" by blast
    then show ?thesis using True by (intro exI [of _ i]) (auto simp: nth_append)
  next
    case False
    then have k: "P x" "k = length (filter P xs)" using snoc.prems by (auto split: if_splits)
    then show ?thesis by (intro exI [of _ "length xs"]) (auto simp: nth_append)
  qed
qed simp

lemma cancelUntil_spec:
  fixes T :: "'h theory_ops" and s :: "'h solver"
  assumes inv: "solver_inv A s" and lo: "levels_ok A s" and pd: "prefix_done A s" and lev: "lev < decisionLevel s"
    and calm: "calm T s"
  defines "s' \<equiv> cancelUntil T lev s"
  shows "solver_inv A s'" and "queue_done A s'" and "levels_ok A s'" and "prefix_done A s'"
    and "trail s' = filter (\<lambda>p. level s (var p) \<le> lev) (trail s)" and "trail_lim s' = take lev (trail_lim s)"
    and "qhead s' = trail_lim s ! lev" and "cancel_frame s s'"
proof -
  let ?b = "trail_lim s ! lev" and ?P = "\<lambda>p. level s (var p) \<le> lev" and ?n = "nVars s"
  note L = levels_okD [OF lo]
  have b: "?b \<le> length (trail s)" by (rule L(1) [OF lev])
  have bi: "bcp_inv A s (wlist (watches_cleanAll s))" and wf: "occ_wf (watches s)" using inv by (auto simp: solver_inv_def)
  have tok: "trail_ok s" and wi: "winv ?n A (clits s) (wlist (watches_cleanAll s))" using bi by (auto simp: bcp_inv_def)
  have "\<forall>p \<in> set (trail s). lit_ok ?n p" using tok by (simp add: trail_ok_def)
  note f = cancelUntil_fields [OF lev b this calm, folded s'_def]
  have fr: "vardata s' = vardata s" "watches s' = watches s" "ca s' = ca s" "length (assigns s') = length (assigns s)"
    using f(1) by (auto simp: cancel_frame_def)
  have e: "nVars s' = ?n" "reason s' = reason s" "level s' = level s" "clits s' = clits s" "wlist s' = wlist s"
    using fr state_eqs by blast+
  have wc: "wlist (watches_cleanAll s') = wlist (watches_cleanAll s)"
    by (simp add: fun_eq_iff wlist_def watches_cleanAll_def fr)
  have low: "filter ?P (take ?b (trail s)) = take ?b (trail s)" using L(4) [OF lev] by (intro filter_True) blast
  have tr: "trail s' = filter ?P (trail s)"
    using f(2) low filter_append [of ?P "take ?b (trail s)" "drop ?b (trail s)"] by simp
  have trb: "take ?b (trail s') = take ?b (trail s)" using f(2) b by simp
  have dl: "decisionLevel s' = lev" using f(3) lev by (simp add: decisionLevel_def)
  have gone: "\<exists>p \<in> set (drop ?b (trail s)). lev < level s (var p) \<and> vix (var p) = vix (var q)"
    if "p \<in> set (trail s)" "lev < level s (var p)" "var p = var q" for p q
  proof -
    have "p \<notin> set (take ?b (trail s))" using L(4) [OF lev, of p] that(2) by auto
    then have "p \<in> set (drop ?b (trail s))" using that(1) set_append [of "take ?b (trail s)" "drop ?b (trail s)"] by simp
    then show ?thesis using that by (intro bexI [of _ p]) auto
  qed
  have val: "assigns s' ! vix (var q) =
      (if \<exists>p \<in> set (trail s). var p = var q \<and> lev < level s (var p) then l_Undef else assigns s ! vix (var q))"
    if q: "lit_ok ?n q" for q
  proof -
    have i: "vix (var q) < length (assigns s)" using lit_ok_vix [OF q] tok by (simp add: trail_ok_def)
    have "(\<exists>p \<in> set (drop ?b (trail s)). lev < level s (var p) \<and> vix (var p) = vix (var q)) \<longleftrightarrow>
        (\<exists>p \<in> set (trail s). var p = var q \<and> lev < level s (var p))"
      using gone [of _ q] distinct_vix [OF tok _ q] by (meson in_set_dropD)
    then show ?thesis using f(5) i by simp
  qed
  have uniq: "p = q" if "p \<in> set (trail s)" "q \<in> set (trail s)" "var p = var q" for p q
    using tok that by (auto simp: trail_ok_def distinct_map inj_on_def)
  have T': "isT s' q \<longleftrightarrow> isT s q \<and> ?P q" if q: "lit_ok ?n q" for q
  proof (cases "isT s q")
    case True
    then have "q \<in> set (trail s)" using trail_okD(1) [OF tok q] by simp
    then show ?thesis using val [OF q] uniq [of _ q] True by (auto simp: isT_alt)
  next
    case False
    then show ?thesis using val [OF q] by (auto simp: isT_alt)
  qed
  have "trail_ok s'"
    unfolding trail_ok_def e(1)
  proof (intro conjI allI impI)
    show "length (assigns s') = ?n" using tok fr by (simp add: trail_ok_def)
    show "distinct (map var (trail s'))" using tok by (simp add: trail_ok_def tr distinct_map_filter)
    show "\<forall>p \<in> set (trail s'). lit_ok ?n p" using tok by (simp add: trail_ok_def tr)
    fix q assume q: "lit_ok ?n q"
    show "isT s' q \<longleftrightarrow> q \<in> set (trail s')" using T' [OF q] trail_okD(1) [OF tok q] by (auto simp: tr)
    show "isU s' q \<longleftrightarrow> var q \<notin> var ` set (trail s')"
    proof (cases "isU s q")
      case True
      then have "var q \<notin> var ` set (trail s)" using tok q by (simp add: trail_ok_def)
      moreover have "isU s' q" using True val [OF q] by (auto simp: isU_alt)
      ultimately show ?thesis by (auto simp: tr)
    next
      case False
      then obtain p where p: "p \<in> set (trail s)" "var p = var q" using tok q by (auto simp: trail_ok_def)
      have "(\<exists>p \<in> set (trail s). var p = var q \<and> lev < level s (var p)) \<longleftrightarrow> lev < level s (var q)"
        using p by metis
      then have "isU s' q \<longleftrightarrow> lev < level s (var q)" using val [OF q] False by (simp add: isU_alt)
      moreover have "var q \<in> var ` set (trail s') \<longleftrightarrow> level s (var q) \<le> lev"
      proof
        show "level s (var q) \<le> lev" if "var q \<in> var ` set (trail s')"
          using that unfolding tr by force
        show "var q \<in> var ` set (trail s')" if "level s (var q) \<le> lev"
          using that p unfolding tr by (intro image_eqI [of _ _ p]) simp_all
      qed
      ultimately show ?thesis by auto
    qed
  qed
  moreover have "reasons_ok A s'"
    unfolding reasons_ok_def e
  proof (intro allI impI)
    fix k assume k: "k < length (trail s')" "reason s (var (trail s' ! k)) \<in> A"
    from filter_before [OF k(1) [unfolded tr]] obtain i where i: "i < length (trail s)" "trail s' ! k = trail s ! i"
      "?P (trail s ! i)" "set (take k (trail s')) = {x \<in> set (take i (trail s)). ?P x}" unfolding tr by blast
    have mem: "trail s ! i \<in> set (trail s)" "reason s (var (trail s ! i)) \<in> A" using i(1,2) k(2) by simp_all
    have lo: "?P l" if "l \<in> set (clits s (reason s (var (trail s ! i))))" for l
      using L(5) [OF mem that] i(3) by simp
    have old: "clits s (reason s (var (trail s ! i))) ! 0 = trail s ! i"
      "\<forall>l \<in> set (clits s (reason s (var (trail s ! i)))). l \<noteq> trail s ! i \<longrightarrow> neg l \<in> set (take i (trail s))"
      using bi i(1) mem(2) by (auto simp: bcp_inv_def reasons_ok_def)
    show "clits s (reason s (var (trail s' ! k))) ! 0 = trail s' ! k \<and>
        (\<forall>l \<in> set (clits s (reason s (var (trail s' ! k)))). l \<noteq> trail s' ! k \<longrightarrow> neg l \<in> set (take k (trail s')))"
      unfolding i(2,4) using old lo by simp
  qed
  moreover have "reasons_live A s'" using bi by (auto simp: bcp_inv_def reasons_live_def e tr fr)
  moreover have "qhead s' \<le> length (trail s')" using f(2,4) b by simp
  ultimately show "solver_inv A s'"
    using bi inv wf by (simp add: solver_inv_def bcp_inv_def e wc fr)
  show "queue_done A s'"
  proof -
    have "sat_clause s' cr" if c: "cr \<in> A" "q \<in> set (take ?b (trail s))" "watched (clits s cr) q" for cr q
    proof -
      obtain l where l: "l \<in> set (clits s cr)" "l \<in> set (take ?b (trail s))"
        using pd lev c unfolding prefix_done_def by blast
      have "l \<in> set (trail s)" using l(2) by (rule in_set_takeD)
      moreover have "?P l" using L(4) [OF lev l(2)] .
      ultimately have "isT s' l" using T' trail_okD(1,4) [OF tok] by blast
      then show ?thesis using l(1) by (auto simp: sat_clause_def e)
    qed
    then show ?thesis by (simp add: queue_done_def processed_def f(4) trb e)
  qed
  have lim: "trail_lim s' ! j = trail_lim s ! j" "j < decisionLevel s" "trail_lim s ! j \<le> ?b"
    "take (trail_lim s ! j) (trail s') = take (trail_lim s ! j) (trail s)" if "j < lev" for j
  proof -
    show 1: "j < decisionLevel s" using that lev by simp
    show 2: "trail_lim s ! j \<le> ?b" using L(2) [of j lev] that lev by simp
    show "trail_lim s' ! j = trail_lim s ! j" using that by (simp add: f(3))
    show "take (trail_lim s ! j) (trail s') = take (trail_lim s ! j) (trail s)"
      using trb 2 by (metis min.absorb1 take_take)
  qed
  show "levels_ok A s'"
    unfolding levels_ok_def e dl
  proof (intro conjI allI impI ballI)
    show "sorted (trail_lim s')" using lo by (simp add: levels_ok_def f(3) sorted_wrt_take)
    show "a \<le> length (trail s')" if a: "a \<in> set (trail_lim s')" for a
    proof -
      obtain j where "j < lev" "a = trail_lim s ! j" using a lev by (auto simp: f(3) in_set_conv_nth)
      then show ?thesis using lim(3) [of j] f(2) b by simp
    qed
    show "level s (var p) \<le> lev" if "p \<in> set (trail s')" for p using that by (simp add: tr)
    show "level s (var p) \<le> j" if "j < lev" "p \<in> set (take (trail_lim s' ! j) (trail s'))" for j p
      using that(2) L(4) [OF lim(2) [OF that(1)]] unfolding lim(1) [OF that(1)] lim(4) [OF that(1)] by blast
    show "level s (var l) \<le> level s (var p)"
      if "p \<in> set (trail s')" "reason s (var p) \<in> A" "l \<in> set (clits s (reason s (var p)))" for p l
      using L(5) that by (simp add: tr)
    fix k assume k: "k < length (trail s')" "0 < level s (var (trail s' ! k)) \<and> reason s (var (trail s' ! k)) = CRef_Undef"
    from filter_before [OF k(1) [unfolded tr]] obtain i where i: "i < length (trail s)" "trail s' ! k = trail s ! i"
      "?P (trail s ! i)" unfolding tr by blast
    have j: "level s (var (trail s ! i)) - 1 < lev" using i(3) k(2) unfolding i(2) by linarith
    have "i = trail_lim s ! (level s (var (trail s ! i)) - 1)" using L(6) i k by simp
    then have ib: "i \<le> ?b" using lim(3) [OF j] by simp
    have "i < length (trail s') \<and> trail s' ! i = trail s ! i"
    proof (cases "i < ?b")
      case True
      then show ?thesis using f(2) b i(1) by (simp add: nth_append)
    next
      case False
      then have ieq: "i = ?b" using ib by simp
      then have "drop ?b (trail s) = trail s ! i # drop (Suc i) (trail s)" using i(1) by (simp add: Cons_nth_drop_Suc)
      then show ?thesis using f(2) i(3) ieq b by (simp add: nth_append)
    qed
    moreover have "distinct (trail s')" using \<open>trail_ok s'\<close> by (simp add: trail_ok_def distinct_map)
    ultimately have "k = i" using k(1) i(2) by (metis nth_eq_iff_index_eq)
    then show "k = trail_lim s' ! (level s (var (trail s' ! k)) - 1)"
      using \<open>i = _\<close> i(2) lim(1) [OF j] by simp
  qed
  show "prefix_done A s'"
    unfolding prefix_done_def e dl
    using pd lim unfolding prefix_done_def by (metis (no_types, lifting))
  show "trail s' = filter ?P (trail s)" "trail_lim s' = take lev (trail_lim s)" "qhead s' = ?b" "cancel_frame s s'"
    by (rule tr f)+
qed


section \<open>Decisions and propagation\<close>

lemma newDecisionLevel_step:
  assumes inv: "solver_inv A s" and dn: "queue_done A s" and q: "qhead s = length (trail s)"
    and lo: "levels_ok A s" and pd: "prefix_done A s"
  defines "s' \<equiv> newDecisionLevel s"
  shows "solver_inv A s'" and "queue_done A s'" and "levels_ok A s'" and "prefix_done A s'"
    and "decisionLevel s' = Suc (decisionLevel s)" and "last (trail_lim s') = length (trail s')"
proof -
  have f: "trail s' = trail s" "assigns s' = assigns s" "vardata s' = vardata s" "ca s' = ca s" "watches s' = watches s"
    "qhead s' = qhead s" "trail_lim s' = trail_lim s @ [length (trail s)]"
    by (simp_all add: s'_def newDecisionLevel_def)
  show "solver_inv A s'" "queue_done A s'" using inv dn solver_inv_cong [OF f(1-6)] by simp_all
  have e: "reason s' = reason s" "level s' = level s" "clits s' = clits s" using f state_eqs by blast+
  show dl: "decisionLevel s' = Suc (decisionLevel s)" by (simp add: decisionLevel_def f)
  show "last (trail_lim s') = length (trail s')" by (simp add: f)
  have lim: "trail_lim s' ! j = (if j < decisionLevel s then trail_lim s ! j else length (trail s))"
    if "j < Suc (decisionLevel s)" for j using that by (auto simp: f nth_append decisionLevel_def)
  note L = levels_okD [OF lo]
  show "levels_ok A s'"
    unfolding levels_ok_def e dl f(1)
  proof (intro conjI allI impI ballI)
    show "sorted (trail_lim s')" using lo by (simp add: levels_ok_def f sorted_append)
    show "a \<le> length (trail s)" if "a \<in> set (trail_lim s')" for a using that lo by (auto simp: levels_ok_def f)
    show "level s (var p) \<le> Suc (decisionLevel s)" if "p \<in> set (trail s)" for p using L(3) [OF that] by simp
    show "level s (var p) \<le> j" if "j < Suc (decisionLevel s)" "p \<in> set (take (trail_lim s' ! j) (trail s))" for j p
      using that L(4) [of j p] L(3) [of p] by (cases "j < decisionLevel s") (auto simp: lim)
    show "level s (var l) \<le> level s (var p)"
      if "p \<in> set (trail s)" "reason s (var p) \<in> A" "l \<in> set (clits s (reason s (var p)))" for p l
      using L(5) that by blast
    fix k assume k: "k < length (trail s)" "0 < level s (var (trail s ! k)) \<and> reason s (var (trail s ! k)) = CRef_Undef"
    have "level s (var (trail s ! k)) - 1 < decisionLevel s" using L(3) [OF nth_mem [OF k(1)]] k(2) by linarith
    then show "k = trail_lim s' ! (level s (var (trail s ! k)) - 1)" using L(6) [OF k(1)] k(2) by (simp add: lim)
  qed
  have tok: "trail_ok s" and wi: "winv (nVars s) A (clits s) (wlist (watches_cleanAll s))"
    using inv by (auto simp: solver_inv_def bcp_inv_def)
  have "\<exists>l \<in> set (clits s cr). l \<in> set (trail s)" if c: "cr \<in> A" "p \<in> set (trail s)" "watched (clits s cr) p" for cr p
  proof -
    obtain l where l: "l \<in> set (clits s cr)" "isT s l"
      using dn q c by (auto simp: queue_done_def processed_def sat_clause_def)
    moreover have "lit_ok (nVars s) l" using winvD(1) [OF wi] c(1) l(1) by (auto simp: clauses_ok_def)
    ultimately show ?thesis using trail_okD(1) [OF tok] by blast
  qed
  then show "prefix_done A s'"
    using pd unfolding prefix_done_def e dl f(1) by (auto simp: lim less_Suc_eq)
qed

lemma enqueue_levels:
  fixes T :: "'h theory_ops" and s :: "'h solver"
  assumes inv: "solver_inv A s" and lo: "levels_ok A s" and pd: "prefix_done A s"
    and q: "lit_ok (nVars s) q" and U: "isU s q"
    and r: "cr \<in> A \<Longrightarrow> clits s cr ! 0 = q \<and> (\<forall>l \<in> set (clits s cr). l \<noteq> q \<longrightarrow> isF s l)"
    and live: "isClause (ca s) cr \<Longrightarrow> cr \<in> A"
    and dec: "cr = CRef_Undef \<Longrightarrow> 0 < decisionLevel s \<Longrightarrow> trail_lim s ! (decisionLevel s - 1) = length (trail s)"
    and calm: "calm T s"
  defines "s' \<equiv> uncheckedEnqueue T q cr s"
  shows "levels_ok A s'" and "prefix_done A s'"
proof -
  have bi: "bcp_inv A s (wlist (watches_cleanAll s))" using inv by (auto simp: solver_inv_def)
  have tok: "trail_ok s" and wi: "winv (nVars s) A (clits s) (wlist (watches_cleanAll s))"
    and ro: "reasons_ok A s" using bi by (auto simp: bcp_inv_def)
  note e = enqueue_step [OF bi q U r live calm, folded s'_def]
  have e: "trail s' = trail s @ [q]" "clits s' = clits s"
    "\<And>p. p \<in> set (trail s') \<Longrightarrow> reason s' (var p) = (if p = q then cr else reason s (var p))"
    "\<And>p. p \<in> set (trail s') \<Longrightarrow> level s' (var p) = (if p = q then decisionLevel s else level s (var p))"
    using e by blast+
  have tl: "trail_lim s' = trail_lim s" using calm_enqueue [OF calm q, of cr] by (auto simp: s'_def)
  have dl: "decisionLevel s' = decisionLevel s" by (simp add: decisionLevel_def tl)
  have fresh: "q \<notin> set (trail s)" "neg q \<notin> set (trail s)"
    using trail_okD(1,2) [OF tok q] isU_not [OF U] by auto
  note L = levels_okD [OF lo]
  have old: "level s' (var l) = level s (var l)" if l: "l \<in> set (trail s) \<or> neg l \<in> set (trail s)" for l
  proof -
    obtain p where p: "p \<in> set (trail s)" "var p = var l" using l by (metis var_neg)
    then show ?thesis using e(1) e(4) [of p] fresh by auto
  qed
  have clok: "\<forall>l \<in> set (clits s r). lit_ok (nVars s) l" if "r \<in> A" for r
    using winvD(1) [OF wi] that by (auto simp: clauses_ok_def)
  show "levels_ok A s'"
    unfolding levels_ok_def dl tl
  proof (intro conjI allI impI ballI)
    show "sorted (trail_lim s)" using lo by (simp add: levels_ok_def)
    show "a \<le> length (trail s')" if "a \<in> set (trail_lim s)" for a
      using that lo by (auto simp: levels_ok_def e(1) intro: le_SucI)
    show "level s' (var p) \<le> decisionLevel s" if "p \<in> set (trail s')" for p
      using that e(1) e(4) [OF that] L(3) by auto
    show "level s' (var p) \<le> j" if j: "j < decisionLevel s" "p \<in> set (take (trail_lim s ! j) (trail s'))" for j p
    proof -
      have p: "p \<in> set (take (trail_lim s ! j) (trail s))" using j L(1) [OF j(1)] by (simp add: e(1))
      then show ?thesis using L(4) [OF j(1) p] old [of p] in_set_takeD [OF p] by simp
    qed
    show "level s' (var l) \<le> level s' (var p)"
      if p: "p \<in> set (trail s')" "reason s' (var p) \<in> A" "l \<in> set (clits s' (reason s' (var p)))" for p l
    proof (cases "p = q")
      case True
      then have cr: "cr \<in> A" "l \<in> set (clits s cr)" using p e(2) e(3) [OF p(1)] by auto
      have "l = q \<or> isF s l" using r [OF cr(1)] cr(2) by blast
      then have "l = q \<or> neg l \<in> set (trail s)" using trail_okD(2) [OF tok] clok [OF cr(1)] cr(2) by blast
      then show ?thesis using True e(4) [OF p(1)] old [of l] L(3) [of "neg l"] by auto
    next
      case False
      then have ps: "p \<in> set (trail s)" "reason s (var p) \<in> A" "l \<in> set (clits s (reason s (var p)))"
        using p e(1,2) e(3) [OF p(1)] by auto
      obtain k where k: "k < length (trail s)" "trail s ! k = p" using ps(1) by (auto simp: in_set_conv_nth)
      have "l = p \<or> neg l \<in> set (take k (trail s))" using ro k ps(2,3) by (auto simp: reasons_ok_def)
      then have "l \<in> set (trail s) \<or> neg l \<in> set (trail s)" using ps(1) by (auto dest: in_set_takeD)
      then show ?thesis using old [of l] old [of p] ps(1) L(5) [OF ps] by simp
    qed
    fix k assume k: "k < length (trail s')" "0 < level s' (var (trail s' ! k)) \<and> reason s' (var (trail s' ! k)) = CRef_Undef"
    have m: "trail s' ! k \<in> set (trail s')" using k(1) by simp
    show "k = trail_lim s ! (level s' (var (trail s' ! k)) - 1)"
    proof (cases "k = length (trail s)")
      case True
      then have "trail s' ! k = q" by (simp add: e(1))
      then show ?thesis using dec True k(2) e(3) [OF m] e(4) [OF m] by simp
    next
      case False
      then have kl: "k < length (trail s)" "trail s' ! k = trail s ! k" using k(1) by (simp_all add: e(1) nth_append)
      then have "trail s ! k \<noteq> q" using fresh(1) by (metis nth_mem)
      then show ?thesis using L(6) [OF kl(1)] k(2) e(3) [OF m] e(4) [OF m] kl(2) by simp
    qed
  qed
  show "prefix_done A s'"
    using pd L(1) unfolding prefix_done_def dl tl e(1,2) by simp
qed

lemma hist_levels:
  fixes T :: "'h theory_ops" and s :: "'h solver"
  assumes inv: "solver_inv A s" and inv': "solver_inv A s'" and h: "bcp_hist s s'" and tr: "\<exists>ys. trail s' = trail s @ ys"
    and tl: "trail_lim s' = trail_lim s" and cl: "\<forall>cr \<in> A. mset (clits s' cr) = mset (clits s cr)"
    and lo: "levels_ok A s" and pd: "prefix_done A s"
  shows "levels_ok A s'" and "prefix_done A s'"
proof -
  have ro: "reasons_ok A s" "reasons_ok A s'" "\<forall>cr \<in> A. mem (ca s) cr \<noteq> None"
    using inv inv' by (auto simp: solver_inv_def bcp_inv_def)
  have dl: "decisionLevel s' = decisionLevel s" by (simp add: decisionLevel_def tl)
  have sets: "set (clits s' cr) = set (clits s cr)" if "cr \<in> A" for cr using cl that mset_eq_setD by blast
  have sub: "set (trail s) \<subseteq> set (trail s')" using tr by auto
  note L = levels_okD [OF lo]
  have tk: "take (trail_lim s ! j) (trail s') = take (trail_lim s ! j) (trail s)" if "j < decisionLevel s" for j
    using tr L(1) [OF that] by auto
  have oldv: "level s' (var l) = level s (var l)" if "l \<in> set (trail s) \<or> neg l \<in> set (trail s)" for l
    using that h by (metis bcp_hist_def var_neg)
  have oldr: "reason s' (var p) = reason s (var p)" if "p \<in> set (trail s)" for p using that h by (simp add: bcp_hist_def)
  have new: "level s' (var p) = decisionLevel s" "reason s' (var p) \<noteq> CRef_Undef"
    if "p \<in> set (trail s')" "p \<notin> set (trail s)" for p
  proof -
    have "level s' (var p) = decisionLevel s \<and> isClause (ca s) (reason s' (var p))"
      using that h by (simp add: bcp_hist_def)
    then show "level s' (var p) = decisionLevel s" "reason s' (var p) \<noteq> CRef_Undef" by (auto simp del: not_isClause_Undef) (metis not_isClause_Undef)
  qed
  have lev: "level s' (var p) \<le> decisionLevel s" if "p \<in> set (trail s')" for p
    using that new(1) [of p] oldv [of p] L(3) [of p] by (cases "p \<in> set (trail s)") auto
  have before: "l = p \<or> neg l \<in> set (trail t)"
    if b: "reasons_ok A t" "p \<in> set (trail t)" "reason t (var p) \<in> A" "l \<in> set (clits t (reason t (var p)))" for t :: "'h solver" and p l
  proof -
    obtain k where "k < length (trail t)" "trail t ! k = p" using b(2) by (auto simp: in_set_conv_nth)
    then show ?thesis using b by (auto simp: reasons_ok_def dest: in_set_takeD)
  qed
  show "levels_ok A s'"
    unfolding levels_ok_def dl tl
  proof (intro conjI allI impI ballI)
    show "sorted (trail_lim s)" using lo by (simp add: levels_ok_def)
    show "a \<le> length (trail s')" if "a \<in> set (trail_lim s)" for a
      using that lo tr by (auto simp: levels_ok_def intro: trans_le_add1)
    show "level s' (var p) \<le> decisionLevel s" if "p \<in> set (trail s')" for p by (rule lev [OF that])
    show "level s' (var p) \<le> j" if j: "j < decisionLevel s" "p \<in> set (take (trail_lim s ! j) (trail s'))" for j p
    proof -
      have p: "p \<in> set (take (trail_lim s ! j) (trail s))" using j tk by simp
      then show ?thesis using L(4) [OF j(1) p] oldv [of p] in_set_takeD [OF p] by simp
    qed
    show "level s' (var l) \<le> level s' (var p)"
      if p: "p \<in> set (trail s')" "reason s' (var p) \<in> A" "l \<in> set (clits s' (reason s' (var p)))" for p l
    proof (cases "p \<in> set (trail s)")
      case True
      then have r: "reason s (var p) \<in> A" "l \<in> set (clits s (reason s (var p)))"
        using p oldr [OF True] sets by auto
      then show ?thesis using before [OF ro(1) True r] oldv [of l] oldv [of p] True L(5) [OF True r] by auto
    next
      case False
      have "l \<in> set (trail s') \<or> neg l \<in> set (trail s')" using before [OF ro(2) p] p(1) by auto
      then show ?thesis using lev new(1) [OF p(1) False] by (metis var_neg)
    qed
    fix k assume k: "k < length (trail s')" "0 < level s' (var (trail s' ! k)) \<and> reason s' (var (trail s' ! k)) = CRef_Undef"
    then have m: "trail s' ! k \<in> set (trail s)" using new(2) [of "trail s' ! k"] by auto
    have kl: "k < length (trail s)" "trail s' ! k = trail s ! k"
    proof -
      obtain i where i: "i < length (trail s)" "trail s ! i = trail s' ! k" using m by (auto simp: in_set_conv_nth)
      have "distinct (trail s')" using inv' by (simp add: solver_inv_def bcp_inv_def trail_ok_def distinct_map)
      moreover have "trail s' ! i = trail s ! i" "i < length (trail s')" using tr i(1) by (auto simp: nth_append)
      ultimately have "i = k" using k(1) i(2) by (metis nth_eq_iff_index_eq)
      then show "k < length (trail s)" "trail s' ! k = trail s ! k" using i by auto
    qed
    show "k = trail_lim s ! (level s' (var (trail s' ! k)) - 1)"
      using L(6) [OF kl(1)] k(2) oldv [of "trail s ! k"] oldr [of "trail s ! k"] kl by simp
  qed
  show "prefix_done A s'"
    unfolding prefix_done_def dl tl
  proof (intro allI impI ballI)
    fix j cr q assume a: "j < decisionLevel s" "cr \<in> A" "q \<in> set (take (trail_lim s ! j) (trail s'))" "watched (clits s' cr) q"
    then have q: "q \<in> set (take (trail_lim s ! j) (trail s))" using tk by simp
    then have "watched (clits s cr) q" using h a(2,4) ro(3) by (auto simp: bcp_hist_def dest: in_set_takeD)
    then show "\<exists>l \<in> set (clits s' cr). l \<in> set (take (trail_lim s ! j) (trail s'))"
      using pd a(1,2) q unfolding prefix_done_def sets [OF a(2)] tk [OF a(1)] by blast
  qed
qed

text \<open>C6: backtracking to a lower level keeps exactly the literals of the levels that remain, in their order,
  cuts the levels, moves the propagation queue to the first removed decision and re-establishes the
  invariants of the trail, the watchers, the reasons and the levels, without a new scan of the clauses.\<close>

theorem cancelUntil_restores:
  fixes T :: "'h theory_ops" and s :: "'h solver"
  assumes "solver_inv A s" and "levels_ok A s" and "prefix_done A s" and "lev < decisionLevel s" and "calm T s"
  shows "trail (cancelUntil T lev s) = filter (\<lambda>p. level s (var p) \<le> lev) (trail s) \<and>
      trail_lim (cancelUntil T lev s) = take lev (trail_lim s) \<and> qhead (cancelUntil T lev s) = trail_lim s ! lev \<and>
      solver_inv A (cancelUntil T lev s) \<and> queue_done A (cancelUntil T lev s) \<and>
      levels_ok A (cancelUntil T lev s) \<and> prefix_done A (cancelUntil T lev s)"
  using cancelUntil_spec [OF assms] by blast

text \<open>The decision \<open>\<not> x0\<close> on the problem with the clauses \<open>x0 \<or> x1\<close> and \<open>x0 \<or> \<not> x1\<close>.\<close>

definition decided :: "unit solver" where
  "decided = uncheckedEnqueue no_theories (mkLit 0 True) CRef_Undef (newDecisionLevel demo)"

lemma root_levels: "trail_lim s = [] \<Longrightarrow> \<forall>p \<in> set (trail s). level s (var p) = 0 \<Longrightarrow>
    \<forall>p \<in> set (trail s). reason s (var p) \<notin> A \<Longrightarrow> levels_ok A s \<and> prefix_done A s"
  by (auto simp: levels_ok_def prefix_done_def decisionLevel_def)

lemma decided_ok:
  "solver_inv (db demo) decided" "queue_done (db demo) decided" "levels_ok (db demo) decided" "prefix_done (db demo) decided"
  "decisionLevel decided = 1" "trail decided = [mkLit 0 True]" "trail_lim decided = [0]" "seen decided = [False, False]"
  "opts decided = demo_options" "clits decided = clits demo" "nVars decided = 2" "db decided = db demo"
  "level decided 0 = 1" "reason decided 0 = CRef_Undef"
proof -
  let ?d = "newDecisionLevel demo" and ?q = "mkLit 0 True"
  note rd = root_okD [OF demo_ok(1)]
  have tl: "trail_lim demo = []" "qhead demo = length (trail demo)"
    using rd(1,3) demo_ok(4) by (simp_all add: solver_inv_def)
  have "levels_ok (db demo) demo \<and> prefix_done (db demo) demo" by (rule root_levels) (simp_all add: tl demo_ok)
  then have lo: "levels_ok (db demo) demo" "prefix_done (db demo) demo" by simp_all
  note nd = newDecisionLevel_step [OF rd(1,2) tl(2) lo]
  have "assigns ?d = assigns demo" "vardata ?d = vardata demo" "ca ?d = ca demo" by (simp_all add: newDecisionLevel_def)
  then have e: "isU ?d = isU demo" "nVars ?d = nVars demo" "clits ?d = clits demo" using state_eqs by blast+
  have f: "trail ?d = []" "trail_lim ?d = [0]" "nVars ?d = 2" "isU ?d = isU demo" "clits ?d = clits demo"
    "seen ?d = [False, False]" "opts ?d = demo_options" "clauses ?d = clauses demo" "learnts ?d = learnts demo"
    using e by (simp_all add: newDecisionLevel_def tl demo_ok)
  have q: "lit_ok (nVars ?d) ?q" by (simp add: f lit_ok_def mkLit_def)
  have U: "isU ?d ?q"
    using trail_okD(3) [OF rd(5)] trail_okD(1,2) [OF rd(5)] q f(3) by (simp add: f(4) demo_ok(3,4))
  have nA: "CRef_Undef \<notin> db demo" using rd(1) not_isClause_Undef by (auto simp: solver_inv_def bcp_inv_def)
  have nC: "\<not> isClause (ca ?d) CRef_Undef" by simp
  show "solver_inv (db demo) decided" "queue_done (db demo) decided"
    using solver_inv_enqueue [OF nd(1,2) q U nA nC no_theories_calm] by (simp_all add: decided_def)
  obtain t where dt: "decided = ?d\<lparr>assigns := (assigns ?d)[vix (var ?q) := lbool_of_bool (\<not> sign ?q)],
      vardata := (vardata ?d)[vix (var ?q) := \<lparr>vreason = CRef_Undef, vlevel = decisionLevel ?d\<rparr>],
      trail := trail ?d @ [?q], ths := t\<rparr>"
    using calm_enqueue [OF no_theories_calm q, of CRef_Undef] unfolding decided_def by blast
  have "levels_ok (db demo) decided \<and> prefix_done (db demo) decided"
    unfolding decided_def using enqueue_levels [OF nd(1,3,4) q U, of CRef_Undef no_theories] nA
    by (simp add: f decisionLevel_def)
  then show "levels_ok (db demo) decided" "prefix_done (db demo) decided" by simp_all
  show d: "trail decided = [mkLit 0 True]" "trail_lim decided = [0]" "seen decided = [False, False]"
    "opts decided = demo_options" "decisionLevel decided = 1" "db decided = db demo"
    by (simp_all add: dt f decisionLevel_def db_def)
  show "clits decided = clits demo" by (rule state_eqs(7)) (simp add: dt newDecisionLevel_def)
  have "length (vardata ?d) = 2" using f(3) by (simp add: nVars_def)
  moreover have v: "vix (var ?q) = 0" by (simp add: vix_def)
  ultimately show "nVars decided = 2" "level decided 0 = 1" "reason decided 0 = CRef_Undef"
    by (simp_all add: dt nVars_def level_def reason_def vix_def f decisionLevel_def)
qed

theorem cancelUntil_restores_witness:
  "trail (cancelUntil no_theories 0 decided) = [] \<and> qhead (cancelUntil no_theories 0 decided) = 0 \<and>
   solver_inv (db demo) (cancelUntil no_theories 0 decided)"
proof -
  have l: "0 < decisionLevel decided" by (simp add: decided_ok)
  show ?thesis using cancelUntil_restores [OF decided_ok(1,3,4) l no_theories_calm] by (simp add: decided_ok)
qed

end
