(* ===== verification/Conflict.thy ===== *)
theory Conflict
  imports Solver_Backtrack Solver_Analyze
begin

text \<open>
  Correctness of conflict analysis without theory reasons: \<^verbatim>\<open>analyze\<close> terminates, its clause is entailed by
  the clauses and the root literals, is false, has one literal of the current level in front, and both ways
  of minimising it keep this.
\<close>

section \<open>What analysis leaves alone\<close>

definition heap_kept :: "heap \<Rightarrow> heap \<Rightarrow> bool" where
  "heap_kept h h' \<longleftrightarrow> (idx_ok (heap h) (indices h) \<longrightarrow>
     idx_ok (heap h') (indices h') \<and> elems h' = elems h \<and> length (indices h') = length (indices h))"

definition ana_rest :: "'h solver \<Rightarrow> _" where
  "ana_rest s = (released_vars s, free_vars s, assumptions s, tmp_clause s, theory_vars s, limits s, clauses_to_add s,
     random_seed s, initial_level s, n_theories (ths s), theory_queue (ths s), statistics.conflicts (stats s))"

definition ana_frame :: "'h solver \<Rightarrow> 'h solver \<Rightarrow> bool" where
  "ana_frame s s' \<longleftrightarrow>
     assigns s' = assigns s \<and> vardata s' = vardata s \<and> trail s' = trail s \<and> trail_lim s' = trail_lim s \<and>
     qhead s' = qhead s \<and> watches s' = watches s \<and> opts s' = opts s \<and> clauses s' = clauses s \<and>
     learnts s' = learnts s \<and> ok s' = ok s \<and> decision s' = decision s \<and> priority s' = priority s \<and>
     length (seen s') = length (seen s) \<and> marker_refs (ca s') = marker_refs (ca s) \<and>
     region_of (ca s') = region_of (ca s) \<and> extra_clause_field (ca s') = extra_clause_field (ca s) \<and>
     ana_rest s' = ana_rest s \<and> length (activity s') = length (activity s) \<and> heap_kept (order_heap s) (order_heap s') \<and>
     (\<forall>cr. rel_option (\<lambda>c d. cmark d = cmark c \<and> learnt d = learnt c \<and> has_extra d = has_extra c \<and> reloced d = reloced c \<and> lits d = lits c)
        (mem (ca s) cr) (mem (ca s') cr))"

lemma ana_rest_upd [simp]:
  "ana_rest (s\<lparr>ca := x1\<rparr>) = ana_rest s" "ana_rest (s\<lparr>seen := x2\<rparr>) = ana_rest s" "ana_rest (s\<lparr>cla_inc := x3\<rparr>) = ana_rest s"
  by (simp_all add: ana_rest_def)

lemma heap_kept_refl [simp]: "heap_kept h h"
  by (simp add: heap_kept_def)

lemma heap_kept_trans: "heap_kept h h' \<Longrightarrow> heap_kept h' h'' \<Longrightarrow> heap_kept h h''"
  by (auto simp: heap_kept_def)

lemma heap_kept_decrease: "heap_kept (order_heap s) (order_heap (heap_decrease_var v s))"
proof -
  let ?lt = "varOrderLt (activity s) (priority s)"
  have "heap_kept (order_heap s) h'" if "heap_decrease ?lt (vix v) (order_heap s) = Some h'" for h'
    unfolding heap_kept_def
  proof
    assume ok: "idx_ok (heap (order_heap s)) (indices (order_heap s))"
    have "vix v \<in> elems (order_heap s)" using that var_heap.inHeap_elems [OF ok] by (auto simp: heap_decrease_def split: if_splits)
    from var_heap.decrease_struct [OF ok this, of "activity s" "priority s"] that
    show "idx_ok (heap h') (indices h') \<and> elems h' = elems (order_heap s) \<and>
        length (indices h') = length (indices (order_heap s))" by auto
  qed
  then show ?thesis by (auto simp: heap_decrease_var_def split: option.splits)
qed

lemma ana_frame_refl: "ana_frame s s"
  by (auto simp: ana_frame_def option.rel_refl)

lemma ana_frame_trans:
  assumes "ana_frame s s'" and "ana_frame s' s''"
  shows "ana_frame s s''"
proof -
  let ?R = "\<lambda>c d. cmark d = cmark c \<and> learnt d = learnt c \<and> has_extra d = has_extra c \<and> reloced d = reloced c \<and> lits d = lits c"
  have "rel_option ?R (mem (ca s) cr) (mem (ca s'') cr)" for cr
  proof -
    have "rel_option ?R (mem (ca s) cr) (mem (ca s') cr)" "rel_option ?R (mem (ca s') cr) (mem (ca s'') cr)"
      using assms by (auto simp: ana_frame_def)
    then show ?thesis
      by (cases "mem (ca s) cr"; cases "mem (ca s') cr"; cases "mem (ca s'') cr") auto
  qed
  then show ?thesis using assms by (simp add: ana_frame_def) (blast intro: heap_kept_trans)
qed

lemma ana_frame_eqs:
  assumes "ana_frame s s'"
  shows "isT s' = isT s" and "isF s' = isF s" and "isU s' = isU s" and "nVars s' = nVars s" and "reason s' = reason s"
    and "level s' = level s" and "wlist s' = wlist s" and "decisionLevel s' = decisionLevel s"
    and "isClause (ca s') = isClause (ca s)" and "isTheoryCause s' = isTheoryCause s"
proof -
  have e: "assigns s' = assigns s" "vardata s' = vardata s" "watches s' = watches s" "trail_lim s' = trail_lim s"
    "marker_refs (ca s') = marker_refs (ca s)" using assms by (auto simp: ana_frame_def)
  show "isT s' = isT s" "isF s' = isF s" "isU s' = isU s" "nVars s' = nVars s" "reason s' = reason s"
    "level s' = level s" "wlist s' = wlist s" using e state_eqs by blast+
  show "decisionLevel s' = decisionLevel s" "isClause (ca s') = isClause (ca s)" "isTheoryCause s' = isTheoryCause s"
    using e by (simp_all add: decisionLevel_def isClause_def isTheoryCause_def fun_eq_iff)
qed

lemma ana_frame_clause:
  assumes "ana_frame s s'"
  shows "mem (ca s') cr = None \<longleftrightarrow> mem (ca s) cr = None" and "clits s' = clits s"
    and "mem (ca s) cr \<noteq> None \<Longrightarrow> cmark (ca_get (ca s') cr) = cmark (ca_get (ca s) cr)"
proof -
  have r: "rel_option (\<lambda>c d. cmark d = cmark c \<and> learnt d = learnt c \<and> has_extra d = has_extra c \<and> reloced d = reloced c \<and> lits d = lits c)
      (mem (ca s) cr) (mem (ca s') cr)" for cr using assms by (simp add: ana_frame_def)
  show "mem (ca s') cr = None \<longleftrightarrow> mem (ca s) cr = None"
    "mem (ca s) cr \<noteq> None \<Longrightarrow> cmark (ca_get (ca s') cr) = cmark (ca_get (ca s) cr)"
    using r [of cr] by (cases "mem (ca s) cr"; cases "mem (ca s') cr"; simp add: ca_get_def)+
  have "clits s' cr = clits s cr" for cr
    using r [of cr] by (cases "mem (ca s) cr"; cases "mem (ca s') cr") (auto simp: clits_def clause_at_def ca_get_def)
  then show "clits s' = clits s" by blast
qed

lemma ana_frame_inv:
  assumes f: "ana_frame s s'" and inv: "solver_inv A s"
  shows "solver_inv A s'" and "queue_done A s' = queue_done A s" and "levels_ok A s' = levels_ok A s"
    and "prefix_done A s' = prefix_done A s" and "allocator_wf (ca s) \<Longrightarrow> allocator_wf (ca s')"
proof -
  note e = ana_frame_eqs [OF f] and c = ana_frame_clause [OF f]
  have g: "trail s' = trail s" "trail_lim s' = trail_lim s" "qhead s' = qhead s" "watches s' = watches s"
    "assigns s' = assigns s" using f by (auto simp: ana_frame_def)
  show "queue_done A s' = queue_done A s" by (simp add: queue_done_def processed_def sat_clause_def e c(2) g)
  show "levels_ok A s' = levels_ok A s" "prefix_done A s' = prefix_done A s"
    by (simp_all add: levels_ok_def prefix_done_def e c(2) g)
  have bi: "bcp_inv A s (wlist (watches_cleanAll s))" and wf: "occ_wf (watches s)"
    and live: "\<forall>q. lit_ok (nVars s) q \<longrightarrow> (\<forall>w \<in> set (wlist s q). mem (ca s) (cref w) \<noteq> None)"
    and len: "length (occs (watches s)) = 2 * nVars s"
    using inv by (auto simp: solver_inv_def bcp_inv_def)
  have wc: "wlist (watches_cleanAll s') q = wlist (watches_cleanAll s) q" if q: "lit_ok (nVars s) q" for q
  proof -
    have b: "lix q < length (occs (watches s))" using lit_ok_lix [OF q] len by simp
    then have b': "lix q < length (occs (watches s'))" by (simp add: g)
    have wf': "occ_wf (watches s')" using wf by (simp add: g)
    have "watcher_deleted (ca s') w = watcher_deleted (ca s) w" if "w \<in> set (wlist s q)" for w
      using live q that c(3) [of "cref w"] by (simp add: watcher_deleted_def)
    then have "filter (\<lambda>w. \<not> watcher_deleted (ca s') w) (wlist s q) = filter (\<lambda>w. \<not> watcher_deleted (ca s) w) (wlist s q)"
      by (intro filter_cong) auto
    then show ?thesis unfolding wlist_cleanAll [OF wf b] wlist_cleanAll [OF wf' b'] by (simp add: g e(7))
  qed
  have "winv (nVars s) A (clits s') (wlist (watches_cleanAll s'))"
    using bi winv_cong [OF wc, where A = A and L = "clits s" and L' = "clits s'"] by (simp add: bcp_inv_def c(2))
  moreover have "trail_ok s'" "reasons_ok A s'" "reasons_live A s'"
    using bi by (simp_all add: bcp_inv_def trail_ok_def reasons_ok_def reasons_live_def e c(2) g)
  ultimately show "solver_inv A s'" using inv c(1) by (simp add: solver_inv_def bcp_inv_def e g)
  show "allocator_wf (ca s')" if wf: "allocator_wf (ca s)"
  proof -
    have r: "rel_option (\<lambda>c d. has_extra d = has_extra c \<and> lits d = lits c) (mem (ca s) cr) (mem (ca s') cr)" for cr
      using f by (auto simp: ana_frame_def elim!: option.rel_mono_strong)
    have "unat cr + clauseWord32Size (clause_size d) (has_extra d) \<le> unat (rsz (region_of (ca s)))"
      if d: "mem (ca s') cr = Some d" for cr d
      using r [of cr] d wf by (cases "mem (ca s) cr") (auto simp: allocator_wf_def clause_size_def)
    then show ?thesis using f wf by (auto simp: ana_frame_def allocator_wf_def)
  qed
qed

text \<open>Bumping activities stays inside the frame.\<close>

lemma ana_frame_upd [simp]:
  "length x1 = length (activity s') \<Longrightarrow> ana_frame s (s'\<lparr>activity := x1\<rparr>) = ana_frame s s'"
  "ana_frame s (s'\<lparr>var_inc := x2\<rparr>) = ana_frame s s'"
  "n_theories x4 = n_theories (ths s') \<Longrightarrow> theory_queue x4 = theory_queue (ths s') \<Longrightarrow> ana_frame s (s'\<lparr>ths := x4\<rparr>) = ana_frame s s'"
  "ana_frame s (s'\<lparr>cla_inc := x5\<rparr>) = ana_frame s s'"
  "statistics.conflicts x6 = statistics.conflicts (stats s') \<Longrightarrow> ana_frame s (s'\<lparr>stats := x6\<rparr>) = ana_frame s s'"
  "ana_frame s (s'\<lparr>to_analyze := x7\<rparr>) = ana_frame s s'"
  by (simp_all add: ana_frame_def ana_rest_def)

lemma heap_decrease_var_frame:
  "ana_frame s s' \<Longrightarrow> ana_frame s (heap_decrease_var v s')" "seen (heap_decrease_var v s') = seen s'"
proof -
  obtain h where h: "heap_decrease_var v s' = s'\<lparr>order_heap := h\<rparr>"
    by (cases "heap_decrease (varOrderLt (activity s') (priority s')) (vix v) (order_heap s')")
      (auto simp: heap_decrease_var_def intro: that [of "order_heap s'"])
  have "heap_kept (order_heap s') h" using heap_kept_decrease [of s' v] by (simp add: h)
  then have "ana_frame s' (s'\<lparr>order_heap := h\<rparr>)"
    by (simp add: ana_frame_def ana_rest_def option.rel_refl)
  then show "ana_frame s s' \<Longrightarrow> ana_frame s (heap_decrease_var v s')" using ana_frame_trans h by simp blast
  show "seen (heap_decrease_var v s') = seen s'" by (simp add: h)
qed

lemma varBump_frame: "ana_frame s (varBumpActivity T v inc s)" "seen (varBumpActivity T v inc s) = seen s"
  by (auto simp: varBumpActivity_def scale_vars_def scale_ths_def heap_decrease_var_frame ana_frame_refl Let_def
      intro!: heap_decrease_var_frame(1))

lemma act_modify_frame:
  assumes "\<And>c. lits (f c) = lits c \<and> cmark (f c) = cmark c \<and> learnt (f c) = learnt c \<and> has_extra (f c) = has_extra c \<and> reloced (f c) = reloced c"
  shows "ana_frame s (s\<lparr>ca := ca_modify cr f (ca s)\<rparr>)"
proof -
  have "rel_option (\<lambda>c d. cmark d = cmark c \<and> learnt d = learnt c \<and> has_extra d = has_extra c \<and> reloced d = reloced c \<and> lits d = lits c)
     (mem (ca s) r) (mem (ca_modify cr f (ca s)) r)" for r
    using assms by (cases "mem (ca s) r") (auto simp: ca_modify_def)
  then show ?thesis by (simp add: ana_frame_def ca_modify_def)
qed

lemma scale_clauses_frame: "ana_frame s (s\<lparr>ca := scale_clauses crs (ca s)\<rparr>)"
proof (induction crs arbitrary: s)
  case Nil
  then show ?case by (simp add: ana_frame_refl)
next
  case (Cons cr crs)
  let ?s = "s\<lparr>ca := ca_modify cr (\<lambda>c. c\<lparr>act := act c / 10 ^ 20\<rparr>) (ca s)\<rparr>"
  have "ana_frame s ?s" by (rule act_modify_frame) simp
  then show ?case using Cons.IH [of ?s] ana_frame_trans by simp blast
qed

lemma claBump_frame: "ana_frame s (claBumpActivity cr s)" "seen (claBumpActivity cr s) = seen s"
proof -
  let ?s = "s\<lparr>ca := ca_modify cr (\<lambda>c. c\<lparr>act := act c + cla_inc s\<rparr>) (ca s)\<rparr>"
  let ?t = "?s\<lparr>ca := scale_clauses (learnts ?s) (ca ?s), cla_inc := cla_inc ?s / 10 ^ 20\<rparr>"
  have a: "ana_frame s ?s" by (rule act_modify_frame) simp
  have "ana_frame ?s (?s\<lparr>ca := scale_clauses (learnts ?s) (ca ?s)\<rparr>)" by (rule scale_clauses_frame)
  then have "ana_frame ?s ?t" by (simp add: ana_frame_def)
  then have "ana_frame s ?t" using a ana_frame_trans by blast
  then show "ana_frame s (claBumpActivity cr s)" using a by (simp add: claBumpActivity_def Let_def ana_frame_refl)
  show "seen (claBumpActivity cr s) = seen s" by (simp add: claBumpActivity_def Let_def)
qed

lemma set_seen_frame: "ana_frame s (set_seen v b s)" "seen (set_seen v b s) = (seen s)[vix v := b]"
  by (simp_all add: ana_frame_def set_seen_def option.rel_refl)


section \<open>The resolution loop\<close>

text \<open>A model of the clauses that also satisfies the literals of the root level.\<close>

definition root_model :: "CRef set \<Rightarrow> 'h solver \<Rightarrow> (Lit \<Rightarrow> bool) \<Rightarrow> bool" where
  "root_model A s M \<longleftrightarrow>
     lit_model M \<and> (\<forall>cr \<in> A. \<exists>l \<in> set (clits s cr). M l) \<and> (\<forall>p \<in> set (trail s). level s (var p) = 0 \<longrightarrow> M p)"

definition no_theory_reasons :: "'h solver \<Rightarrow> bool" where
  "no_theory_reasons s \<longleftrightarrow> (\<forall>p \<in> set (trail s). \<not> isTheoryCause s (reason s (var p)))"

definition ana_ctx :: "CRef set \<Rightarrow> 'h solver \<Rightarrow> bool" where
  "ana_ctx A s \<longleftrightarrow> solver_inv A s \<and> levels_ok A s \<and> no_theory_reasons s \<and> 0 < decisionLevel s"

lemma ana_ctx_frame: "ana_frame s s' \<Longrightarrow> ana_ctx A s \<Longrightarrow> ana_ctx A s'"
  using ana_frame_inv [of s s' A] ana_frame_eqs [of s s'] unfolding ana_ctx_def no_theory_reasons_def
  by (auto simp: ana_frame_def)

lemma root_model_frame: "ana_frame s s' \<Longrightarrow> root_model A s' = root_model A s"
  using ana_frame_eqs(6) [of s s'] ana_frame_clause(2) [of s s'] by (auto simp: root_model_def ana_frame_def fun_eq_iff)

lemma ana_ctxD:
  assumes "ana_ctx A s"
  shows "trail_ok s" and "reasons_ok A s" and "levels_ok A s" and "length (assigns s) = nVars s"
    and "p \<in> set (trail s) \<Longrightarrow> reason s (var p) = CRef_Undef \<or> reason s (var p) \<in> A"
    and "cr \<in> A \<Longrightarrow> 2 \<le> length (clits s cr) \<and> distinct (clits s cr) \<and> (\<forall>l \<in> set (clits s cr). lit_ok (nVars s) l)"
    and "cr \<in> A \<Longrightarrow> isClause (ca s) cr" and "CRef_Undef \<notin> A"
proof -
  have bi: "bcp_inv A s (wlist (watches_cleanAll s))" using assms by (auto simp: ana_ctx_def solver_inv_def)
  then show t: "trail_ok s" and "reasons_ok A s" and "levels_ok A s" using assms by (auto simp: bcp_inv_def ana_ctx_def)
  show "length (assigns s) = nVars s" using t by (simp add: trail_ok_def)
  show "p \<in> set (trail s) \<Longrightarrow> reason s (var p) = CRef_Undef \<or> reason s (var p) \<in> A"
    using assms bi by (auto simp: ana_ctx_def no_theory_reasons_def isTheoryCause_def bcp_inv_def reasons_live_def)
  show "cr \<in> A \<Longrightarrow> 2 \<le> length (clits s cr) \<and> distinct (clits s cr) \<and> (\<forall>l \<in> set (clits s cr). lit_ok (nVars s) l)"
    using bi winvD(1) [of "nVars s" A "clits s"] by (auto simp: bcp_inv_def clauses_ok_def)
  show "cr \<in> A \<Longrightarrow> isClause (ca s) cr" "CRef_Undef \<notin> A"
    using bi not_isClause_Undef by (auto simp: bcp_inv_def)
qed

text \<open>Positions of the trail below \<open>m\<close> that are marked and belong to the current level.\<close>

definition marked :: "'h solver \<Rightarrow> nat \<Rightarrow> nat set" where
  "marked s m = {k. k < m \<and> k < length (trail s) \<and> is_seen s (var (trail s ! k)) \<and>
                     level s (var (trail s ! k)) = decisionLevel s}"

definition ana_marks :: "'h solver \<Rightarrow> nat \<Rightarrow> Lit list \<Rightarrow> int \<Rightarrow> bool" where
  "ana_marks s m out pc \<longleftrightarrow>
     m \<le> length (trail s) \<and> pc = int (card (marked s m)) \<and> out \<noteq> [] \<and> length (seen s) = nVars s \<and>
     distinct (tl out) \<and>
     (\<forall>p \<in> set (trail s). is_seen s (var p) \<longrightarrow>
        (level s (var p) = decisionLevel s \<and> p \<in> set (take m (trail s))) \<or> neg p \<in> set (tl out)) \<and>
     (\<forall>i < length (seen s). seen s ! i \<longrightarrow> (\<exists>p \<in> set (trail s). vix (var p) = i)) \<and>
     (\<forall>q \<in> set (tl out). neg q \<in> set (trail s) \<and> is_seen s (var q) \<and> 0 < level s (var q) \<and>
        level s (var q) < decisionLevel s)"

lemma finite_marked [simp]: "finite (marked s m)"
  by (rule finite_subset [of _ "{..< m}"]) (auto simp: marked_def)

lemma same_var:
  assumes "trail_ok s" and "p \<in> set (trail s)" and "q \<in> set (trail s)" and "var p = var q"
  shows "p = q"
  using assms by (auto simp: trail_ok_def distinct_map inj_on_def)

lemma same_pos:
  assumes "trail_ok s" and "j < length (trail s)" and "k < length (trail s)" and "var (trail s ! j) = var (trail s ! k)"
  shows "j = k"
  using assms nth_eq_iff_index_eq [of "map var (trail s)" j k] by (simp add: trail_ok_def)

lemma is_seen_set:
  assumes "lit_ok (nVars s) p" and "lit_ok (nVars s) q" and "length (seen s) = nVars s"
  shows "is_seen (set_seen (var p) b s) (var q) = (if var q = var p then b else is_seen s (var q))"
  using assms vix_inject [of "nVars s" p q] lit_ok_vix [OF assms(1)] by (auto simp: is_seen_def set_seen_def nth_list_update)

lemma mark_step:
  fixes T :: "'h theory_ops" and s :: "'h solver"
  assumes c: "ana_ctx A s" and i: "ana_marks s m out pc" and q: "neg q \<in> set (take m (trail s))"
    and n: "\<not> is_seen s (var q)" "0 < level s (var q)"
  defines "s1 \<equiv> set_seen (var q) True (varBumpActivity T (var q) (var_inc s) s)"
  shows "ana_frame s s1"
    and "ana_marks s1 m (if decisionLevel s1 \<le> level s1 (var q) then out else out @ [q])
           (if decisionLevel s1 \<le> level s1 (var q) then pc + 1 else pc)"
    and "\<forall>p. lit_ok (nVars s) p \<longrightarrow> is_seen s1 (var p) = (is_seen s (var p) \<or> var p = var q)"
proof -
  let ?b = "varBumpActivity T (var q) (var_inc s) s"
  have fb: "ana_frame s ?b" "seen ?b = seen s" by (rule varBump_frame)+
  show f: "ana_frame s s1" unfolding s1_def using fb(1) set_seen_frame(1) ana_frame_trans by blast
  note e = ana_frame_eqs [OF f]
  have tr: "trail s1 = trail s" "length (seen s1) = length (seen s)" using f by (auto simp: ana_frame_def)
  have tok: "trail_ok s" by (rule ana_ctxD(1) [OF c])
  have len: "length (seen s) = nVars s" "m \<le> length (trail s)" "out \<noteq> []" using i by (auto simp: ana_marks_def)
  have qt: "neg q \<in> set (trail s)" using q by (rule in_set_takeD)
  have qok: "lit_ok (nVars s) q" using trail_okD(4) [OF tok qt] by simp
  have sn: "is_seen s1 (var p) = (is_seen s (var p) \<or> var p = var q)" if "lit_ok (nVars s) p" for p
    using is_seen_set [of ?b q p True] that qok len(1) ana_frame_eqs(4) [OF fb(1)] fb(2)
    by (auto simp: s1_def is_seen_def)
  then show "\<forall>p. lit_ok (nVars s) p \<longrightarrow> is_seen s1 (var p) = (is_seen s (var p) \<or> var p = var q)" by blast
  obtain kq where kq: "kq < m" "kq < length (trail s)" "trail s ! kq = neg q" using q by (auto simp: in_set_conv_nth)
  have lv: "level s (var q) \<le> decisionLevel s" using levels_okD(3) [OF ana_ctxD(3) [OF c] qt] by simp
  have okk: "lit_ok (nVars s) (trail s ! k)" if "k < length (trail s)" for k using trail_okD(4) [OF tok] that by simp
  have mk: "marked s1 m = (if level s (var q) = decisionLevel s then insert kq (marked s m) else marked s m)"
  proof -
    have iff: "is_seen s1 (var (trail s ! k)) \<longleftrightarrow> is_seen s (var (trail s ! k)) \<or> k = kq" if "k < length (trail s)" for k
      using sn [OF okk [OF that]] same_pos [OF tok that kq(2)] kq(3) by auto
    have lk: "level s (var (trail s ! kq)) = level s (var q)" by (simp add: kq(3))
    have "k \<in> marked s1 m \<longleftrightarrow> k \<in> (if level s (var q) = decisionLevel s then insert kq (marked s m) else marked s m)" for k
    proof (cases "k = kq")
      case True
      then show ?thesis using kq(1,2) iff [OF kq(2)] lk n by (simp add: marked_def e tr)
    next
      case False
      then show ?thesis using iff [of k] by (auto simp: marked_def e tr)
    qed
    then show ?thesis by blast
  qed
  have new: "kq \<notin> marked s m" using n kq by (simp add: marked_def)
  have cnt: "int (card (marked s1 m)) = (if level s (var q) = decisionLevel s then pc + 1 else pc)"
    using i new by (simp add: mk ana_marks_def)
  have idx: "\<exists>p \<in> set (trail s). vix (var p) = j" if j: "j < length (seen s1)" "seen s1 ! j" for j
  proof (cases "j = vix (var q)")
    case True
    then show ?thesis using qt by (intro bexI [of _ "neg q"]) simp_all
  next
    case False
    then have "seen s ! j" using j by (simp add: s1_def set_seen_def fb(2))
    then show ?thesis using i j by (auto simp: ana_marks_def tr)
  qed
  have keep: "is_seen s1 (var r)" if "r \<in> set (tl out)" for r
    using i that sn [of r] trail_okD(4) [OF tok, of "neg r"] by (auto simp: ana_marks_def)
  show "ana_marks s1 m (if decisionLevel s1 \<le> level s1 (var q) then out else out @ [q])
           (if decisionLevel s1 \<le> level s1 (var q) then pc + 1 else pc)"
  proof (cases "level s (var q) = decisionLevel s")
    case True
    have "p \<in> set (take m (trail s))" if "p \<in> set (trail s)" "var p = var q" for p
      using same_var [OF tok that(1) qt] that(2) q by simp
    then show ?thesis
      using i True cnt keep sn idx len trail_okD(4) [OF tok]
      unfolding ana_marks_def e tr by (auto simp: True)
  next
    case False
    have "neg p = q" if "p \<in> set (trail s)" "var p = var q" for p
      using same_var [OF tok that(1) qt] that(2) by simp
    moreover have "tl (out @ [q]) = tl out @ [q]" using len(3) by simp
    moreover have "is_seen s1 (var q)" using sn [OF qok] by simp
    moreover have "q \<notin> set (tl out)" using i n(1) by (auto simp: ana_marks_def)
    ultimately show ?thesis
      using i False lv cnt keep sn idx len trail_okD(4) [OF tok] n qt
      unfolding ana_marks_def e tr by auto
  qed
qed


lemma mark_lits_spec:
  fixes T :: "'h theory_ops" and s :: "'h solver"
  assumes "ana_ctx A s" and "ana_marks s m out pc" and "\<forall>q \<in> set ls. neg q \<in> set (take m (trail s))"
  shows "\<exists>out' pc' s'. mark_lits T ls (out, pc, s) = (out', pc', s') \<and> ana_frame s s' \<and> ana_marks s' m out' pc' \<and>
     set (tl out) \<subseteq> set (tl out') \<and>
     (\<forall>p. lit_ok (nVars s) p \<longrightarrow> is_seen s' (var p) = (is_seen s (var p) \<or> (\<exists>q \<in> set ls. var p = var q \<and> 0 < level s (var q))))"
  using assms
proof (induction ls arbitrary: out pc s)
  case Nil
  then show ?case by (simp add: ana_frame_refl)
next
  case (Cons q ls)
  show ?case
  proof (cases "\<not> is_seen s (var q) \<and> 0 < level s (var q)")
    case True
    let ?s1 = "set_seen (var q) True (varBumpActivity T (var q) (var_inc s) s)"
    let ?o = "if decisionLevel ?s1 \<le> level ?s1 (var q) then out else out @ [q]"
    let ?c = "if decisionLevel ?s1 \<le> level ?s1 (var q) then pc + 1 else pc"
    have q: "neg q \<in> set (take m (trail s))" using Cons.prems(3) by simp
    note st = mark_step [OF Cons.prems(1,2) q True [THEN conjunct1] True [THEN conjunct2], of T]
    have f: "ana_frame s ?s1" and i: "ana_marks ?s1 m ?o ?c"
      and sn: "\<forall>p. lit_ok (nVars s) p \<longrightarrow> is_seen ?s1 (var p) = (is_seen s (var p) \<or> var p = var q)"
      by (rule st)+
    have tr: "trail ?s1 = trail s" using f by (simp add: ana_frame_def)
    have "\<forall>q \<in> set ls. neg q \<in> set (take m (trail ?s1))" using Cons.prems(3) by (simp add: tr)
    from Cons.IH [OF ana_ctx_frame [OF f Cons.prems(1)] i this] obtain out' pc' s' where r:
      "mark_lits T ls (?o, ?c, ?s1) = (out', pc', s')" "ana_frame ?s1 s'" "ana_marks s' m out' pc'" "set (tl ?o) \<subseteq> set (tl out')"
      "\<forall>p. lit_ok (nVars s) p \<longrightarrow> is_seen s' (var p) = (is_seen ?s1 (var p) \<or> (\<exists>q \<in> set ls. var p = var q \<and> 0 < level s (var q)))"
      unfolding ana_frame_eqs [OF f] by blast
    have "mark_lits T (q # ls) (out, pc, s) = (out', pc', s')"
      using True r(1) by (simp add: Let_def split: if_splits)
    moreover have "set (tl out) \<subseteq> set (tl ?o)" by (cases out) auto
    moreover have "is_seen s' (var p) = (is_seen s (var p) \<or> (\<exists>r \<in> set (q # ls). var p = var r \<and> 0 < level s (var r)))"
      if "lit_ok (nVars s) p" for p using r(5) sn that True by auto
    ultimately show ?thesis using ana_frame_trans [OF f r(2)] r(3,4)
      by (intro exI [of _ out'] exI [of _ pc'] exI [of _ s'] conjI) (blast+)?
  next
    case False
    then have "mark_lits T (q # ls) (out, pc, s) = mark_lits T ls (out, pc, s)" by auto
    moreover have "is_seen s (var p) \<or> (\<exists>r \<in> set (q # ls). var p = var r \<and> 0 < level s (var r)) \<longleftrightarrow>
        is_seen s (var p) \<or> (\<exists>r \<in> set ls. var p = var r \<and> 0 < level s (var r))" for p using False by auto
    ultimately show ?thesis using Cons.IH [OF Cons.prems(1,2)] Cons.prems(3) by simp
  qed
qed

lemma next_marked_spec:
  assumes "k0 \<in> marked s m" and "m \<le> length (trail s)" and "stop \<le> k0" and "levels_ok A s"
  shows "\<exists>k \<in> marked s m. stop \<le> k \<and> next_marked s (int stop) (int m - 1) = int k - 1 \<and> (\<forall>j \<in> marked s m. j \<le> k)"
  using assms
proof (induction m)
  case 0
  then show ?case by (simp add: marked_def)
next
  case (Suc m)
  have le: "stop \<le> m" using Suc.prems(1,3) by (simp add: marked_def)
  have idx: "int (Suc m) - 1 = int m" by simp
  have m: "m < length (trail s)" using Suc.prems(2) by simp
  have lev: "level s (var (trail s ! m)) \<le> decisionLevel s" using levels_okD(3) [OF Suc.prems(4)] m by simp
  show ?case
  proof (cases "m \<in> marked s (Suc m)")
    case True
    then have "next_marked s (int stop) (int m) = int m - 1"
      using le by (subst next_marked.simps) (simp add: marked_def Let_def)
    then show ?thesis unfolding idx using True le by (intro bexI [of _ m]) (auto simp: marked_def)
  next
    case False
    then have n: "\<not> is_seen s (var (trail s ! m)) \<or> level s (var (trail s ! m)) < decisionLevel s"
      using m lev by (auto simp: marked_def)
    then have eq: "next_marked s (int stop) (int m) = next_marked s (int stop) (int m - 1)"
      using le by (subst next_marked.simps) (simp add: Let_def)
    have mk: "marked s (Suc m) = marked s m" using n m False by (auto simp: marked_def less_Suc_eq)
    have "k0 \<in> marked s m" "m \<le> length (trail s)" using Suc.prems(1,2) mk by auto
    from Suc.IH [OF this Suc.prems(3,4)] show ?thesis unfolding idx eq mk .
  qed
qed

text \<open>All positions of the current level are at or above its first one.\<close>

lemma marked_above:
  assumes "levels_ok A s" and "0 < decisionLevel s" and "k \<in> marked s m"
  shows "last (trail_lim s) \<le> k"
proof (rule ccontr)
  assume "\<not> last (trail_lim s) \<le> k"
  moreover have l: "last (trail_lim s) = trail_lim s ! (decisionLevel s - 1)"
    using assms(2) by (simp add: decisionLevel_def last_conv_nth)
  ultimately have "trail s ! k \<in> set (take (trail_lim s ! (decisionLevel s - 1)) (trail s))"
    using assms(3) by (auto simp: marked_def in_set_conv_nth)
  then have "level s (var (trail s ! k)) \<le> decisionLevel s - 1"
    using levels_okD(4) [OF assms(1), of "decisionLevel s - 1"] assms(2) by simp
  then show False using assms(2,3) by (simp add: marked_def)
qed

text \<open>Taking the topmost marked literal off.\<close>

lemma unmark_step:
  assumes c: "ana_ctx A s" and i: "ana_marks s m out pc" and k: "k \<in> marked s m" and top_k: "\<forall>j \<in> marked s m. j \<le> k"
  defines "s1 \<equiv> set_seen (var (trail s ! k)) False s"
  shows "ana_frame s s1" and "ana_marks s1 k out (pc - 1)" and "marked s1 k = marked s m - {k}"
    and "\<forall>q \<in> set (tl out). is_seen s1 (var q)"
proof -
  let ?p = "trail s ! k"
  show f: "ana_frame s s1" unfolding s1_def by (rule set_seen_frame)
  note e = ana_frame_eqs [OF f]
  have tr: "trail s1 = trail s" "length (seen s1) = length (seen s)" using f by (auto simp: ana_frame_def)
  have tok: "trail_ok s" by (rule ana_ctxD(1) [OF c])
  have kl: "k < m" "k < length (trail s)" "is_seen s (var ?p)" "level s (var ?p) = decisionLevel s"
    using k by (auto simp: marked_def)
  have pt: "?p \<in> set (trail s)" using kl(2) by simp
  have len: "length (seen s) = nVars s" using i by (simp add: ana_marks_def)
  have sn: "is_seen s1 (var p) = (var p \<noteq> var ?p \<and> is_seen s (var p))" if "lit_ok (nVars s) p" for p
    using is_seen_set [OF trail_okD(4) [OF tok pt] that len, of False] by (simp add: s1_def)
  have okk: "lit_ok (nVars s) p" if "p \<in> set (trail s)" for p using trail_okD(4) [OF tok that] .
  show mk: "marked s1 k = marked s m - {k}"
  proof -
    have "j \<in> marked s1 k \<longleftrightarrow> j \<in> marked s m - {k}" for j
    proof (cases "j < length (trail s)")
      case True
      have "is_seen s1 (var (trail s ! j)) \<longleftrightarrow> j \<noteq> k \<and> is_seen s (var (trail s ! j))"
        using sn [OF okk, of "trail s ! j"] same_pos [OF tok True kl(2)] True by auto
      then show ?thesis using top_k kl(1) by (force simp: marked_def e tr)
    qed (simp add: marked_def tr)
    then show ?thesis by blast
  qed
  have cnt: "pc - 1 = int (card (marked s1 k))"
    using i k by (simp add: mk ana_marks_def card_Diff_singleton) (metis card_gt_0_iff empty_iff finite_marked of_nat_1 of_nat_diff Suc_leI One_nat_def)
  show keep: "\<forall>q \<in> set (tl out). is_seen s1 (var q)"
  proof
    fix q assume q: "q \<in> set (tl out)"
    then have "neg q \<in> set (trail s)" "is_seen s (var q)" "level s (var q) < decisionLevel s" using i by (auto simp: ana_marks_def)
    then show "is_seen s1 (var q)" using sn [OF okk, of "neg q"] kl(4) by auto
  qed
  show "ana_marks s1 k out (pc - 1)"
    unfolding ana_marks_def e tr
  proof (intro conjI ballI allI impI)
    show "k \<le> length (trail s)" using kl(2) by simp
    show "pc - 1 = int (card (marked s1 k))" by (rule cnt)
    show "out \<noteq> []" "length (seen s) = nVars s" "distinct (tl out)" using i by (auto simp: ana_marks_def)
    show "level s (var p) = decisionLevel s \<and> p \<in> set (take k (trail s)) \<or> neg p \<in> set (tl out)"
      if p: "p \<in> set (trail s)" "is_seen s1 (var p)" for p
    proof -
      have a: "is_seen s (var p)" "var p \<noteq> var ?p" using sn [OF okk [OF p(1)]] p(2) by auto
      from i p(1) a(1) consider "level s (var p) = decisionLevel s" "p \<in> set (take m (trail s))" | "neg p \<in> set (tl out)"
        unfolding ana_marks_def by blast
      then show ?thesis
      proof cases
        case 1
        then obtain j where j: "j < m" "j < length (trail s)" "trail s ! j = p" by (auto simp: in_set_conv_nth)
        then have "j \<in> marked s m" using 1 a(1) by (simp add: marked_def)
        then have "j \<le> k" using top_k by blast
        moreover have "j \<noteq> k" using a(2) j(3) by auto
        ultimately show ?thesis using 1 j by (auto simp: in_set_conv_nth intro: exI [of _ j])
      qed simp
    qed
    show "\<exists>p \<in> set (trail s). vix (var p) = j" if "j < length (seen s)" "seen s1 ! j" for j
    proof -
      have "seen s ! j" using that by (cases "j = vix (var ?p)") (auto simp: s1_def set_seen_def)
      then show ?thesis using i that(1) by (simp add: ana_marks_def)
    qed
    show "neg q \<in> set (trail s)" "is_seen s1 (var q)" "0 < level s (var q)" "level s (var q) < decisionLevel s"
      if "q \<in> set (tl out)" for q
      using keep i that by (auto simp: ana_marks_def)
  qed
qed


definition derives :: "CRef set \<Rightarrow> 'h solver \<Rightarrow> nat \<Rightarrow> Lit list \<Rightarrow> Lit set \<Rightarrow> bool" where
  "derives A s m out E \<longleftrightarrow>
     (\<forall>M. root_model A s M \<longrightarrow>
        (\<exists>q \<in> set (tl out). M q) \<or> (\<exists>k \<in> marked s m. M (neg (trail s ! k))) \<or> (\<exists>q \<in> E. M q))"

lemma marked_mono:
  assumes "ana_frame s s'" and "\<And>k. k < length (trail s) \<Longrightarrow> is_seen s (var (trail s ! k)) \<Longrightarrow> is_seen s' (var (trail s ! k))"
  shows "marked s m \<subseteq> marked s' m"
  using assms ana_frame_eqs [OF assms(1)] by (auto simp: marked_def ana_frame_def)

definition resolvent :: "ana \<Rightarrow> 'h solver \<Rightarrow> Lit list" where
  "resolvent a s = (if an_p a = lit_Undef then clits s (an_confl a) else drop 1 (clits s (an_confl a)))"

lemma resolve_step_spec:
  fixes T :: "'h theory_ops" and s :: "'h solver"
  assumes c: "ana_ctx A s" and i: "ana_marks s m (an_out a) (an_pathC a)" and cr: "an_confl a \<in> A"
    and ls: "\<forall>q \<in> set (resolvent a s). neg q \<in> set (take m (trail s))"
    and D: "derives A s m (an_out a) (set (resolvent a s))"
  shows "\<exists>out' pc' s'. resolve_step T a s = (a\<lparr>an_out := out', an_pathC := pc'\<rparr>, s') \<and> ana_frame s s' \<and>
     ana_marks s' m out' pc' \<and> derives A s' m out' {} \<and> marked s m \<subseteq> marked s' m \<and>
     ((\<exists>q \<in> set (resolvent a s). level s (var q) = decisionLevel s) \<longrightarrow> marked s' m \<noteq> {})"
proof -
  let ?cr = "an_confl a"
  have nu: "?cr \<noteq> CRef_Undef" using cr ana_ctxD(8) [OF c] by metis
  define s1 where "s1 = (if learnt (clause_at s ?cr) then claBumpActivity ?cr s else s)"
  have f1: "ana_frame s s1" and sn1: "seen s1 = seen s" by (simp_all add: s1_def claBump_frame ana_frame_refl)
  note e1 = ana_frame_eqs [OF f1]
  have tr1: "trail s1 = trail s" using f1 by (simp add: ana_frame_def)
  have is1: "is_seen s1 = is_seen s" by (simp add: is_seen_def sn1 fun_eq_iff)
  have mk1: "marked s1 = marked s" by (simp add: fun_eq_iff marked_def tr1 is1 e1)
  have c1: "ana_ctx A s1" by (rule ana_ctx_frame [OF f1 c])
  have i1: "ana_marks s1 m (an_out a) (an_pathC a)"
    using i by (simp add: ana_marks_def mk1 tr1 is1 e1 sn1)
  have r1: "resolvent a s1 = resolvent a s" by (simp add: resolvent_def ana_frame_clause(2) [OF f1])
  have "\<forall>q \<in> set (resolvent a s). neg q \<in> set (take m (trail s1))" using ls by (simp add: tr1)
  from mark_lits_spec [OF c1 i1 this, of T] obtain out' pc' s' where r:
    "mark_lits T (resolvent a s) (an_out a, an_pathC a, s1) = (out', pc', s')" "ana_frame s1 s'" "ana_marks s' m out' pc'"
    "set (tl (an_out a)) \<subseteq> set (tl out')"
    "\<forall>p. lit_ok (nVars s) p \<longrightarrow>
       is_seen s' (var p) = (is_seen s (var p) \<or> (\<exists>q \<in> set (resolvent a s). var p = var q \<and> 0 < level s (var q)))"
    unfolding e1 is1 by blast
  have f: "ana_frame s s'" by (rule ana_frame_trans [OF f1 r(2)])
  note e = ana_frame_eqs [OF f]
  have tr: "trail s' = trail s" using f by (simp add: ana_frame_def)
  have tok: "trail_ok s" by (rule ana_ctxD(1) [OF c])
  have okt: "lit_ok (nVars s) p" if "p \<in> set (trail s)" for p by (rule trail_okD(4) [OF tok that])
  have eq: "resolve_step T a s = (a\<lparr>an_out := out', an_pathC := pc'\<rparr>, s')"
    using nu r(1) r1 by (simp add: resolve_step_def Let_def s1_def [symmetric] resolvent_def clits_def split: if_splits)
  have mono: "marked s m \<subseteq> marked s' m"
    by (rule marked_mono [OF f]) (use r(5) okt in \<open>simp add: is_seen_def\<close>)
  have at: "neg q \<in> set (trail s)" "lit_ok (nVars s) q" if "q \<in> set (resolvent a s)" for q
    using ls that okt [of "neg q"] by (auto dest: in_set_takeD)
  have hit: "level s (var q) = 0 \<or> (\<exists>k \<in> marked s' m. trail s ! k = neg q) \<or> q \<in> set (tl out')"
    if q: "q \<in> set (resolvent a s)" for q
  proof (cases "level s (var q) = 0")
    case False
    then have sq: "is_seen s' (var (neg q))" using r(5) at(2) [OF q] q by auto
    have "(level s' (var (neg q)) = decisionLevel s' \<and> neg q \<in> set (take m (trail s'))) \<or> neg (neg q) \<in> set (tl out')"
      using r(3) sq at(1) [OF q] unfolding ana_marks_def tr by blast
    then show ?thesis
    proof
      assume l: "level s' (var (neg q)) = decisionLevel s' \<and> neg q \<in> set (take m (trail s'))"
      then obtain k where "k < m" "k < length (trail s)" "trail s ! k = neg q" by (auto simp: tr in_set_conv_nth)
      then have "k \<in> marked s' m" using l sq by (simp add: marked_def tr)
      then show ?thesis using \<open>trail s ! k = neg q\<close> by blast
    qed simp
  qed simp
  have "derives A s' m out' {}"
    unfolding derives_def
  proof (intro allI impI)
    fix M assume "root_model A s' M"
    then have M: "root_model A s M" by (simp add: root_model_frame [OF f])
    from D M consider q where "q \<in> set (tl (an_out a))" "M q" | k where "k \<in> marked s m" "M (neg (trail s ! k))"
      | q where "q \<in> set (resolvent a s)" "M q" unfolding derives_def by blast
    then show "(\<exists>q \<in> set (tl out'). M q) \<or> (\<exists>k \<in> marked s' m. M (neg (trail s' ! k))) \<or> (\<exists>q \<in> {}. M q)"
    proof cases
      case 1
      then show ?thesis using r(4) by blast
    next
      case 2
      then show ?thesis using mono by (auto simp: tr)
    next
      case 3
      have "level s (var q) \<noteq> 0"
      proof
        assume "level s (var q) = 0"
        then have "M (neg q)" using M at(1) [OF 3(1)] by (simp add: root_model_def)
        then show False using M 3(2) by (simp add: root_model_def lit_model_def)
      qed
      then show ?thesis using hit [OF 3(1)] 3(2) unfolding tr by (metis neg_neg)
    qed
  qed
  moreover have "marked s' m \<noteq> {}" if q: "q \<in> set (resolvent a s)" "level s (var q) = decisionLevel s" for q
  proof -
    have "0 < decisionLevel s" using c by (simp add: ana_ctx_def)
    moreover have "q \<notin> set (tl out')" using r(3) q(2) by (auto simp: ana_marks_def e)
    ultimately show ?thesis using hit [OF q(1)] q(2) by auto
  qed
  ultimately show ?thesis using eq f r(3) mono by (intro exI [of _ out'] exI [of _ pc'] exI [of _ s']) blast
qed


lemma select_next_spec:
  assumes c: "ana_ctx A s" and i: "ana_marks s m (an_out a) (an_pathC a)" and ne: "marked s m \<noteq> {}"
    and idx: "an_index a = int m - 1"
  shows "\<exists>k \<in> marked s m. (\<forall>j \<in> marked s m. j \<le> k) \<and>
     select_next T (int (last (trail_lim s))) a s =
       Some (a\<lparr>an_p := trail s ! k, an_confl := reason s (var (trail s ! k)), an_index := int k - 1\<rparr>, s)"
proof -
  have lo: "levels_ok A s" and nt: "no_theory_reasons s" and dl: "0 < decisionLevel s" using c by (auto simp: ana_ctx_def)
  obtain k0 where k0: "k0 \<in> marked s m" using ne by blast
  have ml: "m \<le> length (trail s)" using i by (simp add: ana_marks_def)
  from next_marked_spec [OF k0 ml marked_above [OF lo dl k0] lo] obtain k where
    k: "k \<in> marked s m" "next_marked s (int (last (trail_lim s))) (int m - 1) = int k - 1" "\<forall>j \<in> marked s m. j \<le> k" by blast
  have p: "level s (var (trail s ! k)) = decisionLevel s" "trail s ! k \<in> set (trail s)" using k(1) by (auto simp: marked_def)
  then have "\<not> isTheoryCause s (reason s (var (trail s ! k)))" using nt by (simp add: no_theory_reasons_def)
  then have "select_next T (int (last (trail_lim s))) a s =
      Some (a\<lparr>an_p := trail s ! k, an_confl := reason s (var (trail s ! k)), an_index := int k - 1\<rparr>, s)"
    using p(1) k(2) idx by (subst select_next.simps) (simp add: Let_def)
  then show ?thesis using k(1,3) by blast
qed

lemma uip_loop_spec:
  fixes T :: "'h theory_ops"
  assumes "ana_ctx A s" and "ana_marks s m (an_out a) (an_pathC a)" and "an_confl a \<in> A" and "an_index a = int m - 1"
    and "\<not> an_missed a" and "\<forall>q \<in> set (resolvent a s). neg q \<in> set (take m (trail s))"
    and "derives A s m (an_out a) (set (resolvent a s))"
    and "marked s m \<noteq> {} \<or> (\<exists>q \<in> set (resolvent a s). level s (var q) = decisionLevel s)"
  shows "\<exists>a' s' k. uip_loop T (int (last (trail_lim s))) a s = Some (a', s') \<and> ana_frame s s' \<and> \<not> an_missed a' \<and>
     k < length (trail s) \<and> an_p a' = trail s ! k \<and> level s (var (trail s ! k)) = decisionLevel s \<and>
     ana_marks s' k (an_out a') 0 \<and> marked s' k = {} \<and> derives A s' k (an_out a') {neg (trail s ! k)}"
  using assms
proof (induction m arbitrary: a s rule: less_induct)
  case (less m)
  let ?stop = "int (last (trail_lim s))"
  from resolve_step_spec [OF less.prems(1-3,6,7), of T] obtain out1 pc1 s1 where r:
    "resolve_step T a s = (a\<lparr>an_out := out1, an_pathC := pc1\<rparr>, s1)" "ana_frame s s1" "ana_marks s1 m out1 pc1"
    "derives A s1 m out1 {}" "marked s1 m \<noteq> {}" using less.prems(8) by blast
  define a1 where "a1 = a\<lparr>an_out := out1, an_pathC := pc1\<rparr>"
  note e1 = ana_frame_eqs [OF r(2)]
  have tr1: "trail s1 = trail s" "trail_lim s1 = trail_lim s" using r(2) by (auto simp: ana_frame_def)
  have c1: "ana_ctx A s1" by (rule ana_ctx_frame [OF r(2) less.prems(1)])
  have i1: "ana_marks s1 m (an_out a1) (an_pathC a1)" using r(3) by (simp add: a1_def)
  have "an_index a1 = int m - 1" using less.prems(4) by (simp add: a1_def)
  from select_next_spec [OF c1 i1 r(5) this, of T] obtain k where k: "k \<in> marked s1 m" "\<forall>j \<in> marked s1 m. j \<le> k"
    "select_next T ?stop a1 s1 =
       Some (a1\<lparr>an_p := trail s ! k, an_confl := reason s (var (trail s ! k)), an_index := int k - 1\<rparr>, s1)"
    unfolding tr1 e1 by blast
  let ?p = "trail s ! k"
  define s2 where "s2 = set_seen (var ?p) False s1"
  note u = unmark_step [OF c1 i1 k(1,2), unfolded tr1, folded s2_def]
  have f2: "ana_frame s s2" by (rule ana_frame_trans [OF r(2) u(1)])
  note e2 = ana_frame_eqs [OF f2]
  have tr2: "trail s2 = trail s" "trail_lim s2 = trail_lim s" using f2 by (auto simp: ana_frame_def)
  have kl: "k < m" "k < length (trail s)" "level s (var ?p) = decisionLevel s" using k(1) by (auto simp: marked_def tr1 e1)
  have D2: "derives A s2 k out1 {neg ?p}"
    unfolding derives_def
  proof (intro allI impI)
    fix M assume "root_model A s2 M"
    then have "root_model A s1 M" using root_model_frame [OF u(1)] by simp
    then consider q where "q \<in> set (tl out1)" "M q" | j where "j \<in> marked s1 m" "M (neg (trail s ! j))"
      using r(4) unfolding derives_def tr1 by blast
    then show "(\<exists>q \<in> set (tl out1). M q) \<or> (\<exists>k \<in> marked s2 k. M (neg (trail s2 ! k))) \<or> (\<exists>q \<in> {neg ?p}. M q)"
    proof cases
      case 2
      then show ?thesis using u(3) by (cases "j = k") (auto simp: tr2)
    qed blast
  qed
  define a2 where "a2 = a1\<lparr>an_p := ?p, an_confl := reason s (var ?p), an_index := int k - 1, an_pathC := pc1 - 1\<rparr>"
  have step: "uip_loop T ?stop a s = (if 0 < an_pathC a2 then uip_loop T ?stop a2 s2 else Some (a2, s2))"
  proof -
    have "uip_loop T ?stop a s = Option.bind (select_next T ?stop a1 s1) (\<lambda>n. let a1 = fst n;
        s1 = set_seen (var (an_p a1)) False (snd n); a2 = a1\<lparr>an_pathC := an_pathC a1 - 1\<rparr>
      in if 0 < an_pathC a2 then uip_loop T ?stop a2 s1 else Some (a2, s1))"
      by (subst uip_loop.simps) (simp add: r(1) a1_def Let_def)
    then show ?thesis unfolding k(3) by (simp add: Let_def a2_def a1_def s2_def)
  qed
  have i2: "ana_marks s2 k (an_out a2) (an_pathC a2)" using u(2) by (simp add: a2_def a1_def)
  have c2: "ana_ctx A s2" by (rule ana_ctx_frame [OF f2 less.prems(1)])
  have m2: "\<not> an_missed a2" "an_p a2 = ?p" "an_out a2 = out1" "an_confl a2 = reason s (var ?p)" "an_index a2 = int k - 1"
    using less.prems(5) by (simp_all add: a2_def a1_def)
  have cnt: "an_pathC a2 = int (card (marked s2 k))" using i2 by (simp add: ana_marks_def)
  have pt: "?p \<in> set (trail s)" using kl(2) by simp
  have tok: "trail_ok s" by (rule ana_ctxD(1) [OF less.prems(1)])
  show ?case
  proof (cases "0 < an_pathC a2")
    case False
    then have "marked s2 k = {}" "an_pathC a2 = 0" using cnt by (auto simp: card_eq_0_iff)
    moreover have "uip_loop T ?stop a s = Some (a2, s2)" using step False by simp
    ultimately show ?thesis using f2 m2 kl i2 D2 by (intro exI [of _ a2] exI [of _ s2] exI [of _ k]) simp
  next
    case True
    then have ne: "marked s2 k \<noteq> {}" using cnt by auto
    have rA: "reason s (var ?p) \<in> A"
    proof (rule ccontr)
      assume "reason s (var ?p) \<notin> A"
      then have ru: "reason s (var ?p) = CRef_Undef" using ana_ctxD(5) [OF less.prems(1) pt] by simp
      have dl: "0 < decisionLevel s" and lo: "levels_ok A s" using less.prems(1) by (auto simp: ana_ctx_def)
      have "k = last (trail_lim s)"
        using levels_okD(6) [OF lo kl(2)] kl(3) ru dl by (simp add: decisionLevel_def last_conv_nth)
      moreover obtain j where "j \<in> marked s2 k" using ne by blast
      moreover have "last (trail_lim s) \<le> j"
        using marked_above [OF _ _ \<open>j \<in> marked s2 k\<close>, of A] c2 by (simp add: ana_ctx_def tr2)
      ultimately show False by (simp add: marked_def)
    qed
    have "?p \<noteq> lit_Undef" using trail_okD(4) [OF tok pt] by (auto simp: lit_ok_def lit_Undef_def)
    then have rs: "resolvent a2 s2 = drop 1 (clits s (reason s (var ?p)))"
      using m2 ana_frame_clause(2) [OF f2] by (simp add: resolvent_def)
    note rc = ana_ctxD(6) [OF less.prems(1) rA]
    have hd: "clits s (reason s (var ?p)) ! 0 = ?p"
      "\<forall>l \<in> set (clits s (reason s (var ?p))). l \<noteq> ?p \<longrightarrow> neg l \<in> set (take k (trail s))"
      using ana_ctxD(2) [OF less.prems(1)] kl(2) rA by (auto simp: reasons_ok_def)
    obtain cs where cs: "clits s (reason s (var ?p)) = ?p # cs" using rc hd(1) by (cases "clits s (reason s (var ?p))") auto
    have ls: "\<forall>q \<in> set (resolvent a2 s2). neg q \<in> set (take k (trail s2))"
      using rs cs rc hd(2) by (auto simp: tr2)
    have "derives A s2 k (an_out a2) (set (resolvent a2 s2))"
      unfolding derives_def
    proof (intro allI impI)
      fix M assume M: "root_model A s2 M"
      have "\<exists>l \<in> set (clits s2 (reason s (var ?p))). M l" using M rA unfolding root_model_def by blast
      then have "\<exists>l \<in> set (?p # cs). M l" unfolding ana_frame_clause(2) [OF f2] cs .
      moreover have "M (neg ?p) \<Longrightarrow> \<not> M ?p" using M by (simp add: root_model_def lit_model_def)
      ultimately show "(\<exists>q \<in> set (tl (an_out a2)). M q) \<or> (\<exists>k \<in> marked s2 k. M (neg (trail s2 ! k))) \<or>
          (\<exists>q \<in> set (resolvent a2 s2). M q)"
        using D2 M unfolding derives_def m2 rs cs by auto
    qed
    moreover have "an_confl a2 \<in> A" using m2 rA by simp
    ultimately obtain a' s' j where r': "uip_loop T (int (last (trail_lim s2))) a2 s2 = Some (a', s')" "ana_frame s2 s'"
      "\<not> an_missed a'" "j < length (trail s2)" "an_p a' = trail s2 ! j" "level s2 (var (trail s2 ! j)) = decisionLevel s2"
      "ana_marks s' j (an_out a') 0" "marked s' j = {}" "derives A s' j (an_out a') {neg (trail s2 ! j)}"
      using less.IH [OF kl(1) c2 i2 _ m2(5,1) ls] ne by blast
    have "uip_loop T ?stop a s = Some (a', s')" using step True r'(1) by (simp add: tr2)
    then show ?thesis
      using ana_frame_trans [OF f2 r'(2)] r'(3-) unfolding tr2 e2 by blast
  qed
qed


section \<open>The learnt clause before minimisation\<close>

lemma max_level_spec:
  "m \<le> max_level s ls m \<and> (\<forall>q \<in> set ls. level s (var q) \<le> max_level s ls m) \<and>
   (max_level s ls m = m \<or> (\<exists>q \<in> set ls. level s (var q) = max_level s ls m))"
proof (induction ls arbitrary: m)
  case (Cons q ls)
  let ?m = "if m < level s (var q) then level s (var q) else m"
  have "m \<le> ?m" "level s (var q) \<le> ?m" by simp_all
  then show ?case using Cons.IH [of ?m] by (auto intro: le_trans)
qed simp

text \<open>A conflict: an attached clause that is false above the root, in a state with clear marks.\<close>

definition conflict_state :: "CRef set \<Rightarrow> CRef \<Rightarrow> 'h solver \<Rightarrow> bool" where
  "conflict_state A confl s \<longleftrightarrow>
     solver_inv A s \<and> levels_ok A s \<and> prefix_done A s \<and> no_theory_reasons s \<and> seen s = replicate (nVars s) False \<and>
     confl \<in> A \<and> (\<forall>l \<in> set (clits s confl). isF s l) \<and> (\<exists>l \<in> set (clits s confl). 0 < level s (var l))"

lemma back_to_conflict:
  fixes T :: "'h theory_ops" and s :: "'h solver"
  assumes c: "conflict_state A confl s" and calm: "calm T s"
  defines "s1 \<equiv> cancelUntil T (max_level s (clits s confl) 0) s"
  shows "conflict_state A confl s1" and "decisionLevel s1 = max_level s (clits s confl) 0" and "clits s1 = clits s"
    and "level s1 = level s" and "reason s1 = reason s" and "trail s1 = filter (\<lambda>p. level s (var p) \<le> decisionLevel s1) (trail s)"
    and "cancel_frame s s1" and "root_model A s1 = root_model A s"
    and "\<exists>l \<in> set (clits s1 confl). level s1 (var l) = decisionLevel s1" and "0 < decisionLevel s1"
proof -
  let ?m = "max_level s (clits s confl) 0"
  have inv: "solver_inv A s" and lo: "levels_ok A s" and pd: "prefix_done A s" and cA: "confl \<in> A"
    and F: "\<forall>l \<in> set (clits s confl). isF s l" using c by (auto simp: conflict_state_def)
  note mx = max_level_spec [of 0 s "clits s confl"]
  have pos: "0 < ?m" using c mx by (auto simp: conflict_state_def)
  have bi: "bcp_inv A s (wlist (watches_cleanAll s))" using inv by (simp add: solver_inv_def)
  have tok: "trail_ok s" and ok: "\<forall>l \<in> set (clits s confl). lit_ok (nVars s) l"
    using bi cA winvD(1) [of "nVars s" A "clits s"] by (auto simp: bcp_inv_def clauses_ok_def)
  have nt: "neg l \<in> set (trail s)" if "l \<in> set (clits s confl)" for l using trail_okD(2) [OF tok] F ok that by blast
  have le: "?m \<le> decisionLevel s" using mx pos levels_okD(3) [OF lo] nt by (metis less_irrefl var_neg)
  have "solver_inv A s1 \<and> levels_ok A s1 \<and> prefix_done A s1 \<and> decisionLevel s1 = ?m \<and> cancel_frame s s1 \<and>
      trail s1 = filter (\<lambda>p. level s (var p) \<le> ?m) (trail s)"
  proof (cases "?m < decisionLevel s")
    case True
    note cu = cancelUntil_spec [OF inv lo pd True calm, folded s1_def]
    have "decisionLevel s1 = ?m" using cu(6) True by (simp add: decisionLevel_def)
    then show ?thesis using cu by blast
  next
    case False
    then have m: "?m = decisionLevel s" using le by simp
    then have e: "s1 = s" by (simp add: s1_def cancelUntil_def)
    have "filter (\<lambda>p. level s (var p) \<le> ?m) (trail s) = trail s" unfolding m using levels_okD(3) [OF lo] by (intro filter_True) blast
    then show ?thesis using inv lo pd m by (simp add: e cancel_frame_refl)
  qed
  then have i1: "solver_inv A s1" and lo1: "levels_ok A s1" and pd1: "prefix_done A s1" and dl: "decisionLevel s1 = ?m"
    and f: "cancel_frame s s1" and tr: "trail s1 = filter (\<lambda>p. level s (var p) \<le> ?m) (trail s)" by blast+
  have g: "vardata s1 = vardata s" "ca s1 = ca s" "seen s1 = seen s" using f by (auto simp: cancel_frame_def)
  have e: "clits s1 = clits s" "level s1 = level s" "reason s1 = reason s" "nVars s1 = nVars s" using g state_eqs by blast+
  show "decisionLevel s1 = ?m" "clits s1 = clits s" "level s1 = level s" "reason s1 = reason s" "cancel_frame s s1"
    by (rule dl e f)+
  show "trail s1 = filter (\<lambda>p. level s (var p) \<le> decisionLevel s1) (trail s)" using tr dl by simp
  have tok1: "trail_ok s1" using i1 by (auto simp: solver_inv_def bcp_inv_def)
  have F1: "isF s1 l" if "l \<in> set (clits s confl)" for l
  proof -
    have "neg l \<in> set (trail s1)" using nt [OF that] mx that by (simp add: tr)
    then show ?thesis using trail_okD(2) [OF tok1, of l] ok that e(4) by simp
  qed
  show "conflict_state A confl s1"
    using i1 lo1 pd1 cA F1 c tr by (auto simp: conflict_state_def e g no_theory_reasons_def isTheoryCause_def)
  show "0 < decisionLevel s1" using pos dl by simp
  show "\<exists>l \<in> set (clits s1 confl). level s1 (var l) = decisionLevel s1" using mx pos by (auto simp: dl e)
  show "root_model A s1 = root_model A s" by (auto simp: root_model_def e tr fun_eq_iff)
qed

definition learnt_ok :: "CRef set \<Rightarrow> 'h solver \<Rightarrow> Lit list \<Rightarrow> bool" where
  "learnt_ok A s out \<longleftrightarrow>
     out \<noteq> [] \<and> distinct (tl out) \<and> (\<forall>M. root_model A s M \<longrightarrow> (\<exists>q \<in> set out. M q)) \<and>
     neg (hd out) \<in> set (trail s) \<and> level s (var (hd out)) = decisionLevel s \<and>
     (\<forall>q \<in> set (tl out). neg q \<in> set (trail s) \<and> 0 < level s (var q) \<and> level s (var q) < decisionLevel s)"

lemma analyze_uip_spec:
  fixes T :: "'h theory_ops" and s :: "'h solver"
  assumes c: "conflict_state A confl s" and calm: "calm T s"
  shows "\<exists>out s'. analyze_uip T confl s = Some (out, s') \<and>
     ana_frame (cancelUntil T (max_level s (clits s confl) 0) s) s' \<and> ana_ctx A s' \<and> learnt_ok A s' out \<and>
     length (seen s') = nVars s' \<and> (\<forall>q \<in> set (tl out). is_seen s' (var q)) \<and>
     (\<forall>i < length (seen s'). seen s' ! i \<longrightarrow> (\<exists>q \<in> set (tl out). vix (var q) = i))"
proof -
  define s1 where "s1 = cancelUntil T (max_level s (clits s confl) 0) s"
  note b = back_to_conflict [OF c calm, folded s1_def]
  let ?s2 = "s1\<lparr>to_analyze := []\<rparr>"
  have f2: "ana_frame s1 ?s2" by (simp add: ana_frame_refl)
  note e2 = ana_frame_eqs [OF f2]
  have ctx1: "ana_ctx A s1" using b(1,10) by (simp add: ana_ctx_def conflict_state_def)
  have ctx: "ana_ctx A ?s2" by (rule ana_ctx_frame [OF f2 ctx1])
  let ?a = "\<lparr>an_p = lit_Undef, an_confl = confl, an_index = int (length (trail ?s2)) - 1, an_pathC = 0,
               an_out = [lit_Undef], an_missed = False\<rparr>"
  let ?m = "length (trail ?s2)"
  have sn: "seen s1 = replicate (nVars s1) False" and cA: "confl \<in> A" using b(1) by (auto simp: conflict_state_def)
  have ns: "\<not> is_seen ?s2 (var p)" if "p \<in> set (trail s1)" for p
    using lit_ok_vix [OF trail_okD(4) [OF ana_ctxD(1) [OF ctx1] that]] sn by (simp add: is_seen_def)
  have mk: "marked ?s2 ?m = {}" using ns by (auto simp: marked_def)
  have i: "ana_marks ?s2 ?m (an_out ?a) (an_pathC ?a)"
    using ns mk sn by (simp add: ana_marks_def e2)
  have rs: "resolvent ?a ?s2 = clits s1 confl" using ana_frame_clause(2) [OF f2] by (simp add: resolvent_def)
  have ls: "\<forall>q \<in> set (resolvent ?a ?s2). neg q \<in> set (take ?m (trail ?s2))"
  proof
    fix q assume "q \<in> set (resolvent ?a ?s2)"
    then have "q \<in> set (clits s1 confl)" unfolding rs .
    then have "isF s1 q" "lit_ok (nVars s1) q" using b(1) ana_ctxD(6) [OF ctx1 cA] by (auto simp: conflict_state_def)
    then show "neg q \<in> set (take ?m (trail ?s2))" using trail_okD(2) [OF ana_ctxD(1) [OF ctx1], of q] by simp
  qed
  have D: "derives A ?s2 ?m (an_out ?a) (set (resolvent ?a ?s2))"
    using cA unfolding derives_def rs root_model_def ana_frame_clause(2) [OF f2] by blast
  have "\<exists>q \<in> set (resolvent ?a ?s2). level ?s2 (var q) = decisionLevel ?s2" unfolding rs e2 by (rule b(9))
  then have ne: "marked ?s2 ?m \<noteq> {} \<or> (\<exists>q \<in> set (resolvent ?a ?s2). level ?s2 (var q) = decisionLevel ?s2)" by blast
  have "an_confl ?a \<in> A" "an_index ?a = int ?m - 1" "\<not> an_missed ?a" using cA by simp_all
  from uip_loop_spec [OF ctx i this ls D ne, of T] obtain a' s' k where u:
    "uip_loop T (int (last (trail_lim ?s2))) ?a ?s2 = Some (a', s')" "ana_frame ?s2 s'" "\<not> an_missed a'"
    "k < length (trail ?s2)" "an_p a' = trail ?s2 ! k" "level ?s2 (var (trail ?s2 ! k)) = decisionLevel ?s2"
    "ana_marks s' k (an_out a') 0" "marked s' k = {}" "derives A s' k (an_out a') {neg (trail ?s2 ! k)}" by blast
  let ?out = "(an_out a')[0 := neg (an_p a')]"
  have f': "ana_frame s1 s'" by (rule ana_frame_trans [OF f2 u(2)])
  note e' = ana_frame_eqs [OF f']
  have tr': "trail s' = trail s1" using f' by (simp add: ana_frame_def)
  obtain x xs where o: "an_out a' = x # xs" using u(7) by (cases "an_out a'") (auto simp: ana_marks_def)
  have out: "?out = neg (trail s1 ! k) # xs" "tl (an_out a') = xs" by (simp_all add: o u(5))
  have run: "analyze_uip T confl s = Some (?out, s')"
    using u(1,3) by (subst analyze_uip.simps) (simp add: s1_def clits_def Let_def)
  have "ana_ctx A s'" by (rule ana_ctx_frame [OF f' ctx1])
  moreover have "learnt_ok A s' ?out"
  proof -
    have "\<exists>q \<in> set ?out. M q" if "root_model A s' M" for M
      using u(8,9) that unfolding derives_def out by auto
    then show ?thesis using u(4,6,7) unfolding learnt_ok_def out by (auto simp: ana_marks_def o e' e2 tr')
  qed
  moreover have "length (seen s') = nVars s'" "\<forall>q \<in> set xs. is_seen s' (var q)"
    using u(7) by (auto simp: ana_marks_def o)
  moreover have "\<exists>q \<in> set xs. vix (var q) = j" if j: "j < length (seen s')" "seen s' ! j" for j
  proof -
    obtain p where p: "p \<in> set (trail s')" "vix (var p) = j" using u(7) j by (auto simp: ana_marks_def)
    then have sp: "is_seen s' (var p)" using j(2) by (simp add: is_seen_def)
    have "\<not> (level s' (var p) = decisionLevel s' \<and> p \<in> set (take k (trail s')))"
      using u(8) sp by (auto simp: marked_def in_set_conv_nth)
    then have "neg p \<in> set xs" using u(7) p(1) sp by (auto simp: ana_marks_def o)
    then show ?thesis using p(2) by (intro bexI [of _ "neg p"]) simp_all
  qed
  ultimately show ?thesis using run f' unfolding out s1_def [symmetric] by (intro exI [of _ "neg (trail s1 ! k) # xs"] exI [of _ s']) (simp add: out)
qed

end
