(* ===== verification/Conflict_Min.thy ===== *)
theory Conflict_Min
  imports Conflict "HOL-Library.Sublist"
begin

text \<open>
  Minimisation of the learnt clause.  A mark means that the clause and the reasons already imply the
  literal's value; both modes only remove literals whose reasons consist of marked and root literals, so
  the shorter clause is still entailed.  \<^verbatim>\<open>litRedundant\<close> terminates and undoes its marks when it fails.
\<close>

section \<open>Justified marks\<close>

definition justified :: "CRef set \<Rightarrow> 'h solver \<Rightarrow> bool list \<Rightarrow> Lit \<Rightarrow> bool" where
  "justified A s sn x \<longleftrightarrow>
     reason s (var x) \<in> A \<and>
     (\<forall>l \<in> set (drop 1 (clits s (reason s (var x)))). level s (var l) = 0 \<or> sn ! vix (var l))"

text \<open>Every marked literal is false in the clause, waits on the stack or is justified.\<close>

definition marks_closed :: "CRef set \<Rightarrow> 'h solver \<Rightarrow> bool list \<Rightarrow> Lit set \<Rightarrow> Lit set \<Rightarrow> bool" where
  "marks_closed A s sn K st \<longleftrightarrow>
     (\<forall>x \<in> set (trail s). sn ! vix (var x) \<longrightarrow> neg x \<in> K \<or> neg x \<in> st \<or> justified A s sn x)"

lemma justified_mono: "justified A s sn x \<Longrightarrow> (\<And>i. sn ! i \<Longrightarrow> sn' ! i) \<Longrightarrow> justified A s sn' x"
  by (auto simp: justified_def)

lemma reason_split:
  assumes c: "ana_ctx A s" and x: "x \<in> set (trail s)" and r: "reason s (var x) \<in> A"
  shows "\<exists>k cs. k < length (trail s) \<and> trail s ! k = x \<and> clits s (reason s (var x)) = x # cs \<and>
     (\<forall>l \<in> set cs. neg l \<in> set (take k (trail s)))"
proof -
  obtain k where k: "k < length (trail s)" "trail s ! k = x" using x by (auto simp: in_set_conv_nth)
  have h: "clits s (reason s (var x)) ! 0 = x"
    "\<forall>l \<in> set (clits s (reason s (var x))). l \<noteq> x \<longrightarrow> neg l \<in> set (take k (trail s))"
    using ana_ctxD(2) [OF c] k r by (auto simp: reasons_ok_def)
  note d = ana_ctxD(6) [OF c r]
  obtain cs where "clits s (reason s (var x)) = x # cs" using d h(1) by (cases "clits s (reason s (var x))") auto
  then show ?thesis using k h(2) d by (intro exI [of _ k] exI [of _ cs]) auto
qed

text \<open>The value of a marked literal follows from the negated clause.\<close>

lemma marks_imply:
  assumes c: "ana_ctx A s" and cl: "marks_closed A s sn K {}" and M: "root_model A s M" and K: "\<forall>q \<in> K. \<not> M q"
    and k: "k < length (trail s)" and m: "sn ! vix (var (trail s ! k))"
  shows "M (trail s ! k)"
  using k m
proof (induction k rule: less_induct)
  case (less k)
  let ?x = "trail s ! k"
  have lm: "M (neg q) \<longleftrightarrow> \<not> M q" for q using M by (simp add: root_model_def lit_model_def)
  from cl less.prems consider "neg ?x \<in> K" | "justified A s sn ?x" by (auto simp: marks_closed_def)
  then show ?case
  proof cases
    case 1
    then show ?thesis using K lm by auto
  next
    case 2
    then have r: "reason s (var ?x) \<in> A" by (simp add: justified_def)
    from reason_split [OF c _ r] less.prems(1) obtain j cs where j: "j < length (trail s)" "trail s ! j = ?x"
      "clits s (reason s (var ?x)) = ?x # cs" "\<forall>l \<in> set cs. neg l \<in> set (take j (trail s))" by auto
    have jk: "j = k" using same_pos [OF ana_ctxD(1) [OF c] j(1) less.prems(1)] j(2) by simp
    have "\<not> M l" if l: "l \<in> set cs" for l
    proof -
      have nl: "neg l \<in> set (take k (trail s))" using j(4) jk l by simp
      then obtain i where i: "i < k" "i < length (trail s)" "trail s ! i = neg l" by (auto simp: in_set_conv_nth)
      have "M (neg l)"
      proof (cases "level s (var l) = 0")
        case True
        then show ?thesis using M in_set_takeD [OF nl] by (simp add: root_model_def)
      next
        case False
        then have "sn ! vix (var (trail s ! i))" using 2 j(3) l i(3) by (auto simp: justified_def)
        then show ?thesis using less.IH [OF i(1,2)] i(3) by simp
      qed
      then show ?thesis using lm by simp
    qed
    moreover have "\<exists>l \<in> set (clits s (reason s (var ?x))). M l" using M r by (simp add: root_model_def)
    ultimately show ?thesis by (auto simp: j(3))
  qed
qed

lemma minimized_entailed:
  assumes c: "ana_ctx A s" and lo: "learnt_ok A s out" and cl: "marks_closed A s sn (set kept) {}"
    and sn: "\<forall>q \<in> set (tl out). sn ! vix (var q)" and M: "root_model A s M"
  shows "\<exists>q \<in> set (hd out # kept). M q"
proof (rule ccontr)
  assume n: "\<not> (\<exists>q \<in> set (hd out # kept). M q)"
  have "\<not> M q" if q: "q \<in> set (tl out)" for q
  proof -
    have "neg q \<in> set (trail s)" using lo q by (auto simp: learnt_ok_def)
    then obtain k where k: "k < length (trail s)" "trail s ! k = neg q" by (auto simp: in_set_conv_nth)
    have "M (trail s ! k)"
      by (rule marks_imply [OF c cl M _ k(1)]) (use n sn q k in auto)
    then show ?thesis using M k(2) by (simp add: root_model_def lit_model_def)
  qed
  moreover obtain q where q: "q \<in> set out" "M q" using lo M by (auto simp: learnt_ok_def)
  moreover have "out = hd out # tl out" using lo by (simp add: learnt_ok_def)
  ultimately show False using n by (metis list.set_intros(1) set_ConsD)
qed

section \<open>Undoing marks\<close>

lemma nth_upd: "j < length xs \<Longrightarrow> xs[i := x] ! j = (if i = j then x else xs ! j)"
  by (cases "i = j") simp_all

lemma unmark_append: "unmark (xs @ ys) sn = unmark ys (unmark xs sn)"
  by (induction xs arbitrary: sn) auto

lemma length_unmark [simp]: "length (unmark qs sn) = length sn"
  by (induction qs arbitrary: sn) auto

lemma nth_unmark: "i < length sn \<Longrightarrow> unmark qs sn ! i = (sn ! i \<and> \<not> (\<exists>q \<in> set qs. vix (var q) = i))"
proof (induction qs arbitrary: sn)
  case (Cons q qs)
  then show ?case by (cases "vix (var q) = i") auto
qed simp

lemma unmark_update: "(unmark qs (sn[i := b]))[i := False] = (unmark qs sn)[i := False]"
  by (rule nth_equalityI) (simp_all add: nth_unmark nth_upd)

text \<open>The marks to clear cover all marks.\<close>

definition covered :: "Lit list \<Rightarrow> bool list \<Rightarrow> bool" where
  "covered tc sn \<longleftrightarrow> (\<forall>i < length sn. sn ! i \<longrightarrow> (\<exists>q \<in> set tc. vix (var q) = i))"

lemma unmark_covered: "covered tc sn \<Longrightarrow> unmark tc sn = replicate (length sn) False"
  by (rule nth_equalityI) (auto simp: covered_def nth_unmark)

section \<open>The search of litRedundant\<close>

definition red_inv :: "CRef set \<Rightarrow> 'h solver \<Rightarrow> nat \<Rightarrow> Lit list \<Rightarrow> bool list \<Rightarrow> Lit list \<Rightarrow> Lit list \<Rightarrow> bool list \<Rightarrow> bool" where
  "red_inv A s n tc0 sn0 st tc sn \<longleftrightarrow>
     length sn = nVars s \<and> length sn0 = nVars s \<and> n \<le> length tc \<and> take n tc = tc0 \<and> unmark (drop n tc) sn = sn0 \<and>
     (\<forall>i. sn0 ! i \<longrightarrow> i < nVars s \<longrightarrow> sn ! i) \<and> covered tc sn \<and> (\<forall>q \<in> set st. neg q \<in> set (trail s))"

lemma push_mark:
  assumes i: "red_inv A s n tc0 sn0 st tc sn" and p: "neg p \<in> set (trail s)" and n: "\<not> sn ! vix (var p)"
  shows "red_inv A s n tc0 sn0 (st @ [p]) (tc @ [p]) (sn[vix (var p) := True])"
proof -
  let ?i = "vix (var p)"
  have nt: "n \<le> length tc" and un: "unmark (drop n tc) sn = sn0" using i by (auto simp: red_inv_def)
  have "unmark (drop n (tc @ [p])) (sn[?i := True]) = (unmark (drop n tc) (sn[?i := True]))[?i := False]"
    using nt by (simp add: unmark_append)
  also have "\<dots> = (unmark (drop n tc) sn)[?i := False]" by (rule unmark_update)
  also have "\<dots> = sn0"
  proof (cases "?i < length sn")
    case True
    then have "\<not> unmark (drop n tc) sn ! ?i" using n by (simp add: nth_unmark)
    then show ?thesis using un by (metis (full_types) list_update_id)
  next
    case False
    then show ?thesis using un by (metis length_unmark list_update_beyond not_less)
  qed
  finally show ?thesis using i p by (auto simp: red_inv_def covered_def nth_upd)
qed

lemma count_mark: "i < length sn \<Longrightarrow> \<not> sn ! i \<Longrightarrow> Suc (length (filter Not (sn[i := True]))) = length (filter Not sn)"
proof (induction sn arbitrary: i)
  case (Cons b sn)
  then show ?case by (cases i) auto
qed simp

lemma redundant_scan_spec:
  assumes c: "ana_ctx A s" and i: "red_inv A s n tc0 sn0 st tc sn" and ls: "\<forall>l \<in> set ls. neg l \<in> set (trail s)"
  shows "\<exists>b st' tc' sn'. redundant_scan s ab ls (st, tc, sn) = (b, st', tc', sn') \<and> red_inv A s n tc0 sn0 st' tc' sn' \<and>
     (b \<longrightarrow> (\<forall>l \<in> set ls. level s (var l) = 0 \<or> sn' ! vix (var l)) \<and> set st \<subseteq> set st' \<and>
        (\<forall>j. sn ! j \<longrightarrow> sn' ! j) \<and> (\<forall>x \<in> set (trail s). sn' ! vix (var x) \<longrightarrow> sn ! vix (var x) \<or> neg x \<in> set st') \<and>
        length (filter Not sn') + length st' = length (filter Not sn) + length st)"
  using i ls
proof (induction ls arbitrary: st tc sn)
  case (Cons p ls)
  let ?i = "vix (var p)"
  show ?case
  proof (cases "\<not> sn ! ?i \<and> 0 < level s (var p)")
    case a: True
    show ?thesis
    proof (cases "reason s (var p) \<noteq> CRef_Undef \<and> and (abstractLevel s (var p)) ab \<noteq> 0")
      case True
      have pt: "neg p \<in> set (trail s)" using Cons.prems(2) by simp
      have "lit_ok (nVars s) p" using trail_okD(4) [OF ana_ctxD(1) [OF c] pt] by simp
      then have il: "?i < length sn" using lit_ok_vix Cons.prems(1) by (auto simp: red_inv_def)
      let ?sn = "sn[?i := True]"
      have up: "sn ! j \<longrightarrow> ?sn ! j" for j by (cases "j = ?i") (auto simp: il)
      from Cons.IH [OF push_mark [OF Cons.prems(1) pt]] a Cons.prems(2) obtain b st' tc' sn' where r:
        "redundant_scan s ab ls (st @ [p], tc @ [p], ?sn) = (b, st', tc', sn')" "red_inv A s n tc0 sn0 st' tc' sn'"
        "b \<longrightarrow> (\<forall>l \<in> set ls. level s (var l) = 0 \<or> sn' ! vix (var l)) \<and> set (st @ [p]) \<subseteq> set st' \<and>
          (\<forall>j. ?sn ! j \<longrightarrow> sn' ! j) \<and> (\<forall>x \<in> set (trail s). sn' ! vix (var x) \<longrightarrow> ?sn ! vix (var x) \<or> neg x \<in> set st') \<and>
          length (filter Not sn') + length st' = length (filter Not ?sn) + length (st @ [p])" by force
      have pm: "?sn ! ?i" using il by simp
      have only: "?sn ! vix (var x) \<longrightarrow> sn ! vix (var x) \<or> neg x = p" if "x \<in> set (trail s)" for x
      proof (cases "vix (var x) = ?i")
        case True
        then have "var x = var (neg p)"
          using distinct_vix [OF ana_ctxD(1) [OF c] that, of p] \<open>lit_ok (nVars s) p\<close> by simp
        then have "x = neg p" using same_var [OF ana_ctxD(1) [OF c] that pt] by blast
        then show ?thesis by simp
      qed simp
      have "b \<longrightarrow> (\<forall>l \<in> set (p # ls). level s (var l) = 0 \<or> sn' ! vix (var l)) \<and> set st \<subseteq> set st' \<and>
          (\<forall>j. sn ! j \<longrightarrow> sn' ! j) \<and> (\<forall>x \<in> set (trail s). sn' ! vix (var x) \<longrightarrow> sn ! vix (var x) \<or> neg x \<in> set st') \<and>
          length (filter Not sn') + length st' = length (filter Not sn) + length st"
      proof
        assume b
        note q = r(3) [rule_format, OF this]
        show "(\<forall>l \<in> set (p # ls). level s (var l) = 0 \<or> sn' ! vix (var l)) \<and> set st \<subseteq> set st' \<and>
          (\<forall>j. sn ! j \<longrightarrow> sn' ! j) \<and> (\<forall>x \<in> set (trail s). sn' ! vix (var x) \<longrightarrow> sn ! vix (var x) \<or> neg x \<in> set st') \<and>
          length (filter Not sn') + length st' = length (filter Not sn) + length st"
          using q up only pm count_mark [OF il] a by fastforce
      qed
      moreover have "redundant_scan s ab (p # ls) (st, tc, sn) = (b, st', tc', sn')" using a True r(1) by simp
      ultimately show ?thesis using r(2) by blast
    next
      case False
      then have "redundant_scan s ab (p # ls) (st, tc, sn) = (False, st, tc, sn)" using a by auto
      then show ?thesis using Cons.prems(1) by blast
    qed
  next
    case False
    then have eq: "redundant_scan s ab (p # ls) (st, tc, sn) = redundant_scan s ab ls (st, tc, sn)" by auto
    have "\<forall>l \<in> set ls. neg l \<in> set (trail s)" using Cons.prems(2) by simp
    from Cons.IH [OF Cons.prems(1) this] obtain b st' tc' sn' where r:
      "redundant_scan s ab ls (st, tc, sn) = (b, st', tc', sn')" "red_inv A s n tc0 sn0 st' tc' sn'"
      "b \<longrightarrow> (\<forall>l \<in> set ls. level s (var l) = 0 \<or> sn' ! vix (var l)) \<and> set st \<subseteq> set st' \<and>
        (\<forall>j. sn ! j \<longrightarrow> sn' ! j) \<and> (\<forall>x \<in> set (trail s). sn' ! vix (var x) \<longrightarrow> sn ! vix (var x) \<or> neg x \<in> set st') \<and>
        length (filter Not sn') + length st' = length (filter Not sn) + length st" by blast
    then have "b \<longrightarrow> (\<forall>l \<in> set (p # ls). level s (var l) = 0 \<or> sn' ! vix (var l))" using False by auto
    then show ?thesis using r unfolding eq by blast
  qed
qed auto


text \<open>The result of the search: failure restores the marks, success leaves them closed with \<open>p\<close> justified.\<close>

lemma redundant_loop_spec:
  assumes c: "ana_ctx A s" and i: "red_inv A s n tc0 sn0 st tc sn" and cl: "marks_closed A s sn K (set st)"
  shows "\<exists>b tc' sn'. redundant_loop s ab n st tc sn = Some (b, tc', sn') \<and>
     (\<not> b \<longrightarrow> tc' = tc0 \<and> sn' = sn0) \<and>
     (b \<longrightarrow> marks_closed A s sn' K {} \<and> covered tc' sn' \<and> length sn' = nVars s \<and> (\<forall>j < nVars s. sn0 ! j \<longrightarrow> sn' ! j))"
  using i cl
proof (induction "length (filter Not sn) + length st" arbitrary: st tc sn rule: less_induct)
  case less
  let ?r = "reason s (var (last st))"
  have restore: "take n tc = tc0" "unmark (drop n tc) sn = sn0" using less.prems(1) by (auto simp: red_inv_def)
  consider "st = []" | "st \<noteq> []" "\<not> isClause (ca s) ?r" | "st \<noteq> []" "isClause (ca s) ?r" by blast
  then show ?case
  proof cases
    case 1
    then have "redundant_loop s ab n st tc sn = Some (True, tc, sn)" by (simp add: redundant_loop.simps)
    then show ?thesis using less.prems 1 by (auto simp: red_inv_def)
  next
    case 2
    then have "redundant_loop s ab n st tc sn = Some (False, take n tc, unmark (drop n tc) sn)"
      by (simp add: redundant_loop.simps)
    then show ?thesis using restore by auto
  next
    case 3
    let ?p = "last st" let ?ls = "drop 1 (clits s ?r)"
    have pt: "neg ?p \<in> set (trail s)" using less.prems(1) 3(1) by (simp add: red_inv_def)
    have rA: "?r \<in> A" using ana_ctxD(5) [OF c pt] 3(2) by auto
    from reason_split [OF c pt] rA obtain k cs where cs: "clits s ?r = neg ?p # cs" "\<forall>l \<in> set cs. neg l \<in> set (take k (trail s))"
      by auto
    have ls: "\<forall>l \<in> set ?ls. neg l \<in> set (trail s)" using cs by (auto dest: in_set_takeD)
    have i': "red_inv A s n tc0 sn0 (butlast st) tc sn" using less.prems(1) by (auto simp: red_inv_def dest: in_set_butlastD)
    from redundant_scan_spec [OF c i' ls, of ab] obtain b st' tc' sn' where r:
      "redundant_scan s ab ?ls (butlast st, tc, sn) = (b, st', tc', sn')" "red_inv A s n tc0 sn0 st' tc' sn'"
      "b \<longrightarrow> (\<forall>l \<in> set ?ls. level s (var l) = 0 \<or> sn' ! vix (var l)) \<and> set (butlast st) \<subseteq> set st' \<and>
        (\<forall>j. sn ! j \<longrightarrow> sn' ! j) \<and> (\<forall>x \<in> set (trail s). sn' ! vix (var x) \<longrightarrow> sn ! vix (var x) \<or> neg x \<in> set st') \<and>
        length (filter Not sn') + length st' = length (filter Not sn) + length (butlast st)" by blast
    have step: "redundant_loop s ab n st tc sn =
        (if b then redundant_loop s ab n st' tc' sn' else Some (False, take n tc', unmark (drop n tc') sn'))"
      using 3 r(1) by (subst redundant_loop.simps) (simp add: clits_def Let_def)
    show ?thesis
    proof (cases b)
      case False
      then show ?thesis using step r(2) by (auto simp: red_inv_def)
    next
      case True
      note q = r(3) [rule_format, OF True]
      have st: "set st = insert ?p (set (butlast st))"
        using 3(1) append_butlast_last_id [of st] by (metis Un_insert_right list.set(2) set_append sup_bot_right list.set(1))
      have "marks_closed A s sn' K (set st')"
        unfolding marks_closed_def
      proof (intro ballI impI)
        fix x assume x: "x \<in> set (trail s)" "sn' ! vix (var x)"
        show "neg x \<in> K \<or> neg x \<in> set st' \<or> justified A s sn' x"
        proof (cases "neg x \<in> set st'")
          case False
          then have "sn ! vix (var x)" using q x by blast
          then have "neg x \<in> K \<or> neg x = ?p \<or> justified A s sn x"
            using less.prems(2) x(1) False q unfolding marks_closed_def st by blast
          moreover have "justified A s sn' x" if "neg x = ?p"
            using q rA that unfolding justified_def by (metis var_neg)
          ultimately show ?thesis using justified_mono [of A s sn x sn'] q by blast
        qed simp
      qed
      moreover have "length (filter Not sn') + length st' < length (filter Not sn) + length st" using q 3(1) by simp
      ultimately show ?thesis using less.hyps [OF _ r(2)] step True by simp
    qed
  qed
qed

lemma litRedundant_spec:
  assumes c: "ana_ctx A s" and len: "length sn = nVars s" and cv: "covered tc sn" and q: "neg q \<in> set (trail s)"
    and cl: "marks_closed A s sn (insert q K) {}"
  shows "\<exists>b tc' sn'. litRedundant s q ab tc sn = Some (b, tc', sn') \<and> (\<not> b \<longrightarrow> tc' = tc \<and> sn' = sn) \<and>
     (b \<longrightarrow> marks_closed A s sn' K {} \<and> covered tc' sn' \<and> length sn' = nVars s \<and> (\<forall>j < nVars s. sn ! j \<longrightarrow> sn' ! j))"
proof -
  have "red_inv A s (length tc) tc sn [q] tc sn" using len cv q by (simp add: red_inv_def)
  moreover have "marks_closed A s sn K (set [q])" using cl by (auto simp: marks_closed_def)
  ultimately show ?thesis unfolding litRedundant_def by (rule redundant_loop_spec [OF c])
qed

lemma marks_closed_mono: "marks_closed A s sn K {} \<Longrightarrow> K \<subseteq> K' \<Longrightarrow> marks_closed A s sn K' {}"
  by (auto simp: marks_closed_def)

lemma minimize_deep_spec:
  assumes c: "ana_ctx A s" and "length sn = nVars s" and "covered tc sn" and "\<forall>q \<in> set qs. neg q \<in> set (trail s)"
    and "marks_closed A s sn (K \<union> set qs) {}"
  shows "\<exists>kept tc' sn'. minimize_deep s ab qs tc sn = Some (kept, tc', sn') \<and> subseq kept qs \<and>
     marks_closed A s sn' (K \<union> set kept) {} \<and> covered tc' sn' \<and> length sn' = nVars s \<and> (\<forall>j < nVars s. sn ! j \<longrightarrow> sn' ! j)"
  using assms(2-)
proof (induction qs arbitrary: tc sn K)
  case (Cons q qs)
  have qt: "neg q \<in> set (trail s)" and qs: "\<forall>q \<in> set qs. neg q \<in> set (trail s)" using Cons.prems(3) by auto
  have cl: "marks_closed A s sn (insert q (K \<union> set qs)) {}" using Cons.prems(4) by simp
  define t where "t = (if \<not> isClause (ca s) (reason s (var q)) then Some (False, tc, sn) else litRedundant s q ab tc sn)"
  have "\<exists>b tc' sn'. t = Some (b, tc', sn') \<and> (\<not> b \<longrightarrow> tc' = tc \<and> sn' = sn) \<and>
     (b \<longrightarrow> marks_closed A s sn' (K \<union> set qs) {} \<and> covered tc' sn' \<and> length sn' = nVars s \<and> (\<forall>j < nVars s. sn ! j \<longrightarrow> sn' ! j))"
  proof (cases "isClause (ca s) (reason s (var q))")
    case True
    then show ?thesis using litRedundant_spec [OF c Cons.prems(1,2) qt cl, of ab] by (simp add: t_def)
  next
    case False
    then show ?thesis by (intro exI [of _ False]) (simp add: t_def)
  qed
  then obtain b tc1 sn1 where b: "t = Some (b, tc1, sn1)" "\<not> b \<longrightarrow> tc1 = tc \<and> sn1 = sn"
    "b \<longrightarrow> marks_closed A s sn1 (K \<union> set qs) {} \<and> covered tc1 sn1 \<and> length sn1 = nVars s \<and> (\<forall>j < nVars s. sn ! j \<longrightarrow> sn1 ! j)"
    by blast
  have eq: "minimize_deep s ab (q # qs) tc sn =
      Option.bind (minimize_deep s ab qs tc1 sn1) (\<lambda>m. Some (if b then m else (q # fst m, snd m)))"
    using b(1) by (simp add: t_def [symmetric])
  show ?case
  proof (cases b)
    case True
    from b(3) True have h: "marks_closed A s sn1 (K \<union> set qs) {}" "covered tc1 sn1" "length sn1 = nVars s"
      "\<forall>j < nVars s. sn ! j \<longrightarrow> sn1 ! j" by blast+
    from Cons.IH [OF h(3,2) qs h(1)] obtain kept tc' sn' where r:
      "minimize_deep s ab qs tc1 sn1 = Some (kept, tc', sn')" "subseq kept qs" "marks_closed A s sn' (K \<union> set kept) {}"
      "covered tc' sn'" "length sn' = nVars s" "\<forall>j < nVars s. sn1 ! j \<longrightarrow> sn' ! j" by blast
    then show ?thesis using eq True h(4) by (intro exI [of _ kept] exI [of _ tc'] exI [of _ sn']) auto
  next
    case False
    have "marks_closed A s sn1 (insert q K \<union> set qs) {}" "covered tc1 sn1" "length sn1 = nVars s"
      using b(2) False Cons.prems cl by auto
    from Cons.IH [OF this(3,2) qs this(1)] obtain kept tc' sn' where r:
      "minimize_deep s ab qs tc1 sn1 = Some (kept, tc', sn')" "subseq kept qs" "marks_closed A s sn' (insert q K \<union> set kept) {}"
      "covered tc' sn'" "length sn' = nVars s" "\<forall>j < nVars s. sn1 ! j \<longrightarrow> sn' ! j" by blast
    then show ?thesis using eq False b(2) by (intro exI [of _ "q # kept"] exI [of _ tc'] exI [of _ sn']) auto
  qed
qed simp

lemma minimize_spec:
  assumes c: "ana_ctx A s" and lo: "learnt_ok A s out" and len: "length (seen s) = nVars s"
    and sn: "\<forall>q \<in> set (tl out). is_seen s (var q)" and cv: "covered (tl out) (seen s)"
  shows "\<exists>kept tc sn'. minimize s out = Some (hd out # kept, tc, sn') \<and> subseq kept (tl out) \<and>
     marks_closed A s sn' (set kept) {} \<and> covered tc sn' \<and> length sn' = nVars s \<and> (\<forall>q \<in> set (tl out). sn' ! vix (var q))"
proof -
  have o: "out = hd out # tl out" using lo by (simp add: learnt_ok_def)
  have tl: "\<forall>q \<in> set (tl out). neg q \<in> set (trail s)" using lo by (auto simp: learnt_ok_def)
  have vl: "\<forall>q \<in> set (tl out). vix (var q) < nVars s"
    using lit_ok_vix trail_okD(4) [OF ana_ctxD(1) [OF c]] tl by (metis lit_ok_neg)
  have cv': "covered out (seen s)" using cv set_ConsD unfolding covered_def by (metis o list.set_intros(2))
  have cl: "marks_closed A s (seen s) (set (tl out)) {}"
    unfolding marks_closed_def
  proof (intro ballI impI)
    fix x assume x: "x \<in> set (trail s)" "seen s ! vix (var x)"
    have xo: "lit_ok (nVars s) x" using trail_okD(4) [OF ana_ctxD(1) [OF c] x(1)] .
    have "vix (var x) < length (seen s)" using lit_ok_vix [OF xo] len by simp
    then obtain q where q: "q \<in> set (tl out)" "vix (var q) = vix (var x)" using cv x(2) by (auto simp: covered_def)
    have nq: "neg q \<in> set (trail s)" using tl q(1) by blast
    have "var (neg q) = var x" using distinct_vix [OF ana_ctxD(1) [OF c] nq xo] q(2) by simp
    then have "neg q = x" using same_var [OF ana_ctxD(1) [OF c] nq x(1)] by simp
    then show "neg x \<in> set (tl out) \<or> neg x \<in> {} \<or> justified A s (seen s) x" using q(1) by auto
  qed
  have sn': "\<forall>q \<in> set (tl out). seen s ! vix (var q)" using sn by (simp add: is_seen_def)
  consider "ccmin_mode (opts s) = 2" | "ccmin_mode (opts s) = 1" | "ccmin_mode (opts s) \<noteq> 2" "ccmin_mode (opts s) \<noteq> 1" by blast
  then show ?thesis
  proof cases
    case 1
    from minimize_deep_spec [OF c len cv' tl, of "{}" "abstract_levels s (tl out) 0"] cl obtain kept tc s' where
      "minimize_deep s (abstract_levels s (tl out) 0) (tl out) out (seen s) = Some (kept, tc, s')" "subseq kept (tl out)"
      "marks_closed A s s' (set kept) {}" "covered tc s'" "length s' = nVars s" "\<forall>j < nVars s. seen s ! j \<longrightarrow> s' ! j" by auto
    then show ?thesis using 1 sn' vl by (intro exI [of _ kept] exI [of _ tc] exI [of _ s']) (simp add: minimize_def)
  next
    case 2
    let ?k = "filter (basic_keep s) (tl out)"
    have "marks_closed A s (seen s) (set ?k) {}"
      unfolding marks_closed_def
    proof (intro ballI impI)
      fix x assume x: "x \<in> set (trail s)" "seen s ! vix (var x)"
      then consider "neg x \<in> set (tl out)" | "justified A s (seen s) x" using cl by (auto simp: marks_closed_def)
      then show "neg x \<in> set ?k \<or> neg x \<in> {} \<or> justified A s (seen s) x"
      proof cases
        case 1
        have "justified A s (seen s) x" if "\<not> basic_keep s (neg x)"
          using that ana_ctxD(5) [OF c x(1)] by (auto simp: basic_keep_def justified_def is_seen_def clits_def)
        then show ?thesis using 1 by auto
      qed simp
    qed
    then show ?thesis using 2 cv' len sn' by (simp add: minimize_def)
  next
    case 3
    then show ?thesis using cl cv' len sn' o by (intro exI [of _ "tl out"] exI [of _ out] exI [of _ "seen s"]) (simp add: minimize_def)
  qed
qed

section \<open>The level to jump to\<close>

lemma max_index_spec:
  assumes "m < length out" and "i + length qs = length out" and "qs = drop i out" and "m < i"
    and "\<forall>j. 1 \<le> j \<longrightarrow> j < i \<longrightarrow> level s (var (out ! j)) \<le> level s (var (out ! m))" and "1 \<le> m"
  shows "max_index s out qs i m < length out \<and> 1 \<le> max_index s out qs i m \<and>
     (\<forall>j. 1 \<le> j \<longrightarrow> j < length out \<longrightarrow> level s (var (out ! j)) \<le> level s (var (out ! max_index s out qs i m)))"
  using assms
proof (induction qs arbitrary: i m)
  case (Cons q qs)
  define m' where "m' = (if level s (var (out ! m)) < level s (var q) then i else m)"
  have d: "drop i out = q # qs" using Cons.prems(3) by simp
  have i: "i < length out" using Cons.prems(2) by simp
  have i: "i < length out" "out ! i = q" "qs = drop (Suc i) out"
    using i nth_via_drop [OF d] d by (simp_all add: drop_Suc tl_drop [symmetric])
  have j: "\<forall>j. 1 \<le> j \<longrightarrow> j < Suc i \<longrightarrow> level s (var (out ! j)) \<le> level s (var (out ! m'))"
    using Cons.prems(5) i(2) unfolding m'_def by (auto simp: less_Suc_eq intro: le_trans less_imp_le)
  have m: "m' < length out" "m' < Suc i" "1 \<le> m'"
    using Cons.prems(1,4,6) i(1) by (auto simp: m'_def)
  have n: "Suc i + length qs = length out" using Cons.prems(2) by simp
  have "max_index s out (q # qs) i m = max_index s out qs (Suc i) m'" by (simp add: m'_def)
  then show ?case using Cons.IH [OF m(1) n i(3) m(2) j m(3)] by metis
qed auto

lemma jump_level_spec:
  assumes "out \<noteq> []"
  shows "\<exists>out' lev. jump_level s out = (out', lev) \<and> mset out' = mset out \<and> hd out' = hd out \<and> out' \<noteq> [] \<and>
     mset (tl out') = mset (tl out) \<and> (\<forall>q \<in> set (tl out). level s (var q) \<le> lev) \<and>
     (if tl out = [] then lev = 0 else level s (var (out' ! 1)) = lev)"
proof (cases "length out = 1")
  case True
  then show ?thesis using assms by (cases out) (auto simp: jump_level_def)
next
  case False
  then have l: "2 \<le> length out" using assms by (cases out; cases "tl out") auto
  let ?m = "max_index s out (drop 2 out) 2 1"
  have m: "?m < length out" "1 \<le> ?m"
    "\<forall>j. 1 \<le> j \<longrightarrow> j < length out \<longrightarrow> level s (var (out ! j)) \<le> level s (var (out ! ?m))"
    using max_index_spec [of 1 out 2 "drop 2 out" s] l by (auto simp: numeral_2_eq_2 le_less_Suc_eq)
  let ?o = "out[?m := out ! 1, 1 := out ! ?m]"
  have eq: "jump_level s out = (?o, level s (var (out ! ?m)))" using False by (simp add: jump_level_def Let_def)
  obtain x xs where o: "out = x # xs" using assms by (cases out) auto
  have sw: "?o = x # swap_at (?m - 1) 0 xs" using m(2) l by (cases ?m) (auto simp: o swap_at_def)
  have b: "?m - 1 < length xs" "0 < length xs" using m(1,2) l by (auto simp: o)
  have "mset (swap_at (?m - 1) 0 xs) = mset xs" using b by simp
  moreover have "level s (var q) \<le> level s (var (out ! ?m))" if "q \<in> set xs" for q
    using that m(3) by (force simp: o in_set_conv_nth)
  moreover have "?o ! 1 = out ! ?m" using l by simp
  ultimately show ?thesis using eq sw l by (intro exI [of _ ?o] exI [of _ "level s (var (out ! ?m))"]) (auto simp: o)
qed

end
