(* ===== verification/Analyze_Correct.thy ===== *)
theory Analyze_Correct
  imports Conflict_Min
begin

text \<open>
  \<^verbatim>\<open>analyze\<close> as a whole.  From a conflict it returns a clause that follows from the clauses and the root
  assignments, with one literal of the conflict level, which backjumping turns into a unit clause; it leaves
  no marks behind.
\<close>

definition conflict_learnt :: "CRef set \<Rightarrow> 'h solver \<Rightarrow> Lit list \<Rightarrow> nat \<Rightarrow> bool" where
  "conflict_learnt A s out lev \<longleftrightarrow>
     (\<forall>M. root_model A s M \<longrightarrow> (\<exists>q \<in> set out. M q)) \<and> out \<noteq> [] \<and> distinct out \<and>
     (\<forall>q \<in> set out. lit_ok (nVars s) q \<and> isF s q) \<and> level s (var (hd out)) = decisionLevel s \<and> lev < decisionLevel s \<and>
     (\<forall>q \<in> set (tl out). 0 < level s (var q) \<and> level s (var q) \<le> lev) \<and>
     (if tl out = [] then lev = 0 else level s (var (out ! 1)) = lev)"

lemma learnt_neg_trail: "learnt_ok A s out \<Longrightarrow> q \<in> set out \<Longrightarrow> neg q \<in> set (trail s)"
  by (cases out) (auto simp: learnt_ok_def)

lemma minimized_learnt:
  assumes c: "ana_ctx A s" and lo: "learnt_ok A s out" and k: "subseq kept (tl out)"
    and cl: "marks_closed A s sn (set kept) {}" and sn: "\<forall>q \<in> set (tl out). sn ! vix (var q)"
  shows "learnt_ok A s (hd out # kept)"
proof -
  have sub: "set kept \<subseteq> set (tl out)" using k by (auto elim: list_emb_set)
  have d: "distinct kept" using subseqs_distinctD [of kept "tl out"] k lo by (simp add: learnt_ok_def)
  have "\<exists>q \<in> set (hd out # kept). M q" if "root_model A s M" for M by (rule minimized_entailed [OF c lo cl sn that])
  then show ?thesis using lo sub d unfolding learnt_ok_def by auto
qed

lemma jump_learnt:
  assumes c: "ana_ctx A s" and lo: "learnt_ok A s out"
  shows "\<exists>out' lev. jump_level s out = (out', lev) \<and> conflict_learnt A s out' lev"
proof -
  have ne: "out \<noteq> []" using lo by (simp add: learnt_ok_def)
  from jump_level_spec [OF ne, of s] obtain out' lev where j: "jump_level s out = (out', lev)" "mset out' = mset out"
    "hd out' = hd out" "out' \<noteq> []" "mset (tl out') = mset (tl out)" "\<forall>q \<in> set (tl out). level s (var q) \<le> lev"
    "if tl out = [] then lev = 0 else level s (var (out' ! 1)) = lev" by blast
  have st: "set out' = set out" "set (tl out') = set (tl out)" using j(2,5) by (metis mset_eq_setD)+
  have tle: "tl out' = [] \<longleftrightarrow> tl out = []" using st(2) by (metis set_empty)
  have lv: "0 < level s (var q) \<and> level s (var q) < decisionLevel s" if "q \<in> set (tl out)" for q
    using lo that by (simp add: learnt_ok_def)
  have hl: "level s (var (hd out)) = decisionLevel s" using lo by (simp add: learnt_ok_def)
  have "hd out' \<notin> set (tl out')" using lv hl unfolding st(2) j(3) by (metis less_irrefl)
  moreover have "distinct (tl out')" using lo j(5) unfolding learnt_ok_def by (metis mset_eq_imp_distinct_iff)
  ultimately have "distinct (hd out' # tl out')" by simp
  then have d: "distinct out'" using j(4) by simp
  have F: "lit_ok (nVars s) q \<and> isF s q" if "q \<in> set out'" for q
  proof -
    have q: "neg q \<in> set (trail s)" by (rule learnt_neg_trail [OF lo]) (use that st in simp)
    then have "lit_ok (nVars s) q" using trail_okD(4) [OF ana_ctxD(1) [OF c] q] by simp
    then show ?thesis using trail_okD(2) [OF ana_ctxD(1) [OF c], of q] q by simp
  qed
  have bnd: "lev < decisionLevel s"
  proof (cases "tl out = []")
    case True
    then show ?thesis using j(7) c by (simp add: ana_ctx_def)
  next
    case False
    then have "out' ! 1 \<in> set (tl out')" using tle j(4) by (cases out'; cases "tl out'") auto
    then show ?thesis using lv j(7) False unfolding st(2) by auto
  qed
  have "conflict_learnt A s out' lev"
    unfolding conflict_learnt_def
    using lo d F bnd j(4,6,7) lv unfolding st learnt_ok_def tle by (simp add: j(3))
  then show ?thesis using j(1) by blast
qed

lemma conflict_learnt_frame: "ana_frame s s' \<Longrightarrow> conflict_learnt A s' out lev = conflict_learnt A s out lev"
  using root_model_frame [of s s' A] ana_frame_eqs [of s s'] by (auto simp: conflict_learnt_def)

lemma analyze_spec:
  fixes T :: "'h theory_ops" and s :: "'h solver"
  assumes c: "conflict_state A confl s" and calm: "calm T s"
  shows "\<exists>out lev s'. analyze T confl s = Some (out, lev, s') \<and>
     ana_frame (cancelUntil T (max_level s (clits s confl) 0) s) s' \<and> ana_ctx A s' \<and> conflict_learnt A s' out lev \<and>
     seen s' = replicate (nVars s') False"
proof -
  from analyze_uip_spec [OF c calm] obtain o1 s1 where u: "analyze_uip T confl s = Some (o1, s1)"
    "ana_frame (cancelUntil T (max_level s (clits s confl) 0) s) s1" "ana_ctx A s1" "learnt_ok A s1 o1"
    "length (seen s1) = nVars s1" "\<forall>q \<in> set (tl o1). is_seen s1 (var q)"
    "\<forall>i < length (seen s1). seen s1 ! i \<longrightarrow> (\<exists>q \<in> set (tl o1). vix (var q) = i)" by blast
  have cv: "covered (tl o1) (seen s1)" using u(7) by (simp add: covered_def)
  from minimize_spec [OF u(3,4,5,6) cv] obtain kept tc sn where m: "minimize s1 o1 = Some (hd o1 # kept, tc, sn)"
    "subseq kept (tl o1)" "marks_closed A s1 sn (set kept) {}" "covered tc sn" "length sn = nVars s1"
    "\<forall>q \<in> set (tl o1). sn ! vix (var q)" by blast
  have lo: "learnt_ok A s1 (hd o1 # kept)" by (rule minimized_learnt [OF u(3,4) m(2,3,6)])
  let ?s2 = "count_lits (length o1) (length (hd o1 # kept)) s1"
  have f2: "ana_frame s1 ?s2" by (simp add: count_lits_def ana_frame_refl)
  have j2: "jump_level ?s2 (hd o1 # kept) = jump_level s1 (hd o1 # kept)"
  proof -
    have lv: "level ?s2 = level s1" by (rule ana_frame_eqs(6) [OF f2])
    have "max_index ?s2 ls q i k = max_index s1 ls q i k" for ls q i k
      by (induction q arbitrary: i k) (simp_all only: max_index.simps lv)
    then show ?thesis unfolding jump_level_def lv by simp
  qed
  from jump_learnt [OF u(3) lo] obtain out lev where j: "jump_level s1 (hd o1 # kept) = (out, lev)"
    "conflict_learnt A s1 out lev" by blast
  let ?s3 = "?s2\<lparr>seen := unmark tc sn\<rparr>"
  have un: "unmark tc sn = replicate (nVars s1) False" using unmark_covered [OF m(4)] m(5) by simp
  have f3: "ana_frame s1 ?s3" using f2 u(5) un by (simp add: ana_frame_def count_lits_def)
  have "analyze T confl s = Some (out, lev, ?s3)" using u(1) m(1) j(1) j2 by (simp add: analyze_def)
  moreover have "seen ?s3 = replicate (nVars ?s3) False" using ana_frame_eqs(4) [OF f3] by (simp add: un)
  moreover note ana_frame_trans [OF u(2) f3] ana_ctx_frame [OF f3 u(3)] conflict_learnt_frame [OF f3, of A out lev] j(2)
  ultimately show ?thesis by blast
qed

text \<open>C5: Conflict analysis returns, whatever the minimisation mode.  The clause it learns is implied by the
  clauses of the database and the root assignments; its literals are distinct and false, the first one is the
  only literal of the conflict level and the second one has the level to jump to, so that the clause becomes
  unit there.  All marks are cleared and the invariants of the solver hold for the state it leaves.\<close>

theorem analyze_correct:
  fixes T :: "'h theory_ops" and s :: "'h solver"
  assumes "conflict_state A confl s" and "calm T s"
  shows "\<exists>out lev s'. analyze T confl s = Some (out, lev, s') \<and> solver_inv A s' \<and>
     decisionLevel s' = max_level s (lits (clause_at s confl)) 0 \<and>
     (\<forall>M. root_model A s M \<longrightarrow> (\<exists>q \<in> set out. M q)) \<and> out \<noteq> [] \<and> distinct out \<and>
     (\<forall>q \<in> set out. isF s' q) \<and> level s' (var (hd out)) = decisionLevel s' \<and> lev < decisionLevel s' \<and>
     (\<forall>q \<in> set (tl out). 0 < level s' (var q) \<and> level s' (var q) \<le> lev) \<and>
     (if tl out = [] then lev = 0 else level s' (var (out ! 1)) = lev) \<and>
     seen s' = replicate (nVars s') False"
proof -
  note b = back_to_conflict [OF assms]
  from analyze_spec [OF assms] obtain out lev s' where a: "analyze T confl s = Some (out, lev, s')"
    "ana_frame (cancelUntil T (max_level s (clits s confl) 0) s) s'" "ana_ctx A s'" "conflict_learnt A s' out lev"
    "seen s' = replicate (nVars s') False" by blast
  have "decisionLevel s' = max_level s (lits (clause_at s confl)) 0"
    using ana_frame_eqs(8) [OF a(2)] b(2) by (simp add: clits_def)
  moreover have "root_model A s' = root_model A s" using root_model_frame [OF a(2), of A] b(8) by simp
  ultimately show ?thesis using a(1,3-5) unfolding ana_ctx_def conflict_learnt_def by metis
qed

lemma demo_conflict:
  "\<exists>confl s. propagate no_theories False decided = Some (confl, s) \<and> conflict_state (db demo) confl s"
proof -
  from propagate_spec [OF decided_ok(1,2) no_theories_calm] obtain confl s where p:
    "propagate no_theories False decided = Some (confl, s)" "solver_inv (db demo) s" "\<exists>ys. trail s = trail decided @ ys"
    "trail_lim s = trail_lim decided" "marker_refs (ca s) = marker_refs (ca decided)" "nVars s = nVars decided" "bcp_hist decided s" "seen s = seen decided"
    "\<forall>cr \<in> db demo. mset (clits s cr) = mset (clits decided cr)"
    "confl = CRef_Undef \<longrightarrow> (\<forall>cr \<in> db demo. settled s cr)"
    "confl \<noteq> CRef_Undef \<longrightarrow> confl \<in> db demo \<and> (\<forall>l \<in> set (clits s confl). isF s l)" by blast
  obtain c1 c2 where c: "db demo = {c1, c2}" "clits demo c1 = [mkLit 0 False, mkLit 1 False]"
    "clits demo c2 = [mkLit 0 False, mkLit 1 True]" using demo_ok(7) by blast
  have st: "set (clits s c1) = {mkLit 0 False, mkLit 1 False}" "set (clits s c2) = {mkLit 0 False, mkLit 1 True}"
    using p(9) c decided_ok(10) by (metis insertI1 insertI2 mset_eq_setD list.simps(15) set_empty2 empty_set)+
  have bi: "trail_ok s" using p(2) by (auto simp: solver_inv_def bcp_inv_def)
  note tk = trail_okD [OF bi]
  have l: "lit_ok (nVars s) (mkLit 0 b)" "lit_ok (nVars s) (mkLit 1 b)" for b
    by (simp_all add: p(6) decided_ok lit_ok_def mkLit_def)
  have t0: "mkLit 0 True \<in> set (trail s)" using p(3) by (auto simp: decided_ok)
  have n: "neg (mkLit 0 False) = mkLit 0 True" "neg (mkLit 1 False) = mkLit 1 True" "neg (mkLit 1 True) = mkLit 1 False"
    by (simp_all add: mkLit_def neg_def)
  have F0: "isF s (mkLit 0 False)" using tk(2) [OF l(1)] t0 by (simp add: n)
  show ?thesis
  proof (cases "confl = CRef_Undef")
    case True
    have "\<not> isT s (mkLit 0 False)" "\<not> isU s (mkLit 0 False)" using F0 not_T_and_F isU_not by blast+
    moreover have "settled s c1" "settled s c2" using p(10) True c(1) by auto
    ultimately have "isT s (mkLit 1 False)" "isT s (mkLit 1 True)"
      unfolding settled_def sat_clause_def st by auto
    then have "isT s (neg (mkLit 1 True))" unfolding n by blast
    then show ?thesis using \<open>isT s (mkLit 1 True)\<close> not_T_and_F isT_neg by blast
  next
    case False
    have lp: "levels_ok (db demo) s" "prefix_done (db demo) s"
      using hist_levels [OF decided_ok(1) p(2,7,3,4) _ decided_ok(3,4)] p(9) by simp_all
    have nt: "no_theory_reasons s"
      unfolding no_theory_reasons_def
    proof
      fix q assume q: "q \<in> set (trail s)"
      show "\<not> isTheoryCause s (reason s (var q))"
      proof (cases "q \<in> set (trail decided)")
        case True
        then have q0: "var q = 0" by (simp add: decided_ok)
        have "reason s (var q) = reason decided (var q)" using p(7) True unfolding bcp_hist_def by blast
        then have "reason s (var q) = CRef_Undef" by (simp add: q0 decided_ok)
        then show ?thesis by (simp add: isTheoryCause_def)
      next
        case n: False
        have "isClause (ca decided) (reason s (var q))" using p(7) n q by (simp add: bcp_hist_def)
        then show ?thesis using p(5) by (simp add: isTheoryCause_def isClause_def)
      qed
    qed
    have v0: "var (mkLit 0 b) = 0" for b by simp
    have "\<forall>q \<in> set (trail decided). level s (var q) = level decided (var q)" using p(7) unfolding bcp_hist_def by blast
    then have "level s (var (mkLit 0 True)) = level decided (var (mkLit 0 True))" by (simp add: decided_ok(6))
    then have lv: "level s 0 = 1" unfolding v0 decided_ok .
    have sn: "seen s = replicate (nVars s) False" using p(6,8) by (simp add: decided_ok numeral_2_eq_2)
    have cf: "confl \<in> db demo" "\<forall>l \<in> set (clits s confl). isF s l" using p(11) False by simp_all
    have x: "mkLit 0 False \<in> set (clits s confl)" using cf(1) c(1) st by auto
    have "0 < level s (var (mkLit 0 False))" using lv by (simp add: v0)
    then have "conflict_state (db demo) confl s"
      using p(2) lp nt sn cf x unfolding conflict_state_def by blast
    then show ?thesis using p(1) by blast
  qed
qed

theorem analyze_correct_witness:
  "\<exists>confl s out lev s'. propagate no_theories False decided = Some (confl, s) \<and>
     analyze no_theories confl s = Some (out, lev, s') \<and> out \<noteq> [] \<and> lev < decisionLevel s'"
proof -
  obtain confl s where d: "propagate no_theories False decided = Some (confl, s)" "conflict_state (db demo) confl s"
    using demo_conflict by blast
  show ?thesis using d(1) analyze_correct [OF d(2) no_theories_calm] by blast
qed

end
