(* ===== verification/MTL_Map.thy ===== *)
theory MTL_Map
  imports Prelude MTL_Vec
begin

text \<open>
  \<^verbatim>\<open>mtl/Map.h\<close>: the hash table with separate chaining.  A table is the list of its buckets, a null table is
  the empty list.  The hash function is a parameter; keys are compared with \<^verbatim>\<open>==\<close>.  \<open>None\<close> as the result of
  an operation is a violated precondition.
\<close>

record ('k, 'd) hmap =
  table :: "('k \<times> 'd) list list"
  hcap :: nat
  hsize :: nat

definition primes :: "nat list" where
  "primes = [31, 73, 151, 313, 643, 1291, 2593, 5233, 10501, 21013, 42073, 84181, 168451, 337219, 674701, 1349473,
     2699299, 5398891, 10798093, 21596719, 43193641, 86387383, 172775299, 345550609, 691101253]"

definition hmap_new :: "('k, 'd) hmap" where
  "hmap_new = \<lparr>table = [], hcap = 0, hsize = 0\<rparr>"

definition checkCap :: "nat \<Rightarrow> ('k, 'd) hmap \<Rightarrow> bool" where
  "checkCap n m \<longleftrightarrow> hcap m < n"

definition hash_index :: "('k \<Rightarrow> 32 word) \<Rightarrow> nat \<Rightarrow> 'k \<Rightarrow> nat" where
  "hash_index hash c k = unat (hash k) mod c"

definition hmap_put :: "('k \<Rightarrow> 32 word) \<Rightarrow> 'k \<Rightarrow> 'd \<Rightarrow> ('k, 'd) hmap \<Rightarrow> ('k, 'd) hmap" where
  "hmap_put hash k d m =
     (let i = hash_index hash (hcap m) k in m\<lparr>table := (table m)[i := table m ! i @ [(k, d)]]\<rparr>)"

text \<open>The first prime above the capacity, or the last one.\<close>

fun next_size :: "nat \<Rightarrow> nat \<Rightarrow> nat list \<Rightarrow> nat" where
  "next_size c n [] = n"
| "next_size c n (p # ps) = (if n \<le> c then next_size c p ps else n)"

fun put_all :: "('k \<Rightarrow> 32 word) \<Rightarrow> ('k \<times> 'd) list \<Rightarrow> ('k, 'd) hmap \<Rightarrow> ('k, 'd) hmap" where
  "put_all hash [] m = m"
| "put_all hash (p # ps) m = put_all hash ps (hmap_put hash (fst p) (snd p) m)"

definition rehash :: "('k \<Rightarrow> 32 word) \<Rightarrow> ('k, 'd) hmap \<Rightarrow> ('k, 'd) hmap" where
  "rehash hash m =
     (let n = next_size (hcap m) (hd primes) (tl primes)
      in put_all hash (concat (table m)) (m\<lparr>table := replicate n [], hcap := n\<rparr>))"

definition hmap_insert :: "('k \<Rightarrow> 32 word) \<Rightarrow> 'k \<Rightarrow> 'd \<Rightarrow> ('k, 'd) hmap \<Rightarrow> ('k, 'd) hmap" where
  "hmap_insert hash k d m =
     (let m1 = (if checkCap (hsize m + 1) m then rehash hash m else m); m2 = hmap_put hash k d m1
      in m2\<lparr>hsize := hsize m2 + 1\<rparr>)"

text \<open>\<^verbatim>\<open>operator []\<close> scans the whole bucket and keeps the last match; \<^verbatim>\<open>peek\<close> stops at the first one.\<close>

fun last_match :: "'k \<Rightarrow> ('k \<times> 'd) list \<Rightarrow> 'd option \<Rightarrow> 'd option" where
  "last_match k [] res = res"
| "last_match k (p # ps) res = last_match k ps (if fst p = k then Some (snd p) else res)"

definition hmap_at :: "('k \<Rightarrow> 32 word) \<Rightarrow> 'k \<Rightarrow> ('k, 'd) hmap \<Rightarrow> 'd option" where
  "hmap_at hash k m = (if hsize m = 0 then None else last_match k (table m ! hash_index hash (hcap m) k) None)"

definition hmap_peek :: "('k \<Rightarrow> 32 word) \<Rightarrow> 'k \<Rightarrow> ('k, 'd) hmap \<Rightarrow> 'd option" where
  "hmap_peek hash k m = (if hsize m = 0 then None else map_of (table m ! hash_index hash (hcap m) k) k)"

definition hmap_has :: "('k \<Rightarrow> 32 word) \<Rightarrow> 'k \<Rightarrow> ('k, 'd) hmap \<Rightarrow> bool" where
  "hmap_has hash k m \<longleftrightarrow> hsize m \<noteq> 0 \<and> (\<exists>p \<in> set (table m ! hash_index hash (hcap m) k). fst p = k)"

text \<open>The matching pair is overwritten with the last one of its bucket, which is popped.\<close>

fun key_pos :: "'k \<Rightarrow> ('k \<times> 'd) list \<Rightarrow> nat" where
  "key_pos k [] = 0"
| "key_pos k (p # ps) = (if fst p = k then 0 else Suc (key_pos k ps))"

definition hmap_remove :: "('k \<Rightarrow> 32 word) \<Rightarrow> 'k \<Rightarrow> ('k, 'd) hmap \<Rightarrow> ('k, 'd) hmap option" where
  "hmap_remove hash k m =
     (if table m = [] then None
      else let i = hash_index hash (hcap m) k; ps = table m ! i; j = key_pos k ps
      in if length ps \<le> j then None
         else Some (m\<lparr>table := (table m)[i := butlast (ps[j := last ps])], hsize := hsize m - 1\<rparr>))"

definition hmap_clear :: "('k, 'd) hmap \<Rightarrow> ('k, 'd) hmap" where
  "hmap_clear m = \<lparr>table = [], hcap = 0, hsize = 0\<rparr>"

definition hmap_elems :: "('k, 'd) hmap \<Rightarrow> nat" where "hmap_elems m = hsize m"
definition bucket_count :: "('k, 'd) hmap \<Rightarrow> nat" where "bucket_count m = hcap m"
definition bucket :: "nat \<Rightarrow> ('k, 'd) hmap \<Rightarrow> ('k \<times> 'd) list" where "bucket i m = table m ! i"

definition hmap_moveTo :: "('k, 'd) hmap \<Rightarrow> ('k, 'd) hmap \<Rightarrow> ('k, 'd) hmap \<times> ('k, 'd) hmap" where
  "hmap_moveTo m other = (hmap_clear m, m)"

section \<open>The table as a finite map\<close>

definition bucket_ok :: "('k \<Rightarrow> 32 word) \<Rightarrow> nat \<Rightarrow> nat \<Rightarrow> ('k \<times> 'd) list \<Rightarrow> bool" where
  "bucket_ok hash c i ps \<longleftrightarrow> distinct (map fst ps) \<and> (\<forall>p \<in> set ps. hash_index hash c (fst p) = i)"

definition buckets_ok :: "('k \<Rightarrow> 32 word) \<Rightarrow> ('k, 'd) hmap \<Rightarrow> bool" where
  "buckets_ok hash m \<longleftrightarrow> length (table m) = hcap m \<and> (\<forall>i < hcap m. bucket_ok hash (hcap m) i (table m ! i))"

definition total :: "('k, 'd) hmap \<Rightarrow> nat" where "total m = sum_list (map length (table m))"

definition hmap_wf :: "('k \<Rightarrow> 32 word) \<Rightarrow> ('k, 'd) hmap \<Rightarrow> bool" where
  "hmap_wf hash m \<longleftrightarrow> buckets_ok hash m \<and> hsize m = total m"

definition hmap_abs :: "('k \<Rightarrow> 32 word) \<Rightarrow> ('k, 'd) hmap \<Rightarrow> 'k \<Rightarrow> 'd option" where
  "hmap_abs hash m k = (if hcap m = 0 then None else map_of (table m ! hash_index hash (hcap m) k) k)"

lemma hash_index_less [simp]: "0 < c \<Longrightarrow> hash_index hash c k < c"
  by (simp add: hash_index_def)

lemma map_of_snoc: "k \<notin> fst ` set ps \<Longrightarrow> map_of (ps @ [(k, d)]) = (map_of ps)(k \<mapsto> d)"
  by (induction ps) auto

lemma map_upd_add:
  assumes "distinct (map fst (p # ps))"
  shows "m(fst p \<mapsto> snd p) ++ map_of ps = m ++ map_of (p # ps)"
proof -
  have n: "map_of ps (fst p) = None" using assms by (simp add: map_of_eq_None_iff)
  show ?thesis
  proof
    fix x
    show "(m(fst p \<mapsto> snd p) ++ map_of ps) x = (m ++ map_of (p # ps)) x"
      using n by (cases "x = fst p") (simp_all add: map_add_def split: option.split)
  qed
qed

lemma sum_length_update:
  "i < length xs \<Longrightarrow> sum_list (map length (xs[i := y])) + length (xs ! i) = sum_list (map length xs) + length y"
proof (induction xs arbitrary: i)
  case (Cons x xs)
  then show ?case by (cases i) (simp_all add: add.assoc add.commute)
qed simp

lemma hmap_put_spec:
  assumes wf: "buckets_ok hash m" and c: "0 < hcap m" and k: "hmap_abs hash m k = None"
  shows "buckets_ok hash (hmap_put hash k d m)" and "hcap (hmap_put hash k d m) = hcap m"
    and "hmap_abs hash (hmap_put hash k d m) = (hmap_abs hash m)(k \<mapsto> d)" and "hsize (hmap_put hash k d m) = hsize m"
    and "total (hmap_put hash k d m) = Suc (total m)"
proof -
  let ?i = "hash_index hash (hcap m) k"
  have i: "?i < hcap m" "?i < length (table m)" using wf c by (simp_all add: buckets_ok_def)
  have n: "k \<notin> fst ` set (table m ! ?i)" using k c by (simp add: hmap_abs_def map_of_eq_None_iff)
  show "hcap (hmap_put hash k d m) = hcap m" "hsize (hmap_put hash k d m) = hsize m" by (simp_all add: hmap_put_def Let_def)
  show "total (hmap_put hash k d m) = Suc (total m)"
    using sum_length_update [OF i(2), of "table m ! ?i @ [(k, d)]"] by (simp add: total_def hmap_put_def Let_def)
  have "bucket_ok hash (hcap m) j ((table m)[?i := table m ! ?i @ [(k, d)]] ! j)" if "j < hcap m" for j
    using wf that n i by (cases "j = ?i") (auto simp: buckets_ok_def bucket_ok_def)
  then show "buckets_ok hash (hmap_put hash k d m)" using wf by (simp add: buckets_ok_def hmap_put_def Let_def)
  show "hmap_abs hash (hmap_put hash k d m) = (hmap_abs hash m)(k \<mapsto> d)"
  proof
    fix x
    show "hmap_abs hash (hmap_put hash k d m) x = ((hmap_abs hash m)(k \<mapsto> d)) x"
      using i c map_of_snoc [OF n, of d]
      by (cases "hash_index hash (hcap m) x = ?i") (auto simp: hmap_abs_def hmap_put_def Let_def)
  qed
qed

lemma concat_buckets:
  assumes "\<forall>i < length xs. distinct (map fst (xs ! i)) \<and> (\<forall>p \<in> set (xs ! i). f (fst p) = n + i)"
  shows "distinct (map fst (concat xs)) \<and> (\<forall>p \<in> set (concat xs). n \<le> f (fst p)) \<and>
     (\<forall>k. map_of (concat xs) k = (if n \<le> f k \<and> f k < n + length xs then map_of (xs ! (f k - n)) k else None))"
  using assms
proof (induction xs arbitrary: n)
  case (Cons x xs)
  have x: "distinct (map fst x)" "\<forall>p \<in> set x. f (fst p) = n" using Cons.prems by force+
  have xs: "\<forall>i < length xs. distinct (map fst (xs ! i)) \<and> (\<forall>p \<in> set (xs ! i). f (fst p) = Suc n + i)"
    using Cons.prems by force
  note IH = Cons.IH [OF xs]
  have d: "fst ` set x \<inter> fst ` set (concat xs) = {}" using x(2) IH by fastforce
  have "map_of (concat (x # xs)) k =
      (if n \<le> f k \<and> f k < n + length (x # xs) then map_of ((x # xs) ! (f k - n)) k else None)" for k
  proof -
    have n: "map_of x k = None" if "f k \<noteq> n" using that x(2) by (auto simp: map_of_eq_None_iff)
    have r: "map_of (concat xs) k = (if Suc n \<le> f k \<and> f k < Suc n + length xs then map_of (xs ! (f k - Suc n)) k else None)"
      using IH by blast
    have "map_of (concat (x # xs)) k = (case map_of x k of None \<Rightarrow> map_of (concat xs) k | Some d \<Rightarrow> Some d)"
      by (simp add: map_add_def)
    then show ?thesis unfolding r using n by (cases "f k = n") (auto simp: nth_Cons' Suc_diff_Suc split: option.splits)
  qed
  then show ?case using IH x d by fastforce
qed auto

definition entries :: "('k, 'd) hmap \<Rightarrow> ('k \<times> 'd) list" where "entries m = concat (table m)"

lemma entries_abs:
  assumes wf: "buckets_ok hash m"
  shows "distinct (map fst (entries m))" and "map_of (entries m) = hmap_abs hash m" and "length (entries m) = total m"
proof -
  let ?f = "hash_index hash (hcap m)"
  have b: "\<forall>i < length (table m). distinct (map fst (table m ! i)) \<and> (\<forall>p \<in> set (table m ! i). ?f (fst p) = 0 + i)"
    and l: "length (table m) = hcap m" using wf by (auto simp: buckets_ok_def bucket_ok_def)
  note c = concat_buckets [where f = ?f, OF b]
  show "distinct (map fst (entries m))" using c by (simp add: entries_def)
  show "map_of (entries m) = hmap_abs hash m" 
  proof
    fix k
    have "map_of (concat (table m)) k = (if 0 \<le> ?f k \<and> ?f k < 0 + length (table m) then map_of (table m ! (?f k - 0)) k else None)"
      using c by blast
    then show "map_of (entries m) k = hmap_abs hash m k" using l by (simp add: entries_def hmap_abs_def)
  qed
  show "length (entries m) = total m" by (simp add: entries_def total_def length_concat)
qed

lemma put_all_spec:
  assumes "buckets_ok hash m" and "0 < hcap m" and "distinct (map fst ps)" and "\<forall>p \<in> set ps. hmap_abs hash m (fst p) = None"
  shows "buckets_ok hash (put_all hash ps m) \<and> hcap (put_all hash ps m) = hcap m \<and>
     hsize (put_all hash ps m) = hsize m \<and> total (put_all hash ps m) = total m + length ps \<and>
     hmap_abs hash (put_all hash ps m) = hmap_abs hash m ++ map_of ps"
  using assms
proof (induction ps arbitrary: m)
  case (Cons p ps)
  let ?m = "hmap_put hash (fst p) (snd p) m"
  have n: "hmap_abs hash m (fst p) = None" using Cons.prems(4) by simp
  note put = hmap_put_spec [OF Cons.prems(1,2) n, of "snd p"]
  have "0 < hcap ?m" "distinct (map fst ps)" "\<forall>q \<in> set ps. hmap_abs hash ?m (fst q) = None"
    using Cons.prems unfolding put(2,3) by (simp_all add: image_iff) fastforce
  note IH = Cons.IH [OF put(1) this]
  show ?case using IH unfolding put map_upd_add [OF Cons.prems(3)] put_all.simps by (simp del: map_of.simps)
qed simp

lemma next_size_pos: "0 < n \<Longrightarrow> \<forall>p \<in> set ps. 0 < p \<Longrightarrow> 0 < next_size c n ps"
  by (induction ps arbitrary: n) auto

lemma next_size_above: "(\<exists>p \<in> insert n (set ps). c < p) \<Longrightarrow> c < next_size c n ps"
  by (induction ps arbitrary: n) auto

text \<open>Rehashing keeps the map and ends above the old capacity unless the largest prime is reached.\<close>

lemma rehash_spec:
  assumes wf: "buckets_ok hash m"
  shows "buckets_ok hash (rehash hash m)" and "hmap_abs hash (rehash hash m) = hmap_abs hash m"
    and "total (rehash hash m) = total m" and "hsize (rehash hash m) = hsize m" and "0 < hcap (rehash hash m)"
    and "hcap m < 691101253 \<Longrightarrow> hcap m < hcap (rehash hash m)"
proof -
  let ?n = "next_size (hcap m) (hd primes) (tl primes)"
  let ?e = "m\<lparr>table := replicate ?n [], hcap := ?n\<rparr>"
  have n: "0 < ?n" by (rule next_size_pos) (simp_all add: primes_def)
  have e: "buckets_ok hash ?e" "total ?e = 0" "hmap_abs hash ?e = Map.empty"
    using n by (auto simp: buckets_ok_def bucket_ok_def total_def hmap_abs_def sum_list_replicate)
  note en = entries_abs [OF wf]
  have "0 < hcap ?e" "distinct (map fst (entries m))" "\<forall>p \<in> set (entries m). hmap_abs hash ?e (fst p) = None"
    using n en(1) e(3) by simp_all
  note pa = put_all_spec [OF e(1) this]
  have r: "rehash hash m = put_all hash (entries m) ?e" by (simp add: rehash_def entries_def Let_def)
  show "buckets_ok hash (rehash hash m)" "hmap_abs hash (rehash hash m) = hmap_abs hash m"
    "total (rehash hash m) = total m" "hsize (rehash hash m) = hsize m" "0 < hcap (rehash hash m)"
    using pa n e(2,3) en(2,3) unfolding r by simp_all
  show "hcap m < hcap (rehash hash m)" if "hcap m < 691101253"
    unfolding r using pa that by (auto simp: primes_def intro!: next_size_above)
qed

lemma hmap_insert_spec:
  assumes wf: "hmap_wf hash m" and k: "hmap_abs hash m k = None"
  shows "hmap_wf hash (hmap_insert hash k d m) \<and> hmap_abs hash (hmap_insert hash k d m) = (hmap_abs hash m)(k \<mapsto> d)"
    and "hsize (hmap_insert hash k d m) = Suc (hsize m)"
    and "hcap (hmap_insert hash k d m) = (if hcap m < Suc (hsize m) then hcap (rehash hash m) else hcap m)"
proof -
  define m1 where "m1 = (if checkCap (hsize m + 1) m then rehash hash m else m)"
  have bo: "buckets_ok hash m" and sz: "hsize m = total m" using wf by (simp_all add: hmap_wf_def)
  note rh = rehash_spec [OF bo]
  have m1: "buckets_ok hash m1" "hmap_abs hash m1 = hmap_abs hash m" "total m1 = total m" "hsize m1 = hsize m" "0 < hcap m1"
    using bo rh by (auto simp: m1_def checkCap_def)
  have k1: "hmap_abs hash m1 k = None" using k m1(2) by simp
  note put = hmap_put_spec [OF m1(1,5) k1, of d]
  have eq: "hmap_insert hash k d m = (hmap_put hash k d m1)\<lparr>hsize := Suc (hsize m)\<rparr>"
    unfolding hmap_insert_def Let_def m1_def [symmetric] put(4) m1(4) by simp
  have ab: "hmap_abs hash (x\<lparr>hsize := n\<rparr>) = hmap_abs hash x" "total (x\<lparr>hsize := n\<rparr>) = total x"
    "buckets_ok hash (x\<lparr>hsize := n\<rparr>) = buckets_ok hash x" for x n
    by (simp_all add: fun_eq_iff hmap_abs_def total_def buckets_ok_def)
  show "hmap_wf hash (hmap_insert hash k d m) \<and> hmap_abs hash (hmap_insert hash k d m) = (hmap_abs hash m)(k \<mapsto> d)"
    unfolding eq using put m1 sz by (simp add: hmap_wf_def ab)
  show "hsize (hmap_insert hash k d m) = Suc (hsize m)" by (simp add: eq)
  show "hcap (hmap_insert hash k d m) = (if hcap m < Suc (hsize m) then hcap (rehash hash m) else hcap m)"
    using put(2) by (simp add: eq m1_def checkCap_def)
qed

lemma empty_buckets:
  assumes "hmap_wf hash m" and "hsize m = 0"
  shows "hmap_abs hash m = Map.empty"
proof -
  have "map_of (entries m) = Map.empty" using entries_abs(3) [of hash m] assms by (simp add: hmap_wf_def)
  then show ?thesis using entries_abs(2) [of hash m] assms by (simp add: hmap_wf_def)
qed

lemma last_match_spec: "distinct (map fst ps) \<Longrightarrow> last_match k ps res = (case map_of ps k of None \<Rightarrow> res | r \<Rightarrow> r)"
proof (induction ps arbitrary: res)
  case (Cons p ps)
  have "map_of ps (fst p) = None" using Cons.prems by (simp add: map_of_eq_None_iff)
  then show ?case using Cons by (auto split: option.splits)
qed simp

lemma hmap_lookups:
  assumes wf: "hmap_wf hash m"
  shows "hmap_peek hash k m = hmap_abs hash m k" and "hmap_at hash k m = hmap_abs hash m k"
    and "hmap_has hash k m \<longleftrightarrow> hmap_abs hash m k \<noteq> None"
proof -
  let ?ps = "table m ! hash_index hash (hcap m) k"
  have c: "0 < hcap m" if "hsize m \<noteq> 0" using that wf by (cases "table m") (auto simp: hmap_wf_def buckets_ok_def total_def)
  then have d: "distinct (map fst ?ps)" if "hsize m \<noteq> 0" using that wf by (simp add: hmap_wf_def buckets_ok_def bucket_ok_def)
  have em: "hmap_abs hash m k = None" if "hsize m = 0" using empty_buckets [OF wf that] by simp
  show "hmap_peek hash k m = hmap_abs hash m k" using em c by (cases "hsize m = 0") (simp_all add: hmap_peek_def hmap_abs_def)
  show "hmap_at hash k m = hmap_abs hash m k"
    using em c last_match_spec [OF d] by (cases "hsize m = 0") (simp_all add: hmap_at_def hmap_abs_def split: option.splits)
  have "(\<exists>p \<in> set ?ps. fst p = k) \<longleftrightarrow> map_of ?ps k \<noteq> None" by (auto simp: map_of_eq_None_iff image_iff)
  then show "hmap_has hash k m \<longleftrightarrow> hmap_abs hash m k \<noteq> None" using em c by (cases "hsize m = 0") (simp_all add: hmap_has_def hmap_abs_def)
qed

lemma key_pos_less: "key_pos k ps < length ps \<longleftrightarrow> k \<in> fst ` set ps"
  by (induction ps) auto

lemma key_pos_nth: "k \<in> fst ` set ps \<Longrightarrow> fst (ps ! key_pos k ps) = k"
  by (induction ps) auto

lemma swap_last_mset: "j < length xs \<Longrightarrow> add_mset (xs ! j) (mset (butlast (xs[j := last xs]))) = mset xs"
  by (cases xs rule: rev_cases) (auto simp: list_update_append nth_append mset_update nth_mem)

lemma map_of_mset: "distinct (map fst xs) \<Longrightarrow> mset ys = mset xs \<Longrightarrow> map_of ys = map_of xs"
  by (metis map_of_eqI distinct_map mset_eq_imp_distinct_iff mset_map mset_eq_setD map_of_inject_set)

lemma hmap_remove_spec:
  assumes wf: "hmap_wf hash m"
  shows "hmap_abs hash m k = None \<Longrightarrow> hmap_remove hash k m = None"
    and "hmap_abs hash m k \<noteq> None \<Longrightarrow> \<exists>m'. hmap_remove hash k m = Some m' \<and> hmap_wf hash m' \<and>
           hmap_abs hash m' = (hmap_abs hash m)(k := None) \<and> hsize m' = hsize m - 1 \<and> hcap m' = hcap m"
proof -
  let ?i = "hash_index hash (hcap m) k"
  let ?ps = "table m ! ?i" and ?j = "key_pos k (table m ! ?i)"
  have bo: "buckets_ok hash m" and sz: "hsize m = total m" and l: "length (table m) = hcap m"
    using wf by (simp_all add: hmap_wf_def buckets_ok_def)
  have tb: "table m = [] \<longleftrightarrow> hcap m = 0" using l by auto
  show "hmap_remove hash k m = None" if "hmap_abs hash m k = None"
  proof (cases "hcap m = 0")
    case False
    then have "\<not> ?j < length ?ps" using that unfolding key_pos_less by (simp add: hmap_abs_def map_of_eq_None_iff)
    then show ?thesis by (simp add: hmap_remove_def Let_def)
  qed (simp add: hmap_remove_def tb)
  show "\<exists>m'. hmap_remove hash k m = Some m' \<and> hmap_wf hash m' \<and> hmap_abs hash m' = (hmap_abs hash m)(k := None) \<and>
      hsize m' = hsize m - 1 \<and> hcap m' = hcap m" if k: "hmap_abs hash m k \<noteq> None"
  proof -
    have c: "0 < hcap m" and km: "k \<in> fst ` set ?ps"
      using k by (force simp: hmap_abs_def split: if_splits dest: map_of_SomeD)+
    then have i: "?i < hcap m" "?i < length (table m)" using l by simp_all
    have j: "?j < length ?ps" unfolding key_pos_less by (rule km)
    let ?b = "butlast (?ps[?j := last ?ps])"
    let ?m = "m\<lparr>table := (table m)[?i := ?b], hsize := hsize m - 1\<rparr>"
    have bi: "bucket_ok hash (hcap m) ?i ?ps" using bo i by (simp add: buckets_ok_def)
    have dis: "distinct (map fst ?ps)" using bi by (simp add: bucket_ok_def)
    have ms: "add_mset (?ps ! ?j) (mset ?b) = mset ?ps" by (rule swap_last_mset [OF j])
    have perm: "mset (?ps ! ?j # ?b) = mset ?ps" using ms by simp
    have dis': "distinct (map fst (?ps ! ?j # ?b))" using dis perm by (metis mset_eq_imp_distinct_iff mset_map)
    have mo: "map_of ?ps = map_of (?ps ! ?j # ?b)" by (rule map_of_mset) (rule dis', rule perm [symmetric])
    have kj: "fst (?ps ! ?j) = k" by (rule key_pos_nth [OF km])
    have nk: "map_of ?b k = None" using dis' kj by (simp add: map_of_eq_None_iff)
    have b: "bucket_ok hash (hcap m) ?i ?b"
      using bi dis' perm mset_eq_setD [OF perm] by (auto simp: bucket_ok_def)
    have "bucket_ok hash (hcap m) x ((table m)[?i := ?b] ! x)" if "x < hcap m" for x
      using bo b that l by (cases "x = ?i") (auto simp: buckets_ok_def)
    then have "buckets_ok hash ?m" using l by (simp add: buckets_ok_def)
    moreover have "total ?m = hsize m - 1"
      using sum_length_update [OF i(2), of ?b] j sz by (simp add: total_def)
    moreover have "hmap_abs hash ?m = (hmap_abs hash m)(k := None)"
    proof
      fix x
      show "hmap_abs hash ?m x = ((hmap_abs hash m)(k := None)) x"
        using c i mo kj nk by (cases "hash_index hash (hcap m) x = ?i") (auto simp: hmap_abs_def)
    qed
    moreover have "hmap_remove hash k m = Some ?m" using j i(2) by (auto simp: hmap_remove_def Let_def)
    ultimately show ?thesis by (intro exI [of _ ?m]) (simp add: hmap_wf_def)
  qed
qed

section \<open>The interface\<close>

text \<open>What the clients of a map rely on.\<close>

locale finite_map =
  fixes wf :: "'m \<Rightarrow> bool" and lookup :: "'m \<Rightarrow> 'k \<Rightarrow> 'd option" and ins :: "'k \<Rightarrow> 'd \<Rightarrow> 'm \<Rightarrow> 'm"
    and del :: "'k \<Rightarrow> 'm \<Rightarrow> 'm option"
  assumes ins: "wf m \<Longrightarrow> lookup m k = None \<Longrightarrow> wf (ins k d m) \<and> lookup (ins k d m) = (lookup m)(k \<mapsto> d)"
    and del: "wf m \<Longrightarrow> lookup m k \<noteq> None \<Longrightarrow> \<exists>m'. del k m = Some m' \<and> wf m' \<and> lookup m' = (lookup m)(k := None)"
begin

lemma ins_list:
  assumes "wf m" and "distinct (map fst ps)" and "\<forall>p \<in> set ps. lookup m (fst p) = None"
  shows "wf (fold (\<lambda>p. ins (fst p) (snd p)) ps m) \<and>
     lookup (fold (\<lambda>p. ins (fst p) (snd p)) ps m) = lookup m ++ map_of ps"
  using assms
proof (induction ps arbitrary: m)
  case (Cons p ps)
  have i: "wf (ins (fst p) (snd p) m)" "lookup (ins (fst p) (snd p) m) = (lookup m)(fst p \<mapsto> snd p)"
    using ins Cons.prems by simp_all
  have "\<forall>q \<in> set ps. lookup (ins (fst p) (snd p) m) (fst q) = None"
    using Cons.prems unfolding i(2) by (simp_all add: image_iff) fastforce
  note IH = Cons.IH [OF i(1) _ this]
  have "distinct (map fst ps)" using Cons.prems(2) by simp
  then show ?case using IH unfolding i(2) map_upd_add [OF Cons.prems(2)] by (simp del: map_of.simps)
qed simp

lemma ins_del:
  assumes "wf m" and "lookup m k = None"
  shows "\<exists>m'. del k (ins k d m) = Some m' \<and> wf m' \<and> lookup m' = lookup m"
  using ins [OF assms, of d] del [of "ins k d m" k] assms(2) by (auto simp: fun_upd_idem)

end

interpretation hash_map: finite_map "hmap_wf hash" "hmap_abs hash" "hmap_insert hash" "hmap_remove hash" for hash
proof unfold_locales
  show "hmap_abs hash m k = None \<Longrightarrow> hmap_wf hash m \<Longrightarrow>
      hmap_wf hash (hmap_insert hash k d m) \<and> hmap_abs hash (hmap_insert hash k d m) = (hmap_abs hash m)(k \<mapsto> d)" for m k d
    by (rule hmap_insert_spec(1))
  show "\<exists>m'. hmap_remove hash k m = Some m' \<and> hmap_wf hash m' \<and> hmap_abs hash m' = (hmap_abs hash m)(k := None)"
    if "hmap_wf hash m" "hmap_abs hash m k \<noteq> None" for m k
    using hmap_remove_spec(2) [OF that] by blast
qed

lemma hmap_wf_new: "hmap_wf hash hmap_new" "hmap_abs hash hmap_new = Map.empty"
  by (auto simp: hmap_new_def hmap_wf_def buckets_ok_def total_def hmap_abs_def)

text \<open>C33: for every hash function the table is a finite map: inserting a new key, looking a key up in the three
  ways and removing one do what they do on the map, the element count is that of the buckets, removing an absent
  key is the failed assertion, and while the capacity is below the largest prime, 691101253, an insertion leaves at
  most as many elements as buckets, so that the load is at most one.\<close>

theorem hash_map_refines_map:
  assumes "hmap_wf hash m"
  shows "hmap_peek hash k m = hmap_abs hash m k \<and> hmap_at hash k m = hmap_abs hash m k \<and>
     (hmap_has hash k m \<longleftrightarrow> hmap_abs hash m k \<noteq> None) \<and> finite (dom (hmap_abs hash m)) \<and>
     card (dom (hmap_abs hash m)) = hmap_elems m \<and>
     (if hmap_abs hash m k = None
      then hmap_remove hash k m = None \<and> hmap_wf hash (hmap_insert hash k d m) \<and>
           hmap_abs hash (hmap_insert hash k d m) = (hmap_abs hash m)(k \<mapsto> d) \<and>
           (hcap m < 691101253 \<and> hsize m \<le> hcap m \<longrightarrow>
              hsize (hmap_insert hash k d m) \<le> hcap (hmap_insert hash k d m))
      else \<exists>m'. hmap_remove hash k m = Some m' \<and> hmap_wf hash m' \<and> hmap_abs hash m' = (hmap_abs hash m)(k := None))"
proof -
  have bo: "buckets_ok hash m" "hsize m = total m" using assms by (simp_all add: hmap_wf_def)
  note en = entries_abs [OF bo(1)]
  have "dom (hmap_abs hash m) = fst ` set (entries m)" unfolding en(2) [symmetric] by (rule dom_map_of_conv_image_fst)
  then have fin: "finite (dom (hmap_abs hash m))" "card (dom (hmap_abs hash m)) = hmap_elems m"
    using en(1,3) bo(2) distinct_card [of "map fst (entries m)"] by (simp_all add: hmap_elems_def)
  have "hsize (hmap_insert hash k d m) \<le> hcap (hmap_insert hash k d m)"
    if "hmap_abs hash m k = None" "hcap m < 691101253" "hsize m \<le> hcap m"
    using hmap_insert_spec [OF assms that(1), of d] rehash_spec(6) [OF bo(1) that(2)] that(3) by simp
  then show ?thesis
    using hmap_lookups [OF assms] fin hmap_remove_spec [OF assms, of k] hash_map.ins [OF assms] by auto
qed

theorem hash_map_refines_map_witness:
  "hmap_peek (\<lambda>k::int. word_of_int k) 5 (hmap_insert (\<lambda>k. word_of_int k) 5 True hmap_new) = Some True"
proof -
  let ?h = "(\<lambda>k::int. word_of_int k) :: int \<Rightarrow> 32 word"
  note r = hash_map_refines_map [OF hmap_wf_new(1) [of ?h], of 5 True]
  have i: "hmap_wf ?h (hmap_insert ?h 5 True hmap_new)"
    "hmap_abs ?h (hmap_insert ?h 5 True hmap_new) 5 = Some True" using r by (simp_all add: hmap_wf_new)
  show ?thesis using hmap_lookups(1) [OF i(1), of 5] i(2) by simp
qed

end
