(* ===== verification/MTL_Sets.thy ===== *)
theory MTL_Sets
  imports Prelude
begin

text \<open>
  \<^verbatim>\<open>mtl/IntMap.h\<close>, arrays and sets over keys with an index, and \<^verbatim>\<open>mtl/Bitset.h\<close>.  The index function of a key
  type is a parameter.  Reading outside an array, an assertion in the code, is \<open>None\<close>.
\<close>

section \<open>IntMap\<close>

definition grow_list :: "nat \<Rightarrow> 'a \<Rightarrow> 'a list \<Rightarrow> 'a list" where
  "grow_list n pad xs = xs @ replicate (n - length xs) pad"

definition imap_has :: "('k \<Rightarrow> nat) \<Rightarrow> 'k \<Rightarrow> 'v list \<Rightarrow> bool" where
  "imap_has idx k m \<longleftrightarrow> idx k < length m"

definition imap_at :: "('k \<Rightarrow> nat) \<Rightarrow> 'k \<Rightarrow> 'v list \<Rightarrow> 'v option" where
  "imap_at idx k m = (if imap_has idx k m then Some (m ! idx k) else None)"

definition imap_reserve :: "('k \<Rightarrow> nat) \<Rightarrow> 'k \<Rightarrow> 'v \<Rightarrow> 'v list \<Rightarrow> 'v list" where
  "imap_reserve idx k pad m = grow_list (idx k + 1) pad m"

definition imap_insert :: "('k \<Rightarrow> nat) \<Rightarrow> 'k \<Rightarrow> 'v \<Rightarrow> 'v \<Rightarrow> 'v list \<Rightarrow> 'v list" where
  "imap_insert idx k val pad m = (imap_reserve idx k pad m)[idx k := val]"

lemma length_grow_list [simp]: "length (grow_list n pad xs) = max n (length xs)"
  by (simp add: grow_list_def max_def)

lemma nth_grow_list: "i < max n (length xs) \<Longrightarrow> grow_list n pad xs ! i = (if i < length xs then xs ! i else pad)"
  by (auto simp: grow_list_def nth_append max_def split: if_splits)

lemma imap_at_insert:
  assumes "inj idx"
  shows "imap_at idx j (imap_insert idx k v pad m) =
     (if j = k then Some v else if imap_has idx j m then imap_at idx j m else if idx j < idx k then Some pad else None)"
  using injD [OF assms, of j k]
  by (auto simp: imap_at_def imap_insert_def imap_reserve_def imap_has_def nth_grow_list nth_list_update_any)

section \<open>IntSet\<close>

record 'k intset =
  in_set :: "bool list"
  iset :: "'k list"

definition iset_empty :: "'k intset" where "iset_empty = \<lparr>in_set = [], iset = []\<rparr>"
definition iset_size :: "'k intset \<Rightarrow> nat" where "iset_size s = length (iset s)"

fun unset_all :: "('k \<Rightarrow> nat) \<Rightarrow> 'k list \<Rightarrow> bool list \<Rightarrow> bool list" where
  "unset_all idx [] b = b"
| "unset_all idx (k # ks) b = unset_all idx ks (b[idx k := False])"

definition iset_clear :: "('k \<Rightarrow> nat) \<Rightarrow> bool \<Rightarrow> 'k intset \<Rightarrow> 'k intset" where
  "iset_clear idx dealloc s =
     (if dealloc then \<lparr>in_set = [], iset = []\<rparr> else \<lparr>in_set = unset_all idx (iset s) (in_set s), iset = []\<rparr>)"

definition iset_nth :: "nat \<Rightarrow> 'k intset \<Rightarrow> 'k" where "iset_nth i s = iset s ! i"

definition iset_insert :: "('k \<Rightarrow> nat) \<Rightarrow> 'k \<Rightarrow> 'k intset \<Rightarrow> 'k intset" where
  "iset_insert idx k s =
     (let b = imap_reserve idx k False (in_set s)
      in if b ! idx k then s\<lparr>in_set := b\<rparr> else \<lparr>in_set = b[idx k := True], iset = iset s @ [k]\<rparr>)"

fun iset_insertAll :: "('k \<Rightarrow> nat) \<Rightarrow> 'k list \<Rightarrow> 'k intset \<Rightarrow> 'k intset" where
  "iset_insertAll idx [] s = s"
| "iset_insertAll idx (k # ks) s = iset_insertAll idx ks (iset_insert idx k s)"

text \<open>The membership test extends the array.\<close>

definition iset_has :: "('k \<Rightarrow> nat) \<Rightarrow> 'k \<Rightarrow> 'k intset \<Rightarrow> bool \<times> 'k intset" where
  "iset_has idx k s = (let b = imap_reserve idx k False (in_set s) in (b ! idx k, s\<lparr>in_set := b\<rparr>))"

definition iset_wf :: "('k \<Rightarrow> nat) \<Rightarrow> 'k intset \<Rightarrow> bool" where
  "iset_wf idx s \<longleftrightarrow>
     distinct (iset s) \<and> (\<forall>k \<in> set (iset s). idx k < length (in_set s)) \<and>
     (\<forall>i < length (in_set s). in_set s ! i \<longleftrightarrow> (\<exists>k \<in> set (iset s). idx k = i))"

lemma iset_wf_empty [simp]: "iset_wf idx iset_empty" "iset iset_empty = []"
  by (simp_all add: iset_wf_def iset_empty_def)

lemma iset_reserve_nth:
  assumes "inj_on idx (insert k (set (iset s)))" and "iset_wf idx s"
  shows "imap_reserve idx k False (in_set s) ! idx k \<longleftrightarrow> k \<in> set (iset s)"
proof -
  have "k' = k" if "k' \<in> set (iset s)" "idx k' = idx k" for k' using inj_onD [OF assms(1) that(2)] that(1) by simp
  then show ?thesis using assms(2) by (auto simp: iset_wf_def imap_reserve_def nth_grow_list)
qed

lemma iset_wf_reserve:
  assumes "iset_wf idx s"
  shows "iset_wf idx (s\<lparr>in_set := imap_reserve idx k False (in_set s)\<rparr>)"
  using assms by (fastforce simp: iset_wf_def imap_reserve_def nth_grow_list less_max_iff_disj)

lemma iset_insert_spec:
  assumes i: "inj_on idx (insert k (set (iset s)))" and wf: "iset_wf idx s"
  shows "iset_wf idx (iset_insert idx k s)" and "iset (iset_insert idx k s) = (if k \<in> set (iset s) then iset s else iset s @ [k])"
proof -
  let ?b = "imap_reserve idx k False (in_set s)"
  note n = iset_reserve_nth [OF i wf]
  show e: "iset (iset_insert idx k s) = (if k \<in> set (iset s) then iset s else iset s @ [k])"
    by (simp add: iset_insert_def Let_def n)
  show "iset_wf idx (iset_insert idx k s)"
  proof (cases "k \<in> set (iset s)")
    case True
    then show ?thesis using iset_wf_reserve [OF wf, of k] n by (simp add: iset_insert_def Let_def)
  next
    case False
    have r: "iset_wf idx (s\<lparr>in_set := ?b\<rparr>)" by (rule iset_wf_reserve [OF wf])
    have "idx k < length ?b" by (simp add: imap_reserve_def)
    then show ?thesis
      using r False n by (auto simp: iset_insert_def Let_def iset_wf_def nth_list_update_any)
  qed
qed

lemma nth_unset: "j < length b \<Longrightarrow> unset_all idx ks b ! j \<longleftrightarrow> b ! j \<and> (\<forall>k \<in> set ks. idx k \<noteq> j)"
proof (induction ks arbitrary: b)
  case (Cons k ks)
  then show ?case by (cases "idx k = j") (auto simp: nth_list_update_any)
qed simp

lemma length_unset [simp]: "length (unset_all idx ks b) = length b"
  by (induction ks arbitrary: b) auto

lemma iset_clear_spec: "iset_wf idx s \<Longrightarrow> iset_wf idx (iset_clear idx dealloc s) \<and> iset (iset_clear idx dealloc s) = []"
  by (auto simp: iset_clear_def iset_wf_def nth_unset)

text \<open>Inserting a list keeps the order of the first occurrences.\<close>

fun add_new :: "'k list \<Rightarrow> 'k list \<Rightarrow> 'k list" where
  "add_new xs [] = xs"
| "add_new xs (k # ks) = add_new (if k \<in> set xs then xs else xs @ [k]) ks"

lemma set_add_new: "set (add_new xs ks) = set xs \<union> set ks"
  by (induction ks arbitrary: xs) auto

lemma iset_insertAll_spec:
  assumes "inj_on idx (set (iset s) \<union> set ks)" and "iset_wf idx s"
  shows "iset_wf idx (iset_insertAll idx ks s) \<and> iset (iset_insertAll idx ks s) = add_new (iset s) ks"
  using assms
proof (induction ks arbitrary: s)
  case (Cons k ks)
  have i: "inj_on idx (insert k (set (iset s)))" by (rule inj_on_subset [OF Cons.prems(1)]) auto
  note n = iset_insert_spec [OF i Cons.prems(2)]
  have "inj_on idx (set (iset (iset_insert idx k s)) \<union> set ks)"
    by (rule inj_on_subset [OF Cons.prems(1)]) (auto simp: n(2))
  then show ?case using n Cons.IH by simp
qed simp

text \<open>C37: an index set is a set in order of insertion without repetitions: filling a cleared set with a list
  leaves exactly the members of that list, if no two of them have the same index, and the membership test answers whether a key is one of them.\<close>

theorem intset_holds_members:
  assumes "inj_on idx (insert k (set ks))" and "iset_wf idx s"
  shows "iset_wf idx (iset_insertAll idx ks (iset_clear idx dealloc s)) \<and>
     set (iset (iset_insertAll idx ks (iset_clear idx dealloc s))) = set ks \<and>
     distinct (iset (iset_insertAll idx ks (iset_clear idx dealloc s))) \<and>
     fst (iset_has idx k (iset_insertAll idx ks (iset_clear idx dealloc s))) = (k \<in> set ks) \<and>
     iset (snd (iset_has idx k s)) = iset s \<and> iset_wf idx (snd (iset_has idx k s))"
proof -
  let ?s = "iset_insertAll idx ks (iset_clear idx dealloc s)"
  note c = iset_clear_spec [OF assms(2), of dealloc]
  have i: "inj_on idx (set ks)" by (rule inj_on_subset [OF assms(1)]) auto
  have s: "iset_wf idx ?s" "set (iset ?s) = set ks"
    using iset_insertAll_spec [of idx "iset_clear idx dealloc s" ks] c i by (simp_all add: set_add_new)
  then show ?thesis
    using iset_reserve_nth [of idx k ?s] assms(1) iset_wf_reserve [OF assms(2), of k]
    by (simp add: iset_has_def Let_def iset_wf_def)
qed

theorem intset_holds_members_witness:
  "set (iset (iset_insertAll id [3, 1, 3] (iset_clear id False iset_empty))) = {1, 3 :: nat}"
  using intset_holds_members [of id 1 "[3, 1, 3]" iset_empty] by auto

section \<open>Bitset\<close>

text \<open>\<^verbatim>\<open>BITSET_ELEMENT_SIZE\<close> is the number of bytes of a 64-bit word: eight bits of every word are used.\<close>

record bitset =
  bbuf :: "64 word list"
  bsz :: nat

definition element_size :: nat where "element_size = 8"

definition bit_grow :: "nat \<Rightarrow> bitset \<Rightarrow> bitset" where
  "bit_grow n b = \<lparr>bbuf = grow_list (n div element_size + 1) 0 (bbuf b), bsz = n\<rparr>"

definition bit_fill :: "bool \<Rightarrow> bitset \<Rightarrow> bitset" where
  "bit_fill v b = b\<lparr>bbuf := replicate (length (bbuf b)) (if v then - 1 else 0)\<rparr>"

definition bit_new :: "nat \<Rightarrow> bool \<Rightarrow> bitset" where
  "bit_new n v = (let b = bit_grow n \<lparr>bbuf = [], bsz = 0\<rparr> in if v then bit_fill True b else b)"

definition bit_clear :: bitset where "bit_clear = \<lparr>bbuf = [], bsz = 0\<rparr>"
definition bit_invert :: "bitset \<Rightarrow> bitset" where "bit_invert b = b\<lparr>bbuf := map NOT (bbuf b)\<rparr>"

definition popcount :: "64 word \<Rightarrow> nat" where
  "popcount i0 =
     (let i = i0 - (drop_bit 1 i0 AND 0x5555555555555555);
          j = (i AND 0x3333333333333333) + (drop_bit 2 i AND 0x3333333333333333)
      in unat (drop_bit 56 (((j + drop_bit 4 j) AND 0xF0F0F0F0F0F0F0F) * 0x101010101010101)))"

definition bit_count :: "bitset \<Rightarrow> nat" where "bit_count b = sum_list (map popcount (bbuf b))"

definition single :: "nat \<Rightarrow> 64 word" where "single r = push_bit r 1"

definition bit_get :: "nat \<Rightarrow> bitset \<Rightarrow> bool" where
  "bit_get i b \<longleftrightarrow> bbuf b ! (i div element_size) AND single (i mod element_size) \<noteq> 0"

definition bit_word :: "(64 word \<Rightarrow> 64 word \<Rightarrow> 64 word) \<Rightarrow> nat \<Rightarrow> bitset \<Rightarrow> bitset" where
  "bit_word f i b =
     b\<lparr>bbuf := (bbuf b)[i div element_size := f (bbuf b ! (i div element_size)) (single (i mod element_size))]\<rparr>"

definition bit_set :: "nat \<Rightarrow> bitset \<Rightarrow> bitset" where "bit_set = bit_word (OR)"
definition bit_unset :: "nat \<Rightarrow> bitset \<Rightarrow> bitset" where "bit_unset = bit_word (\<lambda>w m. w AND NOT m)"
definition bit_toggle :: "nat \<Rightarrow> bitset \<Rightarrow> bitset" where "bit_toggle = bit_word (XOR)"

definition bit_equals :: "bitset \<Rightarrow> bitset \<Rightarrow> bool" where
  "bit_equals b c \<longleftrightarrow> bsz c = bsz b \<and> take (bsz b div element_size + 1) (bbuf c) = take (bsz b div element_size + 1) (bbuf b)"

definition common :: "bitset \<Rightarrow> bitset \<Rightarrow> nat" where
  "common b c = min (bsz b) (bsz c) div element_size + 1"

definition bit_contains :: "bitset \<Rightarrow> bitset \<Rightarrow> bool" where
  "bit_contains b c \<longleftrightarrow> (\<forall>i < common b c. bbuf c ! i AND NOT (bbuf b ! i) = 0)"

definition bit_Not :: "bitset \<Rightarrow> bitset" where
  "bit_Not b = (bit_grow (bsz b) bit_clear)\<lparr>bbuf := map NOT (bbuf b), bsz := bsz b\<rparr>"

definition merge_words :: "(64 word \<Rightarrow> 64 word \<Rightarrow> 64 word) \<Rightarrow> nat \<Rightarrow> 64 word list \<Rightarrow> 64 word list \<Rightarrow> 64 word list" where
  "merge_words f n xs ys = map2 f (take n xs) (take n ys) @ drop n xs"

definition bit_And :: "bitset \<Rightarrow> bitset \<Rightarrow> bitset" where
  "bit_And b c = b\<lparr>bbuf := merge_words (AND) (common b c) (bbuf b) (bbuf c)\<rparr>"

definition bit_Or :: "bitset \<Rightarrow> bitset \<Rightarrow> bitset" where
  "bit_Or b c = b\<lparr>bbuf := merge_words (OR) (common b c) (bbuf b) (bbuf c)\<rparr>"

fun greater_words :: "64 word list \<Rightarrow> 64 word list \<Rightarrow> bool" where
  "greater_words (x # xs) (y # ys) = (if x < y then False else if y < x then True else greater_words xs ys)"
| "greater_words _ _ = False"

definition bit_GreaterThan :: "bitset \<Rightarrow> bitset \<Rightarrow> bool" where
  "bit_GreaterThan b c \<longleftrightarrow>
     bsz b = bsz c \<and> bsz b \<noteq> 0 \<and>
     greater_words (rev (take (bsz b div element_size + 1) (bbuf b))) (rev (take (bsz b div element_size + 1) (bbuf c)))"

text \<open>A clean bit set has no bits outside its size: neither the upper 56 bits of a word nor positions that it
  once had.  Its members are the positions whose bit is set.\<close>

definition members :: "bitset \<Rightarrow> nat set" where
  "members b = {i. i < bsz b \<and> bit (bbuf b ! (i div 8)) (i mod 8)}"

definition clean :: "bitset \<Rightarrow> bool" where
  "clean b \<longleftrightarrow> length (bbuf b) = bsz b div 8 + 1 \<and>
     (\<forall>w < length (bbuf b). \<forall>j. bit (bbuf b ! w) j \<longrightarrow> j < 8 \<and> w * 8 + j < bsz b)"

lemma clean_len: "clean b \<Longrightarrow> length (bbuf b) = bsz b div 8 + 1"
  by (simp only: clean_def)

lemma word_idx: "(i :: nat) div 8 < n div 8 + 1" if "i < n"
  using that by (metis Suc_eq_plus1 div_le_mono less_Suc_eq_le less_imp_le)

lemma bit_single [simp]: "bit (single r) j \<longleftrightarrow> j = r \<and> r < 64"
  unfolding single_def bit_push_bit_iff bit_1_iff by (auto simp: not_le)

lemma and_single: "r < 64 \<Longrightarrow> w AND single r = 0 \<longleftrightarrow> \<not> bit w r"
proof
  assume "r < 64" and z: "w AND single r = 0"
  have "\<not> bit (w AND single r) r" unfolding z by simp
  then show "\<not> bit w r" using \<open>r < 64\<close> by (simp add: bit_and_iff)
qed (auto intro!: bit_eqI simp: bit_and_iff)

lemma mod8_less: "(i :: nat) mod 8 < 64"
  by (rule less_trans [of _ 8]) simp_all

lemma bit_get_iff: "bit_get i b \<longleftrightarrow> bit (bbuf b ! (i div 8)) (i mod 8)"
  by (simp add: bit_get_def element_size_def and_single mod8_less)

lemma members_get: "i < bsz b \<Longrightarrow> bit_get i b \<longleftrightarrow> i \<in> members b"
  by (simp add: members_def bit_get_iff)

text \<open>Two clean sets of one size agree when their members do: the words are determined by the members.\<close>

lemma clean_bit:
  assumes "clean b" and "w < length (bbuf b)"
  shows "bit (bbuf b ! w) j \<longleftrightarrow> j < 8 \<and> w * 8 + j \<in> members b"
proof
  assume b: "bit (bbuf b ! w) j"
  then have j: "j < 8" "w * 8 + j < bsz b" using assms by (auto simp: clean_def)
  moreover have "(w * 8 + j) div 8 = w" "(w * 8 + j) mod 8 = j" using j(1) by simp_all
  ultimately show "j < 8 \<and> w * 8 + j \<in> members b" using b unfolding members_def by simp
next
  assume j: "j < 8 \<and> w * 8 + j \<in> members b"
  then have e: "(w * 8 + j) div 8 = w" "(w * 8 + j) mod 8 = j" by simp_all
  have "bit (bbuf b ! ((w * 8 + j) div 8)) ((w * 8 + j) mod 8)" using j unfolding members_def by blast
  then show "bit (bbuf b ! w) j" unfolding e .
qed

lemma cleanI:
  assumes "length (bbuf b) = bsz b div 8 + 1" and "M \<subseteq> {..<bsz b}"
    and bits: "\<And>w j. w < length (bbuf b) \<Longrightarrow> bit (bbuf b ! w) j \<longleftrightarrow> j < 8 \<and> w * 8 + j \<in> M"
  shows "clean b \<and> members b = M"
proof
  show "clean b" using assms by (auto simp: clean_def)
  have "i \<in> members b \<longleftrightarrow> i \<in> M" for i
    using bits [of "i div 8" "i mod 8"] word_idx [of i "bsz b"] assms(1,2) by (auto simp: members_def)
  then show "members b = M" by blast
qed

lemma bit_word_spec:
  assumes c: "clean b" and i: "i < bsz b"
    and f: "\<And>w m j. bit (f w m) j \<longleftrightarrow> j < 64 \<and> g (bit w j) (bit m j)" and g: "\<And>x. g x False = x"
  shows "clean (bit_word f i b) \<and> members (bit_word f i b) = {k. k < bsz b \<and> g (k \<in> members b) (k = i)}"
proof (rule cleanI)
  show "length (bbuf (bit_word f i b)) = bsz (bit_word f i b) div 8 + 1" using c by (simp add: bit_word_def clean_def)
  show "{k. k < bsz b \<and> g (k \<in> members b) (k = i)} \<subseteq> {..<bsz (bit_word f i b)}" by (auto simp: bit_word_def)
  fix w j assume "w < length (bbuf (bit_word f i b))"
  then have w: "w < length (bbuf b)" by (simp add: bit_word_def)
  note cb = clean_bit [OF c w, of j]
  have mb: "w * 8 + j \<in> members b \<Longrightarrow> w * 8 + j < bsz b" by (simp add: members_def)
  have at: "bbuf (bit_word f i b) ! w = (if w = i div 8 then f (bbuf b ! w) (single (i mod 8)) else bbuf b ! w)"
    using w by (simp add: bit_word_def element_size_def)
  show "bit (bbuf (bit_word f i b) ! w) j \<longleftrightarrow> j < 8 \<and> w * 8 + j \<in> {k. k < bsz b \<and> g (k \<in> members b) (k = i)}"
  proof (cases "w = i div 8 \<and> j = i mod 8")
    case True
    then have e: "w * 8 + j = i" by simp
    have "j < 8" using True by simp
    have "bit (bbuf (bit_word f i b) ! w) j \<longleftrightarrow> g (bit (bbuf b ! w) j) True"
      using True mod8_less [of i] f [of "bbuf b ! w" "single (i mod 8)" j] at by simp
    then show ?thesis using cb i \<open>j < 8\<close> unfolding e by simp
  next
    case False
    have "w * 8 + j \<noteq> i" if "j < 8" using False that by auto
    moreover have "bit (bbuf (bit_word f i b) ! w) j \<longleftrightarrow> bit (bbuf b ! w) j"
    proof (cases "w = i div 8")
      case True
      then have "j \<noteq> i mod 8" using False by simp
      then have "bit (bbuf (bit_word f i b) ! w) j \<longleftrightarrow> j < 64 \<and> bit (bbuf b ! w) j" using True g at f [of "bbuf b ! w" "single (i mod 8)" j] by simp
      then show ?thesis using cb by auto
    qed (simp add: at)
    ultimately show ?thesis using cb mb g [of "w * 8 + j \<in> members b"] by (cases "j < 8") auto
  qed
qed

lemma merge_nth:
  assumes "n \<le> length xs" and "n \<le> length ys" and "w < length xs"
  shows "merge_words f n xs ys ! w = (if w < n then f (xs ! w) (ys ! w) else xs ! w)"
  using assms by (simp add: merge_words_def nth_append)

lemma merge_spec:
  assumes b: "clean b" and c: "clean c" and sz: "bsz b = bsz c"
    and f: "\<And>x y j. bit (f x y) j \<longleftrightarrow> g (bit x j) (bit y j)" and g: "g False False = False"
  shows "clean (b\<lparr>bbuf := merge_words f (common b c) (bbuf b) (bbuf c)\<rparr>) \<and>
     members (b\<lparr>bbuf := merge_words f (common b c) (bbuf b) (bbuf c)\<rparr>) = {i. g (i \<in> members b) (i \<in> members c)}"
proof (rule cleanI)
  let ?b = "b\<lparr>bbuf := merge_words f (common b c) (bbuf b) (bbuf c)\<rparr>"
  have n: "common b c = length (bbuf b)" "length (bbuf c) = length (bbuf b)" unfolding common_def element_size_def clean_len [OF b] clean_len [OF c] sz by simp_all
  have l: "length (bbuf ?b) = length (bbuf b)" using n by (simp add: merge_words_def)
  then show "length (bbuf ?b) = bsz ?b div 8 + 1" using b by (simp add: clean_def)
  show "{i. g (i \<in> members b) (i \<in> members c)} \<subseteq> {..<bsz ?b}"
  proof
    fix i assume "i \<in> {i. g (i \<in> members b) (i \<in> members c)}"
    then have "i \<in> members b \<or> i \<in> members c" using g by (cases "i \<in> members b"; cases "i \<in> members c") simp_all
    then show "i \<in> {..<bsz ?b}" using sz by (auto simp: members_def)
  qed
  fix w j assume "w < length (bbuf ?b)"
  then have w: "w < length (bbuf b)" "w < length (bbuf c)" using l n by simp_all
  have "bbuf ?b ! w = f (bbuf b ! w) (bbuf c ! w)" using w n by (simp add: merge_nth)
  then show "bit (bbuf ?b ! w) j \<longleftrightarrow> j < 8 \<and> w * 8 + j \<in> {i. g (i \<in> members b) (i \<in> members c)}"
    using f [of "bbuf b ! w" "bbuf c ! w" j] clean_bit [OF b w(1), of j] clean_bit [OF c w(2), of j] g
    by (cases "j < 8") simp_all
qed

lemma clean_eqI:
  assumes b: "clean b" and c: "clean c" and sz: "bsz b = bsz c"
  shows "bit_equals b c \<longleftrightarrow> members b = members c"
proof -
  have l: "length (bbuf b) = bsz b div 8 + 1" "length (bbuf c) = bsz b div 8 + 1" unfolding clean_len [OF b] clean_len [OF c] sz by simp_all
  have "bit_equals b c \<longleftrightarrow> bbuf c = bbuf b" using l sz by (simp add: bit_equals_def element_size_def)
  also have "\<dots> \<longleftrightarrow> members b = members c"
  proof
    assume "members b = members c"
    then have "bit (bbuf b ! w) j = bit (bbuf c ! w) j" if "w < length (bbuf b)" for w j
      using clean_bit [OF b that] clean_bit [OF c] that l by simp
    then have "bbuf b ! w = bbuf c ! w" if "w < length (bbuf b)" for w using that by (intro bit_eqI) blast
    then show "bbuf c = bbuf b" using l by (intro nth_equalityI) simp_all
  next
    assume "bbuf c = bbuf b"
    then show "members b = members c" unfolding members_def sz by simp
  qed
  finally show ?thesis .
qed

lemma and_not_zero: "x AND NOT y = (0 :: 64 word) \<longleftrightarrow> (\<forall>j. bit x j \<longrightarrow> bit y j)"
proof
  assume z: "x AND NOT y = 0"
  show "\<forall>j. bit x j \<longrightarrow> bit y j"
  proof (intro allI impI)
    fix j assume x: "bit x j"
    then have "j < 64" using bit_imp_le_length [of x j] by simp
    moreover have "\<not> bit (x AND NOT y) j" unfolding z by simp
    ultimately show "bit y j" using x by (simp add: bit_and_iff bit_not_iff)
  qed
next
  assume "\<forall>j. bit x j \<longrightarrow> bit y j"
  then show "x AND NOT y = 0" by (intro bit_eqI) (simp add: bit_and_iff bit_not_iff)
qed

lemma contains_spec:
  assumes b: "clean b" and c: "clean c" and sz: "bsz b = bsz c"
  shows "bit_contains b c \<longleftrightarrow> members c \<subseteq> members b"
proof -
  have l: "length (bbuf b) = common b c" "length (bbuf c) = common b c"
    unfolding common_def element_size_def clean_len [OF b] clean_len [OF c] sz by simp_all
  have "bit_contains b c \<longleftrightarrow> (\<forall>w < common b c. \<forall>j. bit (bbuf c ! w) j \<longrightarrow> bit (bbuf b ! w) j)"
    unfolding bit_contains_def and_not_zero ..
  also have "\<dots> \<longleftrightarrow> (\<forall>w < common b c. \<forall>j < 8. w * 8 + j \<in> members c \<longrightarrow> w * 8 + j \<in> members b)"
    using clean_bit [OF b] clean_bit [OF c] l by (metis (no_types))
  also have "\<dots> \<longleftrightarrow> members c \<subseteq> members b"
  proof
    assume a: "\<forall>w < common b c. \<forall>j < 8. w * 8 + j \<in> members c \<longrightarrow> w * 8 + j \<in> members b"
    show "members c \<subseteq> members b"
    proof
      fix i assume i: "i \<in> members c"
      then have "i < bsz c" by (simp add: members_def)
      then have "i div 8 < common b c" using word_idx sz by (simp add: common_def element_size_def)
      then show "i \<in> members b" using a i by (metis mod_less_divisor zero_less_numeral div_mult_mod_eq)
    qed
  qed blast
  finally show ?thesis .
qed

lemma grow_clean: "clean (bit_new n False)" "members (bit_new n False) = {}"
  by (auto simp: bit_new_def bit_grow_def clean_def members_def element_size_def nth_grow_list word_idx Let_def)

text \<open>C36: on bit sets without stray bits every operation is the set operation on the members: reading, setting,
  clearing and flipping a position, and for two sets of one size union, intersection, equality and inclusion;
  a new bit set is clean and empty.\<close>

theorem bitset_refines_set:
  assumes "clean b" and "clean c" and "bsz c = bsz b" and "i < bsz b"
  shows "(bit_get i b \<longleftrightarrow> i \<in> members b) \<and>
     clean (bit_set i b) \<and> members (bit_set i b) = insert i (members b) \<and>
     clean (bit_unset i b) \<and> members (bit_unset i b) = members b - {i} \<and>
     clean (bit_toggle i b) \<and> members (bit_toggle i b) = (if i \<in> members b then members b - {i} else insert i (members b)) \<and>
     clean (bit_And b c) \<and> members (bit_And b c) = members b \<inter> members c \<and>
     clean (bit_Or b c) \<and> members (bit_Or b c) = members b \<union> members c \<and>
     (bit_equals b c \<longleftrightarrow> members b = members c) \<and> (bit_contains b c \<longleftrightarrow> members c \<subseteq> members b) \<and>
     clean (bit_new (bsz b) False) \<and> members (bit_new (bsz b) False) = {}"
proof -
  have sub: "members b \<subseteq> {..<bsz b}" by (auto simp: members_def)
  have wb: "bit (w :: 64 word) j \<Longrightarrow> j < 64" for w j using bit_imp_le_length [of w j] by simp
  note bw = bit_word_spec [OF assms(1,4)] and mg = merge_spec [OF assms(1,2) assms(3) [symmetric]]
  have "clean (bit_set i b) \<and> members (bit_set i b) = insert i (members b)"
    using bw [of "(OR)" "(\<or>)"] sub assms(4) wb by (auto simp: bit_set_def bit_or_iff)
  moreover have "clean (bit_unset i b) \<and> members (bit_unset i b) = members b - {i}"
    using bw [of "\<lambda>w m. w AND NOT m" "\<lambda>x y. x \<and> \<not> y"] sub wb by (auto simp: bit_unset_def bit_and_iff bit_not_iff)
  moreover have "clean (bit_toggle i b) \<and>
      members (bit_toggle i b) = (if i \<in> members b then members b - {i} else insert i (members b))"
    using bw [of "(XOR)" "\<lambda>x y. x \<noteq> y"] sub assms(4) wb by (auto simp: bit_toggle_def bit_xor_iff)
  moreover have "clean (bit_And b c) \<and> members (bit_And b c) = members b \<inter> members c"
    using mg [of "(AND)" "(\<and>)"] by (auto simp: bit_And_def bit_and_iff)
  moreover have "clean (bit_Or b c) \<and> members (bit_Or b c) = members b \<union> members c"
    using mg [of "(OR)" "(\<or>)"] by (auto simp: bit_Or_def bit_or_iff)
  ultimately show ?thesis
    using members_get [OF assms(4)] clean_eqI [OF assms(1,2) assms(3) [symmetric]]
      contains_spec [OF assms(1,2) assms(3) [symmetric]] grow_clean by simp
qed

theorem bitset_refines_set_witness:
  "members (bit_set 9 (bit_new 20 False)) = {9}"
  using bitset_refines_set [OF grow_clean(1) [of 20] grow_clean(1) [of 20], of 9]
  by (simp add: grow_clean) (simp add: bit_new_def bit_grow_def)

text \<open>The word count of \<^verbatim>\<open>count\<close> includes the bits that are not positions: a set constructed full has more than
  its size.\<close>

lemma count_after_fill: "bit_count (bit_new 8 True) = 128"
proof -
  have "bbuf (bit_new 8 True) = [- 1, - 1]"
    by (simp add: bit_new_def bit_grow_def bit_fill_def element_size_def grow_list_def numeral_2_eq_2 Let_def)
  moreover have "popcount (- 1) = 64" by code_simp
  ultimately show ?thesis by (simp add: bit_count_def)
qed

end
