(* ===== verification/Luby.thy ===== *)
theory Luby
  imports Complex_Main Prelude
begin

text \<open>
  The restart sequence of \<^verbatim>\<open>core/Solver.cc\<close>: \<^verbatim>\<open>luby(y, x)\<close> is \<open>y\<close> to the power of the position of \<open>x\<close> in the
  Luby sequence 1 1 2 1 1 2 4 1 1 2 1 1 2 4 8 ...
\<close>

function luby_grow :: "nat \<Rightarrow> nat \<Rightarrow> nat \<Rightarrow> nat \<times> nat" where
  "luby_grow x size1 sq = (if size1 < x + 1 then luby_grow x (2 * size1 + 1) (sq + 1) else (size1, sq))"
  by pat_completeness auto
termination by (relation "measure (\<lambda>(x, n, sq). x + 1 - n)") auto

text \<open>\<^verbatim>\<open>while (size - 1 != x)\<close>; it may divide by a size of zero, and then does not return.\<close>

partial_function (option) luby_shrink :: "nat \<Rightarrow> nat \<Rightarrow> nat \<Rightarrow> nat option" where
  "luby_shrink x size1 sq =
     (if size1 - 1 \<noteq> x
      then let n = (size1 - 1) div 2 in if n = 0 then None else luby_shrink (x mod n) n (sq - 1)
      else Some sq)"

definition luby :: "real \<Rightarrow> nat \<Rightarrow> real option" where
  "luby y x = (case luby_grow x 1 0 of (n, sq) \<Rightarrow> map_option (\<lambda>k. y ^ k) (luby_shrink x n sq))"

declare luby_grow.simps [simp del]

text \<open>The finite subsequences of the comment in the code, as exponents.\<close>

fun luby_list :: "nat \<Rightarrow> nat list" where
  "luby_list 0 = [0]"
| "luby_list (Suc k) = luby_list k @ luby_list k @ [Suc k]"

lemma length_luby_list [simp]: "length (luby_list k) = 2 ^ Suc k - 1"
proof (induction k)
  case (Suc k)
  have "(1 :: nat) \<le> 2 ^ Suc k" by simp
  then show ?case using Suc by simp
qed simp

lemma luby_list_stable: "x < 2 ^ Suc k - 1 \<Longrightarrow> luby_list (k + d) ! x = luby_list k ! x"
proof (induction d)
  case (Suc d)
  have "(2 :: nat) ^ Suc k \<le> 2 ^ Suc (k + d)" by (rule power_increasing) simp_all
  then have "x < length (luby_list (k + d))" unfolding length_luby_list using Suc.prems by linarith
  then show ?case using Suc by (simp add: nth_append)
qed simp

lemma pow_pos: "(1 :: nat) \<le> 2 ^ k"
  by simp

lemma luby_shrink_spec: "x < 2 ^ Suc k - 1 \<Longrightarrow> luby_shrink x (2 ^ Suc k - 1) k = Some (luby_list k ! x)"
proof (induction k arbitrary: x)
  case 0
  then show ?case by (subst luby_shrink.simps) simp
next
  case (Suc k)
  define n where "n = (2 ^ Suc k - 1 :: nat)"
  have len: "length (luby_list k) = n" unfolding n_def by (rule length_luby_list)
  obtain m where m: "(2 :: nat) ^ k = Suc m" using pow_pos [of k] by (cases "(2 :: nat) ^ k") simp_all
  have n: "0 < n" "(2 * n + 1 - 1) div 2 = n" "(2 :: nat) ^ Suc (Suc k) - 1 = 2 * n + 1"
    unfolding n_def by (simp_all add: m)
  have x2: "x < 2 * n + 1" using Suc.prems unfolding n(3) .
  show ?case unfolding n(3)
  proof (cases "x = 2 * n")
    case True
    have "luby_list (Suc k) ! x = Suc k" unfolding luby_list.simps True by (simp add: nth_append len del: length_luby_list)
    then show "luby_shrink x (2 * n + 1) (Suc k) = Some (luby_list (Suc k) ! x)"
      using True by (subst luby_shrink.simps) (simp del: luby_list.simps)
  next
    case False
    then have x: "x < 2 * n" using x2 by simp
    have "luby_list (Suc k) ! x = luby_list k ! (x mod n)"
    proof (cases "x < n")
      case True
      then show ?thesis by (simp add: nth_append len del: length_luby_list)
    next
      case False
      then have "x mod n = x - n" using x by (simp add: mod_if le_mod_geq)
      moreover have "x - n < n" using x by linarith
      ultimately show ?thesis using False by (simp add: nth_append len del: length_luby_list)
    qed
    moreover have "luby_shrink (x mod n) n k = Some (luby_list k ! (x mod n))"
      unfolding n_def by (rule Suc.IH) (use n(1) in \<open>simp add: n_def\<close>)
    ultimately show "luby_shrink x (2 * n + 1) (Suc k) = Some (luby_list (Suc k) ! x)"
      using False n(1) by (subst luby_shrink.simps) (simp add: Let_def del: luby_list.simps)
  qed
qed

lemma luby_grow_spec:
  "\<exists>k. luby_grow x (2 ^ Suc j - 1) j = (2 ^ Suc k - 1, k) \<and> x < 2 ^ Suc k - 1 \<and> (j < k \<longrightarrow> 2 ^ k - 1 \<le> x)"
proof (induction "x + 1 - (2 ^ Suc j - 1)" arbitrary: j rule: less_induct)
  case less
  show ?case
  proof (cases "2 ^ Suc j - 1 < x + 1")
    case True
    have p: "(1 :: nat) < 2 ^ Suc j" by (metis one_less_power one_less_numeral_iff semiring_norm(76) zero_less_Suc)
    have s: "2 * (2 ^ Suc j - 1) + 1 = (2 :: nat) ^ Suc (Suc j) - 1" using p by (simp add: diff_mult_distrib2)
    have "x + 1 - (2 ^ Suc (Suc j) - 1) < x + 1 - (2 ^ Suc j - 1)" using True p by simp
    from less.hyps [OF this] obtain k where k: "luby_grow x (2 ^ Suc (Suc j) - 1) (Suc j) = (2 ^ Suc k - 1, k)"
      "x < 2 ^ Suc k - 1" "Suc j < k \<longrightarrow> 2 ^ k - 1 \<le> x" by blast
    have "luby_grow x (2 ^ Suc j - 1) j = (2 ^ Suc k - 1, k)"
      using True k(1) s by (subst luby_grow.simps) (simp del: power_Suc)
    moreover have "2 ^ k - 1 \<le> x" if "j < k"
      using that k(3) True by (cases "k = Suc j") auto
    ultimately show ?thesis using k(2) by blast
  next
    case False
    then show ?thesis by (intro exI [of _ j]) (subst luby_grow.simps, simp)
  qed
qed

text \<open>C34: \<^verbatim>\<open>luby\<close> computes the Luby sequence: at every index of the \<open>k\<close>-th finite subsequence of the comment in the
  code it is \<open>y\<close> to the exponent listed there.  It always returns, never divides by zero, and the sizes it computes
  stay below \<open>2 x + 2\<close>, so 32-bit integers are enough for every index below \<open>2^30\<close>.\<close>

theorem luby_sequence:
  assumes "x < 2 ^ Suc k - 1"
  shows "luby y x = Some (y ^ (luby_list k ! x)) \<and> fst (luby_grow x 1 0) \<le> 2 * x + 1"
proof -
  from luby_grow_spec [of x 0] obtain j where j: "luby_grow x 1 0 = (2 ^ Suc j - 1, j)" "x < 2 ^ Suc j - 1"
    "0 < j \<longrightarrow> 2 ^ j - 1 \<le> x" by auto
  have "luby_list j ! x = luby_list k ! x"
  proof (cases "j \<le> k")
    case True
    then show ?thesis using luby_list_stable [OF j(2), of "k - j"] by simp
  next
    case False
    then show ?thesis using luby_list_stable [OF assms, of "j - k"] by simp
  qed
  moreover have "2 ^ Suc j - 1 \<le> 2 * x + 1"
  proof (cases "j = 0")
    case False
    then have "2 ^ j - 1 \<le> x" using j(3) by simp
    then show ?thesis using pow_pos [of j] by simp
  qed simp
  ultimately show ?thesis using j(1) luby_shrink_spec [OF j(2)] by (simp add: luby_def)
qed

theorem luby_sequence_witness: "luby 2 14 = Some 8 \<and> luby 2 6 = Some 4"
  using luby_sequence [of 14 3 2] luby_sequence [of 6 3 2] by (simp add: eval_nat_numeral)

end
