(* ===== verification/Solver_GC.thy ===== *)
theory Solver_GC
  imports Solver_Analyze
begin

text \<open>
  Cleaning up in \<^verbatim>\<open>core/Solver.cc\<close>: \<^verbatim>\<open>relocAll\<close> and \<^verbatim>\<open>garbageCollect\<close>, which move the live clauses to a new
  region, \<^verbatim>\<open>reduceDB\<close>, which drops learnt clauses, and \<^verbatim>\<open>simplify\<close>, which drops satisfied clauses and released
  variables.  Running out of memory during a collection is \<open>None\<close>.
\<close>

section \<open>Garbage collection\<close>

text \<open>One reference; the state is the old and the new allocator.\<close>

definition reloc_ref :: "CRef \<Rightarrow> allocator \<times> allocator \<Rightarrow> (CRef \<times> allocator \<times> allocator) option" where
  "reloc_ref cr m = (case ca_reloc cr (fst m) (snd m) of Some (Inr r) \<Rightarrow> Some r | _ \<Rightarrow> None)"

fun reloc_refs :: "CRef list \<Rightarrow> allocator \<times> allocator \<Rightarrow> (CRef list \<times> allocator \<times> allocator) option" where
  "reloc_refs [] m = Some ([], m)"
| "reloc_refs (cr # crs) m =
     do {
       r \<leftarrow> reloc_ref cr m;
       rs \<leftarrow> reloc_refs crs (snd r);
       Some (fst r # fst rs, snd rs)
     }"

fun reloc_watchers :: "watcher list \<Rightarrow> allocator \<times> allocator \<Rightarrow> (watcher list \<times> allocator \<times> allocator) option" where
  "reloc_watchers [] m = Some ([], m)"
| "reloc_watchers (w # ws) m =
     do {
       r \<leftarrow> reloc_ref (cref w) m;
       rs \<leftarrow> reloc_watchers ws (snd r);
       Some (w\<lparr>cref := fst r\<rparr> # fst rs, snd rs)
     }"

text \<open>The lists of the literals, in the order of the two loops over variables and signs.\<close>

fun reloc_lists ::
  "Lit list \<Rightarrow> watcher list list \<Rightarrow> allocator \<times> allocator \<Rightarrow> (watcher list list \<times> allocator \<times> allocator) option" where
  "reloc_lists [] os m = Some (os, m)"
| "reloc_lists (p # ps) os m =
     do {
       r \<leftarrow> reloc_watchers (os ! lix p) m;
       reloc_lists ps (os[lix p := fst r]) (snd r)
     }"

text \<open>A reason is moved when it was moved already or its clause is locked; the test reads the old region.\<close>

fun reloc_reasons :: "Lit list \<Rightarrow> 'h solver \<Rightarrow> allocator \<Rightarrow> ('h solver \<times> allocator) option" where
  "reloc_reasons [] s t = Some (s, t)"
| "reloc_reasons (p # ps) s t =
     (let v = var p; r = reason s v
      in if isClause (ca s) r \<and> (reloced (clause_at s r) \<or> locked s r)
         then do {
           m \<leftarrow> reloc_ref r (ca s, t);
           reloc_reasons ps
             (s\<lparr>ca := fst (snd m), vardata := (vardata s)[vix v := (vardata s ! vix v)\<lparr>vreason := fst m\<rparr>]\<rparr>) (snd (snd m))
         }
         else reloc_reasons ps s t)"

definition all_lits :: "nat \<Rightarrow> Lit list" where
  "all_lits n = concat (map (\<lambda>v. [mkLit (int v) False, mkLit (int v) True]) [0 ..< n])"

definition drop_tmp_clause :: "'h solver \<Rightarrow> 'h solver" where
  "drop_tmp_clause s =
     (if tmp_clause s = CRef_Undef then s
      else s\<lparr>ca := ca_free (tmp_clause s) (ca_modify (tmp_clause s) (set_mark 1) (ca s)), tmp_clause := CRef_Undef\<rparr>)"

definition relocAll :: "'h solver \<Rightarrow> allocator \<Rightarrow> ('h solver \<times> allocator) option" where
  "relocAll s t =
     do {
       let s1 = watches_cleanAll (drop_tmp_clause s);
       (os, m1) \<leftarrow> reloc_lists (all_lits (nVars s1)) (occs (watches s1)) (ca s1, t);
       let s2 = s1\<lparr>watches := (watches s1)\<lparr>occs := os\<rparr>, ca := fst m1\<rparr>;
       (s3, t3) \<leftarrow> reloc_reasons (trail s2) s2 (snd m1);
       (ls, m4) \<leftarrow> reloc_refs (learnts s3) (ca s3, t3);
       (cs, m5) \<leftarrow> reloc_refs (clauses s3) m4;
       Some (s3\<lparr>learnts := ls, clauses := cs, ca := fst m5\<rparr>, snd m5)
     }"

definition garbageCollect :: "'h solver \<Rightarrow> 'h solver option" where
  "garbageCollect s =
     (case ca_new (rsz (region_of (ca s)) - rwasted (region_of (ca s))) (rmem (region_of (ca s))) of
        Some (Inr t) \<Rightarrow> map_option (\<lambda>r. (fst r)\<lparr>ca := ca_moveTo (snd r) (ca (fst r))\<rparr>) (relocAll s t)
      | _ \<Rightarrow> None)"

definition checkGarbage_above :: "real \<Rightarrow> 'h solver \<Rightarrow> 'h solver option" where
  "checkGarbage_above gf s =
     (if real (unat (rsz (region_of (ca s)))) * gf < real (unat (rwasted (region_of (ca s))))
      then garbageCollect s else Some s)"

definition checkGarbage :: "'h solver \<Rightarrow> 'h solver option" where
  "checkGarbage s = checkGarbage_above (garbage_frac (opts s)) s"

section \<open>Reducing the learnt clauses\<close>

text \<open>\<open>n\<close> is the number of learnt clauses and \<open>i\<close> the position of the first one in the list argument.\<close>

fun reduce_loop :: "real \<Rightarrow> nat \<Rightarrow> nat \<Rightarrow> CRef list \<Rightarrow> 'h solver \<Rightarrow> CRef list \<times> 'h solver" where
  "reduce_loop extra_lim n i [] s = ([], s)"
| "reduce_loop extra_lim n i (cr # crs) s =
     (if 2 < clause_size (clause_at s cr) \<and> \<not> locked s cr \<and> (i < n div 2 \<or> act (clause_at s cr) < extra_lim)
      then reduce_loop extra_lim n (Suc i) crs
             (removeClause cr (s\<lparr>stats := (stats s)\<lparr>stats_removed_clauses := stats_removed_clauses (stats s) + 1\<rparr>\<rparr>))
      else case reduce_loop extra_lim n (Suc i) crs s of (kept, s') \<Rightarrow> (cr # kept, s'))"

definition reduceDB :: "'h solver \<Rightarrow> 'h solver option" where
  "reduceDB s =
     do {
       let extra_lim = cla_inc s / real (length (learnts s));
       sorted \<leftarrow> sort_array (reduceDB_lt s) (learnts s);
       let r = reduce_loop extra_lim (length sorted) 0 sorted s;
       checkGarbage ((snd r)\<lparr>learnts := fst r\<rparr>)
     }"

section \<open>Simplification at the root\<close>

definition removeSatisfied_learnts :: "'h solver \<Rightarrow> 'h solver" where
  "removeSatisfied_learnts s = (case remove_satisfied_loop (learnts s) s of (kept, s') \<Rightarrow> s'\<lparr>learnts := kept\<rparr>)"

definition removeSatisfied_clauses :: "'h solver \<Rightarrow> 'h solver" where
  "removeSatisfied_clauses s = (case remove_satisfied_loop (clauses s) s of (kept, s') \<Rightarrow> s'\<lparr>clauses := kept\<rparr>)"

definition mark_vars :: "bool \<Rightarrow> Var list \<Rightarrow> bool list \<Rightarrow> bool list" where
  "mark_vars b vs sn = foldl (\<lambda>sn v. sn[vix v := b]) sn vs"

text \<open>Released variables leave the trail and can be used again.\<close>

definition recycle_vars :: "'h solver \<Rightarrow> 'h solver" where
  "recycle_vars s =
     (let s1 = s\<lparr>seen := mark_vars True (released_vars s) (seen s)\<rparr>;
          s2 = s1\<lparr>trail := filter (\<lambda>p. \<not> is_seen s1 (var p)) (trail s1)\<rparr>;
          s3 = s2\<lparr>qhead := length (trail s2), seen := mark_vars False (released_vars s2) (seen s2)\<rparr>
      in s3\<lparr>free_vars := free_vars s3 @ released_vars s3, released_vars := []\<rparr>)"

text \<open>The part of \<^verbatim>\<open>simplify\<close> before the detection of pure literals: whether the function returns here, the
  result, and the state.\<close>

definition simplify_clauses :: "'h theory_ops \<Rightarrow> 'h solver \<Rightarrow> (bool \<times> bool \<times> 'h solver) option" where
  "simplify_clauses T s =
     do {
       (confl, s1) \<leftarrow> (if ok s then propagate T True s else Some (CRef_Undef, s));
       if \<not> ok s \<or> confl \<noteq> CRef_Undef \<or> \<not> ok s1 then Some (True, False, s1\<lparr>ok := False\<rparr>)
       else if int (nAssigns s1) = simpDB_assigns s1 \<or> 0 < simpDB_props s1 then Some (True, True, s1)
       else do {
         let s2 = removeSatisfied_learnts s1;
         let s3 = (if remove_satisfied (opts s2) then recycle_vars (removeSatisfied_clauses s2) else s2);
         s4 \<leftarrow> checkGarbage s3;
         s5 \<leftarrow> rebuildOrderHeap s4;
         Some (False, True, s5\<lparr>simpDB_assigns := int (nAssigns s5),
                               simpDB_props := clauses_literals (stats s5) + learnts_literals (stats s5)\<rparr>)
       }
     }"

end
