(* ===== verification/GC_Correct.thy ===== *)
theory GC_Correct
  imports Solver_GC Solver_AddClause
begin

text \<open>
  Garbage collection.  Relocating every clause of the database, wherever it is referred to, gives the same
  problem in a new region: there is an injective renaming of the references under which all clauses keep their
  literals, and the invariants of the solver hold for the renamed references.
\<close>

section \<open>The region and its clauses\<close>

definition cells :: "clause \<Rightarrow> nat" where
  "cells c = clauseWord32Size (clause_size c) (has_extra c)"

text \<open>The clauses of the database can be read, are neither deleted nor relocated, and fit into the region
  together with what was freed.\<close>

definition clause_fine :: "clause \<Rightarrow> bool" where
  "clause_fine c \<longleftrightarrow> \<not> reloced c \<and> cmark c \<noteq> 1 \<and> length (lits c) < 2 ^ 26 \<and> (learnt c \<longrightarrow> has_extra c)"

definition arena_ok :: "CRef set \<Rightarrow> allocator \<Rightarrow> bool" where
  "arena_ok A a \<longleftrightarrow>
     allocator_wf a \<and> rsz (region_of a) \<le> marker_refs a \<and> finite A \<and>
     (\<forall>cr \<in> A. \<exists>c. mem a cr = Some c \<and> clause_fine c) \<and>
     unat (rwasted (region_of a)) + (\<Sum>cr \<in> A. cells (ca_get a cr)) \<le> unat (rsz (region_of a)) \<and>
     unat (rsz (region_of a)) < 2643056797"

lemma arena_okD:
  assumes "arena_ok A a"
  shows "allocator_wf a" and "rsz (region_of a) \<le> marker_refs a" and "finite A"
    and "cr \<in> A \<Longrightarrow> mem a cr = Some (ca_get a cr)" and "cr \<in> A \<Longrightarrow> clause_fine (ca_get a cr)"
    and "unat (rwasted (region_of a)) + (\<Sum>cr \<in> A. cells (ca_get a cr)) \<le> unat (rsz (region_of a))"
    and "unat (rsz (region_of a)) < 2643056797"
  using assms by (auto simp: arena_ok_def ca_get_def)

section \<open>Relocating references\<close>

definition copy_of :: "clause \<Rightarrow> clause \<Rightarrow> bool" where
  "copy_of c d \<longleftrightarrow> lits d = lits c \<and> learnt d = learnt c \<and> cmark d = cmark c \<and> derived d = derived c \<and>
     (learnt c \<longrightarrow> act d = act c) \<and> \<not> reloced d \<and> has_extra d = learnt c"

text \<open>\<open>f\<close> is the renaming so far; \<open>m\<close> is the old allocator with forwarding references and \<open>t\<close> the new one.\<close>

definition moved :: "CRef set \<Rightarrow> allocator \<Rightarrow> (CRef \<Rightarrow> CRef option) \<Rightarrow> allocator \<Rightarrow> allocator \<Rightarrow> bool" where
  "moved A a f m t \<longleftrightarrow>
     dom f \<subseteq> A \<and> inj_on f (dom f) \<and> marker_refs m = marker_refs a \<and> region_of m = region_of a \<and>
     extra_clause_field m = extra_clause_field a \<and>
     (\<forall>cr. mem m cr = (case f cr of None \<Rightarrow> mem a cr | Some r \<Rightarrow> map_option (relocate r) (mem a cr))) \<and>
     allocator_wf t \<and> \<not> extra_clause_field t \<and> rwasted (region_of t) = 0 \<and>
     unat (rsz (region_of t)) = (\<Sum>cr \<in> dom f. cells (ca_get t (the (f cr)))) \<and>
     (\<forall>cr r. f cr = Some r \<longrightarrow> (\<exists>d. mem t r = Some d \<and> copy_of (ca_get a cr) d))"

lemma movedD:
  assumes "moved A a f m t"
  shows "dom f \<subseteq> A" and "inj_on f (dom f)" and "marker_refs m = marker_refs a"
    and "f cr = None \<Longrightarrow> mem m cr = mem a cr" and "f cr = Some r \<Longrightarrow> mem m cr = map_option (relocate r) (mem a cr)"
    and "allocator_wf t" and "\<not> extra_clause_field t" and "rwasted (region_of t) = 0"
    and "unat (rsz (region_of t)) = (\<Sum>cr \<in> dom f. cells (ca_get t (the (f cr))))"
    and "f cr = Some r \<Longrightarrow> mem t r = Some (ca_get t r) \<and> copy_of (ca_get a cr) (ca_get t r)"
proof -
  show "dom f \<subseteq> A" "inj_on f (dom f)" "marker_refs m = marker_refs a" "allocator_wf t" "\<not> extra_clause_field t"
    "rwasted (region_of t) = 0" "unat (rsz (region_of t)) = (\<Sum>cr \<in> dom f. cells (ca_get t (the (f cr))))"
    using assms unfolding moved_def by blast+
  have m: "mem m cr = (case f cr of None \<Rightarrow> mem a cr | Some r \<Rightarrow> map_option (relocate r) (mem a cr))"
    using assms unfolding moved_def by blast
  show "f cr = None \<Longrightarrow> mem m cr = mem a cr" "f cr = Some r \<Longrightarrow> mem m cr = map_option (relocate r) (mem a cr)"
    using m by simp_all
  assume "f cr = Some r"
  then obtain d where "mem t r = Some d" "copy_of (ca_get a cr) d" using assms unfolding moved_def by blast
  then show "mem t r = Some (ca_get t r) \<and> copy_of (ca_get a cr) (ca_get t r)" by (simp add: ca_get_def)
qed

lemma cells_copy: "copy_of c d \<Longrightarrow> clause_fine c \<Longrightarrow> cells d \<le> cells c"
  by (auto simp: copy_of_def clause_fine_def cells_def clause_size_def clauseWord32Size_eq)

lemma moved_room:
  assumes a: "arena_ok A a" and mv: "moved A a f m t" and cr: "cr \<in> A" "f cr = None"
  shows "unat (rsz (region_of t)) + length (lits (ca_get a cr)) + 2 \<le> 2643056797"
proof -
  note ad = arena_okD [OF a] and md = movedD [OF mv]
  have fin: "finite (dom f)" using finite_subset [OF md(1) ad(3)] .
  have "unat (rsz (region_of t)) \<le> (\<Sum>cr \<in> dom f. cells (ca_get a cr))"
    unfolding md(9)
  proof (rule sum_mono)
    fix x assume x: "x \<in> dom f"
    then obtain r where r: "f x = Some r" by blast
    show "cells (ca_get t (the (f x))) \<le> cells (ca_get a x)"
      using md(10) [OF r] cells_copy ad(5) [of x] md(1) x r by auto
  qed
  also have "\<dots> + cells (ca_get a cr) = (\<Sum>x \<in> insert cr (dom f). cells (ca_get a x))"
    using fin cr(2) by (subst sum.insert) (auto simp: add.commute)
  also have "\<dots> \<le> (\<Sum>x \<in> A. cells (ca_get a x))" by (rule sum_mono2) (use ad(3) md(1) cr in auto)
  finally have "unat (rsz (region_of t)) + cells (ca_get a cr) \<le> (\<Sum>x \<in> A. cells (ca_get a x))" by simp
  moreover have "1 + length (lits (ca_get a cr)) \<le> cells (ca_get a cr)"
    by (simp add: cells_def clause_size_def clauseWord32Size_eq)
  ultimately show ?thesis using ad(6,7) by linarith
qed

lemma reloc_ref_spec:
  assumes a: "arena_ok A a" and mv: "moved A a f m t" and cr: "cr \<in> A" "isClause a cr" "lits (ca_get a cr) \<noteq> []"
  shows "\<exists>r m' t' f'. reloc_ref cr (m, t) = Some (r, m', t') \<and> moved A a f' m' t' \<and> f \<subseteq>\<^sub>m f' \<and> f' cr = Some r \<and>
     dom f' = insert cr (dom f)"
proof (cases "f cr")
  case (Some r)
  note md = movedD [OF mv] and ad = arena_okD [OF a]
  have mm: "mem m cr = Some (relocate r (ca_get a cr))" using md(5) [OF Some] ad(4) [OF cr(1)] by simp
  have "reloced (relocate r (ca_get a cr))" "relocation (relocate r (ca_get a cr)) = r"
    using relocation_relocate [of "ca_get a cr" r] cr(3) by (simp_all add: relocate_def)
  moreover have "\<not> marker_refs a \<le> cr" using cr(2) by (simp add: isClause_def)
  ultimately have "reloc_ref cr (m, t) = Some (r, m, t)"
    using mm by (simp add: reloc_ref_def ca_reloc_def md(3) ca_get_def Let_def)
  then show ?thesis using mv Some by (intro exI [of _ r] exI [of _ m] exI [of _ t] exI [of _ f]) auto
next
  case None
  note md = movedD [OF mv] and ad = arena_okD [OF a]
  let ?c = "ca_get a cr"
  have mc: "mem m cr = Some ?c" using md(4) [OF None] ad(4) [OF cr(1)] by simp
  have fine: "\<not> reloced ?c" "length (lits ?c) < 2 ^ 26" "cmark ?c \<noteq> 1" using ad(5) [OF cr(1)] by (simp_all add: clause_fine_def)
  have cm: "isClause m cr" using cr(2) by (simp add: isClause_def md(3))
  from ca_reloc_ok [OF md(6) cm mc fine(1) cr(3) fine(2) moved_room [OF a mv cr(1) None]] obtain r m' t' d where r:
    "ca_reloc cr m t = Some (Inr (r, m', t'))" "r = rsz (region_of t)" "m' = ca_modify cr (relocate r) m"
    "extra_clause_field t' = extra_clause_field t" "rwasted (region_of t') = rwasted (region_of t)"
    "unat (rsz (region_of t')) = unat (rsz (region_of t)) + clauseWord32Size (length (lits ?c)) (has_extra d)"
    "has_extra d = (learnt ?c \<or> extra_clause_field t)" "\<not> reloced d" "mem t r = None" "mem t' = (mem t)(r \<mapsto> d)"
    "allocator_wf t'" "lits d = lits ?c" "learnt d = learnt ?c" "cmark d = cmark ?c" "derived d = derived ?c"
    "learnt ?c \<longrightarrow> act d = act ?c" by blast
  let ?f = "f(cr \<mapsto> r)"
  have fresh: "f x \<noteq> Some r" for x using md(10) [of x r] r(9) by auto
  have cp: "copy_of ?c d" using r(7,8,12-16) md(7) by (simp add: copy_of_def)
  have old: "ca_get t' y = ca_get t y" if "y \<noteq> r" for y using that r(10) by (simp add: ca_get_def)
  have fin: "finite (dom f)" using finite_subset [OF md(1) ad(3)] .
  have "(\<Sum>x \<in> dom ?f. cells (ca_get t' (the (?f x)))) = cells (ca_get t' r) + (\<Sum>x \<in> dom f. cells (ca_get t' (the (?f x))))"
  proof -
    have "dom ?f = insert cr (dom f)" by simp
    moreover have "cr \<notin> dom f" using None by blast
    ultimately show ?thesis using fin by (simp only: sum.insert) simp
  qed
  also have "(\<Sum>x \<in> dom f. cells (ca_get t' (the (?f x)))) = (\<Sum>x \<in> dom f. cells (ca_get t (the (f x))))"
  proof (rule sum.cong [OF refl])
    fix x assume "x \<in> dom f"
    then obtain y where y: "f x = Some y" by blast
    moreover have "x \<noteq> cr" using None y by auto
    moreover have "y \<noteq> r" using fresh y by blast
    ultimately show "cells (ca_get t' (the (?f x))) = cells (ca_get t (the (f x)))" using old by simp
  qed
  also have "cells (ca_get t' r) = clauseWord32Size (length (lits ?c)) (has_extra d)"
    using r(10,12) by (simp add: ca_get_def cells_def clause_size_def)
  finally have sz: "unat (rsz (region_of t')) = (\<Sum>x \<in> dom ?f. cells (ca_get t' (the (?f x))))"
    using r(6) md(9) by linarith
  have "moved A a ?f m' t'"
    unfolding moved_def
  proof (intro conjI allI impI)
    show "dom ?f \<subseteq> A" using md(1) cr(1) by auto
    show "inj_on ?f (dom ?f)" using md(2) None fresh by (auto simp: inj_on_def)
    show "marker_refs m' = marker_refs a" "region_of m' = region_of a" "extra_clause_field m' = extra_clause_field a"
      using mv by (simp_all add: r(3) ca_modify_def moved_def)
    show "mem m' x = (case ?f x of None \<Rightarrow> mem a x | Some r \<Rightarrow> map_option (relocate r) (mem a x))" for x
      using mv None by (auto simp: r(3) ca_modify_def moved_def split: option.splits)
    show "allocator_wf t'" "rwasted (region_of t') = 0" by (simp_all add: r(5,11) md(8))
    show "\<not> extra_clause_field t'" using md(7) r(4) by simp
    show "unat (rsz (region_of t')) = (\<Sum>x \<in> dom ?f. cells (ca_get t' (the (?f x))))" by (rule sz)
    show "\<exists>d. mem t' y = Some d \<and> copy_of (ca_get a x) d" if "?f x = Some y" for x y
      using that md(10) [of x y] cp fresh [of x] r(10) by (cases "x = cr") auto
  qed
  moreover have "reloc_ref cr (m, t) = Some (r, m', t')" by (simp add: reloc_ref_def r(1))
  moreover have "f \<subseteq>\<^sub>m ?f" using None by (auto simp: map_le_def)
  ultimately show ?thesis by (intro exI [of _ r] exI [of _ m'] exI [of _ t'] exI [of _ ?f]) simp
qed

lemma map_le_Some: "f \<subseteq>\<^sub>m g \<Longrightarrow> f x = Some y \<Longrightarrow> g x = Some y"
  by (force simp: map_le_def)

text \<open>The clauses whose references are relocated can be.\<close>

definition movable :: "CRef set \<Rightarrow> allocator \<Rightarrow> bool" where
  "movable A a \<longleftrightarrow> arena_ok A a \<and> (\<forall>cr \<in> A. isClause a cr \<and> lits (ca_get a cr) \<noteq> [])"

lemma reloc_refs_spec:
  assumes a: "movable A a" and mv: "moved A a f m t" and crs: "set crs \<subseteq> A"
  shows "\<exists>rs m' t' f'. reloc_refs crs (m, t) = Some (rs, m', t') \<and> moved A a f' m' t' \<and> f \<subseteq>\<^sub>m f' \<and>
     rs = map (the \<circ> f') crs \<and> dom f' = set crs \<union> dom f"
  using mv crs
proof (induction crs arbitrary: m t f)
  case (Cons cr crs)
  have c: "cr \<in> A" "isClause a cr" "lits (ca_get a cr) \<noteq> []" "arena_ok A a" using Cons.prems a by (auto simp: movable_def)
  from reloc_ref_spec [OF c(4) Cons.prems(1) c(1-3)] obtain r m1 t1 f1 where r:
    "reloc_ref cr (m, t) = Some (r, m1, t1)" "moved A a f1 m1 t1" "f \<subseteq>\<^sub>m f1" "f1 cr = Some r" "dom f1 = insert cr (dom f)" by blast
  have "set crs \<subseteq> A" using Cons.prems(2) by simp
  from Cons.IH [OF r(2) this] obtain rs m2 t2 f2 where rs:
    "reloc_refs crs (m1, t1) = Some (rs, m2, t2)" "moved A a f2 m2 t2" "f1 \<subseteq>\<^sub>m f2" "rs = map (the \<circ> f2) crs"
    "dom f2 = set crs \<union> dom f1" by blast
  have "f2 cr = Some r" by (rule map_le_Some [OF rs(3) r(4)])
  then have "reloc_refs (cr # crs) (m, t) = Some (map (the \<circ> f2) (cr # crs), m2, t2)" using r(1) rs(1,4) by simp
  moreover have "f \<subseteq>\<^sub>m f2" by (rule map_le_trans [OF r(3) rs(3)])
  ultimately show ?case using rs(2,5) r(5) by (intro exI [of _ "map (the \<circ> f2) (cr # crs)"] exI [of _ m2] exI [of _ t2] exI [of _ f2]) simp
qed (intro exI, auto)

definition ren_watch :: "(CRef \<Rightarrow> CRef option) \<Rightarrow> watcher \<Rightarrow> watcher" where
  "ren_watch f w = w\<lparr>cref := the (f (cref w))\<rparr>"

lemma reloc_watchers_spec:
  assumes a: "movable A a" and mv: "moved A a f m t" and ws: "cref ` set ws \<subseteq> A"
  shows "\<exists>m' t' f'. reloc_watchers ws (m, t) = Some (map (ren_watch f') ws, m', t') \<and> moved A a f' m' t' \<and> f \<subseteq>\<^sub>m f' \<and>
     dom f' = cref ` set ws \<union> dom f"
  using mv ws
proof (induction ws arbitrary: m t f)
  case (Cons w ws)
  let ?cr = "cref w"
  have c: "?cr \<in> A" "isClause a ?cr" "lits (ca_get a ?cr) \<noteq> []" "arena_ok A a" using Cons.prems a by (auto simp: movable_def)
  from reloc_ref_spec [OF c(4) Cons.prems(1) c(1-3)] obtain r m1 t1 f1 where r:
    "reloc_ref ?cr (m, t) = Some (r, m1, t1)" "moved A a f1 m1 t1" "f \<subseteq>\<^sub>m f1" "f1 ?cr = Some r" "dom f1 = insert ?cr (dom f)" by blast
  have "cref ` set ws \<subseteq> A" using Cons.prems(2) by simp
  from Cons.IH [OF r(2) this] obtain m2 t2 f2 where rs:
    "reloc_watchers ws (m1, t1) = Some (map (ren_watch f2) ws, m2, t2)" "moved A a f2 m2 t2" "f1 \<subseteq>\<^sub>m f2"
    "dom f2 = cref ` set ws \<union> dom f1" by blast
  have "f2 ?cr = Some r" by (rule map_le_Some [OF rs(3) r(4)])
  then have "reloc_watchers (w # ws) (m, t) = Some (map (ren_watch f2) (w # ws), m2, t2)" using r(1) rs(1) by (simp add: ren_watch_def)
  moreover have "f \<subseteq>\<^sub>m f2" by (rule map_le_trans [OF r(3) rs(3)])
  ultimately show ?case using rs(2,4) r(5) by (intro exI [of _ m2] exI [of _ t2] exI [of _ f2]) simp
qed (intro exI, auto)

lemma ren_watch_le: "f \<subseteq>\<^sub>m g \<Longrightarrow> cref w \<in> dom f \<Longrightarrow> ren_watch g w = ren_watch f w"
  by (auto simp: ren_watch_def dest: map_le_Some)

text \<open>The lists of distinct literals, one after the other.\<close>

lemma reloc_lists_spec:
  assumes a: "movable A a" and mv: "moved A a f m t" and d: "distinct (map lix ps)" "\<forall>p \<in> set ps. lix p < length os"
    and ws: "\<forall>p \<in> set ps. cref ` set (os ! lix p) \<subseteq> A"
  shows "\<exists>os' m' t' f'. reloc_lists ps os (m, t) = Some (os', m', t') \<and> moved A a f' m' t' \<and> f \<subseteq>\<^sub>m f' \<and>
     dom f' = (\<Union>p \<in> set ps. cref ` set (os ! lix p)) \<union> dom f \<and> length os' = length os \<and>
     (\<forall>i < length os. os' ! i = (if i \<in> lix ` set ps then map (ren_watch f') (os ! i) else os ! i))"
  using mv d ws
proof (induction ps arbitrary: m t f os)
  case (Cons p ps)
  have w: "cref ` set (os ! lix p) \<subseteq> A" using Cons.prems(4) by simp
  from reloc_watchers_spec [OF a Cons.prems(1) w] obtain m1 t1 f1 where r:
    "reloc_watchers (os ! lix p) (m, t) = Some (map (ren_watch f1) (os ! lix p), m1, t1)" "moved A a f1 m1 t1" "f \<subseteq>\<^sub>m f1"
    "dom f1 = cref ` set (os ! lix p) \<union> dom f" by blast
  let ?os = "os[lix p := map (ren_watch f1) (os ! lix p)]"
  have lp: "lix p < length os" "lix p \<notin> lix ` set ps" "distinct (map lix ps)" using Cons.prems(2,3) by auto
  have keep: "?os ! lix q = os ! lix q" if "q \<in> set ps" for q using that lp(2) by (metis image_eqI nth_list_update_neq)
  have lq: "\<forall>q \<in> set ps. lix q < length ?os" 
  proof
    fix q assume "q \<in> set ps"
    then have "lix q < length os" using Cons.prems(3) by (meson list.set_intros(2))
    then show "lix q < length ?os" by (simp only: length_list_update)
  qed
  have wq: "\<forall>q \<in> set ps. cref ` set (?os ! lix q) \<subseteq> A"
  proof
    fix q assume q: "q \<in> set ps"
    then have "cref ` set (os ! lix q) \<subseteq> A" using Cons.prems(4) by (meson list.set_intros(2))
    then show "cref ` set (?os ! lix q) \<subseteq> A" by (simp only: keep [OF q])
  qed
  from Cons.IH [OF r(2) lp(3) lq wq] obtain os' m2 t2 f2 where rs:
    "reloc_lists ps ?os (m1, t1) = Some (os', m2, t2)" "moved A a f2 m2 t2" "f1 \<subseteq>\<^sub>m f2"
    "dom f2 = (\<Union>q \<in> set ps. cref ` set (?os ! lix q)) \<union> dom f1" "length os' = length ?os"
    "\<forall>i < length ?os. os' ! i = (if i \<in> lix ` set ps then map (ren_watch f2) (?os ! i) else ?os ! i)"
    by (elim exE conjE) (rule that)
  have "reloc_lists (p # ps) os (m, t) = Some (os', m2, t2)" using r(1) rs(1) by simp
  moreover have "f \<subseteq>\<^sub>m f2" by (rule map_le_trans [OF r(3) rs(3)])
  moreover have "dom f2 = (\<Union>q \<in> set (p # ps). cref ` set (os ! lix q)) \<union> dom f"
  proof -
    have "(\<Union>q \<in> set ps. cref ` set (?os ! lix q)) = (\<Union>q \<in> set ps. cref ` set (os ! lix q))"
      by (rule SUP_cong [OF refl]) (simp only: keep)
    then show ?thesis using rs(4) r(4) by auto
  qed
  moreover have "os' ! i = (if i \<in> lix ` set (p # ps) then map (ren_watch f2) (os ! i) else os ! i)" if i: "i < length os" for i
  proof (cases "i = lix p")
    case True
    have "os' ! i = map (ren_watch f1) (os ! i)" using rs(6) i lp(1,2) True by simp
    also have "\<dots> = map (ren_watch f2) (os ! i)"
      using ren_watch_le [OF rs(3)] r(4) True by (intro map_cong) auto
    finally show ?thesis using True by simp
  next
    case False
    then show ?thesis using rs(6) i by simp
  qed
  ultimately show ?case using rs(2,5) by (intro exI [of _ os'] exI [of _ m2] exI [of _ t2] exI [of _ f2]) simp
qed (intro exI, auto)

text \<open>Once every clause has moved, relocating a reference only looks the new one up.\<close>

lemma reloc_ref_again:
  assumes a: "movable A a" and mv: "moved A a f m t" and f: "f cr = Some r"
  shows "reloc_ref cr (m, t) = Some (r, m, t)" and "reloced (ca_get m cr)"
proof -
  have cr: "cr \<in> A" using movedD(1) [OF mv] f by blast
  have ok: "arena_ok A a" "isClause a cr" "lits (ca_get a cr) \<noteq> []" using a cr by (auto simp: movable_def)
  have mm: "mem m cr = Some (relocate r (ca_get a cr))" using movedD(5) [OF mv f] arena_okD(4) [OF ok(1) cr] by simp
  have rl: "reloced (relocate r (ca_get a cr))" "relocation (relocate r (ca_get a cr)) = r"
    using relocation_relocate [of "ca_get a cr" r] ok(3) by (simp_all add: relocate_def)
  have "\<not> marker_refs a \<le> cr" using ok(2) by (simp add: isClause_def)
  then show "reloc_ref cr (m, t) = Some (r, m, t)"
    using mm rl by (simp add: reloc_ref_def ca_reloc_def movedD(3) [OF mv] ca_get_def Let_def)
  show "reloced (ca_get m cr)" using mm rl by (simp add: ca_get_def)
qed

definition ren_reason :: "(CRef \<Rightarrow> CRef option) \<Rightarrow> allocator \<Rightarrow> var_data \<Rightarrow> var_data" where
  "ren_reason f a d = (if isClause a (vreason d) then d\<lparr>vreason := the (f (vreason d))\<rparr> else d)"

lemma reloc_reasons_spec:
  assumes a: "movable A a" and all: "dom f = A" and mv: "moved A a f (ca s) t"
    and d: "distinct (map (\<lambda>p. vix (var p)) ps)"
    and ps: "\<forall>p \<in> set ps. vix (var p) < length (vardata s) \<and> (isClause a (reason s (var p)) \<longrightarrow> reason s (var p) \<in> A)"
  shows "\<exists>vd. reloc_reasons ps s t = Some (s\<lparr>vardata := vd\<rparr>, t) \<and> length vd = length (vardata s) \<and>
     (\<forall>i < length (vardata s). vd ! i =
        (if i \<in> (\<lambda>p. vix (var p)) ` set ps then ren_reason f a (vardata s ! i) else vardata s ! i))"
  using mv d ps
proof (induction ps arbitrary: s)
  case Nil
  then show ?case by (intro exI [of _ "vardata s"]) simp
next
  case (Cons p ps)
  let ?i = "vix (var p)" and ?r = "reason s (var p)"
  let ?d = "ren_reason f a (vardata s ! ?i)"
  let ?s = "s\<lparr>vardata := (vardata s)[?i := ?d]\<rparr>"
  have i: "?i < length (vardata s)" and fresh: "?i \<notin> (\<lambda>p. vix (var p)) ` set ps" and d: "distinct (map (\<lambda>p. vix (var p)) ps)"
    using Cons.prems by auto
  have vr: "vreason (vardata s ! ?i) = ?r" by (simp add: reason_def)
  have cm: "isClause (ca s) ?r = isClause a ?r" by (simp add: isClause_def movedD(3) [OF Cons.prems(1)])
  have step: "reloc_reasons (p # ps) s t = reloc_reasons ps ?s t"
  proof (cases "isClause a ?r")
    case True
    then have "?r \<in> A" using Cons.prems(3) by simp
    then obtain r where r: "f ?r = Some r" using all by blast
    note again = reloc_ref_again [OF a Cons.prems(1) r]
    have "?d = (vardata s ! ?i)\<lparr>vreason := r\<rparr>" using True r vr by (simp add: ren_reason_def)
    then show ?thesis using again True cm by (simp add: Let_def clause_at_def)
  next
    case False
    then have "?d = vardata s ! ?i" using vr by (simp add: ren_reason_def)
    then have "?s = s" by simp
    then show ?thesis using False cm by (simp add: Let_def)
  qed
  have same: "vardata ?s ! vix (var q) = vardata s ! vix (var q)" if "q \<in> set ps" for q
  proof -
    have "?i \<noteq> vix (var q)" using fresh that by auto
    then show ?thesis by simp
  qed
  have mv': "moved A a f (ca ?s) t" using Cons.prems(1) by simp
  have ps': "\<forall>q \<in> set ps. vix (var q) < length (vardata ?s) \<and> (isClause a (reason ?s (var q)) \<longrightarrow> reason ?s (var q) \<in> A)"
  proof
    fix q assume q: "q \<in> set ps"
    have "reason ?s (var q) = reason s (var q)" using same [OF q] by (simp only: reason_def)
    then show "vix (var q) < length (vardata ?s) \<and> (isClause a (reason ?s (var q)) \<longrightarrow> reason ?s (var q) \<in> A)"
      using Cons.prems(3) q by simp
  qed
  from Cons.IH [OF mv' d ps'] obtain vd where vd: "reloc_reasons ps ?s t = Some (?s\<lparr>vardata := vd\<rparr>, t)"
    "length vd = length (vardata ?s)"
    "\<forall>i < length (vardata ?s). vd ! i =
        (if i \<in> (\<lambda>p. vix (var p)) ` set ps then ren_reason f a (vardata ?s ! i) else vardata ?s ! i)" by blast
  have "vd ! j = (if j \<in> (\<lambda>p. vix (var p)) ` set (p # ps) then ren_reason f a (vardata s ! j) else vardata s ! j)"
    if j: "j < length (vardata s)" for j
    using vd(3) j fresh i by (cases "j = ?i") auto
  then show ?case using step vd(1,2) by (intro exI [of _ vd]) simp
qed

section \<open>The invariants under a renaming\<close>

lemma winv_rename:
  assumes wi: "winv n A L W" and inj: "inj_on F A" and L: "\<forall>cr \<in> A. L' (F cr) = L cr"
    and W: "\<And>q. lit_ok n q \<Longrightarrow> W' q = map (\<lambda>w. w\<lparr>cref := F (cref w)\<rparr>) (W q)"
  shows "winv n (F ` A) L' W'"
  unfolding winv_def
proof (intro conjI allI impI ballI)
  show "clauses_ok n (F ` A) L'" using winvD(1) [OF wi] L by (auto simp: clauses_ok_def)
  fix q assume q: "lit_ok n q"
  have sub: "cref ` set (W q) \<subseteq> A" using winvD(3) [OF wi q] by auto
  have "map cref (W' q) = map F (map cref (W q))" by (simp add: W [OF q])
  moreover have "inj_on F (set (map cref (W q)))" using inj_on_subset [OF inj sub] by simp
  ultimately show "distinct (map cref (W' q))" using winvD(2) [OF wi q] by (auto simp: distinct_map comp_inj_on)
  show "cref w \<in> F ` A" "blocker w \<in> set (L' (cref w))" "watched (L' (cref w)) q" if w: "w \<in> set (W' q)" for w
  proof -
    obtain u where u: "u \<in> set (W q)" "w = u\<lparr>cref := F (cref u)\<rparr>" using w by (auto simp: W [OF q])
    then show "cref w \<in> F ` A" "blocker w \<in> set (L' (cref w))" "watched (L' (cref w)) q"
      using winvD(3) [OF wi q u(1)] L by auto
  qed
  show "cr' \<in> cref ` set (W' q)" if cr: "cr' \<in> F ` A" "watched (L' cr') q" for cr'
  proof -
    obtain cr where c: "cr \<in> A" "cr' = F cr" using cr(1) by blast
    then have "cr \<in> cref ` set (W q)" using winvD(4) [OF wi q c(1)] cr(2) L by simp
    then have "F cr \<in> F ` cref ` set (W q)" by (rule imageI)
    then show ?thesis by (simp add: c(2) W [OF q] image_image)
  qed
qed

text \<open>A state with renamed references: watchers, reasons and clauses.\<close>

lemma solver_inv_rename:
  assumes inv: "solver_inv A s" and inj: "inj_on F A"
    and eqs: "trail s' = trail s" "assigns s' = assigns s" "qhead s' = qhead s" "nVars s' = nVars s"
    and rs: "\<forall>p \<in> set (trail s). reason s' (var p) = (if isClause (ca s) (reason s (var p)) then F (reason s (var p)) else reason s (var p))"
    and mr: "marker_refs (ca s') = marker_refs (ca s)"
    and cl: "\<forall>cr \<in> A. mem (ca s') (F cr) \<noteq> None \<and> isClause (ca s') (F cr) \<and> clits s' (F cr) = clits s cr"
    and occ: "length (occs (watches s')) = 2 * nVars s" "dirties (watches s') = []"
      "dirty (watches s') = dirty (watches (watches_cleanAll s))"
    and wl: "\<And>q. lit_ok (nVars s) q \<Longrightarrow> wlist s' q = map (\<lambda>w. w\<lparr>cref := F (cref w)\<rparr>) (wlist (watches_cleanAll s) q)"
  shows "solver_inv (F ` A) s'" and "queue_done A s \<Longrightarrow> queue_done (F ` A) s'"
proof -
  let ?W = "wlist (watches_cleanAll s)"
  have bi: "bcp_inv A s ?W" and wf: "occ_wf (watches s)" and qh: "qhead s \<le> length (trail s)"
    and len: "length (occs (watches s)) = 2 * nVars s"
    using inv by (auto simp: solver_inv_def bcp_inv_def)
  have e: "isT s' = isT s" "isF s' = isF s" "isU s' = isU s" using eqs(2) state_eqs by blast+
  have tok: "trail_ok s'" using bi by (simp add: bcp_inv_def trail_ok_def e eqs)
  have win: "winv (nVars s) (F ` A) (clits s') (wlist s')"
    by (rule winv_rename [OF _ inj _ wl, where L = "clits s"]) (use bi cl in \<open>simp_all add: bcp_inv_def\<close>)
  have old: "isClause (ca s) (reason s (var p)) \<and> reason s (var p) \<in> A \<and> reason s' (var p) = F (reason s (var p))"
    if p: "p \<in> set (trail s)" "isClause (ca s') (reason s' (var p))" for p
  proof -
    have c: "isClause (ca s) (reason s (var p))"
      using p(2) rs p(1) mr by (cases "isClause (ca s) (reason s (var p))") (simp_all add: isClause_def)
    then show ?thesis using bi rs p(1) by (simp add: bcp_inv_def reasons_live_def)
  qed
  have live: "reasons_live (F ` A) s'" using old by (auto simp: reasons_live_def eqs)
  have "reasons_ok (F ` A) s'"
    unfolding reasons_ok_def eqs
  proof (intro allI impI)
    fix k assume k: "k < length (trail s)" and r: "reason s' (var (trail s ! k)) \<in> F ` A"
    let ?r = "reason s (var (trail s ! k))"
    have "isClause (ca s') (reason s' (var (trail s ! k)))" using r cl by auto
    from old [OF nth_mem [OF k] this] have o: "?r \<in> A" "reason s' (var (trail s ! k)) = F ?r" by auto
    then show "clits s' (reason s' (var (trail s ! k))) ! 0 = trail s ! k \<and>
        (\<forall>l \<in> set (clits s' (reason s' (var (trail s ! k)))). l \<noteq> trail s ! k \<longrightarrow> neg l \<in> set (take k (trail s)))"
      using bi k cl by (simp add: bcp_inv_def reasons_ok_def)
  qed
  then have st: "bcp_state (F ` A) s'"
    using tok win live cl occ(1) qh by (auto simp: bcp_state_def bcp_inv_def eqs)
  show "solver_inv (F ` A) s'"
    by (rule solver_inv_clean [OF st occ(2)]) (use occ_wf_cleanAll [OF wf] occ len in auto)
  show "queue_done (F ` A) s'" if "queue_done A s"
    using that cl by (auto simp: queue_done_def processed_def sat_clause_def eqs e)
qed

section \<open>The whole collection\<close>

lemma all_lits_spec:
  "set (all_lits n) = {p. lit_ok n p}" "distinct (map lix (all_lits n))"
proof -
  have ok: "lit_ok n (mkLit (int v) b) = (v < n)" for v b by (simp add: lit_ok_alt)
  have "p \<in> set (all_lits n)" if p: "lit_ok n p" for p
  proof -
    have "p = mkLit (int (vix (var p))) (sign p)" using p by (simp add: lit_ok_alt vix_def)
    then show ?thesis using lit_ok_vix [OF p] unfolding all_lits_def
      by (cases "sign p") (auto intro!: bexI [of _ "vix (var p)"])
  qed
  then show st: "set (all_lits n) = {p. lit_ok n p}" using ok by (auto simp: all_lits_def)
  have "distinct (all_lits n)"
    unfolding all_lits_def
  proof (induction n)
    case (Suc n)
    have "mkLit (int v) b \<noteq> mkLit (int n) c" if "v < n" for v b c
      using that by (metis less_irrefl of_nat_eq_iff var_mkLit)
    then have "mkLit (int n) b \<noteq> mkLit (int v) c" "mkLit (int v) b \<noteq> mkLit (int n) c" if "v < n" for v b c
      using that by metis+
    moreover have "mkLit (int n) False \<noteq> mkLit (int n) True" by (metis sign_mkLit)
    ultimately show ?case using Suc by auto
  qed simp
  then show "distinct (map lix (all_lits n))"
    using lix_inject [of n] by (auto simp: distinct_map st inj_on_def)
qed

lemma all_lits_lix: "lit_ok n p \<Longrightarrow> lix p \<in> lix ` set (all_lits n)"
  by (simp add: all_lits_spec)

lemma map_le_dom_eq: "f \<subseteq>\<^sub>m g \<Longrightarrow> dom g = dom f \<Longrightarrow> g = f"
  by (rule map_le_antisym) (auto simp: map_le_def)

lemma moved_new:
  assumes "ca_new n mm = Some (Inr t)" "allocator_wf t"
  shows "moved A a Map.empty a t"
  using assms by (auto simp: moved_def ca_new_def region_new_def region_capacity_def
      split: option.splits sum.splits if_splits)

lemma ca_new_ok:
  assumes "unat n \<le> 2643056797" and "\<forall>c. mm c"
  shows "\<exists>t. ca_new n mm = Some (Inr t) \<and> allocator_wf t"
proof -
  from capacity_loop_ok [of 0 0 n] assms obtain c where "capacity_loop 0 n 0 = Some (Inr c)" "even (unat c)" by auto
  then show ?thesis
    using assms(2) by (auto simp: ca_new_def region_new_def region_capacity_def allocator_wf_def region_wf_def)
qed

text \<open>What the collection does to the references: \<open>F\<close> renames them.\<close>

lemma relocAll_spec:
  assumes inv: "solver_inv A s" and A: "A = db s" and ar: "arena_ok A (ca s)" and tmp: "tmp_clause s = CRef_Undef"
    and t: "moved A (ca s) Map.empty (ca s) t"
  shows "\<exists>f os vd m t'. relocAll s t =
       Some (s\<lparr>watches := (watches (watches_cleanAll s))\<lparr>occs := os\<rparr>, vardata := vd,
              learnts := map (the \<circ> f) (learnts s), clauses := map (the \<circ> f) (clauses s), ca := m\<rparr>, t') \<and>
     dom f = A \<and> moved A (ca s) f m t' \<and> length os = 2 * nVars s \<and> length vd = length (vardata s) \<and>
     (\<forall>q. lit_ok (nVars s) q \<longrightarrow> os ! lix q = map (ren_watch f) (wlist (watches_cleanAll s) q)) \<and>
     (\<forall>i < length (vardata s). vd ! i =
        (if i \<in> (\<lambda>p. vix (var p)) ` set (trail s) then ren_reason f (ca s) (vardata s ! i) else vardata s ! i))"
proof -
  let ?s1 = "watches_cleanAll s" and ?a = "ca s" and ?n = "nVars s"
  let ?os = "occs (watches ?s1)" and ?ps = "all_lits ?n"
  have bi: "bcp_inv A s (wlist ?s1)" using inv by (simp add: solver_inv_def)
  have len: "length ?os = 2 * ?n"
    using bi by (simp add: bcp_inv_def watches_cleanAll_def occ_cleanAll_def length_clean_dirties)
  have wi: "winv ?n A (clits s) (wlist ?s1)" and tok: "trail_ok s" using bi by (auto simp: bcp_inv_def)
  have c2: "2 \<le> length (clits s cr)" "\<forall>l \<in> set (clits s cr). lit_ok ?n l" if "cr \<in> A" for cr
    using winvD(1) [OF wi] that by (auto simp: clauses_ok_def)
  have mvb: "movable A ?a"
    using ar bi c2(1) by (fastforce simp: movable_def bcp_inv_def clits_def clause_at_def)
  have ws: "cref ` set (wlist ?s1 q) \<subseteq> A" if "lit_ok ?n q" for q using winvD(3) [OF wi that] by auto
  have lt: "\<forall>p \<in> set ?ps. lix p < length ?os" using lit_ok_lix [of ?n] len by (simp add: all_lits_spec)
  have wsub: "\<forall>p \<in> set ?ps. cref ` set (?os ! lix p) \<subseteq> A" using ws by (simp add: all_lits_spec wlist_def)
  from reloc_lists_spec [OF mvb t all_lits_spec(2) lt wsub] obtain os m1 t1 f where r1:
    "reloc_lists ?ps ?os (?a, t) = Some (os, m1, t1)" "moved A ?a f m1 t1"
    "dom f = (\<Union>p \<in> set ?ps. cref ` set (?os ! lix p)) \<union> dom (Map.empty :: CRef \<rightharpoonup> CRef)" "length os = length ?os"
    "\<forall>i < length ?os. os ! i = (if i \<in> lix ` set ?ps then map (ren_watch f) (?os ! i) else ?os ! i)"
    by (elim exE conjE) (rule that)
  have "cr \<in> dom f" if cr: "cr \<in> A" for cr
  proof -
    have "clits s cr ! 0 \<in> set (clits s cr)" using first_two [OF c2(1) [OF cr]] by blast
    then have q: "lit_ok ?n (neg (clits s cr ! 0))" using c2(2) [OF cr] by simp
    have "cr \<in> cref ` set (wlist ?s1 (neg (clits s cr ! 0)))" by (rule winvD(4) [OF wi q cr]) (simp add: watched_def)
    then show ?thesis using q unfolding r1(3) all_lits_spec wlist_def by blast
  qed
  then have dom: "dom f = A" using movedD(1) [OF r1(2)] by blast
  define s2 where "s2 = ?s1\<lparr>watches := (watches ?s1)\<lparr>occs := os\<rparr>, ca := m1\<rparr>"
  have s2: "s2 = s\<lparr>watches := (watches ?s1)\<lparr>occs := os\<rparr>, ca := m1\<rparr>" by (simp add: s2_def watches_cleanAll_def)
  have mv2: "moved A ?a f (ca s2) t1" using r1(2) by (simp add: s2)
  have inj: "inj_on (\<lambda>p. vix (var p)) (set (trail s))"
  proof (rule inj_onI)
    fix p q assume pq: "p \<in> set (trail s)" "q \<in> set (trail s)" "vix (var p) = vix (var q)"
    then have "var p = var q" using vix_inject [of ?n p q] tok by (auto simp: trail_ok_def)
    then show "p = q" using pq tok by (auto simp: trail_ok_def distinct_map inj_on_def)
  qed
  have d: "distinct (map (\<lambda>p. vix (var p)) (trail s))"
    using inj tok by (auto simp: distinct_map trail_ok_def)
  have tr: "\<forall>p \<in> set (trail s). vix (var p) < length (vardata s2) \<and> (isClause ?a (reason s2 (var p)) \<longrightarrow> reason s2 (var p) \<in> A)"
    using bi lit_ok_vix [of ?n] by (auto simp: s2 bcp_inv_def trail_ok_def reasons_live_def reason_def nVars_def)
  from reloc_reasons_spec [OF mvb dom mv2 d tr] obtain vd where r2:
    "reloc_reasons (trail s) s2 t1 = Some (s2\<lparr>vardata := vd\<rparr>, t1)" "length vd = length (vardata s2)"
    "\<forall>i < length (vardata s2). vd ! i =
        (if i \<in> (\<lambda>p. vix (var p)) ` set (trail s) then ren_reason f ?a (vardata s2 ! i) else vardata s2 ! i)" by blast
  have sub: "set (learnts s) \<subseteq> A" "set (clauses s) \<subseteq> A" by (auto simp: A db_def)
  from reloc_refs_spec [OF mvb mv2 sub(1)] obtain m3 t3 f3 where r3:
    "reloc_refs (learnts s) (ca s2, t1) = Some (map (the \<circ> f3) (learnts s), m3, t3)" "moved A ?a f3 m3 t3" "f \<subseteq>\<^sub>m f3"
    "dom f3 = set (learnts s) \<union> dom f" by blast
  have f3: "f3 = f" by (rule map_le_dom_eq [OF r3(3)]) (use r3(4) dom sub(1) in auto)
  from reloc_refs_spec [OF mvb r3(2) sub(2)] obtain m4 t4 f4 where r4:
    "reloc_refs (clauses s) (m3, t3) = Some (map (the \<circ> f4) (clauses s), m4, t4)" "moved A ?a f4 m4 t4" "f3 \<subseteq>\<^sub>m f4"
    "dom f4 = set (clauses s) \<union> dom f3" by blast
  have f4: "f4 = f" using map_le_dom_eq [OF r4(3)] r4(4) dom sub(2) f3 by auto
  have s1f: "drop_tmp_clause s = s" "nVars ?s1 = ?n" "ca ?s1 = ?a" "trail s2 = trail s" "trail ?s1 = trail s"
    using tmp by (simp_all add: drop_tmp_clause_def watches_cleanAll_def nVars_def s2)
  have "relocAll s t = Some (s\<lparr>watches := (watches ?s1)\<lparr>occs := os\<rparr>, vardata := vd,
              learnts := map (the \<circ> f) (learnts s), clauses := map (the \<circ> f) (clauses s), ca := m4\<rparr>, t4)"
    using r1(1) r2(1) r3(1) r4(1) unfolding relocAll_def Let_def s1f f3 f4
    by (simp add: s2_def [symmetric] s1f(4,5)) (simp add: s2)
  moreover have "\<forall>q. lit_ok ?n q \<longrightarrow> os ! lix q = map (ren_watch f) (wlist ?s1 q)"
    using r1(5) lit_ok_lix [of ?n] len all_lits_lix by (simp add: wlist_def)
  moreover have "length os = 2 * ?n" "length vd = length (vardata s)" using r1(4) r2(2) len by (simp_all add: s2)
  moreover have "\<forall>i < length (vardata s). vd ! i =
        (if i \<in> (\<lambda>p. vix (var p)) ` set (trail s) then ren_reason f ?a (vardata s ! i) else vardata s ! i)"
    using r2(3) by (simp add: s2)
  ultimately show ?thesis using dom r4(2) f4
    by (intro exI [of _ f] exI [of _ os] exI [of _ vd] exI [of _ m4] exI [of _ t4]) simp
qed

lemma garbageCollect_spec:
  assumes inv: "solver_inv A s" and A: "A = db s" and ar: "arena_ok A (ca s)" and tmp: "tmp_clause s = CRef_Undef"
  shows "\<exists>F w vd a s'. garbageCollect s = Some s' \<and>
     s' = s\<lparr>watches := w, vardata := vd, learnts := map F (learnts s), clauses := map F (clauses s), ca := a\<rparr> \<and>
     inj_on F A \<and> (\<forall>cr \<in> A. copy_of (clause_at s cr) (clause_at s' (F cr))) \<and>
     (\<forall>p. lit_ok (nVars s) p \<longrightarrow> level s' (var p) = level s (var p)) \<and> nVars s' = nVars s \<and>
     (\<forall>p \<in> set (trail s). reason s' (var p) =
        (if isClause (ca s) (reason s (var p)) then F (reason s (var p)) else reason s (var p))) \<and>
     solver_inv (db s') s' \<and> (queue_done A s \<longrightarrow> queue_done (db s') s') \<and> arena_ok (db s') a \<and>
     marker_refs a = marker_refs (ca s) \<and> rwasted (region_of a) = 0 \<and>
     unat (rsz (region_of a)) \<le> unat (rsz (region_of (ca s))) - unat (rwasted (region_of (ca s))) \<and>
     w = (watches (watches_cleanAll s))\<lparr>occs := occs w\<rparr> \<and> length (occs w) = 2 * nVars s \<and>
     (\<forall>q. lit_ok (nVars s) q \<longrightarrow> wlist s' q = map (\<lambda>x. x\<lparr>cref := F (cref x)\<rparr>) (wlist (watches_cleanAll s) q)) \<and>
     length vd = nVars s \<and>
     (\<forall>i < nVars s. vd ! i =
        (if (\<exists>p \<in> set (trail s). vix (var p) = i) \<and> isClause (ca s) (vreason (vardata s ! i))
         then (vardata s ! i)\<lparr>vreason := F (vreason (vardata s ! i))\<rparr> else vardata s ! i))"
proof -
  let ?a = "ca s" and ?n = "nVars s" and ?s1 = "watches_cleanAll s"
  note ad = arena_okD [OF ar]
  have wle: "unat (rwasted (region_of ?a)) \<le> unat (rsz (region_of ?a))" using ad(6) by linarith
  then have "unat (rsz (region_of ?a) - rwasted (region_of ?a)) = unat (rsz (region_of ?a)) - unat (rwasted (region_of ?a))"
    by (simp add: unat_sub word_le_nat_alt)
  then have "unat (rsz (region_of ?a) - rwasted (region_of ?a)) \<le> 2643056797" using ad(7) by linarith
  from ca_new_ok [OF this, of "rmem (region_of ?a)"] ad(1)
  obtain t where t: "ca_new (rsz (region_of ?a) - rwasted (region_of ?a)) (rmem (region_of ?a)) = Some (Inr t)"
    "allocator_wf t" by (auto simp: allocator_wf_def region_wf_def)
  from relocAll_spec [OF inv A ar tmp moved_new [OF t]] obtain f os vd m t' where r:
    "relocAll s t = Some (s\<lparr>watches := (watches ?s1)\<lparr>occs := os\<rparr>, vardata := vd,
        learnts := map (the \<circ> f) (learnts s), clauses := map (the \<circ> f) (clauses s), ca := m\<rparr>, t')"
    "dom f = A" "moved A ?a f m t'" "length os = 2 * ?n" "length vd = length (vardata s)"
    "\<forall>q. lit_ok ?n q \<longrightarrow> os ! lix q = map (ren_watch f) (wlist ?s1 q)"
    "\<forall>i < length (vardata s). vd ! i =
        (if i \<in> (\<lambda>p. vix (var p)) ` set (trail s) then ren_reason f ?a (vardata s ! i) else vardata s ! i)"
    by (elim exE conjE) (rule that)
  define F where "F = the \<circ> f"
  define w where "w = (watches ?s1)\<lparr>occs := os\<rparr>"
  define a where "a = ca_moveTo t' m"
  define s' where "s' = s\<lparr>watches := w, vardata := vd, learnts := map F (learnts s), clauses := map F (clauses s), ca := a\<rparr>"
  note md = movedD [OF r(3)]
  have gc: "garbageCollect s = Some s'" by (simp add: garbageCollect_def t(1) r(1) s'_def F_def w_def a_def)
  have f: "f cr = Some (F cr)" if "cr \<in> A" for cr using that r(2) by (auto simp: F_def)
  have inj: "inj_on F A"
    using md(2) f r(2) by (fastforce simp: inj_on_def)
  have af: "mem a = mem t'" "region_of a = region_of t'" "marker_refs a = marker_refs ?a"
    using md(3) by (simp_all add: a_def ca_moveTo_def region_moveTo_def)
  have fs: "ca s' = a" "trail s' = trail s" "assigns s' = assigns s" "qhead s' = qhead s" "watches s' = w" "vardata s' = vd"
    by (simp_all add: s'_def)
  have cp: "mem a (F cr) = Some (clause_at s' (F cr)) \<and> copy_of (clause_at s cr) (clause_at s' (F cr))" if cr: "cr \<in> A" for cr
    using md(10) [OF f [OF cr]] by (simp add: clause_at_def fs af ca_get_def)
  have db': "db s' = F ` A" by (simp add: s'_def db_def A image_Un)
  have size: "unat (rsz (region_of a)) = (\<Sum>cr \<in> db s'. cells (ca_get a cr))"
  proof -
    have "(\<Sum>cr \<in> F ` A. cells (ca_get a cr)) = (\<Sum>cr \<in> A. cells (ca_get a (F cr)))"
      by (simp add: sum.reindex [OF inj])
    also have "\<dots> = (\<Sum>cr \<in> A. cells (ca_get t' (the (f cr))))" by (simp add: F_def ca_get_def af)
    finally show ?thesis using md(9) r(2) by (simp add: db' af)
  qed
  have "(\<Sum>cr \<in> A. cells (ca_get a (F cr))) \<le> (\<Sum>cr \<in> A. cells (ca_get ?a cr))"
    using cp cells_copy ad(5) by (intro sum_mono) (simp add: clause_at_def fs)
  then have "unat (rsz (region_of a)) \<le> (\<Sum>cr \<in> A. cells (ca_get ?a cr))" using size inj by (simp add: db' sum.reindex)
  then have le: "unat (rsz (region_of a)) \<le> unat (rsz (region_of ?a)) - unat (rwasted (region_of ?a))" using ad(6) by linarith
  have wfa: "allocator_wf a" using md(6) by (simp add: allocator_wf_def af)
  have mr: "rsz (region_of a) \<le> marker_refs a" using ad(2) le wle by (simp add: af(3) word_le_nat_alt)
  have ar': "arena_ok (db s') a"
    unfolding arena_ok_def
  proof (intro conjI ballI)
    show "finite (db s')" using ad(3) by (simp add: db')
    show "\<exists>c. mem a cr = Some c \<and> clause_fine c" if "cr \<in> db s'" for cr
    proof -
      obtain x where x: "x \<in> A" "cr = F x" using \<open>cr \<in> db s'\<close> db' by blast
      then show ?thesis using cp [OF x(1)] ad(5) [OF x(1)]
        by (intro exI [of _ "clause_at s' (F x)"]) (simp add: clause_fine_def copy_of_def clause_at_def)
    qed
    show "unat (rwasted (region_of a)) + (\<Sum>cr \<in> db s'. cells (ca_get a cr)) \<le> unat (rsz (region_of a))"
      using size md(8) by (simp add: af)
  qed (use wfa mr le ad(7) in auto)
  have tok: "trail_ok s" and bi: "bcp_inv A s (wlist ?s1)" using inv by (auto simp: solver_inv_def bcp_inv_def)
  have nv: "nVars s' = ?n" using r(5) by (simp add: nVars_def fs)
  have rs: "reason s' (var p) = (if isClause ?a (reason s (var p)) then F (reason s (var p)) else reason s (var p))"
    if p: "p \<in> set (trail s)" for p
  proof -
    have "vix (var p) < length (vardata s)" using tok p lit_ok_vix by (auto simp: trail_ok_def nVars_def)
    then show ?thesis using r(7) p by (simp add: reason_def fs ren_reason_def F_def)
  qed
  have lv: "level s' (var p) = level s (var p)" if "lit_ok ?n p" for p
    using r(5,7) lit_ok_vix [OF that] by (simp add: level_def fs ren_reason_def nVars_def)
  have cl: "\<forall>cr \<in> A. mem (ca s') (F cr) \<noteq> None \<and> isClause (ca s') (F cr) \<and> clits s' (F cr) = clits s cr"
  proof
    fix cr assume cr: "cr \<in> A"
    note c = cp [OF cr]
    have "unat (F cr) + cells (clause_at s' (F cr)) \<le> unat (rsz (region_of a))"
      using wfa c by (auto simp: allocator_wf_def cells_def)
    moreover have "0 < cells (clause_at s' (F cr))" by (simp add: cells_def clauseWord32Size_eq)
    ultimately have "F cr < marker_refs a" using mr by (simp add: word_less_nat_alt word_le_nat_alt)
    then show "mem (ca s') (F cr) \<noteq> None \<and> isClause (ca s') (F cr) \<and> clits s' (F cr) = clits s cr"
      using c by (simp add: fs isClause_def clits_def copy_of_def)
  qed
  have wl: "wlist s' q = map (\<lambda>w. w\<lparr>cref := F (cref w)\<rparr>) (wlist ?s1 q)" if "lit_ok ?n q" for q
  proof -
    have "ren_watch f = (\<lambda>w. w\<lparr>cref := F (cref w)\<rparr>)" by (simp add: fun_eq_iff ren_watch_def F_def)
    then show ?thesis using r(6) that by (simp add: wlist_def [of s'] fs w_def)
  qed
  have occ: "length (occs (watches s')) = 2 * ?n" "dirties (watches s') = []"
    "dirty (watches s') = dirty (watches ?s1)"
    using r(4) occ_wf_cleanAll [of s] inv by (simp_all add: fs w_def solver_inv_def)
  have mr': "marker_refs (ca s') = marker_refs ?a" by (simp add: fs af)
  have rs': "\<forall>p \<in> set (trail s). reason s' (var p) = (if isClause ?a (reason s (var p)) then F (reason s (var p)) else reason s (var p))"
    using rs by blast
  note fin = solver_inv_rename [OF inv inj fs(2-4) nv rs' mr' cl occ wl]
  have res: "solver_inv (db s') s'" "queue_done A s \<longrightarrow> queue_done (db s') s'" using fin by (simp_all only: db') simp
  have fin': "marker_refs a = marker_refs ?a" "rwasted (region_of a) = 0" using af md(8) by simp_all
  have cp': "\<forall>cr \<in> A. copy_of (clause_at s cr) (clause_at s' (F cr))" using cp by blast
  have lv': "\<forall>p. lit_ok ?n p \<longrightarrow> level s' (var p) = level s (var p)" using lv by blast
  have w': "w = (watches ?s1)\<lparr>occs := occs w\<rparr>" "length (occs w) = 2 * ?n" using r(4) by (simp_all add: w_def)
  have wl': "\<forall>q. lit_ok ?n q \<longrightarrow> wlist s' q = map (\<lambda>x. x\<lparr>cref := F (cref x)\<rparr>) (wlist ?s1 q)" using wl by blast
  have vl: "length vd = ?n" using r(5) by (simp add: nVars_def)
  have vd': "\<forall>i < ?n. vd ! i =
        (if (\<exists>p \<in> set (trail s). vix (var p) = i) \<and> isClause ?a (vreason (vardata s ! i))
         then (vardata s ! i)\<lparr>vreason := F (vreason (vardata s ! i))\<rparr> else vardata s ! i)"
    using r(7) by (auto simp: nVars_def ren_reason_def F_def image_iff)
  show ?thesis
    by (rule exI [of _ F], rule exI [of _ w], rule exI [of _ vd], rule exI [of _ a], rule exI [of _ s'])
      (intro conjI gc inj cp' lv' nv rs' res ar' fin' le w' wl' vl vd', rule s'_def)
qed

text \<open>C8: a garbage collection succeeds as long as memory does not run out.  It is a renaming of the clause
  references, injective on the database: every clause keeps its literals, flags and activity; the clause lists are
  the old ones renamed; the watcher lists are the old ones, cleaned of deleted clauses, in their order and with
  their blockers, renamed; the clausal reasons of the assigned variables are renamed, and all other reasons and
  all levels stay as they are.  Nothing else of the solver changes, its invariants hold again, and the new region
  has no waste and is no larger than the live part of the old one.\<close>

theorem garbageCollect_correct:
  assumes "solver_inv (db s) s" and "arena_ok (db s) (ca s)" and "tmp_clause s = CRef_Undef"
  shows "\<exists>F w vd a s'. garbageCollect s = Some s' \<and>
     s' = s\<lparr>watches := w, vardata := vd, learnts := map F (learnts s), clauses := map F (clauses s), ca := a\<rparr> \<and>
     inj_on F (db s) \<and> (\<forall>cr \<in> db s. copy_of (clause_at s cr) (clause_at s' (F cr))) \<and>
     (\<forall>p. lit_ok (nVars s) p \<longrightarrow> level s' (var p) = level s (var p)) \<and>
     (\<forall>p \<in> set (trail s). reason s' (var p) =
        (if isClause (ca s) (reason s (var p)) then F (reason s (var p)) else reason s (var p))) \<and>
     solver_inv (db s') s' \<and> (queue_done (db s) s \<longrightarrow> queue_done (db s') s') \<and> arena_ok (db s') a \<and>
     marker_refs a = marker_refs (ca s) \<and> rwasted (region_of a) = 0 \<and>
     unat (rsz (region_of a)) \<le> unat (rsz (region_of (ca s))) - unat (rwasted (region_of (ca s))) \<and>
     w = (watches (watches_cleanAll s))\<lparr>occs := occs w\<rparr> \<and> length (occs w) = 2 * nVars s \<and>
     (\<forall>q. lit_ok (nVars s) q \<longrightarrow> wlist s' q = map (\<lambda>x. x\<lparr>cref := F (cref x)\<rparr>) (wlist (watches_cleanAll s) q)) \<and>
     length vd = nVars s \<and>
     (\<forall>i < nVars s. vd ! i =
        (if (\<exists>p \<in> set (trail s). vix (var p) = i) \<and> isClause (ca s) (vreason (vardata s ! i))
         then (vardata s ! i)\<lparr>vreason := F (vreason (vardata s ! i))\<rparr> else vardata s ! i))"
  using garbageCollect_spec [OF assms(1) refl assms(2,3)] by blast

section \<open>A collection of the example\<close>

text \<open>Allocating keeps the region in order.\<close>

lemma alloc_arena:
  assumes ar: "arena_ok A a" and len: "length ps < 2 ^ 26"
    and room: "unat (rsz (region_of a)) + length ps + 2 < 2643056797"
    and mr: "unat (rsz (region_of a)) + length ps + 2 \<le> unat (marker_refs a)"
    and al: "ca_alloc ps l a = Some (Inr (cr, a'))"
  shows "arena_ok (insert cr A) (ca_modify cr (setDerived d) a')"
proof -
  note ad = arena_okD [OF ar]
  from ca_alloc_ok [OF ad(1) len, of l] room al obtain
    cr: "cr = rsz (region_of a)" "mem a cr = None" "allocator_wf a'" and
    m: "mem a' = (mem a)(cr \<mapsto> clause_new 0 0 ps (l \<or> extra_clause_field a) l)" and
    mr': "marker_refs a' = marker_refs a" and
    sz: "unat (rsz (region_of a')) = unat (rsz (region_of a)) + clauseWord32Size (length ps) (l \<or> extra_clause_field a)" and
    rw: "rwasted (region_of a') = rwasted (region_of a)" by auto
  let ?c = "setDerived d (clause_new 0 0 ps (l \<or> extra_clause_field a) l)" and ?a = "ca_modify cr (setDerived d) a'"
  have m': "mem ?a = (mem a)(cr \<mapsto> ?c)" by (simp add: ca_modify_def m)
  have len': "length ps mod 67108864 = length ps" using len by simp
  have c: "lits ?c = ps" "has_extra ?c = (l \<or> extra_clause_field a)" "clause_fine ?c"
    using len len' by (simp_all add: setDerived_def clause_fine_def)
  have new: "cr \<notin> A" using ad(4) cr(2) by force
  have "cells (ca_get ?a cr) = clauseWord32Size (length ps) (l \<or> extra_clause_field a)"
    using c by (simp add: ca_get_def m' cells_def clause_size_def)
  moreover have "(\<Sum>x \<in> A. cells (ca_get ?a x)) = (\<Sum>x \<in> A. cells (ca_get a x))"
    by (rule sum.cong) (use new in \<open>auto simp: ca_get_def m'\<close>)
  ultimately have sum: "unat (rwasted (region_of a')) + (\<Sum>x \<in> insert cr A. cells (ca_get ?a x)) \<le> unat (rsz (region_of a'))"
    using ad(3,6) new sz rw by simp
  have wf: "allocator_wf ?a"
    using cr(3) unfolding allocator_wf_def m' by (auto simp: m ca_modify_def setDerived_def clause_size_def split: if_splits)
  have "clauseWord32Size (length ps) (l \<or> extra_clause_field a) \<le> length ps + 2" by (simp add: clauseWord32Size_eq)
  then have "unat (rsz (region_of a')) < 2643056797" "rsz (region_of a') \<le> marker_refs a'"
    using sz room mr mr' by (simp_all add: word_le_nat_alt)
  then show ?thesis
    using wf sum ad(3-5) c(3) unfolding arena_ok_def by (auto simp: m') (simp_all add: ca_modify_def)
qed

lemma store_clause_arena:
  assumes ar: "arena_ok (db s) (ca s)" and len: "length ps < 2 ^ 26"
    and room: "unat (rsz (region_of (ca s))) + length ps + 2 < 2643056797" and mr: "marker_refs (ca s) = CRef_Undef"
  shows "arena_ok (db (store_clause ps s)) (ca (store_clause ps s))" and "tmp_clause (store_clause ps s) = tmp_clause s"
proof -
  have mu: "unat (marker_refs (ca s)) = 4294967295" by (simp add: mr Ref_Undef_def unsigned_minus_1_eq_mask mask_eq_exp_minus_1)
  have mr': "unat (rsz (region_of (ca s))) + length ps + 2 \<le> unat (marker_refs (ca s))" unfolding mu using room by linarith
  from ca_alloc_ok [OF arena_okD(1) [OF ar] len, of False] room obtain cr a' where
    al: "ca_alloc ps False (ca s) = Some (Inr (cr, a'))" by auto
  note alloc_arena [OF ar len room mr' al, of False]
  moreover have "ca (store_clause ps s) = ca_modify cr (setDerived False) a'" "db (store_clause ps s) = insert cr (db s)"
    "tmp_clause (store_clause ps s) = tmp_clause s"
    by (simp_all add: store_clause_def alloc_clause_def al attachClause_def add_literals_def Let_def db_def)
  ultimately show "arena_ok (db (store_clause ps s)) (ca (store_clause ps s))" "tmp_clause (store_clause ps s) = tmp_clause s"
    by simp_all
qed

lemma insertVarOrder_tmp [simp]: "tmp_clause (insertVarOrder x s) = tmp_clause s"
  by (simp add: insertVarOrder_def heap_insert_var_def split: option.split)

lemma newVar_tmp: "tmp_clause (snd (newVar b d s)) = tmp_clause s"
proof -
  obtain v s1 where p: "pick_var s = (v, s1)" by fastforce
  have "tmp_clause s1 = tmp_clause s" using p by (auto simp: pick_var_def push_var_def split: if_splits)
  then show ?thesis by (simp add: newVar_def p setDecisionVar_def Let_def reset_var_def case_prod_beta)
qed

lemma two_vars_arena: "arena_ok (db two_vars) (ca two_vars)" "tmp_clause two_vars = CRef_Undef"
proof -
  have wf: "allocator_wf (ca two_vars)" using root_okD(4) [OF two_vars_ok(1)] .
  show "arena_ok (db two_vars) (ca two_vars)"
    using wf by (simp add: arena_ok_def db_def two_vars_ok)
  show "tmp_clause two_vars = CRef_Undef" by (simp add: two_vars_def newVar_tmp) (simp add: empty_solver_def solver_new_def)
qed

lemma demo_arena: "arena_ok (db demo) (ca demo)" "tmp_clause demo = CRef_Undef"
proof -
  let ?s = "store_clause [mkLit 0 False, mkLit 1 False] two_vars"
  have r: "unat (rsz (region_of (ca two_vars))) = 0" by (simp add: two_vars_ok)
  have l: "lit_ok 2 (mkLit 0 False)" "lit_ok 2 (mkLit 1 False)" "mkLit 0 False \<noteq> mkLit 1 False"
    by (simp_all add: lit_ok_def mkLit_def)
  have nF: "\<not> isF two_vars l" if "lit_ok 2 l" for l
    using trail_okD(2) [OF root_okD(5) [OF two_vars_ok(1)]] that by (simp add: two_vars_ok)
  note 1 = store_clause_arena [OF two_vars_arena(1), of "[mkLit 0 False, mkLit 1 False]"]
  have s1: "arena_ok (db ?s) (ca ?s)" "tmp_clause ?s = CRef_Undef"
    using 1 two_vars_arena(2) by (simp_all add: two_vars_ok)
  have "unat (rsz (region_of (ca ?s))) \<le> 4" "marker_refs (ca ?s) = CRef_Undef"
    using store_clause_ok [OF two_vars_ok(1), of "[mkLit 0 False, mkLit 1 False]"] l nF by (auto simp: two_vars_ok)
  then show "arena_ok (db demo) (ca demo)" "tmp_clause demo = CRef_Undef"
    using store_clause_arena [OF s1(1), of "[mkLit 0 False, mkLit 1 True]"] s1(2) by (simp_all add: demo_def)
qed

theorem garbageCollect_correct_witness:
  "\<exists>F s'. garbageCollect demo = Some s' \<and> inj_on F (db demo) \<and> solver_inv (db s') s' \<and> arena_ok (db s') (ca s') \<and>
     (\<forall>cr \<in> db demo. lits (clause_at s' (F cr)) = lits (clause_at demo cr))"
proof -
  from garbageCollect_correct [OF root_okD(1) [OF demo_ok(1)] demo_arena] obtain F w vd a s' where g:
    "garbageCollect demo = Some s'"
    "s' = demo\<lparr>watches := w, vardata := vd, learnts := map F (learnts demo), clauses := map F (clauses demo), ca := a\<rparr>"
    "inj_on F (db demo)" "\<forall>cr \<in> db demo. copy_of (clause_at demo cr) (clause_at s' (F cr))" "solver_inv (db s') s'"
    "arena_ok (db s') a" by blast
  have "ca s' = a" by (simp add: g(2))
  then show ?thesis using g(1,3-6) by (intro exI [of _ F] exI [of _ s']) (simp add: copy_of_def)
qed

end
