(* ===== verification/Clean_Correct.thy ===== *)
theory Clean_Correct
  imports GC_Correct Analyze_Correct
begin

text \<open>
  Deleting clauses: \<^verbatim>\<open>removeClause\<close> and the loops of \<^verbatim>\<open>reduceDB\<close> and \<^verbatim>\<open>removeSatisfied\<close> keep the invariants of
  the solver for the clauses that are left, and a garbage collection keeps those about levels as well.
\<close>

section \<open>Deleting one clause\<close>

text \<open>What deleting clauses leaves alone.\<close>

definition clean_frame :: "'h solver \<Rightarrow> 'h solver \<Rightarrow> bool" where
  "clean_frame s s' \<longleftrightarrow>
     assigns s' = assigns s \<and> trail s' = trail s \<and> trail_lim s' = trail_lim s \<and> qhead s' = qhead s \<and> nVars s' = nVars s \<and>
     opts s' = opts s \<and> ok s' = ok s \<and> decision s' = decision s \<and> seen s' = seen s \<and> order_heap s' = order_heap s \<and>
     activity s' = activity s \<and> priority s' = priority s \<and> ths s' = ths s \<and> ana_rest s' = ana_rest s \<and>
     marker_refs (ca s') = marker_refs (ca s)"

lemma clean_frame_refl: "clean_frame s s"
  by (simp add: clean_frame_def)

lemma clean_frame_trans: "clean_frame s s' \<Longrightarrow> clean_frame s' s'' \<Longrightarrow> clean_frame s s''"
  by (simp add: clean_frame_def)

lemma clean_frame_eqs:
  assumes "clean_frame s s'"
  shows "isT s' = isT s" "isF s' = isF s" "isU s' = isU s" "decisionLevel s' = decisionLevel s"
    "isClause (ca s') = isClause (ca s)"
  using assms state_eqs [of s' s] by (simp_all add: clean_frame_def decisionLevel_def isClause_def fun_eq_iff)

text \<open>The invariants that deletion and collection keep.\<close>

definition tidy :: "CRef set \<Rightarrow> 'h solver \<Rightarrow> bool" where
  "tidy A s \<longleftrightarrow> solver_inv A s \<and> queue_done A s \<and> levels_ok A s \<and> prefix_done A s \<and> no_theory_reasons s \<and> arena_ok A (ca s)"

lemma tidyD:
  assumes "tidy A s"
  shows "solver_inv A s" and "queue_done A s" and "levels_ok A s" and "prefix_done A s" and "no_theory_reasons s"
    and "arena_ok A (ca s)" and "trail_ok s" and "reasons_ok A s" and "reasons_live A s" and "occ_wf (watches s)"
    and "winv (nVars s) A (clits s) (wlist (watches_cleanAll s))" and "length (occs (watches s)) = 2 * nVars s"
    and "lit_ok (nVars s) q \<Longrightarrow> w \<in> set (wlist s q) \<Longrightarrow> mem (ca s) (cref w) \<noteq> None"
    and "cr \<in> A \<Longrightarrow> mem (ca s) cr \<noteq> None \<and> isClause (ca s) cr"
    and "cr \<in> A \<Longrightarrow> 2 \<le> length (clits s cr) \<and> distinct (clits s cr) \<and> (\<forall>l \<in> set (clits s cr). lit_ok (nVars s) l)"
  using assms winvD(1) [of "nVars s" A "clits s" "wlist (watches_cleanAll s)"]
  by (auto simp: tidy_def solver_inv_def bcp_inv_def clauses_ok_def)

lemma winv_delete:
  assumes wi: "winv n A L W" and W: "\<And>q. lit_ok n q \<Longrightarrow> W' q = filter (\<lambda>w. cref w \<noteq> cr) (W q)"
  shows "winv n (A - {cr}) L W'"
  unfolding winv_def
proof (intro conjI allI impI ballI)
  show "clauses_ok n (A - {cr}) L" using winvD(1) [OF wi] by (auto simp: clauses_ok_def)
  fix q assume q: "lit_ok n q"
  show "distinct (map cref (W' q))" using winvD(2) [OF wi q] by (simp add: W [OF q] distinct_map_filter)
  show "cref w \<in> A - {cr}" "blocker w \<in> set (L (cref w))" "watched (L (cref w)) q" if "w \<in> set (W' q)" for w
    using that winvD(3) [OF wi q, of w] by (simp_all add: W [OF q])
  show "r \<in> cref ` set (W' q)" if "r \<in> A - {cr}" "watched (L r) q" for r
    using winvD(4) [OF wi q, of r] that by (auto simp: W [OF q])
qed

lemma smudge_facts:
  "occs (smudge i w) = occs w" "dirty (smudge i w) = (dirty w)[i := True]"
  "occ_wf w \<Longrightarrow> i < length (occs w) \<Longrightarrow> occ_wf (smudge i w)"
proof -
  have "dirty w ! i \<Longrightarrow> (dirty w)[i := True] = dirty w" by (metis (full_types) list_update_id)
  then show "dirty (smudge i w) = (dirty w)[i := True]" by (simp add: smudge_def)
  show "occs (smudge i w) = occs w" by (simp add: smudge_def)
  show "occ_wf w \<Longrightarrow> i < length (occs w) \<Longrightarrow> occ_wf (smudge i w)"
    by (auto simp: smudge_def occ_wf_def nth_list_update)
qed

lemma removeClause_spec:
  fixes s :: "'h solver"
  assumes td: "tidy A s" and cr: "cr \<in> A"
    and root: "locked s cr \<Longrightarrow> level s (var (clits s cr ! 0)) = 0"
  defines "s' \<equiv> removeClause cr s"
  shows "tidy (A - {cr}) s'" and "clean_frame s s'" and "clits s' = clits s" and "level s' = level s"
    and "clauses s' = clauses s" and "learnts s' = learnts s"
    and "region_of (ca s') = (region_of (ca s))\<lparr>rwasted := rwasted (region_of (ca s)) + word_of_nat (cells (clause_at s cr))\<rparr>"
    and "\<And>r. r \<noteq> cr \<Longrightarrow> clause_at s' r = clause_at s r"
    and "\<And>p. p \<in> set (trail s) \<Longrightarrow> reason s' (var p) = (if reason s (var p) = cr then CRef_Undef else reason s (var p))"
    and "\<And>p. p \<in> set (trail s) \<Longrightarrow> reason s' (var p) = reason s (var p) \<or> level s (var p) = 0"
proof -
  note t = tidyD [OF td]
  let ?n = "nVars s" and ?c = "clits s cr"
  define w where "w = smudge (lix (neg (?c ! 1))) (smudge (lix (neg (?c ! 0))) (watches s))"
  let ?x = "var (?c ! 0)"
  let ?vd = "if locked s cr then (vardata s)[vix ?x := (vardata s ! vix ?x)\<lparr>vreason := CRef_Undef\<rparr>] else vardata s"
  define a where "a = ca_free cr (ca_modify cr (set_mark 1) (ca s))"
  have c2: "2 \<le> length ?c" "distinct ?c" "\<forall>l \<in> set ?c. lit_ok ?n l" using t(15) [OF cr] by auto
  have m01: "?c ! 0 \<in> set ?c" "?c ! 1 \<in> set ?c" using first_two [OF c2(1)] by auto
  have ok01: "lit_ok ?n (neg (?c ! 0))" "lit_ok ?n (neg (?c ! 1))" using c2(3) m01 by auto
  obtain d where d: "mem (ca s) cr = Some d" using t(14) [OF cr] by auto
  have s1: "the (detachClause cr False s) = add_literals (clause_at s cr) (- int (clause_size (clause_at s cr))) (s\<lparr>watches := w\<rparr>)"
    by (simp add: detachClause_def Let_def clits_def w_def)
  have lk: "locked (the (detachClause cr False s)) cr = locked s cr"
    by (simp add: s1 add_literals_def locked_def clause_at_def reason_def isT_def lvalue_def Let_def)
  have s': "s' = (add_literals (clause_at s cr) (- int (clause_size (clause_at s cr))) (s\<lparr>watches := w\<rparr>))\<lparr>vardata := ?vd, ca := a\<rparr>"
    unfolding s'_def removeClause_def Let_def lk
    by (simp add: a_def s1 add_literals_def clause_at_def clits_def)
  have f: "trail s' = trail s" "trail_lim s' = trail_lim s" "assigns s' = assigns s" "qhead s' = qhead s" "watches s' = w"
    "vardata s' = ?vd" "ca s' = a" "clauses s' = clauses s" "learnts s' = learnts s"
    by (simp_all add: s' add_literals_def)
  have ma: "mem a = (mem (ca s))(cr \<mapsto> set_mark 1 d)" "marker_refs a = marker_refs (ca s)"
    "extra_clause_field a = extra_clause_field (ca s)"
    by (simp_all add: a_def ca_free_def ca_modify_def d split: option.splits)
  have isc: "\<not> marker_refs (ca s) \<le> cr" using t(14) [OF cr] by (simp add: isClause_def not_le)
  have reg: "region_of a = (region_of (ca s))\<lparr>rwasted := rwasted (region_of (ca s)) + word_of_nat (cells (clause_at s cr))\<rparr>"
    using isc by (simp add: a_def ca_free_def ca_modify_def d region_free_def cells_def clause_at_def ca_get_def
        set_mark_def clause_size_def)
  show "region_of (ca s') = (region_of (ca s))\<lparr>rwasted := rwasted (region_of (ca s)) + word_of_nat (cells (clause_at s cr))\<rparr>"
    unfolding f by (rule reg)
  have nv: "nVars s' = ?n" by (simp add: nVars_def f)
  show cl: "clits s' = clits s" by (auto simp: fun_eq_iff clits_def clause_at_def ca_get_def f ma d set_mark_def)
  show lv: "level s' = level s" by (auto simp: fun_eq_iff level_def f nth_list_update_any)
  show cf: "clean_frame s s'"
    by (simp add: clean_frame_def f ma nv) (simp add: s' add_literals_def ana_rest_def)
  show "clauses s' = clauses s" "learnts s' = learnts s" by (simp_all add: f)
  show cla: "clause_at s' r = clause_at s r" if "r \<noteq> cr" for r using that by (simp add: clause_at_def ca_get_def f ma)
  note e = clean_frame_eqs [OF cf]
  have lk_iff: "p = ?c ! 0 \<and> locked s cr" if p: "p \<in> set (trail s)" "reason s (var p) = cr" for p
  proof -
    obtain k where k: "k < length (trail s)" "trail s ! k = p" using p(1) by (auto simp: in_set_conv_nth)
    then have "?c ! 0 = p" using t(8) p(2) cr by (auto simp: reasons_ok_def)
    then show ?thesis using p t(14) [OF cr] trail_okD(1,4) [OF t(7)]
      by (auto simp: locked_def Let_def clits_def [symmetric])
  qed
  show rs: "reason s' (var p) = (if reason s (var p) = cr then CRef_Undef else reason s (var p))" if p: "p \<in> set (trail s)" for p
  proof (cases "locked s cr")
    case True
    then have r0: "reason s ?x = cr" by (simp add: locked_def Let_def clits_def)
    have "vix (var p) < length (vardata s)" using lit_ok_vix [OF trail_okD(4) [OF t(7) p]] by (simp add: nVars_def)
    moreover have "vix (var p) = vix ?x \<longleftrightarrow> var p = ?x"
      using distinct_vix [OF t(7) p, of "?c ! 0"] c2(3) m01(1) by blast
    moreover have "reason s (var p) = cr \<longleftrightarrow> var p = ?x" using lk_iff [OF p] r0 by auto
    ultimately show ?thesis using True by (auto simp: reason_def f)
  next
    case False
    then have "reason s (var p) \<noteq> cr" using lk_iff [OF p] by blast
    then show ?thesis using False by (simp add: reason_def f)
  qed
  show "reason s' (var p) = reason s (var p) \<or> level s (var p) = 0" if "p \<in> set (trail s)" for p
    using rs [OF that] lk_iff [OF that] root by auto
  have lx: "lix q < length (occs (watches s))" if "lit_ok ?n q" for q using lit_ok_lix [OF that] t(12) by simp
  have wf: "occ_wf w" unfolding w_def using lx ok01 t(10) by (intro smudge_facts(3)) (simp_all add: smudge_facts)
  have wo: "occs w = occs (watches s)" by (simp add: w_def smudge_facts)
  have del: "watcher_deleted a w = (cref w = cr \<or> watcher_deleted (ca s) w)" for w
    by (auto simp: watcher_deleted_def ca_get_def ma set_mark_def)
  have fine: "\<not> watcher_deleted (ca s) w" if "cref w \<in> A" for w
    using arena_okD(5) [OF t(6) that] by (simp add: watcher_deleted_def clause_fine_def)
  have wl: "wlist (watches_cleanAll s') q = filter (\<lambda>w. cref w \<noteq> cr) (wlist (watches_cleanAll s) q)" if q: "lit_ok ?n q" for q
  proof -
    have i: "lix (neg (?c ! 0)) = lix q \<longleftrightarrow> q = neg (?c ! 0)" "lix (neg (?c ! 1)) = lix q \<longleftrightarrow> q = neg (?c ! 1)"
      using lix_inject [OF ok01(1) q] lix_inject [OF ok01(2) q] by auto
    have dl: "length (dirty (watches s)) = length (occs (watches s))" using t(10) by (simp add: occ_wf_def)
    have dw: "dirty w ! lix q = (watched ?c q \<or> dirty (watches s) ! lix q)"
      using i lx [OF q] lx [OF ok01(1)] lx [OF ok01(2)] by (auto simp: w_def smudge_facts nth_list_update_any dl watched_def)
    have w1: "wlist (watches_cleanAll s') q =
        (if dirty w ! lix q then filter (\<lambda>w. \<not> watcher_deleted a w) (wlist s q) else wlist s q)"
      using wlist_cleanAll [of s' q] wf lx [OF q] by (simp add: f wlist_def wo)
    note w0 = wlist_cleanAll [OF t(10) lx [OF q]]
    have inA: "cref w \<in> A \<and> watched (clits s (cref w)) q" if "w \<in> set (wlist (watches_cleanAll s) q)" for w
      using winvD(3) [OF t(11) q that] by blast
    show ?thesis
    proof (cases "dirty (watches s) ! lix q")
      case True
      then have "dirty w ! lix q" by (simp add: dw)
      then show ?thesis unfolding w1 w0 using True by (simp add: del conj_commute)
    next
      case False
      then have nd: "\<forall>u \<in> set (wlist s q). \<not> watcher_deleted (ca s) u" using inA fine w0 by auto
      have nw: "\<not> watched ?c q \<Longrightarrow> \<forall>u \<in> set (wlist s q). cref u \<noteq> cr" using inA w0 False by auto
      show ?thesis
      proof (cases "watched ?c q")
        case True
        have "filter (\<lambda>u. \<not> watcher_deleted a u) (wlist s q) = filter (\<lambda>u. cref u \<noteq> cr) (wlist s q)"
          using nd by (intro filter_cong) (simp_all add: del)
        then show ?thesis using True False unfolding w1 w0 by (simp add: dw)
      next
        case nw': False
        have "filter (\<lambda>u. cref u \<noteq> cr) (wlist s q) = wlist s q" using nw [OF nw'] by simp
        then show ?thesis using nw' False unfolding w1 w0 by (simp add: dw)
      qed
    qed
  qed
  have wi: "winv ?n (A - {cr}) (clits s) (wlist (watches_cleanAll s'))" by (rule winv_delete [OF t(11) wl])
  have tok: "trail_ok s'" using t(7) by (simp add: trail_ok_def f e nv)
  have ro: "reasons_ok (A - {cr}) s'"
    unfolding reasons_ok_def f cl
  proof (intro allI impI)
    fix k assume k: "k < length (trail s)" "reason s' (var (trail s ! k)) \<in> A - {cr}"
    have "CRef_Undef \<notin> A" using t(14) not_isClause_Undef by blast
    then have "reason s' (var (trail s ! k)) = reason s (var (trail s ! k))" using rs [OF nth_mem [OF k(1)]] k(2) by (auto split: if_splits)
    then show "clits s (reason s' (var (trail s ! k))) ! 0 = trail s ! k \<and>
        (\<forall>l \<in> set (clits s (reason s' (var (trail s ! k)))). l \<noteq> trail s ! k \<longrightarrow> neg l \<in> set (take k (trail s)))"
      using t(8) k by (simp add: reasons_ok_def)
  qed
  have rl: "reasons_live (A - {cr}) s'"
    using t(9) rs by (auto simp: reasons_live_def f(1) e(5))
  have len: "length (occs (watches s')) = 2 * nVars s'" using t(12) by (simp add: f wo nv)
  have "mem (ca s') (cref w) \<noteq> None" if "lit_ok ?n q" "w \<in> set (wlist s' q)" for q w
    using t(13) [OF that(1), of w] that(2) by (simp add: wlist_def f wo ma)
  then have si: "solver_inv (A - {cr}) s'"
    using tok wi ro rl len td wf t(14) by (auto simp: solver_inv_def bcp_inv_def nv cl f ma e(5) [unfolded f] tidy_def)
  have qd: "queue_done (A - {cr}) s'" using t(2) by (auto simp: queue_done_def processed_def sat_clause_def f cl e)
  have lo: "levels_ok (A - {cr}) s'"
    unfolding levels_ok_def f lv cl e(4)
  proof (intro conjI allI impI ballI)
    note L = levels_okD [OF t(3)]
    show "sorted (trail_lim s)" "\<And>b. b \<in> set (trail_lim s) \<Longrightarrow> b \<le> length (trail s)"
      "\<And>p. p \<in> set (trail s) \<Longrightarrow> level s (var p) \<le> decisionLevel s"
      using t(3) by (auto simp: levels_ok_def)
    show "level s (var p) \<le> j" if "j < decisionLevel s" "p \<in> set (take (trail_lim s ! j) (trail s))" for j p
      by (rule L(4) [OF that])
    show "level s (var l) \<le> level s (var p)"
      if "p \<in> set (trail s)" "reason s' (var p) \<in> A - {cr}" "l \<in> set (clits s (reason s' (var p)))" for p l
    proof -
      have "CRef_Undef \<notin> A" using t(14) not_isClause_Undef by blast
      then have "reason s' (var p) = reason s (var p)" using rs [OF that(1)] that(2) by (auto split: if_splits)
      then show ?thesis using L(5) [of p l] that by simp
    qed
    fix k assume k: "k < length (trail s)" "0 < level s (var (trail s ! k)) \<and> reason s' (var (trail s ! k)) = CRef_Undef"
    have "reason s (var (trail s ! k)) = CRef_Undef"
      using rs [OF nth_mem [OF k(1)]] k lk_iff [OF nth_mem [OF k(1)]] root by (auto split: if_splits)
    then show "k = trail_lim s ! (level s (var (trail s ! k)) - 1)" using L(6) [OF k(1)] k(2) by simp
  qed
  have pd: "prefix_done (A - {cr}) s'" using t(4) by (auto simp: prefix_done_def f cl e(4))
  have nt: "no_theory_reasons s'" using t(5) rs by (auto simp: no_theory_reasons_def f isTheoryCause_def e(5) [unfolded f])
  note ad = arena_okD [OF t(6)]
  have sum: "(\<Sum>r \<in> A. cells (ca_get (ca s) r)) = cells (ca_get (ca s) cr) + (\<Sum>r \<in> A - {cr}. cells (ca_get (ca s) r))"
    by (rule sum.remove [OF ad(3) cr])
  then have le: "unat (rwasted (region_of (ca s))) + cells (clause_at s cr) \<le> unat (rsz (region_of (ca s)))"
    using ad(6) by (simp add: clause_at_def)
  have "unat (word_of_nat (cells (clause_at s cr)) :: 32 word) = cells (clause_at s cr)"
    using le ad(7) by (simp add: unsigned_of_nat take_bit_nat_eq_self)
  then have uw: "unat (rwasted (region_of (ca s)) + word_of_nat (cells (clause_at s cr))) =
      unat (rwasted (region_of (ca s))) + cells (clause_at s cr)"
    using le ad(7) by (subst unat_add_lem [THEN iffD1]) simp_all
  have "arena_ok (A - {cr}) a"
    unfolding arena_ok_def
  proof (intro conjI ballI)
    show "allocator_wf a"
      using ad(1) d unfolding allocator_wf_def ma reg
      by (auto simp: region_wf_def set_mark_def clause_size_def split: if_splits)
    show "rsz (region_of a) \<le> marker_refs a" using ad(2) by (simp add: reg ma)
    show "finite (A - {cr})" using ad(3) by simp
    show "\<exists>c. mem a r = Some c \<and> clause_fine c" if "r \<in> A - {cr}" for r using that ad(4,5) by (auto simp: ma)
    have "(\<Sum>r \<in> A - {cr}. cells (ca_get a r)) = (\<Sum>r \<in> A - {cr}. cells (ca_get (ca s) r))"
      by (rule sum.cong) (auto simp: ca_get_def ma)
    then show "unat (rwasted (region_of a)) + (\<Sum>r \<in> A - {cr}. cells (ca_get a r)) \<le> unat (rsz (region_of a))"
      using ad(6) sum uw by (simp add: reg clause_at_def)
    show "unat (rsz (region_of a)) < 2643056797" using ad(7) by (simp add: reg)
  qed
  then show "tidy (A - {cr}) s'" using si qd lo pd nt by (simp add: tidy_def f)
qed

section \<open>Deleting clauses of a list\<close>

definition cleaned :: "CRef set \<Rightarrow> 'h solver \<Rightarrow> CRef set \<Rightarrow> 'h solver \<Rightarrow> bool" where
  "cleaned A s A' s' \<longleftrightarrow>
     tidy A' s' \<and> A' \<subseteq> A \<and> clean_frame s s' \<and> clits s' = clits s \<and> level s' = level s \<and> clauses s' = clauses s \<and>
     learnts s' = learnts s \<and> rsz (region_of (ca s')) = rsz (region_of (ca s)) \<and>
     (\<forall>p \<in> set (trail s). reason s' (var p) = reason s (var p) \<or> level s (var p) = 0)"

lemma cleaned_refl: "tidy A s \<Longrightarrow> cleaned A s A s"
  by (simp add: cleaned_def clean_frame_refl)

lemma cleaned_trans:
  assumes "cleaned A s A' s'" and "cleaned A' s' A'' s''"
  shows "cleaned A s A'' s''"
proof -
  have "trail s' = trail s" "level s' = level s" using assms(1) by (simp_all add: cleaned_def clean_frame_def)
  then have "\<forall>p \<in> set (trail s). reason s'' (var p) = reason s (var p) \<or> level s (var p) = 0"
    using assms unfolding cleaned_def by metis
  then show ?thesis using assms clean_frame_trans unfolding cleaned_def by auto
qed

lemma cleaned_remove:
  assumes "tidy A s" and "cr \<in> A" and "locked s cr \<Longrightarrow> level s (var (clits s cr ! 0)) = 0"
  shows "cleaned A s (A - {cr}) (removeClause cr s)"
  using removeClause_spec [OF assms] by (auto simp: cleaned_def)

lemma tidy_cong:
  assumes "trail s' = trail s" "assigns s' = assigns s" "vardata s' = vardata s" "ca s' = ca s" "watches s' = watches s"
    "qhead s' = qhead s" "trail_lim s' = trail_lim s"
  shows "tidy A s' = tidy A s"
proof -
  have e: "level s' = level s" "reason s' = reason s" "clits s' = clits s" using assms state_eqs by blast+
  have "levels_ok A s' = levels_ok A s" "prefix_done A s' = prefix_done A s" "no_theory_reasons s' = no_theory_reasons s"
    by (simp_all add: levels_ok_def prefix_done_def no_theory_reasons_def decisionLevel_def e assms isTheoryCause_def)
  then show ?thesis using solver_inv_cong [OF assms(1-6)] by (simp add: tidy_def assms)
qed

lemma remove_satisfied_loop_spec:
  assumes "tidy A s" and "set crs \<subseteq> A" and "distinct crs" and "trail_lim s = []" and "remove_satisfied_loop crs s = (kept, s')"
  shows "cleaned A s (A - (set crs - set kept)) s' \<and> set kept \<subseteq> set crs \<and> distinct kept \<and>
    (\<forall>cr \<in> set crs - set kept. \<exists>l \<in> set (clits s cr). isT s l)"
  using assms
proof (induction crs arbitrary: A s kept)
  case Nil
  then show ?case by (simp add: cleaned_refl)
next
  case (Cons cr crs)
  note t = tidyD [OF Cons.prems(1)]
  show ?case
  proof (cases "satisfied s (clause_at s cr)")
    case True
    have crA: "cr \<in> A" and fresh: "cr \<notin> set crs" using Cons.prems(2,3) by auto
    have root: "locked s cr \<Longrightarrow> level s (var (clits s cr ! 0)) = 0"
    proof -
      assume "locked s cr"
      then have "isT s (clits s cr ! 0)" by (simp add: locked_def Let_def clits_def)
      moreover have "lit_ok (nVars s) (clits s cr ! 0)" using t(15) [OF crA] first_two [of "clits s cr"] by blast
      ultimately have "clits s cr ! 0 \<in> set (trail s)" using trail_okD(1) [OF t(7)] by blast
      then show ?thesis using levels_okD(3) [OF t(3)] Cons.prems(4) by (simp add: decisionLevel_def)
    qed
    note c = cleaned_remove [OF Cons.prems(1) crA root]
    let ?s = "removeClause cr s"
    have c': "tidy (A - {cr}) ?s" "clits ?s = clits s" "isT ?s = isT s" "trail_lim ?s = []"
      using c clean_frame_eqs [of s ?s] Cons.prems(4) by (simp_all add: cleaned_def clean_frame_def)
    have r: "remove_satisfied_loop crs ?s = (kept, s')" using True Cons.prems(5) by simp
    have sub: "set crs \<subseteq> A - {cr}" using Cons.prems(2) fresh by auto
    note ih = Cons.IH [OF c'(1) sub _ c'(4) r]
    have i: "cleaned (A - {cr}) ?s (A - {cr} - (set crs - set kept)) s'" "set kept \<subseteq> set crs" "distinct kept"
      "\<forall>r \<in> set crs - set kept. \<exists>l \<in> set (clits s r). isT s l"
      using ih Cons.prems(3) c' by simp_all
    have "A - {cr} - (set crs - set kept) = A - (set (cr # crs) - set kept)" using i(2) fresh by auto
    moreover have "\<exists>l \<in> set (clits s cr). isT s l" using True by (simp add: satisfied_def clits_def)
    ultimately show ?thesis using cleaned_trans [OF c i(1)] i(2-4) by auto
  next
    case False
    obtain k where r: "remove_satisfied_loop crs s = (k, s')" "kept = cr # k"
      using False Cons.prems(5) by (auto split: prod.splits)
    have i: "cleaned A s (A - (set crs - set k)) s'" "set k \<subseteq> set crs" "distinct k"
      "\<forall>r \<in> set crs - set k. \<exists>l \<in> set (clits s r). isT s l"
      using Cons.IH [OF Cons.prems(1) _ _ Cons.prems(4) r(1)] Cons.prems(2,3) by auto
    have "set (cr # crs) - set kept = set crs - set k" using Cons.prems(3) by (auto simp: r(2))
    then show ?thesis using i Cons.prems(3) by (auto simp: r(2))
  qed
qed

lemma reduce_loop_spec:
  assumes "tidy A s" and "set crs \<subseteq> A" and "distinct crs" and "reduce_loop xl n i crs s = (kept, s')"
  shows "cleaned A s (A - (set crs - set kept)) s' \<and> set kept \<subseteq> set crs \<and> distinct kept"
  using assms
proof (induction crs arbitrary: A s kept i)
  case Nil
  then show ?case by (simp add: cleaned_refl)
next
  case (Cons cr crs)
  show ?case
  proof (cases "2 < clause_size (clause_at s cr) \<and> \<not> locked s cr \<and> (i < n div 2 \<or> act (clause_at s cr) < xl)")
    case True
    have crA: "cr \<in> A" and fresh: "cr \<notin> set crs" using Cons.prems(2,3) by auto
    let ?s0 = "s\<lparr>stats := (stats s)\<lparr>stats_removed_clauses := stats_removed_clauses (stats s) + 1\<rparr>\<rparr>"
    have t0: "tidy A ?s0" using Cons.prems(1) tidy_cong [of ?s0 s] by simp
    have "\<not> locked ?s0 cr" using True by (simp add: locked_def reason_def clause_at_def isT_def lvalue_def)
    then have c: "cleaned A ?s0 (A - {cr}) (removeClause cr ?s0)" using cleaned_remove [OF t0 crA] by blast
    have e0: "cleaned A s A ?s0"
      using t0 by (simp add: cleaned_def clean_frame_def nVars_def ana_rest_def clits_def clause_at_def level_def reason_def fun_eq_iff)
    have r: "reduce_loop xl n (Suc i) crs (removeClause cr ?s0) = (kept, s')" using True Cons.prems(4) by simp
    have sub: "set crs \<subseteq> A - {cr}" using Cons.prems(2) fresh by auto
    have i: "cleaned (A - {cr}) (removeClause cr ?s0) (A - {cr} - (set crs - set kept)) s'" "set kept \<subseteq> set crs" "distinct kept"
      using Cons.IH [OF _ sub _ r] c Cons.prems(3) by (simp_all add: cleaned_def)
    have "A - {cr} - (set crs - set kept) = A - (set (cr # crs) - set kept)" using i(2) fresh by auto
    then show ?thesis using cleaned_trans [OF e0 cleaned_trans [OF c i(1)]] i(2,3) by auto
  next
    case False
    obtain k where r: "reduce_loop xl n (Suc i) crs s = (k, s')" "kept = cr # k"
      using False Cons.prems(4) by (auto split: prod.splits if_splits)
    have i: "cleaned A s (A - (set crs - set k)) s'" "set k \<subseteq> set crs" "distinct k"
      using Cons.IH [OF Cons.prems(1) _ _ r(1)] Cons.prems(2,3) by auto
    have "set (cr # crs) - set kept = set crs - set k" using Cons.prems(3) by (auto simp: r(2))
    then show ?thesis using i Cons.prems(3) by (auto simp: r(2))
  qed
qed

section \<open>Collections\<close>

text \<open>A state in which the clauses have other references: \<open>F\<close> renames them.\<close>

definition renamed :: "(CRef \<Rightarrow> CRef) \<Rightarrow> 'h solver \<Rightarrow> 'h solver \<Rightarrow> bool" where
  "renamed F s s' \<longleftrightarrow>
     tidy (db s') s' \<and> inj_on F (db s) \<and> clauses s' = map F (clauses s) \<and> learnts s' = map F (learnts s) \<and>
     (\<forall>cr \<in> db s. clits s' (F cr) = clits s cr) \<and> clean_frame s s' \<and>
     (\<forall>p \<in> set (trail s). level s' (var p) = level s (var p) \<and>
        (reason s' (var p) = CRef_Undef \<longleftrightarrow> reason s (var p) = CRef_Undef)) \<and>
     unat (rsz (region_of (ca s'))) \<le> unat (rsz (region_of (ca s)))"

lemma renamed_refl: "tidy (db s) s \<Longrightarrow> renamed (\<lambda>cr. cr) s s"
  by (simp add: renamed_def clean_frame_refl)

lemma garbageCollect_renamed:
  assumes td: "tidy (db s) s" and tmp: "tmp_clause s = CRef_Undef"
  shows "\<exists>F s'. garbageCollect s = Some s' \<and> renamed F s s'"
proof -
  note t = tidyD [OF td]
  from garbageCollect_spec [OF t(1) refl t(6) tmp] obtain F w vd a s' where g: "garbageCollect s = Some s'"
    "s' = s\<lparr>watches := w, vardata := vd, learnts := map F (learnts s), clauses := map F (clauses s), ca := a\<rparr>"
    "inj_on F (db s)" "\<forall>cr \<in> db s. copy_of (clause_at s cr) (clause_at s' (F cr))"
    "\<forall>p. lit_ok (nVars s) p \<longrightarrow> level s' (var p) = level s (var p)" "nVars s' = nVars s"
    "\<forall>p \<in> set (trail s). reason s' (var p) = (if isClause (ca s) (reason s (var p)) then F (reason s (var p)) else reason s (var p))"
    "solver_inv (db s') s'" "queue_done (db s) s \<longrightarrow> queue_done (db s') s'" "arena_ok (db s') a"
    "marker_refs a = marker_refs (ca s)" "unat (rsz (region_of a)) \<le> unat (rsz (region_of (ca s))) - unat (rwasted (region_of (ca s)))"
    by blast
  have f: "trail s' = trail s" "assigns s' = assigns s" "trail_lim s' = trail_lim s" "ca s' = a"
    "clauses s' = map F (clauses s)" "learnts s' = map F (learnts s)" "decisionLevel s' = decisionLevel s"
    by (simp_all add: g(2) decisionLevel_def)
  have db': "db s' = F ` db s" by (simp add: db_def f image_Un)
  have cl: "clits s' (F cr) = clits s cr" if "cr \<in> db s" for cr using g(4) that by (simp add: copy_of_def clits_def)
  have cf: "clean_frame s s'" using g(6,11) by (simp add: clean_frame_def f) (simp add: g(2) ana_rest_def)
  have tl: "lit_ok (nVars s) p" if "p \<in> set (trail s)" for p by (rule trail_okD(4) [OF t(7) that])
  have lv: "level s' (var p) = level s (var p)" if "p \<in> set (trail s)" for p using g(5) tl [OF that] by blast
  have isC: "isClause (ca s') cr" if "cr \<in> db s'" for cr using g(8) that by (auto simp: solver_inv_def bcp_inv_def)
  have live: "reason s (var p) \<in> db s \<and> reason s' (var p) = F (reason s (var p))"
    if "p \<in> set (trail s)" "isClause (ca s) (reason s (var p))" for p using that t(9) g(7) by (simp add: reasons_live_def)
  have dead: "reason s (var p) = CRef_Undef \<and> reason s' (var p) = CRef_Undef"
    if "p \<in> set (trail s)" "\<not> isClause (ca s) (reason s (var p))" for p
    using that t(5) g(7) by (auto simp: no_theory_reasons_def isTheoryCause_def)
  have un: "CRef_Undef \<notin> db s'" using isC not_isClause_Undef by blast
  have rs: "reason s' (var p) = CRef_Undef \<longleftrightarrow> reason s (var p) = CRef_Undef" if p: "p \<in> set (trail s)" for p
  proof (cases "isClause (ca s) (reason s (var p))")
    case True
    then have "reason s' (var p) \<in> db s'" "reason s (var p) \<in> db s" using live [OF p] db' by auto
    then show ?thesis using un True by (metis not_isClause_Undef)
  qed (use dead [OF p] in simp)
  have inv': "reason s (var p) \<in> db s \<and> reason s' (var p) = F (reason s (var p))"
    if p: "p \<in> set (trail s)" "reason s' (var p) \<in> db s'" for p
    using live [OF p(1)] dead [OF p(1)] p(2) un by (cases "isClause (ca s) (reason s (var p))") auto
  note L = levels_okD [OF t(3)]
  have "levels_ok (db s') s'"
    unfolding levels_ok_def f
  proof (intro conjI allI impI ballI)
    show "sorted (trail_lim s)" "\<And>b. b \<in> set (trail_lim s) \<Longrightarrow> b \<le> length (trail s)" using t(3) by (auto simp: levels_ok_def)
    show "level s' (var p) \<le> decisionLevel s" if "p \<in> set (trail s)" for p using L(3) [OF that] lv [OF that] by simp
    show "level s' (var p) \<le> j" if "j < decisionLevel s" "p \<in> set (take (trail_lim s ! j) (trail s))" for j p
      using L(4) [OF that] lv in_set_takeD [OF that(2)] by simp
    show "level s' (var l) \<le> level s' (var p)"
      if p: "p \<in> set (trail s)" "reason s' (var p) \<in> db s'" "l \<in> set (clits s' (reason s' (var p)))" for p l
    proof -
      have r: "reason s (var p) \<in> db s" "l \<in> set (clits s (reason s (var p)))" using inv' [OF p(1,2)] p(3) cl by auto
      have "lit_ok (nVars s) l" using t(15) [OF r(1)] r(2) by blast
      then show ?thesis using L(5) [OF p(1) r] lv [OF p(1)] g(5) by simp
    qed
    fix k assume k: "k < length (trail s)" "0 < level s' (var (trail s ! k)) \<and> reason s' (var (trail s ! k)) = CRef_Undef"
    then show "k = trail_lim s ! (level s' (var (trail s ! k)) - 1)"
      using L(6) [OF k(1)] lv [OF nth_mem [OF k(1)]] rs [OF nth_mem [OF k(1)]] by simp
  qed
  moreover have "prefix_done (db s') s'"
    using t(4) cl by (auto simp: prefix_done_def f db')
  moreover have "no_theory_reasons s'"
    using live dead isC db' by (auto simp: no_theory_reasons_def f(1) isTheoryCause_def)
  ultimately have "tidy (db s') s'" using g(8,9,10) t(2) by (simp add: tidy_def f(4))
  moreover have "unat (rsz (region_of (ca s'))) \<le> unat (rsz (region_of (ca s)))" using g(12) by (simp add: f(4))
  ultimately show ?thesis using g(1,3) f(5,6) cl cf lv rs by (auto simp: renamed_def)
qed

lemma checkGarbage_renamed:
  assumes "tidy (db s) s" and "tmp_clause s = CRef_Undef"
  shows "\<exists>F s'. checkGarbage s = Some s' \<and> renamed F s s'"
  using garbageCollect_renamed [OF assms] renamed_refl [OF assms(1)]
  by (auto simp: checkGarbage_def checkGarbage_above_def)

section \<open>Reducing the learnt clauses\<close>

lemma reduceDB_order: "strict_weak_order (\<lambda>x y. clause_size (clause_at s x) \<noteq> 2 \<and>
    (clause_size (clause_at s y) = 2 \<or> act (clause_at s x) < act (clause_at s y)))"
  by unfold_locales auto

end
