(* ===== verification/Solver_Search.thy ===== *)
theory Solver_Search
  imports Solver_GC Luby MTL_Sets
begin

text \<open>
  The search of \<^verbatim>\<open>core/Solver.cc\<close>: \<^verbatim>\<open>pickBranchLit\<close>, pure literals, \<^verbatim>\<open>search\<close>, and \<^verbatim>\<open>solve_\<close> with its restarts.
  The results of a call (\<^verbatim>\<open>model\<close>, \<^verbatim>\<open>conflict\<close>), the search options and the counters that only the search uses
  are in a record around the solver.  The gotos of \<^verbatim>\<open>search\<close> are the constructors of \<open>outcome\<close>.
\<close>

section \<open>The state of the search\<close>

record search_options =
  opt_decide_theories :: bool
  opt_random_theory_freq :: real
  opt_theory_order_vsids :: bool
  opt_random_theory_vsids_freq :: real
  opt_theory_conflict_max :: nat
  opt_vsids_solver_as_theory :: bool
  opt_randomize_theory_order_all :: bool
  opt_theory_decision_round_robin :: bool
  opt_subsearch :: nat
  opt_detect_pure_lits :: bool
  opt_rnd_phase :: bool
  opt_randomize_theory_order :: bool
  opt_rnd_restart :: bool
  opt_rnd_theory_restart :: bool
  opt_check_solution :: bool
  disable_theories :: bool
  luby_restart :: bool
  restart_inc :: real
  restart_first :: int
  learntsize_factor :: real
  learntsize_adjust_start_confl :: int

record 'h search =
  sol :: "'h solver"
  cfg :: search_options
  model :: "lbool list"
  conflict :: "Lit intset"
  lit_occurs :: "bool list"
  lit_seen :: "bool list"
  stats_pure_lits :: int
  stats_pure_theory_lits :: int
  pure_literal_detections :: nat
  solves :: nat
  starts :: nat
  n_theory_decision_rounds :: nat
  n_theory_conflicts :: nat
  consecutive_theory_conflicts :: nat
  next_theory_decision :: nat
  stats_solver_preempted_decisions :: nat
  stats_theory_decisions :: nat
  theory_decision_round_robin :: nat
  decisionTheory :: nat
  theoryDecision :: Lit
  progress_estimate :: real
  quit_at_restart :: bool
  override_restart_count :: int
  only_propagate_assumptions :: bool

text \<open>The further methods of the theories, and the conversion of the pseudo-Boolean constraints.\<close>

record 'h search_ops =
  th_decide :: "nat \<Rightarrow> 'h solver \<Rightarrow> (Lit \<times> 'h solver) option"
  th_solve :: "nat \<Rightarrow> 'h solver \<Rightarrow> (bool \<times> Lit list \<times> 'h solver) option"
  th_setLiteralOccurs :: "nat \<Rightarrow> Lit \<Rightarrow> bool \<Rightarrow> 'h \<Rightarrow> 'h"
  th_check_solved :: "nat \<Rightarrow> 'h solver \<Rightarrow> bool"
  pb_convert :: "'h solver \<Rightarrow> 'h solver option"

datatype outcome = Return lbool | Goto_propagate | Goto_conflict CRef

record locals =
  conflictC :: nat
  last_decision_was_theory :: bool
  using_theory_decisions :: bool
  using_theory_vsids :: bool

section \<open>Decisions\<close>

definition next_drand :: "'h solver \<Rightarrow> real \<times> 'h solver" where
  "next_drand s = (case drand (random_seed s) of (d, r) \<Rightarrow> (d, s\<lparr>random_seed := r\<rparr>))"

definition can_decide :: "'h solver \<Rightarrow> nat \<Rightarrow> bool" where
  "can_decide s v \<longleftrightarrow> lb_eq (assigns s ! v) l_Undef \<and> decision s ! v"

text \<open>Variables are taken from the heap until one is unassigned and may be decided; \<open>None\<close> is \<^verbatim>\<open>var_Undef\<close>.\<close>

partial_function (option) pick_loop :: "nat option \<Rightarrow> 'h solver \<Rightarrow> (nat option \<times> 'h solver) option" where
  "pick_loop nxt s =
     (if nxt = None \<or> \<not> can_decide s (the nxt)
      then case removeMin (varOrderLt (activity s) (priority s)) (order_heap s) of
             None \<Rightarrow> Some (None, s)
           | Some (x, h) \<Rightarrow> pick_loop (Some x) (s\<lparr>order_heap := h\<rparr>)
      else Some (nxt, s))"

definition pick_random :: "'h solver \<Rightarrow> nat option \<times> 'h solver" where
  "pick_random s =
     (let (d, s1) = next_drand s
      in if d < random_var_freq (opts s1) \<and> heap (order_heap s1) \<noteq> []
         then let (i, r) = irand (random_seed s1) (length (heap (order_heap s1)));
                  v = heap (order_heap s1) ! i; s2 = s1\<lparr>random_seed := r\<rparr>
              in (Some v, if can_decide s2 v then s2\<lparr>stats := (stats s2)\<lparr>rnd_decisions := rnd_decisions (stats s2) + 1\<rparr>\<rparr>
                          else s2)
         else (None, s1))"

definition pickBranchLit :: "'h solver \<Rightarrow> (Lit \<times> 'h solver) option" where
  "pickBranchLit s =
     (let (n, s1) = pick_random (s\<lparr>stats := (stats s)\<lparr>decisions := decisions (stats s) + 1\<rparr>\<rparr>)
      in do {
        (nxt, s2) \<leftarrow> pick_loop n s1;
        case nxt of
          None \<Rightarrow> Some (lit_Undef, s2)
        | Some v \<Rightarrow>
            if rnd_pol (opts s2)
            then let (d, s3) = next_drand s2 in Some (mkLit (int v) (d < 1 / 2), s3)
            else Some (mkLit (int v) (polarity s2 ! v), s2)
      })"

section \<open>Pure literals\<close>

fun see_lits :: "Lit list \<Rightarrow> bool list \<Rightarrow> bool list" where
  "see_lits [] b = b"
| "see_lits (l # ls) b = see_lits ls (b[lix l := True])"

definition see_all :: "'h solver \<Rightarrow> bool list \<Rightarrow> bool list" where
  "see_all s b =
     see_lits (concat (map (\<lambda>cr. lits (clause_at s cr)) (learnts s)))
       (see_lits (concat (map (\<lambda>cr. lits (clause_at s cr)) (clauses s))) (see_lits (trail s) b))"

definition literal_occurs :: "'h search_ops \<Rightarrow> Var \<Rightarrow> Lit \<Rightarrow> bool \<Rightarrow> 'h search \<Rightarrow> 'h search" where
  "literal_occurs Q v l b st =
     (let s = sol st; d = (if b then - 1 else 1);
          st1 = st\<lparr>lit_occurs := (lit_occurs st)[lix l := b], stats_pure_lits := stats_pure_lits st + d\<rparr>
      in if hasTheory s v
         then st1\<lparr>stats_pure_theory_lits := stats_pure_theory_lits st1 + d,
                  sol := s\<lparr>ths := (ths s)\<lparr>tstate :=
                    th_setLiteralOccurs Q (getTheoryID s v) (getTheoryLit s l) b (tstate (ths s))\<rparr>\<rparr>\<rparr>
         else st1)"

text \<open>A literal that started to occur, and one that no longer does.\<close>

definition literal_appears :: "'h search_ops \<Rightarrow> Var \<Rightarrow> Lit \<Rightarrow> 'h search \<Rightarrow> 'h search" where
  "literal_appears Q v l st =
     (if lit_seen st ! lix l \<and> \<not> lit_occurs st ! lix l then literal_occurs Q v l True st else st)"

definition literal_vanishes :: "'h search_ops \<Rightarrow> Var \<Rightarrow> Lit \<Rightarrow> 'h search \<Rightarrow> 'h search" where
  "literal_vanishes Q v l st =
     (if lit_occurs st ! lix l \<and> \<not> lit_seen st ! lix l then literal_occurs Q v l False st else st)"

fun pure_loop :: "'h search_ops \<Rightarrow> nat \<Rightarrow> nat \<Rightarrow> 'h search \<Rightarrow> 'h search" where
  "pure_loop Q v 0 st = st"
| "pure_loop Q v (Suc n) st =
     (let l = mkLit (int v) False
      in pure_loop Q (Suc v) n
           (literal_vanishes Q (int v) (neg l) (literal_vanishes Q (int v) l
             (literal_appears Q (int v) (neg l) (literal_appears Q (int v) l st)))))"

definition detect_pure_lits :: "'h search_ops \<Rightarrow> 'h search \<Rightarrow> 'h search" where
  "detect_pure_lits Q st =
     (let n = nVars (sol st);
          blank = replicate (max (n * 2) (length (lit_seen st))) False
      in pure_loop Q 0 n
           (st\<lparr>pure_literal_detections := pure_literal_detections st + 1,
               lit_occurs := grow_list (n * 2) False (lit_occurs st), lit_seen := see_all (sol st) blank\<rparr>))"

definition simplify :: "'h theory_ops \<Rightarrow> 'h search_ops \<Rightarrow> 'h search \<Rightarrow> (bool \<times> 'h search) option" where
  "simplify T Q st =
     do {
       (done_here, res, s1) \<leftarrow> simplify_clauses T (sol st);
       let st1 = st\<lparr>sol := s1\<rparr>;
       Some (res, if \<not> done_here \<and> opt_detect_pure_lits (cfg st1) then detect_pure_lits Q st1 else st1)
     }"

section \<open>Conflicts\<close>

definition count_conflict :: "locals \<Rightarrow> 'h search \<Rightarrow> 'h search" where
  "count_conflict l st =
     (let s = sol st;
          st1 = st\<lparr>sol := s\<lparr>stats := (stats s)\<lparr>conflicts := conflicts (stats s) + 1\<rparr>\<rparr>\<rparr>
      in if last_decision_was_theory l
         then let n = consecutive_theory_conflicts st1 + 1;
                  st2 = st1\<lparr>n_theory_conflicts := n_theory_conflicts st1 + 1, consecutive_theory_conflicts := n\<rparr>
              in if 0 < opt_theory_conflict_max (cfg st2) \<and> opt_theory_conflict_max (cfg st2) \<le> n
                 then st2\<lparr>next_theory_decision := conflicts (stats (sol st2)) + n, consecutive_theory_conflicts := 0\<rparr>
                 else st2
         else st1\<lparr>consecutive_theory_conflicts := 0\<rparr>)"

text \<open>The learnt clause is stored and asserted; \<open>None\<close> is the exit for a clause that is not asserting, which is
  possible only below a super solver.\<close>

definition learn_clause :: "'h theory_ops \<Rightarrow> Lit list \<Rightarrow> 'h solver \<Rightarrow> 'h solver option" where
  "learn_clause T out s =
     (if length out = 1 then Some (uncheckedEnqueue T (out ! 0) CRef_Undef s)
      else do {
        (cr, s1) \<leftarrow> alloc_clause out True s;
        let s2 = claBumpActivity cr (attachClause cr (s1\<lparr>learnts := learnts s1 @ [cr]\<rparr>));
        if isU s2 (out ! 0) then Some (uncheckedEnqueue T (out ! 0) cr s2) else None
      })"

definition bump_theories :: "'h theory_ops \<Rightarrow> 'h search \<Rightarrow> 'h solver \<Rightarrow> 'h solver" where
  "bump_theories T st s =
     (if - 1 < theoryConflict s
      then (theoryDecayActivity (theoryBumpActivity T (nat (theoryConflict s)) s))\<lparr>theoryConflict := - 1\<rparr>
      else if opt_vsids_solver_as_theory (cfg st)
      then theoryDecayActivity (theoryBumpActivity T (decisionTheory st) s)
      else s)"

definition conflict_step ::
  "'h theory_ops \<Rightarrow> CRef \<Rightarrow> locals \<Rightarrow> 'h search \<Rightarrow> (outcome \<times> locals \<times> 'h search) option" where
  "conflict_step T confl l st =
     (let st1 = count_conflict l st; l1 = l\<lparr>conflictC := conflictC l + 1\<rparr>
      in if decisionLevel (sol st1) = 0 then Some (Return l_False, l1, st1)
         else do {
           (out, lev, s2) \<leftarrow> analyze T confl (sol st1);
           s3 \<leftarrow> learn_clause T out (cancelUntil T lev s2);
           let s4 = adjust_learnts (claDecayActivity (varDecayActivity (bump_theories T st1 s3)));
           Some (Goto_propagate, l1, st1\<lparr>sol := s4\<rparr>)
         })"

section \<open>Assumptions and theory decisions\<close>

datatype assumed = All_assumed | Falsified Lit | Assume Lit

text \<open>The assumptions from the current level on; the second component is \<^verbatim>\<open>assumps_processed\<close>.\<close>

fun assume_loop :: "Lit list \<Rightarrow> bool \<Rightarrow> 'h solver \<Rightarrow> assumed \<times> bool \<times> 'h solver" where
  "assume_loop [] b s = (All_assumed, b, s)"
| "assume_loop (p # ps) b s =
     (if isT s p then assume_loop ps True (newDecisionLevel s)
      else if isF s p then (Falsified p, b, s)
      else (Assume p, b, s))"

definition lit_set :: "Lit list \<Rightarrow> 'h search \<Rightarrow> Lit intset" where
  "lit_set ls st = iset_insertAll lix ls (iset_clear lix False (conflict st))"

text \<open>Assigned variables are removed from the top of the heap; the second result is the priority of the rest.\<close>

partial_function (option) drop_assigned :: "'h solver \<Rightarrow> 'h solver option" where
  "drop_assigned s =
     (case peekMin (order_heap s) of
        None \<Rightarrow> Some s
      | Some v \<Rightarrow>
          if lb_eq (assigns s ! v) l_Undef then Some s
          else case removeMin (varOrderLt (activity s) (priority s)) (order_heap s) of
                 None \<Rightarrow> None
               | Some (x, h) \<Rightarrow> drop_assigned (s\<lparr>order_heap := h\<rparr>))"

definition next_priority :: "'h solver \<Rightarrow> int option" where
  "next_priority s = map_option (\<lambda>v. priority s ! v) (peekMin (order_heap s))"

text \<open>An empty heap has priority \<^verbatim>\<open>INT_MIN\<close>.\<close>

definition theory_first :: "'h theory_ops \<Rightarrow> int option \<Rightarrow> nat \<Rightarrow> 'h solver \<Rightarrow> bool" where
  "theory_first T pri t s \<longleftrightarrow> (case pri of None \<Rightarrow> True | Some k \<Rightarrow> k \<le> th_priority T (tstate (ths s)) t)"

definition solver_preempts :: "'h theory_ops \<Rightarrow> int option \<Rightarrow> nat \<Rightarrow> 'h solver \<Rightarrow> bool" where
  "solver_preempts T pri t s \<longleftrightarrow>
     opt_vsids_both (opts s) \<and> pri = Some (th_priority T (tstate (ths s)) t) \<and>
     (case peekMin (order_heap s) of None \<Rightarrow> False | Some v \<Rightarrow>
        lb_eq (assigns s ! v) l_Undef \<and> th_activity T (tstate (ths s)) t < activity s ! v)"

partial_function (option) vsids_decide ::
  "'h theory_ops \<Rightarrow> 'h search_ops \<Rightarrow> int option \<Rightarrow> 'h search \<Rightarrow> (Lit \<times> 'h search) option" where
  "vsids_decide T Q pri st =
     (let s = sol st
      in case peekMin (theory_order_heap (ths s)) of
           None \<Rightarrow> Some (lit_Undef, st)
         | Some t \<Rightarrow>
             if \<not> theory_first T pri t s then Some (lit_Undef, st)
             else if solver_preempts T pri t s
             then Some (lit_Undef, st\<lparr>stats_solver_preempted_decisions := stats_solver_preempted_decisions st + 1\<rparr>)
             else do {
               (nxt, s1) \<leftarrow> th_decide Q t s;
               if nxt \<noteq> lit_Undef then Some (nxt, st\<lparr>sol := s1\<rparr>)
               else do {
                 (x, h) \<leftarrow> removeMin (theoryOrderLt T (tstate (ths s1))) (theory_order_heap (ths s1));
                 let trail1 = (if 0 < decisionLevel s1 then theory_decision_trail (ths s1) @ [(t, decisionLevel s1)]
                               else theory_decision_trail (ths s1));
                 vsids_decide T Q pri
                   (st\<lparr>sol := s1\<lparr>ths := (ths s1)\<lparr>theory_order_heap := h, theory_decision_trail := trail1\<rparr>\<rparr>\<rparr>)
               }
             })"

text \<open>The other order: the loop computes the theory \<^verbatim>\<open>t\<close> of the round robin but asks the theory at \<^verbatim>\<open>i\<close>.\<close>

fun ordered_decide ::
  "'h theory_ops \<Rightarrow> 'h search_ops \<Rightarrow> int option \<Rightarrow> nat list \<Rightarrow> 'h solver \<Rightarrow> (Lit \<times> 'h solver) option" where
  "ordered_decide T Q pri [] s = Some (lit_Undef, s)"
| "ordered_decide T Q pri (t # ts) s =
     (if theory_first T pri t s
      then do {
        (nxt, s1) \<leftarrow> th_decide Q t s;
        if nxt = lit_Undef then ordered_decide T Q pri ts s1 else Some (nxt, s1)
      }
      else ordered_decide T Q pri ts s)"

definition shuffle_theories :: "'h solver \<Rightarrow> 'h solver" where
  "shuffle_theories s =
     (case randomShuffle (random_seed s) (decidable_theories (ths s)) of
        (r, ts) \<Rightarrow> s\<lparr>random_seed := r, ths := (ths s)\<lparr>decidable_theories := ts\<rparr>\<rparr>)"

text \<open>\<open>None\<close> also is the division by the number of deciding theories when there is none.\<close>

definition ordered_decide_all ::
  "'h theory_ops \<Rightarrow> 'h search_ops \<Rightarrow> int option \<Rightarrow> 'h search \<Rightarrow> (Lit \<times> 'h search) option" where
  "ordered_decide_all T Q pri st =
     (let s = (if opt_randomize_theory_order_all (cfg st) then shuffle_theories (sol st) else sol st);
          n = length (decidable_theories (ths s))
      in do {
        (nxt, s1) \<leftarrow> ordered_decide T Q pri (decidable_theories (ths s)) s;
        let st1 = st\<lparr>sol := s1\<rparr>;
        if opt_theory_decision_round_robin (cfg st1)
        then if n = 0 then None
             else Some (nxt, st1\<lparr>theory_decision_round_robin := (theory_decision_round_robin st1 + 1) mod n\<rparr>)
        else Some (nxt, st1)
      })"

definition theory_decision ::
  "'h theory_ops \<Rightarrow> 'h search_ops \<Rightarrow> locals \<Rightarrow> 'h search \<Rightarrow> (Lit \<times> locals \<times> 'h search) option" where
  "theory_decision T Q l st =
     do {
       s \<leftarrow> drop_assigned (sol st);
       let pri = next_priority s;
       let st1 = st\<lparr>sol := s\<rparr>;
       (nxt, st2) \<leftarrow> (if opt_theory_order_vsids (cfg st) \<and> using_theory_vsids l then vsids_decide T Q pri st1
                     else ordered_decide_all T Q pri st1);
       if nxt = lit_Undef then Some (nxt, l, st2)
       else let s2 = sol st2;
                s3 = (if theoryDecision st2 \<noteq> lit_Undef \<and> var nxt = var (theoryDecision st2)
                      then s2\<lparr>assigns := (assigns s2)[vix (var (theoryDecision st2)) := l_Undef]\<rparr> else s2)
            in Some (nxt, l\<lparr>last_decision_was_theory := True\<rparr>,
                     st2\<lparr>sol := s3, stats_theory_decisions := stats_theory_decisions st2 + 1\<rparr>)
     }"

section \<open>A complete assignment\<close>

text \<open>The theories are asked to solve their part; \<open>i\<close> is the next theory and \<open>n\<close> how many are left.\<close>

fun solve_theories ::
  "'h theory_ops \<Rightarrow> 'h search_ops \<Rightarrow> nat \<Rightarrow> nat \<Rightarrow> nat \<Rightarrow> CRef \<Rightarrow> 'h solver \<Rightarrow> (outcome \<times> 'h solver) option" where
  "solve_theories T Q sub i 0 confl s = Some (Return l_True, s)"
| "solve_theories T Q sub i (Suc n) confl s =
     (if sub = 3 \<and> track_min_level s < initial_level s then solve_theories T Q sub (Suc i) n confl s
      else do {
        (b, ps, s1) \<leftarrow> th_solve Q i s;
        if \<not> b
        then do {
          (b', confl', s2) \<leftarrow> addConflictClause T False confl ps s1;
          Some (if b' then Goto_propagate else Goto_conflict confl', s2)
        }
        else if qhead s1 < length (trail s1) \<or> hasNextDecision s1 then Some (Goto_propagate, s1)
        else solve_theories T Q sub (Suc i) n confl s1
      })"

text \<open>The end of an iteration: the decision is enqueued; \<open>None\<close> is the exception for a decision level that is too
  high.\<close>

definition enqueue_decision :: "'h theory_ops \<Rightarrow> Lit \<Rightarrow> 'h solver \<Rightarrow> 'h solver option" where
  "enqueue_decision T nxt s =
     (if nVars s + length (assumptions s) + 1 < decisionLevel s then None
      else Some (snd (enqueue T nxt CRef_Undef s)))"

definition decide_step ::
  "'h theory_ops \<Rightarrow> 'h search_ops \<Rightarrow> CRef \<Rightarrow> locals \<Rightarrow> 'h search \<Rightarrow> (outcome \<times> locals \<times> 'h search) option" where
  "decide_step T Q confl l st =
     (let s = sol st; (a, processed, s1) = assume_loop (drop (decisionLevel s) (assumptions s)) False s
      in case a of
           Falsified p \<Rightarrow>
             do {
               (c, s2) \<leftarrow> analyzeFinal T (neg p) s1;
               Some (Return l_False, l, st\<lparr>sol := s2, conflict := lit_set c st\<rparr>)
             }
         | Assume p \<Rightarrow> map_option (\<lambda>s2. (Goto_propagate, l, st\<lparr>sol := s2\<rparr>)) (enqueue_decision T p (newDecisionLevel s1))
         | All_assumed \<Rightarrow>
             if processed then Some (Goto_propagate, l, st\<lparr>sol := s1\<rparr>)
             else do {
               let st1 = st\<lparr>sol := newDecisionLevel s1\<rparr>;
               (nxt, l1, st2) \<leftarrow>
                 (if opt_decide_theories (cfg st1) \<and> \<not> disable_theories (cfg st1) \<and> using_theory_decisions l \<and>
                     (opt_theory_conflict_max (cfg st1) = 0 \<or> next_theory_decision st1 \<le> conflicts (stats (sol st1)))
                  then theory_decision T Q l st1 else Some (lit_Undef, l, st1));
               if nxt \<noteq> lit_Undef
               then map_option (\<lambda>s2. (Goto_propagate, l1, st2\<lparr>sol := s2\<rparr>)) (enqueue_decision T nxt (sol st2))
               else do {
                 (q, s3) \<leftarrow> pickBranchLit (sol st2);
                 if q = lit_Undef
                 then if disable_theories (cfg st2) then Some (Return l_True, l1, st2\<lparr>sol := s3\<rparr>)
                      else do {
                        (oc, s4) \<leftarrow> solve_theories T Q (opt_subsearch (cfg st2)) 0 (n_theories (ths s3)) confl s3;
                        Some (oc, l1, st2\<lparr>sol := s4\<rparr>)
                      }
                 else map_option (\<lambda>s2. (Goto_propagate, l1, st2\<lparr>sol := s2\<rparr>)) (enqueue_decision T q s3)
               }
             })"

section \<open>The search\<close>

text \<open>The progress estimate is the sum of the level sizes, weighted with powers of \<open>1 / nVars\<close>.\<close>

definition progressEstimate :: "'h solver \<Rightarrow> real" where
  "progressEstimate s =
     (let n = real (nVars s)
      in sum_list (map (\<lambda>i. (1 / n) ^ i *
           (real (if i = decisionLevel s then length (trail s) else trail_lim s ! i)
            - real (if i = 0 then 0 else trail_lim s ! (i - 1)))) [0 ..< Suc (decisionLevel s)]) / n)"

definition no_conflict_step ::
  "'h theory_ops \<Rightarrow> 'h search_ops \<Rightarrow> int \<Rightarrow> locals \<Rightarrow> 'h search \<Rightarrow> (outcome \<times> locals \<times> 'h search) option" where
  "no_conflict_step T Q nof l st0 =
     do {
       (b, confl, s0) \<leftarrow> addDelayedClauses T (sol st0);
       let st = st0\<lparr>sol := s0\<rparr>;
       if \<not> b then Some (Goto_conflict confl, l, st)
       else if opt_subsearch (cfg st) = 0 \<and> decisionLevel s0 < initial_level s0 then Some (Return l_Undef, l, st)
       else if (0 \<le> nof \<and> nof \<le> int (conflictC l)) \<or> \<not> withinBudget s0
       then Some (Return l_Undef, l, st\<lparr>progress_estimate := progressEstimate s0, sol := cancelUntil T (initial_level s0) s0\<rparr>)
       else do {
         (b1, st1) \<leftarrow> (if decisionLevel s0 = 0 then simplify T Q st else Some (True, st));
         if \<not> b1 then Some (Return l_False, l, st1)
         else do {
           s2 \<leftarrow> (if max_learnts (sol st1) \<le> real (length (learnts (sol st1))) - real (nAssigns (sol st1))
                   then reduceDB (sol st1) else Some (sol st1));
           decide_step T Q confl (l\<lparr>last_decision_was_theory := False\<rparr>) (st1\<lparr>sol := s2\<rparr>)
         }
       }
     }"

text \<open>One step: from \<^verbatim>\<open>propagate:\<close> (no argument) or from \<^verbatim>\<open>conflict:\<close> with a conflict.\<close>

definition search_step ::
  "'h theory_ops \<Rightarrow> 'h search_ops \<Rightarrow> int \<Rightarrow> CRef option \<Rightarrow> locals \<Rightarrow> 'h search \<Rightarrow> (outcome \<times> locals \<times> 'h search) option" where
  "search_step T Q nof entry l st =
     do {
       (confl, s) \<leftarrow> (case entry of None \<Rightarrow> propagate T (\<not> disable_theories (cfg st)) (sol st)
                              | Some c \<Rightarrow> Some (c, sol st));
       let st1 = st\<lparr>sol := s\<rparr>;
       if \<not> ok s \<or> confl \<noteq> CRef_Undef then conflict_step T confl l st1
       else no_conflict_step T Q nof l st1
     }"

partial_function (option) search_loop ::
  "'h theory_ops \<Rightarrow> 'h search_ops \<Rightarrow> int \<Rightarrow> CRef option \<Rightarrow> locals \<Rightarrow> 'h search \<Rightarrow> (lbool \<times> 'h search) option" where
  "search_loop T Q nof entry l st =
     do {
       r \<leftarrow> search_step T Q nof entry l st;
       case fst r of
         Return b \<Rightarrow> Some (b, snd (snd r))
       | Goto_propagate \<Rightarrow> search_loop T Q nof None (fst (snd r)) (snd (snd r))
       | Goto_conflict c \<Rightarrow> search_loop T Q nof (Some c) (fst (snd r)) (snd (snd r))
     }"

definition search_for :: "'h theory_ops \<Rightarrow> 'h search_ops \<Rightarrow> int \<Rightarrow> 'h search \<Rightarrow> (lbool \<times> 'h search) option" where
  "search_for T Q nof st =
     (let (d1, s1) = (if opt_decide_theories (cfg st) then next_drand (sol st) else (0, sol st));
          utd = (opt_decide_theories (cfg st) \<and> d1 < opt_random_theory_freq (cfg st));
          asks = (opt_decide_theories (cfg st) \<and> opt_theory_order_vsids (cfg st));
          (d2, s2) = (if asks then next_drand s1 else (0, s1));
          utv = (asks \<and> d2 < opt_random_theory_vsids_freq (cfg st))
      in search_loop T Q nof None
           \<lparr>conflictC = 0, last_decision_was_theory = False, using_theory_decisions = utd, using_theory_vsids = utv\<rparr>
           (st\<lparr>sol := s2, starts := starts st + 1,
               n_theory_decision_rounds := n_theory_decision_rounds st + of_bool utd\<rparr>))"

section \<open>Solving with restarts\<close>

fun random_phases :: "nat \<Rightarrow> nat \<Rightarrow> 'h solver \<Rightarrow> 'h solver" where
  "random_phases v 0 s = s"
| "random_phases v (Suc n) s =
     (case irand (random_seed s) 1 of
        (i, r) \<Rightarrow> random_phases (Suc v) n (s\<lparr>random_seed := r, polarity := (polarity s)[v := (i \<noteq> 0)]\<rparr>))"

fun random_activities :: "nat \<Rightarrow> nat \<Rightarrow> 'h solver \<Rightarrow> 'h solver" where
  "random_activities v 0 s = s"
| "random_activities v (Suc n) s =
     (let (d, s1) = next_drand s in random_activities (Suc v) n (s1\<lparr>activity := (activity s1)[v := d * (1 / 100000)]\<rparr>))"

fun random_theory_activities :: "'h theory_ops \<Rightarrow> nat \<Rightarrow> nat \<Rightarrow> 'h solver \<Rightarrow> 'h solver" where
  "random_theory_activities T i 0 s = s"
| "random_theory_activities T i (Suc n) s =
     (let (d, s1) = next_drand s
      in random_theory_activities T (Suc i) n
           (s1\<lparr>ths := (ths s1)\<lparr>tstate := th_set_activity T i (d * (1 / 100000)) (tstate (ths s1))\<rparr>\<rparr>))"

fun insert_deciders :: "'h theory_ops \<Rightarrow> nat \<Rightarrow> nat \<Rightarrow> 'h theories \<Rightarrow> 'h theories option" where
  "insert_deciders T i 0 t = Some t"
| "insert_deciders T i (Suc n) t =
     (if th_supportsDecisions T i
      then do {
        h \<leftarrow> heap_insert (theoryOrderLt T (tstate t)) i (theory_order_heap t);
        insert_deciders T (Suc i) n (t\<lparr>theory_order_heap := h\<rparr>)
      }
      else insert_deciders T (Suc i) n t)"

definition rebuildTheoryOrderHeap :: "'h theory_ops \<Rightarrow> 'h solver \<Rightarrow> 'h solver option" where
  "rebuildTheoryOrderHeap T s =
     map_option (\<lambda>t. s\<lparr>ths := t\<rparr>)
       (insert_deciders T 0 (n_theories (ths s)) ((ths s)\<lparr>theory_order_heap := heap_clear (theory_order_heap (ths s))\<rparr>))"

definition on_restart :: "'h theory_ops \<Rightarrow> search_options \<Rightarrow> 'h solver \<Rightarrow> 'h solver option" where
  "on_restart T c s =
     do {
       s1 \<leftarrow> (if opt_rnd_restart c then rebuildOrderHeap (random_activities 0 (nVars s) s) else Some s);
       if opt_theory_order_vsids c \<and> opt_rnd_theory_restart c
       then rebuildTheoryOrderHeap T (random_theory_activities T 0 (n_theories (ths s1)) s1)
       else Some s1
     }"

definition before_search :: "search_options \<Rightarrow> 'h solver \<Rightarrow> 'h solver" where
  "before_search c s =
     (let s1 = (if opt_rnd_phase c then random_phases 0 (nVars s) s else s)
      in if opt_decide_theories c \<and> opt_randomize_theory_order c then shuffle_theories s1 else s1)"

definition restart_base :: "search_options \<Rightarrow> nat \<Rightarrow> real option" where
  "restart_base c n = (if luby_restart c then luby (restart_inc c) n else Some (restart_inc c ^ n))"

partial_function (option) restart_loop ::
  "'h theory_ops \<Rightarrow> 'h search_ops \<Rightarrow> nat \<Rightarrow> 'h search \<Rightarrow> (lbool \<times> 'h search) option" where
  "restart_loop T Q n st =
     do {
       base \<leftarrow> restart_base (cfg st) n;
       (status, st1) \<leftarrow> search_for T Q \<lfloor>base * real_of_int (restart_first (cfg st))\<rfloor>
                         (st\<lparr>sol := before_search (cfg st) (sol st)\<rparr>);
       if \<not> withinBudget (sol st1) then Some (status, st1)
       else do {
         s2 \<leftarrow> (if lb_eq status l_Undef then on_restart T (cfg st1) (sol st1) else Some (sol st1));
         let st2 = st1\<lparr>sol := s2\<rparr>;
         if quit_at_restart st2 \<and> lb_eq status l_Undef then Some (status, st2\<lparr>override_restart_count := int (Suc n)\<rparr>)
         else let st3 = st2\<lparr>override_restart_count := - 1\<rparr>
              in if lb_eq status l_Undef then restart_loop T Q (Suc n) st3 else Some (status, st3)
       }
     }"

fun reenqueue_theory_atoms :: "'h theory_ops \<Rightarrow> Lit list \<Rightarrow> 'h solver \<Rightarrow> 'h solver" where
  "reenqueue_theory_atoms T [] s = s"
| "reenqueue_theory_atoms T (p # ps) s =
     reenqueue_theory_atoms T ps (if hasTheory s (var p) then enqueueTheory T (getTheoryID s (var p)) p s else s)"

definition start_solve :: "'h theory_ops \<Rightarrow> search_options \<Rightarrow> 'h solver \<Rightarrow> 'h solver" where
  "start_solve T c s =
     (let a = learntsize_adjust_start_confl c;
          s1 = s\<lparr>max_learnts := real (nClauses s) * learntsize_factor c, learntsize_adjust_confl := real_of_int a,
                 learntsize_adjust_cnt := a, initial_level := 0, track_min_level := 0\<rparr>
      in reenqueue_theory_atoms T (take (qhead s1) (trail s1)) s1)"

text \<open>The end of \<^verbatim>\<open>solve_\<close>: the model, and the exception when it contradicts an assumption; \<open>None\<close> also is the exit
  for a solution that a theory rejects.\<close>

definition finish_solve :: "'h search_ops \<Rightarrow> lbool \<Rightarrow> 'h search \<Rightarrow> (lbool \<times> 'h search) option" where
  "finish_solve Q status st =
     (let s = sol st;
          fin = (\<lambda>st'. (status, st'\<lparr>quit_at_restart := False, only_propagate_assumptions := False,
                                     sol := (sol st')\<lparr>assumptions := []\<rparr>\<rparr>))
      in if lb_eq status l_True
         then if \<exists>l \<in> set (assumptions s). \<not> isT s l then None
              else if opt_check_solution (cfg st) \<and> 0 < n_theories (ths s) \<and> \<not> disable_theories (cfg st) \<and>
                      (\<exists>i < n_theories (ths s). \<not> th_check_solved Q i s)
              then None
              else Some (fin (st\<lparr>model := map (value_var s) (map int [0 ..< nVars s])\<rparr>))
         else if lb_eq status l_False \<and> iset_size (conflict st) = 0 then Some (fin (st\<lparr>sol := s\<lparr>ok := False\<rparr>\<rparr>))
         else Some (fin st))"

definition solve_main :: "'h theory_ops \<Rightarrow> 'h search_ops \<Rightarrow> 'h search \<Rightarrow> (lbool \<times> 'h search) option" where
  "solve_main T Q st =
     (let st1 = st\<lparr>sol := clearInterrupt (cancelUntil T 0 (sol st)), model := [],
                   conflict := iset_clear lix False (conflict st)\<rparr>
      in if \<not> ok (sol st1) then Some (l_False, st1)
         else do {
           s2 \<leftarrow> pb_convert Q (sol st1);
           let st2 = st1\<lparr>sol := start_solve T (cfg st1) s2, solves := solves st1 + 1\<rparr>;
           (status, st3) \<leftarrow> restart_loop T Q
              (if quit_at_restart st2 \<and> 0 \<le> override_restart_count st2 then nat (override_restart_count st2) else 0) st2;
           finish_solve Q status st3
         })"

definition propagateAssignment ::
  "'h theory_ops \<Rightarrow> 'h search_ops \<Rightarrow> Lit list \<Rightarrow> 'h search \<Rightarrow> (bool \<times> 'h search) option" where
  "propagateAssignment T Q assumps st =
     map_option (\<lambda>r. (lb_eq (fst r) l_True, (snd r)\<lparr>only_propagate_assumptions := False\<rparr>))
       (solve_main T Q (st\<lparr>only_propagate_assumptions := True, sol := (budgetOff (sol st))\<lparr>assumptions := assumps\<rparr>\<rparr>))"

definition solveUntilRestart ::
  "'h theory_ops \<Rightarrow> 'h search_ops \<Rightarrow> Lit list \<Rightarrow> 'h search \<Rightarrow> (lbool \<times> 'h search) option" where
  "solveUntilRestart T Q assumps st =
     map_option (\<lambda>r. (fst r, (snd r)\<lparr>quit_at_restart := False\<rparr>))
       (solve_main T Q (st\<lparr>quit_at_restart := True, sol := (sol st)\<lparr>assumptions := assumps\<rparr>\<rparr>))"

definition solve :: "'h theory_ops \<Rightarrow> 'h search_ops \<Rightarrow> Lit list \<Rightarrow> 'h search \<Rightarrow> (bool \<times> 'h search) option" where
  "solve T Q assumps st =
     map_option (\<lambda>r. (lb_eq (fst r) l_True, snd r)) (solve_main T Q (st\<lparr>sol := (budgetOff (sol st))\<lparr>assumptions := assumps\<rparr>\<rparr>))"

definition solveLimited :: "'h theory_ops \<Rightarrow> 'h search_ops \<Rightarrow> Lit list \<Rightarrow> 'h search \<Rightarrow> (lbool \<times> 'h search) option" where
  "solveLimited T Q assumps st = solve_main T Q (st\<lparr>sol := (sol st)\<lparr>assumptions := assumps\<rparr>\<rparr>)"

definition modelValue :: "'h search \<Rightarrow> Lit \<Rightarrow> lbool" where
  "modelValue st p = lb_xor (model st ! vix (var p)) (sign p)"

end
