(* ===== verification/Search_Inv.thy ===== *)
theory Search_Inv
  imports Clean_Correct Solver_Search
begin

text \<open>
  The invariant of the search of a solver without theories, and the steps that keep it: propagation, conflict
  analysis with learning, reducing the learnt clauses and simplification at the root.  \<open>P\<close> is the set of models of
  the problem, which never changes.
\<close>

section \<open>The invariant\<close>

text \<open>Every literal behind the start of a level belongs to that level or a later one.\<close>

definition in_order :: "'h solver \<Rightarrow> bool" where
  "in_order s \<longleftrightarrow> (\<forall>j < decisionLevel s. \<forall>p \<in> set (drop (trail_lim s ! j) (trail s)). j < level s (var p))"

text \<open>The heap holds every variable that can be decided and is unassigned.\<close>

definition heap_full :: "'h solver \<Rightarrow> bool" where
  "heap_full s \<longleftrightarrow> idx_ok (heap (order_heap s)) (indices (order_heap s)) \<and> elems (order_heap s) \<subseteq> {..< nVars s} \<and>
     nVars s \<le> length (indices (order_heap s)) \<and>
     (\<forall>v < nVars s. isU s (mkLit (int v) False) \<longrightarrow> v \<in> elems (order_heap s))"

text \<open>The problem: the clauses and the literals of the root level; the learnt clauses follow from it.\<close>

definition problem :: "(Lit \<Rightarrow> bool) set \<Rightarrow> 'h solver \<Rightarrow> bool" where
  "problem P s \<longleftrightarrow>
     (\<forall>M. M \<in> P \<longleftrightarrow> lit_model M \<and> (\<forall>cr \<in> set (clauses s). \<exists>l \<in> set (clits s cr). M l) \<and>
        (\<forall>p \<in> set (trail s). level s (var p) = 0 \<longrightarrow> M p)) \<and>
     (\<forall>M \<in> P. \<forall>cr \<in> set (learnts s). \<exists>l \<in> set (clits s cr). M l)"

definition settings :: "'h solver \<Rightarrow> bool" where
  "settings s \<longleftrightarrow> marker_refs (ca s) = CRef_Undef \<and> tmp_clause s = CRef_Undef \<and> plain s \<and> released_vars s = [] \<and>
     clauses_to_add s = [] \<and> initial_level s = 0 \<and> ok s \<and> 0 < random_seed s \<and> random_seed s < 2147483647 \<and>
     nVars s < 2 ^ 26 \<and> length (decision s) = nVars s \<and> (\<forall>v < nVars s. decision s ! v) \<and> seen s = replicate (nVars s) False"

text \<open>What holds also while the queue is not empty or a conflict has been found.\<close>

definition base :: "(Lit \<Rightarrow> bool) set \<Rightarrow> 'h solver \<Rightarrow> bool" where
  "base P s \<longleftrightarrow> solver_inv (db s) s \<and> levels_ok (db s) s \<and> prefix_done (db s) s \<and> no_theory_reasons s \<and> arena_ok (db s) (ca s) \<and>
     in_order s \<and> distinct (clauses s @ learnts s) \<and> heap_full s \<and> problem P s \<and> settings s"

text \<open>The assumptions are decided in order, and every level after them has a literal.\<close>

definition assumed_ok :: "'h solver \<Rightarrow> bool" where
  "assumed_ok s \<longleftrightarrow>
     (\<forall>a \<in> set (assumptions s). lit_ok (nVars s) a) \<and>
     (\<forall>k < decisionLevel s. k < length (assumptions s) \<longrightarrow>
        assumptions s ! k \<in> set (trail s) \<and> level s (var (assumptions s ! k)) \<le> Suc k) \<and>
     (\<forall>p \<in> set (trail s). reason s (var p) = CRef_Undef \<and> 0 < level s (var p) \<and> level s (var p) \<le> length (assumptions s) \<longrightarrow>
        p = assumptions s ! (level s (var p) - 1))"

definition levels_used :: "'h solver \<Rightarrow> bool" where
  "levels_used s \<longleftrightarrow>
     (\<forall>k < decisionLevel s. length (assumptions s) \<le> k \<longrightarrow>
        trail_lim s ! k < (if Suc k < decisionLevel s then trail_lim s ! Suc k else length (trail s)))"

definition good :: "(Lit \<Rightarrow> bool) set \<Rightarrow> 'h solver \<Rightarrow> bool" where
  "good P s \<longleftrightarrow> base P s \<and> queue_done (db s) s \<and> assumed_ok s \<and> levels_used s"

lemma baseD:
  assumes "base P s"
  shows "solver_inv (db s) s" and "levels_ok (db s) s" and "prefix_done (db s) s" and "no_theory_reasons s"
    and "arena_ok (db s) (ca s)" and "in_order s" and "distinct (clauses s)" and "distinct (learnts s)"
    and "set (clauses s) \<inter> set (learnts s) = {}" and "heap_full s" and "problem P s" and "settings s" and "plain s"
    and "trail_ok s" and "reasons_ok (db s) s" and "reasons_live (db s) s" and "seen s = replicate (nVars s) False"
    and "cr \<in> db s \<Longrightarrow> 2 \<le> length (clits s cr) \<and> distinct (clits s cr) \<and> (\<forall>l \<in> set (clits s cr). lit_ok (nVars s) l)"
    and "cr \<in> db s \<Longrightarrow> mem (ca s) cr \<noteq> None \<and> isClause (ca s) cr" and "CRef_Undef \<notin> db s"
proof -
  show b: "solver_inv (db s) s" "levels_ok (db s) s" "prefix_done (db s) s" "no_theory_reasons s"
    "arena_ok (db s) (ca s)" "in_order s" "distinct (clauses s)" "distinct (learnts s)"
    "set (clauses s) \<inter> set (learnts s) = {}" "heap_full s" "problem P s" "settings s" "plain s" "seen s = replicate (nVars s) False"
    using assms by (simp_all add: base_def settings_def)
  have bi: "bcp_inv (db s) s (wlist (watches_cleanAll s))" using b(1) by (simp add: solver_inv_def)
  then show "trail_ok s" "reasons_ok (db s) s" "reasons_live (db s) s" by (simp_all add: bcp_inv_def)
  show "cr \<in> db s \<Longrightarrow> 2 \<le> length (clits s cr) \<and> distinct (clits s cr) \<and> (\<forall>l \<in> set (clits s cr). lit_ok (nVars s) l)"
    "cr \<in> db s \<Longrightarrow> mem (ca s) cr \<noteq> None \<and> isClause (ca s) cr"
    using bi winvD(1) [of "nVars s" "db s" "clits s" "wlist (watches_cleanAll s)"] by (simp_all add: bcp_inv_def clauses_ok_def)
  show "CRef_Undef \<notin> db s" using bi not_isClause_Undef by (auto simp: bcp_inv_def)
qed

lemma base_calm: "base P s \<Longrightarrow> calm T s"
  by (rule plain_calm [OF baseD(13)])

lemma problem_root: "problem P s \<Longrightarrow> root_model (db s) s M \<longleftrightarrow> M \<in> P"
  by (auto simp: problem_def root_model_def db_def)

text \<open>The state of the run is the same up to the clauses.\<close>

definition same_run :: "'h solver \<Rightarrow> 'h solver \<Rightarrow> bool" where
  "same_run s s' \<longleftrightarrow> trail s' = trail s \<and> trail_lim s' = trail_lim s \<and> nVars s' = nVars s \<and> assumptions s' = assumptions s \<and>
     (\<forall>p \<in> set (trail s). level s' (var p) = level s (var p) \<and>
        (0 < level s (var p) \<longrightarrow> (reason s' (var p) = CRef_Undef \<longleftrightarrow> reason s (var p) = CRef_Undef)))"

lemma same_run_trans: "same_run s s' \<Longrightarrow> same_run s' s'' \<Longrightarrow> same_run s s''"
  by (auto simp: same_run_def)

lemma same_run_keeps:
  assumes "same_run s s'"
  shows "assumed_ok s \<Longrightarrow> assumed_ok s'" and "levels_used s \<Longrightarrow> levels_used s'" and "in_order s \<Longrightarrow> in_order s'"
proof -
  have e: "trail s' = trail s" "trail_lim s' = trail_lim s" "nVars s' = nVars s" "assumptions s' = assumptions s"
    "decisionLevel s' = decisionLevel s" "\<And>p. p \<in> set (trail s) \<Longrightarrow> level s' (var p) = level s (var p)"
    "\<And>p. p \<in> set (trail s) \<Longrightarrow> 0 < level s (var p) \<Longrightarrow> reason s' (var p) = CRef_Undef \<longleftrightarrow> reason s (var p) = CRef_Undef"
    using assms by (auto simp: same_run_def decisionLevel_def)
  show "assumed_ok s \<Longrightarrow> assumed_ok s'"
    unfolding assumed_ok_def e(1-5) by (intro conjI ballI allI impI) (auto simp: e(6,7))
  show "levels_used s \<Longrightarrow> levels_used s'" unfolding levels_used_def e(1-5) .
  show "in_order s \<Longrightarrow> in_order s'"
    unfolding in_order_def e(1-5) using e(6) by (metis in_set_dropD)
qed

lemma arena_relit:
  assumes ar: "arena_ok A (ca s)" and wf: "allocator_wf (ca s')" and rl: "\<forall>cr. rel_option relit (mem (ca s) cr) (mem (ca s') cr)"
    and e: "marker_refs (ca s') = marker_refs (ca s)" "region_of (ca s') = region_of (ca s)"
  shows "arena_ok A (ca s')"
proof -
  note ad = arena_okD [OF ar]
  have c: "\<exists>d. mem (ca s') cr = Some d \<and> relit (ca_get (ca s) cr) d \<and> cells d = cells (ca_get (ca s) cr)" if "cr \<in> A" for cr
  proof -
    have "rel_option relit (Some (ca_get (ca s) cr)) (mem (ca s') cr)" using spec [OF rl, of cr] unfolding ad(4) [OF that] .
    then obtain d where d: "mem (ca s') cr = Some d" "relit (ca_get (ca s) cr) d" by (cases "mem (ca s') cr") auto
    then have "length (lits d) = length (lits (ca_get (ca s) cr))" by (metis size_mset)
    then show ?thesis using d by (auto simp: cells_def clause_size_def)
  qed
  have "(\<Sum>cr \<in> A. cells (ca_get (ca s') cr)) = (\<Sum>cr \<in> A. cells (ca_get (ca s) cr))"
  proof (rule sum.cong)
    show "cells (ca_get (ca s') cr) = cells (ca_get (ca s) cr)" if "cr \<in> A" for cr
      using c [OF that] by (auto simp: ca_get_def [of "ca s'"])
  qed simp
  moreover have "\<exists>c. mem (ca s') cr = Some c \<and> clause_fine c" if cr: "cr \<in> A" for cr
  proof -
    obtain d where d: "mem (ca s') cr = Some d" "relit (ca_get (ca s) cr) d" using c [OF cr] by blast
    have "length (lits d) = length (lits (ca_get (ca s) cr))" using d(2) by (metis size_mset)
    then have "clause_fine d" using d(2) ad(5) [OF cr] by (simp add: clause_fine_def)
    then show ?thesis using d(1) by blast
  qed
  ultimately show ?thesis using ad wf by (auto simp: arena_ok_def e)
qed

section \<open>Propagation\<close>

lemma good_propagate:
  fixes T :: "'h theory_ops" and s :: "'h solver"
  assumes g: "good P s"
  shows "\<exists>confl s'. propagate T pt s = Some (confl, s') \<and> base P s' \<and> assumed_ok s' \<and> levels_used s' \<and>
     trail_lim s' = trail_lim s \<and> nVars s' = nVars s \<and> ana_rest s' = ana_rest s \<and> region_of (ca s') = region_of (ca s) \<and>
     learnts s' = learnts s \<and> qhead s' = length (trail s') \<and> length (trail s) \<le> length (trail s') \<and>
     (if confl = CRef_Undef then queue_done (db s') s' \<and> (\<forall>cr \<in> db s'. settled s' cr)
      else confl \<in> db s' \<and> (\<forall>l \<in> set (clits s' confl). isF s' l))"
proof -
  have bs: "base P s" and qd: "queue_done (db s) s" and ao: "assumed_ok s" and lu: "levels_used s"
    using g by (auto simp: good_def)
  note b = baseD [OF bs]
  from propagate_gen [OF b(1) qd _ base_calm [OF bs], of pt T] b(13) obtain confl s' where p: "propagate T pt s = Some (confl, s')"
    "solver_inv (db s) s'" "qhead s' = length (trail s')" "\<exists>ys. trail s' = trail s @ ys" "trail_lim s' = trail_lim s"
    "clauses s' = clauses s" "learnts s' = learnts s" "nVars s' = nVars s" "ok s' = ok s" "marker_refs (ca s') = marker_refs (ca s)"
    "region_of (ca s') = region_of (ca s)" "allocator_wf (ca s) \<longrightarrow> allocator_wf (ca s')" "bcp_hist s s'" "seen s' = seen s"
    "opts s' = opts s" "decision s' = decision s" "order_heap s' = order_heap s" "activity s' = activity s" "priority s' = priority s"
    "frame_rest s' = frame_rest s" "entails (db s) s (trail s) (trail s')" "\<forall>cr \<in> db s. mset (clits s' cr) = mset (clits s cr)"
    "\<forall>cr. rel_option relit (mem (ca s) cr) (mem (ca s') cr)" "statistics.conflicts (stats s') = statistics.conflicts (stats s)"
    "ths s' = ths s" "confl = CRef_Undef \<longrightarrow> queue_done (db s) s' \<and> (\<forall>cr \<in> db s. settled s' cr)"
    "confl \<noteq> CRef_Undef \<longrightarrow> confl \<in> db s \<and> (\<forall>l \<in> set (clits s' confl). isF s' l)" by blast
  have db': "db s' = db s" by (simp add: db_def p)
  note fr = frame_restD [OF p(20)]
  have dl: "decisionLevel s' = decisionLevel s" by (simp add: decisionLevel_def p(5))
  obtain ys where ys: "trail s' = trail s @ ys" using p(4) by blast
  have cset: "set (clits s' cr) = set (clits s cr)" if "cr \<in> db s" for cr using p(22) that mset_eq_setD by blast
  have old: "reason s' (var q) = reason s (var q)" "level s' (var q) = level s (var q)" if "q \<in> set (trail s)" for q
    using p(13) that by (simp_all add: bcp_hist_def)
  have new: "level s' (var q) = decisionLevel s" "isClause (ca s) (reason s' (var q))"
    if "q \<in> set (trail s')" "q \<notin> set (trail s)" for q using p(13) that by (simp_all add: bcp_hist_def)
  have lv: "levels_ok (db s) s'" "prefix_done (db s) s'"
    using hist_levels [OF b(1) p(2,13,4,5,22) b(2,3)] by blast+
  have isC: "isClause (ca s') = isClause (ca s)" by (simp add: fun_eq_iff isClause_def p(10))
  have nt: "no_theory_reasons s'"
    unfolding no_theory_reasons_def
  proof
    fix q assume q: "q \<in> set (trail s')"
    show "\<not> isTheoryCause s' (reason s' (var q))"
    proof (cases "q \<in> set (trail s)")
      case True
      then show ?thesis using b(4) old by (simp add: no_theory_reasons_def isTheoryCause_def isC)
    qed (use new [OF q] in \<open>simp add: isTheoryCause_def isC\<close>)
  qed
  have ar: "arena_ok (db s) (ca s')" using arena_relit [OF b(5) _ p(23,10,11)] p(12) arena_okD(1) [OF b(5)] by blast
  have yn: "q \<notin> set (trail s)" if "q \<in> set ys" for q
  proof -
    have "distinct (trail s')" using p(2) by (simp add: solver_inv_def bcp_inv_def trail_ok_def distinct_map)
    then show ?thesis using that by (auto simp: ys)
  qed
  have tok': "trail_ok s'" using p(2) by (simp add: solver_inv_def bcp_inv_def)
  have io: "in_order s'"
    unfolding in_order_def dl p(5)
  proof (intro allI impI ballI)
    fix j q assume j: "j < decisionLevel s" "q \<in> set (drop (trail_lim s ! j) (trail s'))"
    then have "q \<in> set (drop (trail_lim s ! j) (trail s)) \<or> q \<in> set ys"
      using levels_okD(1) [OF b(2) j(1)] by (auto simp: ys)
    then show "j < level s' (var q)"
    proof
      assume q: "q \<in> set (drop (trail_lim s ! j) (trail s))"
      then show ?thesis using b(6) j(1) old(2) [OF in_set_dropD [OF q]] by (simp add: in_order_def)
    next
      assume q: "q \<in> set ys"
      then show ?thesis using new(1) [of q] yn [OF q] j(1) by (simp add: ys)
    qed
  qed
  have sub: "set (trail s) \<subseteq> set (trail s')" by (simp add: ys)
  have hf: "heap_full s'"
  proof -
    have "isU s (mkLit (int v) False)" if "v < nVars s" "isU s' (mkLit (int v) False)" for v
    proof -
      have l: "lit_ok (nVars s) (mkLit (int v) False)" using that(1) by (simp add: lit_ok_alt)
      then show ?thesis using that(2) b(14) tok' sub by (auto simp: trail_ok_def p(8))
    qed
    then show ?thesis using b(10) by (simp add: heap_full_def p(8,17))
  qed
  have pr: "problem P s'"
  proof -
    have up: "M q" if M: "M \<in> P" and q: "q \<in> set (trail s')" "level s' (var q) = 0" for M q
    proof (cases "q \<in> set (trail s)")
      case True
      then show ?thesis using b(11) M q old by (simp add: problem_def)
    next
      case False
      then have d0: "decisionLevel s = 0" using new(1) [OF q(1)] q(2) by simp
      have "level s (var r) = 0" if "r \<in> set (trail s)" for r using levels_okD(3) [OF b(2) that] d0 by simp
      then have "\<forall>r \<in> set (trail s). M r" "lit_model M" "\<forall>cr \<in> db s. \<exists>l \<in> set (clits s cr). M l"
        using b(11) M by (auto simp: problem_def db_def)
      then show ?thesis using p(21) q(1) by (auto simp: entails_def)
    qed
    have cl: "(\<exists>l \<in> set (clits s' cr). M l) = (\<exists>l \<in> set (clits s cr). M l)" if "cr \<in> set (clauses s) \<union> set (learnts s)" for cr M
      using cset that by (auto simp: db_def)
    show ?thesis
      unfolding problem_def p(6,7)
    proof (intro conjI allI ballI)
      show "\<exists>l \<in> set (clits s' cr). M l" if "M \<in> P" "cr \<in> set (learnts s)" for M cr
        using b(11) that cl by (simp add: problem_def)
      fix M
      have "M \<in> P \<longleftrightarrow> lit_model M \<and> (\<forall>cr \<in> set (clauses s). \<exists>l \<in> set (clits s cr). M l) \<and>
          (\<forall>q \<in> set (trail s). level s (var q) = 0 \<longrightarrow> M q)" using b(11) by (simp add: problem_def)
      then show "M \<in> P \<longleftrightarrow> lit_model M \<and> (\<forall>cr \<in> set (clauses s). \<exists>l \<in> set (clits s' cr). M l) \<and>
          (\<forall>q \<in> set (trail s'). level s' (var q) = 0 \<longrightarrow> M q)"
        using up [of M] cl old(2) sub by auto
    qed
  qed
  have rest: "ana_rest s' = ana_rest s" by (simp add: ana_rest_def fr p(24,25))
  have st: "settings s'" using b(12) plain_cong [OF p(20,8,25)] by (simp add: settings_def p fr)
  have bs': "base P s'"
    using p(2) lv nt ar io hf pr st b(7-9) by (simp add: base_def db' p(6,7))
  have ao': "assumed_ok s'"
    unfolding assumed_ok_def p(5,8) fr(3) dl
  proof (intro conjI ballI allI impI)
    show "lit_ok (nVars s) a" if "a \<in> set (assumptions s)" for a using ao that by (simp add: assumed_ok_def)
    show "assumptions s ! k \<in> set (trail s')" if "k < decisionLevel s" "k < length (assumptions s)" for k
      using ao that sub by (auto simp: assumed_ok_def)
    show "level s' (var (assumptions s ! k)) \<le> Suc k" if "k < decisionLevel s" "k < length (assumptions s)" for k
      using ao that old(2) [of "assumptions s ! k"] by (simp add: assumed_ok_def)
    fix q assume q: "q \<in> set (trail s')"
      "reason s' (var q) = CRef_Undef \<and> 0 < level s' (var q) \<and> level s' (var q) \<le> length (assumptions s)"
    have "q \<in> set (trail s)" using new(2) [OF q(1)] q(2) not_isClause_Undef by metis
    then show "q = assumptions s ! (level s' (var q) - 1)" using ao q(2) old by (simp add: assumed_ok_def)
  qed
  have lu': "levels_used s'"
    unfolding levels_used_def p(5) fr(3) dl
  proof (intro allI impI)
    fix k assume "k < decisionLevel s" "length (assumptions s) \<le> k"
    then have "trail_lim s ! k < (if Suc k < decisionLevel s then trail_lim s ! Suc k else length (trail s))"
      using lu by (simp add: levels_used_def)
    then show "trail_lim s ! k < (if Suc k < decisionLevel s then trail_lim s ! Suc k else length (trail s'))"
      by (cases "Suc k < decisionLevel s") (simp_all add: ys)
  qed
  show ?thesis
    using p(1,3,5,7,8,11,26,27) bs' ao' lu' rest by (intro exI [of _ confl] exI [of _ s']) (simp add: db' ys)
qed

end
