(* ===== verification/Search_Learn.thy ===== *)
theory Search_Learn
  imports Search_Inv
begin

text \<open>
  A conflict in the search: backtracking, storing and asserting the learnt clause keep the invariant of the
  search, and a conflict at the root shows that the problem has no model.
\<close>

section \<open>Activities\<close>

lemma base_frame:
  assumes f: "ana_frame s s'" and b: "base P s" and sn: "seen s' = replicate (nVars s) False"
  shows "base P s'" and "db s' = db s" and "queue_done (db s') s' = queue_done (db s) s"
    and "assumed_ok s' = assumed_ok s" and "levels_used s' = levels_used s"
proof -
  note bd = baseD [OF b] and e = ana_frame_eqs [OF f] and c = ana_frame_clause [OF f] and i = ana_frame_inv [OF f bd(1)]
  have g: "trail s' = trail s" "trail_lim s' = trail_lim s" "clauses s' = clauses s" "learnts s' = learnts s" "ok s' = ok s"
    "decision s' = decision s" "marker_refs (ca s') = marker_refs (ca s)" "region_of (ca s') = region_of (ca s)"
    "heap_kept (order_heap s) (order_heap s')" "ana_rest s' = ana_rest s"
    using f by (simp_all add: ana_frame_def)
  have r: "released_vars s' = released_vars s" "assumptions s' = assumptions s" "tmp_clause s' = tmp_clause s"
    "theory_vars s' = theory_vars s" "clauses_to_add s' = clauses_to_add s" "random_seed s' = random_seed s"
    "initial_level s' = initial_level s" "n_theories (ths s') = n_theories (ths s)" "theory_queue (ths s') = theory_queue (ths s)"
    using g(10) by (simp_all add: ana_rest_def)
  show d: "db s' = db s" by (simp add: db_def g)
  show "queue_done (db s') s' = queue_done (db s) s" by (simp add: d i(2))
  show "assumed_ok s' = assumed_ok s" by (simp add: assumed_ok_def g r e)
  show "levels_used s' = levels_used s" by (simp add: levels_used_def g r e)
  have "rel_option relit (mem (ca s) cr) (mem (ca s') cr)" for cr
  proof -
    have "rel_option (\<lambda>c d. cmark d = cmark c \<and> learnt d = learnt c \<and> has_extra d = has_extra c \<and> reloced d = reloced c \<and> lits d = lits c)
       (mem (ca s) cr) (mem (ca s') cr)" using f by (simp add: ana_frame_def)
    then show ?thesis by (rule option.rel_mono_strong) simp
  qed
  then have ar: "arena_ok (db s) (ca s')"
    using arena_relit [OF bd(5)] i(5) arena_okD(1) [OF bd(5)] g(7,8) by blast
  have "heap_full s'" using bd(10) g(9) by (simp add: heap_full_def heap_kept_def e)
  moreover have "problem P s'" using bd(11) by (simp add: problem_def g c(2) e)
  moreover have "settings s'" using bd(12) sn by (simp add: settings_def plain_def g r e)
  moreover have "no_theory_reasons s'" using bd(4) by (simp add: no_theory_reasons_def g e)
  moreover have "in_order s'" using bd(6) by (simp add: in_order_def g e)
  ultimately show "base P s'" using i(1,3,4) bd(2,3,7-9) ar by (simp add: base_def d) (simp add: g)
qed

text \<open>The fields that the invariant reads.\<close>

lemma base_cong:
  assumes "trail s' = trail s" "assigns s' = assigns s" "vardata s' = vardata s" "ca s' = ca s" "watches s' = watches s"
    "qhead s' = qhead s" "trail_lim s' = trail_lim s" "clauses s' = clauses s" "learnts s' = learnts s"
    "order_heap s' = order_heap s" "ok s' = ok s" "decision s' = decision s" "seen s' = seen s" "assumptions s' = assumptions s"
    "released_vars s' = released_vars s" "tmp_clause s' = tmp_clause s" "theory_vars s' = theory_vars s"
    "clauses_to_add s' = clauses_to_add s" "initial_level s' = initial_level s" "n_theories (ths s') = n_theories (ths s)"
    "theory_queue (ths s') = theory_queue (ths s)" "random_seed s' = random_seed s \<or> 0 < random_seed s' \<and> random_seed s' < 2147483647"
  shows "base P s \<Longrightarrow> base P s'" and "good P s \<Longrightarrow> good P s'" and "db s' = db s" and "assumed_ok s' = assumed_ok s"
    and "levels_used s' = levels_used s" and "queue_done A s' = queue_done A s"
proof -
  have e: "isT s' = isT s" "isF s' = isF s" "isU s' = isU s" "nVars s' = nVars s" "reason s' = reason s" "level s' = level s"
    "clits s' = clits s" "wlist s' = wlist s" "decisionLevel s' = decisionLevel s"
    using assms state_eqs [of s' s] by (simp_all add: decisionLevel_def)
  show d: "db s' = db s" by (simp add: db_def assms)
  show a: "assumed_ok s' = assumed_ok s" by (simp add: assumed_ok_def assms e)
  show l: "levels_used s' = levels_used s" by (simp add: levels_used_def assms e)
  note i = solver_inv_cong [OF assms(1-6)]
  show "queue_done A s' = queue_done A s" by (rule i)
  have lp: "levels_ok A s' = levels_ok A s" "prefix_done A s' = prefix_done A s" for A
    by (simp_all add: levels_ok_def prefix_done_def assms e)
  have t: "no_theory_reasons s' = no_theory_reasons s" by (simp add: no_theory_reasons_def assms e isTheoryCause_def)
  have o: "in_order s' = in_order s" by (simp add: in_order_def assms e)
  have h: "heap_full s' = heap_full s" by (simp add: heap_full_def assms e)
  have p: "problem P s' = problem P s" by (simp add: problem_def assms e)
  have "settings s \<Longrightarrow> settings s'" using assms(22) by (auto simp: settings_def plain_def assms(1-21) e)
  then show b: "base P s \<Longrightarrow> base P s'" by (simp add: base_def d i lp t o h p assms(4,8,9))
  show "good P s \<Longrightarrow> good P s'" using b by (simp add: good_def a l d i)
qed

lemma ana_frame_queue: "ana_frame s s' \<Longrightarrow> queue_done A s' = queue_done A s"
  using ana_frame_eqs [of s s'] ana_frame_clause(2) [of s s']
  by (simp add: queue_done_def processed_def sat_clause_def ana_frame_def)

section \<open>Backtracking\<close>

lemma insertVarOrder_rest: "ana_rest (insertVarOrder x s) = ana_rest s"
  by (auto simp: insertVarOrder_def heap_insert_var_def ana_rest_def split: option.splits)

lemma unassign_rest: "ana_rest (unassign T c p s) = ana_rest s"
  by (simp add: unassign_def Let_def insertVarOrder_rest) (simp add: ana_rest_def undecide_def)

text \<open>The variables in the heap when variables are inserted.\<close>

definition heap_in :: "nat \<Rightarrow> heap \<Rightarrow> heap \<Rightarrow> bool" where
  "heap_in n h h' \<longleftrightarrow> (idx_ok (heap h) (indices h) \<and> elems h \<subseteq> {..< n} \<and> n \<le> length (indices h) \<longrightarrow>
     idx_ok (heap h') (indices h') \<and> elems h' \<subseteq> {..< n} \<and> n \<le> length (indices h') \<and> elems h \<subseteq> elems h')"

lemma heap_in_refl: "heap_in n h h"
  by (simp add: heap_in_def)

lemma heap_in_trans: "heap_in n h h' \<Longrightarrow> heap_in n h' h'' \<Longrightarrow> heap_in n h h''"
  by (auto simp: heap_in_def)

lemma insertVarOrder_heap:
  assumes v: "vix x < n"
  shows "heap_in n (order_heap s) (order_heap (insertVarOrder x s))"
    and "idx_ok (heap (order_heap s)) (indices (order_heap s)) \<Longrightarrow> decision s ! vix x \<Longrightarrow> vix x \<in> elems (order_heap (insertVarOrder x s))"
proof -
  let ?h = "order_heap s" and ?lt = "varOrderLt (activity s) (priority s)"
  have k: "order_heap (insertVarOrder x s) = ?h" if "inHeap (vix x) ?h \<or> \<not> decision s ! vix x"
    using that by (auto simp: insertVarOrder_def)
  have i: "idx_ok (heap (order_heap (insertVarOrder x s))) (indices (order_heap (insertVarOrder x s))) \<and>
      elems (order_heap (insertVarOrder x s)) = insert (vix x) (elems ?h) \<and>
      length (indices ?h) \<le> length (indices (order_heap (insertVarOrder x s)))"
    if ok: "idx_ok (heap ?h) (indices ?h)" and n: "\<not> inHeap (vix x) ?h" "decision s ! vix x"
  proof -
    have "vix x \<notin> elems ?h" using var_heap.inHeap_elems [OF ok] n(1) by simp
    from var_heap.insert_struct [OF ok this, of "activity s" "priority s"] obtain h' where
      "heap_insert ?lt (vix x) ?h = Some h'" "idx_ok (heap h') (indices h')" "elems h' = insert (vix x) (elems ?h)"
      "length (indices ?h) \<le> length (indices h')" by blast
    then show ?thesis using n by (simp add: insertVarOrder_def heap_insert_var_def)
  qed
  show "heap_in n ?h (order_heap (insertVarOrder x s))"
    unfolding heap_in_def
  proof (intro impI)
    assume a: "idx_ok (heap ?h) (indices ?h) \<and> elems ?h \<subseteq> {..< n} \<and> n \<le> length (indices ?h)"
    show "idx_ok (heap (order_heap (insertVarOrder x s))) (indices (order_heap (insertVarOrder x s))) \<and>
        elems (order_heap (insertVarOrder x s)) \<subseteq> {..< n} \<and> n \<le> length (indices (order_heap (insertVarOrder x s))) \<and>
        elems ?h \<subseteq> elems (order_heap (insertVarOrder x s))"
    proof (cases "inHeap (vix x) ?h \<or> \<not> decision s ! vix x")
      case True
      then show ?thesis using a k by simp
    next
      case False
      then show ?thesis using a i v by auto
    qed
  qed
  show "vix x \<in> elems (order_heap (insertVarOrder x s))"
    if ok: "idx_ok (heap ?h) (indices ?h)" and d: "decision s ! vix x"
  proof (cases "inHeap (vix x) ?h")
    case True
    then show ?thesis using k var_heap.inHeap_elems [OF ok] by simp
  next
    case False
    then show ?thesis using i [OF ok False d] by simp
  qed
qed

lemma unassign_heap:
  assumes v: "vix (var p) < n" and d: "decision s ! vix (var p)"
  shows "heap_in n (order_heap s) (order_heap (unassign T c p s))"
    and "idx_ok (heap (order_heap s)) (indices (order_heap s)) \<Longrightarrow> vix (var p) \<in> elems (order_heap (unassign T c p s))"
proof -
  obtain s' where u: "unassign T c p s = insertVarOrder (var p) s'" "order_heap s' = order_heap s" "decision s' = decision s"
    by (simp add: unassign_def Let_def undecide_def)
  show "heap_in n (order_heap s) (order_heap (unassign T c p s))"
    using insertVarOrder_heap(1) [OF v, of s'] by (simp add: u)
  show "idx_ok (heap (order_heap s)) (indices (order_heap s)) \<Longrightarrow> vix (var p) \<in> elems (order_heap (unassign T c p s))"
    using insertVarOrder_heap(2) [OF v, of s'] d by (simp add: u)
qed

lemma cancel_loop_heap:
  assumes "b0 + k \<le> length (trail s)" and "\<forall>p \<in> set (trail s). vix (var p) < n \<and> decision s ! vix (var p)"
    and "idx_ok (heap (order_heap s)) (indices (order_heap s))" "elems (order_heap s) \<subseteq> {..< n}" "n \<le> length (indices (order_heap s))"
  shows "ana_rest (snd (cancel_loop T lev b0 k re s)) = ana_rest s \<and>
    heap_in n (order_heap s) (order_heap (snd (cancel_loop T lev b0 k re s))) \<and>
    (\<forall>p \<in> set (take k (drop b0 (trail s))). lev < level s (var p) \<longrightarrow>
       vix (var p) \<in> elems (order_heap (snd (cancel_loop T lev b0 k re s))))"
  using assms
proof (induction k arbitrary: re s)
  case 0
  then show ?case by (simp add: heap_in_refl)
next
  case (Suc k)
  let ?p = "trail s ! (b0 + k)"
  have t: "take (Suc k) (drop b0 (trail s)) = take k (drop b0 (trail s)) @ [?p]"
    using Suc.prems(1) by (intro take_Suc_drop) simp
  have p: "vix (var ?p) < n" "decision s ! vix (var ?p)" using Suc.prems(1,2) by simp_all
  show ?case
  proof (cases "level s (var ?p) \<le> lev")
    case True
    have "b0 + k \<le> length (trail s)" using Suc.prems(1) by simp
    then show ?thesis using Suc.IH [OF _ Suc.prems(2-5), of "re @ [?p]"] True unfolding t by simp
  next
    case False
    let ?s = "unassign T (b0 + k) ?p s"
    note u = unassign_frame [where s = s and T = T and c = "b0 + k" and p = ?p]
    note h = unassign_heap [where T = T and c = "b0 + k", OF p]
    have lv: "level ?s = level s" using u(1) by (intro state_eqs(6)) (simp add: cancel_frame_def)
    have dc: "decision ?s = decision s" using u(1) by (simp add: cancel_frame_def)
    have b: "b0 + k \<le> length (trail ?s)" using Suc.prems(1) by (simp add: u)
    have q: "idx_ok (heap (order_heap ?s)) (indices (order_heap ?s))" "elems (order_heap ?s) \<subseteq> {..< n}"
      "n \<le> length (indices (order_heap ?s))" using h(1) Suc.prems(3-5) by (auto simp: heap_in_def)
    have tp: "\<forall>p \<in> set (trail ?s). vix (var p) < n \<and> decision ?s ! vix (var p)" using Suc.prems(2) by (simp add: u dc)
    note ih = Suc.IH [OF b tp q, of re, unfolded u(2) lv]
    have eq: "cancel_loop T lev b0 (Suc k) re s = cancel_loop T lev b0 k re ?s" using False by (simp add: Let_def)
    have "vix (var ?p) \<in> elems (order_heap (snd (cancel_loop T lev b0 k re ?s)))"
      using ih h(2) Suc.prems(3) q unfolding heap_in_def by blast
    then show ?thesis using ih heap_in_trans [OF h(1)] unfolding eq t by (auto simp: unassign_rest)
  qed
qed

lemma reenqueue_plain:
  assumes "plain s" and "\<forall>p \<in> set ps. lit_ok (nVars s) p"
  shows "ana_rest (reenqueue_loop T ps s) = ana_rest s \<and> order_heap (reenqueue_loop T ps s) = order_heap s"
  using assms
proof (induction ps arbitrary: s)
  case (Cons p ps)
  let ?s = "s\<lparr>trail := trail s @ [p]\<rparr>"
  have "plain ?s" using Cons.prems(1) by (simp add: plain_def nVars_def)
  moreover have "lit_ok (nVars ?s) p" "\<forall>p \<in> set ps. lit_ok (nVars ?s) p" using Cons.prems(2) by (simp_all add: nVars_def)
  ultimately show ?case using Cons.IH [of ?s] plain_notify [of ?s p T] by (simp add: ana_rest_def)
qed simp

text \<open>The rest of the state and the heap after backtracking.\<close>

lemma cancelUntil_rest:
  fixes T :: "'h theory_ops" and s :: "'h solver"
  assumes b: "base P s" and lev: "lev < decisionLevel s"
  defines "s' \<equiv> cancelUntil T lev s"
  shows "ana_rest s' = ana_rest s" and "heap_in (nVars s) (order_heap s) (order_heap s')"
    and "\<And>p. p \<in> set (drop (trail_lim s ! lev) (trail s)) \<Longrightarrow> lev < level s (var p) \<Longrightarrow> vix (var p) \<in> elems (order_heap s')"
proof -
  note bd = baseD [OF b]
  define s1 where "s1 = s\<lparr>ths := (ths s)\<lparr>tstate := backtrack_theories T (opt_lazy_backtrack (opts s)) lev 0
                     (n_theories (ths s)) (tstate (ths s))\<rparr>\<rparr>"
  define b0 where "b0 = trail_lim s1 ! lev"
  have b0s: "b0 = trail_lim s ! lev" by (simp add: b0_def s1_def)
  have b0: "b0 \<le> length (trail s)" unfolding b0s by (rule levels_okD(1) [OF bd(2) lev])
  obtain re s2 where c: "cancel_loop T lev b0 (length (trail s1) - b0) [] s1 = (re, s2)" by fastforce
  define s3 where "s3 = s2\<lparr>qhead := b0, trail := take b0 (trail s2), trail_lim := take lev (trail_lim s2)\<rparr>"
  define s4 where "s4 = (if decisionLevel s3 < track_min_level s3 then s3\<lparr>track_min_level := decisionLevel s3\<rparr> else s3)"
  define s5 where "s5 = s4\<lparr>ths := (ths s4)\<lparr>in_theory_queue := clear_in_queue (theory_queue (ths s4)) (in_theory_queue (ths s4)),
                                    theory_queue := []\<rparr>\<rparr>"
  define s6 where "s6 = reenqueue_loop T (rev re) s5"
  have s': "s' = s6\<lparr>ths := restore_deciders T (decisionLevel s6) (rev (theory_decision_trail (ths s6))) (ths s6)\<rparr>"
    unfolding s'_def cancelUntil_def if_P [OF lev] Let_def c [unfolded b0_def s1_def] prod.case s6_def s5_def s4_def s3_def b0_def s1_def
    by (rule refl)
  have e1: "trail s1 = trail s" "level s1 = level s" "assigns s1 = assigns s" "decision s1 = decision s"
    "order_heap s1 = order_heap s" "ana_rest s1 = ana_rest s" "vardata s1 = vardata s"
    by (simp_all add: s1_def level_def fun_eq_iff ana_rest_def)
  have le: "b0 + (length (trail s1) - b0) \<le> length (trail s1)" using b0 by (simp add: e1)
  have tl: "\<forall>p \<in> set (trail s1). vix (var p) < nVars s \<and> decision s1 ! vix (var p)"
    using trail_okD(4) [OF bd(14)] lit_ok_vix bd(12) by (auto simp: e1 settings_def)
  have hf: "idx_ok (heap (order_heap s1)) (indices (order_heap s1))" "elems (order_heap s1) \<subseteq> {..< nVars s}"
    "nVars s \<le> length (indices (order_heap s1))" using bd(10) by (simp_all add: heap_full_def e1)
  note h = cancel_loop_heap [OF le tl hf, where T = T and lev = lev and re = "[]", unfolded c snd_conv, unfolded e1]
  note cl = cancel_loop_spec [OF le, where T = T and lev = lev and re = "[]", unfolded c snd_conv fst_conv, unfolded e1]
  have c2: "ana_rest s2 = ana_rest s" "heap_in (nVars s) (order_heap s) (order_heap s2)" "vardata s2 = vardata s"
    using h cl by (simp_all add: cancel_frame_def e1)
  have th: "n_theories (ths s2) = 0" "theory_queue (ths s2) = []" "theory_vars s2 = theory_vars s"
    using c2(1) bd(13) by (simp_all add: ana_rest_def plain_def)
  have nv: "nVars s5 = nVars s" by (simp add: s5_def s4_def s3_def nVars_def c2)
  have e5: "ana_rest s5 = ana_rest s2" "order_heap s5 = order_heap s2"
    using th by (simp_all add: s5_def s4_def s3_def ana_rest_def)
  have pl: "plain s5" using th bd(13) nv by (simp add: s5_def s4_def s3_def plain_def nVars_def)
  have "set re \<subseteq> set (drop b0 (trail s))" using cl by auto
  then have "\<forall>p \<in> set (rev re). lit_ok (nVars s5) p" using trail_okD(4) [OF bd(14)] nv by (auto dest: in_set_dropD)
  note r = reenqueue_plain [OF pl this, of T, folded s6_def]
  have n6: "n_theories (restore_deciders T l ds t) = n_theories t \<and> theory_queue (restore_deciders T l ds t) = theory_queue t" for l ds t
    by (induction T l ds t rule: restore_deciders.induct) (auto split: option.splits)
  have "ana_rest s' = ana_rest s6" by (simp add: s' ana_rest_def n6)
  then show "ana_rest s' = ana_rest s" using r e5 c2(1) by simp
  have oh: "order_heap s' = order_heap s2" using r e5 by (simp add: s')
  show "heap_in (nVars s) (order_heap s) (order_heap s')" using c2(2) by (simp add: oh)
  show "vix (var p) \<in> elems (order_heap s')" if "p \<in> set (drop (trail_lim s ! lev) (trail s))" "lev < level s (var p)" for p
    using h that by (simp add: oh b0s)
qed

lemma cancelUntil_keeps:
  fixes T :: "'h theory_ops" and s :: "'h solver"
  assumes b: "base P s" and lev: "lev < decisionLevel s"
  defines "s' \<equiv> cancelUntil T lev s"
  shows "base P s'" and "db s' = db s" and "queue_done (db s') s'" and "assumed_ok s \<Longrightarrow> assumed_ok s'"
    and "levels_used s \<Longrightarrow> levels_used s'" and "decisionLevel s' = lev" and "ana_rest s' = ana_rest s"
proof -
  note bd = baseD [OF b]
  note cu = cancelUntil_spec [OF bd(1-3) lev base_calm [OF b], of T, folded s'_def] and cr = cancelUntil_rest [OF b lev, where T = T, folded s'_def]
  have b0: "trail_lim s ! lev \<le> length (trail s)" by (rule levels_okD(1) [OF bd(2) lev])
  have ft: "trail s' = take (trail_lim s ! lev) (trail s) @ filter (\<lambda>p. level s (var p) \<le> lev) (drop (trail_lim s ! lev) (trail s))"
    using cancelUntil_fields(2) [OF lev b0 _ base_calm [OF b], of T] trail_okD(4) [OF bd(14)] by (simp add: s'_def)
  have g: "vardata s' = vardata s" "watches s' = watches s" "ca s' = ca s" "clauses s' = clauses s" "learnts s' = learnts s"
    "ok s' = ok s" "decision s' = decision s" "opts s' = opts s" "seen s' = seen s"
    using cu(8) by (simp_all add: cancel_frame_def)
  have e: "nVars s' = nVars s" "reason s' = reason s" "level s' = level s" "clits s' = clits s" using g state_eqs by blast+
  have r: "released_vars s' = released_vars s" "assumptions s' = assumptions s" "tmp_clause s' = tmp_clause s"
    "theory_vars s' = theory_vars s" "clauses_to_add s' = clauses_to_add s" "random_seed s' = random_seed s"
    "initial_level s' = initial_level s" "n_theories (ths s') = n_theories (ths s)" "theory_queue (ths s') = theory_queue (ths s)"
    using cr(1) by (simp_all add: ana_rest_def)
  show d: "db s' = db s" by (simp add: db_def g)
  show dl: "decisionLevel s' = lev" using lev by (simp add: decisionLevel_def cu(6))
  show "ana_rest s' = ana_rest s" by (rule cr(1))
  have sub: "set (trail s') \<subseteq> set (trail s)" by (auto simp: cu(5))
  have lim: "trail_lim s' ! j = trail_lim s ! j" "j < decisionLevel s" "trail_lim s ! j \<le> trail_lim s ! lev" if "j < lev" for j
    using that lev levels_okD(2) [OF bd(2), of j lev] by (simp_all add: cu(6))
  have io: "in_order s'"
    unfolding in_order_def dl e
  proof (intro allI impI ballI)
    fix j p assume j: "j < lev" "p \<in> set (drop (trail_lim s' ! j) (trail s'))"
    then have "p \<in> set (drop (trail_lim s ! j) (take (trail_lim s ! lev) (trail s))) \<or> p \<in> set (drop (trail_lim s ! lev) (trail s))"
      using lim [OF j(1)] b0 by (auto simp: ft)
    moreover have "set (drop (trail_lim s ! j) (take (trail_lim s ! lev) (trail s))) \<subseteq> set (drop (trail_lim s ! j) (trail s))"
      unfolding drop_take by (rule set_take_subset)
    moreover have "set (drop (trail_lim s ! lev) (trail s)) \<subseteq> set (drop (trail_lim s ! j) (trail s))"
      by (rule set_drop_subset_set_drop [OF lim(3) [OF j(1)]])
    ultimately have "p \<in> set (drop (trail_lim s ! j) (trail s))" by blast
    then show "j < level s (var p)" using bd(6) lim(2) [OF j(1)] by (simp add: in_order_def)
  qed
  have hf: "heap_full s'"
  proof -
    have hb: "idx_ok (heap (order_heap s)) (indices (order_heap s))" "elems (order_heap s) \<subseteq> {..< nVars s}"
      "nVars s \<le> length (indices (order_heap s))"
      "\<forall>v < nVars s. isU s (mkLit (int v) False) \<longrightarrow> v \<in> elems (order_heap s)" using bd(10) by (simp_all add: heap_full_def)
    have hn: "idx_ok (heap (order_heap s')) (indices (order_heap s'))" "elems (order_heap s') \<subseteq> {..< nVars s}"
      "nVars s \<le> length (indices (order_heap s'))" "elems (order_heap s) \<subseteq> elems (order_heap s')"
      using cr(2) hb(1-3) by (auto simp: heap_in_def)
    have "v \<in> elems (order_heap s')" if v: "v < nVars s" "isU s' (mkLit (int v) False)" for v
    proof (cases "isU s (mkLit (int v) False)")
      case True
      then show ?thesis using hb(4) hn(4) v(1) by blast
    next
      case False
      have l: "lit_ok (nVars s) (mkLit (int v) False)" using v(1) by (simp add: lit_ok_alt)
      obtain p where p: "p \<in> set (trail s)" "var p = int v" using False l bd(14) by (auto simp: trail_ok_def)
      have "trail_ok s'" using cu(1) by (simp add: solver_inv_def bcp_inv_def)
      then have "int v \<notin> var ` set (trail s')" using v(2) l by (simp add: trail_ok_def e(1))
      then have "p \<notin> set (trail s')" using p(2) by (metis imageI)
      then have n: "lev < level s (var p)" using p(1) by (simp add: cu(5))
      then have "p \<notin> set (take (trail_lim s ! lev) (trail s))" using levels_okD(4) [OF bd(2) lev, of p] by auto
      then have "p \<in> set (drop (trail_lim s ! lev) (trail s))"
        using p(1) set_append [of "take (trail_lim s ! lev) (trail s)" "drop (trail_lim s ! lev) (trail s)"] by simp
      from cr(3) [OF this n] show ?thesis by (simp add: p(2) vix_def)
    qed
    then show ?thesis using hn by (simp add: heap_full_def e(1))
  qed
  have root: "(\<forall>q \<in> set (trail s'). level s (var q) = 0 \<longrightarrow> M q) \<longleftrightarrow> (\<forall>q \<in> set (trail s). level s (var q) = 0 \<longrightarrow> M q)" for M
    by (auto simp: cu(5))
  have pr: "problem P s'"
    unfolding problem_def g e root using bd(11) by (simp add: problem_def)
  have st: "settings s'" using bd(12) by (simp add: settings_def plain_def g r e)
  have nt: "no_theory_reasons s'" using bd(4) sub by (auto simp: no_theory_reasons_def isTheoryCause_def e g)
  show "base P s'" using cu(1,3,4) nt bd(5,7-9) io hf pr st by (simp add: base_def d) (simp add: g)
  show "queue_done (db s') s'" using cu(2) by (simp add: d)
  show "assumed_ok s'" if ao: "assumed_ok s"
    unfolding assumed_ok_def r e dl
  proof (intro conjI ballI allI impI)
    show "lit_ok (nVars s) a" if "a \<in> set (assumptions s)" for a using ao that by (simp add: assumed_ok_def)
    have k: "assumptions s ! k \<in> set (trail s) \<and> level s (var (assumptions s ! k)) \<le> Suc k" if "k < lev" "k < length (assumptions s)" for k
      using ao that lev by (simp add: assumed_ok_def)
    show "level s (var (assumptions s ! k)) \<le> Suc k" if "k < lev" "k < length (assumptions s)" for k using k [OF that] by blast
    show "assumptions s ! k \<in> set (trail s')" if "k < lev" "k < length (assumptions s)" for k
      using k [OF that] that(1) by (simp add: cu(5))
    fix p assume "p \<in> set (trail s')" "reason s (var p) = CRef_Undef \<and> 0 < level s (var p) \<and> level s (var p) \<le> length (assumptions s)"
    then show "p = assumptions s ! (level s (var p) - 1)" using ao sub unfolding assumed_ok_def by blast
  qed
  show "levels_used s'" if lu: "levels_used s"
    unfolding levels_used_def r dl
  proof (intro allI impI)
    fix k assume k: "k < lev" "length (assumptions s) \<le> k"
    have "k < decisionLevel s" "Suc k < decisionLevel s" using k(1) lev by simp_all
    then have 1: "trail_lim s ! k < trail_lim s ! Suc k" using lu [unfolded levels_used_def, rule_format, of k] k(2) by simp
    show "trail_lim s' ! k < (if Suc k < lev then trail_lim s' ! Suc k else length (trail s'))"
    proof (cases "Suc k < lev")
      case True
      then show ?thesis using 1 lim(1) [OF k(1)] lim(1) [OF True] by simp
    next
      case False
      then have "Suc k = lev" using k(1) by simp
      then show ?thesis using 1 lim(1) [OF k(1)] b0 by (simp add: ft)
    qed
  qed
qed

section \<open>False clauses\<close>

lemma false_neg_trail:
  assumes b: "base P s" and c: "cr \<in> db s" and F: "\<forall>l \<in> set (clits s cr). isF s l" and l: "l \<in> set (clits s cr)"
  shows "neg l \<in> set (trail s)"
  using trail_okD(2) [OF baseD(14) [OF b], of l] baseD(18) [OF b c] F l by blast

lemma conflict_at_root:
  assumes b: "base P s" and c: "cr \<in> db s" and F: "\<forall>l \<in> set (clits s cr). isF s l" and d: "decisionLevel s = 0"
  shows "P = {}"
proof -
  have False if M: "M \<in> P" for M
  proof -
    have m: "root_model (db s) s M" using problem_root [OF baseD(11) [OF b]] M by simp
    then obtain l where l: "l \<in> set (clits s cr)" "M l" using c by (auto simp: root_model_def)
    have n: "neg l \<in> set (trail s)" by (rule false_neg_trail [OF b c F l(1)])
    then have "level s (var (neg l)) = 0" using levels_okD(3) [OF baseD(2) [OF b] n] d by simp
    then have "M (neg l)" using m n unfolding root_model_def by blast
    then show False using m l(2) by (simp add: root_model_def lit_model_def)
  qed
  then show ?thesis by blast
qed

lemma conflict_above_root:
  assumes b: "base P s" and c: "cr \<in> db s" and F: "\<forall>l \<in> set (clits s cr). isF s l" and d: "0 < decisionLevel s"
  shows "conflict_state (db s) cr s"
proof -
  note bd = baseD [OF b]
  have "\<exists>l \<in> set (clits s cr). 0 < level s (var l)"
  proof (rule ccontr)
    assume n: "\<not> ?thesis"
    let ?c = "clits s cr" and ?t = "take (trail_lim s ! 0) (trail s)"
    have c0: "?c ! 0 \<in> set ?c" using first_two [of ?c] bd(18) [OF c] by blast
    have nt: "neg (?c ! 0) \<in> set (trail s)" by (rule false_neg_trail [OF b c F c0])
    have "neg (?c ! 0) \<notin> set (drop (trail_lim s ! 0) (trail s))"
    proof
      assume "neg (?c ! 0) \<in> set (drop (trail_lim s ! 0) (trail s))"
      then have "0 < level s (var (neg (?c ! 0)))" using bd(6) d unfolding in_order_def by blast
      then show False using n c0 by simp
    qed
    then have "neg (?c ! 0) \<in> set ?t" using nt set_append [of ?t "drop (trail_lim s ! 0) (trail s)"] by simp
    moreover have "watched ?c (neg (?c ! 0))" by (simp add: watched_def)
    ultimately obtain l where l: "l \<in> set ?c" "l \<in> set ?t" using bd(3) d c unfolding prefix_done_def by blast
    have "isT s l" using trail_okD(1) [OF bd(14), of l] bd(18) [OF c] l in_set_takeD by fast
    then show False using F l(1) not_T_and_F by blast
  qed
  then show ?thesis using bd(1-4,17) c F by (simp add: conflict_state_def)
qed

section \<open>Assigning a literal\<close>

text \<open>At the root an assigned literal becomes part of the problem.\<close>

lemma base_enqueue_gen:
  fixes T :: "'h theory_ops" and s :: "'h solver"
  assumes b: "base P s" and qd: "queue_done (db s - {cr}) s" and q: "lit_ok (nVars s) q" and U: "isU s q"
    and rs: "cr \<in> db s \<Longrightarrow> clits s cr ! 0 = q \<and> (\<forall>l \<in> set (clits s cr). l \<noteq> q \<longrightarrow> isF s l)"
    and cr: "cr = CRef_Undef \<or> cr \<in> db s"
    and dec: "cr = CRef_Undef \<Longrightarrow> 0 < decisionLevel s \<Longrightarrow> trail_lim s ! (decisionLevel s - 1) = length (trail s)"
  defines "s' \<equiv> uncheckedEnqueue T q cr s"
  shows "base (if decisionLevel s = 0 then P \<inter> {M. M q} else P) s'" and "db s' = db s" and "queue_done (db s') s'" and "trail s' = trail s @ [q]" and "trail_lim s' = trail_lim s"
    and "nVars s' = nVars s" and "ana_rest s' = ana_rest s" and "ca s' = ca s"
    and "\<And>p. p \<in> set (trail s') \<Longrightarrow> level s' (var p) = (if p = q then decisionLevel s else level s (var p))"
    and "\<And>p. p \<in> set (trail s') \<Longrightarrow> reason s' (var p) = (if p = q then cr else reason s (var p))"
    and "levels_used s \<Longrightarrow> levels_used s'"
    and "cr \<noteq> CRef_Undef \<or> decisionLevel s = 0 \<Longrightarrow> assumed_ok s \<Longrightarrow> assumed_ok s'"
proof -
  note bd = baseD [OF b]
  have live: "isClause (ca s) cr \<Longrightarrow> cr \<in> db s" using cr not_isClause_Undef by blast
  have bi: "bcp_inv (db s) s (wlist (watches_cleanAll s))" using bd(1) by (simp add: solver_inv_def)
  have pl: "notify_theory T p t = t" if "vardata t = (vardata s)[i := d]" "ths t = ths s" "theory_vars t = theory_vars s" "p = q"
    for p t i d
  proof -
    have "nVars t = nVars s" using that(1) by (simp add: nVars_def)
    then have "plain t" using bd(13) that by (simp add: plain_def)
    then show ?thesis using plain_notify [of t p T] q that(4) \<open>nVars t = nVars s\<close> by simp
  qed
  have s': "s' = s\<lparr>assigns := (assigns s)[vix (var q) := lbool_of_bool (\<not> sign q)],
      vardata := (vardata s)[vix (var q) := \<lparr>vreason = cr, vlevel = decisionLevel s\<rparr>], trail := trail s @ [q]\<rparr>"
    unfolding s'_def uncheckedEnqueue_def by (rule pl) auto
  have g: "clauses s' = clauses s" "learnts s' = learnts s" "order_heap s' = order_heap s" "ths s' = ths s" "ok s' = ok s"
    "decision s' = decision s" "seen s' = seen s" "ana_rest s' = ana_rest s" "theory_vars s' = theory_vars s"
    by (simp_all add: s' ana_rest_def)
  have r: "released_vars s' = released_vars s" "assumptions s' = assumptions s" "tmp_clause s' = tmp_clause s"
    "clauses_to_add s' = clauses_to_add s" "random_seed s' = random_seed s" "initial_level s' = initial_level s"
    by (simp_all add: s')
  show d: "db s' = db s" by (simp add: db_def g)
  show ca: "ca s' = ca s" and tl: "trail_lim s' = trail_lim s" by (simp_all add: s')
  show "ana_rest s' = ana_rest s" by (rule g)
  note e = enqueue_step [OF bi q U rs live base_calm [OF b], where T = T, folded s'_def]
  show tr: "trail s' = trail s @ [q]" and nv: "nVars s' = nVars s"
    and lv: "\<And>p. p \<in> set (trail s') \<Longrightarrow> level s' (var p) = (if p = q then decisionLevel s else level s (var p))"
    and rv: "\<And>p. p \<in> set (trail s') \<Longrightarrow> reason s' (var p) = (if p = q then cr else reason s (var p))"
    using e by blast+
  have cl: "clits s' = clits s" using ca by (rule state_eqs(7))
  have dl: "decisionLevel s' = decisionLevel s" by (simp add: decisionLevel_def tl)
  have en: "solver_inv (db s) s'" "queue_done (db s) s'"
    unfolding s'_def by (rule solver_inv_enqueue_reason [OF bd(1) qd q U rs live base_calm [OF b]]; assumption)+
  have le: "levels_ok (db s) s'" "prefix_done (db s) s'"
    unfolding s'_def by (rule enqueue_levels [OF bd(1-3) q U rs live dec base_calm [OF b]]; assumption)+
  show "queue_done (db s') s'" using en(2) by (simp add: d)
  have fresh: "q \<notin> set (trail s)" using trail_okD(1) [OF bd(14) q] isU_not [OF U] by simp
  have old: "level s' (var p) = level s (var p)" "reason s' (var p) = reason s (var p)" if "p \<in> set (trail s)" for p
    using that lv [of p] rv [of p] fresh by (auto simp: tr)
  have nt: "no_theory_reasons s'"
    unfolding no_theory_reasons_def
  proof
    fix p assume p: "p \<in> set (trail s')"
    show "\<not> isTheoryCause s' (reason s' (var p))"
    proof (cases "p = q")
      case True
      then show ?thesis using rv [OF p] cr bd(19) by (auto simp: isTheoryCause_def ca)
    next
      case False
      then show ?thesis using rv [OF p] p bd(4) by (simp add: isTheoryCause_def ca no_theory_reasons_def tr)
    qed
  qed
  have io: "in_order s'"
    unfolding in_order_def dl tl
  proof (intro allI impI ballI)
    fix j p assume j: "j < decisionLevel s" "p \<in> set (drop (trail_lim s ! j) (trail s'))"
    show "j < level s' (var p)"
    proof (cases "p = q")
      case True
      then show ?thesis using lv [of p] j(1) by (simp add: tr)
    next
      case False
      then have p: "p \<in> set (drop (trail_lim s ! j) (trail s))" using j levels_okD(1) [OF bd(2) j(1)] by (auto simp: tr)
      then show ?thesis using bd(6) j(1) old(1) [OF in_set_dropD [OF p]] by (simp add: in_order_def)
    qed
  qed
  have tok: "trail_ok s'" using en(1) by (simp add: solver_inv_def bcp_inv_def)
  have "isU s (mkLit (int v) False)" if "v < nVars s" "isU s' (mkLit (int v) False)" for v
  proof -
    have l: "lit_ok (nVars s) (mkLit (int v) False)" using that(1) by (simp add: lit_ok_alt)
    then show ?thesis using that(2) bd(14) tok by (simp add: trail_ok_def nv tr)
  qed
  then have hf: "heap_full s'" using bd(10) by (simp add: heap_full_def nv g)
  have "(\<forall>p \<in> set (trail s'). level s' (var p) = 0 \<longrightarrow> M p) \<longleftrightarrow>
      (\<forall>p \<in> set (trail s). level s (var p) = 0 \<longrightarrow> M p) \<and> (decisionLevel s = 0 \<longrightarrow> M q)" for M
    using lv [of q] old(1) by (auto simp: tr)
  then have pr: "problem (if decisionLevel s = 0 then P \<inter> {M. M q} else P) s'" using bd(11) by (auto simp: problem_def g cl)
  have st: "settings s'" using bd(12) by (simp add: settings_def plain_def g r nv ca)
  show "base (if decisionLevel s = 0 then P \<inter> {M. M q} else P) s'" using en(1) le nt bd(5,7-9) io hf pr st by (simp add: base_def d ca) (simp add: g)
  show "levels_used s'" if lu: "levels_used s"
    unfolding levels_used_def tl dl r
  proof (intro allI impI)
    fix k assume "k < decisionLevel s" "length (assumptions s) \<le> k"
    then have "trail_lim s ! k < (if Suc k < decisionLevel s then trail_lim s ! Suc k else length (trail s))"
      using lu by (simp add: levels_used_def)
    then show "trail_lim s ! k < (if Suc k < decisionLevel s then trail_lim s ! Suc k else length (trail s'))"
      by (cases "Suc k < decisionLevel s") (simp_all add: tr)
  qed
  show "assumed_ok s'" if c: "cr \<noteq> CRef_Undef \<or> decisionLevel s = 0" and ao: "assumed_ok s"
    unfolding assumed_ok_def r nv dl
  proof (intro conjI ballI allI impI)
    show "lit_ok (nVars s) a" if "a \<in> set (assumptions s)" for a using ao that by (simp add: assumed_ok_def)
    show "assumptions s ! k \<in> set (trail s')" if "k < decisionLevel s" "k < length (assumptions s)" for k
      using ao that by (simp add: assumed_ok_def tr)
    show "level s' (var (assumptions s ! k)) \<le> Suc k" if "k < decisionLevel s" "k < length (assumptions s)" for k
      using ao that old(1) [of "assumptions s ! k"] by (simp add: assumed_ok_def)
    fix p assume p: "p \<in> set (trail s')" "reason s' (var p) = CRef_Undef \<and> 0 < level s' (var p) \<and> level s' (var p) \<le> length (assumptions s)"
    then have "p \<noteq> q" using c rv [OF p(1)] lv [OF p(1)] by auto
    then have "p \<in> set (trail s)" using p(1) by (simp add: tr)
    then show "p = assumptions s ! (level s' (var p) - 1)" using ao p(2) old by (simp add: assumed_ok_def)
  qed
qed

lemma base_enqueue:
  fixes T :: "'h theory_ops" and s :: "'h solver"
  assumes b: "base P s" and qd: "queue_done (db s - {cr}) s" and q: "lit_ok (nVars s) q" and U: "isU s q"
    and rs: "cr \<in> db s \<Longrightarrow> clits s cr ! 0 = q \<and> (\<forall>l \<in> set (clits s cr). l \<noteq> q \<longrightarrow> isF s l)"
    and cr: "cr = CRef_Undef \<or> cr \<in> db s"
    and dec: "cr = CRef_Undef \<Longrightarrow> 0 < decisionLevel s \<Longrightarrow> trail_lim s ! (decisionLevel s - 1) = length (trail s)"
    and root: "decisionLevel s = 0 \<Longrightarrow> \<forall>M \<in> P. M q"
  defines "s' \<equiv> uncheckedEnqueue T q cr s"
  shows "base P s'" and "db s' = db s" and "queue_done (db s') s'" and "trail s' = trail s @ [q]" and "trail_lim s' = trail_lim s"
    and "nVars s' = nVars s" and "ana_rest s' = ana_rest s" and "ca s' = ca s"
    and "\<And>p. p \<in> set (trail s') \<Longrightarrow> level s' (var p) = (if p = q then decisionLevel s else level s (var p))"
    and "\<And>p. p \<in> set (trail s') \<Longrightarrow> reason s' (var p) = (if p = q then cr else reason s (var p))"
    and "levels_used s \<Longrightarrow> levels_used s'"
    and "cr \<noteq> CRef_Undef \<or> decisionLevel s = 0 \<Longrightarrow> assumed_ok s \<Longrightarrow> assumed_ok s'"
proof -
  note u = base_enqueue_gen [OF b qd q U rs cr dec, where T = T, folded s'_def]
  have "(if decisionLevel s = 0 then P \<inter> {M. M q} else P) = P" using root by auto
  then show "base P s'" using u(1) by simp
qed (rule base_enqueue_gen [OF b qd q U rs cr dec, where T = T, folded s'_def]; assumption)+

section \<open>Storing a clause\<close>

text \<open>A clause of the problem, which changes the problem, or a learnt clause, which must follow from it.\<close>

definition stored :: "bool \<Rightarrow> bool \<Rightarrow> CRef \<Rightarrow> 'h solver \<Rightarrow> 'h solver" where
  "stored lrn der cr s =
     attachClause cr (if lrn then s\<lparr>learnts := learnts s @ [cr]\<rparr>
                      else s\<lparr>ca := ca_modify cr (setDerived der) (ca s), clauses := clauses s @ [cr]\<rparr>)"

lemma base_store_gen:
  fixes s :: "'h solver"
  assumes b: "base P s" and qd: "queue_done (db s) s"
    and ps: "2 \<le> length ps" "distinct ps" "\<forall>l \<in> set ps. lit_ok (nVars s) l" "length ps < 2 ^ 26"
    and lv: "0 < decisionLevel s \<longrightarrow> isU s (ps ! 0) \<and> level s (var (ps ! 1)) = decisionLevel s"
    and imp: "lrn \<longrightarrow> (\<forall>M \<in> P. \<exists>l \<in> set ps. M l)" and room: "unat (rsz (region_of (ca s))) + length ps + 2 < 2643056797"
  shows "\<exists>cr s1. alloc_clause ps lrn s = Some (cr, s1) \<and>
     (let s2 = stored lrn der cr s1
      in base (if lrn then P else P \<inter> {M. \<exists>l \<in> set ps. M l}) s2 \<and> ok s2 = ok s \<and> qhead s2 = qhead s \<and> cr \<in> db s2 \<and> db s2 - {cr} = db s \<and> queue_done (db s2 - {cr}) s2 \<and> clits s2 cr = ps \<and> assigns s2 = assigns s \<and>
         vardata s2 = vardata s \<and> trail s2 = trail s \<and> trail_lim s2 = trail_lim s \<and> ana_rest s2 = ana_rest s \<and>
         unat (rsz (region_of (ca s2))) \<le> unat (rsz (region_of (ca s))) + length ps + 2)"
proof -
  note bd = baseD [OF b] and ad = arena_okD [OF baseD(5) [OF b]]
  define cr where "cr = rsz (region_of (ca s))"
  have rm: "unat (rsz (region_of (ca s))) + length ps + 2 \<le> 2643056797" using room by simp
  let ?e = "lrn \<or> extra_clause_field (ca s)"
  from ca_alloc_ok [OF ad(1) ps(4) rm, of lrn] obtain ca1 where a1:
    "ca_alloc ps lrn (ca s) = Some (Inr (cr, ca1))" "mem (ca s) cr = None"
    "mem ca1 = (mem (ca s))(cr \<mapsto> clause_new 0 0 ps ?e lrn)" "marker_refs ca1 = marker_refs (ca s)" "allocator_wf ca1"
    "unat (rsz (region_of ca1)) = unat (rsz (region_of (ca s))) + clauseWord32Size (length ps) ?e"
    "rwasted (region_of ca1) = rwasted (region_of (ca s))" by (auto simp: cr_def)
  define ca' where "ca' = (if lrn then ca1 else ca_modify cr (setDerived der) ca1)"
  define d where "d = (if lrn then clause_new 0 0 ps ?e lrn else setDerived der (clause_new 0 0 ps ?e lrn))"
  have dl: "lits d = ps" "cmark d = 0" "reloced d = False" "has_extra d = ?e" "learnt d = lrn"
    using ps(4) by (simp_all add: d_def setDerived_def)
  have a: "ca_alloc ps lrn (ca s) = Some (Inr (cr, ca1))" "allocator_wf ca'" "mem (ca s) cr = None"
    "mem ca' = (mem (ca s))(cr \<mapsto> d)" "marker_refs ca' = marker_refs (ca s)"
    "unat (rsz (region_of ca')) = unat (rsz (region_of (ca s))) + clauseWord32Size (length ps) ?e"
    "rwasted (region_of ca') = rwasted (region_of (ca s))"
  proof -
    show m: "mem ca' = (mem (ca s))(cr \<mapsto> d)" by (simp add: ca'_def d_def a1(3) ca_modify_def)
    show "allocator_wf ca'"
      using a1(5) unfolding allocator_wf_def m
      by (auto simp: a1(3) ca'_def d_def ca_modify_def setDerived_def clause_size_def split: if_splits)
  qed (use a1 in \<open>simp_all add: ca'_def ca_modify_def\<close>)
  define s1 where "s1 = s\<lparr>ca := ca1\<rparr>"
  have al: "alloc_clause ps lrn s = Some (cr, s1)" by (simp add: alloc_clause_def a(1) s1_def)
  define s2 where "s2 = (if lrn then s1\<lparr>learnts := learnts s1 @ [cr]\<rparr>
                      else s1\<lparr>ca := ca_modify cr (setDerived der) (ca s1), clauses := clauses s1 @ [cr]\<rparr>)"
  let ?ls = "if lrn then [cr] else []" and ?cs = "if lrn then [] else [cr]"
  have f: "trail s2 = trail s" "assigns s2 = assigns s" "vardata s2 = vardata s" "watches s2 = watches s" "qhead s2 = qhead s"
    "ca s2 = ca'" "clauses s2 = clauses s @ ?cs" "learnts s2 = learnts s @ ?ls" "trail_lim s2 = trail_lim s"
    by (simp_all add: s2_def s1_def ca'_def)
  have e: "isF s2 = isF s" "isU s2 = isU s" "nVars s2 = nVars s" "reason s2 = reason s" "level s2 = level s" "wlist s2 = wlist s"
    using f state_eqs by blast+
  have old: "\<forall>r. mem (ca s) r \<noteq> None \<longrightarrow> mem (ca s2) r = mem (ca s) r" using a(3,4) by (auto simp: f)
  have mr: "marker_refs (ca s2) = marker_refs (ca s)" by (simp add: f a(5))
  note inv2 = solver_inv_ca [OF bd(1) old mr f(1-5)]
  have crdb: "cr \<notin> db s" using bd(19) a(3) by blast
  have mu: "marker_refs (ca s) = CRef_Undef" using bd(12) by (simp add: settings_def)
  have "cr < CRef_Undef"
    using room unfolding cr_def Ref_Undef_def by (simp add: word_less_nat_alt unsigned_minus_1_eq_mask mask_eq_exp_minus_1)
  then have cru: "isClause (ca s2) cr" by (simp add: isClause_def mr mu)
  have m2: "mem (ca s2) cr = Some d" by (simp add: f a(4) d_def)
  have "\<forall>q. lit_ok (nVars s) q \<longrightarrow> (\<forall>w \<in> set (wlist s q). mem (ca s) (cref w) \<noteq> None)" using bd(1) by (simp add: solver_inv_def)
  then have fresh: "\<forall>q. lit_ok (nVars s2) q \<longrightarrow> (\<forall>w \<in> set (wlist s2 q). cref w \<noteq> cr)" using a(3) unfolding e by metis
  have nr: "\<forall>p \<in> set (trail s2). reason s2 (var p) \<noteq> cr"
    using bd(16) crdb cru by (auto simp: reasons_live_def e f isClause_def a(5))
  have lits: "2 \<le> length (lits d)" "distinct (lits d)" "\<forall>l \<in> set (lits d). lit_ok (nVars s2) l"
    using ps by (simp_all add: dl e)
  have nd: "cmark d \<noteq> 1" by (simp add: dl)
  define s3 where "s3 = attachClause cr s2"
  note at = attach_inv [OF inv2(1) crdb cru m2 nd lits fresh nr, folded s3_def]
  have e3: "isF s3 = isF s" "isU s3 = isU s" "isT s3 = isT s" "reason s3 = reason s" "level s3 = level s" "nVars s3 = nVars s"
    "decisionLevel s3 = decisionLevel s"
    using at(10,11) state_eqs [of s3 s] by (simp_all add: f decisionLevel_def at(7))
  have db3: "db s3 = insert cr (db s)" using at(4,5) by (auto simp: db_def f split: if_splits)
  have cl: "clits s3 cr = ps" by (simp add: at(3) clits_def clause_at_def ca_get_def m2 dl)
  have clo: "clits s3 r = clits s r" if "r \<in> db s" for r
    using old bd(19) [OF that] by (simp add: at(3) clits_def clause_at_def ca_get_def)
  have n0: "neg (ps ! 0) \<notin> set (trail s)" if "0 < decisionLevel s"
    using trail_okD(2) [OF bd(14), of "ps ! 0"] isU_not [of s "ps ! 0"] lv that ps(1,3) by (cases ps) auto
  have lo: "levels_ok (db s3) s3"
  proof -
    have "reason s (var p) \<in> db s \<and> l \<in> set (clits s (reason s (var p)))"
      if "p \<in> set (trail s)" "reason s (var p) \<in> db s3" "l \<in> set (clits s3 (reason s (var p)))" for p l
      using that nr clo db3 by (auto simp: e f)
    then show ?thesis
      using bd(2) unfolding levels_ok_def e3 at(2,7) f by blast
  qed
  have pd: "prefix_done (db s3) s3"
    unfolding prefix_done_def e3(7) at(2,7) f
  proof (intro allI impI ballI)
    fix j r q assume j: "j < decisionLevel s" "r \<in> db s3" "q \<in> set (take (trail_lim s ! j) (trail s))" "watched (clits s3 r) q"
    show "\<exists>l \<in> set (clits s3 r). l \<in> set (take (trail_lim s ! j) (trail s))"
    proof (cases "r = cr")
      case False
      then have "r \<in> db s" using j(2) db3 by simp
      then show ?thesis using bd(3) j clo unfolding prefix_done_def by metis
    next
      case True
      have "q \<in> set (trail s)" using j(3) by (rule in_set_takeD)
      then have "q = neg (ps ! 1)" using j(1,4) n0 True cl by (auto simp: watched_def)
      then have "level s (var q) = decisionLevel s" using lv j(1) by simp
      moreover have "level s (var q) \<le> j" by (rule levels_okD(4) [OF bd(2) j(1,3)])
      ultimately show ?thesis using j(1) by simp
    qed
  qed
  have nt: "no_theory_reasons s3"
    using bd(4) by (simp add: no_theory_reasons_def e3 at(2,9) f isTheoryCause_def isClause_def a(5))
  have io: "in_order s3" using bd(6) by (simp add: in_order_def e3 at(2,7) f)
  have dist: "distinct (clauses s3 @ learnts s3)" using bd(7-9) crdb by (auto simp: at(4,5) f db_def split: if_splits)
  have g: "order_heap s3 = order_heap s" "ana_rest s3 = ana_rest s" "seen s3 = seen s" "decision s3 = decision s" "ok s3 = ok s"
    by (simp_all add: s3_def s2_def s1_def attachClause_def add_literals_def Let_def ana_rest_def)
  have r: "released_vars s3 = released_vars s" "assumptions s3 = assumptions s" "tmp_clause s3 = tmp_clause s"
    "theory_vars s3 = theory_vars s" "clauses_to_add s3 = clauses_to_add s" "random_seed s3 = random_seed s"
    "initial_level s3 = initial_level s" "n_theories (ths s3) = n_theories (ths s)" "theory_queue (ths s3) = theory_queue (ths s)"
    using g(2) by (simp_all add: ana_rest_def)
  have hf: "heap_full s3" using bd(10) by (simp add: heap_full_def e3 g)
  have st: "settings s3" using bd(12) by (simp add: settings_def plain_def r g e3 at(9) f a(5))
  let ?P = "if lrn then P else P \<inter> {M. \<exists>l \<in> set ps. M l}"
  have pr: "problem ?P s3"
    unfolding problem_def at(2,4,5) f e3(5)
  proof (intro conjI allI ballI)
    show "\<exists>l \<in> set (clits s3 r). M l" if "M \<in> ?P" "r \<in> set (learnts s @ ?ls)" for M r
      using that bd(11) imp cl clo [of r] by (auto simp: problem_def db_def split: if_splits)
    have old: "M \<in> P \<longleftrightarrow> lit_model M \<and> (\<forall>r \<in> set (clauses s). \<exists>l \<in> set (clits s3 r). M l) \<and>
        (\<forall>p \<in> set (trail s). level s (var p) = 0 \<longrightarrow> M p)" for M
      using bd(11) clo by (auto simp: problem_def db_def)
    show "M \<in> ?P \<longleftrightarrow> lit_model M \<and> (\<forall>r \<in> set (clauses s @ ?cs). \<exists>l \<in> set (clits s3 r). M l) \<and>
        (\<forall>p \<in> set (trail s). level s (var p) = 0 \<longrightarrow> M p)" for M
      using old [of M] cl by auto
  qed
  have ar: "arena_ok (db s3) (ca s3)"
    unfolding arena_ok_def db3 at(9) f
  proof (intro conjI ballI)
    show "allocator_wf ca'" by (rule a(2))
    have "unat (rsz (region_of ca')) < 2643056797" using room a(6) by (simp add: clauseWord32Size_eq)
    then show "unat (rsz (region_of ca')) < 2643056797" "rsz (region_of ca') \<le> marker_refs ca'"
      unfolding a(5) mu Ref_Undef_def by (simp_all add: word_le_nat_alt unsigned_minus_1_eq_mask mask_eq_exp_minus_1)
    show "finite (insert cr (db s))" using ad(3) by simp
    show "\<exists>c. mem ca' x = Some c \<and> clause_fine c" if "x \<in> insert cr (db s)" for x
    proof (cases "x = cr")
      case True
      then show ?thesis using ps(4) by (simp add: a(4) d_def [symmetric] clause_fine_def dl)
    next
      case False
      then have "x \<in> db s" using that by simp
      then show ?thesis using False ad(4,5) by (simp add: a(4))
    qed
    have "(\<Sum>x \<in> db s. cells (ca_get ca' x)) = (\<Sum>x \<in> db s. cells (ca_get (ca s) x))"
      using crdb by (intro sum.cong) (auto simp: ca_get_def a(4))
    moreover have "cells (ca_get ca' cr) = clauseWord32Size (length ps) ?e"
      by (simp add: ca_get_def a(4) d_def [symmetric] cells_def clause_size_def dl)
    ultimately show "unat (rwasted (region_of ca')) + (\<Sum>x \<in> insert cr (db s). cells (ca_get ca' x)) \<le> unat (rsz (region_of ca'))"
      using ad(3,6) crdb a(6,7) by simp
  qed
  have "base ?P s3" using at(1) lo pd nt io dist ar hf pr st by (simp add: base_def db3)
  moreover have "queue_done (db s) s3"
    using qd clo by (simp add: queue_done_def processed_def sat_clause_def at(2,12) f e3)
  moreover have "unat (rsz (region_of (ca s3))) \<le> unat (rsz (region_of (ca s))) + length ps + 2"
    using a(6) by (simp add: at(9) f clauseWord32Size_eq)
  moreover have "db s3 - {cr} = db s" using crdb by (simp add: db3)
  ultimately show ?thesis
    using al g cl at(2,7,10-12) by (intro exI [of _ cr] exI [of _ s1]) (simp add: stored_def s2_def [symmetric] s3_def [symmetric] db3 f del: if_split)
qed

lemma base_store:
  fixes s :: "'h solver"
  assumes b: "base P s" and qd: "queue_done (db s) s"
    and ps: "2 \<le> length ps" "distinct ps" "\<forall>l \<in> set ps. lit_ok (nVars s) l" "length ps < 2 ^ 26"
    and U: "isU s (ps ! 0)" and lv: "level s (var (ps ! 1)) = decisionLevel s"
    and imp: "\<forall>M \<in> P. \<exists>l \<in> set ps. M l" and room: "unat (rsz (region_of (ca s))) + length ps + 2 < 2643056797"
  shows "\<exists>cr s1. alloc_clause ps True s = Some (cr, s1) \<and>
     (let s2 = attachClause cr (s1\<lparr>learnts := learnts s1 @ [cr]\<rparr>)
      in base P s2 \<and> cr \<in> db s2 \<and> db s2 - {cr} = db s \<and> queue_done (db s2 - {cr}) s2 \<and> clits s2 cr = ps \<and> assigns s2 = assigns s \<and>
         vardata s2 = vardata s \<and> trail s2 = trail s \<and> trail_lim s2 = trail_lim s \<and> ana_rest s2 = ana_rest s \<and>
         unat (rsz (region_of (ca s2))) \<le> unat (rsz (region_of (ca s))) + length ps + 2)"
proof -
  have "0 < decisionLevel s \<longrightarrow> isU s (ps ! 0) \<and> level s (var (ps ! 1)) = decisionLevel s"
    "True \<longrightarrow> (\<forall>M \<in> P. \<exists>l \<in> set ps. M l)" using U lv imp by simp_all
  from base_store_gen [OF b qd ps this room] show ?thesis by (fastforce simp: stored_def Let_def)
qed

section \<open>Learning\<close>

text \<open>A clause that is unit under the assignment and implied by the problem.\<close>

definition asserting :: "(Lit \<Rightarrow> bool) set \<Rightarrow> 'h solver \<Rightarrow> Lit list \<Rightarrow> bool" where
  "asserting P s out \<longleftrightarrow>
     out \<noteq> [] \<and> distinct out \<and> (\<forall>l \<in> set out. lit_ok (nVars s) l) \<and> length out \<le> nVars s \<and> isU s (out ! 0) \<and>
     (\<forall>l \<in> set (tl out). isF s l) \<and> (\<forall>M \<in> P. \<exists>l \<in> set out. M l) \<and>
     (if tl out = [] then decisionLevel s = 0 else level s (var (out ! 1)) = decisionLevel s \<and> 0 < decisionLevel s)"

lemma learn_clause_keeps:
  fixes T :: "'h theory_ops" and s :: "'h solver"
  assumes g: "good P s" and o: "asserting P s out" and room: "unat (rsz (region_of (ca s))) + nVars s + 2 < 2643056797"
  shows "\<exists>s'. learn_clause T out s = Some s' \<and> good P s' \<and> trail_lim s' = trail_lim s \<and> nVars s' = nVars s \<and>
     ana_rest s' = ana_rest s \<and> unat (rsz (region_of (ca s'))) \<le> unat (rsz (region_of (ca s))) + nVars s + 2"
proof -
  have b: "base P s" and qd: "queue_done (db s) s" and ao: "assumed_ok s" and lu: "levels_used s" using g by (auto simp: good_def)
  note bd = baseD [OF b]
  obtain x xs where out: "out = x # xs" using o by (cases out) (auto simp: asserting_def)
  have x: "lit_ok (nVars s) x" "isU s x" using o by (simp_all add: asserting_def out)
  show ?thesis
  proof (cases "xs = []")
    case True
    have d0: "decisionLevel s = 0" and m: "\<forall>M \<in> P. M x" using o True by (auto simp: asserting_def out)
    have q: "queue_done (db s - {CRef_Undef}) s" using qd bd(20) by simp
    note u = base_enqueue [OF b q x, where T = T]
    let ?s = "uncheckedEnqueue T x CRef_Undef s"
    have "base P ?s" "db ?s = db s" "queue_done (db ?s) ?s" "trail_lim ?s = trail_lim s" "nVars ?s = nVars s" "ana_rest ?s = ana_rest s"
      "ca ?s = ca s" "levels_used ?s" "assumed_ok ?s"
      using u(1-3,5-8,11,12) bd(20) d0 m lu ao by simp_all
    then show ?thesis using True by (simp add: learn_clause_def out good_def)
  next
    case False
    then obtain y ys where xs: "xs = y # ys" by (cases xs) auto
    have ps: "2 \<le> length out" "distinct out" "\<forall>l \<in> set out. lit_ok (nVars s) l" "length out < 2 ^ 26" "isU s (out ! 0)"
      "level s (var (out ! 1)) = decisionLevel s" "\<forall>M \<in> P. \<exists>l \<in> set out. M l" "length out \<le> nVars s"
      using o bd(12) by (auto simp: asserting_def out xs settings_def)
    have rm: "unat (rsz (region_of (ca s))) + length out + 2 < 2643056797" using room ps(8) by simp
    from base_store [OF b qd ps(1-7) rm] obtain cr s1 where al: "alloc_clause out True s = Some (cr, s1)" and
      st: "let s2 = attachClause cr (s1\<lparr>learnts := learnts s1 @ [cr]\<rparr>)
      in base P s2 \<and> cr \<in> db s2 \<and> db s2 - {cr} = db s \<and> queue_done (db s2 - {cr}) s2 \<and> clits s2 cr = out \<and> assigns s2 = assigns s \<and>
         vardata s2 = vardata s \<and> trail s2 = trail s \<and> trail_lim s2 = trail_lim s \<and> ana_rest s2 = ana_rest s \<and>
         unat (rsz (region_of (ca s2))) \<le> unat (rsz (region_of (ca s))) + length out + 2" by blast
    define s2 where "s2 = attachClause cr (s1\<lparr>learnts := learnts s1 @ [cr]\<rparr>)"
    define s3 where "s3 = claBumpActivity cr s2"
    have s2: "base P s2" "cr \<in> db s2" "queue_done (db s2 - {cr}) s2" "clits s2 cr = out" "assigns s2 = assigns s" "vardata s2 = vardata s"
      "trail s2 = trail s" "trail_lim s2 = trail_lim s" "ana_rest s2 = ana_rest s"
      "unat (rsz (region_of (ca s2))) \<le> unat (rsz (region_of (ca s))) + length out + 2"
      using st unfolding Let_def s2_def [symmetric] by blast+
    have f: "ana_frame s2 s3" "seen s3 = seen s2" unfolding s3_def by (rule claBump_frame)+
    have e2: "isF s2 = isF s" "isU s2 = isU s" "level s2 = level s" "reason s2 = reason s" "nVars s2 = nVars s"
      "decisionLevel s2 = decisionLevel s" using s2(5,6,8) state_eqs [of s2 s] by (simp_all add: decisionLevel_def)
    have as2: "assumptions s2 = assumptions s" using s2(9) by (simp add: ana_rest_def)
    have sr: "same_run s s2" by (simp add: same_run_def s2 e2 as2)
    have sn: "seen s3 = replicate (nVars s2) False" using f(2) baseD(17) [OF s2(1)] by simp
    note b3 = base_frame [OF f(1) s2(1) sn] and e3 = ana_frame_eqs [OF f(1)] and c3 = ana_frame_clause [OF f(1)]
    have g3: "trail_lim s3 = trail_lim s" "ana_rest s3 = ana_rest s" "region_of (ca s3) = region_of (ca s2)"
      using f(1) s2(8,9) by (simp_all add: ana_frame_def)
    have q3: "queue_done (db s3 - {cr}) s3" unfolding b3(2) ana_frame_queue [OF f(1)] by (rule s2(3))
    have x3: "lit_ok (nVars s3) x" "isU s3 x" using x by (simp_all add: e3 e2)
    have r3: "clits s3 cr ! 0 = x \<and> (\<forall>l \<in> set (clits s3 cr). l \<noteq> x \<longrightarrow> isF s3 l)"
      using o by (auto simp: c3(2) s2(4) out e3 e2 asserting_def)
    have in3: "cr \<in> db s3" by (simp add: b3(2) s2(2))
    have nu: "cr \<noteq> CRef_Undef" using in3 baseD(20) [OF b3(1)] by blast
    have d3: "0 < decisionLevel s3" using o by (simp add: e3 e2 asserting_def out xs)
    note u = base_enqueue [OF b3(1) q3 x3, where T = T]
    let ?s = "uncheckedEnqueue T x cr s3"
    have "levels_used s3" "assumed_ok s3" using same_run_keeps(1,2) [OF sr] ao lu by (simp_all add: b3)
    then have "base P ?s" "queue_done (db ?s) ?s" "trail_lim ?s = trail_lim s3" "nVars ?s = nVars s3" "ana_rest ?s = ana_rest s3"
      "ca ?s = ca s3" "levels_used ?s" "assumed_ok ?s"
      using u(1,3,5-8,11,12) r3 in3 nu d3 by simp_all
    moreover have "learn_clause T out s = Some ?s"
      using x3(2) al unfolding learn_clause_def s3_def s2_def by (simp add: out xs Let_def)
    ultimately show ?thesis using s2(10) ps(8) by (simp add: good_def g3 e3 e2)
  qed
qed

lemma scale_frame:
  "ana_frame s (scale_vars s') = ana_frame s s'" "seen (scale_vars s') = seen s'"
  "ana_frame s (scale_ths T s') = ana_frame s s'" "seen (scale_ths T s') = seen s'"
  by (simp_all add: scale_vars_def scale_ths_def)

lemma theoryBump_frame: "ana_frame s (theoryBumpActivity_by T t inc s)" "seen (theoryBumpActivity_by T t inc s) = seen s"
proof -
  define h where "h = tstate (ths s)"
  define s1 where "s1 = s\<lparr>ths := (ths s)\<lparr>tstate := th_set_activity T t (th_activity T h t + inc) h\<rparr>\<rparr>"
  define s2 where "s2 = (if 10 ^ 100 < th_activity T (tstate (ths s1)) t
                then if opt_vsids_both (opts (scale_ths T s1)) then scale_vars (scale_ths T s1) else scale_ths T s1 else s1)"
  have "ana_frame s s1" "seen s1 = seen s" by (simp_all add: s1_def ana_frame_refl)
  then have f: "ana_frame s s2" "seen s2 = seen s" by (simp_all add: s2_def scale_frame)
  have "theoryBumpActivity_by T t inc s = (if inHeap t (theory_order_heap (ths s2))
         then case heap_decrease (theoryOrderLt T (tstate (ths s2))) t (theory_order_heap (ths s2)) of
                None \<Rightarrow> s2 | Some hp \<Rightarrow> s2\<lparr>ths := (ths s2)\<lparr>theory_order_heap := hp\<rparr>\<rparr>
         else s2)" unfolding theoryBumpActivity_by_def Let_def s2_def s1_def h_def by (rule refl)
  then show "ana_frame s (theoryBumpActivity_by T t inc s)" "seen (theoryBumpActivity_by T t inc s) = seen s"
    using f by (simp_all split: option.split)
qed

lemma bump_theories_frame: "ana_frame s (bump_theories T st s)" "seen (bump_theories T st s) = seen s"
proof -
  have u: "ana_frame s (s'\<lparr>theoryConflict := c\<rparr>) = ana_frame s s'" for s' c by (simp add: ana_frame_def ana_rest_def)
  have b: "ana_frame s (theoryBumpActivity T t s) \<and> seen (theoryBumpActivity T t s) = seen s" for t
    by (simp add: theoryBumpActivity_def theoryBump_frame)
  have d: "ana_frame s (theoryDecayActivity s') = ana_frame s s'" "seen (theoryDecayActivity s') = seen s'" for s'
    by (simp_all add: theoryDecayActivity_def varDecayActivity_def)
  show "ana_frame s (bump_theories T st s)" "seen (bump_theories T st s) = seen s"
    using b by (simp_all add: bump_theories_def u d ana_frame_refl)
qed

section \<open>The step of a conflict\<close>

text \<open>What an iteration leaves alone around the solver.\<close>

definition search_frame :: "'h search \<Rightarrow> 'h search \<Rightarrow> bool" where
  "search_frame st st' \<longleftrightarrow> cfg st' = cfg st \<and> model st' = model st \<and> conflict st' = conflict st \<and>
     quit_at_restart st' = quit_at_restart st \<and> override_restart_count st' = override_restart_count st \<and>
     only_propagate_assumptions st' = only_propagate_assumptions st"

lemma search_frame_refl: "search_frame st st"
  by (simp add: search_frame_def)

lemma search_frame_trans: "search_frame st st' \<Longrightarrow> search_frame st' st'' \<Longrightarrow> search_frame st st''"
  by (simp add: search_frame_def)

lemma search_frame_sol [simp]: "search_frame st (st'\<lparr>sol := x\<rparr>) = search_frame st st'"
  by (simp add: search_frame_def)

lemma count_conflict_sol:
  "sol (count_conflict l st) = (sol st)\<lparr>stats := (stats (sol st))\<lparr>conflicts := statistics.conflicts (stats (sol st)) + 1\<rparr>\<rparr>"
  "search_frame st (count_conflict l st)"
  by (simp_all add: count_conflict_def Let_def search_frame_def)

lemma learnt_asserting:
  fixes T :: "'h theory_ops" and s :: "'h solver"
  assumes b: "base P s" and c: "conflict_learnt (db s) s out lev"
  shows "asserting P (cancelUntil T lev s) out"
proof -
  note bd = baseD [OF b]
  have lv: "lev < decisionLevel s" using c by (simp add: conflict_learnt_def)
  define s' where "s' = cancelUntil T lev s"
  note cu = cancelUntil_spec [OF bd(1-3) lv base_calm [OF b], of T, folded s'_def] and k = cancelUntil_keeps [OF b lv, of T, folded s'_def]
  have e: "nVars s' = nVars s" "level s' = level s" using cu(8) state_eqs [of s' s] by (simp_all add: cancel_frame_def)
  obtain x xs where out: "out = x # xs" using c by (cases out) (auto simp: conflict_learnt_def)
  have d: "distinct out" and F: "\<And>q. q \<in> set out \<Longrightarrow> lit_ok (nVars s) q \<and> isF s q" and hx: "level s (var x) = decisionLevel s"
    and tx: "\<And>q. q \<in> set xs \<Longrightarrow> 0 < level s (var q) \<and> level s (var q) \<le> lev"
    and n: "if xs = [] then lev = 0 else level s (var (xs ! 0)) = lev"
    and imp: "\<And>M. root_model (db s) s M \<Longrightarrow> \<exists>q \<in> set out. M q"
    using c unfolding conflict_learnt_def by (auto simp: out)
  have nt: "neg q \<in> set (trail s)" if "q \<in> set out" for q using trail_okD(2) [OF bd(14), of q] F [OF that] by blast
  have tok: "trail_ok s'" using cu(1) by (simp add: solver_inv_def bcp_inv_def)
  have "set (map neg out) \<subseteq> set (trail s)" using nt by auto
  then have "card (set (map neg out)) \<le> length (trail s)" using card_mono [of "set (trail s)"] card_length [of "trail s"] by (meson List.finite_set le_trans)
  moreover have "distinct (map neg out)" using d by (simp add: distinct_map inj_on_def)
  ultimately have len: "length out \<le> nVars s" using trail_length [OF bd(14)] distinct_card [of "map neg out"] by simp
  have "x \<notin> set (trail s') \<and> neg x \<notin> set (trail s')" using hx lv by (simp add: cu(5))
  then have U: "isU s' x" using trail_okD(1-3) [OF tok, of x] F [of x] by (simp add: e out)
  have Ft: "isF s' q" if "q \<in> set xs" for q
  proof -
    have "neg q \<in> set (trail s')" using nt [of q] tx [OF that] that by (simp add: cu(5) out)
    then show ?thesis using trail_okD(2) [OF tok, of q] F [of q] that by (simp add: e out)
  qed
  have "0 < lev" if "xs \<noteq> []" using that n tx [of "xs ! 0"] by (auto simp: out neq_Nil_conv)
  then show ?thesis
    unfolding s'_def [symmetric] asserting_def
    using d F U Ft n len problem_root [OF bd(11)] imp k(6) by (auto simp: e out)
qed

text \<open>The memory that one learnt clause takes.\<close>

definition roomy :: "nat \<Rightarrow> 'h solver \<Rightarrow> bool" where
  "roomy k s \<longleftrightarrow> unat (rsz (region_of (ca s))) + k * (nVars s + 2) < 2643056797"

lemma conflict_step_keeps:
  fixes T :: "'h theory_ops" and st :: "'h search"
  assumes b: "base P (sol st)" and ao: "assumed_ok (sol st)" and lu: "levels_used (sol st)" and c: "confl \<in> db (sol st)"
    and F: "\<forall>l \<in> set (clits (sol st) confl). isF (sol st) l" and room: "roomy (Suc k) (sol st)"
  shows "\<exists>oc st'. conflict_step T confl l st = Some (oc, l\<lparr>conflictC := conflictC l + 1\<rparr>, st') \<and> search_frame st st' \<and>
     nVars (sol st') = nVars (sol st) \<and> limits (sol st') = limits (sol st) \<and> assumptions (sol st') = assumptions (sol st) \<and>
     statistics.conflicts (stats (sol st')) = Suc (statistics.conflicts (stats (sol st))) \<and>
     (if decisionLevel (sol st) = 0 then oc = Return l_False \<and> P = {} \<and> base P (sol st') \<and> roomy (Suc k) (sol st')
      else oc = Goto_propagate \<and> good P (sol st') \<and> roomy k (sol st') \<and> decisionLevel (sol st') < decisionLevel (sol st))"
proof -
  define s0 where "s0 = sol st"
  define st1 where "st1 = count_conflict l st"
  define s where "s = sol st1"
  have s: "s = s0\<lparr>stats := (stats s0)\<lparr>conflicts := statistics.conflicts (stats s0) + 1\<rparr>\<rparr>"
    by (simp add: s_def st1_def s0_def count_conflict_sol)
  have f1: "search_frame st st1" by (simp add: st1_def count_conflict_sol)
  have cg: "db s = db s0" "assumed_ok s = assumed_ok s0" "levels_used s = levels_used s0" "base P s0 \<Longrightarrow> base P s"
    by (rule base_cong [of s s0]; simp add: s)+
  have e: "clits s = clits s0" "isF s = isF s0" "nVars s = nVars s0" "decisionLevel s = decisionLevel s0" "limits s = limits s0"
    "assumptions s = assumptions s0" "region_of (ca s) = region_of (ca s0)"
    "statistics.conflicts (stats s) = Suc (statistics.conflicts (stats s0))"
    using state_eqs [of s s0] by (simp_all add: s decisionLevel_def)
  have bs: "base P s" using cg(4) b by (simp add: s0_def)
  have cs: "confl \<in> db s" "\<forall>l \<in> set (clits s confl). isF s l" using c F by (simp_all add: cg e s0_def)
  have rm: "roomy (Suc k) s" using room by (simp add: roomy_def e s0_def [symmetric])
  show ?thesis
  proof (cases "decisionLevel s = 0")
    case True
    have "P = {}" by (rule conflict_at_root [OF bs cs True])
    moreover have "conflict_step T confl l st = Some (Return l_False, l\<lparr>conflictC := conflictC l + 1\<rparr>, st1)"
      using True by (simp add: conflict_step_def Let_def st1_def [symmetric] s_def [symmetric])
    ultimately show ?thesis using True bs rm e f1
      by (intro exI [of _ "Return l_False"] exI [of _ st1]) (simp add: s0_def [symmetric] s_def [symmetric])
  next
    case False
    have "0 < decisionLevel s" using False by simp
    note cst = conflict_above_root [OF bs cs this]
    from analyze_spec [OF cst base_calm [OF bs], of T] obtain out lev s2 where a: "analyze T confl s = Some (out, lev, s2)"
      "ana_frame (cancelUntil T (max_level s (clits s confl) 0) s) s2" "ana_ctx (db s) s2" "conflict_learnt (db s) s2 out lev"
      "seen s2 = replicate (nVars s2) False" by blast
    define m where "m = max_level s (clits s confl) 0"
    have mb: "decisionLevel (cancelUntil T m s) = m" "m \<le> decisionLevel s"
      using back_to_conflict(2) [OF cst base_calm [OF bs], of T] by (simp_all add: m_def [symmetric] cancelUntil_def split: if_splits)
    have cm: "base P (cancelUntil T m s)" "db (cancelUntil T m s) = db s" "assumed_ok (cancelUntil T m s)" "levels_used (cancelUntil T m s)"
      "ana_rest (cancelUntil T m s) = ana_rest s" "ca (cancelUntil T m s) = ca s" "nVars (cancelUntil T m s) = nVars s"
    proof -
      have st: "assumed_ok s" "levels_used s" using ao lu by (simp_all add: cg s0_def)
      have "base P (cancelUntil T m s) \<and> db (cancelUntil T m s) = db s \<and> assumed_ok (cancelUntil T m s) \<and> levels_used (cancelUntil T m s) \<and>
        ana_rest (cancelUntil T m s) = ana_rest s \<and> cancel_frame s (cancelUntil T m s)"
      proof (cases "m < decisionLevel s")
        case True
        then show ?thesis using cancelUntil_keeps [OF bs True, of T] st cancelUntil_spec(8) [OF baseD(1-3) [OF bs] True base_calm [OF bs], of T] by simp
      next
        case False
        then have "cancelUntil T m s = s" by (simp add: cancelUntil_def)
        then show ?thesis using bs st cancel_frame_refl by simp
      qed
      then show "base P (cancelUntil T m s)" "db (cancelUntil T m s) = db s" "assumed_ok (cancelUntil T m s)" "levels_used (cancelUntil T m s)"
        "ana_rest (cancelUntil T m s) = ana_rest s" "ca (cancelUntil T m s) = ca s" "nVars (cancelUntil T m s) = nVars s"
        using state_eqs(4) [of "cancelUntil T m s" s] by (simp_all add: cancel_frame_def)
    qed
    note ef = ana_frame_eqs [OF a(2) [folded m_def]]
    have n2: "nVars s2 = nVars s" "decisionLevel s2 = m" by (simp_all add: ef cm mb)
    have sn: "seen s2 = replicate (nVars (cancelUntil T m s)) False" using a(5) by (simp add: ef)
    note b2 = base_frame [OF a(2) [folded m_def] cm(1) sn]
    have g2: "db s2 = db s" "assumed_ok s2" "levels_used s2" "ana_rest s2 = ana_rest s" "region_of (ca s2) = region_of (ca s)"
      using b2(2,4,5) cm a(2) [folded m_def] by (simp_all add: ana_frame_def)
    have lv: "lev < decisionLevel s2" using a(4) by (simp add: conflict_learnt_def)
    have as: "asserting P (cancelUntil T lev s2) out" by (rule learnt_asserting [OF b2(1)]) (simp add: g2 a(4))
    note k2 = cancelUntil_keeps [OF b2(1) lv, of T] and cf = cancelUntil_spec(8) [OF baseD(1-3) [OF b2(1)] lv base_calm [OF b2(1)], of T]
    define s3 where "s3 = cancelUntil T lev s2"
    have g3: "good P s3" using k2(1,3-5) g2 by (simp add: good_def s3_def)
    have e3: "nVars s3 = nVars s" "decisionLevel s3 = lev" "ana_rest s3 = ana_rest s" "region_of (ca s3) = region_of (ca s)"
      using k2(6,7) cf state_eqs(4) [of s3 s2] by (simp_all add: s3_def cancel_frame_def n2 g2)
    have r3: "unat (rsz (region_of (ca s3))) + nVars s3 + 2 < 2643056797" using rm by (simp add: roomy_def e3)
    from learn_clause_keeps [OF g3 as [folded s3_def] r3, of T] obtain s4 where l4: "learn_clause T out s3 = Some s4" "good P s4"
      "trail_lim s4 = trail_lim s3" "nVars s4 = nVars s3" "ana_rest s4 = ana_rest s3"
      "unat (rsz (region_of (ca s4))) \<le> unat (rsz (region_of (ca s3))) + nVars s3 + 2" by blast
    define s5 where "s5 = adjust_learnts (claDecayActivity (varDecayActivity (bump_theories T st1 s4)))"
    have b4: "base P s4" using l4(2) by (simp add: good_def)
    have f5: "ana_frame s4 s5 \<and> seen s5 = seen s4"
    proof -
      have u: "ana_frame s4 (s'\<lparr>learntsize_adjust_confl := x, learntsize_adjust_cnt := y, max_learnts := z\<rparr>) = ana_frame s4 s'"
        "ana_frame s4 (s'\<lparr>learntsize_adjust_cnt := y\<rparr>) = ana_frame s4 s'" for s' x y z
        by (simp_all add: ana_frame_def ana_rest_def)
      have "ana_frame s4 (adjust_learnts s') = ana_frame s4 s'" "seen (adjust_learnts s') = seen s'" for s'
        by (simp_all add: adjust_learnts_def Let_def u)
      then show ?thesis using bump_theories_frame [where s = s4 and T = T and st = st1] by (simp add: s5_def claDecayActivity_def varDecayActivity_def)
    qed
    then have f5: "ana_frame s4 s5" and s5: "seen s5 = replicate (nVars s4) False" using baseD(17) [OF b4] by simp_all
    note b5 = base_frame [OF f5 b4 s5] and e5 = ana_frame_eqs [OF f5]
    have g5: "good P s5" using l4(2) b5 by (simp add: good_def)
    have r5: "ana_rest s5 = ana_rest s" "region_of (ca s5) = region_of (ca s4)" using f5 l4(5) e3(3) by (simp_all add: ana_frame_def)
    have "conflict_step T confl l st = Some (Goto_propagate, l\<lparr>conflictC := conflictC l + 1\<rparr>, st1\<lparr>sol := s5\<rparr>)"
      using False a(1) l4(1) by (simp add: conflict_step_def Let_def st1_def [symmetric] s_def [symmetric] s3_def s5_def)
    moreover have "decisionLevel s5 < decisionLevel s"
      using lv n2 mb(2) by (simp add: e5 decisionLevel_def [of s4] l4(3) decisionLevel_def [of s3, symmetric] e3)
    moreover have "roomy k s5" using rm l4(6) by (simp add: roomy_def e5 l4(4) e3 r5)
    ultimately show ?thesis using False f1 g5 e r5(1)
      by (intro exI [of _ Goto_propagate] exI [of _ "st1\<lparr>sol := s5\<rparr>"])
        (simp add: s0_def [symmetric] e5 l4(4) e3(1) ana_rest_def)
  qed
qed

end
