(* ===== verification/Search_Clean.thy ===== *)
theory Search_Clean
  imports Search_Learn
begin

text \<open>
  Deleting clauses during the search: \<^verbatim>\<open>reduceDB\<close> and \<^verbatim>\<open>simplify\<close> keep the invariant of the search and the
  problem, and change neither the assignment nor the levels.
\<close>

section \<open>Deletion and collection\<close>

lemma good_tidy: "good P s \<Longrightarrow> tidy (db s) s"
  by (simp add: good_def base_def tidy_def)

text \<open>What deleting clauses keeps of the run.\<close>

definition kept_run :: "'h solver \<Rightarrow> 'h solver \<Rightarrow> bool" where
  "kept_run s s' \<longleftrightarrow> same_run s s' \<and> ana_rest s' = ana_rest s \<and> qhead s' = qhead s \<and> assigns s' = assigns s \<and>
     unat (rsz (region_of (ca s'))) \<le> unat (rsz (region_of (ca s)))"

lemma kept_run_trans: "kept_run s s' \<Longrightarrow> kept_run s' s'' \<Longrightarrow> kept_run s s''"
  using same_run_trans by (auto simp: kept_run_def)

lemma same_run_refl: "same_run s s"
  by (simp add: same_run_def)

lemma kept_run_refl: "kept_run s s"
  by (simp add: kept_run_def same_run_refl)

lemma settings_clean:
  assumes f: "clean_frame s s'"
  shows "settings s' = settings s" and "heap_full s' = heap_full s" and "in_order s' = in_order s \<or> level s' \<noteq> level s"
    and "assumptions s' = assumptions s"
proof -
  have r: "released_vars s' = released_vars s" "assumptions s' = assumptions s" "tmp_clause s' = tmp_clause s"
    "theory_vars s' = theory_vars s" "clauses_to_add s' = clauses_to_add s" "random_seed s' = random_seed s"
    "initial_level s' = initial_level s"
    using f by (simp_all add: clean_frame_def ana_rest_def)
  have g: "nVars s' = nVars s" "ok s' = ok s" "decision s' = decision s" "seen s' = seen s" "order_heap s' = order_heap s"
    "ths s' = ths s" "marker_refs (ca s') = marker_refs (ca s)" "trail s' = trail s" "trail_lim s' = trail_lim s"
    using f by (simp_all add: clean_frame_def)
  note e = clean_frame_eqs [OF f]
  show "assumptions s' = assumptions s" by (rule r)
  show "settings s' = settings s" by (simp add: settings_def plain_def r g)
  show "heap_full s' = heap_full s" by (simp add: heap_full_def g e)
  show "in_order s' = in_order s \<or> level s' \<noteq> level s" by (auto simp: in_order_def g e)
qed

lemma good_cleaned:
  assumes g: "good P s" and c: "cleaned (db s) s A s'" and A: "set cs \<union> set ls = A" and d: "distinct (cs @ ls)"
    and sub: "set cs \<subseteq> set (clauses s)" "set ls \<subseteq> set (learnts s)"
    and sat: "\<forall>cr \<in> set (clauses s) - set cs. \<exists>l \<in> set (clits s cr). isT s l \<and> level s (var l) = 0"
  shows "good P (s'\<lparr>clauses := cs, learnts := ls\<rparr>)" and "kept_run s (s'\<lparr>clauses := cs, learnts := ls\<rparr>)"
proof -
  let ?s = "s'\<lparr>clauses := cs, learnts := ls\<rparr>"
  have b: "base P s" and ao: "assumed_ok s" and lu: "levels_used s" using g by (auto simp: good_def)
  note bd = baseD [OF b]
  have f: "tidy A s'" "clean_frame s s'" "clits s' = clits s" "level s' = level s" "rsz (region_of (ca s')) = rsz (region_of (ca s))"
    "\<forall>p \<in> set (trail s). reason s' (var p) = reason s (var p) \<or> level s (var p) = 0"
    using c by (simp_all add: cleaned_def)
  have db: "db ?s = A" using A by (simp add: db_def)
  have td: "tidy A ?s" using f(1) tidy_cong [of ?s s'] by simp
  have cf: "clean_frame s ?s" using f(2) by (simp add: clean_frame_def nVars_def ana_rest_def)
  have e: "clits ?s = clits s'" "level ?s = level s" "reason ?s = reason s'" using state_eqs [of ?s s'] by (simp_all add: f(4))
  have t: "trail ?s = trail s" "trail_lim ?s = trail_lim s" "nVars ?s = nVars s" using cf by (simp_all add: clean_frame_def)
  note sc = settings_clean [OF cf]
  have sr: "same_run s ?s" unfolding same_run_def t sc(4) e using f(6) by auto
  then show kr: "kept_run s ?s" using cf f(5) by (simp add: kept_run_def clean_frame_def)
  have sv: "isT s l \<and> level s (var l) = 0 \<Longrightarrow> l \<in> set (clits s cr) \<Longrightarrow> cr \<in> set (clauses s) \<Longrightarrow>
      l \<in> set (trail s) \<and> level s (var l) = 0" for l cr
    using trail_okD(1) [OF bd(14), of l] bd(18) [of cr] by (auto simp: db_def)
  have "problem P ?s"
    unfolding problem_def e(1,2) f(3) t
  proof (intro conjI allI ballI)
    show "\<exists>l \<in> set (clits s cr). M l" if "M \<in> P" "cr \<in> set (learnts ?s)" for M cr
      using that sub(2) bd(11) by (auto simp: problem_def)
    fix M
    have "M \<in> P \<longleftrightarrow> lit_model M \<and> (\<forall>cr \<in> set (clauses s). \<exists>l \<in> set (clits s cr). M l) \<and>
        (\<forall>p \<in> set (trail s). level s (var p) = 0 \<longrightarrow> M p)" using bd(11) by (simp add: problem_def)
    moreover have "\<exists>l \<in> set (clits s cr). M l"
      if "\<forall>p \<in> set (trail s). level s (var p) = 0 \<longrightarrow> M p" "cr \<in> set (clauses s) - set cs" for cr
      using sat that sv by blast
    ultimately show "M \<in> P \<longleftrightarrow> lit_model M \<and> (\<forall>cr \<in> set (clauses ?s). \<exists>l \<in> set (clits s cr). M l) \<and>
        (\<forall>p \<in> set (trail s). level s (var p) = 0 \<longrightarrow> M p)" using sub(1) by auto
  qed
  then have "base P ?s"
    using td bd(10,12) sc(1,2) same_run_keeps(3) [OF sr bd(6)] d by (simp add: base_def db tidy_def)
  then show "good P ?s" using td same_run_keeps(1,2) [OF sr] ao lu by (simp add: good_def db tidy_def)
qed

lemma good_renamed:
  assumes g: "good P s" and r: "renamed F s s'"
  shows "good P s'" and "kept_run s s'"
proof -
  have b: "base P s" and ao: "assumed_ok s" and lu: "levels_used s" using g by (auto simp: good_def)
  note bd = baseD [OF b]
  have f: "tidy (db s') s'" "inj_on F (db s)" "clauses s' = map F (clauses s)" "learnts s' = map F (learnts s)"
    "\<And>cr. cr \<in> db s \<Longrightarrow> clits s' (F cr) = clits s cr" "clean_frame s s'"
    "\<And>p. p \<in> set (trail s) \<Longrightarrow> level s' (var p) = level s (var p) \<and> (reason s' (var p) = CRef_Undef \<longleftrightarrow> reason s (var p) = CRef_Undef)"
    "unat (rsz (region_of (ca s'))) \<le> unat (rsz (region_of (ca s)))"
    using r by (auto simp: renamed_def)
  have t: "trail s' = trail s" "trail_lim s' = trail_lim s" "nVars s' = nVars s" using f(6) by (simp_all add: clean_frame_def)
  note sc = settings_clean [OF f(6)]
  have sr: "same_run s s'" unfolding same_run_def t sc(4) using f(7) by simp
  then show "kept_run s s'" using f(6,8) by (simp add: kept_run_def clean_frame_def)
  have "distinct (clauses s @ learnts s)" using bd(7-9) by simp
  then have "distinct (map F (clauses s @ learnts s))" using f(2) by (simp add: distinct_map db_def del: map_append)
  then have d: "distinct (clauses s' @ learnts s')" by (simp add: f(3,4))
  have "problem P s'"
    using bd(11) f(5,7) by (simp add: problem_def f(3,4) t db_def)
  then have "base P s'"
    using f(1) bd(10,12) sc(1,2) same_run_keeps(3) [OF sr bd(6)] d by (simp add: base_def tidy_def)
  then show "good P s'" using f(1) same_run_keeps(1,2) [OF sr] ao lu by (simp add: good_def tidy_def)
qed

lemma checkGarbage_keeps:
  assumes g: "good P s"
  shows "\<exists>s'. checkGarbage s = Some s' \<and> good P s' \<and> kept_run s s'"
proof -
  have "tmp_clause s = CRef_Undef" using g by (simp add: good_def base_def settings_def)
  from checkGarbage_renamed [OF good_tidy [OF g] this] show ?thesis using good_renamed [OF g] by blast
qed

section \<open>Reducing the learnt clauses\<close>

lemma reduceDB_keeps:
  assumes g: "good P s"
  shows "\<exists>s'. reduceDB s = Some s' \<and> good P s' \<and> kept_run s s'"
proof -
  have b: "base P s" using g by (simp add: good_def)
  note bd = baseD [OF b]
  let ?lt = "\<lambda>x y. clause_size (clause_at s x) \<noteq> 2 \<and> (clause_size (clause_at s y) = 2 \<or> act (clause_at s x) < act (clause_at s y))"
  have "2 \<le> clause_size (clause_at s cr)" if "cr \<in> set (learnts s)" for cr
    using bd(18) [of cr] that by (simp add: db_def clits_def clause_size_def)
  then have "agree (set (learnts s)) (reduceDB_lt s) ?lt"
    by (fastforce simp: agree_def reduceDB_lt_def)
  from strict_weak_order.sort_array_agree [OF reduceDB_order this]
    strict_weak_order.sort_array_spec [OF reduceDB_order [of s], of "learnts s"]
  obtain ls where ls: "sort_array (reduceDB_lt s) (learnts s) = Some ls" "mset ls = mset (learnts s)" by auto
  have st: "set ls = set (learnts s)" "distinct ls" using ls(2) bd(8) mset_eq_setD mset_eq_imp_distinct_iff by blast+
  obtain kept s1 where r: "reduce_loop (cla_inc s / real (length (learnts s))) (length ls) 0 ls s = (kept, s1)" by fastforce
  have sub: "set ls \<subseteq> db s" by (simp add: st db_def)
  note c = reduce_loop_spec [OF good_tidy [OF g] sub st(2) r]
  have A: "set (clauses s) \<union> set kept = db s - (set ls - set kept)" using c bd(9) by (auto simp: db_def st)
  have d: "distinct (clauses s @ kept)" using c bd(7,9) by (auto simp: st)
  let ?s = "s1\<lparr>clauses := clauses s, learnts := kept\<rparr>"
  have s1: "s1\<lparr>learnts := kept\<rparr> = ?s" using c by (simp add: cleaned_def)
  have k: "good P ?s" "kept_run s ?s"
    using good_cleaned [OF g _ A d] c by (simp_all add: st)
  from checkGarbage_keeps [OF k(1)] obtain s' where s': "checkGarbage ?s = Some s'" "good P s'" "kept_run ?s s'" by blast
  have "reduceDB s = Some s'" using ls(1) r s1 s'(1) by (simp add: reduceDB_def)
  then show ?thesis using s'(2) kept_run_trans [OF k(2) s'(3)] by blast
qed

section \<open>Simplification at the root\<close>

text \<open>Only the heap changes.\<close>

lemma base_heap:
  assumes b: "base P s" and hf: "heap_full (s\<lparr>order_heap := h\<rparr>)"
  shows "base P (s\<lparr>order_heap := h\<rparr>)"
proof -
  note bd = baseD [OF b]
  let ?s = "s\<lparr>order_heap := h\<rparr>"
  have e: "reason ?s = reason s" "level ?s = level s" "clits ?s = clits s" "db ?s = db s" "decisionLevel ?s = decisionLevel s"
    "nVars ?s = nVars s"
    using state_eqs [of ?s s] by (simp_all add: db_def decisionLevel_def)
  have "levels_ok (db s) ?s" "prefix_done (db s) ?s" "no_theory_reasons ?s" "in_order ?s" "problem P ?s" "settings ?s"
    using bd by (simp_all add: levels_ok_def prefix_done_def no_theory_reasons_def in_order_def problem_def settings_def plain_def
        e isTheoryCause_def)
  then show ?thesis using bd(1,5,7-9) hf solver_inv_cong [of ?s s] by (simp add: base_def e)
qed

lemma good_heap:
  assumes g: "good P s" and hf: "heap_full (s\<lparr>order_heap := h\<rparr>)"
  shows "good P (s\<lparr>order_heap := h\<rparr>)"
proof -
  have "same_run s (s\<lparr>order_heap := h\<rparr>)" by (simp add: same_run_def level_def reason_def nVars_def)
  moreover have "queue_done (db s) (s\<lparr>order_heap := h\<rparr>) = queue_done (db s) s" by (rule solver_inv_cong) simp_all
  moreover have "db (s\<lparr>order_heap := h\<rparr>) = db s" by (simp add: db_def)
  ultimately show ?thesis
    using g base_heap [OF _ hf] same_run_keeps(1,2) [of s "s\<lparr>order_heap := h\<rparr>"] by (simp add: good_def)
qed

lemma rebuildOrderHeap_keeps:
  assumes g: "good P s"
  shows "\<exists>s'. rebuildOrderHeap s = Some s' \<and> good P s' \<and> kept_run s s'"
proof -
  have b: "base P s" using g by (simp add: good_def)
  note bd = baseD [OF b]
  let ?vs = "filter (\<lambda>v. decision s ! v \<and> lb_eq (value_var s (int v)) l_Undef) [0 ..< nVars s]"
  have h: "idx_ok (heap (order_heap s)) (indices (order_heap s))" "nVars s \<le> length (indices (order_heap s))"
    using bd(10) by (simp_all add: heap_full_def)
  have vs: "distinct ?vs" "\<forall>v \<in> set ?vs. v < length (indices (order_heap s))" using h(2) by auto
  from var_heap.build_spec [OF h(1) vs, of "activity s" "priority s"] obtain h' where
    h': "heap_build (varOrderLt (activity s) (priority s)) ?vs (order_heap s) = Some h'" "heap_inv (varOrderLt (activity s) (priority s)) h'"
    "elems h' = set ?vs" by blast
  have len: "length (indices h') = length (indices (order_heap s))" by (rule var_heap.length_build [OF h'(1)])
  let ?s = "s\<lparr>order_heap := h'\<rparr>"
  have u: "isU s (mkLit (int v) False) = lb_eq (value_var s (int v)) l_Undef" for v
    by (simp add: isU_alt value_var_def)
  have e: "isU ?s = isU s" "nVars ?s = nVars s" using state_eqs [of ?s s] by simp_all
  have hf: "heap_full ?s"
    using h' len h(2) bd(12) by (auto simp: heap_full_def heap_inv_def e u settings_def)
  have "same_run s ?s" by (simp add: same_run_def e(2) level_def reason_def)
  then have "good P ?s" "kept_run s ?s" using good_heap [OF g hf] by (simp_all add: kept_run_def ana_rest_def)
  then show ?thesis using h'(1) by (simp add: rebuildOrderHeap_def)
qed

lemma remove_satisfied_root:
  assumes g: "good P s" and d: "trail_lim s = []" and r: "remove_satisfied_loop crs s = (kept, s')"
    and crs: "crs = learnts s \<or> crs = clauses s"
  shows "good P (s'\<lparr>clauses := (if crs = clauses s then kept else clauses s), learnts := (if crs = clauses s then learnts s else kept)\<rparr>)"
    and "kept_run s (s'\<lparr>clauses := (if crs = clauses s then kept else clauses s), learnts := (if crs = clauses s then learnts s else kept)\<rparr>)"
proof -
  have b: "base P s" using g by (simp add: good_def)
  note bd = baseD [OF b]
  have crs': "set crs \<subseteq> db s" "distinct crs" using crs bd(7,8) by (auto simp: db_def)
  note c = remove_satisfied_loop_spec [OF good_tidy [OF g] crs' d r]
  let ?cs = "if crs = clauses s then kept else clauses s" and ?ls = "if crs = clauses s then learnts s else kept"
  have A: "set ?cs \<union> set ?ls = db s - (set crs - set kept)" using c bd(9) crs by (auto simp: db_def)
  have dd: "distinct (?cs @ ?ls)" using c bd(7-9) crs by auto
  have l0: "level s (var l) = 0" if "isT s l" "l \<in> set (clits s cr)" "cr \<in> db s" for l cr
  proof -
    have "l \<in> set (trail s)" using trail_okD(1) [OF bd(14), of l] bd(18) [OF that(3)] that by blast
    then show ?thesis using levels_okD(3) [OF bd(2), of l] d by (simp add: decisionLevel_def)
  qed
  have sat: "\<forall>cr \<in> set (clauses s) - set ?cs. \<exists>l \<in> set (clits s cr). isT s l \<and> level s (var l) = 0"
  proof
    fix cr assume cr: "cr \<in> set (clauses s) - set ?cs"
    then have "cr \<in> set crs - set kept" by (auto split: if_splits)
    then obtain l where "l \<in> set (clits s cr)" "isT s l" using c by blast
    then show "\<exists>l \<in> set (clits s cr). isT s l \<and> level s (var l) = 0" using l0 [of l cr] cr by (auto simp: db_def)
  qed
  have sub: "set ?cs \<subseteq> set (clauses s)" "set ?ls \<subseteq> set (learnts s)" using c crs by auto
  show "good P (s'\<lparr>clauses := ?cs, learnts := ?ls\<rparr>)" "kept_run s (s'\<lparr>clauses := ?cs, learnts := ?ls\<rparr>)"
    using good_cleaned [OF g _ A dd sub sat] c by blast+
qed

lemma removeSatisfied_keeps:
  assumes g: "good P s" and d: "trail_lim s = []"
  shows "good P (removeSatisfied_learnts s)" "kept_run s (removeSatisfied_learnts s)"
    and "good P (removeSatisfied_clauses s)" "kept_run s (removeSatisfied_clauses s)"
proof -
  have fr: "clauses s' = clauses s \<and> learnts s' = learnts s" if "remove_satisfied_loop crs s = (kept, s')" "set crs \<subseteq> db s" "distinct crs"
    for crs kept s' using remove_satisfied_loop_spec [OF good_tidy [OF g] that(2,3) d that(1)] by (simp add: cleaned_def)
  have bd: "distinct (clauses s)" "distinct (learnts s)" using baseD(7,8) [of P s] g by (simp_all add: good_def)
  show "good P (removeSatisfied_learnts s)" "kept_run s (removeSatisfied_learnts s)"
  proof -
    obtain kept s' where r: "remove_satisfied_loop (learnts s) s = (kept, s')" by fastforce
    have "clauses s' = clauses s" using fr [OF r] bd by (simp add: db_def)
    then have f: "s'\<lparr>learnts := kept\<rparr> = s'\<lparr>clauses := clauses s, learnts := kept\<rparr>" by simp
    have "good P (removeSatisfied_learnts s) \<and> kept_run s (removeSatisfied_learnts s)"
    proof (cases "learnts s = clauses s")
      case False
      then show ?thesis using remove_satisfied_root [OF g d r] by (simp add: removeSatisfied_learnts_def r f)
    next
      case True
      have "set (clauses s) \<inter> set (learnts s) = {}" using baseD(9) [of P s] g by (simp add: good_def)
      then have nil: "learnts s = []" using True by simp
      have "s\<lparr>learnts := learnts s\<rparr> = s" by simp
      then have "removeSatisfied_learnts s = s" by (simp add: removeSatisfied_learnts_def nil)
      then show ?thesis using g kept_run_refl [of s] by simp
    qed
    then show "good P (removeSatisfied_learnts s)" "kept_run s (removeSatisfied_learnts s)" by simp_all
  qed
  obtain kept s' where r: "remove_satisfied_loop (clauses s) s = (kept, s')" by fastforce
  have "learnts s' = learnts s" using fr [OF r] bd by (simp add: db_def)
  then have f: "s'\<lparr>clauses := kept, learnts := learnts s\<rparr> = s'\<lparr>clauses := kept\<rparr>" by simp
  show "good P (removeSatisfied_clauses s)" "kept_run s (removeSatisfied_clauses s)"
    using remove_satisfied_root [OF g d r] by (simp_all add: removeSatisfied_clauses_def r f)
qed

text \<open>No variable was released: the trail stays as it is.\<close>

lemma recycle_none:
  assumes g: "good P s" and q: "qhead s = length (trail s)"
  shows "recycle_vars s = s"
proof -
  have b: "base P s" using g by (simp add: good_def)
  have r: "released_vars s = []" using baseD(12) [OF b] by (simp add: settings_def)
  have "\<not> is_seen s (var p)" if "p \<in> set (trail s)" for p
    using baseD(17) [OF b] lit_ok_vix [OF trail_okD(4) [OF baseD(14) [OF b] that]] by (simp add: is_seen_def)
  then have f: "filter (\<lambda>p. \<not> is_seen s (var p)) (trail s) = trail s" by (intro filter_True) blast
  have "s\<lparr>seen := seen s\<rparr> = s" "s\<lparr>trail := trail s\<rparr> = s" "s\<lparr>qhead := length (trail s), seen := seen s\<rparr> = s"
    "s\<lparr>free_vars := free_vars s @ [], released_vars := []\<rparr> = s" using q r by simp_all
  then show ?thesis by (simp add: recycle_vars_def r mark_vars_def f q [symmetric])
qed

lemma literal_occurs_sol: "\<not> hasTheory (sol st) v \<Longrightarrow> sol (literal_occurs Q v l b st) = sol st"
  by (simp add: literal_occurs_def Let_def)

lemma pure_loop_sol:
  assumes "plain (sol st)" and "v + n \<le> nVars (sol st)"
  shows "sol (pure_loop Q v n st) = sol st \<and> search_frame st (pure_loop Q v n st)"
  using assms
proof (induction n arbitrary: v st)
  case 0
  then show ?case by (simp add: search_frame_refl)
next
  case (Suc n)
  have l: "lit_ok (nVars (sol st)) (mkLit (int v) False)" using Suc.prems(2) by (simp add: lit_ok_alt)
  have "\<not> hasTheory (sol st) (int v)" using plain_hasTheory [OF Suc.prems(1) l] by simp
  then have oc: "sol (literal_appears Q (int v) p st') = sol st" "sol (literal_vanishes Q (int v) p st') = sol st"
    if "sol st' = sol st" for st' p
    using that by (simp_all add: literal_appears_def literal_vanishes_def literal_occurs_sol)
  have fr: "search_frame st' (literal_appears Q w p st')" "search_frame st' (literal_vanishes Q w p st')" for st' w p
    by (simp_all add: literal_appears_def literal_vanishes_def literal_occurs_def Let_def search_frame_def)
  let ?l = "mkLit (int v) False"
  let ?s = "literal_vanishes Q (int v) (neg ?l) (literal_vanishes Q (int v) ?l
             (literal_appears Q (int v) (neg ?l) (literal_appears Q (int v) ?l st)))"
  have s: "sol ?s = sol st" by (simp add: oc)
  have "search_frame st ?s" by (meson fr search_frame_trans)
  then show ?case using Suc.IH [of ?s "Suc v"] Suc.prems s search_frame_trans by (simp add: Let_def) blast
qed

lemma detect_pure_sol:
  assumes "plain (sol st)"
  shows "sol (detect_pure_lits Q st) = sol st" "search_frame st (detect_pure_lits Q st)"
proof -
  define st1 where "st1 = st\<lparr>pure_literal_detections := pure_literal_detections st + 1,
    lit_occurs := grow_list (nVars (sol st) * 2) False (lit_occurs st),
    lit_seen := see_all (sol st) (replicate (max (nVars (sol st) * 2) (length (lit_seen st))) False)\<rparr>"
  have "sol st1 = sol st" "search_frame st st1" by (simp_all add: st1_def search_frame_def)
  moreover have "detect_pure_lits Q st = pure_loop Q 0 (nVars (sol st)) st1" by (simp add: detect_pure_lits_def Let_def st1_def)
  ultimately show "sol (detect_pure_lits Q st) = sol st" "search_frame st (detect_pure_lits Q st)"
    using pure_loop_sol [of st1 0 "nVars (sol st)" Q] assms search_frame_trans [of st st1] by simp_all
qed

lemma simplify_keeps:
  fixes T :: "'h theory_ops" and st :: "'h search"
  assumes g: "good P (sol st)" and d: "decisionLevel (sol st) = 0" and q: "qhead (sol st) = length (trail (sol st))"
  shows "\<exists>b st'. simplify T Q st = Some (b, st') \<and> search_frame st st' \<and> nVars (sol st') = nVars (sol st) \<and>
     ana_rest (sol st') = ana_rest (sol st) \<and> trail_lim (sol st') = trail_lim (sol st) \<and>
     unat (rsz (region_of (ca (sol st')))) \<le> unat (rsz (region_of (ca (sol st)))) \<and>
     (if b then good P (sol st') \<and> qhead (sol st') = length (trail (sol st')) else P = {} \<and> base P ((sol st')\<lparr>ok := True\<rparr>))"
proof -
  define s where "s = sol st"
  have gs: "good P s" and ds: "trail_lim s = []" using g d by (simp_all add: s_def decisionLevel_def)
  have o: "ok s" using gs by (simp add: good_def base_def settings_def)
  from good_propagate [OF gs, of T True] obtain confl s1 where p: "propagate T True s = Some (confl, s1)" "base P s1" "assumed_ok s1"
    "levels_used s1" "trail_lim s1 = trail_lim s" "nVars s1 = nVars s" "ana_rest s1 = ana_rest s"
    "region_of (ca s1) = region_of (ca s)" "qhead s1 = length (trail s1)"
    "if confl = CRef_Undef then queue_done (db s1) s1 \<and> (\<forall>cr \<in> db s1. settled s1 cr)
      else confl \<in> db s1 \<and> (\<forall>l \<in> set (clits s1 confl). isF s1 l)" by blast
  have o1: "ok s1" using p(2) by (simp add: base_def settings_def)
  note unf = simplify_def simplify_clauses_def s_def [symmetric] p(1)
  show ?thesis
  proof (cases "confl = CRef_Undef")
    case False
    have "decisionLevel s1 = 0" by (simp add: decisionLevel_def p(5) ds)
    then have P: "P = {}" using conflict_at_root [OF p(2)] p(10) False by auto
    have "s1\<lparr>ok := True\<rparr> = s1" using o1 by simp
    then have ok1: "s1\<lparr>ok := False, ok := True\<rparr> = s1" by simp
    have "simplify T Q st = Some (False, st\<lparr>sol := s1\<lparr>ok := False\<rparr>\<rparr>)" using False o by (simp add: unf)
    then show ?thesis using p(2,5-8) P ok1
      by (intro exI [of _ False] exI [of _ "st\<lparr>sol := s1\<lparr>ok := False\<rparr>\<rparr>"]) (simp add: s_def [symmetric] search_frame_refl nVars_def ana_rest_def)
  next
    case True
    have g1: "good P s1" using p(2-4,10) True by (simp add: good_def)
    show ?thesis
    proof (cases "int (nAssigns s1) = simpDB_assigns s1 \<or> 0 < simpDB_props s1")
      case True
      then have "simplify T Q st = Some (True, st\<lparr>sol := s1\<rparr>)" using \<open>confl = CRef_Undef\<close> o o1 by (simp add: unf)
      then show ?thesis using g1 p(5-9)
        by (intro exI [of _ True] exI [of _ "st\<lparr>sol := s1\<rparr>"]) (simp add: s_def [symmetric] search_frame_refl)
    next
      case False
      define s2 where "s2 = removeSatisfied_learnts s1"
      define s3 where "s3 = (if remove_satisfied (opts s2) then recycle_vars (removeSatisfied_clauses s2) else s2)"
      have d1: "trail_lim s1 = []" by (simp add: p(5) ds)
      have k2: "good P s2" "kept_run s1 s2" unfolding s2_def by (rule removeSatisfied_keeps [OF g1 d1])+
      have d2: "trail_lim s2 = []" "qhead s2 = length (trail s2)" using k2(2) d1 p(9) by (simp_all add: kept_run_def same_run_def)
      note rc = removeSatisfied_keeps(3,4) [OF k2(1) d2(1)]
      have "recycle_vars (removeSatisfied_clauses s2) = removeSatisfied_clauses s2"
        by (rule recycle_none [OF rc(1)]) (use rc(2) d2 in \<open>simp add: kept_run_def same_run_def\<close>)
      then have k3: "good P s3" "kept_run s2 s3" using rc k2(1) kept_run_refl [of s2] by (simp_all add: s3_def)
      from checkGarbage_keeps [OF k3(1)] obtain s4 where k4: "checkGarbage s3 = Some s4" "good P s4" "kept_run s3 s4" by blast
      from rebuildOrderHeap_keeps [OF k4(2)] obtain s5 where k5: "rebuildOrderHeap s4 = Some s5" "good P s5" "kept_run s4 s5" by blast
      have kr: "kept_run s1 s5" using kept_run_trans [OF kept_run_trans [OF k2(2) k3(2)] kept_run_trans [OF k4(3) k5(3)]] .
      define s6 where "s6 = s5\<lparr>simpDB_assigns := int (nAssigns s5), simpDB_props := clauses_literals (stats s5) + learnts_literals (stats s5)\<rparr>"
      have g6: "good P s6" using base_cong(2) [of s6 s5 P] k5(2) by (simp add: s6_def)
      have r6: "nVars s6 = nVars s" "ana_rest s6 = ana_rest s" "trail_lim s6 = trail_lim s" "qhead s6 = length (trail s6)"
        "unat (rsz (region_of (ca s6))) \<le> unat (rsz (region_of (ca s)))"
        using kr p(5-9) by (simp_all add: s6_def kept_run_def same_run_def nVars_def ana_rest_def)
      define st1 where "st1 = st\<lparr>sol := s6\<rparr>"
      have pl: "plain (sol st1)" using g6 by (simp add: st1_def good_def base_def settings_def)
      have "simplify T Q st = Some (True, if opt_detect_pure_lits (cfg st1) then detect_pure_lits Q st1 else st1)"
        using \<open>confl = CRef_Undef\<close> False o o1 k4(1) k5(1)
        by (simp add: unf s2_def [symmetric] Let_def s3_def [symmetric] s6_def [symmetric] st1_def [symmetric])
          (simp add: st1_def s6_def)
      moreover have "search_frame st st1" by (simp add: st1_def search_frame_refl)
      ultimately show ?thesis
        using detect_pure_sol [OF pl, of Q] search_frame_trans [of st st1] g6 r6
        by (intro exI [of _ True] exI [of _ "if opt_detect_pure_lits (cfg st1) then detect_pure_lits Q st1 else st1"])
          (simp add: s_def [symmetric] st1_def)
    qed
  qed
qed

end
