(* ===== verification/Search_Decide.thy ===== *)
theory Search_Decide
  imports Search_Clean
begin

text \<open>
  Decisions: the assumptions, the choice of a branching literal, and the answer when every variable is assigned
  or an assumption is false.
\<close>

section \<open>New levels\<close>

lemma base_newLevel:
  assumes b: "base P s" and qd: "queue_done (db s) s" and q: "qhead s = length (trail s)"
  shows "base P (newDecisionLevel s)" and "queue_done (db s) (newDecisionLevel s)"
proof -
  note bd = baseD [OF b]
  let ?s = "newDecisionLevel s"
  have f: "trail ?s = trail s" "assigns ?s = assigns s" "vardata ?s = vardata s" "ca ?s = ca s" "watches ?s = watches s"
    "trail_lim ?s = trail_lim s @ [length (trail s)]" "db ?s = db s" "clauses ?s = clauses s" "learnts ?s = learnts s"
    by (simp_all add: newDecisionLevel_def db_def)
  have e: "isU ?s = isU s" "nVars ?s = nVars s" "reason ?s = reason s" "level ?s = level s" "clits ?s = clits s"
    using f state_eqs [of ?s s] by simp_all
  note n = newDecisionLevel_step [OF bd(1) qd q bd(2,3)]
  show "queue_done (db s) ?s" by (rule n)
  have "in_order ?s" using bd(6) n(5) by (auto simp: in_order_def f e nth_append less_Suc_eq decisionLevel_def)
  moreover have "heap_full ?s" "problem P ?s" "settings ?s" "no_theory_reasons ?s"
    using bd(4,10-12) by (simp_all add: heap_full_def problem_def settings_def plain_def no_theory_reasons_def isTheoryCause_def e f)
      (simp_all add: newDecisionLevel_def)
  ultimately show "base P ?s" using n(1,3,4) bd(5,7-9) by (simp add: base_def f)
qed

text \<open>A level is bounded by the assumptions and the literals of the trail.\<close>

lemma level_bound:
  assumes lo: "levels_ok A s" and lu: "levels_used s"
  shows "decisionLevel s \<le> length (assumptions s) + length (trail s)"
proof -
  let ?a = "length (assumptions s)"
  have "k \<le> trail_lim s ! (?a + k)" if "?a + k < decisionLevel s" for k
    using that
  proof (induction k)
    case (Suc k)
    have "trail_lim s ! (?a + k) < (if Suc (?a + k) < decisionLevel s then trail_lim s ! Suc (?a + k) else length (trail s))"
      using Suc.prems by (intro lu [unfolded levels_used_def, rule_format]) simp_all
    then show ?case using Suc by simp
  qed simp
  note below = this
  show ?thesis
  proof (cases "decisionLevel s \<le> ?a")
    case False
    define k where "k = decisionLevel s - 1 - ?a"
    have k: "?a + k < decisionLevel s" "Suc (?a + k) = decisionLevel s" using False by (simp_all add: k_def)
    have "trail_lim s ! (?a + k) < (if Suc (?a + k) < decisionLevel s then trail_lim s ! Suc (?a + k) else length (trail s))"
      using k by (intro lu [unfolded levels_used_def, rule_format]) simp_all
    then show ?thesis using below [OF k(1)] k by simp
  qed simp
qed

text \<open>An assumption that is true already gets a level of its own.\<close>

lemma good_dummy_level:
  assumes g: "good P s" and q: "qhead s = length (trail s)" and d: "decisionLevel s < length (assumptions s)"
    and t: "isT s (assumptions s ! decisionLevel s)"
  shows "good P (newDecisionLevel s)"
proof -
  have b: "base P s" and qd: "queue_done (db s) s" and ao: "assumed_ok s" using g by (auto simp: good_def)
  note bd = baseD [OF b]
  let ?s = "newDecisionLevel s" and ?a = "assumptions s ! decisionLevel s"
  have f: "trail ?s = trail s" "vardata ?s = vardata s" "trail_lim ?s = trail_lim s @ [length (trail s)]" "db ?s = db s"
    "assumptions ?s = assumptions s" "decisionLevel ?s = Suc (decisionLevel s)"
    by (simp_all add: newDecisionLevel_def db_def decisionLevel_def)
  have e: "nVars ?s = nVars s" "reason ?s = reason s" "level ?s = level s" using f state_eqs [of ?s s] by simp_all
  have "lit_ok (nVars s) ?a" using ao d by (simp add: assumed_ok_def)
  then have "?a \<in> set (trail s)" using trail_okD(1) [OF bd(14)] t by blast
  moreover from this have "level s (var ?a) \<le> Suc (decisionLevel s)" using levels_okD(3) [OF bd(2)] by (simp add: le_SucI)
  ultimately have "assumed_ok ?s" using ao by (auto simp: assumed_ok_def f e less_Suc_eq)
  moreover have "levels_used ?s" using d by (simp add: levels_used_def f)
  ultimately show ?thesis using base_newLevel [OF b qd q] by (simp add: good_def f)
qed

definition trail_as :: "'h solver \<Rightarrow> 'h solver \<Rightarrow> bool" where
  "trail_as s s' \<longleftrightarrow> (\<exists>tl. s' = s\<lparr>trail_lim := tl\<rparr>)"

lemma trail_as_newLevel: "trail_as s (newDecisionLevel s)"
  by (auto simp: trail_as_def newDecisionLevel_def)

lemma trail_as_refl: "trail_as s s"
proof -
  have "s = s\<lparr>trail_lim := trail_lim s\<rparr>" by simp
  then show ?thesis unfolding trail_as_def by blast
qed

lemma trail_as_trans:
  assumes "trail_as s s'" and "trail_as s' s''"
  shows "trail_as s s''"
proof -
  obtain t1 t2 where "s' = s\<lparr>trail_lim := t1\<rparr>" "s'' = s'\<lparr>trail_lim := t2\<rparr>" using assms unfolding trail_as_def by blast
  then have "s'' = s\<lparr>trail_lim := t2\<rparr>" by simp
  then show ?thesis unfolding trail_as_def by blast
qed

lemma trail_asD:
  assumes "trail_as s s'"
  shows "trail s' = trail s" "assumptions s' = assumptions s" "nVars s' = nVars s" "qhead s' = qhead s" "ana_rest s' = ana_rest s"
    "ca s' = ca s" "isT s' = isT s" "isF s' = isF s" "isU s' = isU s" "assigns s' = assigns s"
proof -
  obtain t where s': "s' = s\<lparr>trail_lim := t\<rparr>" using assms unfolding trail_as_def by blast
  show "trail s' = trail s" "assumptions s' = assumptions s" "nVars s' = nVars s" "qhead s' = qhead s" "ana_rest s' = ana_rest s"
    "ca s' = ca s" "isT s' = isT s" "isF s' = isF s" "isU s' = isU s" "assigns s' = assigns s"
    using state_eqs [of s' s] by (simp_all add: s' ana_rest_def)
qed

lemma assume_loop_spec:
  assumes "good P s" and "qhead s = length (trail s)" and "ps = drop (decisionLevel s) (assumptions s)"
    and "assume_loop ps b s = (a, b', s')"
  shows "good P s' \<and> trail_as s s' \<and> decisionLevel s \<le> decisionLevel s' \<and> (b' \<longrightarrow> b \<or> decisionLevel s < decisionLevel s') \<and>
     (case a of
        All_assumed \<Rightarrow> length (assumptions s') \<le> decisionLevel s'
      | Falsified p \<Rightarrow> decisionLevel s' < length (assumptions s') \<and> p = assumptions s' ! decisionLevel s' \<and> isF s' p
      | Assume p \<Rightarrow> decisionLevel s' < length (assumptions s') \<and> p = assumptions s' ! decisionLevel s' \<and> isU s' p)"
  using assms
proof (induction ps b s rule: assume_loop.induct)
  case (1 b s)
  then show ?case using trail_as_refl by auto
next
  case (2 p ps b s)
  have dl: "decisionLevel s < length (assumptions s)" using 2(4) by (metis drop_eq_Nil leI list.discI)
  then have p: "p = assumptions s ! decisionLevel s" "ps = drop (Suc (decisionLevel s)) (assumptions s)"
    using 2(4) by (simp_all add: Cons_nth_drop_Suc [symmetric])
  have id: "trail_as s s" by (rule trail_as_refl)
  show ?case
  proof (cases "isT s p")
    case True
    let ?s = "newDecisionLevel s"
    have f: "qhead ?s = length (trail ?s)" "assumptions ?s = assumptions s" "decisionLevel ?s = Suc (decisionLevel s)"
      using 2(3) by (simp_all add: newDecisionLevel_def decisionLevel_def)
    have g: "good P ?s" using good_dummy_level [OF 2(2,3) dl] True p(1) by simp
    have r: "assume_loop ps True ?s = (a, b', s')" using 2(5) True by simp
    have e: "ps = drop (decisionLevel ?s) (assumptions ?s)" by (simp add: f p(2))
    note ih = 2(1) [OF True g f(1) e r]
    then show ?thesis using trail_as_trans [OF trail_as_newLevel] by (auto simp: f)
  next
    case False
    have "lit_ok (nVars s) p" using 2(2) dl p(1) by (simp add: good_def assumed_ok_def)
    then have "isF s p \<or> isU s p" using trail_okD(3) [OF baseD(14) [of P s]] 2(2) False by (auto simp: good_def)
    then show ?thesis using False 2(2,5) dl p(1) id by (auto split: if_splits)
  qed
qed

section \<open>Deciding a literal\<close>

lemma good_decide:
  fixes T :: "'h theory_ops" and s :: "'h solver"
  assumes g: "good P s" and q: "qhead s = length (trail s)" and p: "lit_ok (nVars s) p" and U: "isU s p"
    and d: "decisionLevel s < length (assumptions s) \<Longrightarrow> p = assumptions s ! decisionLevel s"
  defines "s' \<equiv> uncheckedEnqueue T p CRef_Undef (newDecisionLevel s)"
  shows "good P s'" and "decisionLevel s' = Suc (decisionLevel s)" and "nVars s' = nVars s" and "ana_rest s' = ana_rest s"
    and "ca s' = ca s" and "decisionLevel s < nVars s + length (assumptions s)"
proof -
  have b: "base P s" and qd: "queue_done (db s) s" and ao: "assumed_ok s" and lu: "levels_used s" using g by (auto simp: good_def)
  note bd = baseD [OF b]
  let ?n = "newDecisionLevel s"
  note n = base_newLevel [OF b qd q]
  have f: "trail ?n = trail s" "trail_lim ?n = trail_lim s @ [length (trail s)]" "db ?n = db s" "assumptions ?n = assumptions s"
    "decisionLevel ?n = Suc (decisionLevel s)" "nVars ?n = nVars s" "ana_rest ?n = ana_rest s" "ca ?n = ca s" "isU ?n = isU s"
    "level ?n = level s" "reason ?n = reason s"
    using state_eqs [of ?n s] by (simp_all add: newDecisionLevel_def db_def decisionLevel_def ana_rest_def)
  have q': "queue_done (db ?n - {CRef_Undef}) ?n" using n(2) by (simp add: f queue_done_def processed_def)
  have p': "lit_ok (nVars ?n) p" "isU ?n p" using p U by (simp_all add: f)
  have last: "trail_lim ?n ! (decisionLevel ?n - 1) = length (trail ?n)" by (simp add: f decisionLevel_def)
  note u = base_enqueue [OF n(1) q' p', where T = T, folded s'_def]
  have u: "base P s'" "db s' = db s" "queue_done (db s') s'" "trail s' = trail s @ [p]" "trail_lim s' = trail_lim s @ [length (trail s)]"
    "nVars s' = nVars s" "ana_rest s' = ana_rest s" "ca s' = ca s"
    "\<And>r. r \<in> set (trail s') \<Longrightarrow> level s' (var r) = (if r = p then Suc (decisionLevel s) else level s (var r))"
    "\<And>r. r \<in> set (trail s') \<Longrightarrow> reason s' (var r) = (if r = p then CRef_Undef else reason s (var r))"
    using u(1-10) bd(20) last by (simp_all add: f)
  have as: "assumptions s' = assumptions s" using u(7) by (simp add: ana_rest_def)
  show dl: "decisionLevel s' = Suc (decisionLevel s)" by (simp add: decisionLevel_def u(5))
  show "nVars s' = nVars s" "ana_rest s' = ana_rest s" "ca s' = ca s" by (rule u)+
  have fresh: "p \<notin> set (trail s)" using trail_okD(1) [OF bd(14) p] isU_not [OF U] by simp
  have old: "level s' (var r) = level s (var r)" "reason s' (var r) = reason s (var r)" if "r \<in> set (trail s)" for r
    using that u(9,10) [of r] fresh by (auto simp: u(4))
  have "assumed_ok s'"
    unfolding assumed_ok_def as u(6) dl
  proof (intro conjI ballI allI impI)
    show "lit_ok (nVars s) a" if "a \<in> set (assumptions s)" for a using ao that by (simp add: assumed_ok_def)
    fix k assume k: "k < Suc (decisionLevel s)" "k < length (assumptions s)"
    have "assumptions s ! k \<in> set (trail s') \<and> level s' (var (assumptions s ! k)) \<le> Suc k"
    proof (cases "k = decisionLevel s")
      case True
      then have "assumptions s ! k = p" using d k(2) by simp
      then show ?thesis using u(9) [of p] True by (simp add: u(4))
    next
      case False
      then have "k < decisionLevel s" using k(1) by simp
      then have "assumptions s ! k \<in> set (trail s) \<and> level s (var (assumptions s ! k)) \<le> Suc k" using ao k(2) by (simp add: assumed_ok_def)
      then show ?thesis using old(1) by (simp add: u(4))
    qed
    then show "assumptions s ! k \<in> set (trail s')" "level s' (var (assumptions s ! k)) \<le> Suc k" by blast+
  next
    fix r assume r: "r \<in> set (trail s')" "reason s' (var r) = CRef_Undef \<and> 0 < level s' (var r) \<and> level s' (var r) \<le> length (assumptions s)"
    show "r = assumptions s ! (level s' (var r) - 1)"
    proof (cases "r = p")
      case True
      then have "level s' (var r) = Suc (decisionLevel s)" using u(9) [OF r(1)] by simp
      then show ?thesis using True d r(2) by simp
    next
      case False
      then have "r \<in> set (trail s)" using r(1) by (simp add: u(4))
      then show ?thesis using ao r(2) old by (simp add: assumed_ok_def)
    qed
  qed
  moreover have "levels_used s'"
    unfolding levels_used_def as dl u(4,5)
  proof (intro allI impI)
    fix k assume k: "k < Suc (decisionLevel s)" "length (assumptions s) \<le> k"
    show "(trail_lim s @ [length (trail s)]) ! k <
        (if Suc k < Suc (decisionLevel s) then (trail_lim s @ [length (trail s)]) ! Suc k else length (trail s @ [p]))"
    proof (cases "k = decisionLevel s")
      case True
      then show ?thesis by (simp add: decisionLevel_def)
    next
      case False
      then have kd: "k < decisionLevel s" using k(1) by simp
      then have "trail_lim s ! k < (if Suc k < decisionLevel s then trail_lim s ! Suc k else length (trail s))"
        using lu k(2) by (simp add: levels_used_def)
      then show ?thesis using kd by (cases "Suc k < decisionLevel s") (simp_all add: nth_append decisionLevel_def)
    qed
  qed
  ultimately show "good P s'" using u(1,3) by (simp add: good_def)
  have "trail_ok s'" using u(1) by (simp add: base_def solver_inv_def bcp_inv_def)
  then have "Suc (length (trail s)) \<le> nVars s" using trail_length [of s'] by (simp add: u(4,6))
  then show "decisionLevel s < nVars s + length (assumptions s)" using level_bound [OF bd(2) lu] by simp
qed

section \<open>Choosing a literal\<close>

lemma pick_loop_spec:
  assumes "idx_ok (heap (order_heap s)) (indices (order_heap s))"
  shows "\<exists>r h. pick_loop nxt s = Some (r, s\<lparr>order_heap := h\<rparr>) \<and> idx_ok (heap h) (indices h) \<and> elems h \<subseteq> elems (order_heap s) \<and>
     length (indices h) = length (indices (order_heap s)) \<and> (\<forall>v \<in> elems (order_heap s) - elems h. r = Some v \<or> \<not> can_decide s v) \<and>
     (nxt \<noteq> None \<longrightarrow> can_decide s (the nxt) \<longrightarrow> r = nxt) \<and>
     (case r of None \<Rightarrow> elems h = {} | Some v \<Rightarrow> can_decide s v \<and> (nxt = Some v \<or> v \<in> elems (order_heap s)))"
  using assms
proof (induction "length (heap (order_heap s))" arbitrary: nxt s rule: less_induct)
  case less
  let ?h = "order_heap s" and ?lt = "varOrderLt (activity s) (priority s)"
  have id: "s\<lparr>order_heap := ?h\<rparr> = s" by simp
  show ?case
  proof (cases "nxt = None \<or> \<not> can_decide s (the nxt)")
    case False
    then have "pick_loop nxt s = Some (nxt, s\<lparr>order_heap := ?h\<rparr>)" unfolding id by (subst pick_loop.simps) auto
    then show ?thesis using False less.prems by (intro exI [of _ nxt] exI [of _ ?h]) auto
  next
    case True
    show ?thesis
    proof (cases "heap ?h = []")
      case e: True
      then have "removeMin ?lt ?h = None" by (simp add: removeMin_def)
      then have "pick_loop nxt s = Some (None, s\<lparr>order_heap := ?h\<rparr>)" unfolding id using True by (subst pick_loop.simps) auto
      then show ?thesis using e True less.prems by (intro exI [of _ None] exI [of _ ?h]) (auto simp: elems_def)
    next
      case False
      from var_heap.removeMin_struct [OF less.prems False, of "activity s" "priority s"] obtain x h1 where
        r: "removeMin ?lt ?h = Some (x, h1)" "idx_ok (heap h1) (indices h1)" "x \<in> elems ?h" "elems h1 = elems ?h - {x}"
        "length (indices h1) = length (indices ?h)" "length (heap h1) < length (heap ?h)" by blast
      let ?s = "s\<lparr>order_heap := h1\<rparr>"
      have c: "can_decide ?s = can_decide s" by (simp add: can_decide_def fun_eq_iff)
      have st: "pick_loop nxt s = pick_loop (Some x) ?s" using True r(1) by (subst pick_loop.simps) simp
      have "length (heap (order_heap ?s)) < length (heap ?h)" "idx_ok (heap (order_heap ?s)) (indices (order_heap ?s))" using r by simp_all
      from less.hyps [OF this, of "Some x"] obtain q h where ih:
        "pick_loop (Some x) ?s = Some (q, ?s\<lparr>order_heap := h\<rparr>) \<and> idx_ok (heap h) (indices h) \<and> elems h \<subseteq> elems (order_heap ?s) \<and>
         length (indices h) = length (indices (order_heap ?s)) \<and> (\<forall>v \<in> elems (order_heap ?s) - elems h. q = Some v \<or> \<not> can_decide ?s v) \<and>
         (Some x \<noteq> None \<longrightarrow> can_decide ?s (the (Some x)) \<longrightarrow> q = Some x) \<and>
         (case q of None \<Rightarrow> elems h = {} | Some v \<Rightarrow> can_decide ?s v \<and> (Some x = Some v \<or> v \<in> elems (order_heap ?s)))"
        by (elim exE)
      have oh: "order_heap ?s = h1" by simp
      have i: "pick_loop (Some x) ?s = Some (q, ?s\<lparr>order_heap := h\<rparr>)" "idx_ok (heap h) (indices h)" "elems h \<subseteq> elems h1"
        "length (indices h) = length (indices h1)" "\<forall>v \<in> elems h1 - elems h. q = Some v \<or> \<not> can_decide s v"
        "can_decide s x \<longrightarrow> q = Some x"
        "case q of None \<Rightarrow> elems h = {} | Some v \<Rightarrow> can_decide s v \<and> (Some x = Some v \<or> v \<in> elems h1)"
        using ih unfolding c oh by (blast, blast, blast, blast, blast, simp, blast)
      have "pick_loop nxt s = Some (q, s\<lparr>order_heap := h\<rparr>)" using st i(1) by simp
      moreover have "\<forall>v \<in> elems ?h - elems h. q = Some v \<or> \<not> can_decide s v" using i(5,6) r(4) by auto
      moreover have "case q of None \<Rightarrow> elems h = {} | Some v \<Rightarrow> can_decide s v \<and> (nxt = Some v \<or> v \<in> elems ?h)"
        using i(7) r(3,4) by (cases q) auto
      moreover have "elems h \<subseteq> elems ?h" "length (indices h) = length (indices ?h)" using i(3,4) r(4,5) by auto
      moreover have "nxt \<noteq> None \<longrightarrow> can_decide s (the nxt) \<longrightarrow> q = nxt" using True by blast
      ultimately show ?thesis using i(2) by (intro exI [of _ q] exI [of _ h] conjI)
    qed
  qed
qed

lemma drand_range: "0 < s \<Longrightarrow> s < 2147483647 \<Longrightarrow> 0 < snd (drand s) \<and> snd (drand s) < 2147483647"
  "0 < s \<Longrightarrow> s < 2147483647 \<Longrightarrow> 0 < snd (irand s n) \<and> snd (irand s n) < 2147483647"
  using drand_seed_ok [of s] by (simp_all add: seed_ok_def drand_def irand_def Let_def)

lemma pick_random_spec:
  assumes "0 < random_seed s" and "random_seed s < 2147483647"
  shows "\<exists>n r x. pick_random s = (n, s\<lparr>random_seed := r, stats := x\<rparr>) \<and> 0 < r \<and> r < 2147483647 \<and>
     statistics.conflicts x = statistics.conflicts (stats s) \<and> (\<forall>v. n = Some v \<longrightarrow> v \<in> elems (order_heap s))"
proof -
  obtain d r1 where d: "drand (random_seed s) = (d, r1)" by fastforce
  have r1: "0 < r1" "r1 < 2147483647" using drand_range(1) [OF assms] by (simp_all add: d)
  let ?s = "s\<lparr>random_seed := r1\<rparr>"
  have id: "?s\<lparr>stats := stats s\<rparr> = ?s" by simp
  show ?thesis
  proof (cases "d < random_var_freq (opts s) \<and> heap (order_heap s) \<noteq> []")
    case False
    then have "pick_random s = (None, ?s\<lparr>stats := stats s\<rparr>)" unfolding id by (auto simp: pick_random_def next_drand_def d)
    then show ?thesis using r1 by blast
  next
    case True
    obtain i r2 where i: "irand r1 (length (heap (order_heap s))) = (i, r2)" by fastforce
    have r2: "0 < r2" "r2 < 2147483647" using drand_range(2) [OF r1, of "length (heap (order_heap s))"] by (simp_all add: i)
    have il: "i < length (heap (order_heap s))" using irand_less [of "length (heap (order_heap s))" r1] True by (simp add: i)
    let ?v = "heap (order_heap s) ! i" and ?s2 = "s\<lparr>random_seed := r2\<rparr>"
    let ?x = "if can_decide ?s2 ?v then (stats s)\<lparr>rnd_decisions := rnd_decisions (stats s) + 1\<rparr> else stats s"
    have "pick_random s = (Some ?v, s\<lparr>random_seed := r2, stats := ?x\<rparr>)"
      using True by (simp add: pick_random_def next_drand_def d i)
    moreover have "?v \<in> elems (order_heap s)" using il by (simp add: elems_def)
    ultimately show ?thesis using r2 by (intro exI [of _ "Some ?v"] exI [of _ r2] exI [of _ ?x]) simp
  qed
qed

text \<open>The state after a choice: heap, seed and statistics have changed.\<close>

definition picked :: "'h solver \<Rightarrow> 'h solver \<Rightarrow> bool" where
  "picked s s' \<longleftrightarrow> (\<exists>h r x. s' = s\<lparr>order_heap := h, random_seed := r, stats := x\<rparr> \<and> 0 < r \<and> r < 2147483647 \<and>
     statistics.conflicts x = statistics.conflicts (stats s) \<and> idx_ok (heap h) (indices h) \<and> elems h \<subseteq> elems (order_heap s) \<and>
     length (indices h) = length (indices (order_heap s)))"

lemma pickBranchLit_spec:
  assumes hf: "heap_full s" and seed: "0 < random_seed s" "random_seed s < 2147483647" and dec: "\<forall>v < nVars s. decision s ! v"
  shows "\<exists>q s'. pickBranchLit s = Some (q, s') \<and> picked s s' \<and>
     (if q = lit_Undef then \<forall>v < nVars s. \<not> isU s (mkLit (int v) False)
      else lit_ok (nVars s) q \<and> isU s q \<and>
        (\<forall>v < nVars s. isU s (mkLit (int v) False) \<longrightarrow> v \<in> elems (order_heap s') \<or> int v = var q))"
proof -
  define s0 where "s0 = s\<lparr>stats := (stats s)\<lparr>decisions := decisions (stats s) + 1\<rparr>\<rparr>"
  have h: "idx_ok (heap (order_heap s)) (indices (order_heap s))" "elems (order_heap s) \<subseteq> {..< nVars s}"
    "\<And>v. v < nVars s \<Longrightarrow> isU s (mkLit (int v) False) \<Longrightarrow> v \<in> elems (order_heap s)" using hf by (simp_all add: heap_full_def)
  have "0 < random_seed s0" "random_seed s0 < 2147483647" using seed by (simp_all add: s0_def)
  from pick_random_spec [OF this] obtain n r x where p: "pick_random s0 = (n, s0\<lparr>random_seed := r, stats := x\<rparr>)" "0 < r" "r < 2147483647"
    "statistics.conflicts x = statistics.conflicts (stats s)" "\<And>v. n = Some v \<Longrightarrow> v \<in> elems (order_heap s)"
    by (auto simp: s0_def)
  define s1 where "s1 = s\<lparr>random_seed := r, stats := x\<rparr>"
  have s1: "s0\<lparr>random_seed := r, stats := x\<rparr> = s1" by (simp add: s0_def s1_def)
  have c: "can_decide s1 v \<longleftrightarrow> isU s (mkLit (int v) False)" if "v < nVars s" for v
    using that dec by (simp add: can_decide_def s1_def isU_alt vix_def)
  have o1: "order_heap s1 = order_heap s" by (simp add: s1_def)
  have "idx_ok (heap (order_heap s1)) (indices (order_heap s1))" using h by (simp add: o1)
  from pick_loop_spec [OF this, of n, unfolded o1] obtain q hp where l: "pick_loop n s1 = Some (q, s1\<lparr>order_heap := hp\<rparr>)" "idx_ok (heap hp) (indices hp)"
    "elems hp \<subseteq> elems (order_heap s)" "length (indices hp) = length (indices (order_heap s))"
    "\<forall>v \<in> elems (order_heap s) - elems hp. q = Some v \<or> \<not> can_decide s1 v"
    "case q of None \<Rightarrow> elems hp = {} | Some v \<Rightarrow> can_decide s1 v \<and> (n = Some v \<or> v \<in> elems (order_heap s))"
    by blast
  have pk: "picked s (s\<lparr>order_heap := hp, random_seed := r', stats := x\<rparr>)" if "0 < r'" "r' < 2147483647" for r'
    unfolding picked_def using that p(4) l(2-4) by blast
  have s2: "s1\<lparr>order_heap := hp, random_seed := r'\<rparr> = s\<lparr>order_heap := hp, random_seed := r', stats := x\<rparr>"
    "s1\<lparr>order_heap := hp\<rparr> = s\<lparr>order_heap := hp, random_seed := r, stats := x\<rparr>" for r' by (simp_all add: s1_def)
  have unf: "pickBranchLit s = (case q of
          None \<Rightarrow> Some (lit_Undef, s1\<lparr>order_heap := hp\<rparr>)
        | Some v \<Rightarrow> if rnd_pol (opts s)
            then (case next_drand (s1\<lparr>order_heap := hp\<rparr>) of (d, s3) \<Rightarrow> Some (mkLit (int v) (d < 1 / 2), s3))
            else Some (mkLit (int v) (polarity s ! v), s1\<lparr>order_heap := hp\<rparr>))"
    unfolding pickBranchLit_def s0_def [symmetric] p(1) s1 using l(1) by (simp add: s1_def split: option.split)
  show ?thesis
  proof (cases q)
    case None
    have "\<not> isU s (mkLit (int v) False)" if "v < nVars s" for v
      using h(3) [OF that] l(5,6) c [OF that] None by auto
    moreover have "pickBranchLit s = Some (lit_Undef, s\<lparr>order_heap := hp, random_seed := r, stats := x\<rparr>)"
      unfolding unf None s2 by simp
    ultimately show ?thesis using pk [OF p(2,3)] by (intro exI [of _ lit_Undef]) auto
  next
    case (Some v)
    then have v: "v < nVars s" "can_decide s1 v" using l(6) p(5) [of v] h(2) by auto
    have u: "lit_ok (nVars s) (mkLit (int v) b)" "isU s (mkLit (int v) b)" for b
      using v c [OF v(1)] by (simp_all add: lit_ok_alt isU_alt)
    have "\<not> lit_ok (nVars s) lit_Undef" by (simp add: lit_ok_def lit_Undef_def)
    then have "mkLit (int v) b \<noteq> lit_Undef" for b using u(1) [of b] by metis
    note u = u this
    have rest: "w \<in> elems hp \<or> int w = var (mkLit (int v) b)" if "w < nVars s" "isU s (mkLit (int w) False)" for w b
      using l(5) h(3) [OF that] c [OF that(1)] that(2) Some by auto
    obtain d r3 where d: "drand r = (d, r3)" by fastforce
    have r3: "0 < r3" "r3 < 2147483647" using drand_range(1) [OF p(2,3)] by (simp_all add: d)
    have "pickBranchLit s = (if rnd_pol (opts s)
        then Some (mkLit (int v) (d < 1 / 2), s\<lparr>order_heap := hp, random_seed := r3, stats := x\<rparr>)
        else Some (mkLit (int v) (polarity s ! v), s\<lparr>order_heap := hp, random_seed := r, stats := x\<rparr>))"
      unfolding unf Some s2 by (simp add: next_drand_def d)
    then show ?thesis using u rest pk [OF p(2,3)] pk [OF r3] by (cases "rnd_pol (opts s)") auto
  qed
qed

section \<open>The conflict in terms of the assumptions\<close>

lemma marks_above:
  "\<exists>sn'. foldl mark_above (s\<lparr>seen := sn\<rparr>) ls = s\<lparr>seen := sn'\<rparr> \<and> length sn' = length sn \<and>
     (\<forall>i < length sn. sn' ! i \<longleftrightarrow> sn ! i \<or> (\<exists>r \<in> set ls. 0 < level s (var r) \<and> vix (var r) = i))"
proof (induction ls arbitrary: sn)
  case Nil
  then show ?case by auto
next
  case (Cons r ls)
  let ?sn = "if 0 < level s (var r) then sn[vix (var r) := True] else sn"
  have "level (s\<lparr>seen := sn\<rparr>) = level s" by (simp add: level_def fun_eq_iff)
  then have m: "mark_above (s\<lparr>seen := sn\<rparr>) r = s\<lparr>seen := ?sn\<rparr>" by (simp add: mark_above_def set_seen_def)
  from Cons.IH [of ?sn] obtain sn' where i: "foldl mark_above (s\<lparr>seen := ?sn\<rparr>) ls = s\<lparr>seen := sn'\<rparr>" "length sn' = length ?sn"
    "\<forall>i < length ?sn. sn' ! i \<longleftrightarrow> ?sn ! i \<or> (\<exists>r \<in> set ls. 0 < level s (var r) \<and> vix (var r) = i)" by blast
  have "\<forall>i < length sn. sn' ! i \<longleftrightarrow> sn ! i \<or> (\<exists>r \<in> set (r # ls). 0 < level s (var r) \<and> vix (var r) = i)"
    using i(3) by (auto simp: nth_list_update_any)
  then show ?case using i(1,2) m by (intro exI [of _ sn']) simp
qed

text \<open>\<open>k\<close> positions above \<open>b0\<close> are left; a model makes a literal of the clause true or contradicts a marked one.\<close>

definition final_inv :: "(Lit \<Rightarrow> bool) set \<Rightarrow> 'h solver \<Rightarrow> (Lit \<Rightarrow> bool) \<Rightarrow> nat \<Rightarrow> nat \<Rightarrow> nat \<Rightarrow> Lit list \<Rightarrow> bool list \<Rightarrow> bool" where
  "final_inv P s C i0 b0 k out sn \<longleftrightarrow>
     length sn = nVars s \<and> (\<forall>l \<in> set out. C l) \<and>
     (\<forall>M \<in> P. (\<exists>l \<in> set out. M l) \<or> (\<exists>j < k. sn ! vix (var (trail s ! (b0 + j))) \<and> M (neg (trail s ! (b0 + j))))) \<and>
     (\<forall>i < nVars s. sn ! i \<longrightarrow> i = i0 \<or> (\<exists>j < k. vix (var (trail s ! (b0 + j))) = i))"

lemma final_loop_spec:
  fixes T :: "'h theory_ops" and s :: "'h solver"
  assumes b: "base P s" and d: "0 < decisionLevel s" and b0: "b0 = trail_lim s ! 0"
    and C: "\<forall>p \<in> set (trail s). 0 < level s (var p) \<and> reason s (var p) = CRef_Undef \<longrightarrow> C (neg p)"
    and k: "b0 + k \<le> length (trail s)" and i: "final_inv P s C i0 b0 k out sn"
  shows "\<exists>out' sn'. final_loop T 1 b0 k out (s\<lparr>seen := sn\<rparr>) = Some (out', s\<lparr>seen := sn'\<rparr>) \<and> set out \<subseteq> set out' \<and>
     final_inv P s C i0 b0 0 out' sn'"
  using k i
proof (induction k arbitrary: out sn)
  case 0
  then show ?case by auto
next
  case (Suc k)
  note bd = baseD [OF b]
  let ?l = "trail s ! (b0 + k)" and ?t = "s\<lparr>seen := sn\<rparr>"
  let ?x = "vix (var ?l)"
  have kl: "b0 + k < length (trail s)" using Suc.prems(1) by simp
  have lm: "?l \<in> set (trail s)" using kl by simp
  have lok: "?x < nVars s" using lit_ok_vix [OF trail_okD(4) [OF bd(14) lm]] .
  have I: "length sn = nVars s" "\<forall>l \<in> set out. C l"
    "\<And>M. M \<in> P \<Longrightarrow> (\<exists>l \<in> set out. M l) \<or> (\<exists>j < Suc k. sn ! vix (var (trail s ! (b0 + j))) \<and> M (neg (trail s ! (b0 + j))))"
    "\<And>i. i < nVars s \<Longrightarrow> sn ! i \<Longrightarrow> i = i0 \<or> (\<exists>j < Suc k. vix (var (trail s ! (b0 + j))) = i)"
    using Suc.prems(2) by (simp_all add: final_inv_def)
  have dist: "vix (var (trail s ! (b0 + j))) \<noteq> ?x" if "j < k" for j
  proof -
    have j: "b0 + j < length (trail s)" using that kl by simp
    have "trail s ! (b0 + j) \<noteq> ?l" "var (trail s ! (b0 + j)) \<noteq> var ?l"
      using bd(14) that kl j nth_eq_iff_index_eq [of "map var (trail s)" "b0 + j" "b0 + k"] by (auto simp: trail_ok_def)
    then show ?thesis using distinct_vix [OF bd(14) nth_mem [OF j] trail_okD(4) [OF bd(14) lm]] by simp
  qed
  have above: "level s (var ?l) > 0"
  proof -
    have "?l \<in> set (drop b0 (trail s))" using nth_mem [of k "drop b0 (trail s)"] kl by simp
    then show ?thesis using bd(6) d b0 unfolding in_order_def by blast
  qed
  have e: "trail ?t = trail s" "reason ?t = reason s" "level ?t = level s" "isTheoryCause ?t = isTheoryCause s" "clause_at ?t = clause_at s"
    by (simp_all add: reason_def level_def fun_eq_iff isTheoryCause_def clause_at_def)
  have next_step: ?case
    if r: "final_loop T 1 b0 (Suc k) out ?t = final_loop T 1 b0 k o1 (s\<lparr>seen := sn1\<rparr>)" and o: "set out \<subseteq> set o1"
      and i1: "final_inv P s C i0 b0 k o1 sn1" for o1 sn1
    using Suc.IH [OF _ i1] kl o unfolding r by fastforce
  show ?case
  proof (cases "sn ! ?x")
    case False
    have "(\<exists>j < Suc k. sn ! vix (var (trail s ! (b0 + j))) \<and> M (neg (trail s ! (b0 + j)))) \<longrightarrow>
        (\<exists>j < k. sn ! vix (var (trail s ! (b0 + j))) \<and> M (neg (trail s ! (b0 + j))))" for M
      using False by (auto simp: less_Suc_eq)
    moreover have "\<exists>j < k. vix (var (trail s ! (b0 + j))) = i" if "i < nVars s" "sn ! i" "i \<noteq> i0" for i
      using I(4) [OF that(1,2)] that False by (auto simp: less_Suc_eq)
    ultimately have "final_inv P s C i0 b0 k out sn" using I by (simp add: final_inv_def) blast
    moreover have "final_loop T 1 b0 (Suc k) out ?t = final_loop T 1 b0 k out ?t" using False by (simp add: e is_seen_def Let_def)
    ultimately show ?thesis by (intro next_step) simp_all
  next
    case True
    show ?thesis
    proof (cases "reason s (var ?l) = CRef_Undef")
      case dec: True
      let ?sn = "sn[?x := False]"
      have "final_loop T 1 b0 (Suc k) out ?t = final_loop T 1 b0 k (out @ [neg ?l]) (s\<lparr>seen := ?sn\<rparr>)"
        using True dec by (simp add: e is_seen_def Let_def set_seen_def)
      moreover have "final_inv P s C i0 b0 k (out @ [neg ?l]) ?sn"
        unfolding final_inv_def
      proof (intro conjI ballI allI impI)
        show "length ?sn = nVars s" using I(1) by simp
        show "C l" if "l \<in> set (out @ [neg ?l])" for l using that I(2) C lm above dec by auto
        show "(\<exists>l \<in> set (out @ [neg ?l]). M l) \<or>
            (\<exists>j < k. ?sn ! vix (var (trail s ! (b0 + j))) \<and> M (neg (trail s ! (b0 + j))))" if "M \<in> P" for M
          using I(3) [OF that] dist by (fastforce simp: less_Suc_eq nth_list_update_any)
        show "i = i0 \<or> (\<exists>j < k. vix (var (trail s ! (b0 + j))) = i)" if "i < nVars s" "?sn ! i" for i
          using I(4) [OF that(1)] that I(1) by (auto simp: less_Suc_eq nth_list_update_any split: if_splits)
      qed
      ultimately show ?thesis by (intro next_step) auto
    next
      case False
      define cr where "cr = reason s (var ?l)"
      have nt: "\<not> isTheoryCause s cr" using bd(4) lm by (simp add: no_theory_reasons_def cr_def)
      then have "isClause (ca s) cr" using False by (simp add: isTheoryCause_def cr_def)
      then have cdb: "cr \<in> db s" using bd(16) lm by (simp add: reasons_live_def cr_def)
      have c0: "clits s cr ! 0 = ?l" and cf: "\<And>r. r \<in> set (clits s cr) \<Longrightarrow> r \<noteq> ?l \<Longrightarrow> neg r \<in> set (take (b0 + k) (trail s))"
        using bd(15) kl cdb unfolding reasons_ok_def cr_def by blast+
      obtain cs where cs: "clits s cr = ?l # cs" using bd(18) [OF cdb] c0 by (cases "clits s cr") auto
      from marks_above [where s = s and sn = sn and ls = cs] obtain sm where m: "foldl mark_above ?t cs = s\<lparr>seen := sm\<rparr>" "length sm = length sn"
        "\<And>i. i < length sn \<Longrightarrow> sm ! i \<longleftrightarrow> sn ! i \<or> (\<exists>r \<in> set cs. 0 < level s (var r) \<and> vix (var r) = i)" by blast
      let ?sn = "sm[?x := False]"
      have where_r: "\<exists>j < k. trail s ! (b0 + j) = neg r" if r: "r \<in> set cs" "0 < level s (var r)" for r
      proof -
        have "r \<noteq> ?l" using bd(18) [OF cdb] r(1) cs by auto
        then have n: "neg r \<in> set (take (b0 + k) (trail s))" using cf r(1) cs by simp
        have nb: "neg r \<notin> set (take b0 (trail s))" using levels_okD(4) [OF bd(2) d, of "neg r"] r(2) b0 by auto
        obtain i where i: "i < b0 + k" "trail s ! i = neg r" using n kl by (auto simp: in_set_conv_nth)
        have "b0 \<le> i"
        proof (rule ccontr)
          assume "\<not> b0 \<le> i"
          then have "take b0 (trail s) ! i = neg r" "i < length (take b0 (trail s))" using i kl by simp_all
          then show False using nb nth_mem by metis
        qed
        then show ?thesis using i by (intro exI [of _ "i - b0"]) simp
      qed
      have "final_loop T 1 b0 (Suc k) out ?t = final_loop T 1 b0 k out (s\<lparr>seen := ?sn\<rparr>)"
        using True False nt m(1) cs by (simp add: e is_seen_def Let_def set_seen_def cr_def clits_def)
      moreover have "final_inv P s C i0 b0 k out ?sn"
        unfolding final_inv_def
      proof (intro conjI ballI allI impI)
        show "length ?sn = nVars s" using I(1) m(2) by simp
        show "C l" if "l \<in> set out" for l using that I(2) by blast
        have keep: "?sn ! vix (var (trail s ! (b0 + j)))" if "j < k" "sm ! vix (var (trail s ! (b0 + j)))" for j
          using that dist [OF that(1)] by simp
        have vl: "vix (var r) < length sn" if "r \<in> set cs" for r
          using bd(18) [OF cdb] that cs lit_ok_vix I(1) by simp
        show "(\<exists>l \<in> set out. M l) \<or> (\<exists>j < k. ?sn ! vix (var (trail s ! (b0 + j))) \<and> M (neg (trail s ! (b0 + j))))" if M: "M \<in> P" for M
        proof -
          have mm: "root_model (db s) s M" using problem_root [OF bd(11)] M by simp
          have lm': "M r \<longleftrightarrow> \<not> M (neg r)" for r using mm by (simp add: root_model_def lit_model_def)
          consider "\<exists>l \<in> set out. M l" | j where "j < k" "sn ! vix (var (trail s ! (b0 + j)))" "M (neg (trail s ! (b0 + j)))" | "M (neg ?l)"
            using I(3) [OF M] by (auto simp: less_Suc_eq)
          then show ?thesis
          proof cases
            case (2 j)
            have "vix (var (trail s ! (b0 + j))) < length sn"
              using lit_ok_vix [OF trail_okD(4) [OF bd(14)]] kl 2(1) I(1) by simp
            then show ?thesis using keep [OF 2(1)] m(3) 2 by blast
          next
            case 3
            obtain r where r: "r \<in> set (clits s cr)" "M r" using mm cdb by (auto simp: root_model_def)
            have "r \<noteq> ?l" using r(2) 3 lm' by blast
            then have rc: "r \<in> set cs" "neg r \<in> set (take (b0 + k) (trail s))" using r(1) cs cf by auto
            have "0 < level s (var r)"
            proof (rule ccontr)
              assume "\<not> 0 < level s (var r)"
              then have "M (neg r)" using mm in_set_takeD [OF rc(2)] by (simp add: root_model_def)
              then show False using r(2) lm' by blast
            qed
            from where_r [OF rc(1) this] obtain j where j: "j < k" "trail s ! (b0 + j) = neg r" by blast
            have "sm ! vix (var (trail s ! (b0 + j)))" using m(3) [OF vl [OF rc(1)]] rc(1) \<open>0 < level s (var r)\<close> j(2) by auto
            then show ?thesis using keep [OF j(1)] j r(2) by (intro disjI2 exI [of _ j]) simp
          qed simp
        qed
        show "i = i0 \<or> (\<exists>j < k. vix (var (trail s ! (b0 + j))) = i)" if i: "i < nVars s" "?sn ! i" for i
        proof -
          have x: "i \<noteq> ?x" using i I(1) m(2) lok by auto
          then have "sm ! i" using i(2) by simp
          then have "sn ! i \<or> (\<exists>r \<in> set cs. 0 < level s (var r) \<and> vix (var r) = i)" using m(3) [of i] i(1) I(1) by simp
          then show ?thesis using I(4) [OF i(1)] x where_r by (fastforce simp: less_Suc_eq)
        qed
      qed
      ultimately show ?thesis by (intro next_step) simp_all
    qed
  qed
qed

lemma analyzeFinal_core:
  fixes T :: "'h theory_ops" and s :: "'h solver"
  assumes b: "base P s" and ao: "assumed_ok s" and dl: "decisionLevel s \<le> length (assumptions s)" and q: "q \<in> set (trail s)"
  shows "\<exists>c. analyzeFinal T q s = Some (c, s) \<and> (\<forall>M \<in> P. \<exists>l \<in> set c. M l) \<and> q \<in> set c \<and>
     set c \<subseteq> insert q (neg ` set (assumptions s))"
proof -
  note bd = baseD [OF b]
  show ?thesis
  proof (cases "decisionLevel s = 0")
    case True
    then have "level s (var q) = 0" using levels_okD(3) [OF bd(2) q] by simp
    then have "\<forall>M \<in> P. M q" using problem_root [OF bd(11)] q by (auto simp: root_model_def)
    then show ?thesis using True by (intro exI [of _ "[q]"]) (simp add: analyzeFinal_def)
  next
    case False
    then have d: "0 < decisionLevel s" by simp
    define b0 where "b0 = trail_lim s ! 0"
    let ?i = "vix (var q)" and ?C = "\<lambda>l. l = q \<or> l \<in> neg ` set (assumptions s)"
    have vq: "?i < nVars s" using lit_ok_vix [OF trail_okD(4) [OF bd(14) q]] .
    have b0l: "b0 \<le> length (trail s)" unfolding b0_def by (rule levels_okD(1) [OF bd(2) d])
    have C: "\<forall>p \<in> set (trail s). 0 < level s (var p) \<and> reason s (var p) = CRef_Undef \<longrightarrow> ?C (neg p)"
    proof (intro ballI impI)
      fix p assume p: "p \<in> set (trail s)" "0 < level s (var p) \<and> reason s (var p) = CRef_Undef"
      have "level s (var p) \<le> length (assumptions s)" using levels_okD(3) [OF bd(2) p(1)] dl by simp
      then have "p = assumptions s ! (level s (var p) - 1)" "level s (var p) - 1 < length (assumptions s)"
        using ao p by (auto simp: assumed_ok_def)
      then have "p \<in> set (assumptions s)" by (metis nth_mem)
      then show "?C (neg p)" by blast
    qed
    let ?sn = "(seen s)[?i := True]" and ?k = "length (trail s) - b0"
    have pos: "\<exists>j < ?k. trail s ! (b0 + j) = q" if "level s (var q) \<noteq> 0"
    proof -
      have "q \<notin> set (take b0 (trail s))" using levels_okD(4) [OF bd(2) d, of q] that by (auto simp: b0_def)
      then have "q \<in> set (drop b0 (trail s))" using q set_append [of "take b0 (trail s)" "drop b0 (trail s)"] by simp
      then show ?thesis using b0l by (auto simp: in_set_conv_nth)
    qed
    have "final_inv P s ?C ?i b0 ?k [q] ?sn"
      unfolding final_inv_def
    proof (intro conjI ballI allI impI)
      show "length ?sn = nVars s" by (simp add: bd(17))
      show "?C l" if "l \<in> set [q]" for l using that by simp
      fix M assume M: "M \<in> P"
      have mm: "root_model (db s) s M" using problem_root [OF bd(11)] M by simp
      show "(\<exists>l \<in> set [q]. M l) \<or> (\<exists>j < ?k. ?sn ! vix (var (trail s ! (b0 + j))) \<and> M (neg (trail s ! (b0 + j))))"
      proof (cases "level s (var q) = 0")
        case True
        then show ?thesis using mm q by (simp add: root_model_def)
      next
        case False
        then obtain j where j: "j < ?k" "trail s ! (b0 + j) = q" using pos by blast
        have "M q \<or> M (neg q)" using mm by (auto simp: root_model_def lit_model_def)
        then show ?thesis using j vq by (auto simp: bd(17) intro!: exI [of _ j])
      qed
    next
      show "i = ?i \<or> (\<exists>j < ?k. vix (var (trail s ! (b0 + j))) = i)" if "i < nVars s" "?sn ! i" for i
        using that by (auto simp: bd(17) nth_list_update split: if_splits)
    qed
    from final_loop_spec [OF b d b0_def C _ this, of T] b0l obtain out sn where
      f: "final_loop T 1 b0 ?k [q] (s\<lparr>seen := ?sn\<rparr>) = Some (out, s\<lparr>seen := sn\<rparr>)" "q \<in> set out" "final_inv P s ?C ?i b0 0 out sn"
      by auto
    have len: "length sn = nVars s" using f(3) by (simp add: final_inv_def)
    have "sn[?i := False] = replicate (nVars s) False"
    proof (rule nth_equalityI)
      show "length (sn[?i := False]) = length (replicate (nVars s) False)" by (simp add: len)
      show "sn[?i := False] ! i = replicate (nVars s) False ! i" if "i < length (sn[?i := False])" for i
        using f(3) that by (cases "i = ?i") (auto simp: final_inv_def)
    qed
    then have "sn[?i := False] = seen s" by (simp add: bd(17))
    then have "analyzeFinal T q s = Some (out, s)"
      using False f(1) by (simp add: analyzeFinal_def Let_def b0_def [symmetric] set_seen_def)
    then show ?thesis using f(2,3) by (intro exI [of _ out]) (auto simp: final_inv_def)
  qed
qed

end
