(* ===== verification/Search_Step.thy ===== *)
theory Search_Step
  imports Search_Decide
begin

text \<open>
  One iteration of the search: from a state that satisfies the invariant it always comes to an end, with an answer
  that is right for the problem and the assumptions or with a state that satisfies the invariant again.
\<close>

section \<open>Answers\<close>

text \<open>What the iterations do not change.\<close>

definition stays :: "'h solver \<Rightarrow> 'h solver \<Rightarrow> bool" where
  "stays s s' \<longleftrightarrow> nVars s' = nVars s \<and> limits s' = limits s \<and> assumptions s' = assumptions s \<and>
     statistics.conflicts (stats s') = statistics.conflicts (stats s) \<and>
     unat (rsz (region_of (ca s'))) \<le> unat (rsz (region_of (ca s)))"

lemma stays_refl: "stays s s"
  by (simp add: stays_def)

lemma stays_trans: "stays s s' \<Longrightarrow> stays s' s'' \<Longrightarrow> stays s s''"
  by (simp add: stays_def)

lemma stays_rest:
  assumes "ana_rest s' = ana_rest s" and "nVars s' = nVars s" and "unat (rsz (region_of (ca s'))) \<le> unat (rsz (region_of (ca s)))"
  shows "stays s s'"
  using assms by (simp add: stays_def ana_rest_def)

lemma roomy_stays: "stays s s' \<Longrightarrow> roomy k s \<Longrightarrow> roomy k s'"
  by (simp add: stays_def roomy_def)

text \<open>A clause of negated assumptions that the problem implies.\<close>

definition core :: "(Lit \<Rightarrow> bool) set \<Rightarrow> Lit list \<Rightarrow> Lit list \<Rightarrow> bool" where
  "core P as c \<longleftrightarrow> (\<forall>M \<in> P. \<exists>l \<in> set c. M l) \<and> set c \<subseteq> neg ` set as"

text \<open>Every variable is assigned, nothing is left to propagate and the assumptions are true.\<close>

definition solved :: "(Lit \<Rightarrow> bool) set \<Rightarrow> 'h solver \<Rightarrow> bool" where
  "solved P s \<longleftrightarrow> base P s \<and> queue_done (db s) s \<and> qhead s = length (trail s) \<and> (\<forall>v < nVars s. \<not> isU s (mkLit (int v) False)) \<and>
     (\<forall>a \<in> set (assumptions s). isT s a)"

lemma solved_model:
  assumes c: "solved P s"
  shows "\<exists>M \<in> P. \<forall>l. lit_ok (nVars s) l \<longrightarrow> (M l \<longleftrightarrow> isT s l)"
proof -
  have b: "base P s" using c by (simp add: solved_def)
  note bd = baseD [OF b]
  have val: "isT s l \<longleftrightarrow> \<not> isF s l" if l: "lit_ok (nVars s) l" for l
  proof -
    have "isU s l = isU s (mkLit (int (vix (var l))) False)" using l by (simp add: isU_alt vix_def lit_ok_alt)
    then have "\<not> isU s l" using c lit_ok_vix [OF l] by (simp add: solved_def)
    then show ?thesis using trail_okD(3) [OF bd(14) l] not_T_and_F by blast
  qed
  define M where "M = (\<lambda>l. if lit_ok (nVars s) l then isT s l else \<not> sign l)"
  have lm: "lit_model M" using val by (simp add: lit_model_def M_def)
  have sat: "\<exists>l \<in> set (clits s cr). M l" if cr: "cr \<in> db s" for cr
  proof -
    let ?c = "clits s cr"
    have k: "2 \<le> length ?c" "\<forall>l \<in> set ?c. lit_ok (nVars s) l" using bd(18) [OF cr] by auto
    have c0: "?c ! 0 \<in> set ?c" using first_two [OF k(1)] by blast
    have "\<exists>l \<in> set ?c. isT s l"
    proof (cases "isT s (?c ! 0)")
      case False
      then have "neg (?c ! 0) \<in> set (trail s)" using val k(2) c0 trail_okD(2) [OF bd(14), of "?c ! 0"] by blast
      moreover have "watched ?c (neg (?c ! 0))" by (simp add: watched_def)
      ultimately have "sat_clause s cr" using c cr by (auto simp: solved_def queue_done_def processed_def)
      then show ?thesis by (simp add: sat_clause_def)
    qed (use c0 in blast)
    then show ?thesis using k(2) by (auto simp: M_def)
  qed
  have "M p" if "p \<in> set (trail s)" for p using trail_okD(1,4) [OF bd(14), of p] that by (simp add: M_def)
  then have "root_model (db s) s M" using lm sat by (simp add: root_model_def)
  then show ?thesis using problem_root [OF bd(11)] by (intro bexI [of _ M]) (simp_all add: M_def)
qed

section \<open>Decisions\<close>

lemma pickedD:
  assumes p: "picked s s'"
  shows "stays s s'" and "trail s' = trail s" and "trail_lim s' = trail_lim s" and "isU s' = isU s" and "nVars s' = nVars s"
    and "isT s' = isT s" and "qhead s' = qhead s" and "assumptions s' = assumptions s" and "db s' = db s"
proof -
  obtain h r x where s': "s' = s\<lparr>order_heap := h, random_seed := r, stats := x\<rparr>" "statistics.conflicts x = statistics.conflicts (stats s)"
    using p unfolding picked_def by blast
  show "stays s s'" "trail s' = trail s" "trail_lim s' = trail_lim s" "isU s' = isU s" "nVars s' = nVars s" "isT s' = isT s"
    "qhead s' = qhead s" "assumptions s' = assumptions s" "db s' = db s"
    using state_eqs [of s' s] s'(2) by (simp_all add: s'(1) stays_def nVars_def db_def)
qed

lemma picked_heap:
  assumes hf: "heap_full s" and p: "picked s s'" and u: "\<And>v. v < nVars s \<Longrightarrow> isU t (mkLit (int v) False) \<Longrightarrow> v \<in> elems (order_heap s')"
    and n: "nVars t = nVars s"
  shows "heap_full (t\<lparr>order_heap := order_heap s'\<rparr>)"
proof -
  obtain h r x where s': "s' = s\<lparr>order_heap := h, random_seed := r, stats := x\<rparr>" "idx_ok (heap h) (indices h)"
    "elems h \<subseteq> elems (order_heap s)" "length (indices h) = length (indices (order_heap s))"
    using p unfolding picked_def by blast
  have "isU (t\<lparr>order_heap := order_heap s'\<rparr>) = isU t" by (rule state_eqs) simp
  then show ?thesis using hf s'(2-4) u n by (auto simp: heap_full_def s'(1) nVars_def)
qed

text \<open>The state of the picked heap, seed and counters over another state.\<close>

definition with_pick :: "'h solver \<Rightarrow> 'h solver \<Rightarrow> 'h solver" where
  "with_pick s' t = t\<lparr>order_heap := order_heap s', random_seed := random_seed s', stats := stats s'\<rparr>"

lemma picked_with: "picked s s' \<Longrightarrow> s' = with_pick s' s"
  by (auto simp: picked_def with_pick_def)

lemma enqueue_with_pick: "\<not> hasTheory t (var q) \<Longrightarrow> uncheckedEnqueue T q cr (with_pick s' t) = with_pick s' (uncheckedEnqueue T q cr t)"
  by (simp add: uncheckedEnqueue_def with_pick_def notify_theory_def hasTheory_def getTheoryID_def decisionLevel_def)

lemma base_with_pick:
  assumes p: "picked s s'" and b: "base P t" and hf: "heap_full (t\<lparr>order_heap := order_heap s'\<rparr>)"
  shows "base P (with_pick s' t)" and "good P t \<Longrightarrow> good P (with_pick s' t)"
proof -
  let ?t = "t\<lparr>order_heap := order_heap s'\<rparr>"
  have r: "0 < random_seed s'" "random_seed s' < 2147483647" using p by (auto simp: picked_def)
  show "base P (with_pick s' t)" by (rule base_cong(1) [where s = ?t]) (use base_heap [OF b hf] r in \<open>simp_all add: with_pick_def\<close>)
  show "good P (with_pick s' t)" if "good P t"
    by (rule base_cong(2) [where s = ?t]) (use good_heap [OF that hf] r in \<open>simp_all add: with_pick_def\<close>)
qed

lemma decide_keeps:
  fixes T :: "'h theory_ops" and s :: "'h solver"
  assumes g: "good P s" and q: "qhead s = length (trail s)" and d: "length (assumptions s) \<le> decisionLevel s"
  shows "\<exists>p s'. pickBranchLit (newDecisionLevel s) = Some (p, s') \<and> stays s s' \<and>
     (if p = lit_Undef then solved P s'
      else \<exists>s''. enqueue_decision T p s' = Some s'' \<and> good P s'' \<and> stays s s'' \<and> decisionLevel s < decisionLevel s'' \<and>
             decisionLevel s'' \<le> nVars s + length (assumptions s))"
proof -
  have b: "base P s" and qd: "queue_done (db s) s" and ao: "assumed_ok s" using g by (auto simp: good_def)
  let ?n = "newDecisionLevel s"
  note n = base_newLevel [OF b qd q]
  have f: "trail ?n = trail s" "db ?n = db s" "assumptions ?n = assumptions s" "nVars ?n = nVars s" "isU ?n = isU s" "isT ?n = isT s"
    "qhead ?n = qhead s"
    using state_eqs [of ?n s] by (simp_all add: newDecisionLevel_def db_def)
  have st: "stays s ?n" by (simp add: stays_def newDecisionLevel_def nVars_def)
  have sd: "0 < random_seed ?n" "random_seed ?n < 2147483647" "\<forall>v < nVars ?n. decision ?n ! v"
    using baseD(12) [OF n(1)] by (simp_all add: settings_def)
  from pickBranchLit_spec [OF baseD(10) [OF n(1)] sd] obtain p s' where p: "pickBranchLit ?n = Some (p, s')" "picked ?n s'"
    "if p = lit_Undef then \<forall>v < nVars ?n. \<not> isU ?n (mkLit (int v) False)
      else lit_ok (nVars ?n) p \<and> isU ?n p \<and> (\<forall>v < nVars ?n. isU ?n (mkLit (int v) False) \<longrightarrow> v \<in> elems (order_heap s') \<or> int v = var p)"
    by blast
  note pd = pickedD [OF p(2)]
  have st': "stays s s'" by (rule stays_trans [OF st pd(1)])
  note sw = picked_with [OF p(2)]
  show ?thesis
  proof (cases "p = lit_Undef")
    case True
    then have u: "\<And>v. v < nVars ?n \<Longrightarrow> \<not> isU ?n (mkLit (int v) False)" using p(3) by simp
    have "heap_full (?n\<lparr>order_heap := order_heap s'\<rparr>)" by (rule picked_heap [OF baseD(10) [OF n(1)] p(2)]) (use u in auto)
    then have "base P (with_pick s' ?n)" by (rule base_with_pick(1) [OF p(2) n(1)])
    then have bs: "base P s'" using sw by simp
    have "queue_done (db s') (with_pick s' ?n) = queue_done (db s') ?n"
      by (rule solver_inv_cong) (simp_all add: with_pick_def)
    then have "queue_done (db s') s'" using sw n(2) by (simp add: pd f)
    moreover have "isT s a" if "a \<in> set (assumptions s)" for a
    proof -
      obtain k where k: "k < length (assumptions s)" "assumptions s ! k = a" using \<open>a \<in> _\<close> by (auto simp: in_set_conv_nth)
      then have "a \<in> set (trail s)" using ao d by (auto simp: assumed_ok_def)
      then show ?thesis using trail_okD(1,4) [OF baseD(14) [OF b]] by blast
    qed
    ultimately have "solved P s'" using bs u q by (simp add: solved_def pd f)
    then show ?thesis using p(1) st' True by (intro exI [of _ p] exI [of _ s']) simp
  next
    case False
    then have pp: "lit_ok (nVars s) p" "isU s p" and rest: "\<And>v. v < nVars s \<Longrightarrow> isU s (mkLit (int v) False) \<Longrightarrow>
        v \<in> elems (order_heap s') \<or> int v = var p" using p(3) by (simp_all add: f)
    let ?t = "uncheckedEnqueue T p CRef_Undef ?n"
    have "decisionLevel s < length (assumptions s) \<Longrightarrow> p = assumptions s ! decisionLevel s" using d by simp
    note t = good_decide(1-5) [OF g q pp this, of T] and below = good_decide(6) [OF g q pp this]
    have bt: "base P ?t" using t(1) by (simp add: good_def)
    have "heap_full (?t\<lparr>order_heap := order_heap s'\<rparr>)"
    proof (rule picked_heap [OF baseD(10) [OF n(1)] p(2)])
      show "nVars ?t = nVars ?n" using t(3) by (simp add: f)
      fix v assume v: "v < nVars ?n" "isU ?t (mkLit (int v) False)"
      have tr: "trail ?t = trail s @ [p]" using calm_enqueue [OF base_calm [OF n(1)], of p T CRef_Undef] pp(1) by (auto simp: f)
      have l: "lit_ok (nVars s) (mkLit (int v) False)" using v(1) by (simp add: lit_ok_alt f)
      then have "int v \<notin> var ` set (trail ?t)" using v(2) baseD(14) [OF bt] by (auto simp: trail_ok_def t(3))
      then have "int v \<noteq> var p" "isU s (mkLit (int v) False)" using l baseD(14) [OF b] by (auto simp: tr trail_ok_def)
      then show "v \<in> elems (order_heap s')" using rest v(1) by (auto simp: f)
    qed
    from base_with_pick(2) [OF p(2) bt this t(1)] have g': "good P (with_pick s' ?t)" .
    have e: "enqueue_decision T p s' = Some (with_pick s' ?t)"
    proof -
      have "decisionLevel s' = Suc (decisionLevel s)" using pd(3) by (simp add: decisionLevel_def newDecisionLevel_def)
      moreover have "uncheckedEnqueue T p CRef_Undef s' = with_pick s' ?t" using enqueue_with_pick [of ?n p T CRef_Undef s'] sw
        plain_hasTheory [OF baseD(13) [OF n(1)], of p] pp(1) f by metis
      ultimately show ?thesis using below pp(2) by (simp add: enqueue_decision_def enqueue_def pd f)
    qed
    have dl: "decisionLevel (with_pick s' ?t) = Suc (decisionLevel s)" using t(2) by (simp add: with_pick_def decisionLevel_def)
    have "stays s (with_pick s' ?t)"
      using pd(1) st t(3-5) by (simp add: stays_def with_pick_def ana_rest_def nVars_def f)
    then show ?thesis using p(1) st' False e g' dl below by (intro exI [of _ p] exI [of _ s']) auto
  qed
qed

lemma assume_keeps:
  fixes T :: "'h theory_ops" and s :: "'h solver"
  assumes g: "good P s" and q: "qhead s = length (trail s)" and d: "decisionLevel s < length (assumptions s)"
    and p: "p = assumptions s ! decisionLevel s" and u: "isU s p"
  shows "\<exists>s'. enqueue_decision T p (newDecisionLevel s) = Some s' \<and> good P s' \<and> stays s s' \<and> decisionLevel s < decisionLevel s' \<and>
     decisionLevel s' \<le> nVars s + length (assumptions s)"
proof -
  have l: "lit_ok (nVars s) p" using g d p by (simp add: good_def assumed_ok_def)
  note t = good_decide(1-5) [OF g q l u p, of T] and below = good_decide(6) [OF g q l u p]
  have "isU (newDecisionLevel s) p" using u state_eqs(3) [of "newDecisionLevel s" s] by (simp add: newDecisionLevel_def)
  moreover have "nVars (newDecisionLevel s) = nVars s" "assumptions (newDecisionLevel s) = assumptions s"
    "decisionLevel (newDecisionLevel s) = Suc (decisionLevel s)" by (simp_all add: newDecisionLevel_def nVars_def decisionLevel_def)
  ultimately have "enqueue_decision T p (newDecisionLevel s) = Some (uncheckedEnqueue T p CRef_Undef (newDecisionLevel s))"
    using below by (simp add: enqueue_decision_def enqueue_def)
  moreover have "stays s (uncheckedEnqueue T p CRef_Undef (newDecisionLevel s))" using t(3-5) by (simp add: stays_rest)
  ultimately show ?thesis using t(1,2) below by auto
qed

end
