(* ===== verification/Search_Iter.thy ===== *)
theory Search_Iter
  imports Search_Step
begin

text \<open>
  One iteration of \<^verbatim>\<open>search\<close> for a solver without theories that does not ask theories for decisions: it always
  comes to an end, with an answer that is right for the problem and the assumptions or with a state that satisfies
  the invariant again.
\<close>

section \<open>The end of an iteration\<close>

text \<open>\<open>search_frame\<close> without the set of the final conflict.\<close>

definition call_frame :: "'h search \<Rightarrow> 'h search \<Rightarrow> bool" where
  "call_frame st st' \<longleftrightarrow> cfg st' = cfg st \<and> model st' = model st \<and>
     quit_at_restart st' = quit_at_restart st \<and> override_restart_count st' = override_restart_count st \<and>
     only_propagate_assumptions st' = only_propagate_assumptions st"

lemma call_frame_search: "search_frame st st' \<Longrightarrow> call_frame st st'"
  by (simp add: search_frame_def call_frame_def)

lemma call_frame_trans: "call_frame st st' \<Longrightarrow> call_frame st' st'' \<Longrightarrow> call_frame st st''"
  by (simp add: call_frame_def)

lemma call_frame_upd [simp]: "call_frame st (st'\<lparr>sol := x\<rparr>) = call_frame st st'"
  "call_frame st (st'\<lparr>conflict := c\<rparr>) = call_frame st st'" "call_frame st st"
  by (simp_all add: call_frame_def)

text \<open>The problem has no model that satisfies the assumptions: it has none, or a final conflict says so.\<close>

definition refuted :: "(Lit \<Rightarrow> bool) set \<Rightarrow> Lit intset \<Rightarrow> 'h search \<Rightarrow> bool" where
  "refuted P i st \<longleftrightarrow>
     P = {} \<and> conflict st = i \<and> base P ((sol st)\<lparr>ok := True\<rparr>) \<or>
     (\<exists>c. c \<noteq> [] \<and> core P (assumptions (sol st)) c \<and> good P (sol st) \<and> conflict st = iset_insertAll lix c (iset_clear lix False i))"

lemma decide_step_keeps:
  fixes T :: "'h theory_ops" and st :: "'h search"
  assumes g: "good P (sol st)" and q: "qhead (sol st) = length (trail (sol st))" and nd: "\<not> opt_decide_theories (cfg st)"
  shows "\<exists>oc st'. decide_step T Q confl l st = Some (oc, l, st') \<and> stays (sol st) (sol st') \<and> call_frame st st' \<and>
     (oc = Goto_propagate \<and> conflict st' = conflict st \<and> good P (sol st') \<and> decisionLevel (sol st) < decisionLevel (sol st') \<and>
        decisionLevel (sol st') \<le> nVars (sol st) + length (assumptions (sol st)) \<or>
      oc = Return l_True \<and> conflict st' = conflict st \<and> solved P (sol st') \<or>
      oc = Return l_False \<and> refuted P (conflict st) st')"
proof -
  define s where "s = sol st"
  have gs: "good P s" and qs: "qhead s = length (trail s)" using g q by (simp_all add: s_def)
  obtain a processed s1 where al: "assume_loop (drop (decisionLevel s) (assumptions s)) False s = (a, processed, s1)"
    by (metis prod_cases3)
  note A = assume_loop_spec [OF gs qs refl al]
  have g1: "good P s1" using A by simp
  have ta: "trail_as s s1" using A by simp
  note t = trail_asD [OF ta]
  have q1: "qhead s1 = length (trail s1)" using qs by (simp add: t)
  have dl1: "decisionLevel s \<le> decisionLevel s1" "processed \<Longrightarrow> decisionLevel s < decisionLevel s1" using A by auto
  have st1: "stays s s1" by (rule stays_rest) (simp_all add: t)
  have b1: "base P s1" and ao: "assumed_ok s1" and lu: "levels_used s1" using g1 by (simp_all add: good_def)
  have lb: "decisionLevel s1 \<le> nVars s1 + length (assumptions s1)"
  proof -
    have "length (trail s1) \<le> nVars s1" using trail_length [OF baseD(14) [OF b1]] by simp
    then show ?thesis using level_bound [OF baseD(2) [OF b1] lu] by simp
  qed
  note unf = decide_step_def Let_def s_def [symmetric] al prod.case
  show ?thesis
  proof (cases a)
    case (Falsified p)
    then have d: "decisionLevel s1 < length (assumptions s1)" and p: "p = assumptions s1 ! decisionLevel s1" and f: "isF s1 p"
      using A by auto
    have pa: "p \<in> set (assumptions s1)" using d p by simp
    then have "lit_ok (nVars s1) p" using ao by (simp add: assumed_ok_def)
    then have "neg p \<in> set (trail s1)" using f trail_okD(2) [OF baseD(14) [OF b1]] by blast
    from analyzeFinal_core [OF b1 ao less_imp_le [OF d] this, of T] obtain c where
      c: "analyzeFinal T (neg p) s1 = Some (c, s1)" "\<forall>M \<in> P. \<exists>l \<in> set c. M l" "neg p \<in> set c"
        "set c \<subseteq> insert (neg p) (neg ` set (assumptions s1))" by blast
    have "core P (assumptions s1) c" using c(2,4) pa by (auto simp: core_def)
    then have "refuted P (conflict st) (st\<lparr>sol := s1, conflict := lit_set c st\<rparr>)"
      unfolding refuted_def using c(3) g1 by (intro disjI2 exI [of _ c]) (auto simp: lit_set_def)
    moreover have "decide_step T Q confl l st = Some (Return l_False, l, st\<lparr>sol := s1, conflict := lit_set c st\<rparr>)"
      by (simp add: unf Falsified c(1))
    ultimately show ?thesis using st1
      by (intro exI [of _ "Return l_False"] exI [of _ "st\<lparr>sol := s1, conflict := lit_set c st\<rparr>"]) (simp add: s_def [symmetric])
  next
    case (Assume p)
    then have d: "decisionLevel s1 < length (assumptions s1)" and p: "p = assumptions s1 ! decisionLevel s1" and u: "isU s1 p"
      using A by auto
    from assume_keeps [OF g1 q1 d p u, of T] obtain s' where
      s': "enqueue_decision T p (newDecisionLevel s1) = Some s'" "good P s'" "stays s1 s'" "decisionLevel s1 < decisionLevel s'"
        "decisionLevel s' \<le> nVars s1 + length (assumptions s1)" by blast
    have "decide_step T Q confl l st = Some (Goto_propagate, l, st\<lparr>sol := s'\<rparr>)" by (simp add: unf Assume s'(1))
    then show ?thesis using s'(2,4,5) stays_trans [OF st1 s'(3)] dl1(1) t(2,3)
      by (intro exI [of _ Goto_propagate] exI [of _ "st\<lparr>sol := s'\<rparr>"]) (simp add: s_def [symmetric])
  next
    case All_assumed
    then have d: "length (assumptions s1) \<le> decisionLevel s1" using A by simp
    show ?thesis
    proof (cases processed)
      case True
      have "decide_step T Q confl l st = Some (Goto_propagate, l, st\<lparr>sol := s1\<rparr>)" by (simp add: unf All_assumed True)
      then show ?thesis using g1 st1 dl1(2) [OF True] lb t(2,3)
        by (intro exI [of _ Goto_propagate] exI [of _ "st\<lparr>sol := s1\<rparr>"]) (simp add: s_def [symmetric])
    next
      case False
      from decide_keeps [OF g1 q1 d, of T] obtain p s2 where p: "pickBranchLit (newDecisionLevel s1) = Some (p, s2)" "stays s1 s2"
        "if p = lit_Undef then solved P s2
         else \<exists>s''. enqueue_decision T p s2 = Some s'' \<and> good P s'' \<and> stays s1 s'' \<and> decisionLevel s1 < decisionLevel s'' \<and>
             decisionLevel s'' \<le> nVars s1 + length (assumptions s1)" by blast
      show ?thesis
      proof (cases "p = lit_Undef")
        case True
        then have so: "solved P s2" using p(3) by simp
        then have "n_theories (ths s2) = 0" using baseD(13) by (auto simp: solved_def plain_def)
        then have "decide_step T Q confl l st = Some (Return l_True, l, st\<lparr>sol := s2\<rparr>)"
          using nd p(1) True by (simp add: unf All_assumed False)
        then show ?thesis using so stays_trans [OF st1 p(2)]
          by (intro exI [of _ "Return l_True"] exI [of _ "st\<lparr>sol := s2\<rparr>"]) (simp add: s_def [symmetric])
      next
        case False
        then obtain s3 where s3: "enqueue_decision T p s2 = Some s3" "good P s3" "stays s1 s3" "decisionLevel s1 < decisionLevel s3"
          "decisionLevel s3 \<le> nVars s1 + length (assumptions s1)" using p(3) by auto
        have "decide_step T Q confl l st = Some (Goto_propagate, l, st\<lparr>sol := s3\<rparr>)"
          using nd p(1) False s3(1) \<open>\<not> processed\<close> by (simp add: unf All_assumed)
        then show ?thesis using s3(2,4,5) stays_trans [OF st1 s3(3)] dl1(1) t(2,3)
          by (intro exI [of _ Goto_propagate] exI [of _ "st\<lparr>sol := s3\<rparr>"]) (simp add: s_def [symmetric])
      qed
    qed
  qed
qed


section \<open>Backtracking to the root\<close>

lemma cancelUntil_stats: "base P s \<Longrightarrow> stats (cancelUntil T lev s) = stats s"
  using cancelUntil_spec(8) [OF baseD(1-3) _ base_calm, where s = s and lev = lev and T = T]
  by (cases "lev < decisionLevel s") (auto simp: cancel_frame_def cancelUntil_def)

lemma cancel_root:
  fixes T :: "'h theory_ops"
  assumes b: "base P s" and qd: "decisionLevel s = 0 \<Longrightarrow> queue_done (db s) s" and as: "\<forall>a \<in> set (assumptions s). lit_ok (nVars s) a"
  defines "s' \<equiv> cancelUntil T 0 s"
  shows "good P s'" and "decisionLevel s' = 0" and "stays s s'" and "withinBudget s' = withinBudget s" and "ana_rest s' = ana_rest s"
proof -
  have s0: "s' = s" if "decisionLevel s = 0" using that by (simp add: s'_def cancelUntil_def)
  note k = cancelUntil_keeps [OF b, of 0 T, folded s'_def]
  note sp = cancelUntil_spec [OF baseD(1-3) [OF b] _ base_calm [OF b], of 0 T, folded s'_def]
  show d: "decisionLevel s' = 0" using s0 k(6) by (cases "decisionLevel s = 0") simp_all
  show r: "ana_rest s' = ana_rest s" using s0 k(7) by (cases "decisionLevel s = 0") simp_all
  have b': "base P s'" "queue_done (db s') s'" using s0 b qd k(1,3) by (cases "decisionLevel s = 0"; simp)+
  have f: "ca s' = ca s" "nVars s' = nVars s"
    using s0 sp(8) by (cases "decisionLevel s = 0"; simp add: cancel_frame_def nVars_def)+
  show "stays s s'" using r f by (simp add: stays_rest)
  show "withinBudget s' = withinBudget s" using r cancelUntil_stats [OF b, of T 0] by (simp add: withinBudget_def ana_rest_def s'_def)
  have a: "assumptions s' = assumptions s" using r by (simp add: ana_rest_def)
  have "level s' (var p) = 0" if "p \<in> set (trail s')" for p using levels_okD(3) [OF baseD(2) [OF b'(1)] that] d by simp
  then have "assumed_ok s'" using as d by (simp add: assumed_ok_def a f)
  moreover have "levels_used s'" using d by (simp add: levels_used_def)
  ultimately show "good P s'" using b' by (simp add: good_def)
qed

section \<open>An iteration without a conflict\<close>

lemma stays_kept: "kept_run s s' \<Longrightarrow> stays s s'"
  by (rule stays_rest) (simp_all add: kept_run_def same_run_def)

lemma no_conflict_step_keeps:
  fixes T :: "'h theory_ops" and st :: "'h search"
  assumes g: "good P (sol st)" and q: "qhead (sol st) = length (trail (sol st))" and nd: "\<not> opt_decide_theories (cfg st)"
  shows "\<exists>oc l' st'. no_conflict_step T Q nof l st = Some (oc, l', st') \<and> conflictC l' = conflictC l \<and>
     stays (sol st) (sol st') \<and> call_frame st st' \<and>
     (oc = Goto_propagate \<and> conflict st' = conflict st \<and> withinBudget (sol st) \<and> good P (sol st') \<and>
        decisionLevel (sol st) < decisionLevel (sol st') \<and>
        decisionLevel (sol st') \<le> nVars (sol st) + length (assumptions (sol st)) \<or>
      oc = Return l_True \<and> conflict st' = conflict st \<and> solved P (sol st') \<or>
      oc = Return l_False \<and> refuted P (conflict st) st' \<or>
      oc = Return l_Undef \<and> conflict st' = conflict st \<and> good P (sol st') \<and> decisionLevel (sol st') = 0 \<and>
        (withinBudget (sol st') \<longrightarrow> 0 \<le> nof \<and> nof \<le> int (conflictC l)))"
proof -
  define s where "s = sol st"
  have gs: "good P s" and qs: "qhead s = length (trail s)" using g q by (simp_all add: s_def)
  have b: "base P s" and qd: "queue_done (db s) s" and ao: "assumed_ok s" using gs by (simp_all add: good_def)
  have se: "clauses_to_add s = []" "initial_level s = 0" using baseD(12) [OF b] by (simp_all add: settings_def)
  have ad: "addDelayedClauses T s = Some (True, CRef_Undef, s)" by (simp add: addDelayedClauses_def se)
  have st0: "st\<lparr>sol := s\<rparr> = st" by (simp add: s_def)
  note unf = no_conflict_step_def s_def [symmetric] ad
  show ?thesis
  proof (cases "(0 \<le> nof \<and> nof \<le> int (conflictC l)) \<or> \<not> withinBudget s")
    case True
    have "\<forall>a \<in> set (assumptions s). lit_ok (nVars s) a" using ao by (simp add: assumed_ok_def)
    note c = cancel_root [OF b qd this, where T = T]
    let ?st = "st\<lparr>progress_estimate := progressEstimate s, sol := cancelUntil T 0 s\<rparr>"
    have "no_conflict_step T Q nof l st = Some (Return l_Undef, l, ?st)" using True by (simp add: unf st0 se)
    moreover have "call_frame st ?st" by (simp add: call_frame_def)
    ultimately show ?thesis using c(1-4) True
      by (intro exI [of _ "Return l_Undef"] exI [of _ l] exI [of _ ?st]) (auto simp: s_def [symmetric])
  next
    case False
    then have wb: "withinBudget s" by simp
    obtain b1 st1 where s1: "(if decisionLevel s = 0 then simplify T Q st else Some (True, st)) = Some (b1, st1)"
      "search_frame st st1" "stays s (sol st1)" "trail_lim (sol st1) = trail_lim s"
      "if b1 then good P (sol st1) \<and> qhead (sol st1) = length (trail (sol st1)) else P = {} \<and> base P ((sol st1)\<lparr>ok := True\<rparr>)"
    proof (cases "decisionLevel s = 0")
      case True
      from simplify_keeps [OF g True [unfolded s_def] q, of T Q] obtain b1 st1 where sk: "simplify T Q st = Some (b1, st1) \<and> search_frame st st1 \<and>
        nVars (sol st1) = nVars (sol st) \<and> ana_rest (sol st1) = ana_rest (sol st) \<and> trail_lim (sol st1) = trail_lim (sol st) \<and>
        unat (rsz (region_of (ca (sol st1)))) \<le> unat (rsz (region_of (ca (sol st)))) \<and>
        (if b1 then good P (sol st1) \<and> qhead (sol st1) = length (trail (sol st1)) else P = {} \<and> base P ((sol st1)\<lparr>ok := True\<rparr>))"
        by (elim exE)
      then have "stays s (sol st1)" unfolding s_def by (intro stays_rest) blast+
      with sk show ?thesis using True by (intro that [of b1 st1]) (auto simp: s_def split: if_splits)
    next
      case False
      then show ?thesis using gs qs by (intro that [of True st]) (simp_all add: s_def search_frame_refl stays_refl)
    qed
    have fr: "call_frame st st1" "conflict st1 = conflict st" "cfg st1 = cfg st"
      using s1(2) by (simp_all add: search_frame_def call_frame_def)
    show ?thesis
    proof (cases b1)
      case False
      then have "no_conflict_step T Q nof l st = Some (Return l_False, l, st1)"
        using \<open>\<not> ((0 \<le> nof \<and> nof \<le> int (conflictC l)) \<or> \<not> withinBudget s)\<close> s1(1) by (simp add: unf st0 se cong: conj_cong)
      moreover have "refuted P (conflict st) st1" unfolding refuted_def using s1(5) False fr(2) by auto
      ultimately show ?thesis using s1(3) fr(1)
        by (intro exI [of _ "Return l_False"] exI [of _ l] exI [of _ st1]) (simp add: s_def [symmetric])
    next
      case True
      have g1: "good P (sol st1)" "qhead (sol st1) = length (trail (sol st1))" using s1(5) True by simp_all
      obtain s2 where s2: "(if max_learnts (sol st1) \<le> real (length (learnts (sol st1))) - real (nAssigns (sol st1))
                   then reduceDB (sol st1) else Some (sol st1)) = Some s2" "good P s2" "kept_run (sol st1) s2"
      proof (cases "max_learnts (sol st1) \<le> real (length (learnts (sol st1))) - real (nAssigns (sol st1))")
        case True
        then show ?thesis using reduceDB_keeps [OF g1(1)] that by auto
      next
        case False
        then show ?thesis using that [of "sol st1"] g1 kept_run_refl [of "sol st1"] by simp
      qed
      let ?l = "l\<lparr>last_decision_was_theory := False\<rparr>" and ?st = "st1\<lparr>sol := s2\<rparr>"
      have f2: "qhead s2 = length (trail s2)" "trail_lim s2 = trail_lim (sol st1)" using s2(3) g1(2) by (simp_all add: kept_run_def same_run_def)
      have sy: "stays s s2" using stays_trans [OF s1(3) stays_kept [OF s2(3)]] .
      have e: "decisionLevel s2 = decisionLevel s" "nVars s2 = nVars s" "assumptions s2 = assumptions s"
        using sy f2(2) s1(4) by (simp_all add: decisionLevel_def stays_def)
      have "good P (sol ?st)" "qhead (sol ?st) = length (trail (sol ?st))" "\<not> opt_decide_theories (cfg ?st)"
        using s2(2) f2 nd fr(3) by simp_all
      from decide_step_keeps [OF this, of T Q CRef_Undef ?l] obtain oc st' where
        d: "decide_step T Q CRef_Undef ?l ?st = Some (oc, ?l, st')" "stays s2 (sol st')" "call_frame ?st st'"
        "oc = Goto_propagate \<and> conflict st' = conflict st \<and> good P (sol st') \<and> decisionLevel s < decisionLevel (sol st') \<and>
          decisionLevel (sol st') \<le> nVars s + length (assumptions s) \<or>
         oc = Return l_True \<and> conflict st' = conflict st \<and> solved P (sol st') \<or>
         oc = Return l_False \<and> refuted P (conflict st) st'"
        by (auto simp: fr(2) e)
      have "no_conflict_step T Q nof l st = Some (oc, ?l, st')"
        using False s1(1) True s2(1) d(1) by (simp add: unf st0 se cong: conj_cong)
      moreover have "call_frame st st'" using call_frame_trans [OF fr(1), of st'] d(3) by (simp add: call_frame_def)
      ultimately show ?thesis using d(4) wb stays_trans [OF sy d(2)]
        by (intro exI [of _ oc] exI [of _ ?l] exI [of _ st']) (simp add: s_def [symmetric], blast)
    qed
  qed
qed

end
