(* ===== verification/Search_Total.thy ===== *)
theory Search_Total
  imports Search_Iter
begin

text \<open>
  Total correctness of \<^verbatim>\<open>search\<close> and of the loop of restarts below a conflict budget: every conflict uses the budget
  up, without a conflict the decision level grows, and when no budget is left the level falls.
\<close>

section \<open>The measure\<close>

definition budget_left :: "'h solver \<Rightarrow> nat" where
  "budget_left s = nat (conflict_budget (limits s)) - statistics.conflicts (stats s)"

definition level_cap :: "'h solver \<Rightarrow> nat" where
  "level_cap s = nVars s + length (assumptions s) + 1"

text \<open>How many conflicts are possible before the search returns, and the measure of the search.\<close>

definition reserve :: "'h solver \<Rightarrow> nat" where
  "reserve s = budget_left s + (if 0 < budget_left s then level_cap s else decisionLevel s)"

definition rank :: "'h solver \<Rightarrow> nat" where
  "rank s = budget_left s * (level_cap s + 1) + (if 0 < budget_left s then level_cap s - decisionLevel s else decisionLevel s)"

definition sized :: "'h solver \<Rightarrow> bool" where
  "sized s \<longleftrightarrow> 0 \<le> conflict_budget (limits s) \<and> roomy (Suc (reserve s)) s"

text \<open>What a call of \<^verbatim>\<open>search\<close> leaves alone; \<open>c\<close> conflicts happen.\<close>

definition same_call :: "nat \<Rightarrow> 'h search \<Rightarrow> 'h search \<Rightarrow> bool" where
  "same_call c st st' \<longleftrightarrow> call_frame st st' \<and> nVars (sol st') = nVars (sol st) \<and> limits (sol st') = limits (sol st) \<and>
     assumptions (sol st') = assumptions (sol st) \<and>
     statistics.conflicts (stats (sol st')) = statistics.conflicts (stats (sol st)) + c"

lemma same_call_trans: "same_call c st st' \<Longrightarrow> same_call d st' st'' \<Longrightarrow> same_call (c + d) st st''"
  by (auto simp: same_call_def intro: call_frame_trans)

lemma same_call_stays: "stays (sol st) (sol st') \<Longrightarrow> call_frame st st' \<Longrightarrow> same_call 0 st st'"
  by (simp add: same_call_def stays_def)

definition verdict :: "(Lit \<Rightarrow> bool) set \<Rightarrow> int \<Rightarrow> nat \<Rightarrow> Lit intset \<Rightarrow> lbool \<Rightarrow> 'h search \<Rightarrow> bool" where
  "verdict P nof c i b st \<longleftrightarrow>
     b = l_True \<and> conflict st = i \<and> solved P (sol st) \<or>
     b = l_False \<and> refuted P i st \<or>
     b = l_Undef \<and> conflict st = i \<and> good P (sol st) \<and> decisionLevel (sol st) = 0 \<and> sized (sol st) \<and>
       (withinBudget (sol st) \<longrightarrow> 0 \<le> nof \<and> nof \<le> int c)"

lemma good_level:
  assumes g: "good P s"
  shows "decisionLevel s < level_cap s"
proof -
  have "base P s" "levels_used s" using g by (simp_all add: good_def)
  then show ?thesis using level_bound [OF baseD(2)] trail_length [OF baseD(14)] by (fastforce simp: level_cap_def)
qed

lemma roomy_le: "k \<le> n \<Longrightarrow> roomy n s \<Longrightarrow> roomy k s"
  unfolding roomy_def by (meson add_left_mono le_less_trans mult_le_mono1)

lemma sized_stays:
  assumes st: "stays s s'" and sz: "sized s" and g: "good P s" and g': "good P s'"
    and b: "budget_left s = 0 \<Longrightarrow> decisionLevel s' \<le> decisionLevel s"
  shows "sized s'"
proof -
  have e: "budget_left s' = budget_left s" "level_cap s' = level_cap s" using st by (simp_all add: stays_def budget_left_def level_cap_def)
  have "reserve s' \<le> reserve s" using b by (simp add: reserve_def e)
  moreover have "roomy (Suc (reserve s)) s'" using sz roomy_stays [OF st] by (simp add: sized_def)
  ultimately have "roomy (Suc (reserve s')) s'" using roomy_le by blast
  then show ?thesis using sz st by (simp add: sized_def stays_def)
qed

section \<open>A step\<close>

lemma search_step_total:
  fixes T :: "'h theory_ops" and st :: "'h search"
  assumes g: "good P (sol st)" and sz: "sized (sol st)" and nd: "\<not> opt_decide_theories (cfg st)"
  shows "\<exists>oc l' st' c. search_step T Q nof None l st = Some (oc, l', st') \<and> same_call c st st' \<and> conflictC l' = conflictC l + c \<and>
     (oc = Goto_propagate \<and> conflict st' = conflict st \<and> good P (sol st') \<and> sized (sol st') \<and> rank (sol st') < rank (sol st) \<or>
      (\<exists>b. oc = Return b \<and> verdict P nof (conflictC l') (conflict st) b st'))"
proof -
  define s where "s = sol st"
  have gs: "good P s" and zs: "sized s" using g sz by (simp_all add: s_def)
  from good_propagate [OF gs, of T "\<not> disable_theories (cfg st)"] obtain confl s1 where
    pr: "propagate T (\<not> disable_theories (cfg st)) s = Some (confl, s1)" and
    p: "base P s1" "assumed_ok s1" "levels_used s1" "trail_lim s1 = trail_lim s" "nVars s1 = nVars s" "ana_rest s1 = ana_rest s"
      "region_of (ca s1) = region_of (ca s)" "qhead s1 = length (trail s1)" and
    cf: "if confl = CRef_Undef then queue_done (db s1) s1 \<and> (\<forall>cr \<in> db s1. settled s1 cr)
      else confl \<in> db s1 \<and> (\<forall>l \<in> set (clits s1 confl). isF s1 l)" by blast
  let ?st = "st\<lparr>sol := s1\<rparr>"
  have sy: "stays s s1" using p(5-7) by (simp add: stays_rest)
  have sc: "same_call 0 st ?st" by (rule same_call_stays) (use sy in \<open>simp_all add: s_def\<close>)
  have d1: "decisionLevel s1 = decisionLevel s" by (simp add: decisionLevel_def p(4))
  have e1: "budget_left s1 = budget_left s" "level_cap s1 = level_cap s" "reserve s1 = reserve s" "rank s1 = rank s"
    using sy d1 by (simp_all add: stays_def budget_left_def level_cap_def reserve_def rank_def)
  have z1: "sized s1" using zs sy roomy_stays [OF sy] by (simp add: sized_def e1 stays_def)
  have ok: "ok s1" using baseD(12) [OF p(1)] by (simp add: settings_def)
  have dm: "decisionLevel s < level_cap s" by (rule good_level [OF gs])
  note unf = search_step_def s_def [symmetric] pr
  show ?thesis
  proof (cases "confl = CRef_Undef")
    case False
    have so: "sol ?st = s1" by simp
    have r: "roomy (Suc (reserve s)) s1" using z1 by (simp add: sized_def e1)
    have "base P (sol ?st)" "assumed_ok (sol ?st)" "levels_used (sol ?st)" "confl \<in> db (sol ?st)"
      "\<forall>l \<in> set (clits (sol ?st) confl). isF (sol ?st) l" "roomy (Suc (reserve s)) (sol ?st)"
      using p(1-3) cf False r by simp_all
    from conflict_step_keeps [OF this, of T l] obtain oc st' where
      cs: "conflict_step T confl l ?st = Some (oc, l\<lparr>conflictC := conflictC l + 1\<rparr>, st') \<and> search_frame ?st st' \<and>
        nVars (sol st') = nVars s1 \<and> limits (sol st') = limits s1 \<and> assumptions (sol st') = assumptions s1 \<and>
        statistics.conflicts (stats (sol st')) = Suc (statistics.conflicts (stats s1)) \<and>
        (if decisionLevel s1 = 0 then oc = Return l_False \<and> P = {} \<and> base P (sol st') \<and> roomy (Suc (reserve s)) (sol st')
         else oc = Goto_propagate \<and> good P (sol st') \<and> roomy (reserve s) (sol st') \<and> decisionLevel (sol st') < decisionLevel s1)"
      unfolding so by (elim exE)
    define l' where "l' = l\<lparr>conflictC := conflictC l + 1\<rparr>"
    have st: "search_step T Q nof None l st = Some (oc, l', st')" using cs False by (simp add: unf l'_def)
    have f: "conflict st' = conflict st" "call_frame ?st st'" using cs by (simp_all add: search_frame_def call_frame_def)
    have "same_call 1 ?st st'" using cs f(2) by (simp add: same_call_def)
    then have sc1: "same_call 1 st st'" using same_call_trans [OF sc] by fastforce
    show ?thesis
    proof (cases "decisionLevel s1 = 0")
      case True
      then have c: "oc = Return l_False" "P = {}" "base P (sol st')" using cs by (auto split: if_splits)
      have "(sol st')\<lparr>ok := True\<rparr> = sol st'" using baseD(12) [OF c(3)] by (simp add: settings_def)
      then have "verdict P nof (conflictC l') (conflict st) l_False st'" using c(2,3) f(1) by (simp add: verdict_def refuted_def)
      then show ?thesis using st sc1 c(1)
        by (intro exI [of _ oc] exI [of _ l'] exI [of _ st'] exI [of _ 1]) (simp add: l'_def)
    next
      case dl: False
      define s2 where "s2 = sol st'"
      have c: "oc = Goto_propagate" "good P s2" "roomy (reserve s) s2" "decisionLevel s2 < decisionLevel s1"
        using cs dl by (auto simp: s2_def split: if_splits)
      have b2: "budget_left s2 = budget_left s - 1" "level_cap s2 = level_cap s" "limits s2 = limits s1"
        using cs e1 by (simp_all add: s2_def budget_left_def level_cap_def)
      have d2: "decisionLevel s2 < level_cap s" using c(4) d1 dm by simp
      have rr: "Suc (reserve s2) \<le> reserve s"
        using c(4) d1 dm by (cases "budget_left s"; cases "budget_left s - 1") (auto simp: reserve_def b2)
      have "rank s2 < rank s"
      proof (cases "budget_left s")
        case 0
        then show ?thesis using c(4) d1 by (simp add: rank_def b2)
      next
        case (Suc k)
        then show ?thesis using d2 by (cases k) (auto simp: rank_def b2)
      qed
      moreover have "roomy (Suc (reserve s2)) s2" by (rule roomy_le [OF rr c(3)])
      then have "sized s2" using z1 by (simp add: sized_def b2)
      ultimately show ?thesis using st sc1 c(1,2) f(1)
        by (intro exI [of _ oc] exI [of _ l'] exI [of _ st'] exI [of _ 1]) (simp add: l'_def s2_def [symmetric] s_def [symmetric])
    qed
  next
    case True
    then have g1: "good P s1" using p(1-3) cf by (simp add: good_def)
    have "good P (sol ?st)" "qhead (sol ?st) = length (trail (sol ?st))" "\<not> opt_decide_theories (cfg ?st)" using g1 p(8) nd by simp_all
    from no_conflict_step_keeps [OF this, of T Q nof l] obtain oc l' st' where
      nc: "no_conflict_step T Q nof l ?st = Some (oc, l', st')" "conflictC l' = conflictC l" "stays s1 (sol st')" "call_frame ?st st'" and
      out: "oc = Goto_propagate \<and> conflict st' = conflict st \<and> withinBudget s1 \<and> good P (sol st') \<and>
          decisionLevel s1 < decisionLevel (sol st') \<and> decisionLevel (sol st') \<le> nVars s1 + length (assumptions s1) \<or>
        oc = Return l_True \<and> conflict st' = conflict st \<and> solved P (sol st') \<or>
        oc = Return l_False \<and> refuted P (conflict st) st' \<or>
        oc = Return l_Undef \<and> conflict st' = conflict st \<and> good P (sol st') \<and> decisionLevel (sol st') = 0 \<and>
          (withinBudget (sol st') \<longrightarrow> 0 \<le> nof \<and> nof \<le> int (conflictC l))"
      by auto
    have st: "search_step T Q nof None l st = Some (oc, l', st')" using nc(1) True ok by (simp add: unf)
    have "same_call 0 ?st st'" by (rule same_call_stays) (use nc in simp_all)
    then have sc1: "same_call 0 st st'" using same_call_trans [OF sc] by fastforce
    have e2: "budget_left (sol st') = budget_left s" "level_cap (sol st') = level_cap s"
      using nc(3) e1 by (simp_all add: stays_def budget_left_def level_cap_def)
    consider (go) "oc = Goto_propagate" "conflict st' = conflict st" "withinBudget s1" "good P (sol st')"
        "decisionLevel s1 < decisionLevel (sol st')"
      | (t) "oc = Return l_True" "conflict st' = conflict st" "solved P (sol st')"
      | (f) "oc = Return l_False" "refuted P (conflict st) st'"
      | (u) "oc = Return l_Undef" "conflict st' = conflict st" "good P (sol st')" "decisionLevel (sol st') = 0"
          "withinBudget (sol st') \<longrightarrow> 0 \<le> nof \<and> nof \<le> int (conflictC l)"
      using out by (elim disjE conjE; metis)
    then have "oc = Goto_propagate \<and> conflict st' = conflict st \<and> good P (sol st') \<and> sized (sol st') \<and> rank (sol st') < rank s \<or>
      (\<exists>b. oc = Return b \<and> verdict P nof (conflictC l') (conflict st) b st')"
    proof cases
      case go
      have bl: "0 < budget_left s"
      proof -
        have "0 \<le> conflict_budget (limits s1)" using z1 by (simp add: sized_def)
        then have "0 < budget_left s1" using go(3) by (auto simp: withinBudget_def budget_left_def)
        then show ?thesis by (simp add: e1)
      qed
      have "sized (sol st')" by (rule sized_stays [OF nc(3) z1 g1 go(4)]) (use bl e1 in simp)
      moreover have "rank (sol st') < rank s"
        using bl go(5) d1 good_level [OF go(4)] by (simp add: rank_def e2)
      ultimately show ?thesis using go by simp
    next
      case u
      have "sized (sol st')" by (rule sized_stays [OF nc(3) z1 g1 u(3)]) (use u in simp)
      then show ?thesis using u nc(2) by (simp add: verdict_def)
    qed (simp_all add: verdict_def)
    then show ?thesis using st sc1 nc(2)
      by (intro exI [of _ oc] exI [of _ l'] exI [of _ st'] exI [of _ 0]) (simp add: s_def [symmetric])
  qed
qed

section \<open>The loop of the search\<close>

lemma search_loop_total:
  fixes T :: "'h theory_ops" and st :: "'h search"
  assumes "good P (sol st)" and "sized (sol st)" and "\<not> opt_decide_theories (cfg st)"
  shows "\<exists>b st' c. search_loop T Q nof None l st = Some (b, st') \<and> same_call c st st' \<and>
     verdict P nof (conflictC l + c) (conflict st) b st'"
  using assms
proof (induction "rank (sol st)" arbitrary: st l rule: less_induct)
  case less
  from search_step_total [OF less.prems, of T Q nof l] obtain oc l' st1 c where
    s: "search_step T Q nof None l st = Some (oc, l', st1)" "same_call c st st1" "conflictC l' = conflictC l + c" and
    oc: "oc = Goto_propagate \<and> conflict st1 = conflict st \<and> good P (sol st1) \<and> sized (sol st1) \<and> rank (sol st1) < rank (sol st) \<or>
      (\<exists>b. oc = Return b \<and> verdict P nof (conflictC l') (conflict st) b st1)" by blast
  show ?case
  proof (cases "\<exists>b. oc = Return b \<and> verdict P nof (conflictC l') (conflict st) b st1")
    case True
    then obtain b where b: "oc = Return b" "verdict P nof (conflictC l') (conflict st) b st1" by blast
    have "search_loop T Q nof None l st = Some (b, st1)" by (subst search_loop.simps) (simp add: s(1) b(1))
    then show ?thesis using s(2,3) b(2) by (intro exI [of _ b] exI [of _ st1] exI [of _ c]) simp
  next
    case False
    then have go: "oc = Goto_propagate" "conflict st1 = conflict st" "good P (sol st1)" "sized (sol st1)" "rank (sol st1) < rank (sol st)"
      using oc by blast+
    have "\<not> opt_decide_theories (cfg st1)" using less.prems(3) s(2) by (simp add: same_call_def call_frame_def)
    from less.hyps [OF go(5,3,4) this, of l'] obtain b st' d where
      r: "search_loop T Q nof None l' st1 = Some (b, st')" "same_call d st1 st'" "verdict P nof (conflictC l' + d) (conflict st1) b st'"
      by blast
    have "search_loop T Q nof None l st = Some (b, st')" by (subst search_loop.simps) (simp add: s(1) go(1) r(1))
    then show ?thesis using same_call_trans [OF s(2) r(2)] r(3) s(3) go(2)
      by (intro exI [of _ b] exI [of _ st'] exI [of _ "c + d"]) (simp add: add.assoc)
  qed
qed

lemma search_for_total:
  fixes T :: "'h theory_ops" and st :: "'h search"
  assumes "good P (sol st)" and "sized (sol st)" and "\<not> opt_decide_theories (cfg st)"
  shows "\<exists>b st' c. search_for T Q nof st = Some (b, st') \<and> same_call c st st' \<and> verdict P nof c (conflict st) b st'"
proof -
  let ?l = "\<lparr>conflictC = 0, last_decision_was_theory = False, using_theory_decisions = False, using_theory_vsids = False\<rparr>"
  let ?st = "st\<lparr>sol := sol st, starts := starts st + 1, n_theory_decision_rounds := n_theory_decision_rounds st + of_bool False\<rparr>"
  have "search_for T Q nof st = search_loop T Q nof None ?l ?st" using assms(3) by (simp add: search_for_def)
  moreover have "good P (sol ?st)" "sized (sol ?st)" "\<not> opt_decide_theories (cfg ?st)" "conflict ?st = conflict st" using assms by simp_all
  moreover have "same_call c ?st st' = same_call c st st'" for c st' by (simp add: same_call_def call_frame_def)
  ultimately show ?thesis using search_loop_total [of P ?st T Q nof ?l] by simp
qed

end
