(* ===== verification/Search_Solve.thy ===== *)
theory Search_Solve
  imports Search_Total
begin

text \<open>
  Total correctness of \<^verbatim>\<open>solve_\<close>: below a conflict budget every call returns, with a model of the problem and the
  assumptions, with a clause of negated assumptions that the problem implies, or with \<^verbatim>\<open>l_Undef\<close> when the budget is
  used up, and the solver can be used again.
\<close>

section \<open>Between the searches\<close>

text \<open>Seed, phases and activities have changed.\<close>

definition shuffled :: "'h solver \<Rightarrow> 'h solver \<Rightarrow> bool" where
  "shuffled s s' \<longleftrightarrow> (\<exists>r p a. s' = s\<lparr>random_seed := r, polarity := p, activity := a\<rparr> \<and>
     (0 < random_seed s \<and> random_seed s < 2147483647 \<longrightarrow> 0 < r \<and> r < 2147483647))"

lemma shuffled_refl: "shuffled s s"
  unfolding shuffled_def by (intro exI [of _ "random_seed s"] exI [of _ "polarity s"] exI [of _ "activity s"]) simp

lemma shuffled_trans: "shuffled s s' \<Longrightarrow> shuffled s' s'' \<Longrightarrow> shuffled s s''"
  by (force simp: shuffled_def)

lemma random_phases_shuffled: "shuffled s (random_phases v n s)"
proof (induction v n s rule: random_phases.induct)
  case (2 v n s)
  obtain i r where i: "irand (random_seed s) 1 = (i, r)" by fastforce
  let ?s = "s\<lparr>random_seed := r, polarity := (polarity s)[v := (i \<noteq> 0)]\<rparr>"
  have "shuffled s ?s" unfolding shuffled_def
    using drand_range(2) [of "random_seed s" 1] i
    by (intro exI [of _ r] exI [of _ "(polarity s)[v := (i \<noteq> 0)]"] exI [of _ "activity s"]) simp
  then show ?case using 2 [OF i [symmetric]] shuffled_trans i unfolding random_phases.simps i prod.case by blast
qed (simp add: shuffled_refl)

lemma random_activities_shuffled: "shuffled s (random_activities v n s)"
proof (induction v n s rule: random_activities.induct)
  case (2 v n s)
  obtain d r where d: "drand (random_seed s) = (d, r)" by fastforce
  have nd: "next_drand s = (d, s\<lparr>random_seed := r\<rparr>)" by (simp add: next_drand_def d)
  let ?s = "s\<lparr>random_seed := r\<rparr>" and ?a = "(activity s)[v := d * (1 / 100000)]"
  have "shuffled s (?s\<lparr>activity := ?a\<rparr>)" unfolding shuffled_def
    using drand_range(1) [of "random_seed s"] d
    by (intro exI [of _ r] exI [of _ "polarity s"] exI [of _ ?a]) simp
  then show ?case using 2 [OF nd [symmetric]] shuffled_trans by (simp add: nd)
qed (simp add: shuffled_refl)

lemma shuffled_keeps:
  assumes sh: "shuffled s s'" and g: "good P s"
  shows "good P s'" and "stays s s'" and "decisionLevel s' = decisionLevel s" and "withinBudget s' = withinBudget s"
proof -
  obtain r p a where s': "s' = s\<lparr>random_seed := r, polarity := p, activity := a\<rparr>" and
    r: "0 < random_seed s \<and> random_seed s < 2147483647 \<longrightarrow> 0 < r \<and> r < 2147483647" using sh by (auto simp: shuffled_def)
  have "0 < r \<and> r < 2147483647" using r baseD(12) [of P s] g by (simp add: good_def settings_def)
  then show "good P s'" by (intro base_cong(2) [OF _ _ _ _ _ _ _ _ _ _ _ _ _ _ _ _ _ _ _ _ _ _ g]) (simp_all add: s')
  show "stays s s'" by (simp add: s' stays_def nVars_def)
  show "decisionLevel s' = decisionLevel s" "withinBudget s' = withinBudget s" by (simp_all add: s' decisionLevel_def withinBudget_def)
qed

lemma before_search_shuffled: "\<not> opt_decide_theories c \<Longrightarrow> shuffled s (before_search c s)"
  by (simp add: before_search_def Let_def random_phases_shuffled shuffled_refl)

lemma kept_level: "kept_run s s' \<Longrightarrow> decisionLevel s' = decisionLevel s"
  by (simp add: kept_run_def same_run_def decisionLevel_def)

lemma on_restart_keeps:
  fixes T :: "'h theory_ops" and s :: "'h solver"
  assumes g: "good P s"
  shows "\<exists>s'. on_restart T c s = Some s' \<and> good P s' \<and> stays s s' \<and> decisionLevel s' = decisionLevel s"
proof -
  obtain s1 where s1: "(if opt_rnd_restart c then rebuildOrderHeap (random_activities 0 (nVars s) s) else Some s) = Some s1"
    "good P s1" "stays s s1" "decisionLevel s1 = decisionLevel s"
  proof (cases "opt_rnd_restart c")
    case True
    note sh = shuffled_keeps [OF random_activities_shuffled g, of 0 "nVars s"]
    from rebuildOrderHeap_keeps [OF sh(1)] obtain s1 where "rebuildOrderHeap (random_activities 0 (nVars s) s) = Some s1"
      "good P s1" "kept_run (random_activities 0 (nVars s) s) s1" by blast
    then show ?thesis
      using that [of s1] True stays_trans [OF sh(2) stays_kept [of _ s1]] kept_level [of "random_activities 0 (nVars s) s" s1] sh(3) by simp
  next
    case False
    then show ?thesis using that [of s] g stays_refl [of s] by simp
  qed
  define s2 where "s2 = s1\<lparr>ths := (ths s1)\<lparr>theory_order_heap := heap_clear (theory_order_heap (ths s1))\<rparr>\<rparr>"
  have n0: "n_theories (ths s1) = 0" using baseD(13) [of P s1] s1(2) by (simp add: good_def plain_def)
  have r: "rebuildTheoryOrderHeap T (random_theory_activities T 0 (n_theories (ths s1)) s1) = Some s2"
    by (simp add: rebuildTheoryOrderHeap_def n0 s2_def)
  have k2: "good P s2" "stays s1 s2" "decisionLevel s2 = decisionLevel s1"
    using base_cong(2) [of s2 s1 P] s1(2) by (simp_all add: s2_def stays_def nVars_def decisionLevel_def)
  show ?thesis
  proof (cases "opt_theory_order_vsids c \<and> opt_rnd_theory_restart c")
    case True
    then show ?thesis using s1(1,4) r k2 stays_trans [OF s1(3) k2(2)] by (intro exI [of _ s2]) (simp add: on_restart_def)
  next
    case False
    then show ?thesis using s1 by (intro exI [of _ s1]) (auto simp: on_restart_def)
  qed
qed

section \<open>Restarts\<close>

lemma luby_at_least_1: "1 \<le> y \<Longrightarrow> \<exists>b. luby y n = Some b \<and> 1 \<le> b"
proof -
  assume y: "1 \<le> y"
  from luby_grow_spec [of n 0] obtain k where "luby_grow n 1 0 = (2 ^ Suc k - 1, k)" "n < 2 ^ Suc k - 1" by auto
  then have "luby y n = Some (y ^ (luby_list k ! n))" using luby_shrink_spec [of n k] by (simp add: luby_def)
  then show ?thesis using one_le_power [OF y] by blast
qed

lemma restart_limit:
  assumes "1 \<le> restart_inc c" and "1 \<le> restart_first c"
  shows "\<exists>b. restart_base c n = Some b \<and> 1 \<le> \<lfloor>b * real_of_int (restart_first c)\<rfloor>"
proof -
  obtain b where b: "restart_base c n = Some b" "1 \<le> b"
    using luby_at_least_1 [OF assms(1), of n] one_le_power [OF assms(1), of n] by (cases "luby_restart c") (auto simp: restart_base_def)
  have "1 * 1 \<le> b * real_of_int (restart_first c)" using b(2) assms(2) by (intro mult_mono) simp_all
  then show ?thesis using b(1) by (simp add: le_floor_iff)
qed

text \<open>What the loop of restarts leaves alone, and its results.\<close>

definition same_query :: "'h search \<Rightarrow> 'h search \<Rightarrow> bool" where
  "same_query st st' \<longleftrightarrow> cfg st' = cfg st \<and> quit_at_restart st' = quit_at_restart st \<and> nVars (sol st') = nVars (sol st) \<and>
     assumptions (sol st') = assumptions (sol st)"

lemma same_query_call: "same_call c st st' \<Longrightarrow> same_query st st'"
  by (simp add: same_call_def same_query_def call_frame_def)

lemma same_query_trans: "same_query st st' \<Longrightarrow> same_query st' st'' \<Longrightarrow> same_query st st''"
  by (simp add: same_query_def)

definition outcome_ok :: "(Lit \<Rightarrow> bool) set \<Rightarrow> Lit intset \<Rightarrow> lbool \<Rightarrow> 'h search \<Rightarrow> bool" where
  "outcome_ok P i b st \<longleftrightarrow>
     b = l_True \<and> conflict st = i \<and> solved P (sol st) \<or>
     b = l_False \<and> refuted P i st \<or>
     b = l_Undef \<and> conflict st = i \<and> good P (sol st) \<and> decisionLevel (sol st) = 0 \<and> (withinBudget (sol st) \<longrightarrow> quit_at_restart st)"

lemma lb_verdicts: "lb_eq l_Undef l_Undef" "\<not> lb_eq l_True l_Undef" "\<not> lb_eq l_False l_Undef"
  "lb_eq l_True l_True" "\<not> lb_eq l_False l_True" "\<not> lb_eq l_Undef l_True" "lb_eq l_False l_False" "\<not> lb_eq l_Undef l_False"
  by code_simp+

lemma restart_loop_total:
  fixes T :: "'h theory_ops" and st :: "'h search"
  assumes "good P (sol st)" and "decisionLevel (sol st) = 0" and "sized (sol st)" and "\<not> opt_decide_theories (cfg st)"
    and "1 \<le> restart_inc (cfg st)" and "1 \<le> restart_first (cfg st)"
  shows "\<exists>b st'. restart_loop T Q n st = Some (b, st') \<and> same_query st st' \<and> outcome_ok P (conflict st) b st'"
  using assms
proof (induction "budget_left (sol st)" arbitrary: st n rule: less_induct)
  case less
  obtain b0 where b0: "restart_base (cfg st) n = Some b0" "1 \<le> \<lfloor>b0 * real_of_int (restart_first (cfg st))\<rfloor>"
    using restart_limit [OF less.prems(5,6)] by blast
  let ?nof = "\<lfloor>b0 * real_of_int (restart_first (cfg st))\<rfloor>" and ?st = "st\<lparr>sol := before_search (cfg st) (sol st)\<rparr>"
  note sh = shuffled_keeps [OF before_search_shuffled [OF less.prems(4)] less.prems(1)]
  have g0: "good P (sol ?st)" using sh(1) by simp
  have z0: "sized (sol ?st)" using sized_stays [OF sh(2) less.prems(3,1) sh(1)] sh(3) by simp
  have nd: "\<not> opt_decide_theories (cfg ?st)" using less.prems(4) by simp
  from search_for_total [OF g0 z0 nd, of T Q ?nof] obtain b st1 c where
    r: "search_for T Q ?nof ?st = Some (b, st1)" "same_call c ?st st1" "verdict P ?nof c (conflict st) b st1" by auto
  have sq0: "same_query st ?st" using sh(2) by (simp add: same_query_def stays_def)
  have sq1: "same_query st st1" by (rule same_query_trans [OF sq0 same_query_call [OF r(2)]])
  have e: "cfg st1 = cfg st" "quit_at_restart st1 = quit_at_restart st" using sq1 by (simp_all add: same_query_def)
  have step: "restart_loop T Q n st =
     (if \<not> withinBudget (sol st1) then Some (b, st1)
      else do {
        s2 \<leftarrow> (if lb_eq b l_Undef then on_restart T (cfg st1) (sol st1) else Some (sol st1));
        let st2 = st1\<lparr>sol := s2\<rparr>;
        if quit_at_restart st2 \<and> lb_eq b l_Undef then Some (b, st2\<lparr>override_restart_count := int (Suc n)\<rparr>)
        else let st3 = st2\<lparr>override_restart_count := - 1\<rparr>
             in if lb_eq b l_Undef then restart_loop T Q (Suc n) st3 else Some (b, st3)
      })"
    by (subst restart_loop.simps) (simp add: b0(1) r(1))
  have keep: "outcome_ok P i b' (x\<lparr>override_restart_count := k\<rparr>) = outcome_ok P i b' x"
    "same_query y (x\<lparr>override_restart_count := k\<rparr>) = same_query y x" for i b' k and x y :: "'h search"
    by (simp_all add: outcome_ok_def refuted_def same_query_def)
  show ?case
  proof (cases "withinBudget (sol st1)")
    case False
    then have "outcome_ok P (conflict st) b st1" using r(3) by (auto simp: outcome_ok_def verdict_def)
    then show ?thesis using step False sq1 by auto
  next
    case wb: True
    show ?thesis
    proof (cases "b = l_Undef")
      case False
      then have b: "b = l_True \<or> b = l_False" using r(3) by (auto simp: verdict_def)
      then have "\<not> lb_eq b l_Undef" using lb_verdicts by auto
      then have "restart_loop T Q n st = Some (b, st1\<lparr>override_restart_count := - 1\<rparr>)" using step wb by simp
      moreover have "outcome_ok P (conflict st) b st1" using r(3) False by (auto simp: outcome_ok_def verdict_def)
      ultimately show ?thesis using sq1 by (auto simp: keep)
    next
      case True
      then have v: "conflict st1 = conflict st" "good P (sol st1)" "decisionLevel (sol st1) = 0" "sized (sol st1)" "?nof \<le> int c"
        using r(3) wb by (auto simp: verdict_def l_Undef_def l_True_def l_False_def)
      from on_restart_keeps [OF v(2), of T "cfg st1"] obtain s2 where
        s2: "on_restart T (cfg st1) (sol st1) = Some s2" "good P s2" "stays (sol st1) s2" "decisionLevel s2 = 0" using v(3) by auto
      let ?st2 = "st1\<lparr>sol := s2\<rparr>"
      have sq2: "same_query st ?st2" using sq1 s2(3) by (simp add: same_query_def stays_def)
      have z2: "sized s2" using sized_stays [OF s2(3) v(4,2) s2(2)] s2(4) by simp
      show ?thesis
      proof (cases "quit_at_restart st1")
        case True
        then have "outcome_ok P (conflict st) b ?st2" using \<open>b = l_Undef\<close> s2(2,4) v(1) by (simp add: outcome_ok_def)
        moreover have "restart_loop T Q n st = Some (b, ?st2\<lparr>override_restart_count := int (Suc n)\<rparr>)"
          using step wb s2(1) True \<open>b = l_Undef\<close> lb_verdicts(1) by simp
        ultimately show ?thesis using sq2
          by (intro exI [of _ b] exI [of _ "?st2\<lparr>override_restart_count := int (Suc n)\<rparr>"]) (simp add: keep)
      next
        case False
        let ?st3 = "?st2\<lparr>override_restart_count := - 1\<rparr>"
        have rl: "restart_loop T Q n st = restart_loop T Q (Suc n) ?st3"
          using step wb s2(1) False \<open>b = l_Undef\<close> lb_verdicts(1) by simp
        have "0 < budget_left (sol st1)"
          using wb v(4) by (auto simp: withinBudget_def budget_left_def sized_def)
        moreover have c1: "1 \<le> c" using order_trans [OF b0(2) v(5)] by simp
        ultimately have lt: "budget_left (sol ?st3) < budget_left (sol st)"
          using r(2) sh(2) s2(3) by (simp add: same_call_def stays_def budget_left_def)
        have "good P (sol ?st3)" "decisionLevel (sol ?st3) = 0" "sized (sol ?st3)" "\<not> opt_decide_theories (cfg ?st3)"
          "1 \<le> restart_inc (cfg ?st3)" "1 \<le> restart_first (cfg ?st3)"
          using s2(2,4) z2 less.prems(4-6) e by simp_all
        from less.hyps [OF lt this, of "Suc n"] obtain b' st' where
          ih: "restart_loop T Q (Suc n) ?st3 = Some (b', st')" "same_query ?st3 st'" "outcome_ok P (conflict st) b' st'"
          by (auto simp: v(1))
        have "same_query st ?st3" using sq2 by (simp only: keep)
        then show ?thesis using rl ih same_query_trans by (intro exI [of _ b'] exI [of _ st']) auto
      qed
    qed
  qed
qed

section \<open>Solving\<close>

text \<open>A solver between two calls: the invariant of the search holds, at whatever decision level the last call left it.\<close>

definition ready :: "(Lit \<Rightarrow> bool) set \<Rightarrow> 'h solver \<Rightarrow> bool" where
  "ready P s \<longleftrightarrow> base P s \<and> queue_done (db s) s"

text \<open>What the result of a call means for the problem \<open>P\<close> and the assumptions \<open>as\<close>.\<close>

definition answer_ok :: "(Lit \<Rightarrow> bool) set \<Rightarrow> Lit list \<Rightarrow> lbool \<Rightarrow> 'h search \<Rightarrow> bool" where
  "answer_ok P as b st \<longleftrightarrow>
     b = l_True \<and> (\<exists>M \<in> P. (\<forall>a \<in> set as. M a) \<and> (\<forall>l. lit_ok (nVars (sol st)) l \<longrightarrow> lb_eq (modelValue st l) l_True = M l)) \<or>
     b = l_False \<and> (\<forall>M \<in> P. \<exists>l \<in> set (iset (conflict st)). M l) \<and> set (iset (conflict st)) \<subseteq> neg ` set as \<and>
       (iset (conflict st) = [] \<longleftrightarrow> \<not> ok (sol st)) \<or>
     b = l_Undef \<and> \<not> withinBudget (sol st)"

lemma base_assumptions: "base P s \<Longrightarrow> base P (s\<lparr>assumptions := x\<rparr>)"
proof -
  assume b: "base P s"
  note bd = baseD [OF b]
  let ?s = "s\<lparr>assumptions := x\<rparr>"
  have e: "reason ?s = reason s" "level ?s = level s" "clits ?s = clits s" "db ?s = db s" "decisionLevel ?s = decisionLevel s"
    "nVars ?s = nVars s" "isU ?s = isU s"
    using state_eqs [of ?s s] by (simp_all add: db_def decisionLevel_def)
  have "levels_ok (db s) ?s" "prefix_done (db s) ?s" "no_theory_reasons ?s" "in_order ?s" "problem P ?s" "settings ?s" "heap_full ?s"
    using bd by (simp_all add: levels_ok_def prefix_done_def no_theory_reasons_def in_order_def problem_def settings_def plain_def
        e isTheoryCause_def heap_full_def)
  then show ?thesis using bd(1,5,7-9) solver_inv_cong [of ?s s] by (simp add: base_def e)
qed

lemma ready_assumptions: "ready P s \<Longrightarrow> ready P (s\<lparr>assumptions := x\<rparr>)"
proof -
  assume r: "ready P s"
  have "db (s\<lparr>assumptions := x\<rparr>) = db s" "queue_done (db s) (s\<lparr>assumptions := x\<rparr>) = queue_done (db s) s"
    by (simp add: db_def) (rule solver_inv_cong; simp)
  then show ?thesis using r base_assumptions [of P s x] by (simp add: ready_def decisionLevel_def)
qed

lemma reenqueue_theory_atoms_plain:
  assumes "plain s" and "\<forall>p \<in> set ps. lit_ok (nVars s) p"
  shows "reenqueue_theory_atoms T ps s = s"
  using assms by (induction ps) (simp_all add: plain_hasTheory)

lemma start_solve_keeps:
  fixes T :: "'h theory_ops"
  assumes g: "good P s"
  shows "good P (start_solve T c s)" and "stays s (start_solve T c s)" and "decisionLevel (start_solve T c s) = decisionLevel s"
proof -
  let ?a = "learntsize_adjust_start_confl c"
  define s1 where "s1 = s\<lparr>max_learnts := real (nClauses s) * learntsize_factor c, learntsize_adjust_confl := real_of_int ?a,
                 learntsize_adjust_cnt := ?a, initial_level := 0, track_min_level := 0\<rparr>"
  have i0: "initial_level s = 0" using g baseD(12) [of P s] by (simp add: good_def settings_def)
  have g1: "good P s1" using base_cong(2) [of s1 s P] g i0 by (simp add: s1_def)
  then have "plain s1" "trail_ok s1" using baseD(13,14) by (auto simp: good_def)
  then have "reenqueue_theory_atoms T (take (qhead s1) (trail s1)) s1 = s1"
    using trail_okD(4) by (intro reenqueue_theory_atoms_plain) (auto dest: in_set_takeD)
  then have e: "start_solve T c s = s1" by (simp add: start_solve_def Let_def s1_def)
  show "good P (start_solve T c s)" using g1 by (simp add: e)
  show "stays s (start_solve T c s)" "decisionLevel (start_solve T c s) = decisionLevel s"
    by (simp_all add: e s1_def stays_def nVars_def decisionLevel_def)
qed

lemma iset_of_core:
  assumes "\<forall>a \<in> set as. lit_ok n a" and "set c \<subseteq> neg ` set as" and "iset_wf lix i"
  shows "set (iset (iset_insertAll lix c (iset_clear lix False i))) = set c" and "iset_wf lix (iset_insertAll lix c (iset_clear lix False i))"
proof -
  note c = iset_clear_spec [OF assms(3), of False]
  have "\<forall>l \<in> set c. lit_ok n l" using assms(1,2) by auto
  then have "inj_on lix (set c)" unfolding inj_on_def using lix_inject [of n] by blast
  then show "set (iset (iset_insertAll lix c (iset_clear lix False i))) = set c" "iset_wf lix (iset_insertAll lix c (iset_clear lix False i))"
    using iset_insertAll_spec [of lix "iset_clear lix False i" c] c by (simp_all add: set_add_new)
qed

text \<open>What remains of the invariant once the problem is known to be contradictory: no variable belongs to a theory
  and the levels lie on the trail, so that backtracking is still harmless.\<close>

definition tame :: "'h solver \<Rightarrow> bool" where
  "tame s \<longleftrightarrow> length (theory_vars s) = nVars s \<and> (\<forall>td \<in> set (theory_vars s). td_theory td = 0) \<and>
     (\<forall>p \<in> set (trail s). lit_ok (nVars s) p) \<and> (\<forall>b \<in> set (trail_lim s). b \<le> length (trail s))"

lemma tame_cong: "theory_vars s' = theory_vars s \<Longrightarrow> vardata s' = vardata s \<Longrightarrow> trail s' = trail s \<Longrightarrow>
    trail_lim s' = trail_lim s \<Longrightarrow> tame s' = tame s"
  by (simp add: tame_def nVars_def)

lemma base_tame: "base P s \<Longrightarrow> tame s"
  using baseD(2,13,14) [of P s] by (auto simp: tame_def plain_def levels_ok_def trail_ok_def)

lemma cancelUntil_tame:
  fixes T :: "'h theory_ops"
  assumes t: "tame s"
  shows "tame (cancelUntil T 0 s)" and "ok (cancelUntil T 0 s) = ok s" and "nVars (cancelUntil T 0 s) = nVars s"
proof -
  have "tame (cancelUntil T 0 s) \<and> ok (cancelUntil T 0 s) = ok s \<and> nVars (cancelUntil T 0 s) = nVars s"
  proof (cases "0 < decisionLevel s")
    case True
    then have b: "trail_lim s ! 0 \<le> length (trail s)" using t by (simp add: tame_def decisionLevel_def)
    have l: "\<forall>p \<in> set (trail s). lit_ok (nVars s) p" and c: "calm T s" using t by (simp_all add: tame_def calm_def)
    note f = cancelUntil_fields [OF True b l c]
    have "nVars (cancelUntil T 0 s) = nVars s" "theory_vars (cancelUntil T 0 s) = theory_vars s" "ok (cancelUntil T 0 s) = ok s"
      using f(1) by (simp_all add: cancel_frame_def nVars_def)
    then show ?thesis using t f(2,3) by (auto simp: tame_def dest: in_set_takeD in_set_dropD)
  qed (use t in \<open>simp add: cancelUntil_def\<close>)
  then show "tame (cancelUntil T 0 s)" "ok (cancelUntil T 0 s) = ok s" "nVars (cancelUntil T 0 s) = nVars s" by simp_all
qed

lemma finish_solve_ok:
  fixes Q :: "'h search_ops" and st :: "'h search"
  assumes o: "outcome_ok P i b st" and nq: "\<not> quit_at_restart st" and as: "\<forall>a \<in> set (assumptions (sol st)). lit_ok (nVars (sol st)) a"
    and i: "iset_wf lix i" "iset i = []"
  shows "\<exists>st'. finish_solve Q b st = Some (b, st') \<and> nVars (sol st') = nVars (sol st) \<and> cfg st' = cfg st \<and>
     answer_ok P (assumptions (sol st)) b st' \<and> (ok (sol st') \<longrightarrow> ready P (sol st')) \<and> iset_wf lix (conflict st') \<and>
     \<not> quit_at_restart st' \<and> assumptions (sol st') = [] \<and> (ok (sol st') \<or> P = {} \<and> tame (sol st'))"
proof -
  define s where "s = sol st"
  define fin where "fin = (\<lambda>st' :: 'h search. st'\<lparr>quit_at_restart := False, only_propagate_assumptions := False,
                                     sol := (sol st')\<lparr>assumptions := []\<rparr>\<rparr>)"
  have nv: "nVars (x\<lparr>assumptions := []\<rparr>) = nVars x" "nVars (x\<lparr>ok := k\<rparr>) = nVars x" for x :: "'h solver" and k by (simp_all add: nVars_def)
  have good_ready: "ready P x" "ok x" if "good P x" for x :: "'h solver"
    using that baseD(12) [of P x] by (simp_all add: good_def ready_def settings_def)
  consider (t) "b = l_True" "solved P s" "conflict st = i"
    | (r) "b = l_False" "P = {}" "conflict st = i" "base P (s\<lparr>ok := True\<rparr>)"
    | (c) c where "b = l_False" "c \<noteq> []" "core P (assumptions s) c" "good P s" "conflict st = iset_insertAll lix c (iset_clear lix False i)"
    | (u) "b = l_Undef" "good P s" "\<not> withinBudget s" "conflict st = i"
    using o nq by (auto simp: outcome_ok_def refuted_def s_def)
  then show ?thesis
  proof cases
    case t
    note wf = i(1) [folded t(3)]
    let ?st = "fin (st\<lparr>model := map (value_var s) (map int [0 ..< nVars s])\<rparr>)"
    have sol: "base P s" "queue_done (db s) s" "\<forall>a \<in> set (assumptions s). isT s a" using t(2) by (simp_all add: solved_def)
    have n0: "n_theories (ths s) = 0" using baseD(13) [OF sol(1)] by (simp add: plain_def)
    have f: "finish_solve Q b st = Some (b, ?st)"
      using sol(3) t(1) n0 lb_verdicts by (simp add: finish_solve_def Let_def s_def [symmetric] fin_def)
    from solved_model [OF t(2)] obtain M where M: "M \<in> P" "\<forall>l. lit_ok (nVars s) l \<longrightarrow> M l = isT s l" by blast
    have "lb_eq (modelValue ?st l) l_True = M l" if l: "lit_ok (nVars s) l" for l
    proof -
      have "model ?st ! vix (var l) = value_var s (int (vix (var l)))" using lit_ok_vix [OF l] by (simp add: fin_def)
      then have "modelValue ?st l = lvalue s l" by (simp add: modelValue_def lvalue_def value_var_def vix_def)
      then show ?thesis using M(2) l by (simp add: isT_def)
    qed
    then have "answer_ok P (assumptions s) b ?st"
      using M sol(3) as t(1) by (auto simp: answer_ok_def fin_def nv s_def [symmetric] intro!: bexI [of _ M])
    moreover have "ready P s" "ok s" using sol(1,2) baseD(12) [OF sol(1)] by (simp_all add: ready_def settings_def)
    ultimately show ?thesis using f ready_assumptions [of P s "[]"]
      by (intro exI [of _ ?st]) (simp add: fin_def nv wf s_def [symmetric])
  next
    case r
    note wf = i(1) [folded r(3)]
    let ?st = "fin (st\<lparr>sol := s\<lparr>ok := False\<rparr>\<rparr>)"
    have "finish_solve Q b st = Some (b, ?st)"
      using r i lb_verdicts by (simp add: finish_solve_def Let_def s_def [symmetric] fin_def iset_size_def)
    moreover have "answer_ok P (assumptions s) b ?st" using r i(2) by (simp add: answer_ok_def fin_def)
    moreover have "tame (sol ?st)"
      using base_tame [OF r(4)] tame_cong [of "sol ?st" "s\<lparr>ok := True\<rparr>"] by (simp add: fin_def)
    ultimately show ?thesis using r(2) by (intro exI [of _ ?st]) (simp add: fin_def nv wf s_def [symmetric])
  next
    case c
    have m: "set (iset (conflict st)) = set c" "iset_wf lix (conflict st)" unfolding c(5)
      by (rule iset_of_core [where as = "assumptions s" and n = "nVars s", OF _ _ i(1)];
          use as c(3) in \<open>simp add: core_def s_def [symmetric]\<close>)+
    note wf = m(2)
    have ne: "iset (conflict st) \<noteq> []" using c(2) m(1) by auto
    have "finish_solve Q b st = Some (b, fin st)"
      using ne c(1) lb_verdicts by (simp add: finish_solve_def Let_def s_def [symmetric] fin_def iset_size_def)
    moreover have "ok s" using c(4) baseD(12) [of P s] by (simp add: good_def settings_def)
    then have "answer_ok P (assumptions s) b (fin st)" using c(1,3) m ne by (simp add: answer_ok_def fin_def core_def s_def [symmetric])
    ultimately show ?thesis using ready_assumptions [OF good_ready(1) [OF c(4)], of "[]"] good_ready(2) [OF c(4)]
      by (intro exI [of _ "fin st"]) (simp add: fin_def nv wf s_def [symmetric])
  next
    case u
    note wf = i(1) [folded u(4)]
    have "finish_solve Q b st = Some (b, fin st)" using u(1) lb_verdicts by (simp add: finish_solve_def Let_def s_def [symmetric] fin_def)
    moreover have "answer_ok P (assumptions s) b (fin st)"
      using u(1,3) by (simp add: answer_ok_def fin_def withinBudget_def s_def [symmetric])
    ultimately show ?thesis using ready_assumptions [OF good_ready(1) [OF u(2)], of "[]"] good_ready(2) [OF u(2)]
      by (intro exI [of _ "fin st"]) (simp add: fin_def nv wf s_def [symmetric])
  qed
qed

lemma solve_main_total:
  fixes T :: "'h theory_ops" and Q :: "'h search_ops" and st :: "'h search"
  assumes r: "ready P (sol st)" and as: "\<forall>a \<in> set (assumptions (sol st)). lit_ok (nVars (sol st)) a"
    and wf: "iset_wf lix (conflict st)" and nq: "\<not> quit_at_restart st" and pb: "\<And>x. pb_convert Q x = Some x"
    and bud: "0 \<le> conflict_budget (limits (sol st))"
    and room: "roomy (Suc (budget_left (sol st) + level_cap (sol st))) (sol st)"
    and opts: "\<not> opt_decide_theories (cfg st)" "1 \<le> restart_inc (cfg st)" "1 \<le> restart_first (cfg st)"
  shows "\<exists>b st'. solve_main T Q st = Some (b, st') \<and> nVars (sol st') = nVars (sol st) \<and> cfg st' = cfg st \<and>
     answer_ok P (assumptions (sol st)) b st' \<and> (ok (sol st') \<longrightarrow> ready P (sol st')) \<and> iset_wf lix (conflict st') \<and>
     \<not> quit_at_restart st' \<and> assumptions (sol st') = [] \<and> (ok (sol st') \<or> P = {} \<and> tame (sol st'))"
proof -
  define s where "s = sol st"
  have b: "base P s" and qd: "decisionLevel s = 0 \<Longrightarrow> queue_done (db s) s" using r by (simp_all add: ready_def s_def)
  note c = cancel_root [OF b qd as [folded s_def], where T = T]
  define s1 where "s1 = clearInterrupt (cancelUntil T 0 s)"
  define i where "i = iset_clear lix False (conflict st)"
  have ic: "iset_wf lix i" "iset i = []" using iset_clear_spec [OF wf, of False] by (simp_all add: i_def)
  have g1: "good P s1" using base_cong(2) [of s1 "cancelUntil T 0 s" P] c(1) by (simp add: s1_def clearInterrupt_def)
  have ok1: "ok s1" using g1 baseD(12) [of P s1] by (simp add: good_def settings_def)
  define st2 where "st2 = st\<lparr>model := [], conflict := i, sol := start_solve T (cfg st) s1, solves := Suc (solves st)\<rparr>"
  note sk = start_solve_keeps [OF g1, of T "cfg st"]
  have e: "nVars (sol st2) = nVars s" "assumptions (sol st2) = assumptions s" "budget_left (sol st2) = budget_left s"
    "conflict_budget (limits (sol st2)) = conflict_budget (limits s)" "decisionLevel (sol st2) = 0"
    "unat (rsz (region_of (ca (sol st2)))) \<le> unat (rsz (region_of (ca s)))"
    using c(2,3) sk(2,3) by (simp_all add: st2_def s1_def clearInterrupt_def stays_def budget_left_def nVars_def decisionLevel_def)
  have "reserve (sol st2) \<le> budget_left s + level_cap s" by (simp add: reserve_def e level_cap_def)
  moreover have "roomy (Suc (budget_left s + level_cap s)) (sol st2)" using room e by (simp add: roomy_def s_def [symmetric])
  ultimately have "sized (sol st2)" using bud roomy_le [of "Suc (reserve (sol st2))" "Suc (budget_left s + level_cap s)" "sol st2"]
    by (simp add: sized_def e s_def [symmetric])
  moreover have "good P (sol st2)" using sk(1) by (simp add: st2_def)
  moreover have "\<not> opt_decide_theories (cfg st2)" "1 \<le> restart_inc (cfg st2)" "1 \<le> restart_first (cfg st2)" using opts by (simp_all add: st2_def)
  ultimately obtain b st3 where
    rl: "restart_loop T Q 0 st2 = Some (b, st3)" "same_query st2 st3" "outcome_ok P i b st3"
    using restart_loop_total [of P st2 T Q 0] e(5) by (auto simp: st2_def)
  have q3: "\<not> quit_at_restart st3" "nVars (sol st3) = nVars s" "assumptions (sol st3) = assumptions s" "cfg st3 = cfg st"
    using rl(2) nq e by (simp_all add: same_query_def) (simp_all add: st2_def)
  have "\<forall>a \<in> set (assumptions (sol st3)). lit_ok (nVars (sol st3)) a" using as by (simp add: q3 s_def)
  from finish_solve_ok [OF rl(3) q3(1) this ic, of Q] obtain st' where
    f: "finish_solve Q b st3 = Some (b, st')" "nVars (sol st') = nVars s" "cfg st' = cfg st"
      "answer_ok P (assumptions s) b st'" "ok (sol st') \<longrightarrow> ready P (sol st')" "iset_wf lix (conflict st')"
      "\<not> quit_at_restart st'" "assumptions (sol st') = []" "ok (sol st') \<or> P = {} \<and> tame (sol st')"
    by (auto simp: q3)
  have "solve_main T Q st = Some (b, st')"
    using ok1 nq rl(1) f(1) pb
    by (simp add: solve_main_def Let_def s_def [symmetric] s1_def [symmetric] i_def [symmetric]) (simp add: st2_def)
  then show ?thesis using f(2-9) by (simp add: s_def [symmetric])
qed

end
