(* ===== verification/Search_Session.thy ===== *)
theory Search_Session
  imports Search_Solve
begin

text \<open>
  Incremental use: a solver that starts empty, gets variables and clauses and is asked for solutions in any order is
  always in a state from which the next call is right.
\<close>

section \<open>Adding variables\<close>

lemma insertVarOrder_upd: "insertVarOrder x s = s\<lparr>order_heap := order_heap (insertVarOrder x s)\<rparr>"
  by (auto simp: insertVarOrder_def heap_insert_var_def split: option.split)

lemma newVar_ready:
  fixes s :: "'h solver" and sg :: bool
  assumes g: "ready P s" and fr: "free_vars s = []" and od: "\<not> outside_decisions s (int (nVars s))" and n: "Suc (nVars s) < 2 ^ 26"
  defines "s' \<equiv> snd (newVar sg True s)"
  shows "ready P s'" and "nVars s' = Suc (nVars s)" and "trail_lim s' = trail_lim s" and "limits s' = limits s"
    and "assumptions s' = assumptions s" and "free_vars s' = []" and "outside_decisions s' = outside_decisions s"
    and "region_of (ca s') = region_of (ca s)" and "statistics.conflicts (stats s') = statistics.conflicts (stats s)"
proof -
  have b: "base P s" and qd: "queue_done (db s) s" using g by (simp_all add: ready_def)
  note bd = baseD [OF b]
  let ?n = "nVars s" and ?v = "int (nVars s)"
  have st: "0 < random_seed s" "random_seed s < 2147483647" "length (theory_vars s) = ?n" "seen s = replicate ?n False"
    "\<forall>v < ?n. decision s ! v" using bd(12,13) by (simp_all add: settings_def plain_def)
  have la: "length (assigns s) = ?n" using bd(14) by (simp add: trail_ok_def)
  obtain a sd1 where a: "initial_activity (push_var s) = (a, sd1)" by fastforce
  obtain pol sd2 where p: "initial_polarity (push_var s) sg sd1 = (pol, sd2)" by fastforce
  have "0 < sd1 \<and> sd1 < 2147483647"
    using a drand_range(1) [of "random_seed s"] st(1,2) by (auto simp: initial_activity_def push_var_def split: if_splits prod.splits)
  then have sd: "0 < sd2 \<and> sd2 < 2147483647"
    using p drand_range(2) [of sd1 1] by (auto simp: initial_polarity_def split: if_splits prod.splits)
  have od': "\<not> outside_decisions (push_var s) ?v" using od by (simp add: outside_decisions_def push_var_def)
  define t where "t = (reset_var ?v a pol sd2 (push_var s))"
  define d where "d = decision t ! vix ?v"
  define u where "u = t\<lparr>stats := (stats t)\<lparr>dec_vars := if \<not> d then dec_vars (stats t) + 1 else dec_vars (stats t)\<rparr>,
    decision := (decision t)[vix ?v := True]\<rparr>"
  have s': "s' = insertVarOrder ?v u"
    using fr a p od' by (simp add: s'_def newVar_def pick_var_def t_def [symmetric] setDecisionVar_def d_def [symmetric] Let_def u_def)
  define h where "h = order_heap s'"
  have s'h: "s' = u\<lparr>order_heap := h\<rparr>" using insertVarOrder_upd [of ?v u] by (simp add: s' h_def)
  have vn: "vix (int k) = k" for k by (simp add: vix_def)
  have f: "trail s' = trail s" "qhead s' = qhead s" "ca s' = ca s" "assigns s' = assigns s @ [l_Undef]"
    "vardata s' = vardata s @ [\<lparr>vreason = CRef_Undef, vlevel = 0\<rparr>]" "watches s' = init_watches ?v (watches s)"
    "clauses s' = clauses s" "learnts s' = learnts s" "trail_lim s' = trail_lim s" "ok s' = ok s" "random_seed s' = sd2"
    "theory_vars s' = theory_vars s @ [\<lparr>td_theory = 0, td_theory_var = 0\<rparr>]" "ths s' = ths s" "released_vars s' = released_vars s"
    "tmp_clause s' = tmp_clause s" "clauses_to_add s' = clauses_to_add s" "initial_level s' = initial_level s" "limits s' = limits s"
    "seen s' = seen s @ [False]" "assumptions s' = assumptions s" "free_vars s' = []" "min_decision_var s' = min_decision_var s"
    "max_decision_var s' = max_decision_var s" "statistics.conflicts (stats s') = statistics.conflicts (stats s)"
    using la st(3,4) fr by (simp_all add: s'h u_def t_def reset_var_def push_var_def vn nVars_def list_update_append)
  have ld: "length (decision s) = ?n" using bd(12) by (simp add: settings_def)
  have dec: "decision s' = decision s @ [True]" by (simp add: s'h u_def t_def reset_var_def push_var_def vn ld list_update_append)
  note ns = newVar_step [OF bd(1) qd f(1-6)]
  show nv: "nVars s' = Suc ?n" by (rule ns(3))
  have cl: "clits s' = clits s" using f(3) by (rule state_eqs(7))
  have db': "db s' = db s" by (simp add: db_def f)
  have dl: "decisionLevel s' = decisionLevel s" by (simp add: decisionLevel_def f)
  have lv: "level s' x = level s x" "reason s' x = reason s x" if "vix x < ?n" for x
    using that by (simp_all add: level_def reason_def f nVars_def nth_append)
  have tl: "vix (var q) < ?n" if "q \<in> set (trail s)" for q using lit_ok_vix [OF trail_okD(4) [OF bd(14) that]] .
  have cvl: "vix (var l) < ?n" if "r \<in> db s" "l \<in> set (clits s r)" for r l using bd(18) [OF that(1)] that(2) lit_ok_vix by blast
  have lt: "level s' (var q) = level s (var q)" "reason s' (var q) = reason s (var q)" if "q \<in> set (trail s)" for q
    using lv tl [OF that] by simp_all
  have lk: "level s' (var (trail s ! k)) = level s (var (trail s ! k))" "reason s' (var (trail s ! k)) = reason s (var (trail s ! k))"
    if "k < length (trail s)" for k using lt nth_mem [OF that] by simp_all
  have lc: "level s' (var l) = level s (var l)" if "r \<in> db s" "l \<in> set (clits s r)" for r l using lv(1) cvl [OF that] .
  have lo: "levels_ok (db s) s'"
    using bd(2) unfolding levels_ok_def f dl cl by (simp add: lk) (metis in_set_takeD lc lt)
  have pd: "prefix_done (db s) s'" using bd(3) by (simp add: prefix_done_def f dl cl)
  have nt: "no_theory_reasons s'" using bd(4) lt(2) by (simp add: no_theory_reasons_def f isTheoryCause_def)
  have io: "in_order s'" using bd(6) lt(1) in_set_dropD unfolding in_order_def f dl by fastforce
  have pr: "problem P s'" using bd(11) lt(1) by (simp add: problem_def f cl)
  have sts: "settings s'" using bd(12,13) sd n by (simp add: settings_def plain_def f nv dec nth_append less_Suc_eq replicate_append_same)
  have ol: "idx_ok (heap (order_heap u)) (indices (order_heap u))" "elems (order_heap u) \<subseteq> {..< ?n}"
    "?n \<le> length (indices (order_heap u))" "order_heap u = order_heap s" "decision u ! vix ?v"
    using bd(10) dec by (simp_all add: heap_full_def u_def t_def reset_var_def push_var_def vn ld)
  have nh: "\<not> inHeap (vix ?v) (order_heap u)" using var_heap.inHeap_elems [OF ol(1), of "vix ?v"] ol(2) by (auto simp: vn)
  have "vix ?v \<notin> elems (order_heap u)" using ol(2) by (auto simp: vn)
  from var_heap.insert_struct [OF ol(1) this, of "activity u" "priority u"] obtain h' where
    h': "heap_insert (varOrderLt (activity u) (priority u)) (vix ?v) (order_heap u) = Some h'" "idx_ok (heap h') (indices h')"
      "elems h' = insert ?n (elems (order_heap s))" by (auto simp: vn ol(4))
  have oh: "order_heap s' = h'" using nh ol(5) h'(1) by (simp add: s' insertVarOrder_def heap_insert_var_def)
  have "?n < length (indices h')" using idx_ok_bound [OF h'(2), of ?n] h'(3) by (auto simp: elems_def)
  moreover have "isU s' (mkLit (int v) False) \<longrightarrow> v = ?n \<or> v \<in> elems (order_heap s)" if "v < Suc ?n" for v
    using that bd(10) la by (auto simp: heap_full_def isU_alt f vix_def nth_append less_Suc_eq)
  ultimately have hf: "heap_full s'" using h'(2,3) ol(2,4) by (fastforce simp: heap_full_def nv oh)
  have b': "base P s'" using ns(1) lo pd nt bd(5,7-9) io hf pr sts by (simp add: base_def db' f)
  then show "ready P s'" using ns(2) by (simp add: ready_def db')
  show "trail_lim s' = trail_lim s" "limits s' = limits s" "assumptions s' = assumptions s" "free_vars s' = []"
    "outside_decisions s' = outside_decisions s" "region_of (ca s') = region_of (ca s)"
    "statistics.conflicts (stats s') = statistics.conflicts (stats s)"
    using f by (simp_all add: outside_decisions_def fun_eq_iff)
qed

section \<open>Adding clauses\<close>

text \<open>At the root the models of the solver are the models of the problem.\<close>

lemma models_root:
  assumes b: "base P s" and d: "decisionLevel s = 0"
  shows "models s = P"
proof -
  have "level s (var p) = 0" if "p \<in> set (trail s)" for p using levels_okD(3) [OF baseD(2) [OF b] that] d by simp
  then show ?thesis using problem_root [OF baseD(11) [OF b]] by (auto simp: models_def root_model_def)
qed

lemma addClause_good:
  fixes T :: "'h theory_ops" and s :: "'h solver"
  assumes g: "good P s" and d: "decisionLevel s = 0" and ps: "\<forall>l \<in> set ps. lit_ok (nVars s) l" and len: "length ps < 2 ^ 26"
    and room: "unat (rsz (region_of (ca s))) + length ps + 2 < 2643056797"
  shows "\<exists>b s'. addClause_ok T der ps s = Some (b, s') \<and> ok s' = b \<and> nVars s' = nVars s \<and> ana_rest s' = ana_rest s \<and>
     decisionLevel s' = 0 \<and> unat (rsz (region_of (ca s'))) \<le> unat (rsz (region_of (ca s))) + length ps + 2 \<and>
     (if b then good (P \<inter> clause_models ps) s' else P \<inter> clause_models ps = {} \<and> tame s')"
proof -
  define s1 where "s1 = resetInitialPropagation s"
  have f: "nVars s1 = nVars s" "ana_rest s1 = ana_rest s" "ca s1 = ca s" "trail_lim s1 = trail_lim s"
    by (simp_all add: s1_def resetInitialPropagation_def ana_rest_def nVars_def)
  have g1: "good P s1" using base_cong(2) [of s1 s P] g by (simp add: s1_def resetInitialPropagation_def)
  have b: "base P s1" and qd: "queue_done (db s1) s1" and ao: "assumed_ok s1" and lu: "levels_used s1" using g1 by (simp_all add: good_def)
  note bd = baseD [OF b]
  have ok: "ok s" "ok s1" using baseD(12) [of P s] bd(12) g by (simp_all add: good_def settings_def)
  have d1: "decisionLevel s1 = 0" using d f(4) by (simp add: decisionLevel_def)
  have dl: "decisionLevel x = 0" if "trail_lim x = trail_lim s1" for x :: "'h solver" using d1 that by (simp add: decisionLevel_def)
  have m1: "models s1 = P" by (rule models_root [OF b d1])
  note tok = bd(14)
  from lit_order.sort_array_spec [of ps] obtain qs where qs: "sort_array lit_less ps = Some qs" "mset qs = mset ps"
    "sorted (map lx qs)" by (auto simp: lit_less_def sorted_wrt_map not_less)
  have set: "set qs = set ps" and lq: "length qs = length ps" using qs(2) mset_eq_setD mset_eq_length by blast+
  have okps: "\<forall>l \<in> set ps. lit_ok (nVars s1) l" using ps f(1) by simp
  then have okq: "\<forall>l \<in> set qs. lit_ok (nVars s1) l" using set by simp
  have pos: "0 \<le> lx q" "q \<noteq> lit_Undef" "q \<noteq> neg lit_Undef" if "q \<in> set qs" for q
    using okq that neg_lit_Undef by (auto simp: lit_ok_def lit_Undef_def)
  have ad: "addClause_ok T der ps s = (case norm_loop (isT s1) (isF s1) lit_Undef qs of
          None \<Rightarrow> Some (True, s1)
        | Some ps \<Rightarrow>
            if length ps = 0 then Some (False, s1\<lparr>ok := False\<rparr>)
            else if length ps = 1
            then do {
              (confl, s2) \<leftarrow> propagate T False (uncheckedEnqueue T (ps ! 0) CRef_Undef s1);
              Some (confl = CRef_Undef, s2\<lparr>ok := (confl = CRef_Undef)\<rparr>)
            }
            else do {
              (cr, s2) \<leftarrow> alloc_clause ps False s1;
              Some (True, stored False der cr s2)
            })"
    using ok(1) qs(1) by (simp add: addClause_ok_def s1_def [symmetric] stored_def split: option.split)
  show ?thesis
  proof (cases "norm_loop (isT s1) (isF s1) lit_Undef qs")
    case None
    from norm_loop_None [OF None] have "P \<subseteq> clause_models ps"
      using norm_true [OF tok, of ps] okq pos set m1 by auto
    then have "P \<inter> clause_models ps = P" by blast
    then show ?thesis using g1 f(1-3) ok(2) ad None dl [of s1] by (intro exI [of _ True] exI [of _ s1]) simp
  next
    case (Some rs)
    have "\<forall>q \<in> set qs. lx lit_Undef \<le> lx q" using pos(1) by (fastforce simp: lit_Undef_def)
    note n = norm_loop_Some [OF Some qs(3) this]
    have rs: "set rs = {q \<in> set ps. \<not> isF s1 q}" "distinct rs" "\<forall>q \<in> set rs. \<not> isT s1 q" "length rs \<le> length ps"
      using n pos(2) set lq by auto
    have mods: "P \<inter> clause_models ps = P \<inter> clause_models rs" using norm_models [OF tok okps rs(1)] m1 by simp
    have U: "isU s1 q" if "q \<in> set rs" for q using rs(1,3) okps trail_okD(3) [OF tok, of q] that by auto
    consider "rs = []" | q where "rs = [q]" | "2 \<le> length rs" by (cases rs; cases "tl rs") auto
    then show ?thesis
    proof cases
      case 1
      moreover have "tame (s1\<lparr>ok := False\<rparr>)" using base_tame [OF b] tame_cong [of "s1\<lparr>ok := False\<rparr>" s1] by simp
      ultimately show ?thesis using mods Some ad f(1-3) dl [of "s1\<lparr>ok := False\<rparr>"]
        by (intro exI [of _ False] exI [of _ "s1\<lparr>ok := False\<rparr>"]) (simp add: clause_models_def nVars_def ana_rest_def)
    next
      case (2 q)
      have q: "lit_ok (nVars s1) q" "isU s1 q" using 2 rs(1) okps U by auto
      have qd': "queue_done (db s1 - {CRef_Undef}) s1" using qd bd(20) by simp
      note u = base_enqueue_gen [OF b qd' q, where T = T]
      let ?s2 = "uncheckedEnqueue T q CRef_Undef s1"
      have P2: "(if decisionLevel s1 = 0 then P \<inter> {M. M q} else P) = P \<inter> clause_models rs" using d1 2 by (auto simp: clause_models_def)
      have g2: "good (P \<inter> clause_models rs) ?s2" and e2: "nVars ?s2 = nVars s1" "ana_rest ?s2 = ana_rest s1" "ca ?s2 = ca s1"
        "trail_lim ?s2 = trail_lim s1"
        using u(1) [unfolded P2] u(3,5-8,11,12) bd(20) d1 lu ao by (simp_all add: good_def)
      from good_propagate [OF g2, of T False] obtain confl s3 where
        pr: "propagate T False ?s2 = Some (confl, s3)" and p: "base (P \<inter> clause_models rs) s3" "assumed_ok s3" "levels_used s3"
          "trail_lim s3 = trail_lim ?s2" "nVars s3 = nVars ?s2" "ana_rest s3 = ana_rest ?s2" "region_of (ca s3) = region_of (ca ?s2)" and
        c: "if confl = CRef_Undef then queue_done (db s3) s3 \<and> (\<forall>cr \<in> db s3. settled s3 cr)
            else confl \<in> db s3 \<and> (\<forall>l \<in> set (clits s3 confl). isF s3 l)" by blast
      let ?s' = "s3\<lparr>ok := (confl = CRef_Undef)\<rparr>"
      have tm: "tame ?s'" using base_tame [OF p(1)] tame_cong [of ?s' s3] by simp
      have "if confl = CRef_Undef then good (P \<inter> clause_models ps) ?s' else P \<inter> clause_models ps = {} \<and> tame ?s'"
      proof (cases "confl = CRef_Undef")
        case True
        have "s3\<lparr>ok := True\<rparr> = s3" using baseD(12) [OF p(1)] by (simp add: settings_def)
        then show ?thesis using p(1-3) c True by (simp add: good_def mods)
      next
        case False
        have "decisionLevel s3 = 0" using d1 p(4) e2(4) by (simp add: decisionLevel_def)
        then show ?thesis using conflict_at_root [OF p(1), of confl] c False tm by (simp add: mods)
      qed
      moreover have "addClause_ok T der ps s = Some (confl = CRef_Undef, ?s')" using Some 2 ad pr by simp
      moreover have "decisionLevel ?s' = 0" using dl [of ?s'] p(4) e2(4) by simp
      ultimately show ?thesis using p(5-7) e2 f(1-3)
        by (intro exI [of _ "confl = CRef_Undef"] exI [of _ ?s']) (simp add: nVars_def ana_rest_def)
    next
      case 3
      have l: "\<forall>q \<in> set rs. lit_ok (nVars s1) q" using rs(1) okps by auto
      have lr: "length rs < 2 ^ 26" "unat (rsz (region_of (ca s1))) + length rs + 2 < 2643056797" using rs(4) len room f(3) by simp_all
      have z: "0 < decisionLevel s1 \<longrightarrow> isU s1 (rs ! 0) \<and> level s1 (var (rs ! 1)) = decisionLevel s1"
        "False \<longrightarrow> (\<forall>M \<in> P. \<exists>l \<in> set rs. M l)" using d1 by simp_all
      from base_store_gen [where lrn = False and der = der, OF b qd 3 rs(2) l lr(1) z lr(2)] obtain cr s2 where
        al: "alloc_clause rs False s1 = Some (cr, s2)" and
        st: "base (P \<inter> {M. \<exists>l \<in> set rs. M l}) (stored False der cr s2)" "ok (stored False der cr s2) = ok s1"
          "qhead (stored False der cr s2) = qhead s1" "cr \<in> db (stored False der cr s2)" "db (stored False der cr s2) - {cr} = db s1"
          "queue_done (db (stored False der cr s2) - {cr}) (stored False der cr s2)" "clits (stored False der cr s2) cr = rs"
          "assigns (stored False der cr s2) = assigns s1" "vardata (stored False der cr s2) = vardata s1"
          "trail (stored False der cr s2) = trail s1" "trail_lim (stored False der cr s2) = trail_lim s1"
          "ana_rest (stored False der cr s2) = ana_rest s1"
          "unat (rsz (region_of (ca (stored False der cr s2)))) \<le> unat (rsz (region_of (ca s1))) + length rs + 2"
        unfolding Let_def if_False by (elim exE conjE)
      define s3 where "s3 = stored False der cr s2"
      note st3 = st [folded s3_def]
      have e: "nVars s3 = nVars s1" "reason s3 = reason s1" "level s3 = level s1" using st3(9) state_eqs by blast+
      have "same_run s1 s3" using st3 e by (simp add: same_run_def ana_rest_def)
      then have k: "assumed_ok s3" "levels_used s3" using same_run_keeps(1,2) ao lu by blast+
      have nw: "q \<notin> set (trail s1)" if "watched rs q" for q
      proof
        assume q: "q \<in> set (trail s1)"
        have "neg q \<in> set rs" using watched_mem [OF 3 that] .
        then show False using U trail_okD(1) [OF tok, of q] q l isU_not isF_neg [of s1 q] trail_okD(4) [OF tok q] by (metis isT_neg isU_neg)
      qed
      have "queue_done (db s3) s3"
        using st3(6) nw in_set_takeD unfolding queue_done_def processed_def st3(3,10) by (metis Diff_iff singletonD st3(7))
      moreover have "P \<inter> {M. \<exists>l \<in> set rs. M l} = P \<inter> clause_models ps" using mods by (simp add: clause_models_def)
      ultimately have "good (P \<inter> clause_models ps) s3" using st3(1) k by (simp add: good_def)
      moreover have "rs \<noteq> []" "length rs \<noteq> 1" using 3 by auto
      then have "addClause_ok T der ps s = Some (True, s3)" using Some ad al by (simp add: s3_def)
      ultimately show ?thesis using st3(2,12,13) e(1) ok(2) f(1-3) rs(4) dl [OF st3(11)] by (intro exI [of _ True] exI [of _ s3]) simp
    qed
  qed
qed

section \<open>Sessions\<close>

text \<open>The calls of a client; \<open>P\<close> are the models of the clauses added so far.\<close>

definition solvable :: "'h search_ops \<Rightarrow> Lit list \<Rightarrow> 'h search \<Rightarrow> bool" where
  "solvable Q as st \<longleftrightarrow>
     (\<forall>a \<in> set as. lit_ok (nVars (sol st)) a) \<and> 0 \<le> conflict_budget (limits (sol st)) \<and>
     roomy (Suc (budget_left (sol st) + (nVars (sol st) + length as + 1))) (sol st) \<and>
     \<not> opt_decide_theories (cfg st) \<and> 1 \<le> restart_inc (cfg st) \<and> 1 \<le> restart_first (cfg st) \<and> (\<forall>s. pb_convert Q s = Some s)"

definition addable :: "Lit list \<Rightarrow> 'h search \<Rightarrow> bool" where
  "addable ps st \<longleftrightarrow> (\<forall>l \<in> set ps. lit_ok (nVars (sol st)) l) \<and> length ps < 2 ^ 26 \<and>
     unat (rsz (region_of (ca (sol st)))) + length ps + 2 < 2643056797"

inductive session :: "'h theory_ops \<Rightarrow> 'h search_ops \<Rightarrow> (Lit \<Rightarrow> bool) set \<Rightarrow> 'h search \<Rightarrow> bool" for T Q where
  start: "region_new 1048576 m = Some (Inr r) \<Longrightarrow> \<forall>n. m n \<Longrightarrow> sol st = solver_new c r seed h \<Longrightarrow> 0 < seed \<Longrightarrow> seed < 2147483647 \<Longrightarrow>
    conflict st = iset_empty \<Longrightarrow> \<not> quit_at_restart st \<Longrightarrow> session T Q {M. lit_model M} st"
| variable: "session T Q P st \<Longrightarrow> free_vars (sol st) = [] \<Longrightarrow> \<not> outside_decisions (sol st) (int (nVars (sol st))) \<Longrightarrow>
    Suc (nVars (sol st)) < 2 ^ 26 \<Longrightarrow> session T Q P (st\<lparr>sol := snd (newVar sg True (sol st))\<rparr>)"
| clause: "session T Q P st \<Longrightarrow> addable ps st \<Longrightarrow> addClause T ps (sol st) = Some (b, s') \<Longrightarrow>
    session T Q (P \<inter> clause_models ps) (st\<lparr>sol := s'\<rparr>)"
| budget: "session T Q P st \<Longrightarrow> session T Q P (st\<lparr>sol := setConfBudget x (sol st)\<rparr>)"
| solve: "session T Q P st \<Longrightarrow> solvable Q as st \<Longrightarrow> solveLimited T Q as st = Some (b, st') \<Longrightarrow> session T Q P st'"

text \<open>What holds between the calls.\<close>

definition between :: "(Lit \<Rightarrow> bool) set \<Rightarrow> 'h search \<Rightarrow> bool" where
  "between P st \<longleftrightarrow> (if ok (sol st) then ready P (sol st) \<and> assumptions (sol st) = [] else P = {} \<and> tame (sol st)) \<and>
     iset_wf lix (conflict st) \<and> \<not> quit_at_restart st"

lemma region_new_wf:
  assumes "region_new n m = Some (Inr r)" and "\<forall>c. m c" and "unat n \<le> 2643056797"
  shows "region_wf r" and "even (unat (rcap r))" and "rsz r = 0" and "rwasted r = 0"
proof -
  from capacity_loop_ok [of 0 0 n] assms(3) obtain c where c: "capacity_loop 0 n 0 = Some (Inr c)" "even (unat c)" by auto
  have "r = \<lparr>rsz = 0, rcap = 0, rwasted = 0, rmem = m\<rparr> \<or> r = \<lparr>rsz = 0, rcap = c, rwasted = 0, rmem = m\<rparr>"
    using assms(1,2) c(1) by (auto simp: region_new_def region_capacity_def split: if_splits)
  then show "region_wf r" "even (unat (rcap r))" "rsz r = 0" "rwasted r = 0" using assms(2) c(2) by (auto simp: region_wf_def)
qed

lemma ready_new:
  assumes "0 < seed" and "seed < 2147483647" and "region_new 1048576 m = Some (Inr r)" and "\<forall>n. m n"
  shows "ready {M. lit_model M} (solver_new c r seed h)"
proof -
  let ?s = "solver_new c r seed h"
  have r: "region_wf r" "even (unat (rcap r))" "rsz r = 0" "rwasted r = 0" using region_new_wf [OF assms(3,4)] by simp_all
  have d: "db ?s = {}" "nVars ?s = 0" by (simp_all add: solver_new_def db_def nVars_def)
  have wf: "allocator_wf (ca ?s)" using r by (simp add: solver_new_def allocator_wf_def)
  then have "arena_ok {} (ca ?s)" using r by (simp add: arena_ok_def) (simp add: solver_new_def)
  moreover have "levels_ok {} ?s" "prefix_done {} ?s" "no_theory_reasons ?s" "in_order ?s" "distinct (clauses ?s @ learnts ?s)"
    by (simp_all add: levels_ok_def prefix_done_def no_theory_reasons_def in_order_def solver_new_def decisionLevel_def)
  moreover have "heap_full ?s" by (simp add: heap_full_def d) (simp add: solver_new_def heap_empty_def idx_ok_def elems_def)
  moreover have "problem {M. lit_model M} ?s" by (simp add: problem_def) (simp add: solver_new_def)
  moreover have "settings ?s" by (simp add: settings_def plain_def d) (simp add: solver_new_def assms)
  ultimately show ?thesis using solver_inv_new [of c r seed h] by (simp add: ready_def base_def d)
qed

lemma ready_ok: "ready P s \<Longrightarrow> ok s"
  using baseD(12) [of P s] by (simp add: ready_def settings_def)

lemma add_between:
  fixes T :: "'h theory_ops" and st :: "'h search"
  assumes bt: "between P st" and ad: "addable ps st"
  shows "\<exists>b s'. addClause T ps (sol st) = Some (b, s') \<and> between (P \<inter> clause_models ps) (st\<lparr>sol := s'\<rparr>) \<and> (ok (sol st) \<longrightarrow>
     nVars s' = nVars (sol st) \<and> limits s' = limits (sol st) \<and>
     unat (rsz (region_of (ca s'))) \<le> unat (rsz (region_of (ca (sol st)))) + length ps + 2 \<and>
     statistics.conflicts (stats s') = statistics.conflicts (stats (sol st)) \<and> decisionLevel s' = 0)"
proof (cases "ok (sol st)")
  case False
  then have "tame (sol st)" using bt by (simp add: between_def)
  note t = cancelUntil_tame [OF this, of T]
  have "addClause T ps (sol st) = Some (False, cancelUntil T 0 (sol st))" using False t(2) by (simp add: addClause_def addClause_ok_def)
  then show ?thesis using bt False t(1,2)
    by (intro exI [of _ False] exI [of _ "cancelUntil T 0 (sol st)"]) (simp add: between_def)
next
  case True
  then have r: "ready P (sol st)" and as: "assumptions (sol st) = []" using bt by (simp_all add: between_def)
  have b: "base P (sol st)" and q: "queue_done (db (sol st)) (sol st)" using r by (simp_all add: ready_def)
  have al: "\<forall>a \<in> set (assumptions (sol st)). lit_ok (nVars (sol st)) a" by (simp add: as)
  note c = cancel_root [OF b q al, where T = T]
  let ?s = "cancelUntil T 0 (sol st)"
  have p: "\<forall>l \<in> set ps. lit_ok (nVars ?s) l" "length ps < 2 ^ 26" "unat (rsz (region_of (ca ?s))) + length ps + 2 < 2643056797"
    using ad c(3) by (simp_all add: addable_def stays_def)
  from addClause_good [OF c(1,2) p, of T False] obtain b s' where a: "addClause_ok T False ps ?s = Some (b, s')" "ok s' = b"
    "nVars s' = nVars ?s" "ana_rest s' = ana_rest ?s" "decisionLevel s' = 0" "unat (rsz (region_of (ca s'))) \<le> unat (rsz (region_of (ca ?s))) + length ps + 2"
    "if b then good (P \<inter> clause_models ps) s' else P \<inter> clause_models ps = {} \<and> tame s'" by blast
  have e: "assumptions s' = []" "limits s' = limits (sol st)" "statistics.conflicts (stats s') = statistics.conflicts (stats (sol st))"
    using a(4) c(5) as by (simp_all add: ana_rest_def)
  have "between (P \<inter> clause_models ps) (st\<lparr>sol := s'\<rparr>)" using bt a(2,7) e(1) by (auto simp: between_def ready_def good_def split: if_splits)
  then show ?thesis using a c(3) e by (intro exI [of _ b] exI [of _ s']) (simp add: addClause_def stays_def)
qed

lemma budget_ready: "ready P s \<Longrightarrow> ready P (setConfBudget x s)"
  using base_cong(1,3,6) [of "setConfBudget x s" s] by (simp add: ready_def setConfBudget_def)

lemma solve_between:
  fixes T :: "'h theory_ops" and Q :: "'h search_ops" and st :: "'h search"
  assumes bt: "between P st" and sv: "solvable Q as st"
  shows "\<exists>b st'. solveLimited T Q as st = Some (b, st') \<and> answer_ok P as b st' \<and> between P st' \<and>
     (ok (sol st) \<longrightarrow> nVars (sol st') = nVars (sol st))"
proof (cases "ok (sol st)")
  case False
  let ?st = "st\<lparr>sol := clearInterrupt (cancelUntil T 0 ((sol st)\<lparr>assumptions := as\<rparr>)), model := [],
                   conflict := iset_clear lix False (conflict st)\<rparr>"
  have "tame (sol st)" using bt False by (simp add: between_def)
  then have "tame ((sol st)\<lparr>assumptions := as\<rparr>)" using tame_cong [of "(sol st)\<lparr>assumptions := as\<rparr>" "sol st"] by simp
  note t = cancelUntil_tame [OF this, of T]
  have n: "\<not> ok (sol ?st)" "tame (sol ?st)"
    using False t(1,2) tame_cong [of "sol ?st" "cancelUntil T 0 ((sol st)\<lparr>assumptions := as\<rparr>)"] by (simp_all add: clearInterrupt_def)
  then have "solveLimited T Q as st = Some (l_False, ?st)" by (simp add: solveLimited_def solve_main_def Let_def)
  then show ?thesis using bt False n iset_clear_spec [of lix "conflict st" False]
    by (intro exI [of _ l_False] exI [of _ ?st]) (simp add: between_def answer_ok_def)
next
  case True
  let ?st = "st\<lparr>sol := (sol st)\<lparr>assumptions := as\<rparr>\<rparr>"
  have r: "ready P (sol st)" using bt True by (simp add: between_def)
  have e: "nVars ((sol st)\<lparr>assumptions := as\<rparr>) = nVars (sol st)" by (simp add: nVars_def)
  have "ready P (sol ?st)" "\<forall>a \<in> set (assumptions (sol ?st)). lit_ok (nVars (sol ?st)) a" "iset_wf lix (conflict ?st)"
    "\<not> quit_at_restart ?st" "\<And>x. pb_convert Q x = Some x" "0 \<le> conflict_budget (limits (sol ?st))"
    "roomy (Suc (budget_left (sol ?st) + level_cap (sol ?st))) (sol ?st)" "\<not> opt_decide_theories (cfg ?st)"
    "1 \<le> restart_inc (cfg ?st)" "1 \<le> restart_first (cfg ?st)"
    using ready_assumptions [OF r] bt sv by (simp_all add: between_def solvable_def e level_cap_def budget_left_def roomy_def)
  from solve_main_total [OF this, of T] obtain b st' where s: "solve_main T Q ?st = Some (b, st')" "answer_ok P as b st'"
    "nVars (sol st') = nVars (sol st)" "ok (sol st') \<longrightarrow> ready P (sol st')" "iset_wf lix (conflict st')" "\<not> quit_at_restart st'" "assumptions (sol st') = []" "ok (sol st') \<or> P = {} \<and> tame (sol st')" by (auto simp: e)
  then have "between P st'" using s(4-8) by (auto simp: between_def)
  then show ?thesis using s(1-3) by (simp add: solveLimited_def)
qed

lemma newVar_tame:
  assumes t: "tame s" and fr: "free_vars s = []"
  shows "tame (snd (newVar sg dv s))"
proof -
  obtain a sd1 where a: "initial_activity (push_var s) = (a, sd1)" by fastforce
  obtain pol sd2 where p: "initial_polarity (push_var s) sg sd1 = (pol, sd2)" by fastforce
  let ?s = "reset_var (int (nVars s)) a pol sd2 (push_var s)"
  have "snd (newVar sg dv s) = setDecisionVar (int (nVars s)) (dv \<and> \<not> outside_decisions (push_var s) (int (nVars s))) ?s"
    using fr a p by (simp add: newVar_def pick_var_def)
  moreover have "tame ?s"
    using t by (auto simp: tame_def reset_var_def push_var_def nVars_def vix_def lit_ok_def
        dest!: set_mp [OF set_update_subset_insert])
  moreover have "tame (setDecisionVar v b s') = tame s'" for v b and s' :: "'a solver"
    by (rule tame_cong) simp_all
  ultimately show ?thesis by simp
qed

lemma session_between: "session T Q P st \<Longrightarrow> between P st"
proof (induction rule: session.induct)
  case (start m r st c seed h)
  then show ?case using ready_new [OF start(4,5,1,2), of c h] ready_ok by (simp add: between_def) (simp add: solver_new_def)
next
  case (variable P st sg)
  let ?s = "snd (newVar sg True (sol st))"
  show ?case
  proof (cases "ok (sol st)")
    case True
    then have r: "ready P (sol st)" using variable.IH by (simp add: between_def)
    note n = newVar_ready [OF r variable(2-4), of sg]
    show ?thesis using n(1,5) ready_ok [OF n(1)] variable.IH True by (simp add: between_def)
  next
    case False
    have o: "ok ?s = ok (sol st)"
      by (simp add: newVar_def pick_var_def reset_var_def push_var_def Let_def split: prod.split)
    have "tame (sol st)" using variable.IH False by (simp add: between_def)
    then have "tame ?s" by (rule newVar_tame [OF _ variable(2)])
    then show ?thesis using variable.IH False o by (simp add: between_def)
  qed
next
  case (clause P st ps b s')
  then show ?case using add_between [OF clause.IH clause(2), of T] by auto
next
  case (budget P st x)
  have "ok (setConfBudget x (sol st)) = ok (sol st)" "assumptions (setConfBudget x (sol st)) = assumptions (sol st)"
    "tame (setConfBudget x (sol st)) = tame (sol st)"
    using tame_cong [of "setConfBudget x (sol st)" "sol st"] by (simp_all add: setConfBudget_def)
  then show ?case using budget.IH budget_ready [of P "sol st" x] by (simp add: between_def)
next
  case (solve P st as b st')
  then show ?case using solve_between [OF solve.IH solve(2), of T] by auto
qed

text \<open>C1: liveness and correctness of solving.  In every session, that is after any sequence of calls that create
  variables, add clauses, set the conflict budget and solve, \<^verbatim>\<open>solveLimited\<close> with a conflict budget and enough memory
  for one learnt clause per conflict always returns.  With \<^verbatim>\<open>l_True\<close> the reported model satisfies every clause added
  so far and every assumption; with \<^verbatim>\<open>l_False\<close> the reported final conflict is a clause of negated assumptions that
  the clauses imply, and it is empty exactly when the solver is marked as contradictory; \<^verbatim>\<open>l_Undef\<close> is reported only
  when the budget is used up.  The state after the call again is a state of the session.\<close>

theorem solveLimited_correct:
  assumes "session T Q P st" and "solvable Q as st"
  shows "\<exists>b st'. solveLimited T Q as st = Some (b, st') \<and> answer_ok P as b st' \<and> session T Q P st' \<and>
     (ok (sol st) \<longrightarrow> nVars (sol st') = nVars (sol st))"
proof -
  from solve_between [OF session_between [OF assms(1)] assms(2), of T] obtain b st' where
    s: "solveLimited T Q as st = Some (b, st')" "answer_ok P as b st'" "ok (sol st) \<longrightarrow> nVars (sol st') = nVars (sol st)" by blast
  then show ?thesis using session.solve [OF assms s(1)] by blast
qed

text \<open>C3: the state invariant of a session.  As long as the solver is not marked as contradictory, the clauses and the
  literals fixed at the root level have exactly the models of the clauses added so far, the learnt clauses follow
  from them, every clause is watched by its first two literals, the trail agrees with the assignment, all its
  literals belong to variables, the variables that are unassigned are in the heap, and the clause region is in
  order; when it is marked, the clauses added so far have no model.\<close>

theorem session_invariant:
  assumes "session T Q P st"
  shows "if ok (sol st)
    then problem P (sol st) \<and> solver_inv (db (sol st)) (sol st) \<and> trail_ok (sol st) \<and> heap_full (sol st) \<and>
      arena_ok (db (sol st)) (ca (sol st))
    else P = {}"
  using session_between [OF assms] baseD [of P "sol st"] by (auto simp: between_def ready_def)


text \<open>C2: one iteration of \<^verbatim>\<open>search\<close>, from \<^verbatim>\<open>propagate:\<close> on, always comes to an end.  Either it returns an answer
  that is right for the problem and the assumptions, and with \<^verbatim>\<open>l_Undef\<close> the solver is back at the root and a budget
  or the limit of this restart is used up; or it goes back to \<^verbatim>\<open>propagate:\<close> with the invariant of the search again
  and with a smaller measure: a conflict uses up the budget, a decision without a conflict raises the level, and
  without budget the level falls.\<close>

theorem search_step_progress:
  fixes T :: "'h theory_ops" and st :: "'h search"
  assumes "good P (sol st)" and "sized (sol st)" and "\<not> opt_decide_theories (cfg st)"
  shows "\<exists>oc l' st' c. search_step T Q nof None l st = Some (oc, l', st') \<and> same_call c st st' \<and> conflictC l' = conflictC l + c \<and>
     (oc = Goto_propagate \<and> conflict st' = conflict st \<and> good P (sol st') \<and> sized (sol st') \<and> rank (sol st') < rank (sol st) \<or>
      (\<exists>b. oc = Return b \<and> verdict P nof (conflictC l') (conflict st) b st'))"
  by (rule search_step_total [OF assms])

section \<open>A session\<close>

text \<open>Two variables, the clauses \<open>x0 \<or> x1\<close>, a budget of ten conflicts and the assumption \<open>\<not> x0\<close>.\<close>

definition demo_search_options :: search_options where
  "demo_search_options =
     \<lparr>opt_decide_theories = False, opt_random_theory_freq = 0, opt_theory_order_vsids = False, opt_random_theory_vsids_freq = 0,
      opt_theory_conflict_max = 0, opt_vsids_solver_as_theory = False, opt_randomize_theory_order_all = False,
      opt_theory_decision_round_robin = False, opt_subsearch = 0, opt_detect_pure_lits = True, opt_rnd_phase = False,
      opt_randomize_theory_order = False, opt_rnd_restart = False, opt_rnd_theory_restart = False, opt_check_solution = True,
      disable_theories = False, luby_restart = True, restart_inc = 2, restart_first = 100, learntsize_factor = 1 / 3,
      learntsize_adjust_start_confl = 100\<rparr>"

definition demo_search :: "unit solver \<Rightarrow> unit search" where
  "demo_search s =
     \<lparr>sol = s, cfg = demo_search_options, model = [], conflict = iset_empty, lit_occurs = [], lit_seen = [], stats_pure_lits = 0,
      stats_pure_theory_lits = 0, pure_literal_detections = 0, solves = 0, starts = 0, n_theory_decision_rounds = 0,
      n_theory_conflicts = 0, consecutive_theory_conflicts = 0, next_theory_decision = 0, stats_solver_preempted_decisions = 0,
      stats_theory_decisions = 0, theory_decision_round_robin = 0, decisionTheory = 0, theoryDecision = lit_Undef,
      progress_estimate = 0, quit_at_restart = False, override_restart_count = - 1, only_propagate_assumptions = False\<rparr>"

definition no_search_ops :: "unit search_ops" where
  "no_search_ops =
     \<lparr>th_decide = (\<lambda>_ s. Some (lit_Undef, s)), th_solve = (\<lambda>_ s. Some (True, [], s)), th_setLiteralOccurs = (\<lambda>_ _ _ h. h),
      th_check_solved = (\<lambda>_ _. True), pb_convert = Some\<rparr>"

definition demo_vars :: "unit search" where
  "demo_vars = demo_search (setConfBudget 10 two_vars)"

lemma demo_session:
  "session no_theories no_search_ops {M. lit_model M} demo_vars" "nVars (sol demo_vars) = 2" "ok (sol demo_vars)"
  "region_of (ca (sol demo_vars)) = demo_region" "conflict_budget (limits (sol demo_vars)) = 10"
  "statistics.conflicts (stats (sol demo_vars)) = 0" "cfg demo_vars = demo_search_options"
proof -
  let ?P = "{M. lit_model M}"
  have 0: "session no_theories no_search_ops ?P (demo_search empty_solver)"
    by (rule session.start [where c = demo_options and seed = 91648253 and h = "()", OF demo_region_new])
      (simp_all add: demo_search_def empty_solver_def)
  have r0: "ready ?P empty_solver"
    using ready_new [OF _ _ demo_region_new, of 91648253 demo_options "()"] by (simp add: empty_solver_def)
  have e: "free_vars empty_solver = []" "nVars empty_solver = 0" "\<not> outside_decisions empty_solver (int k)" for k
    by (simp_all add: empty_solver_def solver_new_def nVars_def outside_decisions_def)
  let ?s1 = "snd (newVar True True empty_solver)"
  have small: "Suc (nVars empty_solver) < 2 ^ 26" using e(2) by simp
  note n1 = newVar_ready [OF r0 e(1,3) small, of True]
  have f1: "ready ?P ?s1" "nVars ?s1 = 1" "free_vars ?s1 = []" "\<not> outside_decisions ?s1 (int k)" "limits ?s1 = limits empty_solver"
    "statistics.conflicts (stats ?s1) = statistics.conflicts (stats empty_solver)" for k
    using n1 e by simp_all
  have 1: "session no_theories no_search_ops ?P (demo_search ?s1)"
    using session.variable [OF 0, of True] e(1,2) e(3) [of 0] by (simp add: demo_search_def)
  have small1: "Suc (nVars ?s1) < 2 ^ 26" using f1(2) by simp
  note n2 = newVar_ready [OF f1(1,3,4) small1, of True]
  have f2: "limits two_vars = limits ?s1" "statistics.conflicts (stats two_vars) = statistics.conflicts (stats ?s1)"
    using n2(4,9) f1 by (simp_all add: two_vars_def)
  have "session no_theories no_search_ops ?P (demo_search two_vars)"
    using session.variable [OF 1, of True] f1(2,3) f1(4) [of 1] by (simp add: demo_search_def two_vars_def)
  from session.budget [OF this, of 10] show "session no_theories no_search_ops ?P demo_vars" by (simp add: demo_vars_def demo_search_def)
  have c0: "statistics.conflicts (stats two_vars) = 0" by (simp add: f2 f1) (simp add: empty_solver_def solver_new_def)
  show "conflict_budget (limits (sol demo_vars)) = 10" "statistics.conflicts (stats (sol demo_vars)) = 0"
    using c0 by (simp_all add: demo_vars_def demo_search_def setConfBudget_def)
qed (use two_vars_ok in \<open>simp_all add: demo_vars_def demo_search_def setConfBudget_def nVars_def\<close>)


lemma demo_clause:
  "\<exists>st. session no_theories no_search_ops ({M. lit_model M} \<inter> clause_models [mkLit 0 False, mkLit 1 False]) st \<and>
     solvable no_search_ops [mkLit 0 True] st \<and> nVars (sol st) = 2 \<and> decisionLevel (sol st) = 0"
proof -
  let ?ps = "[mkLit 0 False, mkLit 1 False]"
  have ad: "addable ?ps demo_vars" by (simp add: addable_def demo_session lit_ok_def mkLit_def)
  from add_between [OF session_between [OF demo_session(1)] ad, of no_theories] obtain b s' where
    a: "addClause no_theories ?ps (sol demo_vars) = Some (b, s')" "nVars s' = 2" "limits s' = limits (sol demo_vars)"
     "unat (rsz (region_of (ca s'))) \<le> 4" "statistics.conflicts (stats s') = 0"
     "decisionLevel s' = 0" by (auto simp: demo_session)
  let ?st = "demo_vars\<lparr>sol := s'\<rparr>"
  have "solvable no_search_ops [mkLit 0 True] ?st"
    using a(2-5) demo_session
    by (simp add: solvable_def roomy_def budget_left_def demo_search_options_def no_search_ops_def lit_ok_def mkLit_def)
  then show ?thesis using session.clause [OF demo_session(1) ad a(1)] a(2,6) by auto
qed

theorem solveLimited_correct_witness:
  "\<exists>st b st'. solveLimited no_theories no_search_ops [mkLit 0 True] st = Some (b, st') \<and> b \<noteq> l_False \<and>
     (b = l_True \<longrightarrow> lb_eq (modelValue st' (mkLit 1 False)) l_True)"
proof -
  let ?x0 = "mkLit 0 False" and ?x1 = "mkLit 1 False" and ?n0 = "mkLit 0 True"
  let ?P = "{M. lit_model M} \<inter> clause_models [?x0, ?x1]"
  obtain st where st: "session no_theories no_search_ops ?P st" "solvable no_search_ops [?n0] st" "nVars (sol st) = 2"
    using demo_clause by blast
  from solveLimited_correct [OF st(1,2)] obtain b st' where
    s: "solveLimited no_theories no_search_ops [?n0] st = Some (b, st')" "answer_ok ?P [?n0] b st'"
      "ok (sol st) \<longrightarrow> nVars (sol st') = 2" unfolding st(3) by blast
  have ne: "l_True \<noteq> l_False" "l_True \<noteq> l_Undef" "l_False \<noteq> l_Undef" by code_simp+
  have neg0: "neg ?n0 = ?x0" by (simp add: neg_def lit_xor_def mkLit_def)
  define M0 where "M0 = (\<lambda>l. if var l = 0 then sign l else \<not> sign l)"
  have m0: "M0 \<in> ?P" "\<not> M0 ?x0" by (auto simp: M0_def lit_model_def clause_models_def)
  have "if ok (sol st) then ready ?P (sol st) \<and> assumptions (sol st) = [] else ?P = {} \<and> tame (sol st)"
    using session_between [OF st(1)] unfolding between_def by (rule conjunct1)
  then have "ok (sol st)" using m0(1) by (metis empty_iff)
  then have n: "nVars (sol st') = 2" using s(3) by simp
  have "b \<noteq> l_False"
  proof
    assume "b = l_False"
    then have "\<forall>M \<in> ?P. \<exists>l \<in> set (iset (conflict st')). M l" "set (iset (conflict st')) \<subseteq> neg ` set [?n0]"
      using s(2) ne unfolding answer_ok_def by metis+
    then have "\<exists>l \<in> set (iset (conflict st')). M0 l" "set (iset (conflict st')) \<subseteq> {?x0}" using m0(1) neg0 by auto
    then show False using m0(2) by auto
  qed
  moreover have "lb_eq (modelValue st' ?x1) l_True" if "b = l_True"
  proof -
    have "\<exists>M \<in> ?P. (\<forall>a \<in> set [?n0]. M a) \<and> (\<forall>l. lit_ok 2 l \<longrightarrow> lb_eq (modelValue st' l) l_True = M l)"
      using s(2) that ne unfolding answer_ok_def n by metis
    then obtain M where M: "M \<in> ?P" "\<forall>a \<in> set [?n0]. M a" "\<forall>l. lit_ok 2 l \<longrightarrow> lb_eq (modelValue st' l) l_True = M l" by blast
    have "M (neg ?n0) = (\<not> M ?n0)" using M(1) by (simp add: lit_model_def)
    then have "\<not> M ?x0" using M(2) by (simp add: neg0)
    then have "M ?x1" using M(1) by (simp add: clause_models_def)
    moreover have "lit_ok 2 ?x1" by (simp add: lit_ok_def mkLit_def)
    ultimately show ?thesis using M(3) by blast
  qed
  ultimately show ?thesis using s(1) by blast
qed

theorem session_invariant_witness: "problem {M. lit_model M} (sol demo_vars) \<and> heap_full (sol demo_vars)"
  using session_invariant [OF demo_session(1)] demo_session(3) by simp

theorem search_step_progress_witness:
  "\<exists>st oc l' st'. search_step no_theories no_search_ops 100 None
       \<lparr>conflictC = 0, last_decision_was_theory = False, using_theory_decisions = False, using_theory_vsids = False\<rparr> st =
       Some (oc, l', st') \<and> good ({M. lit_model M} \<inter> clause_models [mkLit 0 False, mkLit 1 False]) (sol st) \<and>
     (oc = Goto_propagate \<and> rank (sol st') < rank (sol st) \<or> (\<exists>b. oc = Return b))"
proof -
  let ?P = "{M. lit_model M} \<inter> clause_models [mkLit 0 False, mkLit 1 False]"
  let ?l = "\<lparr>conflictC = 0, last_decision_was_theory = False, using_theory_decisions = False, using_theory_vsids = False\<rparr>"
  obtain st where st: "session no_theories no_search_ops ?P st" "solvable no_search_ops [mkLit 0 True] st" "nVars (sol st) = 2"
    using demo_clause by blast
  have "(\<lambda>l. \<not> sign l) \<in> ?P" by (simp add: lit_model_def clause_models_def)
  moreover have "if ok (sol st) then ready ?P (sol st) \<and> assumptions (sol st) = [] else ?P = {} \<and> tame (sol st)"
    using session_between [OF st(1)] unfolding between_def by (rule conjunct1)
  ultimately have r: "ready ?P (sol st)" "assumptions (sol st) = []" by (metis empty_iff)+
  then have b: "base ?P (sol st)" "queue_done (db (sol st)) (sol st)" "\<forall>a \<in> set (assumptions (sol st)). lit_ok (nVars (sol st)) a"
    by (simp_all add: ready_def)
  define s where "s = cancelUntil no_theories 0 (sol st)"
  note c = cancel_root [OF b, where T = no_theories, folded s_def]
  have "reserve s \<le> budget_left (sol st) + (nVars (sol st) + 1 + 1)"
    using c(2,3) r(2) by (simp add: reserve_def stays_def budget_left_def level_cap_def)
  then have "Suc (reserve s) \<le> Suc (budget_left (sol st) + (nVars (sol st) + length [mkLit 0 True] + 1))" by simp
  moreover have "roomy (Suc (budget_left (sol st) + (nVars (sol st) + length [mkLit 0 True] + 1))) s"
    using st(2) roomy_stays [OF c(3)] by (simp add: solvable_def)
  ultimately have "roomy (Suc (reserve s)) s" by (rule roomy_le)
  moreover have "0 \<le> conflict_budget (limits s)" using st(2) c(3) by (simp add: solvable_def stays_def)
  ultimately have "sized (sol (demo_search s))" by (simp add: sized_def demo_search_def)
  moreover have "good ?P (sol (demo_search s))" using c(1) by (simp add: demo_search_def)
  moreover have "\<not> opt_decide_theories (cfg (demo_search s))" by (simp add: demo_search_def demo_search_options_def)
  ultimately show ?thesis using search_step_progress [of ?P "demo_search s" no_theories no_search_ops 100 ?l] by blast
qed

end
