(* ===== verification/Solver_Dimacs.thy ===== *)
theory Solver_Dimacs
  imports Solver_Analyze Solver_Build MTL_Sets
begin

text \<open>
  Writing the problem in DIMACS format, \<^verbatim>\<open>toDimacs\<close> of \<^verbatim>\<open>core/Solver.cc\<close>.  A file is its header, the number of
  variables and of clauses, and its clauses as lists of integers; the variables that occur are numbered in the
  order of their first occurrence.
\<close>

record dimacs_file =
  dvars :: int
  dcount :: nat
  dclauses :: "int list list"

text \<open>The numbering and the next number.\<close>

definition mapVar :: "Var \<Rightarrow> int list \<times> int \<Rightarrow> int \<times> int list \<times> int" where
  "mapVar x m =
     (if length (fst m) \<le> vix x \<or> fst m ! vix x = - 1
      then (snd m, (grow_list (vix x + 1) (- 1) (fst m))[vix x := snd m], snd m + 1)
      else (fst m ! vix x, m))"

fun map_lits :: "Lit list \<Rightarrow> int list \<times> int \<Rightarrow> int list \<times> int" where
  "map_lits [] m = m"
| "map_lits (l # ls) m = map_lits ls (snd (mapVar (var l) m))"

fun write_lits :: "Lit list \<Rightarrow> int list \<times> int \<Rightarrow> int list \<times> int list \<times> int" where
  "write_lits [] m = ([], m)"
| "write_lits (l # ls) m =
     (let (n, m1) = mapVar (var l) m; (ns, m2) = write_lits ls m1
      in ((if sign l then - (n + 1) else n + 1) # ns, m2))"

definition not_false :: "'h solver \<Rightarrow> CRef \<Rightarrow> Lit list" where
  "not_false s cr = filter (\<lambda>l. \<not> isF s l) (lits (clause_at s cr))"

fun write_clauses :: "'h solver \<Rightarrow> CRef list \<Rightarrow> int list \<times> int \<Rightarrow> int list list \<times> int list \<times> int" where
  "write_clauses s [] m = ([], m)"
| "write_clauses s (cr # crs) m =
     (if satisfied s (clause_at s cr) then write_clauses s crs m
      else let (ns, m1) = write_lits (not_false s cr) m; (rest, m2) = write_clauses s crs m1 in (ns # rest, m2))"

fun write_units :: "Lit list \<Rightarrow> int list \<times> int \<Rightarrow> int list list \<times> int list \<times> int" where
  "write_units [] m = ([], m)"
| "write_units (l # ls) m =
     (let (ns, m1) = write_lits [l] m; (rest, m2) = write_units ls m1 in (ns # rest, m2))"

text \<open>The code ignores its argument \<open>as\<close> and writes the member \<^verbatim>\<open>assumptions\<close>, which is empty outside of a call
  of \<^verbatim>\<open>solve\<close>.\<close>

definition toDimacs :: "Lit list \<Rightarrow> 'h solver \<Rightarrow> dimacs_file" where
  "toDimacs as s =
     (if \<not> ok s then \<lparr>dvars = 1, dcount = 2, dclauses = [[1], [- 1]]\<rparr>
      else let live = filter (\<lambda>cr. \<not> satisfied s (clause_at s cr)) (clauses s);
               m = map_lits (concat (map (not_false s) live)) ([], 0);
               (us, m1) = write_units (assumptions s) m;
               (cs, m2) = write_clauses s (clauses s) m1
           in \<lparr>dvars = snd m, dcount = length live + length (assumptions s), dclauses = us @ cs\<rparr>)"

text \<open>An assignment of the numbers satisfies the file.\<close>

definition dimacs_true :: "(int \<Rightarrow> bool) \<Rightarrow> dimacs_file \<Rightarrow> bool" where
  "dimacs_true N d \<longleftrightarrow> (\<forall>c \<in> set (dclauses d). \<exists>x \<in> set c. if 0 < x then N x else \<not> N (- x))"

section \<open>The numbering\<close>

text \<open>The numbers in use are those below the counter, each for one variable.\<close>

definition numbering :: "int list \<times> int \<Rightarrow> bool" where
  "numbering m \<longleftrightarrow>
     0 \<le> snd m \<and> (\<forall>i < length (fst m). fst m ! i = - 1 \<or> (0 \<le> fst m ! i \<and> fst m ! i < snd m)) \<and>
     (\<forall>i < length (fst m). \<forall>j < length (fst m). fst m ! i = fst m ! j \<longrightarrow> fst m ! i \<noteq> - 1 \<longrightarrow> i = j)"

definition number_of :: "int list \<times> int \<Rightarrow> nat \<Rightarrow> int option" where
  "number_of m i = (if i < length (fst m) \<and> fst m ! i \<noteq> - 1 then Some (fst m ! i) else None)"

lemma mapVar_known: "number_of m (vix x) = Some n \<Longrightarrow> mapVar x m = (n, m)"
  by (auto simp: number_of_def mapVar_def split: if_splits)

lemma mapVar_spec:
  assumes "numbering m"
  shows "numbering (snd (mapVar x m))" and "number_of (snd (mapVar x m)) (vix x) = Some (fst (mapVar x m))"
    and "0 \<le> fst (mapVar x m) \<and> fst (mapVar x m) < snd (snd (mapVar x m))"
    and "number_of m i = Some n \<Longrightarrow> number_of (snd (mapVar x m)) i = Some n" and "snd m \<le> snd (snd (mapVar x m))"
proof -
  obtain xs k where m: "m = (xs, k)" by (cases m)
  have a: "0 \<le> k" "\<And>i. i < length xs \<Longrightarrow> xs ! i = - 1 \<or> (0 \<le> xs ! i \<and> xs ! i < k)"
    "\<And>i j. i < length xs \<Longrightarrow> j < length xs \<Longrightarrow> xs ! i = xs ! j \<Longrightarrow> xs ! i \<noteq> - 1 \<Longrightarrow> i = j"
    using assms by (auto simp: numbering_def m)
  have all: "numbering (snd (mapVar x m)) \<and> number_of (snd (mapVar x m)) (vix x) = Some (fst (mapVar x m)) \<and>
      (0 \<le> fst (mapVar x m) \<and> fst (mapVar x m) < snd (snd (mapVar x m))) \<and>
      (number_of m i = Some n \<longrightarrow> number_of (snd (mapVar x m)) i = Some n) \<and> snd m \<le> snd (snd (mapVar x m))"
  proof (cases "length xs \<le> vix x \<or> xs ! vix x = - 1")
    case True
    let ?ys = "(grow_list (vix x + 1) (- 1) xs)[vix x := k]"
    have e: "mapVar x m = (k, ?ys, k + 1)" using True by (simp add: mapVar_def m)
    have len: "length ?ys = max (vix x + 1) (length xs)" by simp
    have y: "?ys ! i = (if i = vix x then k else if i < length xs then xs ! i else - 1)" if "i < length ?ys" for i
      using that by (simp add: nth_list_update_any nth_grow_list)
    have "numbering (?ys, k + 1)"
    proof -
      have "?ys ! i = - 1 \<or> (0 \<le> ?ys ! i \<and> ?ys ! i < k + 1)" if "i < length ?ys" for i
        unfolding y [OF that] using a(1) a(2) [of i] by auto
      moreover have "i = j" if "i < length ?ys" "j < length ?ys" "?ys ! i = ?ys ! j" "?ys ! i \<noteq> - 1" for i j
        using that(3,4) a(1) a(2) [of i] a(2) [of j] a(3) [of i j] unfolding y [OF that(1)] y [OF that(2)]
        by (auto split: if_splits)
      ultimately show ?thesis using a(1) unfolding numbering_def fst_conv snd_conv by (auto simp del: length_list_update)
    qed
    moreover have "number_of (?ys, k + 1) (vix x) = Some k" using a(1) y [of "vix x"] by (simp add: number_of_def)
    moreover have "number_of (?ys, k + 1) i = Some n" if "number_of m i = Some n"
      using that True y [of i] by (auto simp: number_of_def m less_max_iff_disj split: if_splits)
    ultimately show ?thesis using a(1) unfolding e by (simp add: m)
  next
    case False
    then have e: "mapVar x m = (xs ! vix x, m)" by (simp add: mapVar_def m)
    show ?thesis using False a(2) [of "vix x"] assms unfolding e by (auto simp: number_of_def m)
  qed
  show "numbering (snd (mapVar x m))" "number_of (snd (mapVar x m)) (vix x) = Some (fst (mapVar x m))"
    "0 \<le> fst (mapVar x m) \<and> fst (mapVar x m) < snd (snd (mapVar x m))" "snd m \<le> snd (snd (mapVar x m))" using all by blast+
  show "number_of m i = Some n \<Longrightarrow> number_of (snd (mapVar x m)) i = Some n" using all by blast
qed

definition extends :: "int list \<times> int \<Rightarrow> int list \<times> int \<Rightarrow> bool" where
  "extends m m' \<longleftrightarrow> numbering m' \<and> snd m \<le> snd m' \<and> (\<forall>i n. number_of m i = Some n \<longrightarrow> number_of m' i = Some n)"

definition numbered :: "int list \<times> int \<Rightarrow> Lit list \<Rightarrow> bool" where
  "numbered m ls \<longleftrightarrow> (\<forall>l \<in> set ls. number_of m (vix (var l)) \<noteq> None)"

definition dlit :: "int list \<times> int \<Rightarrow> Lit \<Rightarrow> int" where
  "dlit m l = (let n = the (number_of m (vix (var l))) in if sign l then - (n + 1) else n + 1)"

lemma extends_refl: "numbering m \<Longrightarrow> extends m m"
  by (simp add: extends_def)

lemma extends_trans: "extends m m' \<Longrightarrow> extends m' m'' \<Longrightarrow> extends m m''"
  by (auto simp: extends_def)

lemma numbered_extends: "extends m m' \<Longrightarrow> numbered m ls \<Longrightarrow> numbered m' ls"
  by (fastforce simp: extends_def numbered_def)

lemma dlit_extends: "extends m m' \<Longrightarrow> numbered m ls \<Longrightarrow> map (dlit m') ls = map (dlit m) ls"
  by (force simp: extends_def numbered_def dlit_def Let_def)

lemma mapVar_extends: "numbering m \<Longrightarrow> extends m (snd (mapVar x m))"
  using mapVar_spec by (simp add: extends_def)

lemma map_lits_spec: "numbering m \<Longrightarrow> extends m (map_lits ls m) \<and> numbered (map_lits ls m) ls"
proof (induction ls arbitrary: m)
  case (Cons l ls)
  let ?m = "snd (mapVar (var l) m)"
  have m: "numbering ?m" "number_of ?m (vix (var l)) \<noteq> None" using mapVar_spec [OF Cons.prems] by simp_all
  have IH: "extends ?m (map_lits ls ?m)" "numbered (map_lits ls ?m) ls" using Cons.IH [OF m(1)] by simp_all
  have "numbered ?m [l]" using m(2) by (simp add: numbered_def)
  then have "numbered (map_lits ls ?m) [l]" by (rule numbered_extends [OF IH(1)])
  then show ?case using extends_trans [OF mapVar_extends [OF Cons.prems] IH(1)] IH(2) by (simp add: numbered_def)
qed (simp add: extends_refl numbered_def)

lemma write_lits_spec:
  "numbering m \<Longrightarrow> write_lits ls m = (ns, m') \<Longrightarrow> extends m m' \<and> numbered m' ls \<and> ns = map (dlit m') ls"
proof (induction ls arbitrary: m ns m')
  case (Cons l ls)
  let ?m = "snd (mapVar (var l) m)"
  note mv = mapVar_spec(1,2) [OF Cons.prems(1), of "var l"]
  obtain ks m2 where w: "write_lits ls ?m = (ks, m2)" by (metis surj_pair)
  note IH = Cons.IH [OF mv(1) w]
  have l: "numbered ?m [l]" using mv(2) by (simp add: numbered_def)
  have "numbered m2 [l]" "map (dlit m2) [l] = map (dlit ?m) [l]" using IH numbered_extends l dlit_extends by blast+
  moreover have "dlit ?m l = (if sign l then - (fst (mapVar (var l) m) + 1) else fst (mapVar (var l) m) + 1)"
    by (simp add: dlit_def mv(2))
  moreover have "ns = (if sign l then - (fst (mapVar (var l) m) + 1) else fst (mapVar (var l) m) + 1) # ks" "m' = m2"
    using Cons.prems(2) w by (simp_all add: case_prod_beta)
  ultimately show ?case
    using IH extends_trans [OF mapVar_extends [OF Cons.prems(1), of "var l"], of m2] by (simp add: numbered_def)
qed (simp add: extends_refl numbered_def)

lemma write_step:
  assumes "extends m m1 \<and> numbered m1 ls \<and> ns = map (dlit m1) ls"
    and "extends m1 m2 \<and> (\<forall>ks \<in> set kss. numbered m2 ks) \<and> rest = map (map (dlit m2)) kss"
  shows "extends m m2 \<and> (\<forall>ks \<in> set (ls # kss). numbered m2 ks) \<and> ns # rest = map (map (dlit m2)) (ls # kss)"
proof -
  have e: "extends m m1" "numbered m1 ls" "extends m1 m2" using assms by simp_all
  have "map (dlit m2) ls = ns" using dlit_extends [OF e(3,2)] assms(1) by simp
  then show ?thesis using extends_trans [OF e(1,3)] numbered_extends [OF e(3,2)] assms(2) by simp
qed

lemma write_units_spec:
  "numbering m \<Longrightarrow> write_units ls m = (nss, m') \<Longrightarrow>
     extends m m' \<and> (\<forall>ks \<in> set (map (\<lambda>l. [l]) ls). numbered m' ks) \<and> nss = map (map (dlit m')) (map (\<lambda>l. [l]) ls)"
proof (induction ls arbitrary: m nss m')
  case (Cons l ls)
  obtain ns m1 where w: "write_lits [l] m = (ns, m1)" by (metis surj_pair)
  obtain rest m2 where r: "write_units ls m1 = (rest, m2)" by (metis surj_pair)
  note wl = write_lits_spec [OF Cons.prems(1) w]
  have "nss = ns # rest" "m' = m2" using Cons.prems(2) w r by (simp_all del: write_lits.simps)
  then show ?case using write_step [OF wl Cons.IH [OF _ r]] wl by (simp add: extends_def)
qed (simp add: extends_refl)

lemma write_clauses_spec:
  "numbering m \<Longrightarrow> write_clauses s crs m = (nss, m') \<Longrightarrow>
     extends m m' \<and>
     (\<forall>ks \<in> set (map (not_false s) (filter (\<lambda>cr. \<not> satisfied s (clause_at s cr)) crs)). numbered m' ks) \<and>
     nss = map (map (dlit m')) (map (not_false s) (filter (\<lambda>cr. \<not> satisfied s (clause_at s cr)) crs))"
proof (induction crs arbitrary: m nss m')
  case (Cons cr crs)
  show ?case
  proof (cases "satisfied s (clause_at s cr)")
    case True
    then show ?thesis using Cons by simp
  next
    case False
    obtain ns m1 where w: "write_lits (not_false s cr) m = (ns, m1)" by (metis surj_pair)
    obtain rest m2 where r: "write_clauses s crs m1 = (rest, m2)" by (metis surj_pair)
    note wl = write_lits_spec [OF Cons.prems(1) w]
    have "nss = ns # rest" "m' = m2" using Cons.prems(2) w r False by simp_all
    then show ?thesis using write_step [OF wl Cons.IH [OF _ r]] wl False by (simp add: extends_def)
  qed
qed (simp add: extends_refl)

lemma numbering_empty: "numbering ([], 0)"
  by (simp add: numbering_def)

lemma number_of_inj:
  "numbering m \<Longrightarrow> number_of m i = Some n \<Longrightarrow> number_of m j = Some n \<Longrightarrow> i = j"
  by (auto simp: numbering_def number_of_def split: if_splits)

lemma number_of_bound: "numbering m \<Longrightarrow> number_of m i = Some n \<Longrightarrow> 0 \<le> n \<and> n < snd m"
  by (fastforce simp: numbering_def number_of_def split: if_splits)

text \<open>The file written for a solver that is not in contradiction: one unit clause for every assumption, then the clauses
  that are not satisfied without their false literals, up to a numbering of the variables that is injective on
  those written; the header has the right number of clauses, and every variable of a clause is within the number of
  variables it announces.\<close>

lemma toDimacs_shape:
  assumes "ok s"
  defines "live \<equiv> filter (\<lambda>cr. \<not> satisfied s (clause_at s cr)) (clauses s)"
  shows "\<exists>num :: nat \<Rightarrow> int.
     dclauses (toDimacs as s) =
       map (map (\<lambda>l. if sign l then - (num (vix (var l)) + 1) else num (vix (var l)) + 1))
         (map (\<lambda>l. [l]) (assumptions s) @ map (not_false s) live) \<and>
     dcount (toDimacs as s) = length (dclauses (toDimacs as s)) \<and>
     inj_on num ((\<lambda>l. vix (var l)) ` (set (assumptions s) \<union> (\<Union>cr \<in> set live. set (not_false s cr)))) \<and>
     (\<forall>l \<in> set (assumptions s) \<union> (\<Union>cr \<in> set live. set (not_false s cr)). 0 \<le> num (vix (var l))) \<and>
     (\<forall>cr \<in> set live. \<forall>l \<in> set (not_false s cr). num (vix (var l)) < dvars (toDimacs as s))"
proof -
  define m where "m = map_lits (concat (map (not_false s) live)) ([], 0)"
  obtain us m1 where u: "write_units (assumptions s) m = (us, m1)" by (metis surj_pair)
  obtain cs m2 where c: "write_clauses s (clauses s) m1 = (cs, m2)" by (metis surj_pair)
  have f: "toDimacs as s = \<lparr>dvars = snd m, dcount = length live + length (assumptions s), dclauses = us @ cs\<rparr>"
    using assms(1) u c unfolding toDimacs_def live_def [symmetric] m_def [symmetric] Let_def by simp
  have m: "numbering m" "numbered m (concat (map (not_false s) live))"
    using map_lits_spec [OF numbering_empty] by (simp_all add: m_def extends_def)
  have us: "extends m m1" "\<forall>ks \<in> set (map (\<lambda>l. [l]) (assumptions s)). numbered m1 ks"
    "us = map (map (dlit m1)) (map (\<lambda>l. [l]) (assumptions s))" using write_units_spec [OF m(1) u] by blast+
  have m1: "numbering m1" using us(1) by (simp add: extends_def)
  have cs: "extends m1 m2" "\<forall>ks \<in> set (map (not_false s) live). numbered m2 ks"
    "cs = map (map (dlit m2)) (map (not_false s) live)" using write_clauses_spec [OF m1 c] unfolding live_def by blast+
  define num where "num i = the (number_of m2 i)" for i
  have dl: "dlit m2 = (\<lambda>l. if sign l then - (num (vix (var l)) + 1) else num (vix (var l)) + 1)"
    by (simp add: dlit_def num_def fun_eq_iff Let_def)
  have "us = map (map (dlit m2)) (map (\<lambda>l. [l]) (assumptions s))"
    unfolding us(3)
  proof (rule map_cong [OF refl])
    fix ks assume "ks \<in> set (map (\<lambda>l. [l]) (assumptions s))"
    then have "numbered m1 ks" using us(2) by blast
    then show "map (dlit m1) ks = map (dlit m2) ks" using dlit_extends [OF cs(1)] by simp
  qed
  then have "dclauses (toDimacs as s) = map (map (dlit m2)) (map (\<lambda>l. [l]) (assumptions s) @ map (not_false s) live)"
    unfolding f using cs(3) by simp
  moreover have "dcount (toDimacs as s) = length (dclauses (toDimacs as s))" unfolding f using us(3) cs(3) by simp
  moreover have "inj_on num ((\<lambda>l. vix (var l)) ` (set (assumptions s) \<union> (\<Union>cr \<in> set live. set (not_false s cr)))) \<and>
      (\<forall>l \<in> set (assumptions s) \<union> (\<Union>cr \<in> set live. set (not_false s cr)). 0 \<le> num (vix (var l)))"
  proof -
    let ?L = "set (assumptions s) \<union> (\<Union>cr \<in> set live. set (not_false s cr))"
    have N: "\<exists>n. number_of m2 (vix (var l)) = Some n" if "l \<in> ?L" for l
    proof -
      have "\<exists>ks. l \<in> set ks \<and> numbered m2 ks"
      proof (cases "l \<in> set (assumptions s)")
        case True
        then have "numbered m1 [l]" using us(2) by simp
        then have "numbered m2 [l]" by (rule numbered_extends [OF cs(1)])
        then show ?thesis by (intro exI [of _ "[l]"]) simp
      next
        case False
        then show ?thesis using that cs(2) by auto
      qed
      then show ?thesis by (auto simp: numbered_def)
    qed
    have nm2: "numbering m2" using cs(1) by (simp add: extends_def)
    have "0 \<le> num (vix (var l))" if "l \<in> ?L" for l
      using N [OF that] number_of_bound [OF nm2] by (auto simp: num_def)
    moreover have "inj_on num ((\<lambda>l. vix (var l)) ` ?L)"
    proof (rule inj_onI)
      fix x y assume "x \<in> (\<lambda>l. vix (var l)) ` ?L" "y \<in> (\<lambda>l. vix (var l)) ` ?L" "num x = num y"
      then obtain n k where "number_of m2 x = Some n" "number_of m2 y = Some k" using N by blast
      then show "x = y" using \<open>num x = num y\<close> number_of_inj [OF nm2, of x n y] by (simp add: num_def)
    qed
    ultimately show ?thesis by blast
  qed
  moreover have "num (vix (var l)) < dvars (toDimacs as s)"
    if l: "cr \<in> set live" "l \<in> set (not_false s cr)" for cr l
  proof -
    have "l \<in> set (concat (map (not_false s) live))" using l by auto
    then obtain n where n: "number_of m (vix (var l)) = Some n" using m(2) unfolding numbered_def by blast
    then have "number_of m2 (vix (var l)) = Some n" using us(1) cs(1) by (simp add: extends_def)
    then show ?thesis using number_of_bound [OF m(1) n] by (simp add: num_def f)
  qed
  ultimately show ?thesis unfolding dl by blast
qed

text \<open>The literals in the file.\<close>

definition written :: "'h solver \<Rightarrow> Lit set" where
  "written s = set (assumptions s) \<union>
     (\<Union>cr \<in> set (filter (\<lambda>cr. \<not> satisfied s (clause_at s cr)) (clauses s)). set (not_false s cr))"

text \<open>A solver without clauses and an assumption over the variable 3: the header is written before the
  assumption is numbered, so it announces no variables although the unit clause uses number 1.\<close>

definition assuming :: "options \<Rightarrow> region \<Rightarrow> unit solver" where
  "assuming o1 r = (solver_new o1 r 1 ())\<lparr>assumptions := [mkLit 3 True]\<rparr>"

lemma assuming_fields: "ok (assuming o1 r)" "clauses (assuming o1 r) = []" "assumptions (assuming o1 r) = [mkLit 3 True]"
  by (simp_all add: assuming_def solver_new_def)

lemma toDimacs_ignores_argument: "toDimacs as s = toDimacs [] s"
  by (simp add: toDimacs_def)

lemma header_misses_assumptions: "toDimacs as (assuming o1 r) = \<lparr>dvars = 0, dcount = 1, dclauses = [[- 1]]\<rparr>"
  by (simp add: toDimacs_def assuming_fields mapVar_def)

end
