(* ===== verification/Dimacs_Correct.thy ===== *)
theory Dimacs_Correct
  imports Solver_Dimacs Search_Session
begin

text \<open>
  What a DIMACS file written by \<^verbatim>\<open>toDimacs\<close> says about the problem.  The units of the trail are not written, but at
  the root level they only concern variables that occur in no written clause, so that the satisfying assignments
  of the file are exactly the restrictions of the models of the problem to the written variables.  Above the root
  level the satisfied clauses are dropped although nothing in the file makes them true.
\<close>

text \<open>The model of the problem that an assignment of the file stands for.\<close>

definition file_model :: "'h solver \<Rightarrow> (nat \<Rightarrow> int) \<Rightarrow> (int \<Rightarrow> bool) \<Rightarrow> Lit \<Rightarrow> bool" where
  "file_model s num N l =
     (if \<exists>p \<in> set (trail s). var p = var l then l \<in> set (trail s) else N (num (vix (var l)) + 1) \<noteq> sign l)"

lemma trail_var:
  assumes "trail_ok s" and "p \<in> set (trail s)" and "q \<in> set (trail s)" and "var p = var q"
  shows "p = q"
  using assms by (auto simp: trail_ok_def distinct_map inj_on_def)

lemma file_model_lit:
  assumes tok: "trail_ok s"
  shows "lit_model (file_model s num N)"
proof -
  have "file_model s num N (neg l) = (\<not> file_model s num N l)" for l
  proof (cases "\<exists>p \<in> set (trail s). var p = var l")
    case True
    then obtain p where p: "p \<in> set (trail s)" "var p = var l" by blast
    then have "p = l \<or> p = neg l" by (simp add: var_eq_cases)
    moreover have "\<not> (l \<in> set (trail s) \<and> neg l \<in> set (trail s))" using trail_var [OF tok, of l "neg l"] by auto
    ultimately show ?thesis using p True by (auto simp: file_model_def)
  qed (auto simp: file_model_def)
  then show ?thesis by (simp add: lit_model_def)
qed

lemma not_false_iff: "l \<in> set (not_false s cr) \<longleftrightarrow> l \<in> set (clits s cr) \<and> \<not> isF s l"
  by (simp add: not_false_def clits_def)

lemma satisfied_iff: "satisfied s (clause_at s cr) \<longleftrightarrow> (\<exists>l \<in> set (clits s cr). isT s l)"
  by (simp add: satisfied_def clits_def)

lemma dimacs_models:
  fixes s :: "'h solver"
  assumes b: "base P s" and d: "decisionLevel s = 0" and as: "\<forall>a \<in> set (assumptions s). lit_ok (nVars s) a \<and> \<not> isF s a"
    and num: "dclauses F = map (map (\<lambda>l. if sign l then - (num (vix (var l)) + 1) else num (vix (var l)) + 1))
         (map (\<lambda>l. [l]) (assumptions s) @ map (not_false s) (filter (\<lambda>cr. \<not> satisfied s (clause_at s cr)) (clauses s)))"
    and pos: "\<forall>l \<in> written s. 0 \<le> num (vix (var l))"
  shows "dimacs_true N F \<longleftrightarrow>
     (\<exists>M \<in> P. (\<forall>a \<in> set (assumptions s). M a) \<and> (\<forall>l \<in> written s. M l = (N (num (vix (var l)) + 1) \<noteq> sign l)))"
proof -
  note bd = baseD [OF b]
  let ?live = "filter (\<lambda>cr. \<not> satisfied s (clause_at s cr)) (clauses s)" and ?N = "\<lambda>l. N (num (vix (var l)) + 1) \<noteq> sign l"
  have root: "level s (var p) = 0" if "p \<in> set (trail s)" for p using levels_okD(3) [OF bd(2) that] d by simp
  have prob: "M \<in> P \<longleftrightarrow> lit_model M \<and> (\<forall>cr \<in> set (clauses s). \<exists>l \<in> set (clits s cr). M l) \<and> (\<forall>p \<in> set (trail s). M p)" for M
  proof -
    have "M \<in> P \<longleftrightarrow> lit_model M \<and> (\<forall>cr \<in> set (clauses s). \<exists>l \<in> set (clits s cr). M l) \<and>
        (\<forall>p \<in> set (trail s). level s (var p) = 0 \<longrightarrow> M p)"
      using bd(11) unfolding problem_def by (elim conjE) (erule spec)
    then show ?thesis using root by simp
  qed
  have ok: "lit_ok (nVars s) l" if "cr \<in> set (clauses s)" "l \<in> set (clits s cr)" for cr l
    using bd(18) [of cr] that by (simp add: db_def)
  have T: "isT s l \<longleftrightarrow> l \<in> set (trail s)" and Fl: "isF s l \<longleftrightarrow> neg l \<in> set (trail s)" if "lit_ok (nVars s) l" for l
    using trail_okD(1,2) [OF bd(14) that] by blast+
  have lit: "(if 0 < x then N x else \<not> N (- x)) = ?N l"
    if "l \<in> written s" "x = (if sign l then - (num (vix (var l)) + 1) else num (vix (var l)) + 1)" for l x
  proof -
    have "0 \<le> num (vix (var l))" using pos that(1) by blast
    then show ?thesis unfolding that(2) by (cases "sign l") (simp_all add: add.commute)
  qed
  have W: "a \<in> written s" if "a \<in> set (assumptions s)" for a using that by (simp add: written_def)
  have W2: "l \<in> written s" if "cr \<in> set (clauses s)" "\<not> satisfied s (clause_at s cr)" "l \<in> set (not_false s cr)" for cr l
    using that by (auto simp: written_def)
  have fileN: "dimacs_true N F \<longleftrightarrow> (\<forall>a \<in> set (assumptions s). ?N a) \<and>
      (\<forall>cr \<in> set (clauses s). \<not> satisfied s (clause_at s cr) \<longrightarrow> (\<exists>l \<in> set (not_false s cr). ?N l))"
  proof -
    let ?cs = "map (\<lambda>l. [l]) (assumptions s) @ map (not_false s) ?live"
    let ?enc = "\<lambda>l. if sign l then - (num (vix (var l)) + 1) else num (vix (var l)) + 1"
    have "dimacs_true N F \<longleftrightarrow> (\<forall>c \<in> set ?cs. \<exists>l \<in> set c. if 0 < ?enc l then N (?enc l) else \<not> N (- ?enc l))"
      by (simp only: dimacs_true_def num set_map ball_simps bex_simps)
    also have "\<dots> \<longleftrightarrow> (\<forall>c \<in> set ?cs. \<exists>l \<in> set c. ?N l)"
    proof (rule ball_cong [OF refl], rule bex_cong [OF refl])
      fix c l assume c: "c \<in> set ?cs" "l \<in> set c"
      have "l \<in> written s" using c unfolding written_def by auto
      then show "(if 0 < ?enc l then N (?enc l) else \<not> N (- ?enc l)) = ?N l" by (rule lit [OF _ refl])
    qed
    also have "\<dots> \<longleftrightarrow> (\<forall>a \<in> set (assumptions s). ?N a) \<and> (\<forall>cr \<in> set ?live. \<exists>l \<in> set (not_false s cr). ?N l)"
      by (simp only: set_append set_map ball_Un ball_simps list.set bex_simps) simp
    also have "(\<forall>cr \<in> set ?live. \<exists>l \<in> set (not_false s cr). ?N l) \<longleftrightarrow>
      (\<forall>cr \<in> set (clauses s). \<not> satisfied s (clause_at s cr) \<longrightarrow> (\<exists>l \<in> set (not_false s cr). ?N l))"
      by (simp only: set_filter mem_Collect_eq Ball_def) blast
    finally show ?thesis .
  qed
  show ?thesis
  proof
    assume "dimacs_true N F"
    then have sat: "\<forall>a \<in> set (assumptions s). ?N a"
      "\<forall>cr \<in> set (clauses s). \<not> satisfied s (clause_at s cr) \<longrightarrow> (\<exists>l \<in> set (not_false s cr). ?N l)" by (simp_all add: fileN)
    let ?M = "file_model s num N"
    have true: "?M p" if "p \<in> set (trail s)" for p using that by (auto simp: file_model_def)
    have free: "?M l = ?N l" if l: "lit_ok (nVars s) l" "\<not> isF s l" "isT s l \<longrightarrow> ?N l" for l
    proof (cases "\<exists>p \<in> set (trail s). var p = var l")
      case True
      then obtain p where p: "p \<in> set (trail s)" "var p = var l" by blast
      then have "p = l \<or> p = neg l" by (simp add: var_eq_cases)
      then have "l \<in> set (trail s)" using p(1) l(1,2) Fl by auto
      then show ?thesis using true l(1,3) T by simp
    next
      case False
      then show ?thesis by (auto simp: file_model_def)
    qed
    have agree: "?M l = ?N l" if "l \<in> written s" for l
    proof (cases "l \<in> set (assumptions s)")
      case True
      then show ?thesis using free [of l] as sat(1) by blast
    next
      case False
      then obtain cr where cr: "cr \<in> set (clauses s)" "\<not> satisfied s (clause_at s cr)" "l \<in> set (not_false s cr)"
        using \<open>l \<in> written s\<close> by (auto simp: written_def)
      then have "l \<in> set (clits s cr)" "\<not> isF s l" "\<not> isT s l" by (auto simp: not_false_iff satisfied_iff)
      then show ?thesis using free [of l] ok [OF cr(1)] by blast
    qed
    have "\<exists>l \<in> set (clits s cr). ?M l" if cr: "cr \<in> set (clauses s)" for cr
    proof (cases "satisfied s (clause_at s cr)")
      case True
      then obtain l where "l \<in> set (clits s cr)" "isT s l" by (auto simp: satisfied_iff)
      then show ?thesis using true T ok [OF cr] by blast
    next
      case False
      then obtain l where l: "l \<in> set (not_false s cr)" "?N l" using sat(2) cr by blast
      then have "?M l" using agree [OF W2 [OF cr False l(1)]] by blast
      then show ?thesis using l(1) by (auto simp: not_false_iff)
    qed
    then have "?M \<in> P" unfolding prob using file_model_lit [OF bd(14)] true by blast
    then show "\<exists>M \<in> P. (\<forall>a \<in> set (assumptions s). M a) \<and> (\<forall>l \<in> written s. M l = ?N l)"
      using agree sat(1) W by (intro bexI [of _ ?M]) blast+
  next
    assume "\<exists>M \<in> P. (\<forall>a \<in> set (assumptions s). M a) \<and> (\<forall>l \<in> written s. M l = ?N l)"
    then obtain M where M: "M \<in> P" "\<forall>a \<in> set (assumptions s). M a" "\<forall>l \<in> written s. M l = ?N l" by blast
    have "\<exists>l \<in> set (not_false s cr). ?N l" if cr: "cr \<in> set (clauses s)" "\<not> satisfied s (clause_at s cr)" for cr
    proof -
      obtain l where l: "l \<in> set (clits s cr)" "M l" using M(1) cr(1) prob by blast
      have "\<not> isF s l"
      proof
        assume "isF s l"
        then have "M (neg l)" using Fl ok [OF cr(1) l(1)] M(1) prob by blast
        then show False using l(2) M(1) prob by (simp add: lit_model_def)
      qed
      then have "l \<in> set (not_false s cr)" using l(1) by (simp add: not_false_iff)
      then show ?thesis using M(3) W2 [OF cr] l(2) by blast
    qed
    moreover have "\<forall>a \<in> set (assumptions s). ?N a" using M(2,3) W by blast
    ultimately show "dimacs_true N F" by (simp add: fileN)
  qed
qed

text \<open>C35: the file that \<^verbatim>\<open>toDimacs\<close> writes at the root level of a session is the problem, with the assumptions the
  solver holds as unit clauses.  There is a numbering of the variables, injective on those written, under which the
  assignments that satisfy the file are exactly the models of the clauses added so far and of the assumptions,
  restricted to the written variables: no unit of the trail is written, and none is needed.  A solver that is marked
  as contradictory writes a file without satisfying assignments, and then the clauses have no model.  The header has
  the right number of clauses, and the right bound on the variables when there are no assumptions.\<close>

theorem toDimacs_models:
  fixes st :: "'h search" and bs :: "Lit list"
  assumes "session T Q P st" and "decisionLevel (sol st) = 0"
    and "\<forall>a \<in> set as. lit_ok (nVars (sol st)) a \<and> \<not> isF (sol st) a"
  defines "s \<equiv> (sol st)\<lparr>assumptions := as\<rparr>"
  defines "F \<equiv> toDimacs bs s"
  shows "dcount F = length (dclauses F) \<and>
     (if ok (sol st)
      then \<exists>num. inj_on num ((\<lambda>l. vix (var l)) ` written s) \<and>
             (\<forall>N. dimacs_true N F \<longleftrightarrow>
                (\<exists>M \<in> P. (\<forall>a \<in> set as. M a) \<and> (\<forall>l \<in> written s. M l = (N (num (vix (var l)) + 1) \<noteq> sign l)))) \<and>
             (as = [] \<longrightarrow> (\<forall>c \<in> set (dclauses F). \<forall>x \<in> set c. x \<noteq> 0 \<and> \<bar>x\<bar> \<le> dvars F))
      else P = {} \<and> (\<forall>N. \<not> dimacs_true N F))"
proof (cases "ok (sol st)")
  case False
  then have "F = \<lparr>dvars = 1, dcount = 2, dclauses = [[1], [- 1]]\<rparr>" by (simp add: F_def s_def toDimacs_def)
  moreover have "P = {}" using session_between [OF assms(1)] False by (simp add: between_def)
  ultimately show ?thesis using False by (simp add: dimacs_true_def)
next
  case True
  then have "base P (sol st)" using session_between [OF assms(1)] by (simp add: between_def ready_def)
  then have b: "base P s" unfolding s_def by (rule base_assumptions)
  have e: "assumptions s = as" "ok s" using True by (simp_all add: s_def)
  have "isF s = isF (sol st)" "nVars s = nVars (sol st)" "decisionLevel s = 0"
    using state_eqs [of s "sol st"] assms(2) by (simp_all add: s_def decisionLevel_def)
  then have s: "decisionLevel s = 0" "\<forall>a \<in> set (assumptions s). lit_ok (nVars s) a \<and> \<not> isF s a" using assms(3) e by simp_all
  from toDimacs_shape [OF e(2), of bs] obtain num where n:
    "dclauses F = map (map (\<lambda>l. if sign l then - (num (vix (var l)) + 1) else num (vix (var l)) + 1))
         (map (\<lambda>l. [l]) (assumptions s) @ map (not_false s) (filter (\<lambda>cr. \<not> satisfied s (clause_at s cr)) (clauses s)))"
    "dcount F = length (dclauses F)" "inj_on num ((\<lambda>l. vix (var l)) ` written s)" "\<forall>l \<in> written s. 0 \<le> num (vix (var l))"
    "\<forall>cr \<in> set (filter (\<lambda>cr. \<not> satisfied s (clause_at s cr)) (clauses s)). \<forall>l \<in> set (not_false s cr). num (vix (var l)) < dvars F"
    unfolding F_def [symmetric] written_def [symmetric] by blast
  have "\<forall>N. dimacs_true N F \<longleftrightarrow>
      (\<exists>M \<in> P. (\<forall>a \<in> set as. M a) \<and> (\<forall>l \<in> written s. M l = (N (num (vix (var l)) + 1) \<noteq> sign l)))"
    using dimacs_models [OF b s n(1,4)] by (simp add: e(1))
  moreover have "x \<noteq> 0 \<and> \<bar>x\<bar> \<le> dvars F" if x: "as = []" "c \<in> set (dclauses F)" "x \<in> set c" for c x
  proof -
    obtain cr l where l: "cr \<in> set (filter (\<lambda>cr. \<not> satisfied s (clause_at s cr)) (clauses s))" "l \<in> set (not_false s cr)"
      "x = (if sign l then - (num (vix (var l)) + 1) else num (vix (var l)) + 1)"
      using x unfolding n(1) e(1) by auto
    have "l \<in> written s" using l(1,2) unfolding written_def by blast
    then have "0 \<le> num (vix (var l))" "num (vix (var l)) < dvars F" using n(4,5) l(1,2) by blast+
    then show ?thesis using l(3) by simp
  qed
  ultimately show ?thesis using True n(2,3) by auto
qed

text \<open>The clause \<open>x0 \<or> x1\<close> with the assumption \<open>\<not> x0\<close>.\<close>

theorem toDimacs_models_witness:
  "\<exists>(st :: unit search) num. ok (sol st) \<and> nVars (sol st) = 2 \<and> (\<forall>N. dimacs_true N (toDimacs [] ((sol st)\<lparr>assumptions := []\<rparr>)) \<longleftrightarrow>
     (\<exists>M. lit_model M \<and> M \<in> clause_models [mkLit 0 False, mkLit 1 False] \<and>
        (\<forall>l \<in> written ((sol st)\<lparr>assumptions := []\<rparr>). M l = (N (num (vix (var l)) + 1) \<noteq> sign l))))"
proof -
  let ?P = "{M. lit_model M} \<inter> clause_models [mkLit 0 False, mkLit 1 False]"
  obtain st where st: "session no_theories no_search_ops ?P st" "nVars (sol st) = 2" "decisionLevel (sol st) = 0"
    using demo_clause by blast
  have "(\<lambda>l. \<not> sign l) \<in> ?P" by (simp add: lit_model_def clause_models_def)
  then have o: "ok (sol st)" using session_between [OF st(1)] unfolding between_def by (metis empty_iff)
  have "\<forall>a \<in> set []. lit_ok (nVars (sol st)) a \<and> \<not> isF (sol st) a" by simp
  from toDimacs_models [OF st(1,3) this, of "[]"] o obtain num where
    "\<forall>N. dimacs_true N (toDimacs [] ((sol st)\<lparr>assumptions := []\<rparr>)) \<longleftrightarrow>
      (\<exists>M \<in> ?P. (\<forall>a \<in> set []. M a) \<and> (\<forall>l \<in> written ((sol st)\<lparr>assumptions := []\<rparr>). M l = (N (num (vix (var l)) + 1) \<noteq> sign l)))"
    by auto
  then show ?thesis using o st(2) by (intro exI [of _ st] exI [of _ num]) auto
qed

end
