(* ===== verification/Circuit.thy ===== *)
theory Circuit
  imports SolverTypes "HOL-Library.Monad_Syntax"
begin

text \<open>
  \<^verbatim>\<open>api/Circuit.h\<close>: combinational logic in CNF.  \<^verbatim>\<open>Circuit\<close> is a template over the solver: its methods are the
  record \<open>solver_api\<close>, and the solver's state is part of the state of the circuit.  The overloads of a function
  for one literal, two literals, a vector, a list and any number of arguments get a suffix.  A \<^verbatim>\<open>const vec<Lit>&\<close>
  may be a member of the circuit itself: where the code clears that member the argument is a \<open>vec_ref\<close>.
  \<open>None\<close> means that the solver does not return, or that an index is out of bounds.
\<close>

section \<open>State\<close>

record 's solver_api =
  api_newVar :: "'s \<Rightarrow> Var \<times> 's"
  api_addClause :: "Lit list \<Rightarrow> 's \<Rightarrow> 's option"
  api_value :: "'s \<Rightarrow> Lit \<Rightarrow> lbool"
  api_level :: "'s \<Rightarrow> Var \<Rightarrow> nat"

record 's circuit =
  sol :: 's
  lit_True :: Lit
  c_tmp :: "Lit list"
  c_tmp2 :: "Lit list"
  c_store :: "Lit list"

definition isConstTrue :: "'s solver_api \<Rightarrow> Lit \<Rightarrow> 's circuit \<Rightarrow> bool" where
  "isConstTrue I l c \<longleftrightarrow> lb_eq (api_value I (sol c) l) l_True \<and> api_level I (sol c) (var l) = 0"

definition isConstFalse :: "'s solver_api \<Rightarrow> Lit \<Rightarrow> 's circuit \<Rightarrow> bool" where
  "isConstFalse I l c \<longleftrightarrow> lb_eq (api_value I (sol c) l) l_False \<and> api_level I (sol c) (var l) = 0"

definition isConst :: "'s solver_api \<Rightarrow> Lit \<Rightarrow> 's circuit \<Rightarrow> bool" where
  "isConst I l c \<longleftrightarrow> isConstTrue I l c \<or> isConstFalse I l c"

definition getTrue :: "'s circuit \<Rightarrow> Lit" where "getTrue c = lit_True c"
definition getFalse :: "'s circuit \<Rightarrow> Lit" where "getFalse c = neg (lit_True c)"

definition fresh_lit :: "'s solver_api \<Rightarrow> 's circuit \<Rightarrow> Lit \<times> 's circuit" where
  "fresh_lit I c = (case api_newVar I (sol c) of (v, s) \<Rightarrow> (mkLit v False, c\<lparr>sol := s\<rparr>))"

definition c_addClause :: "'s solver_api \<Rightarrow> Lit list \<Rightarrow> 's circuit \<Rightarrow> 's circuit option" where
  "c_addClause I ps c = map_option (\<lambda>s. c\<lparr>sol := s\<rparr>) (api_addClause I ps (sol c))"

fun add_all :: "'s solver_api \<Rightarrow> Lit list list \<Rightarrow> 's circuit \<Rightarrow> 's circuit option" where
  "add_all I [] c = Some c"
| "add_all I (ps # pss) c = do { c1 \<leftarrow> c_addClause I ps c; add_all I pss c1 }"

definition new_circuit :: "'s solver_api \<Rightarrow> 's \<Rightarrow> 's circuit option" where
  "new_circuit I s =
     (let (t, c) = fresh_lit I \<lparr>sol = s, lit_True = lit_Undef, c_tmp = [], c_tmp2 = [], c_store = []\<rparr>
      in c_addClause I [t] (c\<lparr>lit_True := t\<rparr>))"

section \<open>Reduction by a binary gate\<close>

fun bin_pass ::
  "(Lit \<Rightarrow> Lit \<Rightarrow> 's circuit \<Rightarrow> (Lit \<times> 's circuit) option) \<Rightarrow> Lit list \<Rightarrow> 's circuit \<Rightarrow> (Lit list \<times> 's circuit) option" where
  "bin_pass f [] c = Some ([], c)"
| "bin_pass f [a] c = Some ([a], c)"
| "bin_pass f (a # b # ls) c =
     do {
       (r, c1) \<leftarrow> f a b c;
       (rs, c2) \<leftarrow> bin_pass f ls c1;
       Some (r # rs, c2)
     }"

partial_function (option) bin_loop ::
  "(Lit \<Rightarrow> Lit \<Rightarrow> 's circuit \<Rightarrow> (Lit \<times> 's circuit) option) \<Rightarrow> Lit list \<Rightarrow> 's circuit \<Rightarrow> (Lit list \<times> 's circuit) option" where
  "bin_loop f ls c =
     (if 1 < length ls then Option.bind (bin_pass f ls c) (\<lambda>r. bin_loop f (fst r) (snd r)) else Some (ls, c))"

definition bin_op ::
  "(Lit \<Rightarrow> Lit \<Rightarrow> 's circuit \<Rightarrow> (Lit \<times> 's circuit) option) \<Rightarrow> Lit list \<Rightarrow> 's circuit \<Rightarrow> (Lit \<times> 's circuit) option" where
  "bin_op f ls c =
     do {
       (rs, c1) \<leftarrow> bin_loop f ls c;
       Some (if rs \<noteq> [] then rs ! 0 else lit_True c1, c1)
     }"

section \<open>Assertions\<close>

definition Assert :: "'s solver_api \<Rightarrow> Lit \<Rightarrow> 's circuit \<Rightarrow> 's circuit option" where
  "Assert I l c = c_addClause I [l] c"

definition AssertXnor2 :: "'s solver_api \<Rightarrow> Lit \<Rightarrow> Lit \<Rightarrow> 's circuit \<Rightarrow> 's circuit option" where
  "AssertXnor2 I a b c = add_all I [[neg a, b], [a, neg b]] c"

definition AssertEqual2 :: "'s solver_api \<Rightarrow> Lit \<Rightarrow> Lit \<Rightarrow> 's circuit \<Rightarrow> 's circuit option" where
  "AssertEqual2 I a b c = AssertXnor2 I a b c"

definition AssertImplies :: "'s solver_api \<Rightarrow> Lit \<Rightarrow> Lit \<Rightarrow> 's circuit \<Rightarrow> 's circuit option" where
  "AssertImplies I a b c = c_addClause I [neg a, b] c"

definition assert_out :: "'s solver_api \<Rightarrow> Lit \<Rightarrow> Lit \<Rightarrow> 's circuit \<Rightarrow> 's circuit option" where
  "assert_out I out l c = (if out \<noteq> lit_Undef then Assert I l c else Some c)"

definition equal_out :: "'s solver_api \<Rightarrow> Lit \<Rightarrow> Lit \<Rightarrow> 's circuit \<Rightarrow> 's circuit option" where
  "equal_out I out l c = (if out \<noteq> lit_Undef then AssertEqual2 I l out c else Some c)"

definition pick_out :: "'s solver_api \<Rightarrow> Lit \<Rightarrow> 's circuit \<Rightarrow> Lit \<times> 's circuit" where
  "pick_out I out c = (if out = lit_Undef then fresh_lit I c else (out, c))"

section \<open>And\<close>

definition And1 :: "Lit \<Rightarrow> 's circuit \<Rightarrow> (Lit \<times> 's circuit) option" where
  "And1 a c = Some (a, c)"

definition and_clauses :: "'s solver_api \<Rightarrow> Lit \<Rightarrow> Lit \<Rightarrow> Lit \<Rightarrow> 's circuit \<Rightarrow> (Lit \<times> 's circuit) option" where
  "and_clauses I a b out c =
     map_option (Pair out) (add_all I [[a, neg out], [b, neg out], [neg a, neg b, out]] c)"

definition And2 :: "'s solver_api \<Rightarrow> Lit \<Rightarrow> Lit \<Rightarrow> 's circuit \<Rightarrow> (Lit \<times> 's circuit) option" where
  "And2 I a b c =
     (if isConstTrue I a c then Some (b, c)
      else if isConstFalse I a c then Some (a, c)
      else if isConstTrue I b c then Some (a, c)
      else if isConstFalse I b c then Some (b, c)
      else let (out, c1) = fresh_lit I c in and_clauses I a b out c1)"

definition And_out2 :: "'s solver_api \<Rightarrow> Lit \<Rightarrow> Lit \<Rightarrow> Lit \<Rightarrow> 's circuit \<Rightarrow> (Lit \<times> 's circuit) option" where
  "And_out2 I a b out c =
     (if isConstTrue I a c \<and> isConstTrue I b c then map_option (\<lambda>c1. (getTrue c1, c1)) (assert_out I out out c)
      else if isConstFalse I a c \<or> isConstFalse I b c
      then map_option (\<lambda>c1. (getFalse c1, c1)) (assert_out I out (neg out) c)
      else if isConstTrue I a c then map_option (Pair b) (equal_out I out b c)
      else if isConstTrue I b c then map_option (Pair a) (equal_out I out a c)
      else let (out', c1) = pick_out I out c in and_clauses I a b out' c1)"

text \<open>The scan of a vector pushes on \<^verbatim>\<open>tmp\<close> and stops at a literal that decides the gate, leaving \<^verbatim>\<open>tmp\<close> as it is.\<close>

fun and_scan :: "'s solver_api \<Rightarrow> Lit list \<Rightarrow> 's circuit \<Rightarrow> bool \<times> 's circuit" where
  "and_scan I [] c = (False, c)"
| "and_scan I (l # ls) c =
     (if isConstFalse I l c then (True, c)
      else if isConstTrue I l c then and_scan I ls c
      else and_scan I ls (c\<lparr>c_tmp := c_tmp c @ [l]\<rparr>))"

definition And_out :: "'s solver_api \<Rightarrow> Lit list \<Rightarrow> Lit \<Rightarrow> 's circuit \<Rightarrow> (Lit \<times> 's circuit) option" where
  "And_out I vals out c =
     (let (stop, c1) = and_scan I vals c; ts = c_tmp c1
      in if stop then map_option (\<lambda>c2. (getFalse c2, c2)) (assert_out I out (neg out) c1)
         else if length ts = 0 then map_option (\<lambda>c2. (getTrue c2, c2)) (assert_out I out out c1)
         else if length ts = 1 then map_option (Pair (ts ! 0)) (equal_out I out (ts ! 0) c1)
         else let (out', c2) = pick_out I out c1
              in map_option (\<lambda>c3. (out', c3\<lparr>c_tmp := []\<rparr>)) (add_all I (map (\<lambda>l. [l, neg out']) ts @ [map neg ts @ [out']]) c2))"

definition And_out_list :: "'s solver_api \<Rightarrow> Lit list \<Rightarrow> Lit \<Rightarrow> 's circuit \<Rightarrow> (Lit \<times> 's circuit) option" where
  "And_out_list I vals out c = And_out I vals out (c\<lparr>c_tmp2 := vals\<rparr>)"

definition And_vec :: "'s solver_api \<Rightarrow> Lit list \<Rightarrow> 's circuit \<Rightarrow> (Lit \<times> 's circuit) option" where
  "And_vec I vals c = And_out I vals lit_Undef c"

definition And_list :: "'s solver_api \<Rightarrow> Lit list \<Rightarrow> 's circuit \<Rightarrow> (Lit \<times> 's circuit) option" where
  "And_list I vals c = And_vec I vals (c\<lparr>c_tmp2 := vals\<rparr>)"

definition And_args :: "'s solver_api \<Rightarrow> Lit list \<Rightarrow> 's circuit \<Rightarrow> (Lit \<times> 's circuit) option" where
  "And_args I args c = And_vec I args (c\<lparr>c_store := args\<rparr>)"

section \<open>Or\<close>

definition Or1 :: "Lit \<Rightarrow> 's circuit \<Rightarrow> (Lit \<times> 's circuit) option" where
  "Or1 a c = Some (a, c)"

definition or_clauses :: "'s solver_api \<Rightarrow> Lit \<Rightarrow> Lit \<Rightarrow> Lit \<Rightarrow> 's circuit \<Rightarrow> (Lit \<times> 's circuit) option" where
  "or_clauses I a b out c =
     map_option (Pair out) (add_all I [[neg a, out], [neg b, out], [a, b, neg out]] c)"

definition Or2 :: "'s solver_api \<Rightarrow> Lit \<Rightarrow> Lit \<Rightarrow> 's circuit \<Rightarrow> (Lit \<times> 's circuit) option" where
  "Or2 I a b c =
     (if isConstTrue I a c then Some (getTrue c, c)
      else if isConstTrue I b c then Some (getTrue c, c)
      else if isConstFalse I a c then Some (b, c)
      else if isConstFalse I b c then Some (a, c)
      else let (out, c1) = fresh_lit I c in or_clauses I a b out c1)"

definition Or_out2 :: "'s solver_api \<Rightarrow> Lit \<Rightarrow> Lit \<Rightarrow> Lit \<Rightarrow> 's circuit \<Rightarrow> (Lit \<times> 's circuit) option" where
  "Or_out2 I a b out c =
     (if isConstFalse I a c \<and> isConstFalse I b c
      then map_option (\<lambda>c1. (getFalse c1, c1)) (assert_out I out (neg out) c)
      else if isConstTrue I a c \<or> isConstTrue I b c then map_option (\<lambda>c1. (getTrue c1, c1)) (assert_out I out out c)
      else if isConstFalse I a c then map_option (Pair b) (equal_out I out b c)
      else if isConstFalse I b c then map_option (Pair a) (equal_out I out a c)
      else let (out', c1) = pick_out I out c in or_clauses I a b out' c1)"

fun or_scan :: "'s solver_api \<Rightarrow> Lit list \<Rightarrow> 's circuit \<Rightarrow> bool \<times> 's circuit" where
  "or_scan I [] c = (False, c)"
| "or_scan I (l # ls) c =
     (if isConstFalse I l c then or_scan I ls c
      else if isConstTrue I l c then (True, c)
      else or_scan I ls (c\<lparr>c_tmp := c_tmp c @ [l]\<rparr>))"

definition Or_out :: "'s solver_api \<Rightarrow> Lit list \<Rightarrow> Lit \<Rightarrow> 's circuit \<Rightarrow> (Lit \<times> 's circuit) option" where
  "Or_out I vals out c =
     (let (stop, c1) = or_scan I vals c; ts = c_tmp c1
      in if stop then map_option (\<lambda>c2. (getTrue c2, c2)) (assert_out I out out c1)
         else if length ts = 0 then map_option (\<lambda>c2. (getFalse c2, c2)) (assert_out I out (neg out) c1)
         else if length ts = 1 then map_option (Pair (ts ! 0)) (equal_out I out (ts ! 0) c1)
         else let (out', c2) = pick_out I out c1
              in map_option (\<lambda>c3. (out', c3\<lparr>c_tmp := []\<rparr>)) (add_all I (map (\<lambda>l. [neg l, out']) ts @ [ts @ [neg out']]) c2))"

definition Or_vec :: "'s solver_api \<Rightarrow> Lit list \<Rightarrow> 's circuit \<Rightarrow> (Lit \<times> 's circuit) option" where
  "Or_vec I vals c = Or_out I vals lit_Undef c"

definition Or_list :: "'s solver_api \<Rightarrow> Lit list \<Rightarrow> 's circuit \<Rightarrow> (Lit \<times> 's circuit) option" where
  "Or_list I vals c = Or_vec I vals (c\<lparr>c_tmp2 := vals\<rparr>)"

definition Or_args :: "'s solver_api \<Rightarrow> Lit list \<Rightarrow> 's circuit \<Rightarrow> (Lit \<times> 's circuit) option" where
  "Or_args I args c = Or_vec I args (c\<lparr>c_store := args\<rparr>)"

section \<open>Nor, Nand\<close>

definition negated :: "(Lit \<times> 's circuit) option \<Rightarrow> (Lit \<times> 's circuit) option" where
  "negated r = map_option (\<lambda>(l, c). (neg l, c)) r"

definition Nor1 :: "Lit \<Rightarrow> 's circuit \<Rightarrow> (Lit \<times> 's circuit) option" where "Nor1 a c = Some (neg a, c)"
definition Nor2 :: "'s solver_api \<Rightarrow> Lit \<Rightarrow> Lit \<Rightarrow> 's circuit \<Rightarrow> (Lit \<times> 's circuit) option" where
  "Nor2 I a b c = negated (Or2 I a b c)"
definition Nor_list :: "'s solver_api \<Rightarrow> Lit list \<Rightarrow> 's circuit \<Rightarrow> (Lit \<times> 's circuit) option" where
  "Nor_list I vals c = negated (Or_list I vals c)"
definition Nor_vec :: "'s solver_api \<Rightarrow> Lit list \<Rightarrow> 's circuit \<Rightarrow> (Lit \<times> 's circuit) option" where
  "Nor_vec I vals c = negated (Or_vec I vals c)"
definition Nor_args :: "'s solver_api \<Rightarrow> Lit list \<Rightarrow> 's circuit \<Rightarrow> (Lit \<times> 's circuit) option" where
  "Nor_args I args c = Nor_vec I args (c\<lparr>c_store := args\<rparr>)"

definition Nand1 :: "Lit \<Rightarrow> 's circuit \<Rightarrow> (Lit \<times> 's circuit) option" where "Nand1 a c = Some (neg a, c)"
definition Nand2 :: "'s solver_api \<Rightarrow> Lit \<Rightarrow> Lit \<Rightarrow> 's circuit \<Rightarrow> (Lit \<times> 's circuit) option" where
  "Nand2 I a b c = negated (And2 I a b c)"
definition Nand_list :: "'s solver_api \<Rightarrow> Lit list \<Rightarrow> 's circuit \<Rightarrow> (Lit \<times> 's circuit) option" where
  "Nand_list I vals c = negated (And_list I vals c)"
definition Nand_vec :: "'s solver_api \<Rightarrow> Lit list \<Rightarrow> 's circuit \<Rightarrow> (Lit \<times> 's circuit) option" where
  "Nand_vec I vals c = negated (And_vec I vals c)"
definition Nand_args :: "'s solver_api \<Rightarrow> Lit list \<Rightarrow> 's circuit \<Rightarrow> (Lit \<times> 's circuit) option" where
  "Nand_args I args c = Nand_vec I args (c\<lparr>c_store := args\<rparr>)"

section \<open>Xor, Xnor\<close>

definition Xor1 :: "Lit \<Rightarrow> 's circuit \<Rightarrow> (Lit \<times> 's circuit) option" where "Xor1 a c = Some (neg a, c)"

definition xor_clauses :: "'s solver_api \<Rightarrow> Lit \<Rightarrow> Lit \<Rightarrow> Lit \<Rightarrow> 's circuit \<Rightarrow> (Lit \<times> 's circuit) option" where
  "xor_clauses I a b out c =
     map_option (Pair out)
       (add_all I [[a, b, neg out], [neg a, b, out], [a, neg b, out], [neg a, neg b, neg out]] c)"

definition Xor2 :: "'s solver_api \<Rightarrow> Lit \<Rightarrow> Lit \<Rightarrow> 's circuit \<Rightarrow> (Lit \<times> 's circuit) option" where
  "Xor2 I a b c =
     (if isConstTrue I a c then Some (neg b, c)
      else if isConstFalse I a c then Some (b, c)
      else if isConstTrue I b c then Some (neg a, c)
      else if isConstFalse I b c then Some (a, c)
      else let (out, c1) = fresh_lit I c in xor_clauses I a b out c1)"

text \<open>The fresh output is taken when there is one already.\<close>

definition Xor_out2 :: "'s solver_api \<Rightarrow> Lit \<Rightarrow> Lit \<Rightarrow> Lit \<Rightarrow> 's circuit \<Rightarrow> (Lit \<times> 's circuit) option" where
  "Xor_out2 I a b out c =
     (if isConstTrue I a c then map_option (Pair (neg b)) (equal_out I out (neg b) c)
      else if isConstFalse I a c then map_option (Pair b) (equal_out I out b c)
      else if isConstTrue I b c then map_option (Pair (neg a)) (equal_out I out (neg a) c)
      else if isConstFalse I b c then map_option (Pair a) (equal_out I out a c)
      else let (out', c1) = (if out \<noteq> lit_Undef then fresh_lit I c else (out, c)) in xor_clauses I a b out' c1)"

text \<open>An argument of type \<^verbatim>\<open>const vec<Lit>&\<close>: a vector of the caller or a member of the circuit.\<close>

datatype vec_ref = Ext "Lit list" | Tmp | Store

fun deref :: "vec_ref \<Rightarrow> 's circuit \<Rightarrow> Lit list" where
  "deref (Ext ls) c = ls"
| "deref Tmp c = c_tmp c"
| "deref Store c = c_store c"

definition load_tmp :: "vec_ref \<Rightarrow> 's circuit \<Rightarrow> 's circuit" where
  "load_tmp r c = (let c1 = c\<lparr>c_tmp := []\<rparr> in c1\<lparr>c_tmp := deref r c1\<rparr>)"

definition reduce_tmp :: "'s solver_api \<Rightarrow> 's circuit \<Rightarrow> (Lit \<times> 's circuit) option" where
  "reduce_tmp I c = map_option (\<lambda>(l, c1). (l, c1\<lparr>c_tmp := []\<rparr>)) (bin_op (Xor2 I) (c_tmp c) c)"

definition Xor_vec :: "'s solver_api \<Rightarrow> vec_ref \<Rightarrow> 's circuit \<Rightarrow> (Lit \<times> 's circuit) option" where
  "Xor_vec I r c = reduce_tmp I (load_tmp r c)"

definition Xor_list :: "'s solver_api \<Rightarrow> Lit list \<Rightarrow> 's circuit \<Rightarrow> (Lit \<times> 's circuit) option" where
  "Xor_list I vals c = reduce_tmp I (c\<lparr>c_tmp := vals\<rparr>)"

definition Xor_args :: "'s solver_api \<Rightarrow> Lit list \<Rightarrow> 's circuit \<Rightarrow> (Lit \<times> 's circuit) option" where
  "Xor_args I args c = Xor_vec I Store (c\<lparr>c_store := args\<rparr>)"

definition Xnor1 :: "Lit \<Rightarrow> 's circuit \<Rightarrow> (Lit \<times> 's circuit) option" where "Xnor1 a c = Some (a, c)"
definition Xnor2 :: "'s solver_api \<Rightarrow> Lit \<Rightarrow> Lit \<Rightarrow> 's circuit \<Rightarrow> (Lit \<times> 's circuit) option" where
  "Xnor2 I a b c = negated (Xor2 I a b c)"
definition Xnor_vec :: "'s solver_api \<Rightarrow> vec_ref \<Rightarrow> 's circuit \<Rightarrow> (Lit \<times> 's circuit) option" where
  "Xnor_vec I r c = negated (Xor_vec I r c)"
definition Xnor_list :: "'s solver_api \<Rightarrow> Lit list \<Rightarrow> 's circuit \<Rightarrow> (Lit \<times> 's circuit) option" where
  "Xnor_list I vals c = negated (Xor_list I vals c)"
definition Xnor_args :: "'s solver_api \<Rightarrow> Lit list \<Rightarrow> 's circuit \<Rightarrow> (Lit \<times> 's circuit) option" where
  "Xnor_args I args c = Xnor_vec I Store (c\<lparr>c_store := args\<rparr>)"

text \<open>The three arguments select the variadic overload.\<close>

definition Xnor_out2 :: "'s solver_api \<Rightarrow> Lit \<Rightarrow> Lit \<Rightarrow> Lit \<Rightarrow> 's circuit \<Rightarrow> (Lit \<times> 's circuit) option" where
  "Xnor_out2 I a b out c = negated (Xnor_args I [a, b, out] c)"

section \<open>Composite gates\<close>

definition Implies :: "'s solver_api \<Rightarrow> Lit \<Rightarrow> Lit \<Rightarrow> 's circuit \<Rightarrow> (Lit \<times> 's circuit) option" where
  "Implies I a b c = Or2 I (neg a) b c"

definition Ite :: "'s solver_api \<Rightarrow> Lit \<Rightarrow> Lit \<Rightarrow> Lit \<Rightarrow> 's circuit \<Rightarrow> (Lit \<times> 's circuit) option" where
  "Ite I cond thn els c =
     do {
       (l, c1) \<leftarrow> negated (And2 I cond (neg thn) c);
       (r, c2) \<leftarrow> negated (And2 I (neg cond) (neg els) c1);
       And2 I l r c2
     }"

definition Ite_out :: "'s solver_api \<Rightarrow> Lit \<Rightarrow> Lit \<Rightarrow> Lit \<Rightarrow> Lit \<Rightarrow> 's circuit \<Rightarrow> (Lit \<times> 's circuit) option" where
  "Ite_out I cond thn els out c =
     do {
       (l, c1) \<leftarrow> negated (And2 I cond (neg thn) c);
       (r, c2) \<leftarrow> negated (And2 I (neg cond) (neg els) c1);
       And_out2 I l r out c2
     }"

text \<open>The results of the adders: the sum, the carry, the circuit.\<close>

definition HalfAdder :: "'s solver_api \<Rightarrow> Lit \<Rightarrow> Lit \<Rightarrow> 's circuit \<Rightarrow> (Lit \<times> Lit \<times> 's circuit) option" where
  "HalfAdder I a b c =
     do {
       (carry, c1) \<leftarrow> And2 I a b c;
       (out, c2) \<leftarrow> Xor2 I a b c1;
       Some (out, carry, c2)
     }"

definition HalfAdder_out :: "'s solver_api \<Rightarrow> Lit \<Rightarrow> Lit \<Rightarrow> Lit \<Rightarrow> Lit \<Rightarrow> 's circuit \<Rightarrow> (Lit \<times> Lit \<times> 's circuit) option" where
  "HalfAdder_out I a b carry_out out c =
     do {
       (carry, c1) \<leftarrow> And_out2 I a b carry_out c;
       (r, c2) \<leftarrow> Xor_out2 I a b out c1;
       Some (r, carry, c2)
     }"

fun add_loop :: "'s solver_api \<Rightarrow> Lit list \<Rightarrow> Lit list \<Rightarrow> Lit \<Rightarrow> 's circuit \<Rightarrow> (Lit list \<times> Lit \<times> 's circuit) option" where
  "add_loop I (a # as) (b # bs) carry c =
     do {
       (x1, c1) \<leftarrow> Xor2 I a b c;
       (s, c2) \<leftarrow> Xor2 I x1 carry c1;
       (k1, c3) \<leftarrow> And2 I x1 carry c2;
       (k2, c4) \<leftarrow> And2 I a b c3;
       (carry', c5) \<leftarrow> Or2 I k2 k1 c4;
       (ss, r) \<leftarrow> add_loop I as bs carry' c5;
       Some (s # ss, r)
     }"
| "add_loop I [] bs carry c = Some ([], carry, c)"
| "add_loop I (a # as) [] carry c = None"

definition Add :: "'s solver_api \<Rightarrow> Lit list \<Rightarrow> Lit list \<Rightarrow> 's circuit \<Rightarrow> (Lit list \<times> Lit \<times> 's circuit) option" where
  "Add I as bs c =
     (if as = [] \<or> bs = [] then None
      else do {
        (s, carry, c1) \<leftarrow> HalfAdder I (hd as) (hd bs) c;
        (ss, r) \<leftarrow> add_loop I (tl as) (tl bs) carry c1;
        Some (s # ss, r)
      })"

fun add_out_loop ::
  "'s solver_api \<Rightarrow> Lit list \<Rightarrow> Lit list \<Rightarrow> Lit list \<Rightarrow> Lit \<Rightarrow> 's circuit \<Rightarrow> (Lit \<times> 's circuit) option" where
  "add_out_loop I (a # as) (b # bs) (o1 # os) carry c =
     do {
       (x1, c1) \<leftarrow> Xor2 I a b c;
       (s, c2) \<leftarrow> Xor_out2 I x1 carry o1 c1;
       (k1, c3) \<leftarrow> And2 I x1 carry c2;
       (k2, c4) \<leftarrow> And2 I a b c3;
       (carry', c5) \<leftarrow> Or2 I k2 k1 c4;
       add_out_loop I as bs os carry' c5
     }"
| "add_out_loop I [] bs os carry c = Some (carry, c)"
| "add_out_loop I (a # as) [] os carry c = None"
| "add_out_loop I (a # as) (b # bs) [] carry c = None"

definition Add_out :: "'s solver_api \<Rightarrow> Lit list \<Rightarrow> Lit list \<Rightarrow> Lit list \<Rightarrow> Lit \<Rightarrow> 's circuit \<Rightarrow> (Lit \<times> 's circuit) option" where
  "Add_out I as bs os carry_out c =
     (if as = [] \<or> bs = [] \<or> os = [] then None
      else do {
        (s, carry, c1) \<leftarrow> HalfAdder_out I (hd as) (hd bs) lit_Undef (hd os) c;
        (carry', c2) \<leftarrow> add_out_loop I (tl as) (tl bs) (tl os) carry c1;
        if carry_out \<noteq> lit_Undef then map_option (Pair carry_out) (AssertEqual2 I carry_out carry' c2)
        else Some (carry', c2)
      })"

section \<open>Assertions over many literals\<close>

definition AssertOr1 :: "'s solver_api \<Rightarrow> Lit \<Rightarrow> 's circuit \<Rightarrow> 's circuit option" where
  "AssertOr1 I a c = c_addClause I [a] c"
definition AssertOr2 :: "'s solver_api \<Rightarrow> Lit \<Rightarrow> Lit \<Rightarrow> 's circuit \<Rightarrow> 's circuit option" where
  "AssertOr2 I a b c = c_addClause I [a, b] c"

text \<open>The vector and list overloads leave their argument in \<^verbatim>\<open>tmp\<close>.\<close>

definition AssertOr_vec :: "'s solver_api \<Rightarrow> Lit list \<Rightarrow> 's circuit \<Rightarrow> 's circuit option" where
  "AssertOr_vec I vals c = c_addClause I vals (c\<lparr>c_tmp := vals\<rparr>)"
definition AssertOr_list :: "'s solver_api \<Rightarrow> Lit list \<Rightarrow> 's circuit \<Rightarrow> 's circuit option" where
  "AssertOr_list I vals c = c_addClause I vals (c\<lparr>c_tmp := vals\<rparr>)"
definition AssertOr_args :: "'s solver_api \<Rightarrow> Lit list \<Rightarrow> 's circuit \<Rightarrow> 's circuit option" where
  "AssertOr_args I args c = c_addClause I args (c\<lparr>c_store := args\<rparr>)"

definition AssertNand1 :: "'s solver_api \<Rightarrow> Lit \<Rightarrow> 's circuit \<Rightarrow> 's circuit option" where
  "AssertNand1 I a c = c_addClause I [neg a] c"
definition AssertNand2 :: "'s solver_api \<Rightarrow> Lit \<Rightarrow> Lit \<Rightarrow> 's circuit \<Rightarrow> 's circuit option" where
  "AssertNand2 I a b c = c_addClause I [neg a, neg b] c"
definition AssertNand_vec :: "'s solver_api \<Rightarrow> Lit list \<Rightarrow> 's circuit \<Rightarrow> 's circuit option" where
  "AssertNand_vec I vals c = c_addClause I (map neg vals) (c\<lparr>c_tmp := map neg vals\<rparr>)"
definition AssertNand_list :: "'s solver_api \<Rightarrow> Lit list \<Rightarrow> 's circuit \<Rightarrow> 's circuit option" where
  "AssertNand_list I vals c = c_addClause I (map neg vals) (c\<lparr>c_tmp := map neg vals\<rparr>)"
definition AssertNand_args :: "'s solver_api \<Rightarrow> Lit list \<Rightarrow> 's circuit \<Rightarrow> 's circuit option" where
  "AssertNand_args I args c = c_addClause I (map neg args) (c\<lparr>c_store := args, c_tmp := map neg args\<rparr>)"

definition AssertAnd1 :: "'s solver_api \<Rightarrow> Lit \<Rightarrow> 's circuit \<Rightarrow> 's circuit option" where
  "AssertAnd1 I a c = c_addClause I [a] c"
definition AssertAnd2 :: "'s solver_api \<Rightarrow> Lit \<Rightarrow> Lit \<Rightarrow> 's circuit \<Rightarrow> 's circuit option" where
  "AssertAnd2 I a b c = add_all I [[a], [b]] c"
definition AssertAnd_vec :: "'s solver_api \<Rightarrow> Lit list \<Rightarrow> 's circuit \<Rightarrow> 's circuit option" where
  "AssertAnd_vec I vals c = add_all I (map (\<lambda>l. [l]) vals) c"
definition AssertAnd_args :: "'s solver_api \<Rightarrow> Lit list \<Rightarrow> 's circuit \<Rightarrow> 's circuit option" where
  "AssertAnd_args I args c = add_all I (map (\<lambda>l. [l]) args) (c\<lparr>c_store := args\<rparr>)"

definition AssertNor1 :: "'s solver_api \<Rightarrow> Lit \<Rightarrow> 's circuit \<Rightarrow> 's circuit option" where
  "AssertNor1 I a c = c_addClause I [neg a] c"
definition AssertNor2 :: "'s solver_api \<Rightarrow> Lit \<Rightarrow> Lit \<Rightarrow> 's circuit \<Rightarrow> 's circuit option" where
  "AssertNor2 I a b c = add_all I [[neg a], [neg b]] c"
definition AssertNor_vec :: "'s solver_api \<Rightarrow> Lit list \<Rightarrow> 's circuit \<Rightarrow> 's circuit option" where
  "AssertNor_vec I vals c = add_all I (map (\<lambda>l. [neg l]) vals) c"
definition AssertNor_args :: "'s solver_api \<Rightarrow> Lit list \<Rightarrow> 's circuit \<Rightarrow> 's circuit option" where
  "AssertNor_args I args c = add_all I (map (\<lambda>l. [neg l]) args) (c\<lparr>c_store := args\<rparr>)"

definition AssertXor1 :: "'s solver_api \<Rightarrow> Lit \<Rightarrow> 's circuit \<Rightarrow> 's circuit option" where
  "AssertXor1 I a c = c_addClause I [a] c"
definition AssertXor2 :: "'s solver_api \<Rightarrow> Lit \<Rightarrow> Lit \<Rightarrow> 's circuit \<Rightarrow> 's circuit option" where
  "AssertXor2 I a b c = add_all I [[a, b], [neg a, neg b]] c"

definition AssertXor_vec :: "'s solver_api \<Rightarrow> vec_ref \<Rightarrow> 's circuit \<Rightarrow> 's circuit option" where
  "AssertXor_vec I r c =
     (let vals = deref r c
      in if length vals = 0 then Assert I (getFalse c) c
         else if length vals = 1 then Assert I (vals ! 0) c
         else if length vals = 2 then AssertXor2 I (vals ! 0) (vals ! 1) c
         else do { (l, c1) \<leftarrow> Xor_vec I r c; Assert I l c1 })"

definition AssertXor_list :: "'s solver_api \<Rightarrow> Lit list \<Rightarrow> 's circuit \<Rightarrow> 's circuit option" where
  "AssertXor_list I vals c = AssertXor_vec I Tmp (c\<lparr>c_tmp := vals\<rparr>)"
definition AssertXor_args :: "'s solver_api \<Rightarrow> Lit list \<Rightarrow> 's circuit \<Rightarrow> 's circuit option" where
  "AssertXor_args I args c = AssertXor_vec I Store (c\<lparr>c_store := args\<rparr>)"

definition AssertXnor1 :: "'s solver_api \<Rightarrow> Lit \<Rightarrow> 's circuit \<Rightarrow> 's circuit option" where
  "AssertXnor1 I a c = c_addClause I [a] c"

definition AssertXnor_vec :: "'s solver_api \<Rightarrow> vec_ref \<Rightarrow> 's circuit \<Rightarrow> 's circuit option" where
  "AssertXnor_vec I r c =
     (let vals = deref r c
      in if length vals = 0 then Assert I (getFalse c) c
         else if length vals = 1 then Assert I (vals ! 0) c
         else if length vals = 2 then AssertXnor2 I (vals ! 0) (vals ! 1) c
         else do { (l, c1) \<leftarrow> Xnor_vec I r c; Assert I l c1 })"

definition AssertXnor_list :: "'s solver_api \<Rightarrow> Lit list \<Rightarrow> 's circuit \<Rightarrow> 's circuit option" where
  "AssertXnor_list I vals c = AssertXnor_vec I Tmp (c\<lparr>c_tmp := vals\<rparr>)"
definition AssertXnor_args :: "'s solver_api \<Rightarrow> Lit list \<Rightarrow> 's circuit \<Rightarrow> 's circuit option" where
  "AssertXnor_args I args c = AssertXnor_vec I Store (c\<lparr>c_store := args\<rparr>)"

definition AssertEqual_list :: "'s solver_api \<Rightarrow> Lit list \<Rightarrow> 's circuit \<Rightarrow> 's circuit option" where
  "AssertEqual_list I vals c = AssertXnor_vec I Tmp (c\<lparr>c_tmp := vals\<rparr>)"

definition AssertEqual_vec :: "'s solver_api \<Rightarrow> vec_ref \<Rightarrow> 's circuit \<Rightarrow> 's circuit option" where
  "AssertEqual_vec I r c =
     (let vals = deref r c
      in if length vals = 0 then Assert I (getFalse c) c
         else if length vals = 1 then Assert I (vals ! 0) c
         else if length vals = 2 then add_all I [[neg (vals ! 0), vals ! 1], [vals ! 0, neg (vals ! 1)]] c
         else do { (l, c1) \<leftarrow> Xnor_vec I r c; Assert I l c1 })"

definition AssertEqual_args :: "'s solver_api \<Rightarrow> Lit list \<Rightarrow> 's circuit \<Rightarrow> 's circuit option" where
  "AssertEqual_args I args c = AssertXnor_vec I Store (c\<lparr>c_store := args\<rparr>)"

end
