(* ===== verification/Circuit_Correct.thy ===== *)
theory Circuit_Correct
  imports Circuit Solver_AddClause
begin

text \<open>
  Correctness of the circuit encodings.  The interface of the solver is the locale \<open>cnf_solver\<close>: new variables are
  free, and adding a clause intersects the models with those of the clause.  It is interpreted on the modelled
  CDCL solver.  A gate is correct when its output has the value of the function in every model of the clauses
  added so far, and every model before the gate extends to one after it.
\<close>

section \<open>What a gate promises\<close>

definition conserv :: "('s \<Rightarrow> (Lit \<Rightarrow> bool) set) \<Rightarrow> ('s \<Rightarrow> nat) \<Rightarrow> 's \<Rightarrow> 's \<Rightarrow> bool" where
  "conserv mods nv s s' \<longleftrightarrow>
     nv s \<le> nv s' \<and> mods s' \<subseteq> mods s \<and> (\<forall>M \<in> mods s. \<exists>M' \<in> mods s'. \<forall>l. lit_ok (nv s) l \<longrightarrow> M' l = M l)"

lemma lit_ok_le: "lit_ok n l \<Longrightarrow> n \<le> m \<Longrightarrow> lit_ok m l"
  by (simp add: lit_ok_def)

lemma conserv_refl [simp]: "conserv mods nv s s"
  by (auto simp: conserv_def)

lemma conserv_trans:
  assumes a: "conserv mods nv s s1" and b: "conserv mods nv s1 s2"
  shows "conserv mods nv s s2"
  unfolding conserv_def
proof (intro conjI ballI)
  show "nv s \<le> nv s2" "mods s2 \<subseteq> mods s" using a b by (auto simp: conserv_def)
  fix M assume "M \<in> mods s"
  then obtain M1 where M1: "M1 \<in> mods s1" "\<forall>l. lit_ok (nv s) l \<longrightarrow> M1 l = M l" using a by (auto simp: conserv_def)
  then obtain M2 where M2: "M2 \<in> mods s2" "\<forall>l. lit_ok (nv s1) l \<longrightarrow> M2 l = M1 l" using b by (auto simp: conserv_def)
  then show "\<exists>M' \<in> mods s2. \<forall>l. lit_ok (nv s) l \<longrightarrow> M' l = M l"
    using M1 a lit_ok_le by (intro bexI [of _ M2]) (auto simp: conserv_def)
qed

definition gate_ok ::
  "('s \<Rightarrow> (Lit \<Rightarrow> bool) set) \<Rightarrow> ('s \<Rightarrow> nat) \<Rightarrow> 's circuit \<Rightarrow> Lit \<Rightarrow> 's circuit \<Rightarrow> ((Lit \<Rightarrow> bool) \<Rightarrow> bool) \<Rightarrow> bool" where
  "gate_ok mods nv c r c' f \<longleftrightarrow>
     conserv mods nv (sol c) (sol c') \<and> lit_ok (nv (sol c')) r \<and> (\<forall>M \<in> mods (sol c'). M r = f M)"

text \<open>The circuit is usable: the solver has room for \<open>k\<close> more cells and \<^verbatim>\<open>lit_True\<close> is true.\<close>

definition circ ::
  "(nat \<Rightarrow> 's \<Rightarrow> bool) \<Rightarrow> ('s \<Rightarrow> (Lit \<Rightarrow> bool) set) \<Rightarrow> ('s \<Rightarrow> nat) \<Rightarrow> nat \<Rightarrow> 's circuit \<Rightarrow> bool" where
  "circ room mods nv k c \<longleftrightarrow>
     room k (sol c) \<and> lit_ok (nv (sol c)) (lit_True c) \<and> (\<forall>M \<in> mods (sol c). M (lit_True c))"

definition gives ::
  "(nat \<Rightarrow> 's \<Rightarrow> bool) \<Rightarrow> ('s \<Rightarrow> (Lit \<Rightarrow> bool) set) \<Rightarrow> ('s \<Rightarrow> nat) \<Rightarrow> nat \<Rightarrow> 's circuit \<Rightarrow>
     (Lit \<times> 's circuit) option \<Rightarrow> ((Lit \<Rightarrow> bool) \<Rightarrow> bool) \<Rightarrow> bool" where
  "gives room mods nv k c res f \<longleftrightarrow>
     (\<exists>r c'. res = Some (r, c') \<and> gate_ok mods nv c r c' f \<and> circ room mods nv k c')"

fun bits_val :: "(Lit \<Rightarrow> bool) \<Rightarrow> Lit list \<Rightarrow> nat" where
  "bits_val M [] = 0"
| "bits_val M (l # ls) = of_bool (M l) + 2 * bits_val M ls"

section \<open>The interface of the solver\<close>

locale cnf_solver =
  fixes I :: "'s solver_api" and room :: "nat \<Rightarrow> 's \<Rightarrow> bool" and mods :: "'s \<Rightarrow> (Lit \<Rightarrow> bool) set" and nv :: "'s \<Rightarrow> nat"
  assumes room_less: "room k s \<Longrightarrow> j \<le> k \<Longrightarrow> room j s"
    and new_var: "room k s \<Longrightarrow> \<exists>s'. api_newVar I s = (int (nv s), s') \<and> room k s' \<and> nv s' = Suc (nv s) \<and> mods s' = mods s"
    and add_clause: "room (k + length ps + 2) s \<Longrightarrow> \<forall>l \<in> set ps. lit_ok (nv s) l \<Longrightarrow> length ps < 2 ^ 26 \<Longrightarrow>
      \<exists>s'. api_addClause I ps s = Some s' \<and> room k s' \<and> nv s' = nv s \<and> mods s' = mods s \<inter> clause_models ps"
    and const_true: "room k s \<Longrightarrow> lit_ok (nv s) l \<Longrightarrow> lb_eq (api_value I s l) l_True \<Longrightarrow> api_level I s (var l) = 0 \<Longrightarrow>
      M \<in> mods s \<Longrightarrow> M l"
    and const_false: "room k s \<Longrightarrow> lit_ok (nv s) l \<Longrightarrow> lb_eq (api_value I s l) l_False \<Longrightarrow> api_level I s (var l) = 0 \<Longrightarrow>
      M \<in> mods s \<Longrightarrow> \<not> M l"
    and mods_lit: "M \<in> mods s \<Longrightarrow> lit_model M"
    and mods_local: "room k s \<Longrightarrow> M \<in> mods s \<Longrightarrow> lit_model M' \<Longrightarrow> \<forall>l. lit_ok (nv s) l \<longrightarrow> M' l = M l \<Longrightarrow> M' \<in> mods s"
begin

abbreviation good :: "nat \<Rightarrow> 's circuit \<Rightarrow> bool" where "good \<equiv> circ room mods nv"
abbreviation gate :: "'s circuit \<Rightarrow> Lit \<Rightarrow> 's circuit \<Rightarrow> ((Lit \<Rightarrow> bool) \<Rightarrow> bool) \<Rightarrow> bool" where "gate \<equiv> gate_ok mods nv"
abbreviation yields :: "nat \<Rightarrow> 's circuit \<Rightarrow> (Lit \<times> 's circuit) option \<Rightarrow> ((Lit \<Rightarrow> bool) \<Rightarrow> bool) \<Rightarrow> bool" where
  "yields \<equiv> gives room mods nv"
abbreviation has :: "'s circuit \<Rightarrow> Lit \<Rightarrow> bool" where "has c l \<equiv> lit_ok (nv (sol c)) l"

lemma M_neg: "M \<in> mods s \<Longrightarrow> M (neg l) = (\<not> M l)"
  using mods_lit by (simp add: lit_model_def)

lemma good_less: "good k c \<Longrightarrow> j \<le> k \<Longrightarrow> good j c"
  using room_less by (auto simp: circ_def)

lemma goodD: "good k c \<Longrightarrow> room k (sol c)" "good k c \<Longrightarrow> has c (lit_True c)" "good k c \<Longrightarrow> M \<in> mods (sol c) \<Longrightarrow> M (lit_True c)"
  by (auto simp: circ_def)

lemma isConstTrueD: "isConstTrue I l c \<Longrightarrow> good k c \<Longrightarrow> has c l \<Longrightarrow> M \<in> mods (sol c) \<Longrightarrow> M l"
  by (rule const_true [OF goodD(1)]) (simp_all only: isConstTrue_def)

lemma isConstFalseD: "isConstFalse I l c \<Longrightarrow> good k c \<Longrightarrow> has c l \<Longrightarrow> M \<in> mods (sol c) \<Longrightarrow> \<not> M l"
  by (rule const_false [OF goodD(1)]) (simp_all only: isConstFalse_def)

lemma yields_same: "good k c \<Longrightarrow> has c r \<Longrightarrow> (\<And>M. M \<in> mods (sol c) \<Longrightarrow> M r = f M) \<Longrightarrow> yields k c (Some (r, c)) f"
  by (auto simp: gives_def gate_ok_def)

lemma yields_less: "yields k c res f \<Longrightarrow> j \<le> k \<Longrightarrow> yields j c res f"
  using good_less by (auto simp: gives_def)

lemma yields_cong: "yields k c res f \<Longrightarrow> (\<And>M. lit_model M \<Longrightarrow> f M = g M) \<Longrightarrow> yields k c res g"
  using mods_lit by (auto simp: gives_def gate_ok_def)

lemma yields_neg: "yields k c res f \<Longrightarrow> yields k c (negated res) (\<lambda>M. \<not> f M)"
  using M_neg by (fastforce simp: gives_def gate_ok_def negated_def)

lemma gate_has: "gate c r c1 f \<Longrightarrow> has c l \<Longrightarrow> has c1 l"
  using lit_ok_le by (auto simp: gate_ok_def conserv_def)

lemma gate_mods: "gate c r c1 f \<Longrightarrow> M \<in> mods (sol c1) \<Longrightarrow> M \<in> mods (sol c)"
  by (auto simp: gate_ok_def conserv_def)

text \<open>Sequencing: the value of the first gate is known to the second one.\<close>

lemma yields_bind:
  assumes a: "yields j c m f"
    and b: "\<And>r c1. gate c r c1 f \<Longrightarrow> good j c1 \<Longrightarrow> has c1 r \<Longrightarrow> yields k c1 (g r c1) (\<lambda>M. h (M r) M)"
  shows "yields k c (Option.bind m (\<lambda>(r, c1). g r c1)) (\<lambda>M. h (f M) M)"
proof -
  from a obtain r c1 where r: "m = Some (r, c1)" "gate c r c1 f" "good j c1" by (auto simp: gives_def)
  have "has c1 r" using r(2) by (simp add: gate_ok_def)
  from b [OF r(2,3) this] obtain r2 c2 where r2: "g r c1 = Some (r2, c2)" "gate c1 r2 c2 (\<lambda>M. h (M r) M)" "good k c2"
    unfolding gives_def by blast
  have "conserv mods nv (sol c) (sol c2)" 
    by (rule conserv_trans [of _ _ _ "sol c1"]) (use r(2) r2(2) in \<open>simp_all only: gate_ok_def\<close>)
  moreover have "M r2 = h (f M) M" if "M \<in> mods (sol c2)" for M
  proof -
    have "M r2 = h (M r) M" using that r2(2) unfolding gate_ok_def by blast
    moreover have "M r = f M" using r(2) gate_mods [OF r2(2) that] unfolding gate_ok_def by blast
    ultimately show ?thesis by (simp only:)
  qed
  ultimately have "gate c r2 c2 (\<lambda>M. h (f M) M)" using r2(2) by (simp add: gate_ok_def)
  then show ?thesis using r(1) r2(1,3) by (auto simp: gives_def)
qed

subsection \<open>Clauses\<close>

definition cost :: "Lit list list \<Rightarrow> nat" where "cost pss = sum_list (map (\<lambda>ps. length ps + 2) pss)"

lemma add_all_ok:
  assumes "room (k + cost pss) (sol c)" and "\<forall>ps \<in> set pss. length ps < 2 ^ 26 \<and> (\<forall>l \<in> set ps. has c l)"
  shows "\<exists>s'. add_all I pss c = Some (c\<lparr>sol := s'\<rparr>) \<and> room k s' \<and> nv s' = nv (sol c) \<and>
     mods s' = mods (sol c) \<inter> {M. \<forall>ps \<in> set pss. \<exists>l \<in> set ps. M l}"
  using assms
proof (induction pss arbitrary: c)
  case Nil
  then show ?case by (intro exI [of _ "sol c"]) (simp add: cost_def)
next
  case (Cons ps pss)
  have "room ((k + cost pss) + length ps + 2) (sol c)" using Cons.prems(1) by (simp add: cost_def algebra_simps)
  from add_clause [OF this] Cons.prems(2) obtain s1 where s1: "api_addClause I ps (sol c) = Some s1" "room (k + cost pss) s1"
    "nv s1 = nv (sol c)" "mods s1 = mods (sol c) \<inter> clause_models ps" by auto
  let ?c = "c\<lparr>sol := s1\<rparr>"
  have "room (k + cost pss) (sol ?c)" "\<forall>ps \<in> set pss. length ps < 2 ^ 26 \<and> (\<forall>l \<in> set ps. has ?c l)"
    using s1 Cons.prems(2) by simp_all
  from Cons.IH [OF this] obtain s' where s': "add_all I pss ?c = Some (?c\<lparr>sol := s'\<rparr>)" "room k s'" "nv s' = nv (sol ?c)"
    "mods s' = mods (sol ?c) \<inter> {M. \<forall>ps \<in> set pss. \<exists>l \<in> set ps. M l}" by blast
  then show ?case using s1 by (intro exI [of _ s']) (auto simp: c_addClause_def clause_models_def)
qed

text \<open>A fresh output defined by clauses.\<close>

lemma define_fresh:
  assumes c: "good (k + cost (cls out)) c" and fr: "fresh_lit I c = (out, c1)"
    and cls: "\<forall>ps \<in> set (cls out). length ps < 2 ^ 26 \<and> (\<forall>l \<in> set ps. l \<in> {out, neg out} \<or> has c l)"
    and sem: "\<And>M. lit_model M \<Longrightarrow> (\<forall>ps \<in> set (cls out). \<exists>l \<in> set ps. M l) \<longleftrightarrow> M out = f M"
    and loc: "\<And>M M'. (\<And>l. has c l \<Longrightarrow> M' l = M l) \<Longrightarrow> f M' = f M"
  shows "yields k c (map_option (Pair out) (add_all I (cls out) c1)) f"
proof -
  let ?n = "nv (sol c)"
  from new_var [OF goodD(1) [OF c]] obtain s1 where s1: "api_newVar I (sol c) = (int ?n, s1)"
    "room (k + cost (cls out)) s1" "nv s1 = Suc ?n" "mods s1 = mods (sol c)" by blast
  have c1: "c1 = c\<lparr>sol := s1\<rparr>" and out: "out = mkLit (int ?n) False" using fr by (auto simp: fresh_lit_def s1(1))
  have ok: "lit_ok (Suc ?n) out" "lit_ok (Suc ?n) (neg out)" by (simp_all add: out lit_ok_alt)
  have up: "lit_ok (Suc ?n) l" if "has c l" for l using lit_ok_le [OF that] by simp
  have room1: "room (k + cost (cls out)) (sol c1)" and lits: "\<forall>ps \<in> set (cls out). length ps < 2 ^ 26 \<and> (\<forall>l \<in> set ps. has c1 l)"
    using cls ok up s1 by (fastforce simp: c1)+
  from add_all_ok [OF room1 lits] obtain s' where s': "add_all I (cls out) c1 = Some (c1\<lparr>sol := s'\<rparr>)" "room k s'" "nv s' = Suc ?n"
    "mods s' = mods (sol c) \<inter> {M. \<forall>ps \<in> set (cls out). \<exists>l \<in> set ps. M l}" using s1 by (auto simp: c1)
  have m': "M \<in> mods s' \<longleftrightarrow> M \<in> mods (sol c) \<and> M out = f M" for M
    using s'(4) sem [of M] mods_lit by auto
  have "\<exists>M' \<in> mods s'. \<forall>l. has c l \<longrightarrow> M' l = M l" if M: "M \<in> mods (sol c)" for M
  proof -
    define M' where "M' = (\<lambda>l. if var l = int ?n then sign l \<noteq> f M else M l)"
    have same: "M' l = M l" if "has c l" for l using that by (simp add: M'_def lit_ok_alt)
    have "lit_model M'" using mods_lit [OF M] by (auto simp: lit_model_def M'_def)
    then have "M' \<in> mods (sol c)" using mods_local [OF goodD(1) [OF c] M] same by blast
    moreover have "M' out = f M'" using loc [of M' M] same by (simp add: M'_def out)
    ultimately show ?thesis using m' same by blast
  qed
  then have "conserv mods nv (sol c) s'" using m' s'(3) by (auto simp: conserv_def)
  then have "gate c out (c1\<lparr>sol := s'\<rparr>) f" using m' s'(3) ok(1) by (simp add: gate_ok_def)
  moreover have "good k (c1\<lparr>sol := s'\<rparr>)"
    using c s'(2,3) m' up by (auto simp: circ_def c1)
  ultimately show ?thesis by (simp add: gives_def s'(1))
qed

subsection \<open>Gates with two inputs\<close>

lemma And2_ok:
  assumes c: "good (k + 13) c" and a: "has c a" and b: "has c b"
  shows "yields k c (And2 I a b c) (\<lambda>M. M a \<and> M b)"
proof -
  note ct = isConstTrueD [OF _ c] and cf = isConstFalseD [OF _ c]
  consider "isConstTrue I a c" | "\<not> isConstTrue I a c" "isConstFalse I a c"
    | "\<not> isConstTrue I a c" "\<not> isConstFalse I a c" "isConstTrue I b c"
    | "\<not> isConstTrue I a c" "\<not> isConstFalse I a c" "\<not> isConstTrue I b c" "isConstFalse I b c"
    | "\<not> isConstTrue I a c" "\<not> isConstFalse I a c" "\<not> isConstTrue I b c" "\<not> isConstFalse I b c" by blast
  then show ?thesis
  proof cases
    case 5
    obtain out c1 where fr: "fresh_lit I c = (out, c1)" by fastforce
    let ?cls = "\<lambda>out. [[a, neg out], [b, neg out], [neg a, neg b, out]]"
    have "good (k + cost (?cls out)) c" using c by (simp add: cost_def eval_nat_numeral)
    then have "yields k c (map_option (Pair out) (add_all I (?cls out) c1)) (\<lambda>M. M a \<and> M b)"
      by (rule define_fresh [where cls = ?cls, OF _ fr]) (use a b in \<open>auto simp: lit_model_def\<close>)
    then show ?thesis using 5 by (simp add: And2_def fr and_clauses_def)
  qed (use ct cf a b c in \<open>auto simp: And2_def intro!: yields_same elim: good_less\<close>)
qed

lemma Or2_ok:
  assumes c: "good (k + 13) c" and a: "has c a" and b: "has c b"
  shows "yields k c (Or2 I a b c) (\<lambda>M. M a \<or> M b)"
proof -
  note ct = isConstTrueD [OF _ c] and cf = isConstFalseD [OF _ c] and gd = goodD(2,3) [OF c]
  consider "isConstTrue I a c" | "\<not> isConstTrue I a c" "isConstTrue I b c"
    | "\<not> isConstTrue I a c" "\<not> isConstTrue I b c" "isConstFalse I a c"
    | "\<not> isConstTrue I a c" "\<not> isConstTrue I b c" "\<not> isConstFalse I a c" "isConstFalse I b c"
    | "\<not> isConstTrue I a c" "\<not> isConstTrue I b c" "\<not> isConstFalse I a c" "\<not> isConstFalse I b c" by blast
  then show ?thesis
  proof cases
    case 5
    obtain out c1 where fr: "fresh_lit I c = (out, c1)" by fastforce
    let ?cls = "\<lambda>out. [[neg a, out], [neg b, out], [a, b, neg out]]"
    have "good (k + cost (?cls out)) c" using c by (simp add: cost_def eval_nat_numeral)
    then have "yields k c (map_option (Pair out) (add_all I (?cls out) c1)) (\<lambda>M. M a \<or> M b)"
      by (rule define_fresh [where cls = ?cls, OF _ fr]) (use a b in \<open>auto simp: lit_model_def\<close>)
    then show ?thesis using 5 by (simp add: Or2_def fr or_clauses_def)
  qed (use ct cf a b c gd in \<open>auto simp: Or2_def getTrue_def intro!: yields_same elim: good_less\<close>)
qed

lemma Xor2_ok:
  assumes c: "good (k + 20) c" and a: "has c a" and b: "has c b"
  shows "yields k c (Xor2 I a b c) (\<lambda>M. M a \<noteq> M b)"
proof -
  note ct = isConstTrueD [OF _ c] and cf = isConstFalseD [OF _ c]
  consider "isConstTrue I a c" | "\<not> isConstTrue I a c" "isConstFalse I a c"
    | "\<not> isConstTrue I a c" "\<not> isConstFalse I a c" "isConstTrue I b c"
    | "\<not> isConstTrue I a c" "\<not> isConstFalse I a c" "\<not> isConstTrue I b c" "isConstFalse I b c"
    | "\<not> isConstTrue I a c" "\<not> isConstFalse I a c" "\<not> isConstTrue I b c" "\<not> isConstFalse I b c" by blast
  then show ?thesis
  proof cases
    case 5
    obtain out c1 where fr: "fresh_lit I c = (out, c1)" by fastforce
    let ?cls = "\<lambda>out. [[a, b, neg out], [neg a, b, out], [a, neg b, out], [neg a, neg b, neg out]]"
    have "good (k + cost (?cls out)) c" using c by (simp add: cost_def eval_nat_numeral)
    then have "yields k c (map_option (Pair out) (add_all I (?cls out) c1)) (\<lambda>M. M a \<noteq> M b)"
      by (rule define_fresh [where cls = ?cls, OF _ fr]) (use a b in \<open>auto simp: lit_model_def\<close>)
    then show ?thesis using 5 by (simp add: Xor2_def fr xor_clauses_def)
  qed (use ct cf a b c in \<open>auto simp: Xor2_def M_neg [of _ "sol c"] intro!: yields_same elim: good_less\<close>)
qed

subsection \<open>Gates over vectors\<close>

lemma scratch_eqs [simp]:
  "good k (c\<lparr>c_tmp := x\<rparr>) = good k c" "good k (c\<lparr>c_tmp2 := x\<rparr>) = good k c" "good k (c\<lparr>c_store := x\<rparr>) = good k c"
  "gate (c\<lparr>c_tmp := x\<rparr>) r c' f = gate c r c' f" "gate (c\<lparr>c_tmp2 := x\<rparr>) r c' f = gate c r c' f"
  "gate (c\<lparr>c_store := x\<rparr>) r c' f = gate c r c' f" "gate c r (c'\<lparr>c_tmp := x\<rparr>) f = gate c r c' f"
  by (simp_all add: circ_def gate_ok_def)

lemma and_scan_spec:
  assumes "and_scan I vals c = (stop, c1)" and "good k c" and "\<forall>l \<in> set vals. has c l"
  shows "\<exists>ls. c1 = c\<lparr>c_tmp := c_tmp c @ ls\<rparr> \<and> set ls \<subseteq> set vals \<and> length ls \<le> length vals \<and>
     (\<forall>M \<in> mods (sol c). if stop then \<exists>l \<in> set vals. \<not> M l else (\<forall>l \<in> set vals. M l) = (\<forall>l \<in> set ls. M l))"
  using assms
proof (induction vals arbitrary: c)
  case Nil
  then show ?case by (intro exI [of _ "[]"]) simp
next
  case (Cons l vals)
  note ct = isConstTrueD [OF _ Cons.prems(2), of l] and cf = isConstFalseD [OF _ Cons.prems(2), of l]
  consider "isConstFalse I l c" | "\<not> isConstFalse I l c" "isConstTrue I l c" | "\<not> isConstFalse I l c" "\<not> isConstTrue I l c" by blast
  then show ?case
  proof cases
    case 1
    then show ?thesis using Cons.prems cf by (intro exI [of _ "[]"]) auto
  next
    case 2
    then have sc: "and_scan I vals c = (stop, c1)" using Cons.prems(1) by simp
    have ok: "\<forall>l \<in> set vals. has c l" using Cons.prems(3) by simp
    from Cons.IH [OF sc Cons.prems(2) ok] obtain ls where "c1 = c\<lparr>c_tmp := c_tmp c @ ls\<rparr>" "set ls \<subseteq> set vals"
      "length ls \<le> length vals" "\<forall>M \<in> mods (sol c). if stop then \<exists>l \<in> set vals. \<not> M l else (\<forall>l \<in> set vals. M l) = (\<forall>l \<in> set ls. M l)"
      by blast
    then show ?thesis using ct [OF 2(2)] Cons.prems(3) by (intro exI [of _ ls]) auto
  next
    case 3
    let ?c = "c\<lparr>c_tmp := c_tmp c @ [l]\<rparr>"
    have sc: "and_scan I vals ?c = (stop, c1)" using Cons.prems(1) 3 by simp
    have ok: "good k ?c" "\<forall>l \<in> set vals. has ?c l" using Cons.prems(2,3) by simp_all
    from Cons.IH [OF sc ok] obtain ls where "c1 = ?c\<lparr>c_tmp := c_tmp ?c @ ls\<rparr>" "set ls \<subseteq> set vals"
      "length ls \<le> length vals" "\<forall>M \<in> mods (sol ?c). if stop then \<exists>l \<in> set vals. \<not> M l else (\<forall>l \<in> set vals. M l) = (\<forall>l \<in> set ls. M l)"
      by blast
    then show ?thesis by (intro exI [of _ "l # ls"]) auto
  qed
qed

lemma pick_undef: "pick_out I lit_Undef c = fresh_lit I c"
  by (simp add: pick_out_def)

lemma And_vec_ok:
  assumes c: "good (k + 5 * length (c_tmp c @ vals) + 3) c" and h: "\<forall>l \<in> set (c_tmp c @ vals). has c l"
    and len: "length (c_tmp c @ vals) < 2 ^ 26 - 1"
  shows "yields k c (And_vec I vals c) (\<lambda>M. \<forall>l \<in> set (c_tmp c @ vals). M l)"
proof -
  obtain stop c1 where sc: "and_scan I vals c = (stop, c1)" by fastforce
  have hv: "\<forall>l \<in> set vals. has c l" using h by simp
  from and_scan_spec [OF sc c hv] obtain ls where ls: "c1 = c\<lparr>c_tmp := c_tmp c @ ls\<rparr>" "set ls \<subseteq> set vals" "length ls \<le> length vals"
    "\<forall>M \<in> mods (sol c). if stop then \<exists>l \<in> set vals. \<not> M l else (\<forall>l \<in> set vals. M l) = (\<forall>l \<in> set ls. M l)" by blast
  let ?ts = "c_tmp c @ ls" and ?f = "\<lambda>M. \<forall>l \<in> set (c_tmp c @ vals). M l"
  have gk: "good k c" and gd: "has c (lit_True c)" "\<And>M. M \<in> mods (sol c) \<Longrightarrow> M (lit_True c)"
    using good_less [OF c] goodD [OF c] by auto
  have f: "?f M = (\<not> stop \<and> (\<forall>l \<in> set ?ts. M l))" if "M \<in> mods (sol c)" for M using ls(4) that by (cases stop) auto
  have ht: "\<forall>l \<in> set ?ts. has c l" using h ls(2) by auto
  have ret: "yields k c (Some (r, c1)) ?f" if "has c r" "\<And>M. M \<in> mods (sol c) \<Longrightarrow> M r = ?f M" for r
    using that gk unfolding gives_def gate_ok_def ls(1) by auto
  consider "stop" | "\<not> stop" "?ts = []" | t where "\<not> stop" "?ts = [t]" | "\<not> stop" "2 \<le> length ?ts"
    by (cases ?ts; cases "tl ?ts") auto
  then show ?thesis
  proof cases
    case 1
    have "yields k c (Some (neg (lit_True c), c1)) ?f"
      by (rule ret) (use gd f 1 in \<open>auto simp: M_neg [of _ "sol c"]\<close>)
    then show ?thesis using 1 by (simp add: And_vec_def And_out_def sc assert_out_def getFalse_def ls(1))
  next
    case 2
    have "yields k c (Some (lit_True c, c1)) ?f" by (rule ret) (use gd f 2 in auto)
    then show ?thesis using 2 by (simp add: And_vec_def And_out_def sc assert_out_def getTrue_def ls(1))
  next
    case (3 t)
    have "yields k c (Some (t, c1)) ?f" by (rule ret) (use ht f 3 in auto)
    then show ?thesis using 3 by (simp add: And_vec_def And_out_def sc equal_out_def ls(1))
  next
    case 4
    obtain out c2 where fr: "fresh_lit I c1 = (out, c2)" by fastforce
    let ?cls = "\<lambda>out. map (\<lambda>l. [l, neg out]) ?ts @ [map neg ?ts @ [out]]"
    have "cost (?cls out) = 5 * length ?ts + 3" by (simp add: cost_def sum_list_triv comp_def)
    moreover have "k + (5 * length ?ts + 3) \<le> k + 5 * length (c_tmp c @ vals) + 3" using ls(3) by simp
    ultimately have "good (k + cost (?cls out)) c" using good_less [OF c] by simp
    then have g1: "good (k + cost (?cls out)) c1" by (simp add: ls(1))
    have small: "length ?ts < 2 ^ 26 - 1" using len ls(3) by simp
    have "yields k c1 (map_option (Pair out) (add_all I (?cls out) c2)) (\<lambda>M. \<forall>l \<in> set ?ts. M l)"
    proof (rule define_fresh [where cls = ?cls, OF g1 fr])
      show "\<forall>ps \<in> set (?cls out). length ps < 2 ^ 26 \<and> (\<forall>l \<in> set ps. l \<in> {out, neg out} \<or> has c1 l)"
        using ht small by (auto simp: ls(1))
      show "(\<forall>ps \<in> set (?cls out). \<exists>l \<in> set ps. M l) \<longleftrightarrow> M out = (\<forall>l \<in> set ?ts. M l)" if "lit_model M" for M
      proof -
        have n: "M (neg l) = (\<not> M l)" for l using that by (simp add: lit_model_def)
        show ?thesis by (cases "M out") (simp_all add: n ball_Un bex_Un)
      qed
      show "(\<forall>l \<in> set ?ts. M' l) = (\<forall>l \<in> set ?ts. M l)" if "\<And>l. has c1 l \<Longrightarrow> M' l = M l" for M M'
        using that ht by (auto simp: ls(1))
    qed
    then obtain c3 where c3: "add_all I (?cls out) c2 = Some c3" "gate c1 out c3 (\<lambda>M. \<forall>l \<in> set ?ts. M l)" "good k c3"
      by (auto simp: gives_def)
    have g3: "gate c out c3 (\<lambda>M. \<forall>l \<in> set ?ts. M l)" using c3(2) by (simp only: ls(1) scratch_eqs)
    have "M out = ?f M" if M: "M \<in> mods (sol c3)" for M
    proof -
      have "M out = (\<forall>l \<in> set ?ts. M l)" using g3 M unfolding gate_ok_def by blast
      then show ?thesis unfolding f [OF gate_mods [OF g3 M]] using 4(1) by blast
    qed
    then have "gate c out c3 ?f" using g3 unfolding gate_ok_def by blast
    then have "yields k c (Some (out, c3\<lparr>c_tmp := []\<rparr>)) ?f" using c3(3) by (simp add: gives_def)
    moreover have "And_vec I vals c = Some (out, c3\<lparr>c_tmp := []\<rparr>)"
    proof -
      have n: "length ?ts \<noteq> 0" "length ?ts \<noteq> 1" using 4(2) by linarith+
      have t: "c_tmp c1 = ?ts" by (simp add: ls(1))
      show ?thesis
        unfolding And_vec_def And_out_def sc Let_def pick_undef prod.case t fr
        using 4(1) n c3(1) by auto
    qed
    ultimately show ?thesis by simp
  qed
qed

subsection \<open>Multiplexer and adders\<close>

lemma Ite_ok:
  assumes c: "good (k + 39) c" and h: "has c i" "has c t" "has c e"
  shows "yields k c (Ite I i t e c) (\<lambda>M. if M i then M t else M e)"
proof -
  have "yields k c (Ite I i t e c) (\<lambda>M. (\<not> (M i \<and> M (neg t))) \<and> \<not> (M (neg i) \<and> M (neg e)))"
    unfolding Ite_def
  proof (rule yields_bind [where j = "k + 26" and h = "\<lambda>x M. x \<and> \<not> (M (neg i) \<and> M (neg e))"])
    show "yields (k + 26) c (negated (And2 I i (neg t) c)) (\<lambda>M. \<not> (M i \<and> M (neg t)))"
      by (rule yields_neg, rule And2_ok) (use c h in \<open>simp_all add: add.commute\<close>)
  next
    fix l c1 assume g1: "gate c l c1 (\<lambda>M. \<not> (M i \<and> M (neg t)))" "good (k + 26) c1" "has c1 l"
    have hs: "has c1 (neg i)" "has c1 (neg e)" using gate_has [OF g1(1)] h by simp_all
    show "yields k c1 (Option.bind (negated (And2 I (neg i) (neg e) c1)) (\<lambda>(r, c2). And2 I l r c2))
        (\<lambda>M. M l \<and> \<not> (M (neg i) \<and> M (neg e)))"
    proof (rule yields_bind [where j = "k + 13" and h = "\<lambda>x M. M l \<and> x"])
      show "yields (k + 13) c1 (negated (And2 I (neg i) (neg e) c1)) (\<lambda>M. \<not> (M (neg i) \<and> M (neg e)))"
        by (rule yields_neg, rule And2_ok) (use g1(2) hs in \<open>simp_all add: add.commute\<close>)
    next
      fix r c2 assume g2: "gate c1 r c2 (\<lambda>M. \<not> (M (neg i) \<and> M (neg e)))" "good (k + 13) c2" "has c2 r"
      show "yields k c2 (And2 I l r c2) (\<lambda>M. M l \<and> M r)" by (rule And2_ok [OF g2(2) gate_has [OF g2(1) g1(3)] g2(3)])
    qed
  qed
  then show ?thesis by (rule yields_cong) (auto simp: lit_model_def)
qed

lemma gateD:
  assumes "yields k c res f"
  obtains r c' where "res = Some (r, c')" "good k c'" "has c' r" "conserv mods nv (sol c) (sol c')"
    "\<And>l. has c l \<Longrightarrow> has c' l" "\<And>M. M \<in> mods (sol c') \<Longrightarrow> M \<in> mods (sol c)" "\<And>M. M \<in> mods (sol c') \<Longrightarrow> M r = f M"
proof -
  from assms obtain r c' where g: "res = Some (r, c')" "gate c r c' f" "good k c'" by (auto simp: gives_def)
  have "has c' r" "conserv mods nv (sol c) (sol c')" "\<And>M. M \<in> mods (sol c') \<Longrightarrow> M r = f M"
    using g(2) by (simp_all add: gate_ok_def)
  then show thesis using that [of r c'] g(1,3) gate_has [OF g(2)] gate_mods [OF g(2)] by blast
qed

lemma full_adder:
  assumes c: "good (k + 79) c" and h: "has c a" "has c b" "has c cy"
  shows "\<exists>x1 c1 s c2 k1 c3 k2 c4 cy' c5. Xor2 I a b c = Some (x1, c1) \<and> Xor2 I x1 cy c1 = Some (s, c2) \<and>
     And2 I x1 cy c2 = Some (k1, c3) \<and> And2 I a b c3 = Some (k2, c4) \<and> Or2 I k2 k1 c4 = Some (cy', c5) \<and>
     good k c5 \<and> has c5 s \<and> has c5 cy' \<and> conserv mods nv (sol c) (sol c5) \<and>
     (\<forall>M \<in> mods (sol c5). of_bool (M s) + 2 * of_bool (M cy') = (of_bool (M a) + of_bool (M b) + of_bool (M cy) :: nat))"
proof -
  have "good ((k + 59) + 20) c" using c by (simp add: add.commute)
  from gateD [OF Xor2_ok [OF this h(1,2)]] obtain x1 c1 where 1: "Xor2 I a b c = Some (x1, c1)" "good (k + 59) c1" "has c1 x1"
    "conserv mods nv (sol c) (sol c1)" "\<And>l. has c l \<Longrightarrow> has c1 l" "\<And>M. M \<in> mods (sol c1) \<Longrightarrow> M x1 = (M a \<noteq> M b)" by metis
  have "good ((k + 39) + 20) c1" using 1(2) by (simp add: add.commute)
  from gateD [OF Xor2_ok [OF this 1(3) 1(5) [OF h(3)]]] obtain s c2 where 2: "Xor2 I x1 cy c1 = Some (s, c2)" "good (k + 39) c2" "has c2 s"
    "conserv mods nv (sol c1) (sol c2)" "\<And>l. has c1 l \<Longrightarrow> has c2 l" "\<And>M. M \<in> mods (sol c2) \<Longrightarrow> M \<in> mods (sol c1)"
    "\<And>M. M \<in> mods (sol c2) \<Longrightarrow> M s = (M x1 \<noteq> M cy)" by metis
  have "good ((k + 26) + 13) c2" using 2(2) by (simp add: add.commute)
  from gateD [OF And2_ok [OF this 2(5) [OF 1(3)] 2(5) [OF 1(5) [OF h(3)]]]] obtain k1 c3 where 3: "And2 I x1 cy c2 = Some (k1, c3)"
    "good (k + 26) c3" "has c3 k1"
    "conserv mods nv (sol c2) (sol c3)" "\<And>l. has c2 l \<Longrightarrow> has c3 l" "\<And>M. M \<in> mods (sol c3) \<Longrightarrow> M \<in> mods (sol c2)"
    "\<And>M. M \<in> mods (sol c3) \<Longrightarrow> M k1 = (M x1 \<and> M cy)" by metis
  have "good ((k + 13) + 13) c3" using 3(2) by (simp add: add.commute)
  from gateD [OF And2_ok [OF this 3(5) [OF 2(5) [OF 1(5) [OF h(1)]]] 3(5) [OF 2(5) [OF 1(5) [OF h(2)]]]]] obtain k2 c4 where
    4: "And2 I a b c3 = Some (k2, c4)" "good (k + 13) c4" "has c4 k2"
    "conserv mods nv (sol c3) (sol c4)" "\<And>l. has c3 l \<Longrightarrow> has c4 l" "\<And>M. M \<in> mods (sol c4) \<Longrightarrow> M \<in> mods (sol c3)"
    "\<And>M. M \<in> mods (sol c4) \<Longrightarrow> M k2 = (M a \<and> M b)" by metis
  from gateD [OF Or2_ok [OF 4(2,3) 4(5) [OF 3(3)]]] obtain cy' c5 where 5: "Or2 I k2 k1 c4 = Some (cy', c5)" "good k c5" "has c5 cy'"
    "conserv mods nv (sol c4) (sol c5)" "\<And>l. has c4 l \<Longrightarrow> has c5 l" "\<And>M. M \<in> mods (sol c5) \<Longrightarrow> M \<in> mods (sol c4)"
    "\<And>M. M \<in> mods (sol c5) \<Longrightarrow> M cy' = (M k2 \<or> M k1)" by metis
  have "of_bool (M s) + 2 * of_bool (M cy') = (of_bool (M a) + of_bool (M b) + of_bool (M cy) :: nat)" if M: "M \<in> mods (sol c5)" for M
  proof -
    have m4: "M \<in> mods (sol c4)" using 5(6) M by blast
    have m3: "M \<in> mods (sol c3)" using 4(6) m4 by blast
    have m2: "M \<in> mods (sol c2)" using 3(6) m3 by blast
    have m1: "M \<in> mods (sol c1)" using 2(6) m2 by blast
    show ?thesis using 1(6) [OF m1] 2(7) [OF m2] 3(7) [OF m3] 4(7) [OF m4] 5(7) [OF M] by (simp split: if_splits)
  qed
  moreover have "conserv mods nv (sol c) (sol c5)"
    using conserv_trans [OF conserv_trans [OF conserv_trans [OF conserv_trans [OF 1(4) 2(4)] 3(4)] 4(4)] 5(4)] .
  moreover have "has c5 s" using 5(5) 4(5) 3(5) 2(3) by blast
  ultimately show ?thesis using 1(1) 2(1) 3(1) 4(1) 5(1-3) by blast
qed

lemma add_loop_ok:
  assumes "length as = length bs" and "good (k + 79 * length as) c" and "has c cy" and "\<forall>l \<in> set as \<union> set bs. has c l"
  shows "\<exists>ss cy' c'. add_loop I as bs cy c = Some (ss, cy', c') \<and> length ss = length as \<and> good k c' \<and> has c' cy' \<and>
     (\<forall>l \<in> set ss. has c' l) \<and> conserv mods nv (sol c) (sol c') \<and>
     (\<forall>M \<in> mods (sol c'). bits_val M ss + 2 ^ length as * of_bool (M cy') = bits_val M as + bits_val M bs + of_bool (M cy))"
  using assms
proof (induction as bs arbitrary: cy c rule: list_induct2)
  case Nil
  then show ?case by simp
next
  case (Cons a as b bs)
  have g: "good ((k + 79 * length as) + 79) c" using Cons.prems(1) by (simp add: algebra_simps)
  have h: "has c a" "has c b" using Cons.prems(3) by simp_all
  from full_adder [OF g h Cons.prems(2)] obtain x1 c1 s c2 k1 c3 k2 c4 cy1 c5 where
    e: "Xor2 I a b c = Some (x1, c1)" "Xor2 I x1 cy c1 = Some (s, c2)" "And2 I x1 cy c2 = Some (k1, c3)"
      "And2 I a b c3 = Some (k2, c4)" "Or2 I k2 k1 c4 = Some (cy1, c5)" and
    f: "good (k + 79 * length as) c5" "has c5 s" "has c5 cy1" "conserv mods nv (sol c) (sol c5)" and
    v: "\<forall>M \<in> mods (sol c5). of_bool (M s) + 2 * of_bool (M cy1) = (of_bool (M a) + of_bool (M b) + of_bool (M cy) :: nat)" by blast
  have up: "has c5 l" if "has c l" for l using f(4) that lit_ok_le by (auto simp: conserv_def)
  have h5: "\<forall>l \<in> set as \<union> set bs. has c5 l" using Cons.prems(3) up by simp
  from Cons.IH [OF f(1,3) h5] obtain ss cy' c' where r: "add_loop I as bs cy1 c5 = Some (ss, cy', c')" "length ss = length as"
    "good k c'" "has c' cy'" "\<forall>l \<in> set ss. has c' l" "conserv mods nv (sol c5) (sol c')"
    "\<forall>M \<in> mods (sol c'). bits_val M ss + 2 ^ length as * of_bool (M cy') = bits_val M as + bits_val M bs + of_bool (M cy1)" by blast
  have "bits_val M (s # ss) + 2 ^ length (a # as) * of_bool (M cy') = bits_val M (a # as) + bits_val M (b # bs) + of_bool (M cy)"
    if M: "M \<in> mods (sol c')" for M
  proof -
    have m5: "M \<in> mods (sol c5)" using r(6) M by (auto simp: conserv_def)
    have "2 * (bits_val M ss + 2 ^ length as * of_bool (M cy')) = 2 * (bits_val M as + bits_val M bs + of_bool (M cy1))"
      using bspec [OF r(7) M] by simp
    then have "2 * bits_val M ss + 2 ^ length (a # as) * of_bool (M cy') = 2 * bits_val M as + 2 * bits_val M bs + 2 * of_bool (M cy1)"
      by simp
    then show ?thesis using bspec [OF v m5] unfolding bits_val.simps by linarith
  qed
  moreover have "has c' s" using f(2) r(6) lit_ok_le by (auto simp: conserv_def)
  ultimately show ?case using e r(1-5) conserv_trans [OF f(4) r(6)]
    by (intro exI [of _ "s # ss"] exI [of _ cy'] exI [of _ c']) simp
qed

lemma Add_ok:
  assumes ne: "as \<noteq> []" and len: "length as = length bs" and c: "good (k + 79 * length as) c" and h: "\<forall>l \<in> set as \<union> set bs. has c l"
  shows "\<exists>ss cy c'. Add I as bs c = Some (ss, cy, c') \<and> length ss = length as \<and> good k c' \<and>
     conserv mods nv (sol c) (sol c') \<and>
     (\<forall>M \<in> mods (sol c'). bits_val M ss + 2 ^ length as * of_bool (M cy) = bits_val M as + bits_val M bs)"
proof -
  obtain a as' where a: "as = a # as'" using ne by (cases as) auto
  obtain b bs' where b: "bs = b # bs'" using ne len by (cases bs) auto
  have g: "good ((k + 79 * length as' + 20) + 13) c" by (rule good_less [OF c]) (simp add: a)
  have hab: "has c a" "has c b" using h by (simp_all add: a b)
  from gateD [OF And2_ok [OF g hab]] obtain cy c1 where 1: "And2 I a b c = Some (cy, c1)" "good (k + 79 * length as' + 20) c1" "has c1 cy"
    "conserv mods nv (sol c) (sol c1)" "\<And>l. has c l \<Longrightarrow> has c1 l" "\<And>M. M \<in> mods (sol c1) \<Longrightarrow> M cy = (M a \<and> M b)" by metis
  from gateD [OF Xor2_ok [OF 1(2) 1(5) [OF hab(1)] 1(5) [OF hab(2)]]] obtain s c2 where 2: "Xor2 I a b c1 = Some (s, c2)"
    "good (k + 79 * length as') c2" "has c2 s" "conserv mods nv (sol c1) (sol c2)" "\<And>l. has c1 l \<Longrightarrow> has c2 l"
    "\<And>M. M \<in> mods (sol c2) \<Longrightarrow> M \<in> mods (sol c1)" "\<And>M. M \<in> mods (sol c2) \<Longrightarrow> M s = (M a \<noteq> M b)" by metis
  have "length as' = length bs'" "\<forall>l \<in> set as' \<union> set bs'. has c2 l" using len h 1(5) 2(5) by (auto simp: a b)
  from add_loop_ok [OF this(1) 2(2) 2(5) [OF 1(3)] this(2)] obtain ss cy' c' where r:
    "add_loop I as' bs' cy c2 = Some (ss, cy', c')" "length ss = length as'" "good k c'" "conserv mods nv (sol c2) (sol c')"
    "\<forall>M \<in> mods (sol c'). bits_val M ss + 2 ^ length as' * of_bool (M cy') = bits_val M as' + bits_val M bs' + of_bool (M cy)" by blast
  have "bits_val M (s # ss) + 2 ^ length as * of_bool (M cy') = bits_val M as + bits_val M bs" if M: "M \<in> mods (sol c')" for M
  proof -
    have m2: "M \<in> mods (sol c2)" using r(4) M by (auto simp: conserv_def)
    have "of_bool (M s) + 2 * of_bool (M cy) = (of_bool (M a) + of_bool (M b) :: nat)"
      using 1(6) [OF 2(6) [OF m2]] 2(7) [OF m2] by (simp split: if_splits)
    moreover have "2 * (bits_val M ss + 2 ^ length as' * of_bool (M cy')) = 2 * (bits_val M as' + bits_val M bs' + of_bool (M cy))"
      using bspec [OF r(5) M] by simp
    then have "2 * bits_val M ss + 2 ^ length as * of_bool (M cy') = 2 * bits_val M as' + 2 * bits_val M bs' + 2 * of_bool (M cy)"
      by (simp add: a)
    ultimately show ?thesis unfolding a b bits_val.simps by linarith
  qed
  then show ?thesis using 1(1) 2(1) r(1-3) conserv_trans [OF conserv_trans [OF 1(4) 2(4)] r(4)]
    by (intro exI [of _ "s # ss"] exI [of _ cy'] exI [of _ c']) (simp add: Add_def HalfAdder_def a b)
qed

subsection \<open>Parity\<close>

lemma bin_pass_xor:
  assumes "good (k + 20 * length ls) c" and "\<forall>l \<in> set ls. has c l"
  shows "\<exists>rs c'. bin_pass (Xor2 I) ls c = Some (rs, c') \<and> length rs = (length ls + 1) div 2 \<and> good (k + 20 * length rs) c' \<and>
     (\<forall>l \<in> set rs. has c' l) \<and> conserv mods nv (sol c) (sol c') \<and>
     (\<forall>M \<in> mods (sol c'). odd (length (filter M rs)) = odd (length (filter M ls)))"
  using assms
proof (induction "Xor2 I" ls c arbitrary: k rule: bin_pass.induct)
  case (3 a b ls c)
  have g: "good ((k + 20 + 20 * length ls) + 20) c" using 3(2) by (simp add: algebra_simps)
  have h: "has c a" "has c b" using 3(3) by simp_all
  from gateD [OF Xor2_ok [OF g h]] obtain r c1 where 1: "Xor2 I a b c = Some (r, c1)" "good (k + 20 + 20 * length ls) c1" "has c1 r"
    "conserv mods nv (sol c) (sol c1)" "\<And>l. has c l \<Longrightarrow> has c1 l" "\<And>M. M \<in> mods (sol c1) \<Longrightarrow> M r = (M a \<noteq> M b)" by metis
  have g1: "good ((k + 20) + 20 * length ls) c1" "\<forall>l \<in> set ls. has c1 l" using 1(2,5) 3(3) by simp_all
  have "\<exists>rs c'. bin_pass (Xor2 I) ls c1 = Some (rs, c') \<and> length rs = (length ls + 1) div 2 \<and> good ((k + 20) + 20 * length rs) c' \<and>
     (\<forall>l \<in> set rs. has c' l) \<and> conserv mods nv (sol c1) (sol c') \<and>
     (\<forall>M \<in> mods (sol c'). odd (length (filter M rs)) = odd (length (filter M ls)))"
    by (rule 3(1) [OF 1(1) refl g1])
  then obtain rs c' where 2: "bin_pass (Xor2 I) ls c1 = Some (rs, c')" "length rs = (length ls + 1) div 2"
    "good ((k + 20) + 20 * length rs) c'" "\<forall>l \<in> set rs. has c' l" "conserv mods nv (sol c1) (sol c')"
    "\<forall>M \<in> mods (sol c'). odd (length (filter M rs)) = odd (length (filter M ls))" by blast
  have "odd (length (filter M (r # rs))) = odd (length (filter M (a # b # ls)))" if M: "M \<in> mods (sol c')" for M
    using bspec [OF 2(6) M] 1(6) [of M] M 2(5) by (auto simp: conserv_def)
  moreover have "has c' r" using 1(3) 2(5) lit_ok_le by (auto simp: conserv_def)
  ultimately show ?case using 1(1) 2(1-4) conserv_trans [OF 1(4) 2(5)]
    by (intro exI [of _ "r # rs"] exI [of _ c']) (simp add: algebra_simps)
qed auto

lemma bin_loop_xor:
  assumes "good (k + 20 * length ls) c" and "\<forall>l \<in> set ls. has c l" and "ls \<noteq> []"
  shows "\<exists>r c'. bin_loop (Xor2 I) ls c = Some ([r], c') \<and> good k c' \<and> has c' r \<and> conserv mods nv (sol c) (sol c') \<and>
     (\<forall>M \<in> mods (sol c'). M r = odd (length (filter M ls)))"
  using assms
proof (induction "length ls" arbitrary: ls c rule: less_induct)
  case less
  show ?case
  proof (cases "1 < length ls")
    case True
    from bin_pass_xor [OF less.prems(1,2)] obtain rs c1 where 1: "bin_pass (Xor2 I) ls c = Some (rs, c1)"
      "length rs = (length ls + 1) div 2" "good (k + 20 * length rs) c1" "\<forall>l \<in> set rs. has c1 l" "conserv mods nv (sol c) (sol c1)"
      "\<forall>M \<in> mods (sol c1). odd (length (filter M rs)) = odd (length (filter M ls))"
      by (elim exE conjE) (rule that)
    have "length rs < length ls" "rs \<noteq> []" using 1(2) True by auto
    from less.hyps [OF this(1) 1(3,4) this(2)] obtain r c' where 2: "bin_loop (Xor2 I) rs c1 = Some ([r], c')" "good k c'"
      "has c' r" "conserv mods nv (sol c1) (sol c')" "\<forall>M \<in> mods (sol c'). M r = odd (length (filter M rs))"
      by (elim exE conjE) (rule that)
    have "bin_loop (Xor2 I) ls c = Some ([r], c')" using True 1(1) 2(1) by (subst bin_loop.simps) simp
    moreover have "\<forall>M \<in> mods (sol c'). M r = odd (length (filter M ls))"
    proof
      fix M assume M: "M \<in> mods (sol c')"
      have "M \<in> mods (sol c1)" using 2(4) M unfolding conserv_def by blast
      from bspec [OF 1(6) this] bspec [OF 2(5) M] show "M r = odd (length (filter M ls))" by (simp only:)
    qed
    ultimately show ?thesis using 2(2,3) conserv_trans [OF 1(5) 2(4)] by (intro exI [of _ r] exI [of _ c'] conjI)
  next
    case False
    then obtain l where l: "ls = [l]" using less.prems(3) by (cases ls) auto
    have "good k c" by (rule good_less [OF less.prems(1)]) simp
    then show ?thesis using l less.prems(2) by (subst bin_loop.simps) (intro exI [of _ l] exI [of _ c], simp)
  qed
qed

lemma Xor_vec_ok:
  assumes c: "good (k + 20 * length ls) c" and h: "\<forall>l \<in> set ls. has c l" and ne: "ls \<noteq> []"
  shows "yields k c (Xor_vec I (Ext ls) c) (\<lambda>M. odd (length (filter M ls)))"
proof -
  let ?c = "c\<lparr>c_tmp := ls\<rparr>"
  have "good (k + 20 * length ls) ?c" "\<forall>l \<in> set ls. has ?c l" using c h by simp_all
  from bin_loop_xor [OF this ne] obtain r c' where r: "bin_loop (Xor2 I) ls ?c = Some ([r], c')" "good k c'" "has c' r"
    "conserv mods nv (sol ?c) (sol c')" "\<forall>M \<in> mods (sol c'). M r = odd (length (filter M ls))"
    by (elim exE conjE) (rule that)
  have "Xor_vec I (Ext ls) c = Some (r, c'\<lparr>c_tmp := []\<rparr>)"
    using r(1) by (simp add: Xor_vec_def load_tmp_def reduce_tmp_def bin_op_def Let_def)
  moreover have "gate c r c' (\<lambda>M. odd (length (filter M ls)))"
    unfolding gate_ok_def using r(3-5) by simp
  then have "gate c r (c'\<lparr>c_tmp := []\<rparr>) (\<lambda>M. odd (length (filter M ls)))" by (simp only: scratch_eqs)
  moreover have "good k (c'\<lparr>c_tmp := []\<rparr>)" using r(2) by (simp only: scratch_eqs)
  ultimately show ?thesis unfolding gives_def by blast
qed

lemma new_circuit_ok:
  assumes "room (k + 3) s"
  shows "\<exists>c. new_circuit I s = Some c \<and> good k c \<and> nv (sol c) = Suc (nv s) \<and> mods (sol c) = mods s \<inter> {M. M (lit_True c)} \<and>
     c_tmp c = []"
proof -
  from new_var [OF assms] obtain s1 where s1: "api_newVar I s = (int (nv s), s1)" "room (k + 3) s1" "nv s1 = Suc (nv s)"
    "mods s1 = mods s" by blast
  let ?t = "mkLit (int (nv s)) False"
  have "room (k + length [?t] + 2) s1" "\<forall>l \<in> set [?t]. lit_ok (nv s1) l"
    using s1(2,3) by (simp_all add: lit_ok_alt eval_nat_numeral)
  from add_clause [OF this] obtain s2 where s2: "api_addClause I [?t] s1 = Some s2" "room k s2" "nv s2 = nv s1"
    "mods s2 = mods s1 \<inter> clause_models [?t]" by auto
  let ?c = "\<lparr>sol = s2, lit_True = ?t, c_tmp = [], c_tmp2 = [], c_store = []\<rparr>"
  have "new_circuit I s = Some ?c" by (simp add: new_circuit_def fresh_lit_def s1(1) c_addClause_def s2(1))
  then show ?thesis using s1 s2 by (intro exI [of _ ?c]) (simp add: circ_def clause_models_def lit_ok_alt)
qed

end

section \<open>The modelled solver provides the interface\<close>

definition solver_api_of :: "'h theory_ops \<Rightarrow> 'h solver solver_api" where
  "solver_api_of T =
     \<lparr>api_newVar = newVar True True, api_addClause = (\<lambda>ps s. map_option snd (addClause T ps s)),
      api_value = lvalue, api_level = level\<rparr>"

definition solver_room :: "'h theory_ops \<Rightarrow> nat \<Rightarrow> 'h solver \<Rightarrow> bool" where
  "solver_room T k s \<longleftrightarrow> trail_lim s = [] \<and> free_vars s = [] \<and> calm T s \<and>
     (ok s \<longrightarrow> root_ok s \<and> unat (rsz (region_of (ca s))) + k \<le> 2643056797 \<and>
        unat (rsz (region_of (ca s))) + k \<le> unat (marker_refs (ca s)))"

text \<open>Once \<^verbatim>\<open>ok\<close> is false the problem has no models.\<close>

definition solver_mods :: "'h solver \<Rightarrow> (Lit \<Rightarrow> bool) set" where
  "solver_mods s = (if ok s then models s else {})"

lemma newVar_frame:
  assumes "free_vars s = []"
  shows "\<exists>s'. newVar sg dv s = (int (nVars s), s') \<and> nVars s' = Suc (nVars s) \<and> ok s' = ok s \<and> trail_lim s' = trail_lim s \<and>
     free_vars s' = [] \<and>
     theory_vars s' = (theory_vars s @ [\<lparr>td_theory = 0, td_theory_var = 0\<rparr>])[nVars s := \<lparr>td_theory = 0, td_theory_var = 0\<rparr>]"
proof -
  obtain a sd1 where a: "initial_activity (push_var s) = (a, sd1)" by fastforce
  obtain pol sd2 where p: "initial_polarity (push_var s) sg sd1 = (pol, sd2)" by fastforce
  let ?s = "reset_var (int (nVars s)) a pol sd2 (push_var s)"
  have v: "vardata ?s = vardata s @ [\<lparr>vreason = CRef_Undef, vlevel = 0\<rparr>]"
    by (simp add: reset_var_def push_var_def vix_def nVars_def)
  have f: "ok ?s = ok s" "trail_lim ?s = trail_lim s" "free_vars ?s = []"
    "theory_vars ?s = (theory_vars s @ [\<lparr>td_theory = 0, td_theory_var = 0\<rparr>])[nVars s := \<lparr>td_theory = 0, td_theory_var = 0\<rparr>]"
    using assms by (simp_all add: reset_var_def push_var_def vix_def)
  have "newVar sg dv s = (int (nVars s), setDecisionVar (int (nVars s)) (dv \<and> \<not> outside_decisions (push_var s) (int (nVars s))) ?s)"
    using assms a p by (simp add: newVar_def pick_var_def)
  then show ?thesis using v f by (simp add: nVars_def)
qed

lemma models_local:
  assumes r: "root_ok s" and M: "M \<in> models s" and M': "lit_model M'" and e: "\<forall>l. lit_ok (nVars s) l \<longrightarrow> M' l = M l"
  shows "M' \<in> models s"
proof -
  have tok: "trail_ok s" and cl: "clauses_ok (nVars s) (db s) (clits s)"
    using r winvD(1) by (auto simp: root_ok_def solver_inv_def bcp_inv_def)
  have "M' p" if "p \<in> set (trail s)" for p using M e that trail_okD(4) [OF tok] by (auto simp: models_def)
  moreover have "\<exists>l \<in> set (clits s cr). M' l" if "cr \<in> db s" for cr
    using M e that cl by (fastforce simp: models_def clauses_ok_def)
  ultimately show ?thesis using M' by (simp add: models_def)
qed

lemma solver_add_clause:
  fixes T :: "'h theory_ops"
  assumes rm: "solver_room T (k + length ps + 2) s" and ps: "\<forall>l \<in> set ps. lit_ok (nVars s) l" and len: "length ps < 2 ^ 26"
  shows "\<exists>s'. map_option snd (addClause T ps s) = Some s' \<and> solver_room T k s' \<and> nVars s' = nVars s \<and>
     solver_mods s' = solver_mods s \<inter> clause_models ps"
proof -
  have lim: "trail_lim s = []" "free_vars s = []" "calm T s" using rm by (simp_all add: solver_room_def)
  then have add: "addClause T ps s = addClause_ok T False ps s" by (simp add: addClause_def cancelUntil_def decisionLevel_def)
  show ?thesis
  proof (cases "ok s")
    case False
    then show ?thesis using lim by (simp add: add addClause_ok_def solver_room_def solver_mods_def)
  next
    case True
    have r: "root_ok s" "unat (rsz (region_of (ca s))) + (k + length ps + 2) \<le> 2643056797"
      "unat (rsz (region_of (ca s))) + (k + length ps + 2) \<le> unat (marker_refs (ca s))"
      using rm True by (simp_all add: solver_room_def)
    have b: "unat (rsz (region_of (ca s))) + length ps + 2 \<le> 2643056797" using r(2) by linarith
    have m: "rsz (region_of (ca s)) < marker_refs (ca s)" unfolding word_less_nat_alt using r(3) by linarith
    from addClause_spec [OF r(1) True ps len b m lim(3), of False] obtain c s' where a: "addClause_ok T False ps s = Some (c, s')"
      "ok s' = c" "nVars s' = nVars s" "frame_rest s' = frame_rest s" "trail_lim s' = trail_lim s"
      "marker_refs (ca s') = marker_refs (ca s)" "unat (rsz (region_of (ca s'))) \<le> unat (rsz (region_of (ca s))) + length ps + 2"
      "if c then root_ok s' \<and> models s' = models s \<inter> clause_models ps else models s \<inter> clause_models ps = {}" by blast
    have "calm T s'" using lim(3) calm_cong [OF frame_restD(5) [OF a(4)] a(3)] by simp
    then have "solver_room T k s'" using a(2,5-8) lim frame_restD(1) [OF a(4)] r by (auto simp: solver_room_def)
    moreover have "solver_mods s' = solver_mods s \<inter> clause_models ps" using a(2,8) True by (auto simp: solver_mods_def)
    ultimately show ?thesis using a(1,3) by (simp add: add)
  qed
qed

lemma solver_provides_cnf: "cnf_solver (solver_api_of T) (solver_room T) solver_mods nVars"
proof (unfold_locales, goal_cases)
  case (1 k s j)
  then show ?case by (auto simp: solver_room_def)
next
  case (2 k s)
  have fr: "free_vars s = []" "calm T s" using 2 by (simp_all add: solver_room_def)
  from newVar_frame [OF fr(1), of True True] obtain s' where n: "newVar True True s = (int (nVars s), s')" "nVars s' = Suc (nVars s)"
    "ok s' = ok s" "trail_lim s' = trail_lim s" "free_vars s' = []"
    "theory_vars s' = (theory_vars s @ [\<lparr>td_theory = 0, td_theory_var = 0\<rparr>])[nVars s := \<lparr>td_theory = 0, td_theory_var = 0\<rparr>]"
    by blast
  have "set (theory_vars s') \<subseteq> insert \<lparr>td_theory = 0, td_theory_var = 0\<rparr> (set (theory_vars s))"
    unfolding n(6) by (rule order_trans [OF set_update_subset_insert]) simp
  then have cm: "calm T s'" using fr(2) n(2,6) by (auto simp: calm_def)
  have "solver_room T k s' \<and> solver_mods s' = solver_mods s"
  proof (cases "ok s")
    case True
    then have r: "root_ok s" using 2 by (simp add: solver_room_def)
    have inv: "solver_inv (db s) s" "queue_done (db s) s" using r by (simp_all add: root_ok_def)
    note sp = newVar_spec [OF inv fr(1) n(1)]
    have d: "db s' = db s" using sp(6,7) by (simp add: db_def)
    have cl: "clits s' = clits s" using sp(11) by (rule state_eqs(7))
    have "root_ok s'" using r sp by (simp add: root_ok_def d)
    moreover have "models s' = models s" by (simp add: models_def d cl sp(5))
    ultimately show ?thesis using 2 True n cm sp(11) by (simp add: solver_room_def solver_mods_def)
  next
    case False
    then show ?thesis using 2 n cm by (simp add: solver_room_def solver_mods_def)
  qed
  then show ?case using n by (simp add: solver_api_of_def)
next
  case (3 k ps s)
  then show ?case using solver_add_clause [of T k ps s] by (simp add: solver_api_of_def)
next
  case (4 k s l M)
  then have "root_ok s" "isT s l" "M \<in> models s" by (auto simp: solver_room_def solver_mods_def solver_api_of_def isT_def split: if_splits)
  then show ?case using 4(2) trail_okD(1) [OF root_okD(5), of s l] by (auto simp: models_def)
next
  case (5 k s l M)
  then have "root_ok s" "isF s l" "M \<in> models s" by (auto simp: solver_room_def solver_mods_def solver_api_of_def isF_def split: if_splits)
  then show ?case using 5(2) trail_okD(2) [OF root_okD(5), of s l] by (auto simp: models_def lit_model_def)
next
  case (6 M s)
  then show ?case by (auto simp: solver_mods_def models_def split: if_splits)
next
  case (7 k s M M')
  then show ?case using models_local by (auto simp: solver_room_def solver_mods_def split: if_splits)
qed

interpretation solver_cnf: cnf_solver "solver_api_of T" "solver_room T" solver_mods nVars for T
  by (rule solver_provides_cnf)

section \<open>The encodings over the modelled solver\<close>

text \<open>C11: the binary gates and the multiplexer are correct over the CDCL solver: the call returns, in every model
  of the clauses added so far the output has the value of the gate, every earlier model extends to one
  after the call, and the circuit remains usable.\<close>

theorem gates_correct:
  assumes "circ (solver_room T) solver_mods nVars (k + 39) c"
    and "lit_ok (nVars (sol c)) a" and "lit_ok (nVars (sol c)) b" and "lit_ok (nVars (sol c)) d"
  shows "gives (solver_room T) solver_mods nVars k c (And2 (solver_api_of T) a b c) (\<lambda>M. M a \<and> M b) \<and>
     gives (solver_room T) solver_mods nVars k c (Or2 (solver_api_of T) a b c) (\<lambda>M. M a \<or> M b) \<and>
     gives (solver_room T) solver_mods nVars k c (Xor2 (solver_api_of T) a b c) (\<lambda>M. M a \<noteq> M b) \<and>
     gives (solver_room T) solver_mods nVars k c (Ite (solver_api_of T) a b d c) (\<lambda>M. if M a then M b else M d)"
proof (intro conjI)
  have g: "circ (solver_room T) solver_mods nVars (k + 13) c" "circ (solver_room T) solver_mods nVars (k + 20) c"
    by (rule solver_cnf.good_less [OF assms(1)]; simp)+
  show "gives (solver_room T) solver_mods nVars k c (And2 (solver_api_of T) a b c) (\<lambda>M. M a \<and> M b)"
    by (rule solver_cnf.And2_ok [OF g(1) assms(2,3)])
  show "gives (solver_room T) solver_mods nVars k c (Or2 (solver_api_of T) a b c) (\<lambda>M. M a \<or> M b)"
    by (rule solver_cnf.Or2_ok [OF g(1) assms(2,3)])
  show "gives (solver_room T) solver_mods nVars k c (Xor2 (solver_api_of T) a b c) (\<lambda>M. M a \<noteq> M b)"
    by (rule solver_cnf.Xor2_ok [OF g(2) assms(2,3)])
  show "gives (solver_room T) solver_mods nVars k c (Ite (solver_api_of T) a b d c) (\<lambda>M. if M a then M b else M d)"
    by (rule solver_cnf.Ite_ok [OF assms])
qed

text \<open>C12: \<^verbatim>\<open>And\<close> of a vector is the conjunction of the vector and of whatever \<^verbatim>\<open>tmp\<close> holds when it is called; it is the
  conjunction of its arguments exactly when \<^verbatim>\<open>tmp\<close> was left empty.\<close>

theorem and_vec_correct:
  assumes "circ (solver_room T) solver_mods nVars (k + 5 * length (c_tmp c @ vals) + 3) c"
    and "\<forall>l \<in> set (c_tmp c @ vals). lit_ok (nVars (sol c)) l" and "length (c_tmp c @ vals) < 2 ^ 26 - 1"
  shows "gives (solver_room T) solver_mods nVars k c (And_vec (solver_api_of T) vals c) (\<lambda>M. \<forall>l \<in> set (c_tmp c @ vals). M l)"
  by (rule solver_cnf.And_vec_ok [OF assms])

text \<open>C13: the reduction of a non-empty vector by \<^verbatim>\<open>Xor\<close> returns and its output is the parity of the vector.\<close>

theorem xor_vec_parity:
  assumes "circ (solver_room T) solver_mods nVars (k + 20 * length vals) c" and "\<forall>l \<in> set vals. lit_ok (nVars (sol c)) l"
    and "vals \<noteq> []"
  shows "gives (solver_room T) solver_mods nVars k c (Xor_vec (solver_api_of T) (Ext vals) c) (\<lambda>M. odd (length (filter M vals)))"
  by (rule solver_cnf.Xor_vec_ok [OF assms])

text \<open>C10: the ripple-carry adder adds: in every model of the clauses the sum bits and the carry are the binary sum of
  the two inputs, and every earlier model extends to one after the call.\<close>

theorem ripple_adder_correct:
  assumes "as \<noteq> []" and "length as = length bs" and "circ (solver_room T) solver_mods nVars (k + 79 * length as) c"
    and "\<forall>l \<in> set as \<union> set bs. lit_ok (nVars (sol c)) l"
  shows "\<exists>ss cy c'. Add (solver_api_of T) as bs c = Some (ss, cy, c') \<and> length ss = length as \<and>
     circ (solver_room T) solver_mods nVars k c' \<and> conserv solver_mods nVars (sol c) (sol c') \<and>
     (\<forall>M \<in> solver_mods (sol c'). bits_val M ss + 2 ^ length as * of_bool (M cy) = bits_val M as + bits_val M bs)"
  by (rule solver_cnf.Add_ok [OF assms])

text \<open>C16: the overloads for lists of three or more literals assert a constant and not their argument: the vector they
  pass is \<^verbatim>\<open>tmp\<close> itself, which the reduction clears before it reads it.  \<^verbatim>\<open>AssertXor\<close> asserts true,
  \<^verbatim>\<open>AssertXnor\<close> and \<^verbatim>\<open>AssertEqual\<close> assert false.\<close>

theorem list_assertions_lose_arguments:
  assumes "2 < length vals"
  shows "AssertXor_list I vals c = c_addClause I [lit_True c] (c\<lparr>c_tmp := []\<rparr>) \<and>
     AssertXnor_list I vals c = c_addClause I [neg (lit_True c)] (c\<lparr>c_tmp := []\<rparr>) \<and>
     AssertEqual_list I vals c = c_addClause I [neg (lit_True c)] (c\<lparr>c_tmp := []\<rparr>)"
proof -
  have l: "length vals \<noteq> 0" "length vals \<noteq> 1" "length vals \<noteq> 2" using assms by auto
  have x: "Xor_vec I Tmp (c\<lparr>c_tmp := vals\<rparr>) = Some (lit_True c, c\<lparr>c_tmp := []\<rparr>)"
    by (simp add: Xor_vec_def load_tmp_def Let_def reduce_tmp_def bin_op_def bin_loop.simps)
  then have n: "Xnor_vec I Tmp (c\<lparr>c_tmp := vals\<rparr>) = Some (neg (lit_True c), c\<lparr>c_tmp := []\<rparr>)"
    by (simp add: Xnor_vec_def negated_def)
  show ?thesis
    using l x n by (simp add: AssertXor_list_def AssertXnor_list_def AssertEqual_list_def AssertXor_vec_def AssertXnor_vec_def
        Let_def Assert_def)
qed

text \<open>C17: \<^verbatim>\<open>Xor_\<close> with an output literal ignores it unless an input is constant: it is the gate with a fresh output.
  So the adder with given output literals constrains none of them.\<close>

theorem xor_out_ignores_output:
  assumes "out \<noteq> lit_Undef" and "\<not> isConst I a c" and "\<not> isConst I b c"
  shows "Xor_out2 I a b out c = Xor2 I a b c"
  using assms by (simp add: Xor_out2_def Xor2_def isConst_def)

subsection \<open>A concrete circuit\<close>

lemma two_vars_circuit:
  "\<exists>c. new_circuit (solver_api_of no_theories) two_vars = Some c \<and> circ (solver_room no_theories) solver_mods nVars 1000 c \<and>
     nVars (sol c) = 3 \<and> c_tmp c = []"
proof -
  have "free_vars two_vars = []"
  proof -
    obtain v1 s1 where 1: "newVar True True empty_solver = (v1, s1)" by fastforce
    have e: "free_vars empty_solver = []" by (simp add: empty_solver_def solver_new_def)
    from newVar_frame [OF e, of True True] 1 have f: "free_vars s1 = []" by simp
    from newVar_frame [OF f, of True True] show ?thesis by (auto simp: two_vars_def 1)
  qed
  moreover have "unat (marker_refs (ca two_vars)) = 4294967295"
    by (simp add: two_vars_ok Ref_Undef_def unsigned_minus_1_eq_mask mask_eq_exp_minus_1)
  ultimately have "solver_room no_theories (1000 + 3) two_vars"
    using two_vars_ok(1,2,7) by (simp add: solver_room_def root_ok_def)
  from solver_cnf.new_circuit_ok [OF this] show ?thesis by (auto simp: two_vars_ok(3))
qed

lemma three_lits: "v < 3 \<Longrightarrow> lit_ok 3 (mkLit (int v) b)"
  by (simp add: lit_ok_alt)

theorem gates_correct_witness:
  "\<exists>c. new_circuit (solver_api_of no_theories) two_vars = Some c \<and>
     gives (solver_room no_theories) solver_mods nVars 1 c (Xor2 (solver_api_of no_theories) (mkLit 0 False) (mkLit 1 True) c)
       (\<lambda>M. M (mkLit 0 False) \<noteq> M (mkLit 1 True))"
proof -
  from two_vars_circuit obtain c where c: "new_circuit (solver_api_of no_theories) two_vars = Some c"
    "circ (solver_room no_theories) solver_mods nVars 1000 c" "nVars (sol c) = 3" by blast
  have g: "circ (solver_room no_theories) solver_mods nVars (1 + 39) c" by (rule solver_cnf.good_less [OF c(2)]) simp
  have l: "lit_ok (nVars (sol c)) (mkLit 0 False)" "lit_ok (nVars (sol c)) (mkLit 1 True)"
    using three_lits [of 0] three_lits [of 1] by (simp_all add: c(3))
  show ?thesis using gates_correct [OF g l l(1)] c(1) by blast
qed

theorem and_vec_correct_witness:
  "\<exists>c. new_circuit (solver_api_of no_theories) two_vars = Some c \<and>
     gives (solver_room no_theories) solver_mods nVars 1 c (And_vec (solver_api_of no_theories) [mkLit 0 False, mkLit 1 True] c)
       (\<lambda>M. M (mkLit 0 False) \<and> M (mkLit 1 True))"
proof -
  from two_vars_circuit obtain c where c: "new_circuit (solver_api_of no_theories) two_vars = Some c"
    "circ (solver_room no_theories) solver_mods nVars 1000 c" "nVars (sol c) = 3" "c_tmp c = []" by blast
  let ?vs = "[mkLit 0 False, mkLit 1 True]"
  have g: "circ (solver_room no_theories) solver_mods nVars (1 + 5 * length (c_tmp c @ ?vs) + 3) c"
    by (rule solver_cnf.good_less [OF c(2)]) (simp add: c(4))
  have l: "\<forall>l \<in> set (c_tmp c @ ?vs). lit_ok (nVars (sol c)) l"
    using three_lits [of 0] three_lits [of 1] by (simp add: c(3,4))
  show ?thesis using and_vec_correct [OF g l] c(1,4) by auto
qed

theorem xor_vec_parity_witness:
  "\<exists>c. new_circuit (solver_api_of no_theories) two_vars = Some c \<and>
     gives (solver_room no_theories) solver_mods nVars 1 c (Xor_vec (solver_api_of no_theories) (Ext [mkLit 0 False, mkLit 1 True, mkLit 0 False]) c)
       (\<lambda>M. odd (length (filter M [mkLit 0 False, mkLit 1 True, mkLit 0 False])))"
proof -
  from two_vars_circuit obtain c where c: "new_circuit (solver_api_of no_theories) two_vars = Some c"
    "circ (solver_room no_theories) solver_mods nVars 1000 c" "nVars (sol c) = 3" by blast
  let ?vs = "[mkLit 0 False, mkLit 1 True, mkLit 0 False]"
  have g: "circ (solver_room no_theories) solver_mods nVars (1 + 20 * length ?vs) c" by (rule solver_cnf.good_less [OF c(2)]) simp
  have l: "\<forall>l \<in> set ?vs. lit_ok (nVars (sol c)) l" using three_lits [of 0] three_lits [of 1] by (simp add: c(3))
  show ?thesis using xor_vec_parity [OF g l] c(1) by blast
qed

theorem ripple_adder_correct_witness:
  "\<exists>c ss cy c'. new_circuit (solver_api_of no_theories) two_vars = Some c \<and>
     Add (solver_api_of no_theories) [mkLit 0 False, mkLit 1 False] [mkLit 1 True, mkLit 0 False] c = Some (ss, cy, c') \<and>
     (\<forall>M \<in> solver_mods (sol c'). bits_val M ss + 4 * of_bool (M cy) =
        bits_val M [mkLit 0 False, mkLit 1 False] + bits_val M [mkLit 1 True, mkLit 0 False])"
proof -
  from two_vars_circuit obtain c where c: "new_circuit (solver_api_of no_theories) two_vars = Some c"
    "circ (solver_room no_theories) solver_mods nVars 1000 c" "nVars (sol c) = 3" by blast
  let ?as = "[mkLit 0 False, mkLit 1 False]" and ?bs = "[mkLit 1 True, mkLit 0 False]"
  have g: "circ (solver_room no_theories) solver_mods nVars (1 + 79 * length ?as) c" by (rule solver_cnf.good_less [OF c(2)]) simp
  have l: "\<forall>l \<in> set ?as \<union> set ?bs. lit_ok (nVars (sol c)) l" using three_lits [of 0] three_lits [of 1] by (simp add: c(3))
  have "?as \<noteq> []" "length ?as = length ?bs" by simp_all
  from ripple_adder_correct [OF this g l] obtain ss cy c' where
    "Add (solver_api_of no_theories) ?as ?bs c = Some (ss, cy, c')"
    "\<forall>M \<in> solver_mods (sol c'). bits_val M ss + 2 ^ length ?as * of_bool (M cy) = bits_val M ?as + bits_val M ?bs" by blast
  moreover have "2 ^ length ?as = (4 :: nat)" by simp
  ultimately show ?thesis using c(1) by metis
qed

theorem list_assertions_lose_arguments_witness:
  "\<forall>(I :: unit solver solver_api) c. AssertXor_list I [mkLit 0 False, mkLit 1 False, mkLit 2 False] c =
     c_addClause I [lit_True c] (c\<lparr>c_tmp := []\<rparr>)"
proof (intro allI)
  fix I :: "unit solver solver_api" and c
  have "2 < length [mkLit 0 False, mkLit 1 False, mkLit 2 False]" by simp
  from list_assertions_lose_arguments [OF this, of I c]
  show "AssertXor_list I [mkLit 0 False, mkLit 1 False, mkLit 2 False] c = c_addClause I [lit_True c] (c\<lparr>c_tmp := []\<rparr>)" by blast
qed

theorem xor_out_ignores_output_witness:
  "\<exists>I :: nat solver_api. Xor_out2 I (Lit 0) (Lit 2) (Lit 4) \<lparr>sol = 3, lit_True = Lit 6, c_tmp = [], c_tmp2 = [], c_store = []\<rparr> =
     Some (Lit 6, \<lparr>sol = 4, lit_True = Lit 6, c_tmp = [], c_tmp2 = [], c_store = []\<rparr>)"
proof -
  let ?I = "\<lparr>api_newVar = (\<lambda>s. (int s, Suc s)), api_addClause = (\<lambda>ps s. Some s), api_value = (\<lambda>_ _. l_Undef),
     api_level = (\<lambda>_ _. 0)\<rparr> :: nat solver_api"
  let ?c = "\<lparr>sol = 3, lit_True = Lit 6, c_tmp = [], c_tmp2 = [], c_store = []\<rparr> :: nat circuit"
  have nc: "\<not> isConst ?I l ?c" for l by (simp add: isConst_def isConstTrue_def isConstFalse_def) (simp add: l_True_def l_False_def l_Undef_def)
  have "Lit 4 \<noteq> lit_Undef" by (simp add: lit_Undef_def)
  from xor_out_ignores_output [OF this nc nc, of "Lit 0" "Lit 2"]
  have "Xor_out2 ?I (Lit 0) (Lit 2) (Lit 4) ?c = Xor2 ?I (Lit 0) (Lit 2) ?c" .
  also have "\<dots> = Some (Lit 6, ?c\<lparr>sol := 4\<rparr>)"
    using nc [of "Lit 0"] nc [of "Lit 2"]
    by (simp add: Xor2_def isConst_def fresh_lit_def xor_clauses_def c_addClause_def mkLit_def)
  finally show ?thesis by (intro exI [of _ ?I]) simp
qed

end
