(* ===== verification/AMO.thy ===== *)
theory AMO
  imports SolverTypes
begin

text \<open>
  \<^verbatim>\<open>amo/AMOTheory.h\<close>: the theory of one at-most-one constraint over variables of the solver.  The operations are
  those of the theory interface; the literals they pass to \<^verbatim>\<open>S->enqueue\<close> with the reason \<^verbatim>\<open>assign_false_reason\<close> are
  part of the result, in order, and the solver's values and the option \<^verbatim>\<open>opt_amo_eager_prop\<close> are arguments.  The
  counters of the statistics are left out.
\<close>

section \<open>The theory\<close>

record amo_theory =
  amo :: "Var list"
  true_var :: Var
  conflict_var :: Var
  needs_propagation :: bool

definition amo_new :: amo_theory where
  "amo_new = \<lparr>amo = [], true_var = var_Undef, conflict_var = var_Undef, needs_propagation = False\<rparr>"

definition addVar :: "Var \<Rightarrow> amo_theory \<Rightarrow> amo_theory" where
  "addVar v a = a\<lparr>amo := amo a @ [v]\<rparr>"

text \<open>\<^verbatim>\<open>for (Var v : amo) if (v != true_var) S->enqueue(mkLit(v, true), assign_false_reason)\<close>\<close>

fun others_false :: "Var \<Rightarrow> Var list \<Rightarrow> Lit list" where
  "others_false t [] = []"
| "others_false t (v # vs) = (if v \<noteq> t then mkLit v True # others_false t vs else others_false t vs)"

definition undecideTheory :: "Lit \<Rightarrow> amo_theory \<Rightarrow> amo_theory" where
  "undecideTheory l a =
     (let a1 = (if var l = true_var a then a\<lparr>needs_propagation := False, true_var := var_Undef\<rparr> else a)
      in if var l = conflict_var a1 then a1\<lparr>conflict_var := var_Undef\<rparr> else a1)"

definition enqueueTheory :: "bool \<Rightarrow> Lit \<Rightarrow> amo_theory \<Rightarrow> Lit list \<times> amo_theory" where
  "enqueueTheory eager l a =
     (if conflict_var a = var_Undef \<and> \<not> sign l
      then if true_var a = var_Undef
           then let a1 = a\<lparr>true_var := var l\<rparr>
                in if eager then (others_false (true_var a1) (amo a1), a1) else ([], a1\<lparr>needs_propagation := True\<rparr>)
           else if var l = true_var a then ([], a)
           else ([], a\<lparr>conflict_var := var l\<rparr>)
      else ([], a))"

text \<open>The result: no conflict, the conflict clause, the literals passed to the solver, and the state.\<close>

definition propagateTheory :: "amo_theory \<Rightarrow> bool \<times> Lit list \<times> Lit list \<times> amo_theory" where
  "propagateTheory a =
     (if conflict_var a \<noteq> var_Undef
      then (False, [mkLit (conflict_var a) True, mkLit (true_var a) True], [], a\<lparr>needs_propagation := False\<rparr>)
      else if true_var a \<noteq> var_Undef \<and> needs_propagation a
      then (True, [], others_false (true_var a) (amo a), a\<lparr>needs_propagation := False\<rparr>)
      else (True, [], [], a))"

definition solveTheory :: "amo_theory \<Rightarrow> bool \<times> Lit list \<times> Lit list \<times> amo_theory" where
  "solveTheory a = propagateTheory a"

definition buildReason :: "Lit \<Rightarrow> amo_theory \<Rightarrow> Lit list" where
  "buildReason p a = (if var p \<noteq> true_var a then [mkLit (var p) True, mkLit (true_var a) True] else [])"

fun check_loop :: "(Var \<Rightarrow> lbool) \<Rightarrow> Var list \<Rightarrow> nat \<Rightarrow> bool" where
  "check_loop val [] n = True"
| "check_loop val (v # vs) n =
     (if lb_eq (val v) l_True then if 1 < n + 1 then False else check_loop val vs (n + 1) else check_loop val vs n)"

definition check_solved :: "(Var \<Rightarrow> lbool) \<Rightarrow> amo_theory \<Rightarrow> bool" where
  "check_solved val a = check_loop val (amo a) 0"

section \<open>Runs\<close>

text \<open>
  What the solver does with the theory: it enqueues literals of unassigned variables, takes literals back from the end
  of its trail, notifies again of literals that stay assigned, and asks for propagation.  The trail holds the assigned
  literals of the theory, the oldest first; \<open>sent\<close> are the literals that the theory passed to the solver.
\<close>

record amo_run =
  run_trail :: "Lit list"
  run_amo :: amo_theory
  sent :: "Lit list"

inductive amo_step :: "bool \<Rightarrow> amo_run \<Rightarrow> amo_run \<Rightarrow> bool" for eager where
  enq_lit: "var l \<in> set (amo (run_amo r)) \<Longrightarrow> var l \<notin> var ` set (run_trail r) \<Longrightarrow>
    enqueueTheory eager l (run_amo r) = (ls, a) \<Longrightarrow>
    amo_step eager r \<lparr>run_trail = run_trail r @ [l], run_amo = a, sent = ls\<rparr>"
| take_back: "run_trail r = ps @ [l] \<Longrightarrow>
    amo_step eager r \<lparr>run_trail = ps, run_amo = undecideTheory l (run_amo r), sent = []\<rparr>"
| notify_again: "l \<in> set (run_trail r) \<Longrightarrow> enqueueTheory eager l (run_amo r) = (ls, a) \<Longrightarrow>
    amo_step eager r \<lparr>run_trail = run_trail r, run_amo = a, sent = ls\<rparr>"
| ask: "propagateTheory (run_amo r) = (ok, cl, ls, a) \<Longrightarrow>
    amo_step eager r \<lparr>run_trail = run_trail r, run_amo = a, sent = ls\<rparr>"

inductive amo_reachable :: "bool \<Rightarrow> Var list \<Rightarrow> amo_run \<Rightarrow> bool" for eager vs where
  start: "amo_reachable eager vs \<lparr>run_trail = [], run_amo = fold addVar vs amo_new, sent = []\<rparr>"
| step: "amo_reachable eager vs r \<Longrightarrow> amo_step eager r r' \<Longrightarrow> amo_reachable eager vs r'"

inductive_cases amo_stepE: "amo_step eager r r'"

lemmas amo_step_cases [consumes 1, case_names enq_lit take_back notify_again ask] = amo_stepE

text \<open>The true variables, oldest first.\<close>

definition trues :: "Lit list \<Rightarrow> Var list" where
  "trues ps = map var (filter (\<lambda>l. \<not> sign l) ps)"

definition amo_inv :: "Var list \<Rightarrow> amo_run \<Rightarrow> bool" where
  "amo_inv vs r \<longleftrightarrow>
     amo (run_amo r) = vs \<and> distinct (map var (run_trail r)) \<and> var ` set (run_trail r) \<subseteq> set vs \<and>
     true_var (run_amo r) = (case trues (run_trail r) of [] \<Rightarrow> var_Undef | t # ts \<Rightarrow> t) \<and>
     conflict_var (run_amo r) = (case trues (run_trail r) of t # u # ts \<Rightarrow> u | _ \<Rightarrow> var_Undef) \<and>
     (\<forall>l \<in> set (sent r). sign l \<and> var l \<in> set vs \<and> (\<exists>ts. trues (run_trail r) = true_var (run_amo r) # ts) \<and> var l \<noteq> true_var (run_amo r))"

lemma others_false_set: "set (others_false t vs) = (\<lambda>v. mkLit v True) ` {v \<in> set vs. v \<noteq> t}"
  by (induction vs) auto

lemma trues_append [simp]: "trues (ps @ qs) = trues ps @ trues qs"
  by (simp add: trues_def)

lemma trues_single [simp]: "trues [l] = (if sign l then [] else [var l])"
  by (simp add: trues_def)

lemma trues_mem: "v \<in> set (trues ps) \<Longrightarrow> v \<in> var ` set ps"
  by (auto simp: trues_def)

lemma amo_fold: "amo (fold addVar vs a) = amo a @ vs" "true_var (fold addVar vs a) = true_var a"
  "conflict_var (fold addVar vs a) = conflict_var a"
  by (induction vs arbitrary: a) (simp_all add: addVar_def)

lemma trues_distinct: "distinct (map var ps) \<Longrightarrow> distinct (trues ps)"
  by (induction ps) (auto simp: trues_def)

lemma amo_inv_step:
  assumes inv: "amo_inv vs r" and vs: "\<forall>v \<in> set vs. 0 \<le> v" and st: "amo_step eager r r'"
  shows "amo_inv vs r'"
proof -
  let ?a = "run_amo r" and ?ps = "run_trail r"
  have i: "amo ?a = vs" "distinct (map var ?ps)" "var ` set ?ps \<subseteq> set vs"
    "true_var ?a = (case trues ?ps of [] \<Rightarrow> var_Undef | t # ts \<Rightarrow> t)"
    "conflict_var ?a = (case trues ?ps of t # u # ts \<Rightarrow> u | _ \<Rightarrow> var_Undef)"
    using inv by (auto simp: amo_inv_def)
  have d: "distinct (trues ?ps)" by (rule trues_distinct [OF i(2)])
  have pos: "v \<noteq> var_Undef" if "v \<in> set (trues ?ps)" for v
    using subsetD [OF i(3) trues_mem [OF that]] vs by (auto simp: var_Undef_def)
  consider "trues ?ps = []" | t where "trues ?ps = [t]" | t u ts where "trues ?ps = t # u # ts"
    by (cases "trues ?ps"; cases "tl (trues ?ps)") auto
  note shape = this
  show ?thesis using st
  proof (cases rule: amo_step_cases)
    case (enq_lit l ls a)
    have nu: "var l \<noteq> var_Undef" using enq_lit(2) vs i(1) by (auto simp: var_Undef_def)
    have nt: "var l \<notin> set (trues ?ps)" using enq_lit(3) trues_mem by blast
    show ?thesis using shape
    proof cases
      case 1
      then show ?thesis using enq_lit i nu by (auto simp: amo_inv_def enqueueTheory_def others_false_set Let_def split: if_splits)
    next
      case (2 t)
      then show ?thesis using enq_lit i nu nt pos [of t] by (auto simp: amo_inv_def enqueueTheory_def split: if_splits)
    next
      case (3 t u ts)
      then show ?thesis using enq_lit i pos [of u] by (auto simp: amo_inv_def enqueueTheory_def)
    qed
  next
    case (take_back ps l)
    have dl: "var l \<notin> set (trues ps)" using i(2) trues_mem take_back(2) by fastforce
    have tr: "trues ?ps = trues ps @ (if sign l then [] else [var l])" by (simp add: take_back(2))
    consider "trues ps = []" | t where "trues ps = [t]" | t u ts where "trues ps = t # u # ts"
      by (cases "trues ps"; cases "tl (trues ps)") auto
    moreover have ne: "var l \<noteq> var_Undef" using i(3) vs take_back(2) by (auto simp: var_Undef_def)
    moreover have "\<forall>v \<in> set (trues ps). v \<noteq> var_Undef \<and> v \<noteq> var l" using pos tr dl by auto
    moreover have "\<not> sign l' \<longrightarrow> True" for l' :: Lit by simp
    ultimately show ?thesis
    proof cases
      case 1
      then show ?thesis using take_back i tr ne by (auto simp: amo_inv_def undecideTheory_def Let_def)
    next
      case (2 t)
      then show ?thesis using take_back i tr ne dl by (auto simp: amo_inv_def undecideTheory_def Let_def)
    next
      case (3 t u ts)
      then show ?thesis using take_back i tr ne dl by (auto simp: amo_inv_def undecideTheory_def Let_def)
    qed
  next
    case (notify_again l ls a)
    have mem: "\<not> sign l \<Longrightarrow> var l \<in> set (trues ?ps)" using notify_again(2) by (auto simp: trues_def)
    show ?thesis using shape
    proof cases
      case 1
      then have "sign l" using mem by auto
      then show ?thesis using notify_again i 1 by (auto simp: amo_inv_def enqueueTheory_def)
    next
      case (2 t)
      then have "\<not> sign l \<Longrightarrow> var l = t" using mem by auto
      then show ?thesis using notify_again i 2 pos [of t] by (auto simp: amo_inv_def enqueueTheory_def split: if_splits)
    next
      case (3 t u ts)
      then show ?thesis using notify_again i pos [of u] by (auto simp: amo_inv_def enqueueTheory_def)
    qed
  next
    case (ask ok cl ls a)
    show ?thesis using shape
    proof cases
      case 1
      then show ?thesis using ask i by (auto simp: amo_inv_def propagateTheory_def)
    next
      case (2 t)
      then show ?thesis using ask i pos [of t] by (auto simp: amo_inv_def propagateTheory_def others_false_set split: if_splits)
    next
      case (3 t u ts)
      then show ?thesis using ask i pos [of u] by (auto simp: amo_inv_def propagateTheory_def split: if_splits)
    qed
  qed
qed

lemma amo_reachable_inv:
  assumes "amo_reachable eager vs r" and "\<forall>v \<in> set vs. 0 \<le> v"
  shows "amo_inv vs r"
  using assms(1)
proof induction
  case start
  then show ?case by (simp add: amo_inv_def amo_fold amo_new_def trues_def)
next
  case (step r r')
  then show ?case using amo_inv_step assms(2) by blast
qed

lemma check_loop_spec: "n \<le> 1 \<Longrightarrow> check_loop val vs n \<longleftrightarrow> n + length (filter (\<lambda>v. lb_eq (val v) l_True) vs) \<le> 1"
  by (induction val vs n rule: check_loop.induct) auto

definition amo_demo :: "bool \<Rightarrow> amo_run" where
  "amo_demo second =
     (let (ls, a) = enqueueTheory True (mkLit 4 False) (fold addVar [3, 4, 7] amo_new);
          r = \<lparr>run_trail = [mkLit 4 False], run_amo = a, sent = ls\<rparr>;
          (ls', a') = enqueueTheory True (mkLit 7 False) a
      in if second then \<lparr>run_trail = [mkLit 4 False, mkLit 7 False], run_amo = a', sent = ls'\<rparr> else r)"

lemma amo_demo_reachable: "amo_reachable True [3, 4, 7] (amo_demo second)"
proof -
  have first: "amo_reachable True [3, 4, 7] (amo_demo False)"
    by (rule amo_reachable.step [OF amo_reachable.start])
      (simp add: amo_demo_def amo_step.simps enqueueTheory_def addVar_def amo_new_def var_Undef_def)
  have "amo_step True (amo_demo False) (amo_demo True)"
    by (simp add: amo_demo_def amo_step.simps enqueueTheory_def addVar_def amo_new_def var_Undef_def)
  from amo_reachable.step [OF first this] first show ?thesis by (cases second) simp_all
qed

lemma amo_no_conflict:
  assumes "amo_reachable eager vs r" and "\<forall>v \<in> set vs. 0 \<le> v"
  shows "fst (propagateTheory (run_amo r)) = (length (trues (run_trail r)) \<le> 1)"
proof -
  note inv = amo_reachable_inv [OF assms]
  have pos: "v \<noteq> var_Undef" if "v \<in> set (trues (run_trail r))" for v
    using trues_mem [OF that] inv assms(2) unfolding amo_inv_def by (force simp: var_Undef_def)
  have c: "conflict_var (run_amo r) = (case trues (run_trail r) of t # u # ts \<Rightarrow> u | _ \<Rightarrow> var_Undef)"
    using inv by (simp add: amo_inv_def)
  consider "trues (run_trail r) = []" | t where "trues (run_trail r) = [t]" | t u ts where "trues (run_trail r) = t # u # ts"
    by (cases "trues (run_trail r)"; cases "tl (trues (run_trail r))") auto
  then show ?thesis by cases (use c pos in \<open>auto simp: propagateTheory_def\<close>)
qed

text \<open>C14: along every run the theory reports a conflict exactly when two of its variables are true, and the conflict
  clause consists of the negations of two different true variables; every literal it passes to the solver is the
  negation of one of its variables other than a true one, and the reason it gives for that literal is that literal
  and the negation of the true variable: a consequence of the constraint that is unit under the trail.\<close>

theorem amo_conflicts_exact:
  assumes "amo_reachable eager vs r" and "\<forall>v \<in> set vs. 0 \<le> v"
  shows "(case propagateTheory (run_amo r) of (ok, cl, ls, a) \<Rightarrow>
        (ok \<longleftrightarrow> length (trues (run_trail r)) \<le> 1) \<and>
        (\<not> ok \<longrightarrow> (\<exists>t u. cl = [mkLit u True, mkLit t True] \<and> t \<noteq> u \<and> t \<in> set (trues (run_trail r)) \<and> u \<in> set (trues (run_trail r)))) \<and>
        (\<forall>l \<in> set (sent r) \<union> set ls. sign l \<and> var l \<in> set vs \<and>
           (\<exists>t \<in> set (trues (run_trail r)). t \<noteq> var l \<and> buildReason l (run_amo r) = [l, mkLit t True])))"
proof -
  note inv = amo_reachable_inv [OF assms]
  let ?a = "run_amo r" and ?ts = "trues (run_trail r)"
  have i: "amo ?a = vs" "distinct ?ts" "var ` set (run_trail r) \<subseteq> set vs"
    "true_var ?a = (case ?ts of [] \<Rightarrow> var_Undef | t # ts \<Rightarrow> t)"
    "conflict_var ?a = (case ?ts of t # u # ts \<Rightarrow> u | _ \<Rightarrow> var_Undef)"
    using inv trues_distinct by (auto simp: amo_inv_def)
  have pos: "v \<noteq> var_Undef" if "v \<in> set ?ts" for v
    using subsetD [OF i(3) trues_mem [OF that]] assms(2) by (auto simp: var_Undef_def)
  have reason: "sign l \<and> var l \<in> set vs \<and> (\<exists>t \<in> set ?ts. t \<noteq> var l \<and> buildReason l ?a = [l, mkLit t True])"
    if "sign l" "var l \<in> set vs" "?ts = true_var ?a # us" "var l \<noteq> true_var ?a" for l us
  proof -
    have "mkLit (var l) True = l" using mkLit_var_sign [of l] that(1) by simp
    moreover have "true_var ?a \<in> set ?ts" by (subst that(3)) simp
    ultimately show ?thesis using that(1,2,4) by (intro conjI bexI [of _ "true_var ?a"]) (simp_all add: buildReason_def)
  qed
  have sent: "\<forall>l \<in> set (sent r). sign l \<and> var l \<in> set vs \<and> (\<exists>t \<in> set ?ts. t \<noteq> var l \<and> buildReason l ?a = [l, mkLit t True])"
    
  proof
    fix l assume l: "l \<in> set (sent r)"
    then obtain us where "sign l" "var l \<in> set vs" "?ts = true_var ?a # us" "var l \<noteq> true_var ?a"
      using inv unfolding amo_inv_def by blast
    then show "sign l \<and> var l \<in> set vs \<and> (\<exists>t \<in> set ?ts. t \<noteq> var l \<and> buildReason l ?a = [l, mkLit t True])"
      by (rule reason)
  qed
  consider "?ts = []" | t where "?ts = [t]" | t u ts where "?ts = t # u # ts"
    by (cases ?ts; cases "tl ?ts") auto
  then show ?thesis
  proof cases
    case 1
    then show ?thesis using i sent by (auto simp: propagateTheory_def)
  next
    case (2 t)
    have "sign l \<and> var l \<in> set vs \<and> (\<exists>t \<in> set ?ts. t \<noteq> var l \<and> buildReason l ?a = [l, mkLit t True])"
      if "l \<in> set (others_false (true_var ?a) (amo ?a))" for l
      using that i 2 by (intro reason [of l "[]"]) (auto simp: others_false_set)
    then show ?thesis using 2 i sent pos [of t] by (auto simp: propagateTheory_def)
  next
    case (3 t u ts)
    then show ?thesis using i sent pos [of u] by (auto simp: propagateTheory_def)
  qed
qed

theorem amo_conflicts_exact_witness:
  "(\<forall>second. case propagateTheory (run_amo (amo_demo second)) of (ok, cl, ls, a) \<Rightarrow>
      ok = (length (trues (run_trail (amo_demo second))) \<le> 1)) \<and>
   sent (amo_demo False) = [mkLit 3 True, mkLit 7 True] \<and>
   fst (snd (propagateTheory (run_amo (amo_demo True)))) = [mkLit 7 True, mkLit 4 True]"
proof (intro conjI allI)
  show "case propagateTheory (run_amo (amo_demo second)) of (ok, cl, ls, a) \<Rightarrow>
      ok = (length (trues (run_trail (amo_demo second))) \<le> 1)" for second
    using amo_conflicts_exact [OF amo_demo_reachable [of second]] by (simp split: prod.splits)
qed (simp_all add: amo_demo_def enqueueTheory_def propagateTheory_def addVar_def amo_new_def var_Undef_def)

text \<open>C15: the theory's own test of a solution agrees with its propagation: when the solver's values are those of the
  trail and the variables of the constraint are different, \<^verbatim>\<open>check_solved\<close> accepts the assignment exactly when
  propagation reports no conflict, that is when at most one variable of the constraint is true.\<close>

theorem amo_check_agrees:
  assumes "amo_reachable eager vs r" and "\<forall>v \<in> set vs. 0 \<le> v" and "distinct vs"
    and val: "\<forall>v \<in> set vs. lb_eq (val v) l_True \<longleftrightarrow> v \<in> set (trues (run_trail r))"
  shows "check_solved val (run_amo r) = fst (propagateTheory (run_amo r)) \<and>
    check_solved val (run_amo r) = (card {v \<in> set vs. lb_eq (val v) l_True} \<le> 1)"
proof -
  note inv = amo_reachable_inv [OF assms(1,2)]
  have i: "amo (run_amo r) = vs" "distinct (trues (run_trail r))" "var ` set (run_trail r) \<subseteq> set vs"
    using inv trues_distinct by (auto simp: amo_inv_def)
  have "{v \<in> set vs. lb_eq (val v) l_True} = set (trues (run_trail r))"
    using val subsetD [OF i(3) trues_mem] by blast
  then have c: "card {v \<in> set vs. lb_eq (val v) l_True} = length (trues (run_trail r))"
    using distinct_card [OF i(2)] by simp
  have "length (filter (\<lambda>v. lb_eq (val v) l_True) vs) = card {v \<in> set vs. lb_eq (val v) l_True}"
    using distinct_length_filter [OF assms(3)] by (simp add: Int_def conj_commute)
  then have "check_solved val (run_amo r) = (card {v \<in> set vs. lb_eq (val v) l_True} \<le> 1)"
    by (simp add: check_solved_def check_loop_spec i(1))
  moreover have "fst (propagateTheory (run_amo r)) = (length (trues (run_trail r)) \<le> 1)"
    by (rule amo_no_conflict [OF assms(1,2)])
  ultimately show ?thesis unfolding c by simp
qed

theorem amo_check_agrees_witness:
  "\<not> check_solved (\<lambda>v. if v = 3 then l_False else l_True) (run_amo (amo_demo True))"
  using amo_check_agrees [OF amo_demo_reachable [of True], of "\<lambda>v. if v = 3 then l_False else l_True"]
  by (simp add: amo_demo_def enqueueTheory_def propagateTheory_def addVar_def amo_new_def trues_def var_Undef_def)

end
