(* ===== verification/DGL_Sets.thy ===== *)
theory DGL_Sets
  imports Main "HOL-Library.Monad_Syntax" Prelude
begin

text \<open>
  \<^verbatim>\<open>dgl/alg/DisjointSets\<close>: union by rank with path compression.  A parent of \<^verbatim>\<open>-1\<close> is \<open>None\<close>; \<open>None\<close> as a result
  of an operation means that a loop does not end.  The structure refines a partition: two elements are together
  when they have the same root.
\<close>

section \<open>The structure\<close>

record dnode =
  dn_rank :: nat
  dn_index :: nat
  dn_parent :: "nat option"

record disjoint_sets =
  m_numElements :: nat
  m_numSets :: int
  set_elements :: "nat list"
  set_seen :: "bool list"
  m_nodes :: "dnode list"

definition sets_empty :: disjoint_sets where
  "sets_empty = \<lparr>m_numElements = 0, m_numSets = 0, set_elements = [], set_seen = [], m_nodes = []\<rparr>"

definition Reset :: "disjoint_sets \<Rightarrow> disjoint_sets" where
  "Reset d = d\<lparr>m_numElements := 0, m_numSets := 0, m_nodes := [], set_elements := []\<rparr>"

definition AddElements :: "nat \<Rightarrow> disjoint_sets \<Rightarrow> disjoint_sets" where
  "AddElements k d =
     (let n = m_numElements d
      in d\<lparr>m_nodes := m_nodes d @ map (\<lambda>i. \<lparr>dn_rank = 0, dn_index = i, dn_parent = None\<rparr>) [n ..< n + k],
           m_numElements := n + k, m_numSets := m_numSets d + int k\<rparr>)"

definition sets_new :: "nat \<Rightarrow> disjoint_sets" where "sets_new n = AddElements n sets_empty"

definition NumElements :: "disjoint_sets \<Rightarrow> nat" where "NumElements d = m_numElements d"
definition NumSets :: "disjoint_sets \<Rightarrow> int" where "NumSets d = m_numSets d"

section \<open>Find and union\<close>

partial_function (option) find_root :: "dnode list \<Rightarrow> nat \<Rightarrow> nat option" where
  "find_root ns c = (case dn_parent (ns ! c) of None \<Rightarrow> Some c | Some p \<Rightarrow> find_root ns p)"

partial_function (option) compress :: "nat \<Rightarrow> nat \<Rightarrow> dnode list \<Rightarrow> dnode list option" where
  "compress r c ns =
     (if c \<noteq> r
      then case dn_parent (ns ! c) of
             None \<Rightarrow> None
           | Some p \<Rightarrow> compress r p (ns[c := (ns ! c)\<lparr>dn_parent := Some r\<rparr>])
      else Some ns)"

declare find_root.simps [code] compress.simps [code]

definition FindSet :: "nat \<Rightarrow> disjoint_sets \<Rightarrow> (nat \<times> disjoint_sets) option" where
  "FindSet e d =
     do {
       r \<leftarrow> find_root (m_nodes d) e;
       ns \<leftarrow> compress r e (m_nodes d);
       Some (dn_index (ns ! r), d\<lparr>m_nodes := ns\<rparr>)
     }"

definition set_parent :: "nat \<Rightarrow> nat \<Rightarrow> dnode list \<Rightarrow> dnode list" where
  "set_parent c p ns = ns[c := (ns ! c)\<lparr>dn_parent := Some p\<rparr>]"

definition UnionSets :: "nat \<Rightarrow> nat \<Rightarrow> disjoint_sets \<Rightarrow> disjoint_sets" where
  "UnionSets a b d =
     (if a = b then d
      else let ns = m_nodes d;
               ns1 = (if dn_rank (ns ! b) < dn_rank (ns ! a) then set_parent b a ns
                      else if dn_rank (ns ! a) < dn_rank (ns ! b) then set_parent a b ns
                      else let ns2 = set_parent b a ns
                           in ns2[a := (ns2 ! a)\<lparr>dn_rank := dn_rank (ns2 ! a) + 1\<rparr>])
           in d\<lparr>m_nodes := ns1, m_numSets := m_numSets d - 1\<rparr>)"

definition UnionElements :: "nat \<Rightarrow> nat \<Rightarrow> disjoint_sets \<Rightarrow> disjoint_sets option" where
  "UnionElements a b d =
     do {
       (s1, d1) \<leftarrow> FindSet a d;
       (s2, d2) \<leftarrow> FindSet b d1;
       Some (UnionSets s1 s2 d2)
     }"

text \<open>\<^verbatim>\<open>GetElement\<close> caches one element of each set; the cache is rebuilt only when its length differs.\<close>

fun collect_sets :: "nat list \<Rightarrow> disjoint_sets \<Rightarrow> disjoint_sets option" where
  "collect_sets [] d = Some d"
| "collect_sets (i # is) d =
     do {
       (s, d1) \<leftarrow> FindSet i d;
       collect_sets is (if \<not> set_seen d1 ! s
                        then d1\<lparr>set_seen := (set_seen d1)[s := True], set_elements := set_elements d1 @ [s]\<rparr> else d1)
     }"

definition GetElement :: "nat \<Rightarrow> disjoint_sets \<Rightarrow> (nat \<times> disjoint_sets) option" where
  "GetElement k d =
     (if m_numSets d = 1 then Some (0, d)
      else do {
        d1 \<leftarrow> (if int (length (set_elements d)) \<noteq> m_numSets d
               then collect_sets [0 ..< m_numElements d]
                      (d\<lparr>set_elements := [], set_seen := replicate (m_numElements d) False\<rparr>)
               else Some d);
        Some (set_elements d1 ! k, d1)
      })"

section \<open>Roots\<close>

text \<open>Ranks grow towards the root, and every node holds its own index.\<close>

definition nodes_ok :: "dnode list \<Rightarrow> bool" where
  "nodes_ok ns \<longleftrightarrow> (\<forall>i < length ns. dn_index (ns ! i) = i \<and>
     (\<forall>p. dn_parent (ns ! i) = Some p \<longrightarrow> p < length ns \<and> dn_rank (ns ! i) < dn_rank (ns ! p)))"

definition root :: "dnode list \<Rightarrow> nat \<Rightarrow> nat" where "root ns i = the (find_root ns i)"

definition top_rank :: "dnode list \<Rightarrow> nat" where "top_rank ns = Max (insert 0 (dn_rank ` set ns))"

lemma top_rank: "i < length ns \<Longrightarrow> dn_rank (ns ! i) \<le> top_rank ns"
  by (simp add: top_rank_def)

lemma nodes_induct [consumes 2, case_names root child]:
  assumes ok: "nodes_ok ns" and i: "i < length ns"
    and r: "\<And>i. i < length ns \<Longrightarrow> dn_parent (ns ! i) = None \<Longrightarrow> Q i"
    and c: "\<And>i p. i < length ns \<Longrightarrow> dn_parent (ns ! i) = Some p \<Longrightarrow> p < length ns \<Longrightarrow>
      dn_rank (ns ! i) < dn_rank (ns ! p) \<Longrightarrow> Q p \<Longrightarrow> Q i"
  shows "Q i"
  using i
proof (induction "top_rank ns - dn_rank (ns ! i)" arbitrary: i rule: less_induct)
  case less
  show ?case
  proof (cases "dn_parent (ns ! i)")
    case None
    then show ?thesis using r less.prems by blast
  next
    case (Some p)
    then have p: "p < length ns" "dn_rank (ns ! i) < dn_rank (ns ! p)" using ok less.prems by (auto simp: nodes_ok_def)
    then have "top_rank ns - dn_rank (ns ! p) < top_rank ns - dn_rank (ns ! i)" using top_rank [OF p(1)] by linarith
    then show ?thesis using c [OF less.prems Some p] less.hyps p(1) by blast
  qed
qed

lemma find_root_spec:
  assumes "nodes_ok ns" and "i < length ns"
  shows "find_root ns i = Some (root ns i) \<and> root ns i < length ns \<and> dn_parent (ns ! root ns i) = None \<and>
     dn_rank (ns ! i) \<le> dn_rank (ns ! root ns i) \<and> (root ns i \<noteq> i \<longrightarrow> dn_rank (ns ! i) < dn_rank (ns ! root ns i))"
  using assms
proof (induction i rule: nodes_induct)
  case (root i)
  then have "find_root ns i = Some i" by (subst find_root.simps) simp
  then show ?case using root by (simp add: root_def)
next
  case (child i p)
  then have e: "find_root ns i = find_root ns p" by (subst find_root.simps) simp
  then have "root ns i = root ns p" by (simp add: root_def)
  then show ?case using child(3-5) e by auto
qed

lemma root_unfold:
  assumes "nodes_ok ns" and "i < length ns"
  shows "root ns i = (case dn_parent (ns ! i) of None \<Rightarrow> i | Some p \<Rightarrow> root ns p)"
  by (simp add: root_def find_root.simps [of ns i] split: option.split)

lemma root_fixed:
  assumes "nodes_ok ns" and "i < length ns" and "dn_parent (ns ! i) = None"
  shows "root ns i = i"
  using root_unfold [OF assms(1,2)] assms(3) by simp

text \<open>A node other than a root gets its own root as parent.\<close>

lemma set_parent_root:
  assumes ok: "nodes_ok ns" and c: "c < length ns" "dn_parent (ns ! c) \<noteq> None"
  shows "nodes_ok (set_parent c (root ns c) ns)" and "i < length ns \<Longrightarrow> root (set_parent c (root ns c) ns) i = root ns i"
proof -
  let ?ns = "set_parent c (root ns c) ns"
  have rc: "root ns c < length ns" "dn_parent (ns ! root ns c) = None" "root ns c \<noteq> c"
    using find_root_spec [OF ok c(1)] c(2) by auto
  have rk: "dn_rank (ns ! c) < dn_rank (ns ! root ns c)" using find_root_spec [OF ok c(1)] rc(3) by blast
  show ok': "nodes_ok ?ns" using ok c(1) rc rk by (auto simp: nodes_ok_def set_parent_def nth_list_update_any)
  show "root ?ns i = root ns i" if "i < length ns"
    using ok that
  proof (induction i rule: nodes_induct)
    case (root i)
    then have "i \<noteq> c" using c(2) by auto
    then have "dn_parent (?ns ! i) = None" using root(2) by (simp add: set_parent_def)
    then show ?case using root root_fixed [OF ok root] root_fixed [OF ok', of i] by (simp add: set_parent_def)
  next
    case (child i p)
    have l: "i < length ?ns" using child(1) by (simp add: set_parent_def)
    show ?case
    proof (cases "i = c")
      case True
      have "dn_parent (?ns ! root ns c) = None" using rc by (simp add: set_parent_def)
      then have "root ?ns (root ns c) = root ns c" using root_fixed [OF ok'] rc(1) by (simp add: set_parent_def)
      then show ?thesis using root_unfold [OF ok' l] True c(1) by (simp add: set_parent_def)
    next
      case False
      then show ?thesis using root_unfold [OF ok' l] root_unfold [OF ok child(1)] child(2,5) by (simp add: set_parent_def)
    qed
  qed
qed

text \<open>Only parents change.\<close>

definition same_forest :: "dnode list \<Rightarrow> dnode list \<Rightarrow> bool" where
  "same_forest ns ns' \<longleftrightarrow> nodes_ok ns' \<and> length ns' = length ns \<and> (\<forall>i < length ns. root ns' i = root ns i) \<and>
     (\<forall>i < length ns. (dn_parent (ns' ! i) = None) = (dn_parent (ns ! i) = None))"

lemma compress_spec:
  assumes "nodes_ok ns" and "c < length ns"
  shows "\<exists>ns'. compress (root ns c) c ns = Some ns' \<and> same_forest ns ns'"
proof -
  have "\<exists>ns'. compress r c ns = Some ns' \<and> same_forest ns ns'"
    if "nodes_ok ns" "c < length ns" "r = root ns c" for r
    using that
  proof (induction "top_rank ns - dn_rank (ns ! c)" arbitrary: c ns rule: less_induct)
    case less
    note f = find_root_spec [OF less.prems(1,2)]
    show ?case
    proof (cases "c = r")
      case True
      then have "compress r c ns = Some ns" by (subst compress.simps) simp
      then show ?thesis using less.prems(1) by (simp add: same_forest_def)
    next
      case False
      then obtain p where p: "dn_parent (ns ! c) = Some p"
        using root_fixed [OF less.prems(1,2)] less.prems(3) by (cases "dn_parent (ns ! c)") auto
      then have pl: "p < length ns" "dn_rank (ns ! c) < dn_rank (ns ! p)" using less.prems(1,2) by (auto simp: nodes_ok_def)
      let ?ns = "set_parent c r ns"
      have np: "dn_parent (ns ! c) \<noteq> None" using p by simp
      note s = set_parent_root [OF less.prems(1,2) np, folded less.prems(3)]
      have len: "length ?ns = length ns" by (simp add: set_parent_def)
      have rp: "r = root ns p" using root_unfold [OF less.prems(1,2)] p less.prems(3) by simp
      have ranks: "dn_rank (?ns ! i) = dn_rank (ns ! i)" if "i < length ns" for i
        using that by (simp add: set_parent_def nth_list_update_any)
      have "set (map dn_rank ?ns) = set (map dn_rank ns)"
        using ranks len by (metis nth_equalityI length_map nth_map)
      then have tr: "top_rank ?ns = top_rank ns" by (simp add: top_rank_def)
      have "top_rank ?ns - dn_rank (?ns ! p) < top_rank ns - dn_rank (ns ! c)"
        using top_rank [OF pl(1)] pl(2) ranks [OF pl(1)] tr by linarith
      moreover have "p < length ?ns" "r = root ?ns p" using pl(1) len s(2) rp by simp_all
      ultimately obtain ns' where ih: "compress r p ?ns = Some ns'" "same_forest ?ns ns'" using less.hyps s(1) by blast
      have "compress r c ns = compress r p ?ns" using False p by (subst compress.simps) (simp add: set_parent_def)
      moreover have "same_forest ns ns'"
        using ih(2) len s(2) np less.prems(2) by (auto simp: same_forest_def set_parent_def nth_list_update_any split: if_splits)
      ultimately show ?thesis using ih(1) by simp
    qed
  qed
  then show ?thesis using assms by blast
qed

text \<open>Hanging one root below another merges two classes.\<close>

lemma link_root:
  assumes ok: "nodes_ok ns" and ok': "nodes_ok ns'" and len: "length ns' = length ns"
    and a: "a < length ns" "dn_parent (ns ! a) = None" and b: "b < length ns" "dn_parent (ns ! b) = None" "a \<noteq> b"
    and p: "\<And>i. i < length ns \<Longrightarrow> dn_parent (ns' ! i) = (if i = b then Some a else dn_parent (ns ! i))"
    and i: "i < length ns"
  shows "root ns' i = (if root ns i = b then a else root ns i)"
  using ok i
proof (induction i rule: nodes_induct)
  case (root i)
  have ra: "root ns' a = a" using root_fixed [OF ok', of a] a b(3) p len by simp
  have ri: "root ns i = i" using root_fixed [OF ok root] .
  show ?case
  proof (cases "i = b")
    case True
    then show ?thesis using root_unfold [OF ok', of b] p [OF b(1)] b(1) len ra ri by simp
  next
    case False
    then show ?thesis using root_fixed [OF ok', of i] p [OF root(1)] root len ri by simp
  qed
next
  case (child i q)
  then have "i \<noteq> b" using b(2) by auto
  then show ?case
    using root_unfold [OF ok', of i] root_unfold [OF ok child(1)] p [OF child(1)] child(1,2,5) len by simp
qed

section \<open>The partition\<close>

definition sets_ok :: "disjoint_sets \<Rightarrow> bool" where
  "sets_ok d \<longleftrightarrow> nodes_ok (m_nodes d) \<and> length (m_nodes d) = m_numElements d \<and>
     m_numSets d = int (card {i. i < m_numElements d \<and> dn_parent (m_nodes d ! i) = None})"

definition rep :: "disjoint_sets \<Rightarrow> nat \<Rightarrow> nat" where "rep d i = root (m_nodes d) i"

lemma rep_is_root:
  assumes "sets_ok d" and "i < m_numElements d"
  shows "rep d i < m_numElements d" and "dn_parent (m_nodes d ! rep d i) = None"
  using find_root_spec [of "m_nodes d" i] assms by (simp_all add: sets_ok_def rep_def)

lemma rep_of_root: "sets_ok d \<Longrightarrow> i < m_numElements d \<Longrightarrow> dn_parent (m_nodes d ! i) = None \<Longrightarrow> rep d i = i"
  by (simp add: sets_ok_def rep_def root_fixed)

lemma roots_are_reps:
  "sets_ok d \<Longrightarrow> {i. i < m_numElements d \<and> dn_parent (m_nodes d ! i) = None} = rep d ` {..< m_numElements d}"
  using rep_is_root rep_of_root by (force simp: image_iff)

lemma numSets_classes: "sets_ok d \<Longrightarrow> NumSets d = int (card (rep d ` {..< m_numElements d}))"
  by (simp add: NumSets_def roots_are_reps [symmetric]) (simp add: sets_ok_def)

lemma FindSet_spec:
  assumes ok: "sets_ok d" and e: "e < m_numElements d"
  shows "\<exists>d'. FindSet e d = Some (rep d e, d') \<and> sets_ok d' \<and> m_numElements d' = m_numElements d \<and>
     m_numSets d' = m_numSets d \<and> (\<forall>i < m_numElements d. rep d' i = rep d i)"
proof -
  let ?ns = "m_nodes d"
  have n: "nodes_ok ?ns" "length ?ns = m_numElements d" using ok by (simp_all add: sets_ok_def)
  have el: "e < length ?ns" using e n by simp
  note f = find_root_spec [OF n(1) el]
  obtain ns where c: "compress (root ?ns e) e ?ns = Some ns" "same_forest ?ns ns" using compress_spec [OF n(1) el] by blast
  have "dn_index (ns ! root ?ns e) = root ?ns e" using c(2) f by (simp add: same_forest_def nodes_ok_def)
  then have fs: "FindSet e d = Some (rep d e, d\<lparr>m_nodes := ns\<rparr>)" using f c(1) by (simp add: FindSet_def rep_def)
  have "{i. i < m_numElements d \<and> dn_parent (ns ! i) = None} = {i. i < m_numElements d \<and> dn_parent (?ns ! i) = None}"
    using c(2) n(2) by (auto simp: same_forest_def)
  then have "sets_ok (d\<lparr>m_nodes := ns\<rparr>)" using ok c(2) n(2) by (simp add: sets_ok_def same_forest_def)
  then show ?thesis using fs c(2) n(2) by (simp add: rep_def same_forest_def)
qed

lemma UnionSets_eq:
  assumes "a \<noteq> b"
  shows "\<exists>ns' c p. UnionSets a b d = d\<lparr>m_nodes := ns', m_numSets := m_numSets d - 1\<rparr> \<and> {c, p} = {a, b} \<and>
     dn_rank (m_nodes d ! c) \<le> dn_rank (m_nodes d ! p) \<and>
     ns' = (set_parent c p (m_nodes d))[p := (m_nodes d ! p)\<lparr>dn_rank :=
       (if dn_rank (m_nodes d ! c) = dn_rank (m_nodes d ! p) then dn_rank (m_nodes d ! p) + 1 else dn_rank (m_nodes d ! p))\<rparr>]"
proof -
  let ?ns = "m_nodes d"
  have same: "(set_parent c p ?ns)[p := (?ns ! p)\<lparr>dn_rank := dn_rank (?ns ! p)\<rparr>] = set_parent c p ?ns" if "c \<noteq> p" for c p
    using that list_update_swap [OF that, of ?ns _ "?ns ! p"] by (simp add: set_parent_def)
  consider "dn_rank (?ns ! b) < dn_rank (?ns ! a)" | "dn_rank (?ns ! a) < dn_rank (?ns ! b)" | "dn_rank (?ns ! a) = dn_rank (?ns ! b)"
    by linarith
  then show ?thesis
  proof cases
    case 1
    then show ?thesis using assms same [of b a]
      by (intro exI [of _ "set_parent b a ?ns"] exI [of _ b] exI [of _ a]) (auto simp: UnionSets_def Let_def)
  next
    case 2
    then show ?thesis using assms same [of a b]
      by (intro exI [of _ "set_parent a b ?ns"] exI [of _ a] exI [of _ b]) (auto simp: UnionSets_def Let_def)
  next
    case 3
    then show ?thesis using assms
      by (intro exI [of _ "(set_parent b a ?ns)[a := (?ns ! a)\<lparr>dn_rank := dn_rank (?ns ! a) + 1\<rparr>]"] exI [of _ b] exI [of _ a])
        (auto simp: UnionSets_def Let_def set_parent_def)
  qed
qed

lemma UnionSets_spec:
  assumes ok: "sets_ok d" and a: "a < m_numElements d" "dn_parent (m_nodes d ! a) = None"
    and b: "b < m_numElements d" "dn_parent (m_nodes d ! b) = None"
  shows "sets_ok (UnionSets a b d)" and "m_numElements (UnionSets a b d) = m_numElements d"
    and "\<exists>r \<in> {a, b}. \<forall>i < m_numElements d. rep (UnionSets a b d) i = (if rep d i \<in> {a, b} then r else rep d i)"
proof -
  let ?u = "UnionSets a b d" and ?ns = "m_nodes d" and ?n = "m_numElements d"
  have n: "nodes_ok ?ns" "length ?ns = ?n" using ok by (simp_all add: sets_ok_def)
  have "sets_ok ?u \<and> m_numElements ?u = ?n \<and> (\<exists>r \<in> {a, b}. \<forall>i < ?n. rep ?u i = (if rep d i \<in> {a, b} then r else rep d i))"
  proof (cases "a = b")
    case True
    then show ?thesis using ok by (auto simp: UnionSets_def)
  next
    case False
    obtain ns' c p where u: "?u = d\<lparr>m_nodes := ns', m_numSets := m_numSets d - 1\<rparr>" and cp: "{c, p} = {a, b}"
      and le: "dn_rank (?ns ! c) \<le> dn_rank (?ns ! p)"
      and ns': "ns' = (set_parent c p ?ns)[p := (?ns ! p)\<lparr>dn_rank :=
        (if dn_rank (?ns ! c) = dn_rank (?ns ! p) then dn_rank (?ns ! p) + 1 else dn_rank (?ns ! p))\<rparr>]"
      using UnionSets_eq [OF False] by blast
    have c: "c < length ?ns" "dn_parent (?ns ! c) = None" and p: "p < length ?ns" "dn_parent (?ns ! p) = None" and ne: "p \<noteq> c"
      using cp a b n(2) False by (auto simp: doubleton_eq_iff)
    have len: "length ns' = length ?ns" by (simp add: ns' set_parent_def)
    have at: "ns' ! i = (if i = p then (?ns ! p)\<lparr>dn_rank :=
        (if dn_rank (?ns ! c) = dn_rank (?ns ! p) then dn_rank (?ns ! p) + 1 else dn_rank (?ns ! p))\<rparr>
      else if i = c then (?ns ! c)\<lparr>dn_parent := Some p\<rparr> else ?ns ! i)" if "i < length ?ns" for i
      using that c(1) p(1) ne by (auto simp: ns' set_parent_def nth_list_update_any)
    have par: "dn_parent (ns' ! i) = (if i = c then Some p else dn_parent (?ns ! i))" if "i < length ?ns" for i
      using at [OF that] p(2) ne by auto
    have rank: "dn_rank (ns' ! i) = (if i = p \<and> dn_rank (?ns ! c) = dn_rank (?ns ! p) then dn_rank (?ns ! p) + 1 else dn_rank (?ns ! i))"
      if "i < length ?ns" for i using at [OF that] by auto
    have idx: "dn_index (ns' ! i) = i" if "i < length ?ns" for i using at [OF that] n(1) that by (auto simp: nodes_ok_def)
    have "q < length ns' \<and> dn_rank (ns' ! i) < dn_rank (ns' ! q)"
      if "i < length ?ns" "dn_parent (ns' ! i) = Some q" for i q
    proof (cases "i = c")
      case True
      then show ?thesis using that par [OF that(1)] rank [OF p(1)] rank [OF c(1)] le p(1) ne len by auto
    next
      case False
      then have q: "dn_parent (?ns ! i) = Some q" using that par [OF that(1)] by simp
      then have "q < length ?ns" "dn_rank (?ns ! i) < dn_rank (?ns ! q)" using n(1) that(1) by (auto simp: nodes_ok_def)
      moreover have "i \<noteq> p" using q p(2) by auto
      ultimately show ?thesis using rank [OF that(1)] rank [of q] len by auto
    qed
    then have ok': "nodes_ok ns'" using idx len by (simp add: nodes_ok_def)
    have rt: "root ns' i = (if root ?ns i = c then p else root ?ns i)" if "i < length ?ns" for i
      using link_root [OF n(1) ok' len p c ne _ that] par by blast
    have roots: "{i. i < ?n \<and> dn_parent (ns' ! i) = None} = {i. i < ?n \<and> dn_parent (?ns ! i) = None} - {c}"
      using par n(2) by (auto split: if_splits)
    have mem: "c \<in> {i. i < ?n \<and> dn_parent (?ns ! i) = None}" using c n(2) by simp
    have "card {i. i < ?n \<and> dn_parent (?ns ! i) = None} = Suc (card ({i. i < ?n \<and> dn_parent (?ns ! i) = None} - {c}))"
      using card.remove [OF _ mem] by simp
    then have "sets_ok ?u" using ok ok' len n(2) by (simp add: sets_ok_def u roots)
    moreover have "rep ?u i = (if rep d i \<in> {a, b} then p else rep d i)" if "i < ?n" for i
      using rt [of i] that n(2) cp [symmetric] by (auto simp: rep_def u)
    moreover have "p \<in> {a, b}" using cp by blast
    ultimately show ?thesis using u by auto
  qed
  then show "sets_ok ?u" and "m_numElements ?u = ?n"
    and "\<exists>r \<in> {a, b}. \<forall>i < ?n. rep ?u i = (if rep d i \<in> {a, b} then r else rep d i)" by blast+
qed

lemma root_append:
  assumes "nodes_ok ns" and "nodes_ok (ns @ new)" and "i < length ns"
  shows "root (ns @ new) i = root ns i"
  using assms(1,3)
proof (induction i rule: nodes_induct)
  case (root i)
  then show ?case using root_fixed [OF assms(1) root] root_fixed [OF assms(2), of i] by (simp add: nth_append)
next
  case (child i p)
  then show ?case using root_unfold [OF assms(2), of i] root_unfold [OF assms(1) child(1)] by (simp add: nth_append)
qed

lemma AddElements_spec:
  assumes ok: "sets_ok d"
  shows "sets_ok (AddElements k d)" and "m_numElements (AddElements k d) = m_numElements d + k"
    and "i < m_numElements d \<Longrightarrow> rep (AddElements k d) i = rep d i"
    and "m_numElements d \<le> i \<Longrightarrow> i < m_numElements d + k \<Longrightarrow> rep (AddElements k d) i = i"
proof -
  let ?n = "m_numElements d" and ?a = "AddElements k d"
  let ?new = "map (\<lambda>i. \<lparr>dn_rank = 0, dn_index = i, dn_parent = None\<rparr>) [?n ..< ?n + k]"
  have n: "nodes_ok (m_nodes d)" "length (m_nodes d) = ?n" using ok by (simp_all add: sets_ok_def)
  have a: "m_nodes ?a = m_nodes d @ ?new" "m_numElements ?a = ?n + k" "m_numSets ?a = m_numSets d + int k"
    by (simp_all add: AddElements_def Let_def)
  have lenA: "length (m_nodes ?a) = ?n + k" by (simp add: a(1) n)
  show "m_numElements ?a = ?n + k" by (rule a)
  have old: "m_nodes ?a ! i = m_nodes d ! i" if "i < ?n" for i using that n by (simp add: a nth_append)
  have new: "m_nodes ?a ! i = \<lparr>dn_rank = 0, dn_index = i, dn_parent = None\<rparr>" if "?n \<le> i" "i < ?n + k" for i
    using that n nth_upt [of ?n "i - ?n" "?n + k"] by (simp add: a nth_append)
  have one: "dn_index (m_nodes ?a ! i) = i \<and> (\<forall>p. dn_parent (m_nodes ?a ! i) = Some p \<longrightarrow>
      p < ?n + k \<and> dn_rank (m_nodes ?a ! i) < dn_rank (m_nodes ?a ! p))" if "i < ?n + k" for i
  proof (cases "i < ?n")
    case True
    then show ?thesis using old n by (auto simp: nodes_ok_def)
  next
    case False
    then show ?thesis using new [of i] that by simp
  qed
  have ok': "nodes_ok (m_nodes ?a)" using one n by (simp add: nodes_ok_def a(1))
  have "{i. i < ?n + k \<and> dn_parent (m_nodes ?a ! i) = None} =
      {i. i < ?n \<and> dn_parent (m_nodes d ! i) = None} \<union> {?n ..< ?n + k}" (is "?all = ?old \<union> _")
    using old new by (auto simp: not_less)
  then have "card ?all = card ?old + k" using card_Un_disjoint [of ?old "{?n ..< ?n + k}"] by fastforce
  then show ok'': "sets_ok ?a" using ok ok' lenA by (simp add: sets_ok_def a(2,3))
  show "rep ?a i = rep d i" if "i < ?n" using root_append [OF n(1)] ok' that n(2) by (simp add: rep_def a(1))
  show "rep ?a i = i" if "?n \<le> i" "i < ?n + k" using rep_of_root [OF ok''] new [OF that] that a(2) by simp
qed

section \<open>Connectivity\<close>

definition conn :: "(nat \<times> nat) set \<Rightarrow> (nat \<times> nat) set" where "conn R = (R \<union> R\<inverse>)\<^sup>*"

lemma conn_refl [simp]: "(x, x) \<in> conn R"
  by (simp add: conn_def)

lemma conn_trans [trans]: "(x, y) \<in> conn R \<Longrightarrow> (y, z) \<in> conn R \<Longrightarrow> (x, z) \<in> conn R"
  by (simp add: conn_def)

lemma conn_sym: "(x, y) \<in> conn R \<Longrightarrow> (y, x) \<in> conn R"
proof -
  have "sym (R \<union> R\<inverse>)" by (auto simp: sym_def)
  then have "sym (conn R)" by (simp add: conn_def sym_rtrancl)
  then show "(x, y) \<in> conn R \<Longrightarrow> (y, x) \<in> conn R" by (rule symD)
qed

lemma conn_mono: "R \<subseteq> S \<Longrightarrow> (x, y) \<in> conn R \<Longrightarrow> (x, y) \<in> conn S"
  unfolding conn_def by (rule subsetD [OF rtrancl_mono]) auto

lemma conn_edge: "(x, y) \<in> R \<Longrightarrow> (x, y) \<in> conn R"
  unfolding conn_def by auto

lemma conn_empty [simp]: "(x, y) \<in> conn {} \<longleftrightarrow> x = y"
  by (auto simp: conn_def)

text \<open>Connection is the least equivalence that holds the pairs.\<close>

lemma conn_least:
  assumes "(x, y) \<in> conn R" and "\<And>a b. (a, b) \<in> R \<Longrightarrow> (a, b) \<in> conn S"
  shows "(x, y) \<in> conn S"
  using assms(1) unfolding conn_def [of R]
proof (induction rule: rtrancl_induct)
  case base
  show ?case by simp
next
  case (step y z)
  have "(y, z) \<in> conn S" using step.hyps(2) assms(2) conn_sym by blast
  then show ?case using step.IH conn_trans by blast
qed

lemma conn_insert:
  "(x, y) \<in> conn (insert (a, b) R) \<longleftrightarrow>
     (x, y) \<in> conn R \<or> ((x, a) \<in> conn R \<and> (b, y) \<in> conn R) \<or> ((x, b) \<in> conn R \<and> (a, y) \<in> conn R)"
  (is "?l \<longleftrightarrow> ?r")
proof
  have m: "\<And>u v. (u, v) \<in> conn R \<Longrightarrow> (u, v) \<in> conn (insert (a, b) R)" using conn_mono [of R "insert (a, b) R"] by blast
  have ab: "(a, b) \<in> conn (insert (a, b) R)" "(b, a) \<in> conn (insert (a, b) R)"
    using conn_edge [of a b "insert (a, b) R"] conn_sym by auto
  show "?r \<Longrightarrow> ?l" using m ab conn_trans by meson
  show "?l \<Longrightarrow> ?r" unfolding conn_def [of "insert (a, b) R"]
  proof (induction rule: rtrancl_induct)
    case base
    show ?case by simp
  next
    case (step y z)
    have s: "(y, z) \<in> conn R \<or> (y = a \<and> z = b) \<or> (y = b \<and> z = a)" using step.hyps(2) conn_edge conn_sym by blast
    then show ?case using step.IH
      by (elim disjE) (use conn_trans conn_sym conn_refl in \<open>meson | blast\<close>)+
  qed
qed

lemma conn_redundant:
  assumes "(a, b) \<in> conn R"
  shows "conn (insert (a, b) R) = conn R"
proof -
  have "(x, y) \<in> conn (insert (a, b) R) \<longleftrightarrow> (x, y) \<in> conn R" for x y
    using assms conn_sym [OF assms] unfolding conn_insert by (meson conn_trans)
  then show ?thesis by auto
qed

text \<open>A labelling of the first \<open>n\<close> elements represents a relation when it separates its connected components.\<close>

definition classes :: "nat \<Rightarrow> (nat \<Rightarrow> nat) \<Rightarrow> (nat \<times> nat) set \<Rightarrow> bool" where
  "classes n f R \<longleftrightarrow> (\<forall>x < n. \<forall>y < n. f x = f y \<longleftrightarrow> (x, y) \<in> conn R)"

definition components :: "nat \<Rightarrow> (nat \<times> nat) set \<Rightarrow> nat set set" where
  "components n R = (\<lambda>x. {y. y < n \<and> (x, y) \<in> conn R}) ` {..< n}"

lemma classes_merge:
  assumes c: "classes n f R" and x: "x < n" and y: "y < n" and r: "r = f x \<or> r = f y"
    and g: "\<And>i. i < n \<Longrightarrow> g i = (if f i = f x \<or> f i = f y then r else f i)"
  shows "classes n g (insert (x, y) R)"
  unfolding classes_def
proof (intro allI impI)
  fix i j
  assume i: "i < n" and j: "j < n"
  have "(i, j) \<in> conn (insert (x, y) R) \<longleftrightarrow> f i = f j \<or> (f i = f x \<and> f y = f j) \<or> (f i = f y \<and> f x = f j)"
    using c i j x y by (simp add: conn_insert classes_def)
  then show "g i = g j \<longleftrightarrow> (i, j) \<in> conn (insert (x, y) R)" using g [OF i] g [OF j] r by auto
qed

lemma classes_components:
  assumes "classes n f R"
  shows "card (f ` {..< n}) = card (components n R)"
proof -
  let ?c = "\<lambda>r. {y. y < n \<and> r = f y}"
  have "components n R = ?c ` f ` {..< n}" using assms by (auto simp: components_def classes_def image_iff)
  moreover have "inj_on ?c (f ` {..< n})" by (rule inj_onI) auto
  ultimately show ?thesis by (simp add: card_image)
qed

section \<open>The interface of union-find\<close>

text \<open>
  What Kruskal and the other clients use: \<open>find\<close> returns a name of the class and keeps all names, \<open>unite\<close> of two
  names merges exactly their classes, \<open>grow\<close> adds singletons.
\<close>

locale union_find =
  fixes inv :: "'d \<Rightarrow> bool" and elems :: "'d \<Rightarrow> nat" and nm :: "'d \<Rightarrow> nat \<Rightarrow> nat" and cnt :: "'d \<Rightarrow> int"
    and find :: "nat \<Rightarrow> 'd \<Rightarrow> (nat \<times> 'd) option" and unite :: "nat \<Rightarrow> nat \<Rightarrow> 'd \<Rightarrow> 'd"
  assumes find_law: "inv d \<Longrightarrow> x < elems d \<Longrightarrow>
      \<exists>d'. find x d = Some (nm d x, d') \<and> inv d' \<and> elems d' = elems d \<and> (\<forall>i < elems d. nm d' i = nm d i)"
    and unite_law: "inv d \<Longrightarrow> x < elems d \<Longrightarrow> y < elems d \<Longrightarrow>
      inv (unite (nm d x) (nm d y) d) \<and> elems (unite (nm d x) (nm d y) d) = elems d \<and>
      (\<exists>r \<in> {nm d x, nm d y}. \<forall>i < elems d. nm (unite (nm d x) (nm d y) d) i = (if nm d i \<in> {nm d x, nm d y} then r else nm d i))"
    and count_law: "inv d \<Longrightarrow> cnt d = int (card (nm d ` {..< elems d}))"
begin

lemma find_classes:
  assumes "inv d" and "x < elems d" and "classes (elems d) (nm d) R"
  shows "\<exists>d'. find x d = Some (nm d x, d') \<and> inv d' \<and> elems d' = elems d \<and> classes (elems d) (nm d') R \<and>
    (\<forall>i < elems d. nm d' i = nm d i)"
  using find_law [OF assms(1,2)] assms(3) by (auto simp: classes_def)

lemma find_pair:
  assumes "inv d" and "x < elems d" and "y < elems d" and "classes (elems d) (nm d) R"
  shows "\<exists>d1 d2. find x d = Some (nm d x, d1) \<and> find y d1 = Some (nm d y, d2) \<and> inv d2 \<and> elems d2 = elems d \<and>
    classes (elems d) (nm d2) R \<and> nm d2 x = nm d x \<and> nm d2 y = nm d y"
  using find_classes [OF assms(1,2,4)] assms(2,3) find_classes [where x = y and R = R] by metis

lemma unite_classes:
  assumes "inv d" and "x < elems d" and "y < elems d" and "classes (elems d) (nm d) R"
  shows "inv (unite (nm d x) (nm d y) d)" and "elems (unite (nm d x) (nm d y) d) = elems d"
    and "classes (elems d) (nm (unite (nm d x) (nm d y) d)) (insert (x, y) R)"
proof -
  note u = unite_law [OF assms(1-3)]
  show "inv (unite (nm d x) (nm d y) d)" and "elems (unite (nm d x) (nm d y) d) = elems d" using u by simp_all
  obtain r where "r \<in> {nm d x, nm d y}"
    "\<forall>i < elems d. nm (unite (nm d x) (nm d y) d) i = (if nm d i \<in> {nm d x, nm d y} then r else nm d i)" using u by blast
  then show "classes (elems d) (nm (unite (nm d x) (nm d y) d)) (insert (x, y) R)"
    by (intro classes_merge [OF assms(4,2,3), of r]) auto
qed

lemma count_components: "inv d \<Longrightarrow> classes (elems d) (nm d) R \<Longrightarrow> cnt d = int (card (components (elems d) R))"
  using count_law classes_components by metis

end

interpretation uf: union_find sets_ok m_numElements rep NumSets FindSet UnionSets
proof
  show "\<exists>d'. FindSet x d = Some (rep d x, d') \<and> sets_ok d' \<and> m_numElements d' = m_numElements d \<and>
      (\<forall>i < m_numElements d. rep d' i = rep d i)" if "sets_ok d" "x < m_numElements d" for d x
    using FindSet_spec [OF that] by blast
next
  fix d x y
  assume ok: "sets_ok d" and x: "x < m_numElements d" and y: "y < m_numElements d"
  show "sets_ok (UnionSets (rep d x) (rep d y) d) \<and> m_numElements (UnionSets (rep d x) (rep d y) d) = m_numElements d \<and>
      (\<exists>r \<in> {rep d x, rep d y}. \<forall>i < m_numElements d.
        rep (UnionSets (rep d x) (rep d y) d) i = (if rep d i \<in> {rep d x, rep d y} then r else rep d i))"
    using UnionSets_spec [OF ok rep_is_root [OF ok x] rep_is_root [OF ok y]] by blast
qed (rule numSets_classes)

section \<open>Sequences of operations\<close>

datatype sets_op = Add_elements nat | Union_elements nat nat

fun sets_run :: "sets_op list \<Rightarrow> disjoint_sets \<Rightarrow> disjoint_sets option" where
  "sets_run [] d = Some d"
| "sets_run (Add_elements k # ops) d = sets_run ops (AddElements k d)"
| "sets_run (Union_elements a b # ops) d = Option.bind (UnionElements a b d) (sets_run ops)"

fun ops_ok :: "nat \<Rightarrow> sets_op list \<Rightarrow> bool" where
  "ops_ok n [] = True"
| "ops_ok n (Add_elements k # ops) = ops_ok (n + k) ops"
| "ops_ok n (Union_elements a b # ops) = (a < n \<and> b < n \<and> ops_ok n ops)"

fun ops_total :: "sets_op list \<Rightarrow> nat" where
  "ops_total [] = 0"
| "ops_total (Add_elements k # ops) = k + ops_total ops"
| "ops_total (Union_elements a b # ops) = ops_total ops"

fun ops_pairs :: "sets_op list \<Rightarrow> (nat \<times> nat) list" where
  "ops_pairs [] = []"
| "ops_pairs (Add_elements k # ops) = ops_pairs ops"
| "ops_pairs (Union_elements a b # ops) = (a, b) # ops_pairs ops"

lemma UnionElements_classes:
  assumes "sets_ok d" and "a < m_numElements d" and "b < m_numElements d" and "classes (m_numElements d) (rep d) R"
  shows "\<exists>d'. UnionElements a b d = Some d' \<and> sets_ok d' \<and> m_numElements d' = m_numElements d \<and>
    classes (m_numElements d) (rep d') (insert (a, b) R)"
proof -
  obtain d1 d2 where f: "FindSet a d = Some (rep d a, d1)" "FindSet b d1 = Some (rep d b, d2)"
    and d2: "sets_ok d2" "m_numElements d2 = m_numElements d" "classes (m_numElements d) (rep d2) R"
      "rep d2 a = rep d a" "rep d2 b = rep d b" using uf.find_pair [OF assms] by blast
  have "UnionElements a b d = Some (UnionSets (rep d2 a) (rep d2 b) d2)" using f d2 by (simp add: UnionElements_def)
  then show ?thesis using uf.unite_classes [of d2 a b R] d2(1-3) assms(2,3) by simp
qed

text \<open>New elements are related to nothing.\<close>

lemma conn_in_field: "(x, y) \<in> conn R \<Longrightarrow> x = y \<or> (\<exists>z. (x, z) \<in> R \<or> (z, x) \<in> R)"
  unfolding conn_def by (auto elim: converse_rtranclE)

lemma AddElements_classes:
  assumes ok: "sets_ok d" and c: "classes (m_numElements d) (rep d) R" and R: "R \<subseteq> {..< m_numElements d} \<times> {..< m_numElements d}"
  shows "classes (m_numElements d + k) (rep (AddElements k d)) R"
proof -
  note a = AddElements_spec [OF ok, where k = k]
  have new: "(i, j) \<in> conn R \<longleftrightarrow> i = j" if "m_numElements d \<le> i \<or> m_numElements d \<le> j" for i j
    using conn_in_field [of i j R] conn_in_field [of j i R] conn_sym [of i j R] R that by fastforce
  have "rep (AddElements k d) i = rep (AddElements k d) j \<longleftrightarrow> (i, j) \<in> conn R"
    if "i < m_numElements d + k" "j < m_numElements d + k" for i j
  proof (cases "i < m_numElements d \<and> j < m_numElements d")
    case True
    then show ?thesis using a(3) c by (simp add: classes_def)
  next
    case False
    have "rep d i < m_numElements d" if "i < m_numElements d" for i using rep_is_root [OF ok that] by simp
    then show ?thesis using False a(3,4) that new [of i j] by (metis linorder_not_less)
  qed
  then show ?thesis by (simp add: classes_def)
qed

lemma sets_run_classes:
  assumes "sets_ok d" and "classes (m_numElements d) (rep d) R" and "R \<subseteq> {..< m_numElements d} \<times> {..< m_numElements d}"
    and "ops_ok (m_numElements d) ops"
  shows "\<exists>d'. sets_run ops d = Some d' \<and> sets_ok d' \<and> m_numElements d' = m_numElements d + ops_total ops \<and>
    classes (m_numElements d + ops_total ops) (rep d') (R \<union> set (ops_pairs ops))"
  using assms
proof (induction ops arbitrary: d R)
  case Nil
  then show ?case by simp
next
  case (Cons op ops)
  show ?case
  proof (cases op)
    case (Add_elements k)
    note a = AddElements_spec [OF Cons.prems(1), of k]
    have "R \<subseteq> {..< m_numElements d + k} \<times> {..< m_numElements d + k}" using Cons.prems(3) by fastforce
    then show ?thesis
      using Cons.IH [of "AddElements k d" R] a(1,2) AddElements_classes [OF Cons.prems(1-3), of k] Cons.prems(4) Add_elements
      by (simp add: add.assoc)
  next
    case (Union_elements x y)
    then have xy: "x < m_numElements d" "y < m_numElements d" using Cons.prems(4) by simp_all
    obtain d' where d': "UnionElements x y d = Some d'" "sets_ok d'" "m_numElements d' = m_numElements d"
      "classes (m_numElements d) (rep d') (insert (x, y) R)"
      using UnionElements_classes [OF Cons.prems(1) xy Cons.prems(2)] by blast
    then show ?thesis using Cons.IH [of d' "insert (x, y) R"] Cons.prems(3,4) Union_elements xy by simp
  qed
qed

text \<open>C40: DisjointSets refines a partition.  For every sequence of \<^verbatim>\<open>AddElements\<close> and \<^verbatim>\<open>UnionElements\<close> on declared elements,
  starting from the empty structure, no loop runs forever, all elements are there, \<^verbatim>\<open>FindSet\<close> of two elements
  returns the same name exactly when the unions performed so far connect them (also when the first search has compressed
  the paths), and \<^verbatim>\<open>NumSets\<close> is the number of connected components.
\<close>

theorem disjoint_sets_refine:
  assumes "ops_ok 0 ops"
  shows "\<exists>d. sets_run ops sets_empty = Some d \<and> NumElements d = ops_total ops \<and>
    (\<forall>x < ops_total ops. \<forall>y < ops_total ops. \<exists>r s d1 d2. FindSet x d = Some (r, d1) \<and> FindSet y d1 = Some (s, d2) \<and>
      (r = s \<longleftrightarrow> (x, y) \<in> conn (set (ops_pairs ops)))) \<and>
    NumSets d = int (card (components (ops_total ops) (set (ops_pairs ops))))"
proof -
  have "sets_ok sets_empty" "classes (m_numElements sets_empty) (rep sets_empty) {}" "m_numElements sets_empty = 0"
    by (simp_all add: sets_ok_def nodes_ok_def sets_empty_def classes_def)
  then obtain d where d: "sets_run ops sets_empty = Some d" "sets_ok d" "m_numElements d = ops_total ops"
    "classes (ops_total ops) (rep d) (set (ops_pairs ops))"
    using sets_run_classes [of sets_empty "{}" ops] assms by auto
  have "\<exists>r s d1 d2. FindSet x d = Some (r, d1) \<and> FindSet y d1 = Some (s, d2) \<and> (r = s \<longleftrightarrow> (x, y) \<in> conn (set (ops_pairs ops)))"
    if "x < ops_total ops" "y < ops_total ops" for x y
    using uf.find_pair [OF d(2), of x y] d(3,4) that by (fastforce simp: classes_def)
  then show ?thesis using d uf.count_components [OF d(2)] by (auto simp: NumElements_def)
qed

theorem disjoint_sets_refine_witness:
  "\<exists>d. sets_run [Add_elements 3, Union_elements 0 1, Add_elements 2, Union_elements 4 1] sets_empty = Some d \<and>
     NumElements d = 5 \<and> NumSets d = int (card (components 5 {(0, 1), (4, 1)}))"
  using disjoint_sets_refine [of "[Add_elements 3, Union_elements 0 1, Add_elements 2, Union_elements 4 1]"] by auto

text \<open>
  The cache of \<^verbatim>\<open>GetElement\<close> survives a union followed by a new element, since the number of sets is as before: here the
  sets 0 and 1 get elements of the same set.
\<close>

lemma get_element_stale:
  "map_option (\<lambda>d. (NumSets d, map_option fst (GetElement 0 d), map_option fst (GetElement 1 d),
       map_option fst (FindSet 0 d), map_option fst (FindSet 1 d)))
     (Option.bind (GetElement 0 (sets_new 3)) (\<lambda>(_, d). map_option (AddElements 1) (UnionElements 0 1 d)))
   = Some (3, Some 0, Some 1, Some 0, Some 0)"
  by code_simp

end
