(* ===== verification/DGL_Graph.thy ===== *)
theory DGL_Graph
  imports Main Prelude
begin

text \<open>
  \<^verbatim>\<open>dgl/DynamicGraph.h\<close>: the graph that all graph algorithms share.  Edges are declared once and then enabled and
  disabled; every effective change counts \<^verbatim>\<open>modifications\<close> up and is appended to \<^verbatim>\<open>history\<close>, so that an algorithm can
  replay the entries it has not seen, or see from the counters \<^verbatim>\<open>additions\<close> and \<^verbatim>\<open>deletions\<close> that nothing of interest
  has happened.  Weights are \<open>int\<close>, the counters are \<open>int\<close> below their bound of \<open>2 ^ 31\<close>, the callback
  \<^verbatim>\<open>updateHistory\<close> of the registered algorithms is the parameter \<open>upd\<close>, the log file is left out.
\<close>

section \<open>Data\<close>

record dedge = e_node :: nat  e_id :: nat

record full_edge = fe_from :: int  fe_to :: int  fe_id :: int

definition no_edge :: full_edge where "no_edge = \<lparr>fe_from = -1, fe_to = -1, fe_id = -1\<rparr>"

record edge_change =
  addition :: bool
  deletion :: bool
  weight_increase :: bool
  weight_decrease :: bool
  ch_id :: nat
  ch_mod :: int
  prev_mod :: int

record dgraph =
  edge_status :: "bool list"
  edge_status_const :: "bool list"
  weights :: "int list"
  num_nodes :: nat
  num_edges :: nat
  next_id :: nat
  is_changed :: bool
  dynamic_algs :: "nat list"
  dynamic_history_pos :: "int list"
  history_offset :: int
  disable_history_clears :: bool
  dynamic_history_clears :: int
  adaptive_history_clear :: bool
  historyClearInterval :: int
  modifications :: int
  additions :: int
  deletions :: int
  edge_increases :: int
  edge_decreases :: int
  historyclears :: int
  skipped_historyclears :: int
  adjacency_list :: "dedge list list"
  inverted_adjacency_list :: "dedge list list"
  adjacency_undirected_list :: "dedge list list"
  all_edges :: "full_edge list"
  history :: "edge_change list"

definition graph_new :: dgraph where
  "graph_new = \<lparr>edge_status = [], edge_status_const = [], weights = [], num_nodes = 0, num_edges = 0, next_id = 0,
     is_changed = False, dynamic_algs = [], dynamic_history_pos = [], history_offset = 0,
     disable_history_clears = False, dynamic_history_clears = 0, adaptive_history_clear = False,
     historyClearInterval = 1000, modifications = 0, additions = 0, deletions = 0, edge_increases = 0,
     edge_decreases = 0, historyclears = 0, skipped_historyclears = 0, adjacency_list = [],
     inverted_adjacency_list = [], adjacency_undirected_list = [], all_edges = [], history = []\<rparr>"

text \<open>\<^verbatim>\<open>std::vector::resize\<close>.\<close>

definition vresize :: "nat \<Rightarrow> 'a \<Rightarrow> 'a list \<Rightarrow> 'a list" where
  "vresize n x xs = take n xs @ replicate (n - length xs) x"

lemma length_vresize [simp]: "length (vresize n x xs) = n"
  by (simp add: vresize_def)

lemma nth_vresize: "i < n \<Longrightarrow> vresize n x xs ! i = (if i < length xs then xs ! i else x)"
  by (auto simp: vresize_def nth_append)

section \<open>Queries\<close>

definition edgeEnabled :: "nat \<Rightarrow> dgraph \<Rightarrow> bool" where "edgeEnabled e g = edge_status g ! e"
definition isConstant :: "nat \<Rightarrow> dgraph \<Rightarrow> bool" where "isConstant e g = edge_status_const g ! e"

definition isEdge :: "nat \<Rightarrow> dgraph \<Rightarrow> bool" where
  "isEdge e g \<longleftrightarrow> e < length (all_edges g) \<and> fe_id (all_edges g ! e) = int e"

definition hasEdgeId :: "nat \<Rightarrow> dgraph \<Rightarrow> bool" where "hasEdgeId e g = isEdge e g"

definition getEdge :: "nat \<Rightarrow> dgraph \<Rightarrow> full_edge" where "getEdge e g = all_edges g ! e"
definition getWeight :: "nat \<Rightarrow> dgraph \<Rightarrow> int" where "getWeight e g = weights g ! e"
definition getEdgeWeight :: "nat \<Rightarrow> dgraph \<Rightarrow> int" where "getEdgeWeight e g = getWeight e g"

definition selfLoop :: "nat \<Rightarrow> dgraph \<Rightarrow> bool" where
  "selfLoop e g \<longleftrightarrow> hasEdgeId e g \<and> fe_from (getEdge e g) = fe_to (getEdge e g)"

fun find_incident :: "nat \<Rightarrow> dgraph \<Rightarrow> dedge list \<Rightarrow> nat option" where
  "find_incident t g [] = None"
| "find_incident t g (x # xs) = (if e_node x = t \<and> edgeEnabled (e_id x) g then Some (e_id x) else find_incident t g xs)"

definition hasEdge :: "nat \<Rightarrow> nat \<Rightarrow> dgraph \<Rightarrow> bool" where
  "hasEdge u v g \<longleftrightarrow> find_incident v g (adjacency_list g ! u) \<noteq> None"

definition getEdgeBetween :: "nat \<Rightarrow> nat \<Rightarrow> dgraph \<Rightarrow> int" where
  "getEdgeBetween u v g = (case find_incident v g (adjacency_list g ! u) of None \<Rightarrow> -1 | Some e \<Rightarrow> int e)"

definition hasEdgeUndirected :: "nat \<Rightarrow> nat \<Rightarrow> dgraph \<Rightarrow> bool" where
  "hasEdgeUndirected u v g \<longleftrightarrow> find_incident v g (adjacency_undirected_list g ! u) \<noteq> None"

definition nEdgeIDs :: "dgraph \<Rightarrow> nat" where "nEdgeIDs g = num_edges g"
definition nodes :: "dgraph \<Rightarrow> nat" where "nodes g = num_nodes g"
definition edges :: "dgraph \<Rightarrow> nat" where "edges g = num_edges g"

definition nIncident :: "nat \<Rightarrow> bool \<Rightarrow> dgraph \<Rightarrow> nat" where
  "nIncident v undirected g = length ((if undirected then adjacency_undirected_list g else adjacency_list g) ! v)"

definition nIncoming :: "nat \<Rightarrow> bool \<Rightarrow> dgraph \<Rightarrow> nat" where
  "nIncoming v undirected g = length ((if undirected then adjacency_undirected_list g else inverted_adjacency_list g) ! v)"

definition nDirectedEdges :: "nat \<Rightarrow> bool \<Rightarrow> dgraph \<Rightarrow> nat" where
  "nDirectedEdges v inc g = (if inc then nIncoming v False g else nIncident v False g)"

definition incident :: "nat \<Rightarrow> nat \<Rightarrow> bool \<Rightarrow> dgraph \<Rightarrow> dedge" where
  "incident v i undirected g = (if undirected then adjacency_undirected_list g else adjacency_list g) ! v ! i"

definition incoming :: "nat \<Rightarrow> nat \<Rightarrow> bool \<Rightarrow> dgraph \<Rightarrow> dedge" where
  "incoming v i undirected g = (if undirected then adjacency_undirected_list g else inverted_adjacency_list g) ! v ! i"

definition directedEdges :: "nat \<Rightarrow> nat \<Rightarrow> bool \<Rightarrow> dgraph \<Rightarrow> dedge" where
  "directedEdges v i inc g = (if inc then incoming v i False g else incident v i False g)"

definition historySize :: "dgraph \<Rightarrow> int" where "historySize g = int (length (history g)) + history_offset g"
definition getChange :: "int \<Rightarrow> dgraph \<Rightarrow> edge_change" where "getChange p g = history g ! nat (p - history_offset g)"
definition getCurrentHistory :: "dgraph \<Rightarrow> int" where "getCurrentHistory g = modifications g"
definition changed :: "dgraph \<Rightarrow> bool" where "changed g = is_changed g"

section \<open>Marks and history\<close>

definition markChanged :: "dgraph \<Rightarrow> dgraph" where "markChanged g = g\<lparr>is_changed := True\<rparr>"
definition clearChanged :: "dgraph \<Rightarrow> dgraph" where "clearChanged g = g\<lparr>is_changed := False\<rparr>"

definition invalidate :: "dgraph \<Rightarrow> dgraph" where
  "invalidate g = g\<lparr>additions := modifications g + 1, modifications := modifications g + 2,
     deletions := modifications g + 2, is_changed := True\<rparr>"

definition addDynamicAlgorithm :: "nat \<Rightarrow> dgraph \<Rightarrow> nat \<times> dgraph" where
  "addDynamicAlgorithm a g =
     (let g1 = g\<lparr>dynamic_algs := dynamic_algs g @ [a], dynamic_history_pos := dynamic_history_pos g @ [0]\<rparr>
      in (length (dynamic_algs g1) - 1, g1))"

definition updateAlgorithmHistory :: "nat \<Rightarrow> int \<Rightarrow> dgraph \<Rightarrow> dgraph" where
  "updateAlgorithmHistory i p g = g\<lparr>dynamic_history_pos := (dynamic_history_pos g)[i := p]\<rparr>"

text \<open>The number of registered algorithms that have seen the whole history; in mode 2 the others are asked to read it.\<close>

fun count_uptodate :: "(nat \<Rightarrow> dgraph \<Rightarrow> dgraph) \<Rightarrow> nat list \<Rightarrow> nat \<Rightarrow> dgraph \<Rightarrow> nat \<times> dgraph" where
  "count_uptodate upd [] n g = (n, g)"
| "count_uptodate upd (i # is) n g =
     (if dynamic_history_pos g ! i \<noteq> historySize g
      then if dynamic_history_clears g = 2
           then let g1 = upd i g
                in count_uptodate upd is (if dynamic_history_pos g1 ! i = historySize g1 then n + 1 else n) g1
           else count_uptodate upd is n g
      else count_uptodate upd is (n + 1) g)"

text \<open>\<^verbatim>\<open>std::vector<EdgeChange>::max_size\<close> with entries of 16 bytes.\<close>

definition history_max_size :: int where "history_max_size = (2 ^ 63 - 1) div 16"

definition drop_history :: "dgraph \<Rightarrow> dgraph" where
  "drop_history g = g\<lparr>history_offset := 0, history := [], historyclears := historyclears g + 1\<rparr>"

definition clearHistory :: "(nat \<Rightarrow> dgraph \<Rightarrow> dgraph) \<Rightarrow> bool \<Rightarrow> dgraph \<Rightarrow> dgraph" where
  "clearHistory upd forceClear g =
     (if disable_history_clears g then g
      else if history g \<noteq> [] \<and>
              (forceClear \<or> int (length (history g)) \<ge>
                 min history_max_size
                   (if adaptive_history_clear g then max 1000 (historyClearInterval g * int (edges g))
                    else historyClearInterval g))
      then if \<not> forceClear \<and> 0 < dynamic_history_clears g
           then let (n, g1) = count_uptodate upd [0 ..< length (dynamic_algs g)] 0 g
                in if n = length (dynamic_algs g1)
                   then g1\<lparr>history_offset := historySize g1, skipped_historyclears := skipped_historyclears g1 + 1,
                           history := []\<rparr>
                   else drop_history g1
           else drop_history g
      else g)"

section \<open>Changes\<close>

definition addNode :: "(nat \<Rightarrow> dgraph \<Rightarrow> dgraph) \<Rightarrow> dgraph \<Rightarrow> nat \<times> dgraph" where
  "addNode upd g =
     (let m = modifications g + 1;
          g1 = g\<lparr>adjacency_list := adjacency_list g @ [[]],
                 adjacency_undirected_list := adjacency_undirected_list g @ [[]],
                 inverted_adjacency_list := inverted_adjacency_list g @ [[]],
                 modifications := m, additions := m, deletions := m, edge_increases := m, edge_decreases := m\<rparr>;
          g2 = clearHistory upd True (markChanged g1)
      in (num_nodes g2, g2\<lparr>num_nodes := num_nodes g2 + 1\<rparr>))"

fun addNodes :: "(nat \<Rightarrow> dgraph \<Rightarrow> dgraph) \<Rightarrow> nat \<Rightarrow> dgraph \<Rightarrow> dgraph" where
  "addNodes upd 0 g = g"
| "addNodes upd (Suc n) g = addNodes upd n (snd (addNode upd g))"

definition makeEdgeAssignmentConstant :: "nat \<Rightarrow> dgraph \<Rightarrow> dgraph" where
  "makeEdgeAssignmentConstant e g = g\<lparr>edge_status_const := (edge_status_const g)[e := True]\<rparr>"

definition enableEdge :: "nat \<Rightarrow> dgraph \<Rightarrow> dgraph" where
  "enableEdge e g =
     (if \<not> edge_status g ! e
      then let m = modifications g + 1
           in g\<lparr>edge_status := (edge_status g)[e := True], modifications := m, additions := m,
                history := history g @ [\<lparr>addition = True, deletion = False, weight_increase = False,
                  weight_decrease = False, ch_id = e, ch_mod = m, prev_mod = m\<rparr>]\<rparr>
      else g)"

definition disableEdge :: "nat \<Rightarrow> dgraph \<Rightarrow> dgraph" where
  "disableEdge e g =
     (if edge_status g ! e
      then let m = modifications g + 1
           in g\<lparr>edge_status := (edge_status g)[e := False], modifications := m,
                history := history g @ [\<lparr>addition = False, deletion = True, weight_increase = False,
                  weight_decrease = False, ch_id = e, ch_mod = m, prev_mod = deletions g\<rparr>],
                deletions := m\<rparr>
      else g)"

definition setEdgeEnabled :: "nat \<Rightarrow> bool \<Rightarrow> dgraph \<Rightarrow> dgraph" where
  "setEdgeEnabled e en g = (if en then enableEdge e g else disableEdge e g)"

definition undoEnableEdge :: "nat \<Rightarrow> dgraph \<Rightarrow> bool \<times> dgraph" where
  "undoEnableEdge e g =
     (if history g = [] then (False, g)
      else let c = last (history g)
           in if addition c \<and> ch_id c = e \<and> ch_mod c = modifications g
              then (True, g\<lparr>edge_status := (edge_status g)[e := False], modifications := modifications g - 1,
                            additions := prev_mod c, history := butlast (history g)\<rparr>)
              else (False, g))"

definition undoDisableEdge :: "nat \<Rightarrow> dgraph \<Rightarrow> bool \<times> dgraph" where
  "undoDisableEdge e g =
     (if history g = [] then (False, g)
      else let c = last (history g)
           in if \<not> addition c \<and> ch_id c = e \<and> ch_mod c = modifications g
              then (True, g\<lparr>edge_status := (edge_status g)[e := True], modifications := modifications g - 1,
                            deletions := prev_mod c, history := butlast (history g)\<rparr>)
              else (False, g))"

definition setEdgeWeight :: "nat \<Rightarrow> int \<Rightarrow> dgraph \<Rightarrow> dgraph" where
  "setEdgeWeight e w g =
     (if w = getWeight e g then g
      else let m = modifications g + 1;
               g1 = g\<lparr>modifications := m\<rparr>;
               g2 = (if w > getWeight e g
                     then g1\<lparr>history := history g @ [\<lparr>addition = False, deletion = False, weight_increase = True,
                               weight_decrease = False, ch_id = e, ch_mod = m, prev_mod = additions g\<rparr>],
                             edge_increases := m\<rparr>
                     else g1\<lparr>history := history g @ [\<lparr>addition = False, deletion = False, weight_increase = False,
                               weight_decrease = True, ch_id = e, ch_mod = m, prev_mod = additions g\<rparr>],
                             edge_decreases := m\<rparr>)
           in g2\<lparr>weights := (weights g2)[e := w]\<rparr>)"

text \<open>\<^verbatim>\<open>addEdge\<close>: a negative \<open>id\<close> asks for a fresh one.  The edge starts enabled.\<close>

definition push_at :: "nat \<Rightarrow> 'a \<Rightarrow> 'a list list \<Rightarrow> 'a list list" where
  "push_at v x xss = xss[v := xss ! v @ [x]]"

definition addEdge :: "nat \<Rightarrow> nat \<Rightarrow> int \<Rightarrow> int \<Rightarrow> dgraph \<Rightarrow> nat \<times> dgraph" where
  "addEdge u v id0 weight g =
     (let e = (if id0 < 0 then next_id g else nat id0);
          nxt = (if id0 < 0 then next_id g + 1 else if e \<ge> next_id g then e + 1 else next_id g);
          m = modifications g + 1;
          g1 = g\<lparr>next_id := nxt, num_edges := nxt,
            adjacency_list := push_at u \<lparr>e_node = v, e_id = e\<rparr> (adjacency_list g),
            adjacency_undirected_list :=
              push_at v \<lparr>e_node = u, e_id = e\<rparr> (push_at u \<lparr>e_node = v, e_id = e\<rparr> (adjacency_undirected_list g)),
            edge_status := (if length (edge_status g) \<le> e then vresize (e + 1) False (edge_status g) else edge_status g),
            edge_status_const :=
              (if length (edge_status_const g) \<le> e then vresize (e + 1) False (edge_status_const g) else edge_status_const g),
            inverted_adjacency_list := push_at v \<lparr>e_node = u, e_id = e\<rparr> (inverted_adjacency_list g),
            all_edges := (if length (all_edges g) \<le> e then vresize (e + 1) no_edge (all_edges g) else all_edges g)
              [e := \<lparr>fe_from = int u, fe_to = int v, fe_id = int e\<rparr>],
            weights := (if length (weights g) \<le> e then vresize (e + 1) 0 (weights g) else weights g)[e := weight],
            modifications := m, additions := m, edge_increases := m\<rparr>
      in (e, enableEdge e (markChanged g1)))"

text \<open>\<^verbatim>\<open>rewindHistory\<close> reads the last entry of the history without a test: \<open>None\<close> is that read on an empty history.\<close>

fun rewindHistory :: "nat \<Rightarrow> dgraph \<Rightarrow> (bool \<times> dgraph) option" where
  "rewindHistory 0 g = Some (True, g)"
| "rewindHistory (Suc n) g =
     (if history g = [] then None
      else let c = last (history g)
           in if addition c
              then (case undoEnableEdge (ch_id c) g of (ok, g1) \<Rightarrow> if ok then rewindHistory n g1 else Some (False, g1))
              else if deletion c
              then (case undoDisableEdge (ch_id c) g of (ok, g1) \<Rightarrow> if ok then rewindHistory n g1 else Some (False, g1))
              else rewindHistory n g)"

definition clear_graph :: "(nat \<Rightarrow> dgraph \<Rightarrow> dgraph) \<Rightarrow> dgraph \<Rightarrow> dgraph" where
  "clear_graph upd g =
     clearHistory upd True (invalidate (g\<lparr>edge_status := [], num_nodes := 0, num_edges := 0, next_id := 0,
       adjacency_list := [], inverted_adjacency_list := [], adjacency_undirected_list := [], all_edges := [],
       history := []\<rparr>))"

definition copyTo :: "(nat \<Rightarrow> dgraph \<Rightarrow> dgraph) \<Rightarrow> dgraph \<Rightarrow> dgraph \<Rightarrow> dgraph" where
  "copyTo upd g t = (clear_graph upd t)\<lparr>num_nodes := num_nodes g, num_edges := num_edges g, next_id := next_id g,
     edge_status := edge_status g, historyClearInterval := historyClearInterval g, adjacency_list := adjacency_list g,
     adjacency_undirected_list := adjacency_undirected_list g, all_edges := all_edges g,
     inverted_adjacency_list := inverted_adjacency_list g\<rparr>"

section \<open>Runs\<close>

text \<open>
  The changes that clients make outside the tentative \<^verbatim>\<open>undo\<close> functions, each under its assertions.  The callbacks
  of the registered algorithms only record how far they have read.
\<close>

inductive graph_step :: "(nat \<Rightarrow> dgraph \<Rightarrow> dgraph) \<Rightarrow> dgraph \<Rightarrow> dgraph \<Rightarrow> bool"
  for upd :: "nat \<Rightarrow> dgraph \<Rightarrow> dgraph" where
  step_node: "graph_step upd g (snd (addNode upd g))"
| step_edge: "u < num_nodes g \<Longrightarrow> v < num_nodes g \<Longrightarrow> e < 0 \<or> \<not> isEdge (nat e) g \<Longrightarrow> graph_step upd g (snd (addEdge u v e w g))"
| step_enabled: "isEdge e g \<Longrightarrow> graph_step upd g (setEdgeEnabled e b g)"
| step_weight: "isEdge e g \<Longrightarrow> graph_step upd g (setEdgeWeight e w g)"
| step_constant: "isEdge e g \<Longrightarrow> graph_step upd g (makeEdgeAssignmentConstant e g)"
| step_clear: "graph_step upd g (clearHistory upd force g)"
| step_invalidate: "graph_step upd g (invalidate g)"
| step_mark: "graph_step upd g (markChanged g)"
| step_unmark: "graph_step upd g (clearChanged g)"
| step_register: "graph_step upd g (snd (addDynamicAlgorithm a g))"
| step_seen: "graph_step upd g (updateAlgorithmHistory i p g)"

inductive graph_run :: "(nat \<Rightarrow> dgraph \<Rightarrow> dgraph) \<Rightarrow> dgraph \<Rightarrow> dgraph \<Rightarrow> bool"
  for upd :: "nat \<Rightarrow> dgraph \<Rightarrow> dgraph" where
  run_refl: "graph_run upd g g"
| run_step: "graph_run upd g g' \<Longrightarrow> graph_step upd g' g'' \<Longrightarrow> graph_run upd g g''"

definition upd_ok :: "(nat \<Rightarrow> dgraph \<Rightarrow> dgraph) \<Rightarrow> bool" where
  "upd_ok upd \<longleftrightarrow> (\<forall>i g. \<exists>p. upd i g = g\<lparr>dynamic_history_pos := p\<rparr>)"

definition graph_ok :: "dgraph \<Rightarrow> bool" where
  "graph_ok g \<longleftrightarrow> additions g \<le> modifications g \<and> deletions g \<le> modifications g \<and> edge_increases g \<le> modifications g \<and>
     edge_decreases g \<le> modifications g \<and> length (edge_status g) = length (all_edges g) \<and>
     length (edge_status_const g) = length (all_edges g) \<and> length (weights g) = length (all_edges g) \<and>
     length (all_edges g) \<le> next_id g \<and> num_edges g = next_id g"

lemma graph_new_ok: "graph_ok graph_new"
  by (simp add: graph_ok_def graph_new_def)

definition enabled :: "dgraph \<Rightarrow> nat \<Rightarrow> bool" where
  "enabled g e \<longleftrightarrow> e < length (edge_status g) \<and> edge_status g ! e"

text \<open>What a reader does with the entries it has not seen.\<close>

definition apply_change :: "edge_change \<Rightarrow> (nat \<Rightarrow> bool) \<Rightarrow> nat \<Rightarrow> bool" where
  "apply_change c f = (if addition c then f(ch_id c := True) else if deletion c then f(ch_id c := False) else f)"

definition replay :: "edge_change list \<Rightarrow> (nat \<Rightarrow> bool) \<Rightarrow> nat \<Rightarrow> bool" where "replay cs f = fold apply_change cs f"

lemma replay_simps [simp]:
  "replay [] f = f" "replay (cs @ ds) f = replay ds (replay cs f)" "replay [c] f = apply_change c f"
  by (simp_all add: replay_def)

section \<open>Steps and the log\<close>

lemma count_uptodate_frame:
  assumes "upd_ok upd"
  shows "\<exists>n' p. count_uptodate upd is n g = (n', g\<lparr>dynamic_history_pos := p\<rparr>)"
proof (induction "is" arbitrary: n g)
  case Nil
  have "g = g\<lparr>dynamic_history_pos := dynamic_history_pos g\<rparr>" by simp
  then show ?case by (metis count_uptodate.simps(1))
next
  case (Cons i "is")
  obtain p where "upd i g = g\<lparr>dynamic_history_pos := p\<rparr>" using assms by (auto simp: upd_ok_def)
  then show ?case using Cons [of _ g] Cons [of _ "upd i g"] by (auto simp: Let_def)
qed

lemma if_cascade: "(if a then x else if b then if c then (if d then y else z) else w else x) \<in> {x, y, z, w}"
  by simp

text \<open>Clearing forgets entries, and says so unless all registered algorithms have read them.\<close>

lemma clearHistory_cases:
  assumes "upd_ok upd"
  obtains "clearHistory upd f g = g"
  | p where "clearHistory upd f g = drop_history (g\<lparr>dynamic_history_pos := p\<rparr>)"
  | p where "clearHistory upd f g = g\<lparr>dynamic_history_pos := p, history_offset := historySize g,
      skipped_historyclears := skipped_historyclears g + 1, history := []\<rparr>"
proof -
  obtain n p where c: "count_uptodate upd [0 ..< length (dynamic_algs g)] 0 g = (n, g\<lparr>dynamic_history_pos := p\<rparr>)"
    using count_uptodate_frame [OF assms] by blast
  have d: "drop_history g = drop_history (g\<lparr>dynamic_history_pos := dynamic_history_pos g\<rparr>)" by simp
  have "clearHistory upd f g \<in> {g, g\<lparr>dynamic_history_pos := p, history_offset := historySize g,
      skipped_historyclears := skipped_historyclears g + 1, history := []\<rparr>,
      drop_history (g\<lparr>dynamic_history_pos := p\<rparr>), drop_history g}" (is "_ \<in> {g, ?y, ?z, _}")
  proof -
    let ?g = "g\<lparr>dynamic_history_pos := p\<rparr>"
    have "?g\<lparr>history_offset := historySize ?g, skipped_historyclears := skipped_historyclears ?g + 1, history := []\<rparr> = ?y"
      by (simp add: historySize_def)
    then show ?thesis unfolding clearHistory_def c Let_def prod.case by (simp only:) (rule if_cascade)
  qed
  then consider "clearHistory upd f g = g" | "clearHistory upd f g = ?y" | "clearHistory upd f g = ?z"
    | "clearHistory upd f g = drop_history g" by blast
  then show thesis
    by cases (erule that(1), erule that(3), erule that(2), rule that(2) [of "dynamic_history_pos g"], simp)
qed

definition log_step :: "dgraph \<Rightarrow> dgraph \<Rightarrow> bool" where
  "log_step g g' \<longleftrightarrow>
     historyclears g < historyclears g' \<or>
     (historyclears g' = historyclears g \<and> history_offset g' = historySize g \<and> history g' = [] \<and> enabled g' = enabled g) \<or>
     (historyclears g' = historyclears g \<and> history_offset g' = history_offset g \<and>
       (\<exists>cs. history g' = history g @ cs \<and> enabled g' = replay cs (enabled g)))"

lemma log_same:
  "historyclears g' = historyclears g \<Longrightarrow> history_offset g' = history_offset g \<Longrightarrow> history g' = history g \<Longrightarrow>
     edge_status g' = edge_status g \<Longrightarrow> log_step g g'"
  by (simp add: log_step_def enabled_def fun_eq_iff)

lemma log_clear: "upd_ok upd \<Longrightarrow> log_step g (clearHistory upd f g)"
  by (erule clearHistory_cases [of upd f g]) (auto simp: log_same, auto simp: log_step_def drop_history_def enabled_def fun_eq_iff)

lemma log_enable: "e < length (edge_status g) \<Longrightarrow> log_step g (enableEdge e g)"
  by (auto simp: log_same enableEdge_def Let_def) (auto simp: log_step_def apply_change_def enabled_def fun_eq_iff nth_list_update_any)

lemma log_disable: "e < length (edge_status g) \<Longrightarrow> log_step g (disableEdge e g)"
  by (auto simp: log_same disableEdge_def Let_def) (auto simp: log_step_def apply_change_def enabled_def fun_eq_iff nth_list_update_any)

lemma log_weight: "log_step g (setEdgeWeight e w g)"
  by (auto simp: setEdgeWeight_def Let_def log_same) (auto simp: log_step_def apply_change_def enabled_def fun_eq_iff)

lemma log_start:
  assumes "historyclears g1 = historyclears g" and "history_offset g1 = history_offset g" and "history g1 = history g"
    and "enabled g1 = enabled g" and "log_step g1 g'"
  shows "log_step g g'"
  using assms by (simp add: log_step_def historySize_def)

lemma addEdge_split:
  assumes ok: "graph_ok g" and e: "e = (if id0 < 0 then next_id g else nat id0)"
  obtains g1 where "addEdge u v id0 w g = (e, enableEdge e g1)" and "historyclears g1 = historyclears g"
    and "history_offset g1 = history_offset g" and "history g1 = history g" and "enabled g1 = enabled g"
    and "e < length (edge_status g1)" and "is_changed g1"
    and "modifications g1 = modifications g + 1" and "additions g1 = modifications g + 1"
    and "edge_increases g1 = modifications g + 1" and "deletions g1 = deletions g" and "edge_decreases g1 = edge_decreases g"
    and "length (edge_status g1) = max (e + 1) (length (all_edges g))"
    and "length (edge_status_const g1) = max (e + 1) (length (all_edges g))"
    and "length (all_edges g1) = max (e + 1) (length (all_edges g))"
    and "length (weights g1) = max (e + 1) (length (all_edges g))"
    and "num_edges g1 = next_id g1" and "next_id g1 = max (e + 1) (next_id g)"
    and "\<And>i. i < length (all_edges g) \<Longrightarrow> i \<noteq> e \<Longrightarrow> weights g1 ! i = weights g ! i \<and> all_edges g1 ! i = all_edges g ! i"
proof -
  let ?st = "if length (edge_status g) \<le> e then vresize (e + 1) False (edge_status g) else edge_status g"
  let ?co = "if length (edge_status_const g) \<le> e then vresize (e + 1) False (edge_status_const g) else edge_status_const g"
  let ?ae = "if length (all_edges g) \<le> e then vresize (e + 1) no_edge (all_edges g) else all_edges g"
  let ?we = "if length (weights g) \<le> e then vresize (e + 1) 0 (weights g) else weights g"
  let ?nx = "if id0 < 0 then next_id g + 1 else if e \<ge> next_id g then e + 1 else next_id g"
  let ?m = "modifications g + 1"
  define g1 where "g1 = g\<lparr>next_id := ?nx, num_edges := ?nx,
      adjacency_list := push_at u \<lparr>e_node = v, e_id = e\<rparr> (adjacency_list g),
      adjacency_undirected_list :=
        push_at v \<lparr>e_node = u, e_id = e\<rparr> (push_at u \<lparr>e_node = v, e_id = e\<rparr> (adjacency_undirected_list g)),
      edge_status := ?st, edge_status_const := ?co,
      inverted_adjacency_list := push_at v \<lparr>e_node = u, e_id = e\<rparr> (inverted_adjacency_list g),
      all_edges := ?ae[e := \<lparr>fe_from = int u, fe_to = int v, fe_id = int e\<rparr>], weights := ?we[e := w],
      modifications := ?m, additions := ?m, edge_increases := ?m\<rparr>"
  have len: "length (edge_status g) = length (all_edges g)" "length (edge_status_const g) = length (all_edges g)"
      "length (weights g) = length (all_edges g)" using ok by (simp_all add: graph_ok_def)
  have a: "addEdge u v id0 w g = (e, enableEdge e (markChanged g1))"
    unfolding addEdge_def Let_def e [symmetric] g1_def by (rule refl)
  have nx: "?nx = max (e + 1) (next_id g)" using e by auto
  have en: "enabled (markChanged g1) = enabled g"
    by (auto simp: enabled_def fun_eq_iff markChanged_def g1_def nth_vresize split: if_splits)
  show thesis
    by (rule that [OF a]) (use len nx en in \<open>auto simp: markChanged_def g1_def nth_vresize max_def\<close>)
qed

lemma log_edge:
  assumes "graph_ok g"
  shows "log_step g (snd (addEdge u v id0 w g))"
proof -
  obtain g1 e where "addEdge u v id0 w g = (e, enableEdge e g1)" "historyclears g1 = historyclears g"
    "history_offset g1 = history_offset g" "history g1 = history g" "enabled g1 = enabled g" "e < length (edge_status g1)"
    by (rule addEdge_split [OF assms refl, of u v id0 w])
  then show ?thesis using log_start [of g1 g "enableEdge e g1"] log_enable [of e g1] by simp
qed

lemma log_node:
  assumes "upd_ok upd"
  shows "log_step g (snd (addNode upd g))"
proof -
  let ?m = "modifications g + 1"
  define g1 where "g1 = markChanged (g\<lparr>adjacency_list := adjacency_list g @ [[]],
      adjacency_undirected_list := adjacency_undirected_list g @ [[]], inverted_adjacency_list := inverted_adjacency_list g @ [[]],
      modifications := ?m, additions := ?m, deletions := ?m, edge_increases := ?m, edge_decreases := ?m\<rparr>)"
  have a: "snd (addNode upd g) = (clearHistory upd True g1)\<lparr>num_nodes := num_nodes (clearHistory upd True g1) + 1\<rparr>"
    by (simp add: addNode_def Let_def g1_def)
  have "log_step g1 (snd (addNode upd g))"
    using log_clear [OF assms, of g1 True] by (auto simp: a log_step_def enabled_def fun_eq_iff)
  then show ?thesis by (rule log_start [rotated 4]) (simp_all add: g1_def markChanged_def enabled_def fun_eq_iff)
qed

lemma graph_step_log: "graph_step upd g g' \<Longrightarrow> upd_ok upd \<Longrightarrow> graph_ok g \<Longrightarrow> log_step g g'"
  by (induction rule: graph_step.induct)
    (auto simp: log_node log_edge log_clear log_weight log_enable log_disable setEdgeEnabled_def isEdge_def graph_ok_def
      makeEdgeAssignmentConstant_def invalidate_def markChanged_def clearChanged_def addDynamicAlgorithm_def
      updateAlgorithmHistory_def Let_def intro: log_same)

section \<open>Steps and the counters\<close>

text \<open>What an algorithm that remembers the counters of \<open>g\<close> may conclude from those of \<open>g'\<close>.\<close>

definition follows :: "dgraph \<Rightarrow> dgraph \<Rightarrow> bool" where
  "follows g g' \<longleftrightarrow>
     modifications g \<le> modifications g' \<and> deletions g \<le> deletions g' \<and> additions g \<le> additions g' \<and>
     edge_increases g \<le> edge_increases g' \<and> edge_decreases g \<le> edge_decreases g' \<and>
     (\<forall>e. isEdge e g \<longrightarrow> isEdge e g' \<and> getEdge e g' = getEdge e g) \<and>
     (modifications g' = modifications g \<longrightarrow>
        edge_status g' = edge_status g \<and> weights g' = weights g \<and> all_edges g' = all_edges g) \<and>
     (deletions g' = deletions g \<longrightarrow> (\<forall>e. enabled g e \<longrightarrow> enabled g' e)) \<and>
     (additions g' = additions g \<longrightarrow> (\<forall>e. enabled g' e \<longrightarrow> enabled g e)) \<and>
     (edge_increases g' = edge_increases g \<longrightarrow> (\<forall>e. isEdge e g \<longrightarrow> getWeight e g' \<le> getWeight e g)) \<and>
     (edge_decreases g' = edge_decreases g \<longrightarrow> (\<forall>e. isEdge e g \<longrightarrow> getWeight e g \<le> getWeight e g'))"

lemma follows_refl: "follows g g"
  by (simp add: follows_def)

lemma follows_trans:
  assumes 1: "follows g g'" and 2: "follows g' g''"
  shows "follows g g''"
proof -
  note le = 1 [unfolded follows_def] 2 [unfolded follows_def]
  have mono: "modifications g \<le> modifications g'" "modifications g' \<le> modifications g''" "deletions g \<le> deletions g'"
    "deletions g' \<le> deletions g''" "additions g \<le> additions g'" "additions g' \<le> additions g''"
    "edge_increases g \<le> edge_increases g'" "edge_increases g' \<le> edge_increases g''"
    "edge_decreases g \<le> edge_decreases g'" "edge_decreases g' \<le> edge_decreases g''" using le by simp_all
  have m: "modifications g' = modifications g \<and> modifications g'' = modifications g'" if "modifications g'' = modifications g"
    using mono that by linarith
  have d: "deletions g' = deletions g \<and> deletions g'' = deletions g'" if "deletions g'' = deletions g"
    using mono that by linarith
  have a: "additions g' = additions g \<and> additions g'' = additions g'" if "additions g'' = additions g"
    using mono that by linarith
  have i: "edge_increases g' = edge_increases g \<and> edge_increases g'' = edge_increases g'" if "edge_increases g'' = edge_increases g"
    using mono that by linarith
  have c: "edge_decreases g' = edge_decreases g \<and> edge_decreases g'' = edge_decreases g'" if "edge_decreases g'' = edge_decreases g"
    using mono that by linarith
  have e: "isEdge x g' \<and> isEdge x g'' \<and> getEdge x g'' = getEdge x g" if "isEdge x g" for x using le that by simp
  show ?thesis unfolding follows_def
  proof (intro conjI)
    show "modifications g'' = modifications g \<longrightarrow>
        edge_status g'' = edge_status g \<and> weights g'' = weights g \<and> all_edges g'' = all_edges g" using m le by metis
    show "deletions g'' = deletions g \<longrightarrow> (\<forall>e. enabled g e \<longrightarrow> enabled g'' e)" using d le by metis
    show "additions g'' = additions g \<longrightarrow> (\<forall>e. enabled g'' e \<longrightarrow> enabled g e)" using a le by metis
    show "edge_increases g'' = edge_increases g \<longrightarrow> (\<forall>e. isEdge e g \<longrightarrow> getWeight e g'' \<le> getWeight e g)"
      using i le e by (metis order_trans)
    show "edge_decreases g'' = edge_decreases g \<longrightarrow> (\<forall>e. isEdge e g \<longrightarrow> getWeight e g \<le> getWeight e g'')"
      using c le e by (metis order_trans)
  qed (use le e in \<open>auto intro: order_trans\<close>)
qed

text \<open>Steps that touch none of the data concerned.\<close>

lemma follows_same:
  assumes "modifications g \<le> modifications g'" and "deletions g \<le> deletions g'" and "additions g \<le> additions g'"
    and "edge_increases g \<le> edge_increases g'" and "edge_decreases g \<le> edge_decreases g'"
    and "edge_status g' = edge_status g" and "weights g' = weights g" and "all_edges g' = all_edges g"
  shows "follows g g'"
  using assms by (simp add: follows_def isEdge_def getEdge_def getWeight_def enabled_def)

lemma ok_same:
  assumes "graph_ok g" and "additions g' \<le> modifications g'" and "deletions g' \<le> modifications g'"
    and "edge_increases g' \<le> modifications g'" and "edge_decreases g' \<le> modifications g'"
    and "length (edge_status g') = length (edge_status g)" and "length (edge_status_const g') = length (edge_status_const g)"
    and "length (weights g') = length (weights g)" and "length (all_edges g') = length (all_edges g)" and "next_id g' = next_id g"
    and "num_edges g' = num_edges g"
  shows "graph_ok g'"
  using assms by (simp add: graph_ok_def)

definition good_step :: "dgraph \<Rightarrow> dgraph \<Rightarrow> bool" where "good_step g g' \<longleftrightarrow> follows g g' \<and> graph_ok g'"

lemma good_clear:
  assumes u: "upd_ok upd" and ok: "graph_ok g"
  shows "good_step g (clearHistory upd f g)"
proof (cases rule: clearHistory_cases [OF u, of f g])
  case 1
  then show ?thesis using ok by (simp add: good_step_def follows_refl)
next
  case (2 p)
  then show ?thesis using ok by (simp add: good_step_def drop_history_def graph_ok_def follows_same)
next
  case (3 p)
  then show ?thesis using ok by (simp add: good_step_def graph_ok_def follows_same)
qed

lemma good_trans: "good_step g g' \<Longrightarrow> good_step g' g'' \<Longrightarrow> good_step g g''"
  unfolding good_step_def using follows_trans by blast

lemma good_enable:
  assumes ok: "graph_ok g" and e: "isEdge e g"
  shows "good_step g (enableEdge e g)"
proof -
  have "e < length (edge_status g)" using ok e by (simp add: graph_ok_def isEdge_def)
  then show ?thesis using ok
    by (auto simp: good_step_def follows_def enableEdge_def Let_def graph_ok_def isEdge_def getEdge_def getWeight_def
      enabled_def nth_list_update_any)
qed

lemma good_disable:
  assumes ok: "graph_ok g" and e: "isEdge e g"
  shows "good_step g (disableEdge e g)"
proof -
  have "e < length (edge_status g)" using ok e by (simp add: graph_ok_def isEdge_def)
  then show ?thesis using ok
    by (auto simp: good_step_def follows_def disableEdge_def Let_def graph_ok_def isEdge_def getEdge_def getWeight_def
      enabled_def nth_list_update_any)
qed

lemma good_weight: "graph_ok g \<Longrightarrow> good_step g (setEdgeWeight e w g)"
  by (auto simp: good_step_def follows_def setEdgeWeight_def Let_def graph_ok_def isEdge_def getEdge_def getWeight_def
      enabled_def nth_list_update_any)

lemma good_edge:
  assumes ok: "graph_ok g" and fresh: "id0 < 0 \<or> \<not> isEdge (nat id0) g"
  shows "good_step g (snd (addEdge u v id0 w g))"
proof -
  define e where "e = (if id0 < 0 then next_id g else nat id0)"
  obtain g1 where a: "addEdge u v id0 w g = (e, enableEdge e g1)" and en: "enabled g1 = enabled g" "e < length (edge_status g1)"
    and m: "modifications g1 = modifications g + 1" "additions g1 = modifications g + 1"
      "edge_increases g1 = modifications g + 1" "deletions g1 = deletions g" "edge_decreases g1 = edge_decreases g"
    and len: "length (edge_status g1) = max (e + 1) (length (all_edges g))"
      "length (edge_status_const g1) = max (e + 1) (length (all_edges g))"
      "length (all_edges g1) = max (e + 1) (length (all_edges g))" "length (weights g1) = max (e + 1) (length (all_edges g))"
      "num_edges g1 = next_id g1" "next_id g1 = max (e + 1) (next_id g)"
    and keep: "\<And>i. i < length (all_edges g) \<Longrightarrow> i \<noteq> e \<Longrightarrow> weights g1 ! i = weights g ! i \<and> all_edges g1 ! i = all_edges g ! i"
    by (rule addEdge_split [OF ok e_def, of u v w]) blast
  have "\<not> isEdge e g" using fresh ok by (auto simp: e_def isEdge_def graph_ok_def)
  then have old: "i \<noteq> e" if "isEdge i g" for i using that by auto
  have c: "additions g \<le> modifications g" "deletions g \<le> modifications g" "edge_increases g \<le> modifications g"
    "edge_decreases g \<le> modifications g" "length (all_edges g) \<le> next_id g" using ok by (simp_all add: graph_ok_def)
  have k: "isEdge i g1 \<and> getEdge i g1 = getEdge i g \<and> getWeight i g1 = getWeight i g" if i: "isEdge i g" for i
  proof -
    have "i < length (all_edges g)" using i by (simp add: isEdge_def)
    then show ?thesis using keep [of i] old [OF i] i len(3) by (simp add: isEdge_def getEdge_def getWeight_def)
  qed
  have "follows g g1" using m c en(1) k by (simp add: follows_def)
  moreover have "graph_ok g1" using m c len by (simp add: graph_ok_def)
  moreover have "good_step g1 (enableEdge e g1)"
    using calculation(2) en(2) len
    by (auto simp: good_step_def follows_def enableEdge_def Let_def graph_ok_def isEdge_def getEdge_def getWeight_def
      enabled_def nth_list_update_any)
  ultimately show ?thesis using good_trans [of g g1] by (simp add: a good_step_def)
qed

lemma good_node:
  assumes u: "upd_ok upd" and ok: "graph_ok g"
  shows "good_step g (snd (addNode upd g))"
proof -
  let ?m = "modifications g + 1"
  define g1 where "g1 = markChanged (g\<lparr>adjacency_list := adjacency_list g @ [[]],
      adjacency_undirected_list := adjacency_undirected_list g @ [[]], inverted_adjacency_list := inverted_adjacency_list g @ [[]],
      modifications := ?m, additions := ?m, deletions := ?m, edge_increases := ?m, edge_decreases := ?m\<rparr>)"
  have a: "snd (addNode upd g) = (clearHistory upd True g1)\<lparr>num_nodes := num_nodes (clearHistory upd True g1) + 1\<rparr>"
    by (simp add: addNode_def Let_def g1_def)
  have 1: "good_step g g1"
    using ok by (simp add: good_step_def g1_def markChanged_def graph_ok_def follows_same)
  then have 2: "good_step g1 (clearHistory upd True g1)" using good_clear [OF u] by (simp add: good_step_def)
  have "good_step h (h\<lparr>num_nodes := n\<rparr>)" if "graph_ok h" for h n
    using that by (simp add: good_step_def graph_ok_def follows_same)
  then show ?thesis using good_trans [OF good_trans [OF 1 2]] 2 by (simp add: a good_step_def)
qed

lemma good_same:
  assumes "graph_ok g" and "modifications g \<le> modifications g'" and "deletions g \<le> deletions g'" and "additions g \<le> additions g'"
    and "deletions g' \<le> modifications g'" and "additions g' \<le> modifications g'"
    and "edge_increases g' = edge_increases g" and "edge_decreases g' = edge_decreases g"
    and "edge_status g' = edge_status g" and "weights g' = weights g" and "all_edges g' = all_edges g"
    and "length (edge_status_const g') = length (edge_status_const g)" and "next_id g' = next_id g" and "num_edges g' = num_edges g"
  shows "good_step g g'"
  using assms by (simp add: good_step_def graph_ok_def follows_same)

lemma graph_step_good: "graph_step upd g g' \<Longrightarrow> upd_ok upd \<Longrightarrow> graph_ok g \<Longrightarrow> good_step g g'"
proof (induction rule: graph_step.induct)
  case (step_enabled e g b)
  then show ?case by (simp add: setEdgeEnabled_def good_enable good_disable)
next
  case (step_constant e g)
  then show ?case by (intro good_same) (simp_all add: makeEdgeAssignmentConstant_def graph_ok_def)
next
  case (step_invalidate g)
  then show ?case by (intro good_same) (simp_all add: invalidate_def graph_ok_def)
next
  case (step_mark g)
  then show ?case by (intro good_same) (simp_all add: markChanged_def graph_ok_def)
next
  case (step_unmark g)
  then show ?case by (intro good_same) (simp_all add: clearChanged_def graph_ok_def)
next
  case (step_register a g)
  then show ?case by (intro good_same) (simp_all add: addDynamicAlgorithm_def Let_def graph_ok_def)
next
  case (step_seen i p g)
  then show ?case by (intro good_same) (simp_all add: updateAlgorithmHistory_def graph_ok_def)
qed (simp_all add: good_node good_edge good_clear good_weight)

section \<open>Readers\<close>

definition unseen :: "dgraph \<Rightarrow> dgraph \<Rightarrow> edge_change list" where
  "unseen g g' = drop (nat (historySize g - history_offset g')) (history g')"

definition log_run :: "dgraph \<Rightarrow> dgraph \<Rightarrow> bool" where
  "log_run g g' \<longleftrightarrow> historyclears g \<le> historyclears g' \<and>
     (historyclears g' = historyclears g \<longrightarrow> historySize g \<le> historySize g' \<and>
       (history_offset g' \<le> historySize g \<longrightarrow> enabled g' = replay (unseen g g') (enabled g)))"

lemma log_run_refl: "log_run g g"
  by (simp add: log_run_def unseen_def historySize_def)

lemma log_run_step:
  assumes r: "log_run g g'" and s: "log_step g' g''"
  shows "log_run g g''"
proof -
  consider "historyclears g' < historyclears g''"
    | "historyclears g'' = historyclears g'" "history_offset g'' = historySize g'" "history g'' = []" "enabled g'' = enabled g'"
    | cs where "historyclears g'' = historyclears g'" "history_offset g'' = history_offset g'" "history g'' = history g' @ cs"
        "enabled g'' = replay cs (enabled g')" using s by (auto simp: log_step_def)
  then show ?thesis
  proof cases
    case 1
    then show ?thesis using r by (simp add: log_run_def)
  next
    case 2
    have "enabled g'' = replay (unseen g g'') (enabled g)"
      if "historyclears g'' = historyclears g" "history_offset g'' \<le> historySize g"
    proof -
      have "historySize g = historySize g'" using r that 2 by (simp add: log_run_def)
      then have "unseen g g' = []" "history_offset g' \<le> historySize g" by (simp_all add: unseen_def historySize_def)
      then show ?thesis using r that 2 by (simp add: log_run_def unseen_def)
    qed
    then show ?thesis using r 2 by (simp add: log_run_def historySize_def [of g''])
  next
    case (3 cs)
    have "unseen g g'' = unseen g g' @ cs" if "historySize g \<le> historySize g'"
      using 3 that by (simp add: unseen_def historySize_def)
    then show ?thesis using r 3 by (auto simp: log_run_def historySize_def [of g''] historySize_def [of g'])
  qed
qed

lemma graph_run_ok: "graph_run upd g g' \<Longrightarrow> upd_ok upd \<Longrightarrow> graph_ok g \<Longrightarrow> graph_ok g' \<and> follows g g' \<and> log_run g g'"
proof (induction rule: graph_run.induct)
  case (run_refl g)
  then show ?case by (simp add: follows_refl log_run_refl)
next
  case (run_step g g' g'')
  then show ?case using graph_step_good [of upd g' g''] graph_step_log [of upd g' g''] follows_trans log_run_step
    by (meson good_step_def)
qed

text \<open>C39: what an incremental graph algorithm may rely on between two of its updates.  Whatever edges and nodes were added,
  enabled, disabled or reweighted and however often the history was cleared in between (not by \<^verbatim>\<open>clear\<close>, \<^verbatim>\<open>copyTo\<close> or the
  tentative \<^verbatim>\<open>undo\<close> functions): equal \<^verbatim>\<open>modifications\<close> mean that
  nothing changed, equal \<^verbatim>\<open>deletions\<close> (\<^verbatim>\<open>additions\<close>) that no edge was disabled (enabled), equal \<^verbatim>\<open>edge_increases\<close>
  (\<^verbatim>\<open>edge_decreases\<close>) that no weight of an edge grew (fell), and, when \<^verbatim>\<open>historyclears\<close> is equal and the history still starts
  at or before the reader's position, replaying the unseen entries on the old status gives exactly the present one.
\<close>

theorem dgraph_readers:
  assumes "graph_run upd g g'" and "upd_ok upd" and "graph_ok g"
  shows "(modifications g' = modifications g \<longrightarrow> (\<forall>e. enabled g' e = enabled g e) \<and> weights g' = weights g) \<and>
    (deletions g' = deletions g \<longrightarrow> (\<forall>e. enabled g e \<longrightarrow> enabled g' e)) \<and>
    (additions g' = additions g \<longrightarrow> (\<forall>e. enabled g' e \<longrightarrow> enabled g e)) \<and>
    (edge_increases g' = edge_increases g \<longrightarrow> (\<forall>e. isEdge e g \<longrightarrow> getWeight e g' \<le> getWeight e g)) \<and>
    (edge_decreases g' = edge_decreases g \<longrightarrow> (\<forall>e. isEdge e g \<longrightarrow> getWeight e g \<le> getWeight e g')) \<and>
    (historyclears g' = historyclears g \<and> history_offset g' \<le> historySize g \<longrightarrow>
       (\<forall>e. enabled g' e = replay (unseen g g') (enabled g) e))"
  using graph_run_ok [OF assms] by (simp add: follows_def log_run_def enabled_def)

definition upd_id :: "nat \<Rightarrow> dgraph \<Rightarrow> dgraph" where "upd_id i g = g"

definition small_graph :: dgraph where
  "small_graph = snd (addEdge 0 1 (-1) 5 (snd (addNode upd_id (snd (addNode upd_id graph_new)))))"

theorem dgraph_readers_witness:
  "(\<forall>e. enabled (disableEdge 0 small_graph) e = replay (unseen small_graph (disableEdge 0 small_graph)) (enabled small_graph) e) \<and>
   length (unseen small_graph (disableEdge 0 small_graph)) = 1 \<and> enabled small_graph 0"
proof -
  have u: "upd_ok upd_id" unfolding upd_ok_def upd_id_def
  proof (intro allI)
    fix g :: dgraph
    show "\<exists>p. g = g\<lparr>dynamic_history_pos := p\<rparr>" by (rule exI [of _ "dynamic_history_pos g"]) simp
  qed
  have s: "small_graph = graph_new\<lparr>edge_status := [True], edge_status_const := [False], weights := [5], num_nodes := 2,
      num_edges := 1, next_id := 1, is_changed := True, modifications := 4, additions := 4, deletions := 2,
      edge_increases := 3, edge_decreases := 2, adjacency_list := [[\<lparr>e_node = 1, e_id = 0\<rparr>], []],
      inverted_adjacency_list := [[], [\<lparr>e_node = 0, e_id = 0\<rparr>]],
      adjacency_undirected_list := [[\<lparr>e_node = 1, e_id = 0\<rparr>], [\<lparr>e_node = 0, e_id = 0\<rparr>]],
      all_edges := [\<lparr>fe_from = 0, fe_to = 1, fe_id = 0\<rparr>],
      history := [\<lparr>addition = True, deletion = False, weight_increase = False, weight_decrease = False, ch_id = 0,
        ch_mod = 4, prev_mod = 4\<rparr>]\<rparr>"
    by code_simp
  have ok: "graph_ok small_graph" and e: "isEdge 0 small_graph" by (simp_all add: s graph_ok_def graph_new_def isEdge_def)
  have "graph_run upd_id small_graph (disableEdge 0 small_graph)"
    using run_step [OF run_refl graph_step.step_enabled [OF e, of upd_id False]] by (simp add: setEdgeEnabled_def)
  note r = dgraph_readers [OF this u ok]
  have "historyclears (disableEdge 0 small_graph) = historyclears small_graph"
    "history_offset (disableEdge 0 small_graph) \<le> historySize small_graph"
    by (simp_all add: s graph_new_def disableEdge_def historySize_def Let_def)
  then show ?thesis using r
    by (simp add: s graph_new_def disableEdge_def historySize_def Let_def unseen_def enabled_def)
qed

section \<open>Undoing\<close>

text \<open>\<^verbatim>\<open>undoDisableEdge\<close> undoes \<^verbatim>\<open>disableEdge\<close>, and \<^verbatim>\<open>rewindHistory\<close> any sequence of them.\<close>

lemma undo_disable:
  assumes "edge_status g ! e" and "e < length (edge_status g)"
  shows "undoDisableEdge e (disableEdge e g) = (True, g)"
  using assms by (simp add: undoDisableEdge_def disableEdge_def Let_def list_update_id list_update_same_conv)

lemma rewind_disables:
  "distinct es \<Longrightarrow> \<forall>e \<in> set es. e < length (edge_status g) \<and> edge_status g ! e \<Longrightarrow>
     rewindHistory (length es) (fold disableEdge es g) = Some (True, g)"
proof (induction es rule: rev_induct)
  case Nil
  then show ?case by simp
next
  case (snoc e es)
  let ?h = "fold disableEdge es g"
  have "e < length (edge_status ?h) \<and> edge_status ?h ! e"
    if "\<forall>x \<in> set es. x < length (edge_status g)" "e \<notin> set es" "e < length (edge_status g)" "edge_status g ! e"
    using that by (induction es arbitrary: g) (auto simp: disableEdge_def Let_def)
  then have h: "e < length (edge_status ?h)" "edge_status ?h ! e" using snoc.prems by auto
  have "history (disableEdge e ?h) \<noteq> []" "\<not> addition (last (history (disableEdge e ?h)))"
    "deletion (last (history (disableEdge e ?h)))" "ch_id (last (history (disableEdge e ?h))) = e"
    using h by (simp_all add: disableEdge_def Let_def)
  then show ?case using undo_disable [OF h(2,1)] snoc by simp
qed

text \<open>\<^verbatim>\<open>undoEnableEdge\<close> leaves \<^verbatim>\<open>additions\<close> where the enabling put it: the entry is made after the counter is set.\<close>

lemma undo_enable:
  assumes "\<not> edge_status g ! e" and "e < length (edge_status g)"
  shows "undoEnableEdge e (enableEdge e g) = (True, g\<lparr>additions := modifications g + 1\<rparr>)"
  using assms by (simp add: undoEnableEdge_def enableEdge_def Let_def list_update_same_conv)

text \<open>\<^verbatim>\<open>undoDisableEdge\<close> also accepts the entry of a weight change, keeps the new weight and moves \<^verbatim>\<open>deletions\<close>.\<close>

lemma undo_disable_of_weight:
  "let g = setEdgeWeight 0 7 (disableEdge 0 small_graph); (ok, g') = undoDisableEdge 0 g
   in \<not> edgeEnabled 0 g \<and> ok \<and> edgeEnabled 0 g' \<and> getWeight 0 g' = 7 \<and> deletions g' < deletions g"
  by code_simp

end
