(* ===== verification/DGL_Kruskal.thy ===== *)
theory DGL_Kruskal
  imports Main DGL_Sets DGL_Graph
begin

text \<open>
  \<^verbatim>\<open>dgl/Kruskal.h\<close>: minimum spanning forests over the enabled edges of a dynamic graph, with the union-find of
  \<^verbatim>\<open>DGL_Sets\<close>.  The result is a spanning forest of least weight.  \<^verbatim>\<open>std::sort\<close> is the parameter \<open>srt\<close>; the calls of the
  \<^verbatim>\<open>Status\<close> object are recorded in a list.
\<close>

section \<open>The algorithm\<close>

datatype mst_call = SetMinimumSpanningTree int bool | InMinimumSpanningTree nat bool

record kruskal =
  k_last_modification :: int
  k_min_weight :: int
  k_last_addition :: int
  k_last_deletion :: int
  k_history_qhead :: int
  k_last_history_clear :: int
  hasParents :: bool
  k_INF :: int
  k_sets :: disjoint_sets
  mst :: "nat list"
  reportPolarity :: int
  in_tree :: "bool list"
  parents :: "int list"
  parent_edges :: "int list"
  edge_list :: "nat list"
  stats_full_updates :: nat
  stats_skipped_updates :: nat
  stats_num_skipable_deletions :: nat
  k_num_updates :: nat

definition kruskal_new :: "int \<Rightarrow> kruskal" where
  "kruskal_new pol = \<lparr>k_last_modification = -1, k_min_weight = -1, k_last_addition = -1, k_last_deletion = -1,
     k_history_qhead = 0, k_last_history_clear = 0, hasParents = False, k_INF = 0, k_sets = sets_empty, mst = [],
     reportPolarity = pol, in_tree = [], parents = [], parent_edges = [], edge_list = [], stats_full_updates = 0,
     stats_skipped_updates = 0, stats_num_skipable_deletions = 0, k_num_updates = 0\<rparr>"

definition setNodes :: "nat \<Rightarrow> dgraph \<Rightarrow> kruskal \<Rightarrow> kruskal" where
  "setNodes n g k = k\<lparr>in_tree := vresize (nEdgeIDs g) False (in_tree k), k_sets := AddElements n (k_sets k),
     parents := vresize n 0 (parents k), parent_edges := vresize n 0 (parent_edges k)\<rparr>"

definition edge_lt :: "int list \<Rightarrow> nat \<Rightarrow> nat \<Rightarrow> bool" where "edge_lt ws x y \<longleftrightarrow> ws ! x < ws ! y"

definition edge_ends :: "dgraph \<Rightarrow> nat \<Rightarrow> nat \<times> nat" where
  "edge_ends g e = (nat (fe_from (getEdge e g)), nat (fe_to (getEdge e g)))"

fun mst_loop :: "dgraph \<Rightarrow> nat list \<Rightarrow> kruskal \<Rightarrow> kruskal option" where
  "mst_loop g [] k = Some k"
| "mst_loop g (e # es) k =
     (if \<not> edgeEnabled e g then mst_loop g es k
      else case edge_ends g e of (u, v) \<Rightarrow>
        Option.bind (FindSet u (k_sets k)) (\<lambda>(set1, d1).
        Option.bind (FindSet v d1) (\<lambda>(set2, d2).
        if set1 \<noteq> set2
        then mst_loop g es (k\<lparr>in_tree := (in_tree k)[e := True], mst := mst k @ [e],
               k_min_weight := k_min_weight k + getWeight e g, k_sets := UnionSets set1 set2 d2\<rparr>)
        else mst_loop g es (k\<lparr>k_sets := d2\<rparr>))))"

text \<open>Disabled edges and tree edges are reported as inside, the other edges as outside the tree.\<close>

definition report_edge :: "dgraph \<Rightarrow> kruskal \<Rightarrow> nat \<Rightarrow> mst_call list" where
  "report_edge g k i =
     (if reportPolarity k < 1 \<and> (\<not> edgeEnabled i g \<or> in_tree k ! i) then [InMinimumSpanningTree i True]
      else if reportPolarity k > -1 \<and> (edgeEnabled i g \<and> \<not> in_tree k ! i) then [InMinimumSpanningTree i False]
      else [])"

definition kruskal_prepare :: "((nat \<Rightarrow> nat \<Rightarrow> bool) \<Rightarrow> nat list \<Rightarrow> nat list) \<Rightarrow> dgraph \<Rightarrow> kruskal \<Rightarrow> kruskal" where
  "kruskal_prepare srt g k =
     (let k1 = k\<lparr>stats_full_updates := stats_full_updates k + 1,
                 stats_num_skipable_deletions :=
                   (if k_last_deletion k = deletions g then stats_num_skipable_deletions k + 1
                    else stats_num_skipable_deletions k),
                 hasParents := False, k_sets := Reset (k_sets k),
                 k_INF := (if k_last_modification k \<le> 0 \<or> changed g \<or> k_last_history_clear k \<noteq> historyclears g
                           then fold (\<lambda>w s. s + w) (weights g) 1 else k_INF k)\<rparr>;
          k2 = (setNodes (nodes g) g k1)\<lparr>k_min_weight := 0, mst := []\<rparr>
      in k2\<lparr>edge_list := (if length (edge_list k2) < nEdgeIDs g
                          then srt (edge_lt (weights g)) [0 ..< nEdgeIDs g] else edge_list k2),
            in_tree := map (\<lambda>_. False) (in_tree k2)\<rparr>)"

definition kruskal_finish :: "dgraph \<Rightarrow> kruskal \<Rightarrow> mst_call list \<times> kruskal" where
  "kruskal_finish g k =
     (SetMinimumSpanningTree (if NumSets (k_sets k) > 1 then k_INF k else k_min_weight k) (NumSets (k_sets k) \<le> 1)
        # concat (map (report_edge g k) [0 ..< length (in_tree k)]),
      k\<lparr>k_num_updates := k_num_updates k + 1, k_last_modification := modifications g, k_last_deletion := deletions g,
        k_last_addition := additions g, k_history_qhead := historySize g, k_last_history_clear := historyclears g\<rparr>)"

definition kruskal_update ::
  "((nat \<Rightarrow> nat \<Rightarrow> bool) \<Rightarrow> nat list \<Rightarrow> nat list) \<Rightarrow> dgraph \<Rightarrow> kruskal \<Rightarrow> (mst_call list \<times> kruskal) option" where
  "kruskal_update srt g k =
     (if k_last_modification k > 0 \<and> modifications g = k_last_modification k
      then Some ([], k\<lparr>stats_skipped_updates := stats_skipped_updates k + 1\<rparr>)
      else let k1 = kruskal_prepare srt g k
           in map_option (kruskal_finish g) (mst_loop g (edge_list k1) k1))"

text \<open>The queries bring the tree up to date first.\<close>

definition mst_query ::
  "((nat \<Rightarrow> nat \<Rightarrow> bool) \<Rightarrow> nat list \<Rightarrow> nat list) \<Rightarrow> (kruskal \<Rightarrow> 'a) \<Rightarrow> dgraph \<Rightarrow> kruskal \<Rightarrow> ('a \<times> mst_call list \<times> kruskal) option" where
  "mst_query srt f g k = map_option (\<lambda>(cs, k1). (f k1, cs, k1)) (kruskal_update srt g k)"

definition getSpanningTree where "getSpanningTree srt = mst_query srt mst"
definition edgeInTree where "edgeInTree srt e = mst_query srt (\<lambda>k. in_tree k ! e)"
definition mst_weight where "mst_weight srt = mst_query srt (\<lambda>k. if NumSets (k_sets k) > 1 then k_INF k else k_min_weight k)"
definition forestWeight where "forestWeight srt = mst_query srt k_min_weight"
definition numComponents where "numComponents srt = mst_query srt (\<lambda>k. NumSets (k_sets k))"

section \<open>Parents, components and roots\<close>

text \<open>
  Parents are built on demand by a search over the tree edges.  The result is \<open>None\<close> when a loop does not end; the
  \<^verbatim>\<open>std::logic_error\<close> of \<^verbatim>\<open>buildParents\<close> is the value \<open>Logic_error\<close>.
\<close>

datatype 'a outcome = Done 'a | Logic_error

definition then_do :: "'a outcome option \<Rightarrow> ('a \<Rightarrow> 'b outcome option) \<Rightarrow> 'b outcome option" where
  "then_do r f = Option.bind r (\<lambda>x. case x of Done y \<Rightarrow> f y | Logic_error \<Rightarrow> Some Logic_error)"

fun scan_incident ::
  "bool list \<Rightarrow> nat \<Rightarrow> nat \<Rightarrow> dedge list \<Rightarrow> int list \<times> int list \<times> nat list \<Rightarrow> (int list \<times> int list \<times> nat list) outcome" where
  "scan_incident it r u [] s = Done s"
| "scan_incident it r u (x # xs) (ps, pe, q) =
     (if e_id x \<ge> length it then Logic_error
      else if it ! e_id x \<and> ps ! e_node x = -1 \<and> e_node x \<noteq> r
      then scan_incident it r u xs (ps[e_node x := int u], pe[e_node x := int (e_id x)], q @ [e_node x])
      else scan_incident it r u xs (ps, pe, q))"

partial_function (option) grow_tree ::
  "dgraph \<Rightarrow> bool list \<Rightarrow> nat \<Rightarrow> int list \<Rightarrow> int list \<Rightarrow> nat list \<Rightarrow> (int list \<times> int list) outcome option" where
  "grow_tree g it r ps pe q =
     (if q = [] then Some (Done (ps, pe))
      else case scan_incident it r (last q) (adjacency_undirected_list g ! last q) (ps, pe, butlast q) of
             Logic_error \<Rightarrow> Some Logic_error
           | Done s \<Rightarrow> grow_tree g it r (fst s) (fst (snd s)) (snd (snd s)))"

fun build_loop :: "dgraph \<Rightarrow> nat list \<Rightarrow> kruskal \<Rightarrow> kruskal outcome option" where
  "build_loop g [] k = Some (Done k)"
| "build_loop g (i # is) k =
     Option.bind (GetElement i (k_sets k)) (\<lambda>(r, d1).
     Option.bind (FindSet r d1) (\<lambda>(s, d2).
     then_do (grow_tree g (in_tree k) r (parents k) (parent_edges k) [r]) (\<lambda>(ps, pe).
       build_loop g is (k\<lparr>k_sets := d2, parents := ps, parent_edges := pe\<rparr>))))"

definition buildParents :: "dgraph \<Rightarrow> kruskal \<Rightarrow> kruskal outcome option" where
  "buildParents g k =
     build_loop g [0 ..< nat (NumSets (k_sets k))]
       (k\<lparr>hasParents := True, parents := map (\<lambda>_. -1) (parents k), parent_edges := map (\<lambda>_. -1) (parent_edges k)\<rparr>)"

definition with_parents ::
  "((nat \<Rightarrow> nat \<Rightarrow> bool) \<Rightarrow> nat list \<Rightarrow> nat list) \<Rightarrow> dgraph \<Rightarrow> kruskal \<Rightarrow> (mst_call list \<times> kruskal) outcome option" where
  "with_parents srt g k =
     Option.bind (kruskal_update srt g k) (\<lambda>(cs, k1).
       if hasParents k1 then Some (Done (cs, k1)) else then_do (buildParents g k1) (\<lambda>k2. Some (Done (cs, k2))))"

definition getParent ::
  "((nat \<Rightarrow> nat \<Rightarrow> bool) \<Rightarrow> nat list \<Rightarrow> nat list) \<Rightarrow> dgraph \<Rightarrow> nat \<Rightarrow> kruskal \<Rightarrow> (int \<times> mst_call list \<times> kruskal) outcome option" where
  "getParent srt g v k = then_do (with_parents srt g k) (\<lambda>(cs, k1). Some (Done (parents k1 ! v, cs, k1)))"

definition getParentEdge ::
  "((nat \<Rightarrow> nat \<Rightarrow> bool) \<Rightarrow> nat list \<Rightarrow> nat list) \<Rightarrow> dgraph \<Rightarrow> nat \<Rightarrow> kruskal \<Rightarrow> (int \<times> mst_call list \<times> kruskal) outcome option" where
  "getParentEdge srt g v k =
     then_do (getParent srt g v k) (\<lambda>(p, cs, k1). Some (Done (if p \<noteq> -1 then parent_edges k1 ! v else -1, cs, k1)))"

definition getComponent ::
  "((nat \<Rightarrow> nat \<Rightarrow> bool) \<Rightarrow> nat list \<Rightarrow> nat list) \<Rightarrow> dgraph \<Rightarrow> nat \<Rightarrow> kruskal \<Rightarrow> (nat \<times> mst_call list \<times> kruskal) option" where
  "getComponent srt g v k =
     Option.bind (kruskal_update srt g k) (\<lambda>(cs, k1).
     Option.bind (FindSet v (k_sets k1)) (\<lambda>(s, d). Some (s, cs, k1\<lparr>k_sets := d\<rparr>)))"

text \<open>\<^verbatim>\<open>while (int p = getParent(u) != -1) u = p;\<close> gives \<open>p\<close> the truth value of the test, so every step goes to node 1.\<close>

partial_function (option) root_walk ::
  "((nat \<Rightarrow> nat \<Rightarrow> bool) \<Rightarrow> nat list \<Rightarrow> nat list) \<Rightarrow> dgraph \<Rightarrow> nat \<Rightarrow> mst_call list \<Rightarrow> kruskal \<Rightarrow> (nat \<times> mst_call list \<times> kruskal) outcome option" where
  "root_walk srt g u cs k =
     Option.bind (getParent srt g u k) (\<lambda>x. case x of
       Logic_error \<Rightarrow> Some Logic_error
     | Done y \<Rightarrow> if fst y \<noteq> -1 then root_walk srt g 1 (cs @ fst (snd y)) (snd (snd y))
                 else Some (Done (u, cs @ fst (snd y), snd (snd y))))"

definition getRoot ::
  "((nat \<Rightarrow> nat \<Rightarrow> bool) \<Rightarrow> nat list \<Rightarrow> nat list) \<Rightarrow> dgraph \<Rightarrow> nat \<Rightarrow> kruskal \<Rightarrow> (nat \<times> mst_call list \<times> kruskal) outcome option" where
  "getRoot srt g component k =
     then_do (with_parents srt g k) (\<lambda>(cs, k1).
       if NumSets (k_sets k1) > 1
       then Option.bind (GetElement component (k_sets k1)) (\<lambda>(u, d). root_walk srt g u cs (k1\<lparr>k_sets := d\<rparr>))
       else root_walk srt g 0 cs k1)"

text \<open>The search ends: every node it pushes gets a parent, and had none.\<close>

definition orphans :: "int list \<Rightarrow> nat" where "orphans ps = length (filter (\<lambda>p. p = -1) ps)"

lemma orphans_update: "i < length ps \<Longrightarrow> ps ! i = -1 \<Longrightarrow> p \<noteq> -1 \<Longrightarrow> Suc (orphans (ps[i := p])) = orphans ps"
  unfolding orphans_def by (induction ps arbitrary: i) (auto simp: nth_Cons split: nat.splits)

lemma scan_incident_bound:
  assumes "\<forall>x \<in> set xs. e_node x < n" and "length ps = n"
    and "scan_incident it r u xs (ps, pe, q) = Done (ps', pe', q')" and "set q \<subseteq> {..< n}"
  shows "length ps' = n \<and> set q' \<subseteq> {..< n} \<and> 2 * orphans ps' + length q' \<le> 2 * orphans ps + length q"
  using assms
proof (induction xs arbitrary: ps pe q)
  case Nil
  then show ?case by simp
next
  case (Cons x xs)
  show ?case
  proof (cases "it ! e_id x \<and> ps ! e_node x = -1 \<and> e_node x \<noteq> r")
    case True
    have "Suc (orphans (ps[e_node x := int u])) = orphans ps" using Cons.prems(1,2) True by (intro orphans_update) auto
    then show ?thesis
      using Cons.IH [of "ps[e_node x := int u]" "pe[e_node x := int (e_id x)]" "q @ [e_node x]"] Cons.prems True
      by (auto split: if_splits)
  next
    case False
    then show ?thesis using Cons.IH [of ps pe q] Cons.prems by (auto split: if_splits)
  qed
qed

lemma grow_tree_ends:
  assumes "\<forall>v < n. \<forall>x \<in> set (adjacency_undirected_list g ! v). e_node x < n"
    and "length ps = n" and "set q \<subseteq> {..< n}"
  shows "grow_tree g it r ps pe q \<noteq> None"
  using assms(2,3)
proof (induction "2 * orphans ps + length q" arbitrary: ps pe q rule: less_induct)
  case less
  show ?case
  proof (cases "q = []")
    case True
    then show ?thesis by (subst grow_tree.simps) simp
  next
    case False
    then have l: "last q < n" "length (butlast q) < length q" "set (butlast q) \<subseteq> {..< n}"
      using less.prems(2) last_in_set [OF False] in_set_butlastD by fastforce+
    show ?thesis
    proof (cases "scan_incident it r (last q) (adjacency_undirected_list g ! last q) (ps, pe, butlast q)")
      case (Done s')
      obtain ps' pe' q' where s': "s' = (ps', pe', q')" using prod_cases3 by blast
      have b: "length ps' = n \<and> set q' \<subseteq> {..< n} \<and> 2 * orphans ps' + length q' \<le> 2 * orphans ps + length (butlast q)"
        by (rule scan_incident_bound [OF _ less.prems(1) _ l(3)]) (use assms(1) l(1) Done s' in auto)
      then have "grow_tree g it r ps' pe' q' \<noteq> None" using less.hyps [of ps' q' pe'] b l(2) by simp
      then show ?thesis using False Done s' by (subst grow_tree.simps) simp
    next
      case Logic_error
      then show ?thesis using False by (subst grow_tree.simps) simp
    qed
  qed
qed

section \<open>Forests\<close>














section \<open>The greedy invariant\<close>







section \<open>Correctness of the loop\<close>






section \<open>Correctness of the update\<close>





text \<open>A sort for concrete inputs, and a triangle.\<close>

fun insert_by :: "(nat \<Rightarrow> nat \<Rightarrow> bool) \<Rightarrow> nat \<Rightarrow> nat list \<Rightarrow> nat list" where
  "insert_by lt x [] = [x]"
| "insert_by lt x (y # ys) = (if lt y x then y # insert_by lt x ys else x # y # ys)"

definition sort_by :: "(nat \<Rightarrow> nat \<Rightarrow> bool) \<Rightarrow> nat list \<Rightarrow> nat list" where "sort_by lt xs = foldr (insert_by lt) xs []"



definition triangle :: dgraph where
  "triangle = snd (addEdge 2 0 (-1) 2 (snd (addEdge 1 2 (-1) 9 (snd (addEdge 0 1 (-1) 5 (addNodes upd_id 3 graph_new))))))"





text \<open>After a change of weights the old order is used again: the second tree of the triangle is not minimal.\<close>

lemma kruskal_stale_order:
  "map_option (\<lambda>(_, k). (mst k, k_min_weight k))
     (Option.bind (kruskal_update sort_by triangle (kruskal_new 0)) (\<lambda>(_, k). kruskal_update sort_by (setEdgeWeight 2 20 triangle) k)) =
     Some ([2, 0], 25) \<and>
   map_option (\<lambda>(_, k). (mst k, k_min_weight k)) (kruskal_update sort_by (setEdgeWeight 2 20 triangle) (kruskal_new 0)) =
     Some ([0, 1], 14)"
  by code_simp

end
