(* ===== verification/Spec2Isabelle.thy ===== *)
theory Spec2Isabelle
  imports Prelude MTL_Vec MTL_Sort MTL_Queue MTL_Heap MTL_Alloc MTL_Rnd SolverTypes Clauses
    Solver_State Solver_Ops Solver_Propagate Watches BCP Solver_Build Solver_AddClause
    Solver_Analyze Solver_Backtrack Conflict Conflict_Min Analyze_Correct
    MTL_Map MTL_Sets Luby Solver_GC GC_Correct Clean_Correct Solver_Search Search_Inv Search_Learn Search_Clean
    Search_Decide Search_Step Search_Iter Search_Total Search_Solve Search_Session
    Solver_Dimacs Dimacs_Correct Circuit Circuit_Correct AMO DGL_Sets DGL_Graph DGL_Kruskal
begin

text \<open>
  A model of MonoSAT, a solver for SAT modulo monotonic theories, as a library of theories that follow the
  directories of \<^verbatim>\<open>src/src/monosat\<close>.  A CDCL solver (\<^verbatim>\<open>core/\<close>) over MiniSat's containers (\<^verbatim>\<open>mtl/\<close>) calls
  theory solvers through the virtual methods of \<^verbatim>\<open>core/Theory.h\<close>; everything else builds clauses for it or is a
  theory.  The graph theories rest on the graph library \<^verbatim>\<open>dgl/\<close>, of which the dynamic graph and its spanning trees
  are modelled.

  \<^bold>\<open>Containers.\<close>  \<open>MTL_Vec\<close>, \<open>MTL_Sort\<close>, \<open>MTL_Queue\<close>, \<open>MTL_Heap\<close>, \<open>MTL_Alloc\<close>, \<open>MTL_Rnd\<close>, \<open>MTL_Map\<close> and
  \<open>MTL_Sets\<close> are the headers of \<^verbatim>\<open>mtl/\<close> under their own names: vectors are lists, capacities and references are
  machine words.  The properties are refinements of lists, queues, priority queues, finite maps and sets, each
  proved in a locale for the interface and interpreted on the code's model, and bounds: no overflow of sizes.  The
  indices of queues and heaps are natural numbers, which is the code below 715827883 elements.  Whether \<^verbatim>\<open>realloc\<close>
  provides a capacity is a parameter, the field \<open>rmem\<close> of a region; when it does not, the outcome is
  \<open>OutOfMemoryException\<close>.

  \<^bold>\<open>The solver's data.\<close>  \<open>SolverTypes\<close> (literals, lifted booleans), \<open>Clauses\<close> (clauses, the clause allocator with
  relocation, occurrence lists with lazy deletion) and \<open>Solver_State\<close> (the record \<open>solver\<close>, field by field that of
  \<^verbatim>\<open>core/Solver.h\<close>, its accessors and heuristics).

  \<^bold>\<open>The solver's operations.\<close>  \<open>Solver_Ops\<close> (enqueue, backtracking, variables, attaching and removing clauses),
  \<open>Solver_Propagate\<close> (unit and theory propagation, conflict clauses of theories, adding clauses), \<open>Solver_Analyze\<close>
  (conflict analysis and minimisation), \<open>Solver_GC\<close> (garbage collection, clause deletion, simplification), \<open>Luby\<close>,
  \<open>Solver_Search\<close> (decisions, the search loop, restarts, solving under assumptions) and \<open>Solver_Dimacs\<close>.  State is
  passed explicitly; \<open>None\<close> means that the code does not return (it throws, or its loop does not end); theories are
  a parameter, the record \<open>theory_ops\<close> of functions on an abstract state; \<^verbatim>\<open>enqueueTheory\<close>, \<^verbatim>\<open>propagateTheory\<close> and
  \<^verbatim>\<open>buildReason\<close> may call back, so they map solvers to solvers.

  \<^bold>\<open>The solver's correctness.\<close>  The invariant \<open>BCP.solver_inv\<close> says that trail and assignment agree, that the watcher
  lists, lazily deleted entries aside, hold exactly one watcher for each of the first two literals of every
  attached clause (\<open>Watches\<close>), and that a reason clause has its literal first and is false otherwise.  \<open>BCP\<close>: unit
  propagation returns, is sound and is complete.  \<open>Solver_Build\<close>, \<open>Solver_AddClause\<close>: constructing solvers, variables
  and clauses establishes the invariant, and adding a clause changes the models by that clause.
  \<open>Solver_Backtrack\<close>: backtracking keeps it.  \<open>Conflict\<close>, \<open>Conflict_Min\<close>, \<open>Analyze_Correct\<close>: conflict analysis
  returns an implied, asserting clause in every minimisation mode.  \<open>GC_Correct\<close>: a collection is a renaming of
  the references of clause lists, watchers and reasons and changes nothing else.  \<open>Clean_Correct\<close>: removing clauses
  keeps the invariant of the others.  A theory whose \<^verbatim>\<open>enqueueTheory\<close> enqueues literals at once extends the trail
  beyond what the clauses imply; these theorems assume \<open>BCP.calm\<close>: no variable belongs to a theory, or the
  callbacks only record what they are told.

  \<^bold>\<open>The search.\<close>  \<open>Search_Inv.good\<close> is the invariant of the search of a solver without theories, relative to the set
  \<open>P\<close> of the models of the problem: the clauses and root literals define \<open>P\<close>, the learnt clauses follow from it,
  levels, heap and clause region are in order, and the assumptions are decided first.  \<open>Search_Inv\<close> (propagation),
  \<open>Search_Learn\<close> (backjumping, learning, assigning), \<open>Search_Clean\<close> (reducing, simplifying, rebuilding the heap) and
  \<open>Search_Decide\<close>, \<open>Search_Step\<close> (assumptions, branching, the final conflict) show that every part of an iteration
  returns and keeps it, \<open>Search_Iter\<close> that an iteration does.  \<open>Search_Total\<close> proves the loop total by the measure
  \<open>rank\<close>: with a conflict budget, a conflict uses the budget up, a decision raises the level, which is bounded by
  the variables and assumptions, and without budget the level falls.  \<open>Search_Solve\<close> adds the restarts, whose limits
  are at least 1, and the end of \<^verbatim>\<open>solve_\<close>.  \<open>Search_Session\<close> composes everything: in every sequence of creating
  variables, adding clauses and solving, \<^verbatim>\<open>solveLimited\<close> returns the right answer; a session starts with the empty
  region of 1024 * 1024 cells of \<^verbatim>\<open>ClauseAllocator\<close> and with memory.  \<open>reserve\<close> is the number of
  conflicts that remain possible; a learnt clause takes at most two cells more than there are variables, and
  \<open>sized\<close> asks for that memory.  \<open>Dimacs_Correct\<close>: the file that \<^verbatim>\<open>toDimacs\<close> writes at the root level of a session
  has the models of the problem and of the assumptions that the solver holds.

  \<^bold>\<open>Clients of the solver.\<close>  \<open>Circuit\<close> is \<^verbatim>\<open>api/Circuit.h\<close> over an abstract clause database; \<open>Circuit_Correct\<close> proves
  the gates and adders in the locale of that interface, interpreted on the CDCL solver.  \<open>AMO\<close> is the at-most-one
  theory with the exactness of its conflicts and reasons.

  \<^bold>\<open>Graphs.\<close>  \<open>DGL_Graph\<close> is \<^verbatim>\<open>dgl/DynamicGraph.h\<close>: edges that are enabled and disabled, with a history that
  incremental algorithms replay; \<open>graph_step\<close> are the changes, and the property is what a reader may conclude from
  the counters and the history.  \<open>DGL_Sets\<close> is \<^verbatim>\<open>dgl/alg/DisjointSets\<close>, a refinement of partitions, in the locale
  \<open>union_find\<close>.  \<open>DGL_Kruskal\<close> is \<^verbatim>\<open>dgl/Kruskal.h\<close> over both: the edges selected are a spanning forest of least
  weight (\<open>exchange\<close> is the exchange argument, \<open>greedy\<close> the invariant of the loop).

  \<^bold>\<open>Conventions.\<close>  The doubles and floats of the heuristics are reals; the seed of the random generator is an exact
  number.  Statements about memory assume regions below 8/13 of the 32-bit range, where growing them cannot wrap.

  \<^bold>\<open>Not modelled.\<close>  A solver used as a theory of another one, detaching theories, statistics and other output,
  option tables, file parsers and the language bindings, which are glue; the preprocessing of \<^verbatim>\<open>simp/\<close> and the
  encodings of \<^verbatim>\<open>pb/\<close>, which the core runs without; the graph, automaton and bit-vector theories and the other graph
  algorithms, which the core reaches only through the theory interface; geometry and the vendored code.
\<close>

end
